(* ===== verification/Prelude.thy ===== *)
theory Prelude
  imports Main "HOL-Library.Multiset" "HOL-Library.Word"
begin

text \<open>
  What every component of the development shares: the error values of the program and the
  result type that carries them, the sequencing of fallible and of stateful fallible steps,
  the fact collections the component proofs draw on, and generic lemmas on lists.

  A Go function that returns \<open>(T, error)\<close> is a function into \<open>T res\<close>.  Go distinguishes
  errors with \<open>errors.Is\<close> against sentinel values, which survive wrapping with \<open>%w\<close>; an
  error is therefore the list of sentinels it wraps plus the constant part of its message.
  A function that also changes state maps a state to a result and the state it leaves, so
  that the effects made before an early error return stay visible.
\<close>

named_theorems res_simps \<open>evaluation of fallible and stateful steps\<close>
named_theorems table_simps \<open>lookups after updates of keyed tables\<close>
named_theorems bytes_simps \<open>fixed width byte encodings\<close>

section \<open>Errors\<close>

text \<open>The sentinels the packages export (or keep, for \<open>errOffline\<close>) and test with \<open>errors.Is\<close>.\<close>

datatype sentinel =
    ErrInvalid | ErrCorrupt | ErrManifestNotFound | ErrLocalNotFound | ErrStaleHead
  | ErrNoSession | ErrVaultOffline | ErrPackerOffline | ErrForeignModel | ErrCorruptIndex
  | ErrKeepSetDegenerate | ErrNotOursToRelease | ErrStaleLocation | ErrIndexerUnreachable
  | ErrNoRecord | ErrNotOnboarded | ErrNoAppKey | ErrAppKeyLength | ErrWrongPhrase
  | ErrPhrase | ErrNoPhrase | ErrUnauthorized

datatype goerr = GoErr (wraps: "sentinel list") (why: string)

type_synonym 'a res = "goerr + 'a"

definition errors_Is :: "goerr \<Rightarrow> sentinel \<Rightarrow> bool" where
  "errors_Is e s = (s \<in> set (wraps e))"

lemma errors_Is_GoErr [simp, res_simps]: "errors_Is (GoErr ss m) s = (s \<in> set ss)"
  by (simp add: errors_Is_def)

definition fail :: "sentinel list \<Rightarrow> string \<Rightarrow> 'a res" where
  "fail ss m = Inl (GoErr ss m)"

text \<open>\<open>fmt.Errorf("...: %w", err)\<close>: the sentinels stay, the message gets a prefix.\<close>

definition wrap_err :: "string \<Rightarrow> goerr \<Rightarrow> goerr" where
  "wrap_err m e = GoErr (wraps e) (m @ why e)"

lemma errors_Is_wrap [simp]: "errors_Is (wrap_err m e) s = errors_Is e s"
  by (simp add: wrap_err_def errors_Is_def)

lemma wraps_wrap_err [simp]: "wraps (wrap_err m e) = wraps e"
  by (simp add: wrap_err_def)

lemma fail_is_Inl [simp]: "fail ss m = Inl (GoErr ss m)"
  by (simp add: fail_def)

section \<open>Sequencing\<close>

definition rbind :: "'a res \<Rightarrow> ('a \<Rightarrow> 'b res) \<Rightarrow> 'b res" where
  "rbind r f = (case r of Inl e \<Rightarrow> Inl e | Inr x \<Rightarrow> f x)"

lemma rbind_simps [simp, res_simps]:
  "rbind (Inl e) f = Inl e" "rbind (Inr x) f = f x"
  by (simp_all add: rbind_def)

lemma rbind_Inr_iff: "rbind r f = Inr y \<longleftrightarrow> (\<exists>x. r = Inr x \<and> f x = Inr y)"
  by (cases r) auto

lemma rbind_Inl_iff: "rbind r f = Inl e \<longleftrightarrow> r = Inl e \<or> (\<exists>x. r = Inr x \<and> f x = Inl e)"
  by (cases r) auto

definition check :: "bool \<Rightarrow> sentinel list \<Rightarrow> string \<Rightarrow> unit res" where
  "check bad ss m = (if bad then fail ss m else Inr ())"

lemma check_Inr_iff [simp]: "check bad ss m = Inr u \<longleftrightarrow> \<not> bad"
  by (simp add: check_def)

lemma check_Inl_iff: "check bad ss m = Inl e \<longleftrightarrow> bad \<and> e = GoErr ss m"
  by (auto simp: check_def)

lemma check_bools [simp, res_simps]: "check True ss m = Inl (GoErr ss m)" "check False ss m = Inr ()"
  by (simp_all add: check_def)

text \<open>The first failing check of a list of checks, in order: a \<open>switch\<close> of error cases.\<close>

fun first_fail :: "unit res list \<Rightarrow> unit res" where
  "first_fail [] = Inr ()"
| "first_fail (Inl e # rs) = Inl e"
| "first_fail (Inr _ # rs) = first_fail rs"

lemma first_fail_Inr_iff: "first_fail rs = Inr u \<longleftrightarrow> (\<forall>r \<in> set rs. r = Inr ())"
  by (induction rs rule: first_fail.induct) auto

lemma first_fail_Cons: "first_fail (r # rs) = rbind r (\<lambda>_. first_fail rs)"
  by (cases r) auto

lemma first_fail_error: "first_fail rs = Inl e \<Longrightarrow> Inl e \<in> set rs"
  by (induction rs rule: first_fail.induct) auto

text \<open>Stateful fallible steps.\<close>

type_synonym ('s, 'a) step = "'s \<Rightarrow> 'a res \<times> 's"

definition sret :: "'a \<Rightarrow> ('s, 'a) step" where
  "sret x s = (Inr x, s)"

definition sfail :: "goerr \<Rightarrow> ('s, 'a) step" where
  "sfail e s = (Inl e, s)"

definition sbind :: "('s, 'a) step \<Rightarrow> ('a \<Rightarrow> ('s, 'b) step) \<Rightarrow> ('s, 'b) step" where
  "sbind m f s = (case m s of (Inl e, s') \<Rightarrow> (Inl e, s') | (Inr x, s') \<Rightarrow> f x s')"

definition slift :: "'a res \<Rightarrow> ('s, 'a) step" where
  "slift r s = (r, s)"

definition sget :: "('s \<Rightarrow> 'a) \<Rightarrow> ('s, 'a) step" where
  "sget f s = (Inr (f s), s)"

definition smod :: "('s \<Rightarrow> 's) \<Rightarrow> ('s, unit) step" where
  "smod f s = (Inr (), f s)"

lemmas step_defs = sret_def sfail_def sbind_def slift_def sget_def smod_def

fun smap_list :: "('a \<Rightarrow> ('s, unit) step) \<Rightarrow> 'a list \<Rightarrow> ('s, unit) step" where
  "smap_list f [] = sret ()"
| "smap_list f (x # xs) = sbind (f x) (\<lambda>_. smap_list f xs)"

text \<open>Steps that may not come back: a loop a service may never end, or a panic that ends the process.\<close>

type_synonym ('s, 'a) run = "'s \<Rightarrow> ('a res \<times> 's) option"

definition prun :: "('s, 'a) step \<Rightarrow> ('s, 'a) run" where
  "prun m s = Some (m s)"

definition pbind :: "('s, 'a) run \<Rightarrow> ('a \<Rightarrow> ('s, 'b) run) \<Rightarrow> ('s, 'b) run" where
  "pbind m f s = (case m s of None \<Rightarrow> None
     | Some (Inl e, s') \<Rightarrow> Some (Inl e, s') | Some (Inr x, s') \<Rightarrow> f x s')"

lemma prun_Some [simp]: "prun m s = Some y \<longleftrightarrow> m s = y"
  by (simp add: prun_def)

lemma pbind_Inr_iff:
  "pbind m f s = Some (Inr y, t) \<longleftrightarrow> (\<exists>x s'. m s = Some (Inr x, s') \<and> f x s' = Some (Inr y, t))"
  by (auto simp: pbind_def split: option.splits prod.splits sum.splits)

lemma sbind_Inr_iff:
  "sbind m f s = (Inr y, t) \<longleftrightarrow> (\<exists>x s'. m s = (Inr x, s') \<and> f x s' = (Inr y, t))"
  by (auto simp: sbind_def split: prod.splits sum.splits)

text \<open>An invariant every step keeps is kept by a loop over them, errors included.\<close>

definition preserves :: "('s \<Rightarrow> bool) \<Rightarrow> ('s, 'a) step \<Rightarrow> bool" where
  "preserves P m \<longleftrightarrow> (\<forall>s. P s \<longrightarrow> P (snd (m s)))"

lemma preservesI: "(\<And>s. P s \<Longrightarrow> P (snd (m s))) \<Longrightarrow> preserves P m"
  by (simp add: preserves_def)

lemma preservesD: "preserves P m \<Longrightarrow> P s \<Longrightarrow> P (snd (m s))"
  by (simp add: preserves_def)

lemma preserves_sbind [intro]:
  assumes "preserves P m" and "\<And>x. preserves P (f x)"
  shows "preserves P (sbind m f)"
proof (rule preservesI)
  fix s assume "P s"
  with assms(1) have "P (snd (m s))" by (rule preservesD)
  then show "P (snd (sbind m f s))"
    using assms(2) by (auto simp: sbind_def preserves_def split: prod.splits sum.splits)
qed

lemma preserves_pure [intro, simp]:
  "preserves P (sret x)" "preserves P (sfail e)" "preserves P (slift r)" "preserves P (sget g)"
  by (simp_all add: preserves_def step_defs)

lemma preserves_smod: "(\<And>s. P s \<Longrightarrow> P (f s)) \<Longrightarrow> preserves P (smod f)"
  by (simp add: preserves_def smod_def)

lemma preserves_smap_list [intro]:
  assumes "\<And>x. preserves P (f x)"
  shows "preserves P (smap_list f xs)"
  using assms by (induction xs) auto

section \<open>Lists\<close>

text \<open>The index of the first element that satisfies a predicate (a \<open>for\<close> loop with \<open>break\<close>).\<close>

fun index_of :: "('a \<Rightarrow> bool) \<Rightarrow> 'a list \<Rightarrow> nat option" where
  "index_of p [] = None"
| "index_of p (x # xs) = (if p x then Some 0 else map_option Suc (index_of p xs))"

lemma index_of_None: "index_of p xs = None \<longleftrightarrow> (\<forall>x \<in> set xs. \<not> p x)"
  by (induction xs) auto

lemma index_of_Some:
  "index_of p xs = Some i \<Longrightarrow> i < length xs \<and> p (xs ! i) \<and> (\<forall>j < i. \<not> p (xs ! j))"
proof (induction xs arbitrary: i)
  case Nil
  then show ?case by simp
next
  case (Cons x xs)
  show ?case
  proof (cases "p x")
    case True
    with Cons.prems show ?thesis by simp
  next
    case False
    with Cons.prems obtain k where k: "index_of p xs = Some k" "i = Suc k" by auto
    from Cons.IH [OF k(1)] False k(2) show ?thesis
      by (auto simp: nth_Cons split: nat.splits)
  qed
qed

lemma index_of_snoc:
  "index_of f (xs @ [x]) = (case index_of f xs of Some p \<Rightarrow> Some p
     | None \<Rightarrow> if f x then Some (length xs) else None)"
  by (induction xs) (auto split: option.split)

text \<open>Keys in the order they first appear.\<close>

fun distinct_keys :: "'k list \<Rightarrow> 'k list \<Rightarrow> 'k list" where
  "distinct_keys seen [] = seen"
| "distinct_keys seen (k # ks) =
     (if k \<in> set seen then distinct_keys seen ks else distinct_keys (seen @ [k]) ks)"

lemma set_distinct_keys [simp]: "set (distinct_keys seen ks) = set seen \<union> set ks"
  by (induction ks arbitrary: seen) auto

lemma distinct_distinct_keys: "distinct seen \<Longrightarrow> distinct (distinct_keys seen ks)"
  by (induction ks arbitrary: seen) auto

lemma distinct_keys_id: "set ks \<subseteq> set seen \<Longrightarrow> distinct_keys seen ks = seen"
  by (induction ks) auto

lemma distinct_keys_append:
  "distinct_keys seen (ks @ ks') = distinct_keys (distinct_keys seen ks) ks'"
  by (induction ks arbitrary: seen) auto

lemma distinct_keys_fresh:
  "distinct (seen @ ks) \<Longrightarrow> distinct_keys seen ks = seen @ ks"
proof (induction ks arbitrary: seen)
  case Nil
  then show ?case by simp
next
  case (Cons k ks)
  then have "distinct ((seen @ [k]) @ ks)" by simp
  from Cons.IH [OF this] Cons.prems show ?case by simp
qed

lemma take_drop_nth: "i < length xs \<Longrightarrow> take i xs @ xs ! i # drop (Suc i) xs = xs"
  by (simp add: id_take_nth_drop [symmetric])

lemma list_all_map_of:
  "map_of xs k = Some v \<Longrightarrow> (\<And>x. x \<in> set xs \<Longrightarrow> P x) \<Longrightarrow> P (k, v)"
  by (meson map_of_SomeD)

end
