(* ===== verification/GoLib.thy ===== *)
theory GoLib
  imports Prelude "HOL-Library.Sublist"
begin

text \<open>
  The parts of Go and of its standard library the program uses: fixed width and variable
  width integers in bytes (\<open>encoding/binary\<close>), hexadecimal and base64 text
  (\<open>encoding/hex\<close>, \<open>encoding/base64\<close>), byte strings (\<open>strings\<close>), clock values (\<open>time\<close>)
  and stable sorting (\<open>sort.SliceStable\<close>).  A Go string is a sequence of bytes, so it is an
  Isabelle \<open>string\<close> whose characters are bytes and whose length is Go's \<open>len\<close>.
\<close>

type_synonym byte = "8 word"

section \<open>Fixed width integers in bytes\<close>

primrec be_bytes :: "nat \<Rightarrow> nat \<Rightarrow> byte list" where
  "be_bytes 0 x = []"
| "be_bytes (Suc n) x = be_bytes n (x div 256) @ [of_nat x]"

definition be_val :: "byte list \<Rightarrow> nat" where
  "be_val bs = foldl (\<lambda>a b. a * 256 + unat b) 0 bs"

definition le_bytes :: "nat \<Rightarrow> nat \<Rightarrow> byte list" where
  "le_bytes n x = rev (be_bytes n x)"

definition le_val :: "byte list \<Rightarrow> nat" where
  "le_val bs = be_val (rev bs)"

lemma length_be_bytes [simp, bytes_simps]: "length (be_bytes n x) = n"
  by (induction n arbitrary: x) auto

lemma length_le_bytes [simp, bytes_simps]: "length (le_bytes n x) = n"
  by (simp add: le_bytes_def)

lemma be_val_Nil [simp]: "be_val [] = 0"
  by (simp add: be_val_def)

lemma be_val_snoc [simp]: "be_val (bs @ [b]) = be_val bs * 256 + unat b"
  by (simp add: be_val_def)

lemma unat_byte_lt [simp]: "unat (b :: byte) < 256"
  using unsigned_less [of b] by simp

lemma unat_of_nat_byte [simp]: "unat (of_nat x :: byte) = x mod 256"
  by (simp add: unat_of_nat)

lemma unat_eq_iff_byte: "a = (b :: byte) \<longleftrightarrow> unat a = unat b"
  by (metis of_nat_unat ucast_id)

lemma be_val_be_bytes [simp, bytes_simps]: "be_val (be_bytes n x) = x mod 256 ^ n"
proof (induction n arbitrary: x)
  case 0
  then show ?case by simp
next
  case (Suc n)
  have "be_val (be_bytes (Suc n) x) = (x div 256) mod 256 ^ n * 256 + x mod 256"
    by (simp add: Suc.IH)
  also have "\<dots> = x mod (256 * 256 ^ n)"
    by (simp add: mod_mult2_eq)
  finally show ?case by simp
qed

lemma be_val_lt: "be_val bs < 256 ^ length bs"
proof (induction bs rule: rev_induct)
  case Nil
  then show ?case by simp
next
  case (snoc b bs)
  have "unat b < 256" by simp
  with snoc have "be_val bs * 256 + unat b < (be_val bs + 1) * 256" by simp
  also have "\<dots> \<le> 256 ^ length bs * 256"
    using snoc by (intro mult_right_mono) auto
  finally show ?case by (simp add: mult.commute)
qed

lemma be_bytes_be_val [simp, bytes_simps]: "be_bytes (length bs) (be_val bs) = bs"
proof (induction bs rule: rev_induct)
  case Nil
  then show ?case by simp
next
  case (snoc b bs)
  have "(of_nat (be_val bs * 256 + unat b) :: byte) = b"
    by (simp only: unat_eq_iff_byte unat_of_nat_byte) simp
  with snoc show ?case by simp
qed

lemma be_bytes_be_val_length: "length bs = n \<Longrightarrow> be_bytes n (be_val bs) = bs"
  using be_bytes_be_val [of bs] by simp

lemma le_val_le_bytes [simp, bytes_simps]: "le_val (le_bytes n x) = x mod 256 ^ n"
  by (simp add: le_val_def le_bytes_def)

lemma le_bytes_le_val: "length bs = n \<Longrightarrow> le_bytes n (le_val bs) = bs"
  using be_bytes_be_val_length [of "rev bs" n] by (simp add: le_bytes_def le_val_def)

section \<open>Unsigned varints\<close>

text \<open>\<open>binary.AppendUvarint\<close>: seven bits a byte, least significant first.\<close>

function put_uvarint :: "nat \<Rightarrow> byte list" where
  "put_uvarint x = (if x < 128 then [of_nat x]
     else of_nat (x mod 128 + 128) # put_uvarint (x div 128))"
  by pat_completeness auto
termination by (relation "measure id") auto

declare put_uvarint.simps [simp del]

text \<open>
  \<open>binary.Uvarint\<close>: the value and the number of bytes read; zero bytes when the buffer ends
  inside the number, a negative count when the value does not fit 64 bits.
\<close>

fun uvarint_loop :: "nat \<Rightarrow> nat \<Rightarrow> nat \<Rightarrow> byte list \<Rightarrow> nat \<times> int" where
  "uvarint_loop i x s [] = (0, 0)"
| "uvarint_loop i x s (b # bs) =
     (if i = 10 then (0, - (int i + 1))
      else if unat b < 128
        then (if i = 9 \<and> 1 < unat b then (0, - (int i + 1)) else (x + unat b * 2 ^ s, int i + 1))
      else uvarint_loop (Suc i) (x + (unat b mod 128) * 2 ^ s) (s + 7) bs)"

definition uvarint :: "byte list \<Rightarrow> nat \<times> int" where
  "uvarint bs = uvarint_loop 0 0 0 bs"

lemma put_uvarint_nonempty: "put_uvarint x \<noteq> []"
  by (subst put_uvarint.simps) simp

lemma digit_128: "x mod 128 * p + x div 128 * (128 * p) = x * (p :: nat)"
proof -
  have "x mod 128 * p + x div 128 * (128 * p) = (x mod 128 + x div 128 * 128) * p"
    by (simp only: distrib_right mult.assoc)
  then show ?thesis by (simp only: mod_div_mult_eq)
qed

lemma uvarint_loop_put:
  "x < 2 ^ (64 - 7 * i) \<Longrightarrow> i \<le> 9 \<Longrightarrow>
   uvarint_loop i a (7 * i) (put_uvarint x @ rest)
     = (a + x * 2 ^ (7 * i), int i + int (length (put_uvarint x)))"
proof (induction x arbitrary: i a rule: put_uvarint.induct)
  case (1 x)
  show ?case
  proof (cases "x < 128")
    case True
    have "\<not> (i = 9 \<and> 1 < x)" using "1.prems" by auto
    with True "1.prems"(2) show ?thesis
      by (subst (1 2) put_uvarint.simps) auto
  next
    case False
    have i: "i < 9"
    proof (rule ccontr)
      assume "\<not> i < 9"
      with "1.prems" have "i = 9" by simp
      with "1.prems"(1) have "x < 2" by simp
      with False show False by simp
    qed
    then have exp: "64 - 7 * i = (64 - 7 * Suc i) + 7" by simp
    from "1.prems"(1) have "x < 2 ^ (64 - 7 * Suc i) * 128"
      by (simp only: exp power_add) simp
    then have lt: "x div 128 < 2 ^ (64 - 7 * Suc i)"
      by (simp add: less_mult_imp_div_less)
    have IH: "uvarint_loop (Suc i) (a + x mod 128 * 2 ^ (7 * i)) (7 * Suc i)
        (put_uvarint (x div 128) @ rest)
      = (a + x mod 128 * 2 ^ (7 * i) + x div 128 * 2 ^ (7 * Suc i),
         int (Suc i) + int (length (put_uvarint (x div 128))))"
      by (rule "1.IH") (use False lt i in auto)
    have m: "(x mod 128 + 128) mod 256 = x mod 128 + 128"
      using mod_less_divisor [of 128 x] by simp
    have val: "a + x mod 128 * 2 ^ (7 * i) + x div 128 * 2 ^ (7 * Suc i) = a + x * 2 ^ (7 * i)"
      using digit_128 [of x "2 ^ (7 * i)"] by (simp add: power_add)
    have pv: "put_uvarint x = of_nat (x mod 128 + 128) # put_uvarint (x div 128)"
      using False by (subst put_uvarint.simps) simp
    have step: "7 * i + 7 = 7 * Suc i" by simp
    show ?thesis
      using i IH val
      by (simp only: pv append_Cons uvarint_loop.simps unat_of_nat_byte m step) simp
  qed
qed

lemma uvarint_put: "x < 2 ^ 64 \<Longrightarrow>
  uvarint (put_uvarint x @ rest) = (x, int (length (put_uvarint x)))"
  using uvarint_loop_put [of x 0 0 rest] by (simp add: uvarint_def)

text \<open>A varint cut short reads as nothing.\<close>

lemma uvarint_loop_cut:
  "n < length (put_uvarint x) \<Longrightarrow> i + length (put_uvarint x) \<le> 10 \<Longrightarrow>
   uvarint_loop i a s (take n (put_uvarint x)) = (0, 0)"
proof (induction x arbitrary: i a s n rule: put_uvarint.induct)
  case (1 x)
  show ?case
  proof (cases "x < 128 \<or> n = 0")
    case True
    have "x < 128 \<Longrightarrow> length (put_uvarint x) = 1" by (subst put_uvarint.simps) simp
    with True "1.prems" show ?thesis by auto
  next
    case False
    then obtain k where k: "n = Suc k" by (cases n) auto
    have pv: "put_uvarint x = of_nat (x mod 128 + 128) # put_uvarint (x div 128)"
      using False by (subst put_uvarint.simps) simp
    have m: "(x mod 128 + 128) mod 256 = x mod 128 + 128"
      using mod_less_divisor [of 128 x] by simp
    have "uvarint_loop (Suc i) a' (s + 7) (take k (put_uvarint (x div 128))) = (0, 0)" for a'
      by (rule "1.IH") (use False "1.prems" k pv in auto)
    moreover have "i \<noteq> 10" using "1.prems" pv by auto
    ultimately show ?thesis
      by (simp only: pv k take_Suc_Cons uvarint_loop.simps unat_of_nat_byte m) simp
  qed
qed

lemma put_uvarint_length: "x < 2 ^ (7 * n) \<Longrightarrow> 0 < n \<Longrightarrow> length (put_uvarint x) \<le> n"
proof (induction n arbitrary: x)
  case 0
  then show ?case by simp
next
  case (Suc n)
  show ?case
  proof (cases "x < 128")
    case True
    then show ?thesis by (subst put_uvarint.simps) simp
  next
    case False
    then have "0 < n" using Suc.prems by (cases n) auto
    moreover have "x div 128 < 2 ^ (7 * n)"
      using Suc.prems(1) by (intro less_mult_imp_div_less) (simp add: power_add mult.commute)
    ultimately have "length (put_uvarint (x div 128)) \<le> n" by (intro Suc.IH)
    with False show ?thesis by (subst put_uvarint.simps) simp
  qed
qed

lemma uvarint_cut: "x < 2 ^ 64 \<Longrightarrow> n < length (put_uvarint x) \<Longrightarrow> uvarint (take n (put_uvarint x)) = (0, 0)"
  unfolding uvarint_def using put_uvarint_length [of x 10] by (intro uvarint_loop_cut) auto

lemma uvarint_loop_consumed:
  "uvarint_loop i x s bs = (v, n) \<Longrightarrow> 0 < n \<Longrightarrow> int i < n \<and> n \<le> int i + int (length bs)"
proof (induction i x s bs rule: uvarint_loop.induct)
  case (1 i x s)
  then show ?case by simp
next
  case (2 i x s b bs)
  then show ?case by (fastforce split: if_splits)
qed

lemma uvarint_consumed: "uvarint bs = (v, n) \<Longrightarrow> 0 < n \<Longrightarrow> n \<le> int (length bs)"
  using uvarint_loop_consumed [of 0 0 0 bs v n] by (simp add: uvarint_def)

section \<open>Strings and bytes\<close>

definition bytes_of :: "string \<Rightarrow> byte list" where
  "bytes_of s = map of_char s"

definition string_of :: "byte list \<Rightarrow> string" where
  "string_of bs = map (\<lambda>b. char_of (unat b)) bs"

lemma string_of_bytes_of [simp, bytes_simps]: "string_of (bytes_of s) = s"
proof -
  have "char_of (unat (of_char c :: byte)) = c" for c
  proof -
    have "(of_char c :: byte) = of_nat (of_char c)" by (simp only: of_nat_of_char)
    then have "unat (of_char c :: byte) = of_char c mod 256"
      by (metis unat_of_nat_byte)
    then show ?thesis by simp
  qed
  then show ?thesis by (simp add: string_of_def bytes_of_def comp_def)
qed

section \<open>Hexadecimal text\<close>

definition hex_digits :: string where
  "hex_digits = ''0123456789abcdef''"

definition hex_char :: "nat \<Rightarrow> char" where
  "hex_char n = hex_digits ! n"

fun hex_encode :: "byte list \<Rightarrow> string" where
  "hex_encode [] = []"
| "hex_encode (b # bs) = hex_char (unat b div 16) # hex_char (unat b mod 16) # hex_encode bs"

definition hex_value :: "char \<Rightarrow> nat option" where
  "hex_value c =
    (let n = of_char c :: nat in
     if 48 \<le> n \<and> n \<le> 57 then Some (n - 48)
     else if 97 \<le> n \<and> n \<le> 102 then Some (n - 87)
     else if 65 \<le> n \<and> n \<le> 70 then Some (n - 55)
     else None)"

text \<open>\<open>hex.DecodeString\<close>: two digits a byte, either case, nothing else.\<close>

fun hex_decode :: "string \<Rightarrow> byte list option" where
  "hex_decode [] = Some []"
| "hex_decode [c] = None"
| "hex_decode (c # d # cs) =
     (case (hex_value c, hex_value d) of
        (Some h, Some l) \<Rightarrow> map_option ((#) (of_nat (16 * h + l))) (hex_decode cs)
      | _ \<Rightarrow> None)"

lemma length_hex_encode [simp]: "length (hex_encode bs) = 2 * length bs"
  by (induction bs) auto

lemma hex_value_char: "n < 16 \<Longrightarrow> hex_value (hex_char n) = Some n"
proof -
  have "\<forall>n \<in> set [0..<16]. hex_value (hex_char n) = Some n" by code_simp
  then show "n < 16 \<Longrightarrow> hex_value (hex_char n) = Some n" by auto
qed

lemma byte_nibbles [simp]: "(of_nat (16 * (unat b div 16) + unat b mod 16) :: byte) = b"
  by (simp only: mult_div_mod_eq) simp

lemma hex_decode_encode [simp, bytes_simps]: "hex_decode (hex_encode bs) = Some bs"
proof (induction bs)
  case Nil
  then show ?case by simp
next
  case (Cons b bs)
  have "hex_value (hex_char (unat b div 16)) = Some (unat b div 16)"
    by (rule hex_value_char) (use unat_byte_lt [of b] in linarith)
  moreover have "hex_value (hex_char (unat b mod 16)) = Some (unat b mod 16)"
    by (rule hex_value_char) simp
  ultimately show ?case using Cons.IH by (simp del: of_nat_add of_nat_mult)
qed

section \<open>Base64 text\<close>

definition b64_std :: string where
  "b64_std = ''ABCDEFGHIJKLMNOPQRSTUVWXYZabcdefghijklmnopqrstuvwxyz0123456789+/''"

definition b64_url :: string where
  "b64_url = ''ABCDEFGHIJKLMNOPQRSTUVWXYZabcdefghijklmnopqrstuvwxyz0123456789-_''"

text \<open>The encoder of an alphabet; \<open>pad\<close> is the padding of \<open>StdEncoding\<close>, absent in the raw ones.\<close>

fun b64_encode :: "string \<Rightarrow> bool \<Rightarrow> byte list \<Rightarrow> string" where
  "b64_encode al pad [] = []"
| "b64_encode al pad [a] =
     [al ! (unat a div 4), al ! (unat a mod 4 * 16)] @ (if pad then ''=='' else [])"
| "b64_encode al pad [a, b] =
     [al ! (unat a div 4), al ! (unat a mod 4 * 16 + unat b div 16), al ! (unat b mod 16 * 4)]
       @ (if pad then ''='' else [])"
| "b64_encode al pad (a # b # c # bs) =
     [al ! (unat a div 4), al ! (unat a mod 4 * 16 + unat b div 16),
      al ! (unat b mod 16 * 4 + unat c div 64), al ! (unat c mod 64)] @ b64_encode al pad bs"

definition b64_value :: "string \<Rightarrow> char \<Rightarrow> nat option" where
  "b64_value al c = index_of (\<lambda>d. d = c) al"

definition b64_two :: "string \<Rightarrow> char \<Rightarrow> char \<Rightarrow> byte list option" where
  "b64_two al p q = (case (b64_value al p, b64_value al q) of
     (Some a, Some b) \<Rightarrow> Some [of_nat (a * 4 + b div 16)] | _ \<Rightarrow> None)"

definition b64_three :: "string \<Rightarrow> char \<Rightarrow> char \<Rightarrow> char \<Rightarrow> byte list option" where
  "b64_three al p q r = (case (b64_value al p, b64_value al q, b64_value al r) of
     (Some a, Some b, Some c) \<Rightarrow>
       Some [of_nat (a * 4 + b div 16), of_nat (b mod 16 * 16 + c div 4)]
   | _ \<Rightarrow> None)"

definition b64_four :: "string \<Rightarrow> char \<Rightarrow> char \<Rightarrow> char \<Rightarrow> char \<Rightarrow> byte list option" where
  "b64_four al p q r t =
    (case (b64_value al p, b64_value al q, b64_value al r, b64_value al t) of
     (Some a, Some b, Some c, Some d) \<Rightarrow>
       Some [of_nat (a * 4 + b div 16), of_nat (b mod 16 * 16 + c div 4),
             of_nat (c mod 4 * 64 + d)]
   | _ \<Rightarrow> None)"

fun b64_quads :: "string \<Rightarrow> bool \<Rightarrow> string \<Rightarrow> byte list option" where
  "b64_quads al pad [] = Some []"
| "b64_quads al pad [p] = None"
| "b64_quads al pad [p, q] = (if pad then None else b64_two al p q)"
| "b64_quads al pad [p, q, r] = (if pad then None else b64_three al p q r)"
| "b64_quads al pad (p # q # r # t # cs) =
     (if pad \<and> cs = [] \<and> r = CHR ''='' \<and> t = CHR ''='' then b64_two al p q
      else if pad \<and> cs = [] \<and> t = CHR ''='' then b64_three al p q r
      else (case (b64_four al p q r t, b64_quads al pad cs) of
              (Some xs, Some ys) \<Rightarrow> Some (xs @ ys) | _ \<Rightarrow> None))"

text \<open>\<open>base64.Encoding.DecodeString\<close>: line breaks inside the text are skipped.\<close>

definition b64_decode :: "string \<Rightarrow> bool \<Rightarrow> string \<Rightarrow> byte list option" where
  "b64_decode al pad s = b64_quads al pad (filter (\<lambda>c. c \<noteq> CHR 0x0A \<and> c \<noteq> CHR 0x0D) s)"

text \<open>A usable alphabet: 64 characters that stand for themselves and are not line breaks.\<close>

definition b64_alphabet :: "string \<Rightarrow> bool" where
  "b64_alphabet al \<longleftrightarrow> (\<forall>n \<in> set [0..<64]. b64_value al (al ! n) = Some n
     \<and> al ! n \<noteq> CHR ''='' \<and> al ! n \<noteq> CHR 0x0A \<and> al ! n \<noteq> CHR 0x0D)"

lemma b64_alphabets [simp]: "b64_alphabet b64_std" "b64_alphabet b64_url"
  unfolding b64_alphabet_def b64_std_def b64_url_def by code_simp+

lemma b64_alphabetD:
  assumes "b64_alphabet al" and "n < 64"
  shows "b64_value al (al ! n) = Some n" "al ! n \<noteq> CHR ''=''"
    "al ! n \<noteq> CHR 0x0A" "al ! n \<noteq> CHR 0x0D"
  using assms by (auto simp: b64_alphabet_def)

lemma div_of_sum: "r < n \<Longrightarrow> (q * n + r) div n = (q :: nat)"
  and mod_of_sum: "r < n \<Longrightarrow> (q * n + r) mod n = (r :: nat)"
  by simp_all

lemma byte_parts: "unat a div 4 < 64" "unat a div 16 < 16" "unat a div 64 < 4" for a :: byte
  by (rule less_mult_imp_div_less, simp)+

lemma byte_bounds: "unat a div 4 < 64" "unat a mod 4 * 16 < 64" "unat a mod 64 < 64"
  "unat a mod 16 * 4 < 64" "unat a mod 4 * 16 + unat b div 16 < 64"
  "unat a mod 16 * 4 + unat b div 64 < 64" for a b :: byte
proof -
  have "unat a mod 4 < 4" "unat a mod 16 < 16" by simp_all
  with byte_parts [of a] byte_parts [of b]
  show "unat a div 4 < 64" "unat a mod 4 * 16 < 64" "unat a mod 64 < 64"
    "unat a mod 16 * 4 < 64" "unat a mod 4 * 16 + unat b div 16 < 64"
    "unat a mod 16 * 4 + unat b div 64 < 64"
    by (linarith | simp)+
qed

lemma b64_join_nat:
  fixes x y z :: nat
  assumes "y div 16 < 16" and "z div 64 < 4"
  shows "x div 4 * 4 + (x mod 4 * 16) div 16 = x"
    "x div 4 * 4 + (x mod 4 * 16 + y div 16) div 16 = x"
    "(x mod 4 * 16 + y div 16) mod 16 * 16 + (y mod 16 * 4) div 4 = y"
    "(x mod 4 * 16 + y div 16) mod 16 * 16 + (y mod 16 * 4 + z div 64) div 4 = y"
    "(y mod 16 * 4 + z div 64) mod 4 * 64 + z mod 64 = z"
  using assms by simp_all

lemma b64_join:
  "(of_nat (unat a div 4 * 4 + (unat a mod 4 * 16) div 16) :: byte) = a"
  "(of_nat (unat a div 4 * 4 + (unat a mod 4 * 16 + unat b div 16) div 16) :: byte) = a"
  "(of_nat ((unat a mod 4 * 16 + unat b div 16) mod 16 * 16 + (unat b mod 16 * 4) div 4) :: byte) = b"
  "(of_nat ((unat a mod 4 * 16 + unat b div 16) mod 16 * 16
     + (unat b mod 16 * 4 + unat c div 64) div 4) :: byte) = b"
  "(of_nat ((unat b mod 16 * 4 + unat c div 64) mod 4 * 64 + unat c mod 64) :: byte) = c"
  for a b c :: byte
  by (simp_all only: b64_join_nat [OF byte_parts(2) [of b] byte_parts(3) [of c]] of_nat_unat ucast_id)

lemma b64_encode_empty [simp]: "b64_encode al pad bs = [] \<longleftrightarrow> bs = []"
  by (cases "(al, pad, bs)" rule: b64_encode.cases) auto

lemma b64_values:
  fixes a b :: byte
  assumes "b64_alphabet al"
  shows "b64_value al (al ! (unat a div 4)) = Some (unat a div 4)"
    "b64_value al (al ! (unat a mod 64)) = Some (unat a mod 64)"
    "b64_value al (al ! (unat a mod 4 * 16)) = Some (unat a mod 4 * 16)"
    "b64_value al (al ! (unat a mod 16 * 4)) = Some (unat a mod 16 * 4)"
    "b64_value al (al ! (unat a mod 4 * 16 + unat b div 16)) = Some (unat a mod 4 * 16 + unat b div 16)"
    "b64_value al (al ! (unat a mod 16 * 4 + unat b div 64)) = Some (unat a mod 16 * 4 + unat b div 64)"
  by (simp_all only: b64_alphabetD(1) [OF assms] byte_bounds)

lemma b64_group:
  assumes "b64_alphabet al"
  shows "b64_two al (al ! (unat a div 4)) (al ! (unat a mod 4 * 16)) = Some [a]"
    "b64_three al (al ! (unat a div 4)) (al ! (unat a mod 4 * 16 + unat b div 16))
       (al ! (unat b mod 16 * 4)) = Some [a, b]"
    "b64_four al (al ! (unat a div 4)) (al ! (unat a mod 4 * 16 + unat b div 16))
       (al ! (unat b mod 16 * 4 + unat c div 64)) (al ! (unat c mod 64)) = Some [a, b, c]"
  by (simp_all only: b64_two_def b64_three_def b64_four_def b64_values [OF assms] prod.case
      option.case b64_join)

lemma b64_quads_encode:
  assumes "b64_alphabet al"
  shows "b64_quads al pad (b64_encode al pad bs) = Some bs"
  using assms
  by (induction al pad bs rule: b64_encode.induct)
     (simp_all add: b64_alphabetD byte_bounds b64_group del: of_nat_add of_nat_mult of_nat_div)

lemma b64_encode_no_breaks:
  assumes "b64_alphabet al"
  shows "\<forall>c \<in> set (b64_encode al pad bs). c \<noteq> CHR 0x0A \<and> c \<noteq> CHR 0x0D"
  using assms
  by (induction al pad bs rule: b64_encode.induct) (simp_all add: b64_alphabetD byte_bounds)

lemma b64_decode_encode:
  assumes "b64_alphabet al"
  shows "b64_decode al pad (b64_encode al pad bs) = Some bs"
proof -
  have "filter (\<lambda>c. c \<noteq> CHR 0x0A \<and> c \<noteq> CHR 0x0D) (b64_encode al pad bs) = b64_encode al pad bs"
    using b64_encode_no_breaks [OF assms] by (simp add: filter_id_conv)
  then show ?thesis by (simp add: b64_decode_def b64_quads_encode [OF assms])
qed

lemma b64_encode_length: "length (b64_encode al True bs) mod 4 = 0"
  by (induction al "True" bs rule: b64_encode.induct) auto

lemma b64_length_std: "length (b64_encode al True bs) = 4 * ((length bs + 2) div 3)"
proof (induction al "True" bs rule: b64_encode.induct)
  case (4 al a b c bs)
  have "(length bs + 5) div 3 = Suc ((length bs + 2) div 3)"
    using div_add_self2 [of 3 "length bs + 2"] by simp
  with 4 show ?case by (simp add: add.commute)
qed auto

text \<open>Padded text that does not fill its last group of four is refused.\<close>

lemma b64_quads_length: "b64_quads al True s = Some bs \<Longrightarrow> length s mod 4 = 0"
  by (induction al "True" s arbitrary: bs rule: b64_quads.induct)
     (auto split: if_splits option.splits)

section \<open>Trimming and cutting\<close>

text \<open>The UTF-8 encodings of the characters \<open>unicode.IsSpace\<close> accepts.\<close>

definition white_space :: "string list" where
  "white_space =
    [[CHR 0x09], [CHR 0x0A], [CHR 0x0B], [CHR 0x0C], [CHR 0x0D], [CHR 0x20],
     [CHR 0xC2, CHR 0x85], [CHR 0xC2, CHR 0xA0], [CHR 0xE1, CHR 0x9A, CHR 0x80]]
    @ map (\<lambda>n. [CHR 0xE2, CHR 0x80, char_of (n :: nat)]) ([128..<139] @ [168, 169, 175])
    @ [[CHR 0xE2, CHR 0x81, CHR 0x9F], [CHR 0xE3, CHR 0x80, CHR 0x80]]"

fun starts_with :: "string \<Rightarrow> string \<Rightarrow> bool" where
  "starts_with [] s = True"
| "starts_with (c # cs) [] = False"
| "starts_with (c # cs) (d # ds) = (c = d \<and> starts_with cs ds)"

lemma starts_with_iff: "starts_with p s \<longleftrightarrow> (\<exists>r. s = p @ r)"
  by (induction p s rule: starts_with.induct) auto

lemma starts_with_append [simp]: "starts_with p (p @ s)"
  by (induction p) auto

function trim_front :: "string list \<Rightarrow> string \<Rightarrow> string" where
  "trim_front ws s = (case List.find (\<lambda>w. w \<noteq> [] \<and> starts_with w s) ws of
     None \<Rightarrow> s | Some w \<Rightarrow> trim_front ws (drop (length w) s))"
  by pat_completeness auto
termination
  by (relation "measure (length \<circ> snd)")
     (auto simp: find_Some_iff starts_with_iff)

declare trim_front.simps [simp del]

text \<open>\<open>strings.TrimSpace\<close>\<close>

definition trim_space :: "string \<Rightarrow> string" where
  "trim_space s = rev (trim_front (map rev white_space) (rev (trim_front white_space s)))"

lemma trim_front_suffix: "suffix (trim_front ws s) s"
proof (induction ws s rule: trim_front.induct)
  case (1 ws s)
  show ?case
  proof (cases "List.find (\<lambda>w. w \<noteq> [] \<and> starts_with w s) ws")
    case None
    then show ?thesis by (subst trim_front.simps) simp
  next
    case (Some w)
    with 1 have "suffix (trim_front ws (drop (length w) s)) (drop (length w) s)" by simp
    then show ?thesis using Some
      by (subst trim_front.simps) (auto intro: suffix_order.trans suffix_drop)
  qed
qed

lemma trim_front_id:
  "(\<And>w. w \<in> set ws \<Longrightarrow> w \<noteq> [] \<Longrightarrow> \<not> starts_with w s) \<Longrightarrow> trim_front ws s = s"
proof -
  assume "\<And>w. w \<in> set ws \<Longrightarrow> w \<noteq> [] \<Longrightarrow> \<not> starts_with w s"
  then have "List.find (\<lambda>w. w \<noteq> [] \<and> starts_with w s) ws = None"
    by (auto simp: find_None_iff)
  then show ?thesis by (subst trim_front.simps) simp
qed

lemma trim_front_stop:
  "w \<in> set ws \<Longrightarrow> w \<noteq> [] \<Longrightarrow> \<not> starts_with w (trim_front ws s)"
proof (induction ws s rule: trim_front.induct)
  case (1 ws s)
  show ?case
  proof (cases "List.find (\<lambda>w. w \<noteq> [] \<and> starts_with w s) ws")
    case None
    then have "trim_front ws s = s" by (subst trim_front.simps) simp
    with None "1.prems" show ?thesis by (auto simp: find_None_iff)
  next
    case (Some v)
    with 1 show ?thesis by (subst trim_front.simps) simp
  qed
qed

lemma trim_space_Nil [simp]: "trim_space [] = []"
proof -
  have t: "trim_front ws [] = []" for ws
    using trim_front_suffix [of ws "[]"] by simp
  show ?thesis by (simp add: trim_space_def t)
qed

lemma trim_space_length: "length (trim_space s) \<le> length s"
proof -
  have "length (trim_front ws t) \<le> length t" for ws t
    using trim_front_suffix [of ws t] by (rule suffix_length_le)
  then show ?thesis unfolding trim_space_def
    by (metis length_rev order.trans)
qed

text \<open>A string that neither begins nor ends with white space.\<close>

definition trimmed :: "string \<Rightarrow> bool" where
  "trimmed s \<longleftrightarrow> (\<forall>w \<in> set white_space. \<not> starts_with w s)
     \<and> (\<forall>w \<in> set white_space. \<not> starts_with (rev w) (rev s))"

lemma trim_space_trimmed: "trimmed s \<Longrightarrow> trim_space s = s"
proof -
  assume s: "trimmed s"
  have "trim_front white_space s = s"
    by (rule trim_front_id) (use s in \<open>auto simp: trimmed_def\<close>)
  moreover have "trim_front (map rev white_space) (rev s) = rev s"
    by (rule trim_front_id) (use s in \<open>auto simp: trimmed_def\<close>)
  ultimately show ?thesis by (simp add: trim_space_def)
qed

text \<open>\<open>strings.Fields\<close>: the runs between white space, with the field that is being read.\<close>

function fields_from :: "string \<Rightarrow> string \<Rightarrow> string list" where
  "fields_from cur s = (case List.find (\<lambda>w. w \<noteq> [] \<and> starts_with w s) white_space of
     Some w \<Rightarrow> (if cur = [] then [] else [cur]) @ fields_from [] (drop (length w) s)
   | None \<Rightarrow> (case s of [] \<Rightarrow> (if cur = [] then [] else [cur]) | c # s' \<Rightarrow> fields_from (cur @ [c]) s'))"
  by pat_completeness auto
termination
  by (relation "measure (length \<circ> snd)") (auto simp: find_Some_iff starts_with_iff)

declare fields_from.simps [simp del]

definition string_fields :: "string \<Rightarrow> string list" where
  "string_fields s = fields_from [] s"

text \<open>\<open>strings.Cut\<close>: what precedes and what follows the first occurrence of a separator.\<close>

fun cut :: "string \<Rightarrow> string \<Rightarrow> (string \<times> string) option" where
  "cut sep s = (if starts_with sep s then Some ([], drop (length sep) s)
     else (case s of [] \<Rightarrow> None
           | c # cs \<Rightarrow> map_option (\<lambda>(a, b). (c # a, b)) (cut sep cs)))"

declare cut.simps [simp del]

lemma cut_Some: "cut sep s = Some (a, b) \<Longrightarrow> s = a @ sep @ b"
proof (induction s arbitrary: a)
  case Nil
  then show ?case by (subst (asm) cut.simps) (auto simp: starts_with_iff split: if_splits)
next
  case (Cons c cs)
  then show ?case
    by (subst (asm) (2) cut.simps) (auto simp: starts_with_iff split: if_splits)
qed

definition has_sub :: "string \<Rightarrow> string \<Rightarrow> bool" where
  "has_sub sep s \<longleftrightarrow> cut sep s \<noteq> None"

text \<open>A separator whose first character is absent from the first part cuts just after it.\<close>

lemma cut_fresh: "c \<notin> set a \<Longrightarrow> cut (c # sep) (a @ (c # sep) @ b) = Some (a, b)"
proof (induction a)
  case Nil
  then show ?case by (subst cut.simps) simp
next
  case (Cons d a)
  then have "d \<noteq> c" "cut (c # sep) (a @ (c # sep) @ b) = Some (a, b)" by auto
  then show ?case by (subst cut.simps) simp
qed

section \<open>Stable sorting\<close>

text \<open>
  \<open>sort.SliceStable\<close> with a \<open>less\<close> function.  For a strict weak order the stable result is
  unique, so the algorithm the library uses does not matter; insertion is what is written here.
\<close>

fun ins_by :: "('a \<Rightarrow> 'a \<Rightarrow> bool) \<Rightarrow> 'a \<Rightarrow> 'a list \<Rightarrow> 'a list" where
  "ins_by lt x [] = [x]"
| "ins_by lt x (y # ys) = (if lt y x then y # ins_by lt x ys else x # y # ys)"

definition sort_by :: "('a \<Rightarrow> 'a \<Rightarrow> bool) \<Rightarrow> 'a list \<Rightarrow> 'a list" where
  "sort_by lt xs = foldr (ins_by lt) xs []"

lemma sort_by_simps [simp]:
  "sort_by lt [] = []" "sort_by lt (x # xs) = ins_by lt x (sort_by lt xs)"
  by (simp_all add: sort_by_def)

lemma mset_ins_by [simp]: "mset (ins_by lt x ys) = add_mset x (mset ys)"
  by (induction ys) auto

lemma mset_sort_by [simp]: "mset (sort_by lt xs) = mset xs"
  by (induction xs) auto

lemma set_sort_by [simp]: "set (sort_by lt xs) = set xs"
  by (rule mset_eq_setD) simp

lemma set_ins_by [simp]: "set (ins_by lt x ys) = insert x (set ys)"
  by (induction ys) auto

lemma length_sort_by [simp]: "length (sort_by lt xs) = length xs"
  by (rule mset_eq_length) simp

lemma distinct_sort_by [simp]: "distinct (sort_by lt xs) = distinct xs"
  by (rule mset_eq_imp_distinct_iff) simp

lemma distinct_map_sort_by [simp]: "distinct (map f (sort_by lt xs)) = distinct (map f xs)"
  by (rule mset_eq_imp_distinct_iff) simp

text \<open>What a \<open>less\<close> function has to satisfy for the result to be determined.\<close>

definition weak_order :: "('a \<Rightarrow> 'a \<Rightarrow> bool) \<Rightarrow> bool" where
  "weak_order lt \<longleftrightarrow> (\<forall>a b. lt a b \<longrightarrow> \<not> lt b a)
     \<and> (\<forall>a b c. \<not> lt b a \<longrightarrow> \<not> lt c b \<longrightarrow> \<not> lt c a)"

lemma weak_orderI:
  "(\<And>a b. lt a b \<Longrightarrow> \<not> lt b a) \<Longrightarrow> (\<And>a b c. \<not> lt b a \<Longrightarrow> \<not> lt c b \<Longrightarrow> \<not> lt c a)
   \<Longrightarrow> weak_order lt"
  unfolding weak_order_def by blast

lemma weak_order_asym: "weak_order lt \<Longrightarrow> lt a b \<Longrightarrow> \<not> lt b a"
  unfolding weak_order_def by blast

lemma weak_order_trans: "weak_order lt \<Longrightarrow> \<not> lt b a \<Longrightarrow> \<not> lt c b \<Longrightarrow> \<not> lt c a"
  unfolding weak_order_def by blast

text \<open>Comparing by a key first and by a second order on equal keys.\<close>

lemma weak_order_lex:
  fixes k :: "'a \<Rightarrow> 'k :: linorder"
  assumes w: "weak_order lt"
  shows "weak_order (\<lambda>a b. k a > k b \<or> (k a = k b \<and> lt a b))"
    "weak_order (\<lambda>a b. k a < k b \<or> (k a = k b \<and> lt a b))"
proof -
  show "weak_order (\<lambda>a b. k a > k b \<or> (k a = k b \<and> lt a b))"
  proof (rule weak_orderI)
    fix a b assume "k a > k b \<or> (k a = k b \<and> lt a b)"
    then show "\<not> (k b > k a \<or> (k b = k a \<and> lt b a))"
      using weak_order_asym [OF w, of a b] by auto
  next
    fix a b c assume "\<not> (k b > k a \<or> (k b = k a \<and> lt b a))" "\<not> (k c > k b \<or> (k c = k b \<and> lt c b))"
    then show "\<not> (k c > k a \<or> (k c = k a \<and> lt c a))"
      using weak_order_trans [OF w, of b a c] by auto
  qed
  show "weak_order (\<lambda>a b. k a < k b \<or> (k a = k b \<and> lt a b))"
  proof (rule weak_orderI)
    fix a b assume "k a < k b \<or> (k a = k b \<and> lt a b)"
    then show "\<not> (k b < k a \<or> (k b = k a \<and> lt b a))"
      using weak_order_asym [OF w, of a b] by auto
  next
    fix a b c assume "\<not> (k b < k a \<or> (k b = k a \<and> lt b a))" "\<not> (k c < k b \<or> (k c = k b \<and> lt c b))"
    then show "\<not> (k c < k a \<or> (k c = k a \<and> lt c a))"
      using weak_order_trans [OF w, of b a c] by auto
  qed
qed

lemma weak_order_key: "weak_order (\<lambda>a b. (k a :: 'k :: linorder) < k b)"
  "weak_order (\<lambda>a b. (k a :: 'k :: linorder) > k b)"
  by (rule weak_orderI; fastforce)+

lemma sorted_ins_by:
  assumes "weak_order lt" and "sorted_wrt (\<lambda>a b. \<not> lt b a) ys"
  shows "sorted_wrt (\<lambda>a b. \<not> lt b a) (ins_by lt x ys)"
  using assms(2)
proof (induction ys)
  case Nil
  then show ?case by simp
next
  case (Cons y ys)
  show ?case
  proof (cases "lt y x")
    case True
    with weak_order_asym [OF assms(1)] have "\<not> lt x y" by blast
    with Cons True show ?thesis by simp
  next
    case False
    have "\<not> lt z x" if "z \<in> set ys" for z
      using weak_order_trans [OF assms(1) False, of z] Cons.prems that by auto
    with False Cons.prems show ?thesis by simp
  qed
qed

lemma sorted_sort_by: "weak_order lt \<Longrightarrow> sorted_wrt (\<lambda>a b. \<not> lt b a) (sort_by lt xs)"
  by (induction xs) (auto intro: sorted_ins_by)

lemma sort_by_id: "sorted_wrt (\<lambda>a b. \<not> lt b a) xs \<Longrightarrow> sort_by lt xs = xs"
proof (induction xs)
  case Nil
  then show ?case by simp
next
  case (Cons x xs)
  then show ?case by (cases xs) auto
qed

lemma sorted_wrt_nth_le: "sorted_wrt P xs \<Longrightarrow> i < j \<Longrightarrow> j < length xs \<Longrightarrow> P (xs ! i) (xs ! j)"
  by (simp add: sorted_wrt_nth_less)

text \<open>Two sorted arrangements of the same elements agree when no two elements tie.\<close>

lemma sorted_unique:
  assumes "weak_order lt" and "mset xs = mset ys"
    and "sorted_wrt (\<lambda>a b. \<not> lt b a) xs" and "sorted_wrt (\<lambda>a b. \<not> lt b a) ys"
    and "\<And>a b. a \<in> set xs \<Longrightarrow> b \<in> set xs \<Longrightarrow> \<not> lt a b \<Longrightarrow> \<not> lt b a \<Longrightarrow> a = b"
  shows "xs = ys"
  using assms(2-5)
proof (induction xs arbitrary: ys)
  case Nil
  then show ?case by simp
next
  case (Cons x xs)
  then obtain y ys' where ys: "ys = y # ys'" by (cases ys) auto
  have sets: "set (x # xs) = set ys" using Cons.prems(1) by (rule mset_eq_setD)
  have refl: "\<not> lt z z" for z using weak_order_asym [OF assms(1)] by blast
  have "y \<in> set (x # xs)" "x \<in> set (y # ys')" using sets ys by auto
  then have "\<not> lt y x" "\<not> lt x y" using Cons.prems(2,3) ys refl by auto
  moreover note sets
  ultimately have "x = y" using Cons.prems(4) [of x y] sets ys by auto
  moreover have "xs = ys'"
    by (rule Cons.IH) (use Cons.prems ys \<open>x = y\<close> in auto)
  ultimately show ?case using ys by simp
qed

text \<open>A sorted arrangement is strict when a key that is distinct decides every comparison.\<close>

lemma strictly_sorted:
  assumes "weak_order lt" "distinct (map f xs)" "sorted_wrt (\<lambda>a b. \<not> lt b a) xs"
    and "\<And>a b. f a \<noteq> f b \<Longrightarrow> lt a b \<or> lt b a"
  shows "sorted_wrt lt xs"
  using assms(2,3)
proof (induction xs)
  case Nil
  then show ?case by simp
next
  case (Cons x xs)
  have "lt x y" if "y \<in> set xs" for y
    using Cons.prems that assms(4) [of x y] by (force simp: image_iff)
  with Cons show ?case by simp
qed

lemma sort_by_cong:
  "(\<And>a b. a \<in> set xs \<Longrightarrow> b \<in> set xs \<Longrightarrow> lt a b = lt' a b) \<Longrightarrow> sort_by lt xs = sort_by lt' xs"
proof (induction xs)
  case Nil
  then show ?case by simp
next
  case (Cons x xs)
  have "ins_by lt x ys = ins_by lt' x ys" if "set ys \<subseteq> set xs" for ys
    using that Cons.prems by (induction ys) auto
  then show ?case using Cons by simp
qed

section \<open>Numbers in text\<close>

text \<open>\<open>strconv.Itoa\<close>, and \<open>strconv.Atoi\<close> on a 64 bit machine\<close>

function digits :: "nat \<Rightarrow> string" where
  "digits n = (if n < 10 then [char_of (48 + n)] else digits (n div 10) @ [char_of (48 + n mod 10)])"
  by pat_completeness auto
termination by (relation "measure id") auto

declare digits.simps [simp del]

definition Itoa :: "int \<Rightarrow> string" where
  "Itoa n = (if n < 0 then ''-'' @ digits (nat (- n)) else digits (nat n))"

definition is_digit :: "char \<Rightarrow> bool" where
  "is_digit c \<longleftrightarrow> 48 \<le> (of_char c :: nat) \<and> (of_char c :: nat) \<le> 57"

definition digits_value :: "string \<Rightarrow> nat" where
  "digits_value s = foldl (\<lambda>n c. 10 * n + (of_char c - 48)) 0 s"

definition Atoi :: "string \<Rightarrow> int option" where
  "Atoi s =
    (let negative = starts_with ''-'' s;
         body = (if negative \<or> starts_with ''+'' s then tl s else s);
         n = (if negative then - int (digits_value body) else int (digits_value body)) in
     if body = [] \<or> \<not> list_all is_digit body \<or> n < - (2 ^ 63) \<or> 2 ^ 63 - 1 < n then None else Some n)"

end
