(* ===== verification/Records.thy ===== *)
theory Records
  imports GoLib Complex_Main
begin

text \<open>
  Package \<open>record\<close>: the stored form of memories, session heads, transcript chunks and messages,
  and the checks made before any of them is sealed.

  An \<open>ID\<close> is a 128 bit word, so that the order of words is the order of the hexadecimal forms
  the code sorts by.  The \<open>json\<close> codec of the standard library is a parameter where a function
  calls it.  Fields of type \<open>Time\<close> are nanoseconds since Go's zero time.  A \<open>Kind\<close>, \<open>Type\<close>,
  \<open>Role\<close>, \<open>PartType\<close> or \<open>SessionKind\<close> is a string in Go, and an open one: only
  \<open>Valid\<close> and \<open>Validate\<close> tell the known values apart.
\<close>

section \<open>Identifiers\<close>

type_synonym recid = "128 word"
type_synonym kind = string
type_synonym gotime = int

definition ID_bytes :: "recid \<Rightarrow> byte list" where
  "ID_bytes i = be_bytes 16 (unat i)"

definition ID_of_bytes :: "byte list \<Rightarrow> recid" where
  "ID_of_bytes bs = of_nat (be_val bs)"

definition ID_String :: "recid \<Rightarrow> string" where
  "ID_String i = hex_encode (ID_bytes i)"

definition ID_IsZero :: "recid \<Rightarrow> bool" where
  "ID_IsZero i \<longleftrightarrow> i = 0"

definition ParseID :: "string \<Rightarrow> recid res" where
  "ParseID s = (case hex_decode s of
     None \<Rightarrow> fail [] ''parse record id''
   | Some b \<Rightarrow> if length b \<noteq> 16 then fail [] ''parse record id: length''
       else Inr (ID_of_bytes b))"

lemma length_ID_bytes [simp]: "length (ID_bytes i) = 16"
  by (simp add: ID_bytes_def)

lemma ID_of_bytes_ID_bytes [simp, bytes_simps]: "ID_of_bytes (ID_bytes i) = i"
proof -
  have "unat i < 256 ^ 16" using unsigned_less [of i] by simp
  then show ?thesis by (simp add: ID_of_bytes_def ID_bytes_def)
qed

lemma ID_bytes_ID_of_bytes: "length bs = 16 \<Longrightarrow> ID_bytes (ID_of_bytes bs) = bs"
proof -
  assume l: "length bs = 16"
  have "be_val bs < 2 ^ 128" using be_val_lt [of bs] l by simp
  then have "unat (of_nat (be_val bs) :: recid) = be_val bs"
    by (simp add: unat_of_nat)
  with l show ?thesis by (simp add: ID_of_bytes_def ID_bytes_def be_bytes_be_val_length)
qed

lemma ID_bytes_inject [simp]: "ID_bytes i = ID_bytes j \<longleftrightarrow> i = j"
  by (metis ID_of_bytes_ID_bytes)

lemma ParseID_String [simp]: "ParseID (ID_String i) = Inr i"
  by (simp add: ParseID_def ID_String_def)

lemma ID_String_inject [simp]: "ID_String i = ID_String j \<longleftrightarrow> i = j"
  by (metis ParseID_String sum.inject(2))

lemma length_ID_String [simp]: "length (ID_String i) = 32"
  by (simp add: ID_String_def)

section \<open>Vocabularies\<close>

definition KindMemory :: kind where "KindMemory = ''memory''"
definition KindSession :: kind where "KindSession = ''session''"
definition KindChunk :: kind where "KindChunk = ''chunk''"

lemma kind_distinct [simp]:
  "KindMemory \<noteq> KindSession" "KindSession \<noteq> KindMemory" "KindMemory \<noteq> KindChunk"
  "KindChunk \<noteq> KindMemory" "KindSession \<noteq> KindChunk" "KindChunk \<noteq> KindSession"
  by (simp_all add: KindMemory_def KindSession_def KindChunk_def)

definition Types :: "string list" where
  "Types = [''fact'', ''preference'', ''insight'', ''doc'', ''profile'', ''correction'']"

definition Type_Valid :: "string \<Rightarrow> bool" where
  "Type_Valid t = list_ex (\<lambda>known. t = known) Types"

definition SessionMain :: string where "SessionMain = ''main''"
definition SessionSubagent :: string where "SessionSubagent = ''subagent''"
definition SessionBackground :: string where "SessionBackground = ''background''"

definition SessionKinds :: "string list" where
  "SessionKinds = [SessionMain, SessionSubagent, SessionBackground]"

definition SessionKind_Valid :: "string \<Rightarrow> bool" where
  "SessionKind_Valid k = list_ex (\<lambda>known. k = known) SessionKinds"

definition Roles :: "string list" where
  "Roles = [''user'', ''assistant'', ''system'', ''tool'']"

definition Role_Valid :: "string \<Rightarrow> bool" where
  "Role_Valid r = list_ex (\<lambda>known. r = known) Roles"

definition PartToolCall :: string where "PartToolCall = ''toolCall''"
definition PartToolResult :: string where "PartToolResult = ''toolResult''"

definition PartTypes :: "string list" where
  "PartTypes = [''text'', ''reasoning'', PartToolCall, PartToolResult, ''file'', ''resourceLink'']"

definition PartType_Valid :: "string \<Rightarrow> bool" where
  "PartType_Valid t = list_ex (\<lambda>known. t = known) PartTypes"

lemma part_types_distinct [simp]: "PartToolCall \<noteq> PartToolResult" "PartToolResult \<noteq> PartToolCall"
  by (simp_all add: PartToolCall_def PartToolResult_def)

definition MessageSchema :: string where "MessageSchema = ''mnemosia.session/1''"

definition SchemaVersion :: int where "SchemaVersion = 1"

section \<open>Floating point fields\<close>

text \<open>A \<open>float64\<close> as the checks on it see it: comparisons with NaN are false.\<close>

datatype gofloat = Fin rat | PInf | NInf | NaN

fun float_lt :: "gofloat \<Rightarrow> gofloat \<Rightarrow> bool" where
  "float_lt (Fin a) (Fin b) = (a < b)"
| "float_lt NInf (Fin b) = True"
| "float_lt NInf PInf = True"
| "float_lt (Fin a) PInf = True"
| "float_lt _ _ = False"

section \<open>Memories\<close>

record entity =
  eName :: string
  eType :: string

record source =
  srcOrigin :: string
  srcSessionID :: string
  srcSpan :: string
  srcClient :: string

record embedding =
  embModel :: string
  embDim :: int

record memory =
  mID :: recid
  mKind :: kind
  mType :: string
  mSchemaVersion :: int
  mVersion :: int
  mStatement :: string
  mContext :: string
  mKeywords :: "string list"
  mTags :: "string list"
  mEntities :: "entity list"
  mCreatedAt :: gotime
  mUpdatedAt :: gotime
  mValidFrom :: "gotime option"
  mValidUntil :: "gotime option"
  mLastRecalledAt :: "gotime option"
  mRecallCount :: int
  mImportance :: gofloat
  mConfidence :: gofloat
  mSupersedes :: "recid option"
  mSupersededBy :: "recid option"
  mLinks :: "string list"
  mSource :: source
  mEmbedding :: embedding

definition Memory_IndexText :: "memory \<Rightarrow> string" where
  "Memory_IndexText m = (if mContext m = [] then mStatement m
     else mStatement m @ [CHR 0x0A, CHR 0x0A] @ mContext m)"

definition MaxStatementBytes :: nat where "MaxStatementBytes = 8192"
definition MaxContextBytes :: nat where "MaxContextBytes = 8192"
definition MaxTags :: nat where "MaxTags = 32"
definition MaxTagBytes :: nat where "MaxTagBytes = 64"

definition invalid_if :: "bool \<Rightarrow> string \<Rightarrow> unit res" where
  "invalid_if bad msg = check bad [ErrInvalid] msg"

lemma invalid_if_Inr [simp]: "invalid_if bad msg = Inr u \<longleftrightarrow> \<not> bad"
  by (simp add: invalid_if_def)

lemma invalid_if_Inl: "invalid_if bad msg = Inl e \<Longrightarrow> bad \<and> errors_Is e ErrInvalid"
  by (auto simp: invalid_if_def check_Inl_iff)

lemma invalid_if_Inl': "Inl e = invalid_if bad msg \<Longrightarrow> bad \<and> errors_Is e ErrInvalid"
  by (auto simp: invalid_if_def check_Inl_iff dest: sym)

lemma invalid_if_bools [simp, res_simps]:
  "invalid_if True msg = Inl (GoErr [ErrInvalid] msg)" "invalid_if False msg = Inr ()"
  by (simp_all add: invalid_if_def)

definition tag_checks :: "string list \<Rightarrow> unit res list" where
  "tag_checks tags = invalid_if (MaxTags < length tags) ''tags''
     # concat (map (\<lambda>t. [invalid_if (trim_space t = []) ''empty tag'',
                        invalid_if (MaxTagBytes < length t) ''tag is too long'']) tags)"

definition Memory_Validate :: "memory \<Rightarrow> unit res" where
  "Memory_Validate m = first_fail (
    [ invalid_if (ID_IsZero (mID m)) ''missing id'',
      invalid_if (mKind m \<noteq> KindMemory) ''kind'',
      invalid_if (mSchemaVersion m \<le> 0) ''missing schemaVersion'',
      invalid_if (\<not> Type_Valid (mType m)) ''type'',
      invalid_if (trim_space (mStatement m) = []) ''statement is empty'',
      invalid_if (MaxStatementBytes < length (mStatement m)) ''statement is too long'',
      invalid_if (trim_space (mContext m) = []) ''context is empty'',
      invalid_if (MaxContextBytes < length (mContext m)) ''context is too long'']
    @ tag_checks (mTags m) @
    [ invalid_if (float_lt (mImportance m) (Fin 0) \<or> float_lt (Fin 1) (mImportance m)) ''importance'',
      invalid_if (float_lt (mConfidence m) (Fin 0) \<or> float_lt (Fin 1) (mConfidence m)) ''confidence'',
      (case (mValidFrom m, mValidUntil m) of
         (Some f, Some u) \<Rightarrow> invalid_if (u < f) ''validUntil precedes validFrom''
       | _ \<Rightarrow> Inr ())])"

section \<open>Messages\<close>

datatype part = Part
  (pType: string) (pText: string) (pSignature: string) (pCallID: string) (pName: string)
  (pInput: string) (pContent: "part list") (pIsError: bool) (pMediaType: string)
  (pRef: string) (pFilename: string) (pBytes: int) (pSHA256: string) (pURI: string)
  (pExt: "(string \<times> string) list")

record usage =
  uInputTokens :: int
  uOutputTokens :: int
  uCacheReadTokens :: int
  uCacheWriteTokens :: int
  uReasoningTokens :: int

record message_meta =
  mmModel :: string
  mmStopReason :: string
  mmUsage :: usage
  mmAgent :: string
  mmSkill :: string
  mmMemoryRefs :: "recid list"

record message =
  msgID :: string
  msgRole :: string
  msgParts :: "part list"
  msgCreated :: gotime
  msgParent :: string
  msgMeta :: message_meta
  msgExt :: "(string \<times> string) list"

lemma size_pContent [termination_simp]: "size_list size (pContent p) < size p"
  by (cases p) simp

function part_validate :: "part \<Rightarrow> unit res" and parts_validate :: "part list \<Rightarrow> unit res" where
  "part_validate p =
     rbind (invalid_if (trim_space (pType p) = []) ''part with no type'') (\<lambda>_.
     rbind (invalid_if ((pType p = PartToolCall \<or> pType p = PartToolResult)
              \<and> trim_space (pCallID p) = []) ''part with no callId'') (\<lambda>_.
     parts_validate (pContent p)))"
| "parts_validate [] = Inr ()"
| "parts_validate (p # ps) = rbind (part_validate p) (\<lambda>_. parts_validate ps)"
  by pat_completeness auto
termination
  by (relation "measure (case_sum size (size_list size))") (auto simp: size_pContent)

declare part_validate.simps [simp del]

definition MaxMessageIDBytes :: nat where "MaxMessageIDBytes = 256"
definition MaxPartsPerMessage :: nat where "MaxPartsPerMessage = 1024"

definition Message_Validate :: "message \<Rightarrow> unit res" where
  "Message_Validate m = first_fail
    [ invalid_if (trim_space (msgID m) = []) ''message has no id'',
      invalid_if (MaxMessageIDBytes < length (msgID m)) ''message id is too long'',
      invalid_if (\<not> Role_Valid (msgRole m)) ''role'',
      invalid_if (msgParts m = []) ''message has no parts'',
      invalid_if (MaxPartsPerMessage < length (msgParts m)) ''too many parts'',
      parts_validate (msgParts m)]"

section \<open>Chunks\<close>

record chunk =
  chID :: recid
  chKind :: kind
  chSchema :: string
  chSchemaVersion :: int
  chSession :: recid
  chSeq :: int
  chMessages :: "message list"

record chunk_ref =
  crID :: recid
  crSeq :: int
  crFirst :: string
  crLast :: string
  crN :: int
  crBytes :: int
  crCID :: string

definition Chunk_Validate :: "chunk \<Rightarrow> unit res" where
  "Chunk_Validate c = first_fail (
    [ invalid_if (ID_IsZero (chID c)) ''missing id'',
      invalid_if (chKind c \<noteq> KindChunk) ''kind'',
      invalid_if (chSchema c \<noteq> MessageSchema) ''schema'',
      invalid_if (chSchemaVersion c \<le> 0) ''missing schemaVersion'',
      invalid_if (ID_IsZero (chSession c)) ''chunk names no session'',
      invalid_if (chSeq c < 0) ''sequence'',
      invalid_if (chMessages c = []) ''chunk holds no messages'']
    @ map Message_Validate (chMessages c))"

definition ChunkTargetBytes :: int where "ChunkTargetBytes = 262144"

text \<open>
  \<open>SplitMessages\<close>: \<open>msize\<close> is \<open>messageBytes\<close>, the length of the message's JSON.  The loop
  carries the groups already closed, the open group and its size.
\<close>

fun split_loop :: "('m \<Rightarrow> int res) \<Rightarrow> int \<Rightarrow> 'm list list \<Rightarrow> 'm list \<Rightarrow> int \<Rightarrow> 'm list
    \<Rightarrow> 'm list list res" where
  "split_loop msize target out grp bytes [] =
     Inr (if grp \<noteq> [] then out @ [grp] else out)"
| "split_loop msize target out grp bytes (m # ms) =
     rbind (msize m) (\<lambda>size.
       if grp \<noteq> [] \<and> bytes + size > target
       then split_loop msize target (out @ [grp]) [m] size ms
       else split_loop msize target out (grp @ [m]) (bytes + size) ms)"

definition SplitMessages :: "('m \<Rightarrow> int res) \<Rightarrow> 'm list \<Rightarrow> int \<Rightarrow> 'm list list res" where
  "SplitMessages msize messages target =
     split_loop msize (if target \<le> 0 then ChunkTargetBytes else target) [] [] 0 messages"

definition messageBytes :: "(message \<Rightarrow> byte list res) \<Rightarrow> message \<Rightarrow> int res" where
  "messageBytes marshal m = (case marshal m of
     Inl e \<Rightarrow> Inl (wrap_err ''measure message: '' e) | Inr b \<Rightarrow> Inr (int (length b)))"

section \<open>Spans\<close>

record span =
  spFirst :: string
  spLast :: string

definition NewSpan :: "string \<Rightarrow> string \<Rightarrow> span" where
  "NewSpan f l = \<lparr> spFirst = f, spLast = l \<rparr>"

definition spanSeparator :: string where "spanSeparator = ''..''"

definition ParseSpan :: "string \<Rightarrow> span" where
  "ParseSpan raw =
    (let s = trim_space raw in
     if s = [] then NewSpan [] []
     else case cut spanSeparator s of
       None \<Rightarrow> NewSpan s s
     | Some (f, l) \<Rightarrow>
         let first = trim_space f; last = trim_space l
         in NewSpan first (if last = [] then first else last))"

definition Span_String :: "span \<Rightarrow> string" where
  "Span_String s =
    (if spFirst s = [] \<and> spLast s = [] then []
     else if spFirst s = spLast s then spFirst s
     else spFirst s @ spanSeparator @ spLast s)"

definition Span_Empty :: "span \<Rightarrow> bool" where
  "Span_Empty s \<longleftrightarrow> spFirst s = [] \<and> spLast s = []"

definition Span_Select :: "span \<Rightarrow> message list \<Rightarrow> message list" where
  "Span_Select s messages =
    (if Span_Empty s then []
     else case index_of (\<lambda>m. msgID m = spFirst s) messages of
       None \<Rightarrow> []
     | Some first \<Rightarrow>
         let last = (case index_of (\<lambda>m. msgID m = spLast s) (drop first messages) of
                       None \<Rightarrow> first | Some d \<Rightarrow> first + d)
         in take (last + 1 - first) (drop first messages))"

section \<open>Session heads\<close>

record project =
  prCWD :: string
  prRepo :: string
  prBranch :: string

record agent =
  agName :: string
  agVersion :: string

record agent_ref =
  arID :: string
  arName :: string
  arRole :: string

record counts =
  cnMessages :: int
  cnChunks :: int
  cnBytes :: int
  cnTokensIn :: int
  cnTokensOut :: int
  cnDurationMS :: int

record fork =
  fkSessionID :: recid
  fkMessageID :: string

record lineage =
  lnParentSession :: "recid option"
  lnForkedFrom :: "fork option"
  lnResumedFrom :: "recid option"
  lnChildren :: "recid list"

record session_head =
  sID :: recid
  sSchema :: string
  sSchemaVersion :: int
  sVersion :: int
  sTitle :: string
  sSummary :: string
  sTags :: "string list"
  sProject :: project
  sCreated :: gotime
  sUpdated :: gotime
  sArchived :: bool
  sAgent :: agent
  sModels :: "string list"
  sCounts :: counts
  sKind :: string
  sAgentRef :: "agent_ref option"
  sLineage :: lineage
  sHeadMessage :: string
  sPreservedTail :: "string list"
  sChunks :: "chunk_ref list"
  sMemories :: "recid list"
  sEmbedding :: embedding

definition Project_Empty :: "project \<Rightarrow> bool" where
  "Project_Empty p \<longleftrightarrow> prCWD p = [] \<and> prRepo p = [] \<and> prBranch p = []"

definition Lineage_Empty :: "lineage \<Rightarrow> bool" where
  "Lineage_Empty l \<longleftrightarrow> lnParentSession l = None \<and> lnForkedFrom l = None
     \<and> lnResumedFrom l = None \<and> lnChildren l = []"

fun join_with :: "string \<Rightarrow> string list \<Rightarrow> string" where
  "join_with sep [] = []"
| "join_with sep [x] = x"
| "join_with sep (x # y # ys) = x @ sep @ join_with sep (y # ys)"

definition Session_IndexText :: "session_head \<Rightarrow> string" where
  "Session_IndexText s = join_with [CHR 0x0A, CHR 0x0A]
    ((if sTitle s \<noteq> [] then [sTitle s] else [])
     @ (if sSummary s \<noteq> [] then [sSummary s] else [])
     @ (if sTags s \<noteq> [] then [join_with '' '' (sTags s)] else []))"

definition Session_Messages :: "session_head \<Rightarrow> int" where
  "Session_Messages s = foldl (\<lambda>n c. n + crN c) 0 (sChunks s)"

definition Session_ChunkBytes :: "session_head \<Rightarrow> int" where
  "Session_ChunkBytes s = foldl (\<lambda>n c. n + crBytes c) 0 (sChunks s)"

definition MaxTitleBytes :: nat where "MaxTitleBytes = 512"
definition MaxSummaryBytes :: nat where "MaxSummaryBytes = 16384"

definition chunk_ref_checks :: "chunk_ref list \<Rightarrow> unit res list" where
  "chunk_ref_checks cs = concat (map (\<lambda>(i, c).
     [invalid_if (ID_IsZero (crID c)) ''chunk has no record id'',
      invalid_if (crSeq c \<noteq> int i) ''chunks are ordered and the order is the transcript''])
     (enumerate 0 cs))"

definition Session_Validate :: "session_head \<Rightarrow> unit res" where
  "Session_Validate s = first_fail (
    [ invalid_if (ID_IsZero (sID s)) ''missing id'',
      invalid_if (sSchema s \<noteq> MessageSchema) ''schema'',
      invalid_if (sSchemaVersion s \<le> 0) ''missing schemaVersion'',
      invalid_if (sVersion s \<le> 0) ''version'',
      invalid_if (\<not> SessionKind_Valid (sKind s)) ''kind'',
      invalid_if (trim_space (sTitle s) = []) ''session has no title'',
      invalid_if (MaxTitleBytes < length (sTitle s)) ''title is too long'',
      invalid_if (MaxSummaryBytes < length (sSummary s)) ''summary is too long'']
    @ tag_checks (sTags s) @
    [ invalid_if (sKind s = SessionSubagent \<and> lnParentSession (sLineage s) = None)
        ''sub-agent run with no parent session'']
    @ chunk_ref_checks (sChunks s))"

section \<open>Tool exchanges\<close>

record tool_exchange =
  teCallID :: string
  teName :: string
  teCallMessage :: string
  teResultMessage :: string
  teCall :: part
  teResult :: part
  teMatched :: bool

definition zero_part :: part where
  "zero_part = Part [] [] [] [] [] [] [] False [] [] [] 0 [] [] []"

text \<open>The closure's state: the call ids in the order first met and the exchange of each.\<close>

record tool_walk =
  twOrder :: "string list"
  twByCall :: "string \<rightharpoonup> tool_exchange"

definition tool_step :: "string \<Rightarrow> part \<Rightarrow> tool_walk \<Rightarrow> tool_walk" where
  "tool_step mid p w =
    (if pType p = PartToolCall then
       (case twByCall w (pCallID p) of
          Some _ \<Rightarrow> w
        | None \<Rightarrow> w\<lparr> twByCall := (twByCall w)(pCallID p \<mapsto>
              \<lparr> teCallID = pCallID p, teName = pName p, teCallMessage = mid, teResultMessage = [],
                teCall = p, teResult = zero_part, teMatched = False \<rparr>),
            twOrder := twOrder w @ [pCallID p] \<rparr>)
     else if pType p = PartToolResult then
       (let w1 = (case twByCall w (pCallID p) of
            Some _ \<Rightarrow> w
          | None \<Rightarrow> w\<lparr> twByCall := (twByCall w)(pCallID p \<mapsto>
              \<lparr> teCallID = pCallID p, teName = [], teCallMessage = [], teResultMessage = [],
                teCall = zero_part, teResult = zero_part, teMatched = False \<rparr>),
            twOrder := twOrder w @ [pCallID p] \<rparr>)
        in w1\<lparr> twByCall := (twByCall w1)(pCallID p := map_option
             (\<lambda>e. e\<lparr> teResultMessage := mid, teResult := p, teMatched := True \<rparr>)
             (twByCall w1 (pCallID p))) \<rparr>)
     else w)"

function tool_walk_parts :: "string \<Rightarrow> part list \<Rightarrow> tool_walk \<Rightarrow> tool_walk" where
  "tool_walk_parts mid [] w = w"
| "tool_walk_parts mid (p # ps) w =
     tool_walk_parts mid ps
       (let w1 = tool_step mid p w
        in if pContent p \<noteq> [] then tool_walk_parts mid (pContent p) w1 else w1)"
  by pat_completeness auto
termination
  by (relation "measure (\<lambda>(_, ps, _). size_list size ps)")
     (auto intro: less_trans [OF size_pContent])

definition ToolExchanges :: "message list \<Rightarrow> tool_exchange list" where
  "ToolExchanges messages =
    (let w = foldl (\<lambda>w m. tool_walk_parts (msgID m) (msgParts m) w)
               \<lparr> twOrder = [], twByCall = Map.empty \<rparr> messages
     in map (\<lambda>c. the (twByCall w c)) (twOrder w))"

section \<open>Validation\<close>

text \<open>A list of checks each of which can only fail as an invalid record.\<close>

definition all_invalid :: "unit res list \<Rightarrow> bool" where
  "all_invalid rs \<longleftrightarrow> (\<forall>r \<in> set rs. \<forall>e. r = Inl e \<longrightarrow> errors_Is e ErrInvalid)"

lemma all_invalid_simps [simp]:
  "all_invalid []"
  "all_invalid (r # rs) \<longleftrightarrow> (\<forall>e. r = Inl e \<longrightarrow> errors_Is e ErrInvalid) \<and> all_invalid rs"
  "all_invalid (rs @ ts) \<longleftrightarrow> all_invalid rs \<and> all_invalid ts"
  by (auto simp: all_invalid_def)

lemma first_fail_invalid: "all_invalid rs \<Longrightarrow> first_fail rs = Inl e \<Longrightarrow> errors_Is e ErrInvalid"
  using first_fail_error by (fastforce simp: all_invalid_def)

lemma all_invalid_tags [simp]: "all_invalid (tag_checks tags)"
  by (auto simp: all_invalid_def tag_checks_def dest: invalid_if_Inl invalid_if_Inl')

lemma all_invalid_refs [simp]: "all_invalid (chunk_ref_checks cs)"
  by (auto simp: all_invalid_def chunk_ref_checks_def dest: invalid_if_Inl')

lemma parts_validate_invalid:
  "part_validate p = Inl e \<Longrightarrow> errors_Is e ErrInvalid"
  "parts_validate ps = Inl e \<Longrightarrow> errors_Is e ErrInvalid"
proof (induction p and ps rule: part_validate_parts_validate.induct)
  case (1 p)
  then show ?case
    by (auto simp: part_validate.simps [of p] rbind_Inl_iff dest: invalid_if_Inl)
qed (auto simp: rbind_Inl_iff)

lemma Message_Validate_invalid: "Message_Validate m = Inl e \<Longrightarrow> errors_Is e ErrInvalid"
  by (rule first_fail_invalid [rotated])
     (auto simp: Message_Validate_def dest: invalid_if_Inl parts_validate_invalid(2))

lemma all_invalid_messages [simp]: "all_invalid (map Message_Validate ms)"
  by (auto simp: all_invalid_def intro: Message_Validate_invalid)

lemma Chunk_Validate_invalid: "Chunk_Validate c = Inl e \<Longrightarrow> errors_Is e ErrInvalid"
  by (rule first_fail_invalid [rotated]) (auto simp: Chunk_Validate_def dest: invalid_if_Inl)

lemma Session_Validate_invalid: "Session_Validate h = Inl e \<Longrightarrow> errors_Is e ErrInvalid"
  by (rule first_fail_invalid [rotated]) (auto simp: Session_Validate_def dest: invalid_if_Inl)

lemma Memory_Validate_invalid: "Memory_Validate m = Inl e \<Longrightarrow> errors_Is e ErrInvalid"
  by (rule first_fail_invalid [rotated])
     (auto simp: Memory_Validate_def split: option.splits dest: invalid_if_Inl)

lemma chunk_refs_ordered:
  assumes "Session_Validate h = Inr u" and "i < length (sChunks h)"
  shows "crSeq (sChunks h ! i) = int i" "\<not> ID_IsZero (crID (sChunks h ! i))"
proof -
  have "\<forall>r \<in> set (chunk_ref_checks (sChunks h)). r = Inr ()"
    using assms(1) by (simp add: Session_Validate_def first_fail_Inr_iff)
  moreover have "(i, sChunks h ! i) \<in> set (enumerate 0 (sChunks h))"
    using assms(2) by (simp add: in_set_enumerate_eq)
  ultimately have
    "invalid_if (crSeq (sChunks h ! i) \<noteq> int i)
       ''chunks are ordered and the order is the transcript'' = Inr ()"
    "invalid_if (ID_IsZero (crID (sChunks h ! i))) ''chunk has no record id'' = Inr ()"
    by (fastforce simp: chunk_ref_checks_def simp del: invalid_if_Inr)+
  then show "crSeq (sChunks h ! i) = int i" "\<not> ID_IsZero (crID (sChunks h ! i))"
    by simp_all
qed

text \<open>Every part of a valid message, at any depth, is typed, and every tool part correlated.\<close>

function flat_parts :: "part list \<Rightarrow> part list" where
  "flat_parts [] = []"
| "flat_parts (p # ps) = p # flat_parts (pContent p) @ flat_parts ps"
  by pat_completeness auto
termination
  by (relation "measure (size_list size)") (auto intro: less_trans [OF size_pContent])

definition part_ok :: "part \<Rightarrow> bool" where
  "part_ok p \<longleftrightarrow> trim_space (pType p) \<noteq> []
     \<and> (pType p = PartToolCall \<or> pType p = PartToolResult \<longrightarrow> trim_space (pCallID p) \<noteq> [])"

lemma parts_validate_iff:
  "parts_validate ps = Inr u \<longleftrightarrow> (\<forall>p \<in> set (flat_parts ps). part_ok p)"
proof (induction ps rule: flat_parts.induct)
  case 1
  then show ?case by simp
next
  case (2 p ps)
  then show ?case
    by (auto simp: part_validate.simps [of p] rbind_Inr_iff part_ok_def)
qed

section \<open>Splitting a transcript\<close>

definition size_of :: "('m \<Rightarrow> int res) \<Rightarrow> 'm \<Rightarrow> int" where
  "size_of msize m = (case msize m of Inl _ \<Rightarrow> 0 | Inr n \<Rightarrow> n)"

definition group_size :: "('m \<Rightarrow> int res) \<Rightarrow> 'm list \<Rightarrow> int" where
  "group_size msize g = sum_list (map (size_of msize) g)"

definition groups_ok :: "('m \<Rightarrow> int res) \<Rightarrow> int \<Rightarrow> 'm list list \<Rightarrow> bool" where
  "groups_ok msize target gs \<longleftrightarrow>
     (\<forall>g \<in> set gs. g \<noteq> [] \<and> (length g = 1 \<or> group_size msize g \<le> target))
     \<and> successively (\<lambda>g h. target < group_size msize g + size_of msize (hd h)) gs"

lemma group_size_simps [simp]:
  "group_size msize [] = 0" "group_size msize [m] = size_of msize m"
  "group_size msize (g @ h) = group_size msize g + group_size msize h"
  by (simp_all add: group_size_def)

lemma split_loop_groups:
  assumes "split_loop msize target out grp bytes ms = Inr gs"
    and "bytes = group_size msize grp"
    and "groups_ok msize target (out @ (if grp = [] then [] else [grp]))"
    and "grp = [] \<Longrightarrow> out = []"
  shows "groups_ok msize target gs \<and> concat gs = concat out @ grp @ ms"
  using assms
proof (induction msize target out grp bytes ms rule: split_loop.induct)
  case (1 msize target out grp bytes)
  then show ?case by (auto split: if_splits)
next
  case (2 msize target out grp bytes m ms)
  from "2.prems"(1) obtain n where n: "msize m = Inr n" by (auto simp: rbind_Inr_iff)
  then have sz: "size_of msize m = n" by (simp add: size_of_def)
  show ?case
  proof (cases "grp \<noteq> [] \<and> bytes + n > target")
    case True
    have "groups_ok msize target gs \<and> concat gs = concat (out @ [grp]) @ [m] @ ms"
      by (rule "2.IH"(1) [OF True])
         (use True n "2.prems" in \<open>auto simp: groups_ok_def sz successively_append_iff\<close>)
    then show ?thesis by simp
  next
    case False
    have "groups_ok msize target gs \<and> concat gs = concat out @ (grp @ [m]) @ ms"
    proof (rule "2.IH"(2) [OF False])
      show "split_loop msize target out (grp @ [m]) (bytes + n) ms = Inr gs"
        using "2.prems"(1) n False by (auto split: if_splits)
      show "groups_ok msize target (out @ (if grp @ [m] = [] then [] else [grp @ [m]]))"
        using "2.prems" False by (cases "grp = []") (auto simp: groups_ok_def sz successively_append_iff)
    qed (use "2.prems" sz in auto)
    then show ?thesis by simp
  qed
qed

lemma split_loop_total:
  "(\<And>m. m \<in> set ms \<Longrightarrow> \<exists>n. msize m = Inr n) \<Longrightarrow> \<exists>gs. split_loop msize target out grp bytes ms = Inr gs"
proof (induction msize target out grp bytes ms rule: split_loop.induct)
  case (2 msize target out grp bytes m ms)
  have "\<exists>n. msize m = Inr n" by (rule "2.prems") simp
  then obtain n where "msize m = Inr n" by blast
  with 2 show ?case by auto
qed auto

section \<open>Pairing tool calls with results\<close>

text \<open>The walk is a fold of one step over the parts in the order a depth first visit meets them.\<close>

definition occurrences :: "message list \<Rightarrow> (string \<times> part) list" where
  "occurrences ms = concat (map (\<lambda>m. map (Pair (msgID m)) (flat_parts (msgParts m))) ms)"

definition walk_all :: "(string \<times> part) list \<Rightarrow> tool_walk \<Rightarrow> tool_walk" where
  "walk_all occ w = foldl (\<lambda>w (mid, p). tool_step mid p w) w occ"

lemma walk_all_simps [simp]:
  "walk_all [] w = w" "walk_all ((mid, p) # occ) w = walk_all occ (tool_step mid p w)"
  "walk_all (occ @ occ') w = walk_all occ' (walk_all occ w)"
  by (simp_all add: walk_all_def)

lemma tool_walk_parts_flat:
  "tool_walk_parts mid ps w = walk_all (map (Pair mid) (flat_parts ps)) w"
  by (induction mid ps w rule: tool_walk_parts.induct) (auto simp: Let_def)

lemma walk_messages:
  "foldl (\<lambda>w m. tool_walk_parts (msgID m) (msgParts m) w) w ms = walk_all (occurrences ms) w"
  by (induction ms arbitrary: w) (auto simp: occurrences_def tool_walk_parts_flat)

definition is_tool :: "part \<Rightarrow> bool" where
  "is_tool p \<longleftrightarrow> pType p = PartToolCall \<or> pType p = PartToolResult"

definition results_for :: "string \<Rightarrow> (string \<times> part) list \<Rightarrow> (string \<times> part) list" where
  "results_for c occ = filter (\<lambda>(mid, p). pType p = PartToolResult \<and> pCallID p = c) occ"

lemma results_for_simps [simp]:
  "results_for c [] = []"
  "results_for c (occ @ [(mid, p)]) =
     results_for c occ @ (if pType p = PartToolResult \<and> pCallID p = c then [(mid, p)] else [])"
  by (simp_all add: results_for_def)

definition walk_inv :: "(string \<times> part) list \<Rightarrow> tool_walk \<Rightarrow> bool" where
  "walk_inv occ w \<longleftrightarrow>
     twOrder w = distinct_keys [] (map (pCallID \<circ> snd) (filter (is_tool \<circ> snd) occ))
     \<and> dom (twByCall w) = set (twOrder w)
     \<and> (\<forall>c e. twByCall w c = Some e \<longrightarrow> teCallID e = c
          \<and> (teMatched e \<longleftrightarrow> results_for c occ \<noteq> [])
          \<and> (teMatched e \<longrightarrow> (teResultMessage e, teResult e) = last (results_for c occ)))"

lemma walk_inv_step:
  assumes "walk_inv occ w"
  shows "walk_inv (occ @ [(mid, p)]) (tool_step mid p w)"
proof -
  let ?c = "pCallID p"
  have inv: "twOrder w = distinct_keys [] (map (pCallID \<circ> snd) (filter (is_tool \<circ> snd) occ))"
    "dom (twByCall w) = set (twOrder w)"
    "\<And>c e. twByCall w c = Some e \<Longrightarrow> teCallID e = c
          \<and> (teMatched e \<longleftrightarrow> results_for c occ \<noteq> [])
          \<and> (teMatched e \<longrightarrow> (teResultMessage e, teResult e) = last (results_for c occ))"
    using assms by (auto simp: walk_inv_def)
  have seen: "?c \<in> set (twOrder w) \<longleftrightarrow> twByCall w ?c \<noteq> None" using inv(2) by auto
  have unseen: "results_for ?c occ = []" if "twByCall w ?c = None"
  proof -
    from that have "?c \<notin> set (twOrder w)" using inv(2) by auto
    then show ?thesis
      by (force simp: inv(1) results_for_def is_tool_def filter_empty_conv)
  qed
  show ?thesis
  proof (cases "is_tool p")
    case False
    then have "tool_step mid p w = w" by (simp add: tool_step_def is_tool_def)
    then show ?thesis using inv False
      by (auto simp: walk_inv_def is_tool_def split: if_splits)
  next
    case True
    then show ?thesis
      using inv seen unseen
      by (cases "twByCall w ?c")
         (auto simp: walk_inv_def tool_step_def is_tool_def distinct_keys_append Let_def
            split: if_splits)
  qed
qed

lemma walk_inv_all: "walk_inv occ (walk_all occ \<lparr> twOrder = [], twByCall = Map.empty \<rparr>)"
proof (induction occ rule: rev_induct)
  case Nil
  then show ?case by (simp add: walk_inv_def)
next
  case (snoc x occ)
  then show ?case by (cases x) (simp add: walk_inv_step)
qed

text \<open>\<open>ToolExchanges\<close> reports every call id that occurs in the messages, at any nesting
  depth, once and in the order first met; an exchange is matched exactly when a result part
  carries its id, and then holds the last such result with the message it came from.\<close>

lemma ToolExchanges_correct:
  "map teCallID (ToolExchanges ms)
     = distinct_keys [] (map (pCallID \<circ> snd) (filter (is_tool \<circ> snd) (occurrences ms)))
   \<and> distinct (map teCallID (ToolExchanges ms))
   \<and> (\<forall>e \<in> set (ToolExchanges ms).
        (teMatched e \<longleftrightarrow> results_for (teCallID e) (occurrences ms) \<noteq> [])
        \<and> (teMatched e \<longrightarrow>
             (teResultMessage e, teResult e) = last (results_for (teCallID e) (occurrences ms))))"
proof -
  define w where "w = walk_all (occurrences ms) \<lparr> twOrder = [], twByCall = Map.empty \<rparr>"
  have T: "ToolExchanges ms = map (\<lambda>c. the (twByCall w c)) (twOrder w)"
    by (simp add: ToolExchanges_def walk_messages w_def Let_def)
  have inv: "walk_inv (occurrences ms) w" unfolding w_def by (rule walk_inv_all)
  have id: "teCallID (the (twByCall w c)) = c" if "c \<in> set (twOrder w)" for c
    using inv that unfolding walk_inv_def by (metis domIff option.exhaust_sel)
  have ids: "map teCallID (ToolExchanges ms) = twOrder w"
    by (simp add: T id cong: map_cong)
  have each: "(teMatched e \<longleftrightarrow> results_for (teCallID e) (occurrences ms) \<noteq> [])
      \<and> (teMatched e \<longrightarrow>
           (teResultMessage e, teResult e) = last (results_for (teCallID e) (occurrences ms)))"
    if e: "e \<in> set (ToolExchanges ms)" for e
  proof -
    from e obtain c where "c \<in> set (twOrder w)" "e = the (twByCall w c)" by (auto simp: T)
    moreover from this have "c \<in> dom (twByCall w)" using inv unfolding walk_inv_def by blast
    ultimately have "twByCall w c = Some e" by auto
    then show ?thesis using inv by (auto simp: walk_inv_def)
  qed
  show ?thesis
    using ids inv each by (simp add: walk_inv_def distinct_distinct_keys)
qed

text \<open>C5. \<open>SplitMessages\<close> keeps every message, in order and whole: the groups concatenate to the
  transcript, none is empty, each fits the target or holds a single message, and a group is
  closed only when the next message would have overflowed it.\<close>

theorem SplitMessages_groups:
  assumes "SplitMessages msize ms target = Inr gs"
  shows "concat gs = ms
    \<and> groups_ok msize (if target \<le> 0 then ChunkTargetBytes else target) gs"
  using split_loop_groups [OF assms [unfolded SplitMessages_def]] by (auto simp: groups_ok_def)

theorem SplitMessages_groups_witness:
  "concat [[3, 4], [9], [2, 2 :: int]] = [3, 4, 9, 2, 2]
   \<and> groups_ok Inr 8 [[3, 4], [9], [2, 2]]"
proof -
  have "SplitMessages Inr [3, 4, 9, 2, 2 :: int] 8 = Inr [[3, 4], [9], [2, 2]]"
    by (simp add: SplitMessages_def)
  from SplitMessages_groups [OF this] show ?thesis by simp
qed

text \<open>A call and an orphan result, then the call's result nested in another result.\<close>

definition demo_part :: "string \<Rightarrow> string \<Rightarrow> part list \<Rightarrow> part" where
  "demo_part t c ps = Part t [] [] c [] [] ps False [] [] [] 0 [] [] []"

definition demo_message :: "string \<Rightarrow> part list \<Rightarrow> message" where
  "demo_message i ps = \<lparr> msgID = i, msgRole = ''tool'', msgParts = ps, msgCreated = 0,
     msgParent = [], msgMeta = \<lparr> mmModel = [], mmStopReason = [],
       mmUsage = \<lparr> uInputTokens = 0, uOutputTokens = 0, uCacheReadTokens = 0,
         uCacheWriteTokens = 0, uReasoningTokens = 0 \<rparr>, mmAgent = [], mmSkill = [],
       mmMemoryRefs = [] \<rparr>, msgExt = [] \<rparr>"

definition demo_exchange :: "message list" where
  "demo_exchange =
     [demo_message ''m1'' [demo_part PartToolCall ''a'' [], demo_part PartToolCall ''b'' []],
      demo_message ''m2'' [demo_part PartToolResult ''c'' [demo_part PartToolResult ''a'' []]]]"

lemma demo_exchange_eval:
  "map (\<lambda>e. (teCallID e, teResultMessage e)) (ToolExchanges demo_exchange)
     = [(''a'', ''m2''), (''b'', []), (''c'', ''m2'')]"
  by (simp add: demo_exchange_def ToolExchanges_def demo_message_def demo_part_def tool_step_def
      Let_def PartToolCall_def PartToolResult_def)

section \<open>Provenance spans\<close>

lemma starts_with_front:
  "c \<notin> set w \<Longrightarrow> starts_with w (a @ c # b) \<Longrightarrow> starts_with w a"
proof (induction w a rule: starts_with.induct)
  case (2 x w)
  then show ?case by auto
qed auto

lemma white_space_no_dot: "w \<in> set white_space \<Longrightarrow> CHR ''.'' \<notin> set w"
proof -
  have "\<forall>w \<in> set white_space. CHR ''.'' \<notin> set w" by code_simp
  then show "w \<in> set white_space \<Longrightarrow> CHR ''.'' \<notin> set w" by blast
qed

lemma trimmed_around_dot:
  assumes "trimmed a" and "trimmed b"
  shows "trimmed (a @ ''..'' @ b)"
proof -
  have "\<not> starts_with w (a @ ''..'' @ b)" if "w \<in> set white_space" for w
    using starts_with_front [OF white_space_no_dot [OF that], of a "''.'' @ b"]
      assms(1) that by (auto simp: trimmed_def)
  moreover have "\<not> starts_with (rev w) (rev (a @ ''..'' @ b))" if "w \<in> set white_space" for w
    using starts_with_front [of "CHR ''.''" "rev w" "rev b" "CHR ''.'' # rev a"]
      white_space_no_dot [OF that] assms(2) that by (auto simp: trimmed_def)
  ultimately show ?thesis by (simp add: trimmed_def)
qed

lemma trimmed_Nil [simp]: "trimmed []"
proof -
  have "\<forall>w \<in> set white_space. w \<noteq> []" by code_simp
  then have "\<forall>w \<in> set white_space. \<not> starts_with w [] \<and> \<not> starts_with (rev w) []"
    by (auto simp: starts_with_iff)
  then show ?thesis by (simp add: trimmed_def)
qed

lemma cut_absent: "c \<notin> set s \<Longrightarrow> cut (c # sep) s = None"
proof (induction s)
  case Nil
  then show ?case by (subst cut.simps) simp
next
  case (Cons d s)
  then show ?case by (subst cut.simps) auto
qed

text \<open>A span written on a memory's source is read back unchanged: \<open>ParseSpan\<close> inverts
  \<open>String\<close> for every span of two turn ids that carry no dot and no surrounding white space,
  the span of one turn and the empty span included.\<close>

lemma ParseSpan_String:
  assumes "trimmed (spFirst s)" "trimmed (spLast s)"
    and "CHR ''.'' \<notin> set (spFirst s)" "spFirst s = [] \<longleftrightarrow> spLast s = []"
  shows "ParseSpan (Span_String s) = s"
proof (cases "spFirst s = spLast s")
  case True
  show ?thesis
    using assms True cut_absent [of "CHR ''.''" "spFirst s" "''.''"]
    by (cases s) (auto simp: ParseSpan_def Span_String_def NewSpan_def spanSeparator_def
        trim_space_trimmed Let_def)
next
  case False
  then have ne: "spFirst s \<noteq> []" "spLast s \<noteq> []" using assms(4) by auto
  have "trim_space (spFirst s @ ''..'' @ spLast s) = spFirst s @ ''..'' @ spLast s"
    by (rule trim_space_trimmed, rule trimmed_around_dot) (use assms in auto)
  moreover have "cut ''..'' (spFirst s @ ''..'' @ spLast s) = Some (spFirst s, spLast s)"
    using cut_fresh [OF assms(3), of "''.''" "spLast s"] by simp
  ultimately show ?thesis
    using assms ne False
    by (cases s) (simp add: ParseSpan_def Span_String_def NewSpan_def spanSeparator_def
        trim_space_trimmed Let_def)
qed

text \<open>\<open>Select\<close> returns a contiguous run of the transcript, or nothing: a span that names a turn
  yields nothing exactly when its first turn is absent, otherwise a run that begins with the
  first such turn and, when the last turn occurs from there on, ends with it.\<close>

lemma Span_Select_run:
  "sublist (Span_Select s ms) ms
   \<and> (\<not> Span_Empty s \<longrightarrow>
       (Span_Select s ms = [] \<longleftrightarrow> (\<forall>m \<in> set ms. msgID m \<noteq> spFirst s))
     \<and> (Span_Select s ms \<noteq> [] \<longrightarrow> msgID (hd (Span_Select s ms)) = spFirst s)
     \<and> (Span_Select s ms \<noteq> [] \<longrightarrow>
          msgID (last (Span_Select s ms)) = spLast s \<or> length (Span_Select s ms) = 1))"
proof (cases "Span_Empty s \<or> index_of (\<lambda>m. msgID m = spFirst s) ms = None")
  case True
  then have "Span_Select s ms = []" by (auto simp: Span_Select_def)
  with True show ?thesis by (auto simp: index_of_None)
next
  case False
  then obtain f where f: "index_of (\<lambda>m. msgID m = spFirst s) ms = Some f" by auto
  note F = index_of_Some [OF f]
  define d where "d = (case index_of (\<lambda>m. msgID m = spLast s) (drop f ms) of
                         None \<Rightarrow> 0 | Some d \<Rightarrow> d)"
  have sel: "Span_Select s ms = take (Suc d) (drop f ms)"
    using False f by (auto simp: Span_Select_def d_def Let_def Suc_diff_le split: option.splits)
  have dl: "d < length (drop f ms)"
    using F by (auto simp: d_def split: option.splits dest: index_of_Some)
  have ne: "Span_Select s ms \<noteq> []" using F sel by auto
  have "msgID (hd (Span_Select s ms)) = spFirst s"
    using F sel by (simp add: hd_drop_conv_nth)
  moreover have "msgID (last (Span_Select s ms)) = spLast s \<or> length (Span_Select s ms) = 1"
  proof (cases "index_of (\<lambda>m. msgID m = spLast s) (drop f ms)")
    case None
    then have "d = 0" by (simp add: d_def)
    with F sel have "length (Span_Select s ms) = 1" by (simp add: Suc_le_eq)
    then show ?thesis by simp
  next
    case (Some k)
    then have "d = k" by (simp add: d_def)
    moreover have "last (take (Suc d) (drop f ms)) = drop f ms ! d"
      using dl by (simp add: take_Suc_conv_app_nth)
    ultimately show ?thesis using index_of_Some [OF Some] sel by simp
  qed
  moreover have "sublist (Span_Select s ms) ms"
    unfolding sel using sublist_order.order_trans [OF sublist_take sublist_drop] .
  moreover have "\<not> (\<forall>m \<in> set ms. msgID m \<noteq> spFirst s)" using F by auto
  ultimately show ?thesis using ne by auto
qed

text \<open>Every refusal of the four validators is an \<open>ErrInvalid\<close>, and a message that is accepted
  has, at every nesting depth, only typed parts and only correlated tool parts.\<close>

lemma Validate_outcomes:
  "(Memory_Validate m = Inl e \<or> Message_Validate g = Inl e \<or> Chunk_Validate c = Inl e
     \<or> Session_Validate h = Inl e \<longrightarrow> errors_Is e ErrInvalid)
   \<and> (Message_Validate g = Inr () \<longrightarrow> (\<forall>p \<in> set (flat_parts (msgParts g)). part_ok p))"
proof -
  have "\<forall>p \<in> set (flat_parts (msgParts g)). part_ok p" if "Message_Validate g = Inr ()"
  proof -
    from that have "parts_validate (msgParts g) = Inr ()"
      by (simp add: Message_Validate_def first_fail_Inr_iff)
    then show ?thesis by (simp add: parts_validate_iff)
  qed
  then show ?thesis
    using Memory_Validate_invalid Message_Validate_invalid Chunk_Validate_invalid
      Session_Validate_invalid by blast
qed

end
