(* ===== verification/Seal.thy ===== *)
theory Seal
  imports Records
begin

text \<open>
  Package \<open>seal\<close>: the frame that carries a record's identity next to its ciphertext, the
  walk that recovers the frames of a packed blob, the authenticated envelope of a record body
  and its keyed content address.

  The cipher, the compressor and the keyed hash are third-party code: they are the fields of
  a \<open>crypto\<close> record, and \<open>crypto_ok\<close> is what their documentation promises.  The
  nonce \<open>rand.Read\<close> draws is an argument of \<open>Seal\<close>.
\<close>

section \<open>Frames\<close>

definition frameVersion :: nat where "frameVersion = 1"
definition frameIDLen :: nat where "frameIDLen = 16"

definition kindCodeMemory :: nat where "kindCodeMemory = 1"
definition kindCodeSession :: nat where "kindCodeSession = 2"
definition kindCodeChunk :: nat where "kindCodeChunk = 3"

definition kindCode :: "kind \<Rightarrow> nat res" where
  "kindCode k = (if k = KindMemory then Inr kindCodeMemory
     else if k = KindSession then Inr kindCodeSession
     else if k = KindChunk then Inr kindCodeChunk
     else fail [] ''frame: unknown kind'')"

definition kindFromCode :: "nat \<Rightarrow> kind res" where
  "kindFromCode c = (if c = kindCodeMemory then Inr KindMemory
     else if c = kindCodeSession then Inr KindSession
     else if c = kindCodeChunk then Inr KindChunk
     else fail [ErrCorrupt] ''unknown kind code'')"

record frame =
  frKind :: kind
  frID :: recid
  frSealed :: "byte list"

definition frame_header :: "nat \<Rightarrow> byte list" where
  "frame_header code = [77, 110, of_nat frameVersion, of_nat code, of_nat frameIDLen]"

definition FrameRecord :: "kind \<Rightarrow> recid \<Rightarrow> byte list \<Rightarrow> byte list res" where
  "FrameRecord k i body = rbind (kindCode k) (\<lambda>code.
     let b = frame_header code @ ID_bytes i @ body in Inr (put_uvarint (length b) @ b))"

text \<open>\<open>Unframe\<close>: the length prefix first, then the body it delimits.\<close>

definition unframe_body :: "byte list \<Rightarrow> byte list \<Rightarrow> (frame \<times> byte list) res" where
  "unframe_body body rest =
    (if length body < 5 then fail [ErrCorrupt] ''frame header truncated''
     else if body ! 0 \<noteq> 77 \<or> body ! 1 \<noteq> 110 then fail [ErrCorrupt] ''bad frame magic''
     else if body ! 2 \<noteq> of_nat frameVersion then fail [ErrCorrupt] ''frame version''
     else rbind (kindFromCode (unat (body ! 3))) (\<lambda>k.
       let idLen = unat (body ! 4) in
       if length body < 5 + idLen then fail [ErrCorrupt] ''frame id truncated''
       else if idLen \<noteq> frameIDLen then fail [ErrCorrupt] ''frame id length''
       else Inr (\<lparr> frKind = k, frID = ID_of_bytes (take idLen (drop 5 body)),
                   frSealed = drop (5 + idLen) body \<rparr>, rest)))"

definition Unframe :: "byte list \<Rightarrow> (frame \<times> byte list) res" where
  "Unframe b =
    (case uvarint b of (len, n) \<Rightarrow>
      if n \<le> 0 then fail [ErrCorrupt] ''unreadable frame length''
      else if length (drop (nat n) b) < len
        then fail [ErrCorrupt] ''frame claims more bytes than remain''
      else unframe_body (take len (drop (nat n) b)) (drop len (drop (nat n) b)))"

text \<open>The walk ends because every frame read takes at least one byte.\<close>

lemma Unframe_shorter:
  assumes "Unframe b = Inr (f, rest)"
  shows "length rest < length b"
proof -
  obtain len n where u: "uvarint b = (len, n)" by fastforce
  from assms u have "0 < n" and rest: "rest = drop len (drop (nat n) b)"
    by (auto simp: Unframe_def unframe_body_def Let_def rbind_Inr_iff split: if_splits)
  then show ?thesis using uvarint_consumed [OF u] by simp
qed

function Frames_loop :: "frame list \<Rightarrow> byte list \<Rightarrow> frame list \<times> goerr option" where
  "Frames_loop out blob = (if blob = [] then (out, None)
     else case Unframe blob of
       Inl e \<Rightarrow> (out, Some e)
     | Inr (f, rest) \<Rightarrow> Frames_loop (out @ [f]) rest)"
  by pat_completeness auto
termination
  by (relation "measure (length \<circ> snd)") (auto dest: Unframe_shorter)

declare Frames_loop.simps [simp del]

definition Frames :: "byte list \<Rightarrow> frame list \<times> goerr option" where
  "Frames blob = Frames_loop [] blob"

definition FrameOverhead :: "nat \<Rightarrow> nat" where
  "FrameOverhead sealedLen =
    (let body = 5 + frameIDLen + sealedLen in length (put_uvarint body) + body - sealedLen)"

section \<open>The envelope and the content address\<close>

definition NonceSize :: nat where "NonceSize = 24"
definition TagSize :: nat where "TagSize = 16"
definition Overhead :: nat where "Overhead = NonceSize + TagSize"

record crypto =
  cAeadSeal :: "byte list \<Rightarrow> byte list \<Rightarrow> byte list \<Rightarrow> byte list"
  cAeadOpen :: "byte list \<Rightarrow> byte list \<Rightarrow> byte list \<Rightarrow> byte list option"
  cZstdEnc :: "byte list \<Rightarrow> byte list"
  cZstdDec :: "byte list \<Rightarrow> byte list option"
  cBlake :: "byte list \<Rightarrow> byte list \<Rightarrow> byte list"

definition crypto_ok :: "crypto \<Rightarrow> bool" where
  "crypto_ok c \<longleftrightarrow>
     (\<forall>k n m. cAeadOpen c k n (cAeadSeal c k n m) = Some m)
     \<and> (\<forall>k n m. length (cAeadSeal c k n m) = length m + TagSize)
     \<and> (\<forall>m. cZstdDec c (cZstdEnc c m) = Some m)
     \<and> (\<forall>k m. length (cBlake c k m) = 32)"

type_synonym cid = "256 word"

record sealer =
  slRecord :: "byte list"
  slContent :: "byte list"

definition Seal :: "crypto \<Rightarrow> sealer \<Rightarrow> byte list res \<Rightarrow> byte list \<Rightarrow> byte list res" where
  "Seal c s rand plaintext =
    (case rand of Inl e \<Rightarrow> Inl (wrap_err ''nonce: '' e)
     | Inr nonce \<Rightarrow> Inr (nonce @ cAeadSeal c (slRecord s) nonce (cZstdEnc c plaintext)))"

definition Open :: "crypto \<Rightarrow> sealer \<Rightarrow> byte list \<Rightarrow> byte list res" where
  "Open c s blob =
    (if length blob < Overhead then fail [ErrCorrupt] ''too short''
     else case cAeadOpen c (slRecord s) (take NonceSize blob) (drop NonceSize blob) of
       None \<Rightarrow> fail [ErrCorrupt] ''authentication failed''
     | Some compressed \<Rightarrow> (case cZstdDec c compressed of
         None \<Rightarrow> fail [ErrCorrupt] ''decompress''
       | Some plaintext \<Rightarrow> Inr plaintext))"

definition CID_bytes :: "cid \<Rightarrow> byte list" where
  "CID_bytes i = be_bytes 32 (unat i)"

definition CID_of_bytes :: "byte list \<Rightarrow> cid" where
  "CID_of_bytes bs = of_nat (be_val bs)"

definition Sealer_CID :: "crypto \<Rightarrow> sealer \<Rightarrow> byte list \<Rightarrow> cid" where
  "Sealer_CID c s plaintext = CID_of_bytes (cBlake c (slContent s) plaintext)"

definition CID_String :: "cid \<Rightarrow> string" where
  "CID_String i = hex_encode (CID_bytes i)"

definition ParseCID :: "string \<Rightarrow> cid res" where
  "ParseCID s = (case hex_decode s of
     None \<Rightarrow> fail [] ''parse cid''
   | Some b \<Rightarrow> if length b \<noteq> 32 then fail [] ''parse cid: length'' else Inr (CID_of_bytes b))"

section \<open>Lemmas\<close>

lemma CID_of_bytes_CID_bytes [simp]: "CID_of_bytes (CID_bytes i) = i"
proof -
  have "unat i < 256 ^ 32" using unsigned_less [of i] by simp
  then show ?thesis by (simp add: CID_of_bytes_def CID_bytes_def)
qed

lemma CID_bytes_CID_of_bytes: "length bs = 32 \<Longrightarrow> CID_bytes (CID_of_bytes bs) = bs"
proof -
  assume l: "length bs = 32"
  have "be_val bs < 2 ^ 256" using be_val_lt [of bs] l by simp
  then have "unat (of_nat (be_val bs) :: cid) = be_val bs" by (simp add: unat_of_nat)
  with l show ?thesis by (simp add: CID_of_bytes_def CID_bytes_def be_bytes_be_val_length)
qed

lemma length_CID_bytes [simp]: "length (CID_bytes i) = 32"
  by (simp add: CID_bytes_def)

lemma ParseCID_String [simp]: "ParseCID (CID_String i) = Inr i"
  by (simp add: ParseCID_def CID_String_def)

lemmas code_defs = kindCodeMemory_def kindCodeSession_def kindCodeChunk_def

lemma kindFromCode_kindCode: "kindCode k = Inr c \<Longrightarrow> kindFromCode c = Inr k \<and> c < 256"
  by (auto simp: kindCode_def kindFromCode_def code_defs split: if_splits)

lemma kindCode_kindFromCode: "kindFromCode c = Inr k \<Longrightarrow> kindCode k = Inr c"
  by (auto simp: kindCode_def kindFromCode_def code_defs split: if_splits)

lemma Unframe_split:
  assumes "uvarint blob = (length body, int p)" and "0 < p" and "drop p blob = body @ rest"
  shows "Unframe blob = unframe_body body rest"
proof -
  have "length body \<le> length (drop p blob)" using assms(3) by simp
  then show ?thesis
    using assms(2) by (simp only: Unframe_def assms(1) prod.case nat_int) (simp add: assms(3))
qed

lemma unframe_body_header:
  assumes "kindCode k = Inr code"
  shows "unframe_body (frame_header code @ ID_bytes i @ body) rest
    = Inr (\<lparr> frKind = k, frID = i, frSealed = body \<rparr>, rest)"
proof -
  have c: "unat (of_nat code :: byte) = code" "kindFromCode code = Inr k"
    using kindFromCode_kindCode [OF assms] by simp_all
  define body' where "body' = frame_header code @ ID_bytes i @ body"
  have "length body' = 21 + length body" "body' ! 0 = 77" "body' ! 1 = 110"
    "body' ! 2 = of_nat frameVersion" "body' ! 3 = of_nat code" "body' ! 4 = of_nat frameIDLen"
    "take 16 (drop 5 body') = ID_bytes i" "drop 21 body' = body"
    by (simp_all add: body'_def frame_header_def)
  moreover have "unat (of_nat frameIDLen :: byte) = 16" by (simp add: frameIDLen_def)
  ultimately show ?thesis
    unfolding body'_def [symmetric] unframe_body_def
    by (simp only: c frameIDLen_def) (simp add: c)
qed

lemma Unframe_FrameRecord:
  assumes "FrameRecord k i body = Inr b" and "length body + 21 < 2 ^ 64"
  shows "Unframe (b @ rest) = Inr (\<lparr> frKind = k, frID = i, frSealed = body \<rparr>, rest)"
proof -
  from assms(1) obtain code w where code: "kindCode k = Inr code"
    and w: "w = frame_header code @ ID_bytes i @ body" and b: "b = put_uvarint (length w) @ w"
    by (auto simp: FrameRecord_def rbind_Inr_iff Let_def)
  have "length w < 2 ^ 64" using assms(2) by (simp add: w frame_header_def)
  then have "uvarint (put_uvarint (length w) @ w @ rest)
      = (length w, int (length (put_uvarint (length w))))"
    by (rule uvarint_put)
  then have "Unframe (put_uvarint (length w) @ w @ rest) = unframe_body w rest"
    by (rule Unframe_split) (simp_all add: put_uvarint_nonempty)
  then show ?thesis by (simp add: b w unframe_body_header [OF code])
qed

lemma unframe_body_corrupt: "unframe_body b r = Inl e \<Longrightarrow> errors_Is e ErrCorrupt"
  by (auto simp: unframe_body_def rbind_Inl_iff kindFromCode_def Let_def split: if_splits)

lemma Unframe_corrupt: "Unframe b = Inl e \<Longrightarrow> errors_Is e ErrCorrupt"
  by (auto simp: Unframe_def dest: unframe_body_corrupt split: prod.splits if_splits)

lemma FrameRecord_bytes:
  assumes "FrameRecord k i body = Inr b"
  obtains w where "b = put_uvarint (length w) @ w" "length w = length body + 21"
proof -
  from assms obtain code where "b = put_uvarint (length (frame_header code @ ID_bytes i @ body))
      @ frame_header code @ ID_bytes i @ body"
    by (auto simp: FrameRecord_def rbind_Inr_iff Let_def)
  then show thesis by (rule that) (simp add: frame_header_def)
qed

text \<open>A frame cut anywhere before its end is refused as corrupt.\<close>

lemma Unframe_cut:
  assumes "FrameRecord k i body = Inr b" and "length body + 21 < 2 ^ 64" and "n < length b"
  shows "\<exists>e. Unframe (take n b) = Inl e \<and> errors_Is e ErrCorrupt"
proof -
  from assms(1) obtain w where b: "b = put_uvarint (length w) @ w" and l: "length w = length body + 21"
    by (rule FrameRecord_bytes)
  let ?p = "put_uvarint (length w)"
  have lt: "length w < 2 ^ 64" using assms(2) l by simp
  show ?thesis
  proof (cases "n < length ?p")
    case True
    then have "uvarint (take n b) = (0, 0)" using uvarint_cut [OF lt True] by (simp add: b)
    then show ?thesis by (simp add: Unframe_def)
  next
    case False
    then have t: "take n b = ?p @ take (n - length ?p) w" by (simp add: b)
    have u: "uvarint (take n b) = (length w, int (length ?p))"
      unfolding t by (rule uvarint_put [OF lt])
    have d: "drop (length ?p) (take n b) = take (n - length ?p) w" by (simp add: t)
    have "n - length ?p < length w" using assms(3) b False by simp
    then show ?thesis
      using put_uvarint_nonempty [of "length w"]
      by (simp only: Unframe_def u prod.case nat_int d) (simp add: Unframe_def)
  qed
qed

lemma Frames_loop_out: "Frames_loop out blob = (out @ fst (Frames blob), snd (Frames blob))"
proof -
  have "Frames_loop (out @ mid) blob
      = (out @ fst (Frames_loop mid blob), snd (Frames_loop mid blob))" for mid
  proof (induction mid blob arbitrary: out rule: Frames_loop.induct)
    case (1 mid blob)
    show ?case
    proof (cases "blob = [] \<or> (\<exists>e. Unframe blob = Inl e)")
      case True
      then show ?thesis by (auto simp: Frames_loop.simps [of _ blob])
    next
      case False
      then obtain f rest where u: "blob \<noteq> []" "Unframe blob = Inr (f, rest)"
        by (cases "Unframe blob") auto
      have "Frames_loop (out @ (mid @ [f])) rest
        = (out @ fst (Frames_loop (mid @ [f]) rest), snd (Frames_loop (mid @ [f]) rest))"
        by (rule "1.IH") (use u in auto)
      then show ?thesis using u by (simp add: Frames_loop.simps [of _ blob])
    qed
  qed
  from this [of "[]"] show ?thesis by (simp add: Frames_def)
qed

lemma Frames_unfold:
  "Frames [] = ([], None)"
  "blob \<noteq> [] \<Longrightarrow> Unframe blob = Inl e \<Longrightarrow> Frames blob = ([], Some e)"
  "blob \<noteq> [] \<Longrightarrow> Unframe blob = Inr (f, rest)
     \<Longrightarrow> Frames blob = (f # fst (Frames rest), snd (Frames rest))"
proof -
  show "Frames [] = ([], None)" by (simp add: Frames_def Frames_loop.simps)
  show "blob \<noteq> [] \<Longrightarrow> Unframe blob = Inl e \<Longrightarrow> Frames blob = ([], Some e)"
    by (simp add: Frames_def Frames_loop.simps)
  assume "blob \<noteq> []" "Unframe blob = Inr (f, rest)"
  then have "Frames blob = Frames_loop [f] rest"
    by (simp add: Frames_def Frames_loop.simps [of "[]" blob])
  then show "Frames blob = (f # fst (Frames rest), snd (Frames rest))"
    by (simp add: Frames_loop_out [of "[f]"])
qed

text \<open>The blob a list of frames packs into.\<close>

definition packs :: "frame list \<Rightarrow> byte list list \<Rightarrow> bool" where
  "packs fs bs \<longleftrightarrow> list_all2 (\<lambda>f b. FrameRecord (frKind f) (frID f) (frSealed f) = Inr b
      \<and> length (frSealed f) + 21 < 2 ^ 64) fs bs"

lemma packs_simps [simp]:
  "packs [] bs \<longleftrightarrow> bs = []"
  "packs (f # fs) bs \<longleftrightarrow> (\<exists>b bs'. bs = b # bs'
     \<and> FrameRecord (frKind f) (frID f) (frSealed f) = Inr b
     \<and> length (frSealed f) + 21 < 2 ^ 64 \<and> packs fs bs')"
  by (auto simp: packs_def list_all2_Cons1)

lemma frame_eta [simp]: "\<lparr> frKind = frKind f, frID = frID f, frSealed = frSealed f \<rparr> = (f :: frame)"
  by simp

lemma FrameRecord_nonempty: "FrameRecord k i body = Inr b \<Longrightarrow> b \<noteq> []"
  using FrameRecord_bytes [of k i body b] put_uvarint_nonempty by (metis append_is_Nil_conv)

lemma Frames_packs:
  "packs fs bs \<Longrightarrow> Frames (concat bs @ tail) = (fs @ fst (Frames tail), snd (Frames tail))"
proof (induction fs arbitrary: bs)
  case Nil
  then show ?case by simp
next
  case (Cons f fs)
  then obtain b bs' where b: "bs = b # bs'" "FrameRecord (frKind f) (frID f) (frSealed f) = Inr b"
    "length (frSealed f) + 21 < 2 ^ 64" "packs fs bs'"
    by auto
  have "Unframe (b @ (concat bs' @ tail)) = Inr (f, concat bs' @ tail)"
    using Unframe_FrameRecord [OF b(2,3), of "concat bs' @ tail"] by simp
  moreover have "b @ (concat bs' @ tail) \<noteq> []" using FrameRecord_nonempty [OF b(2)] by simp
  ultimately have "Frames (b @ (concat bs' @ tail))
      = (f # fst (Frames (concat bs' @ tail)), snd (Frames (concat bs' @ tail)))"
    by (intro Frames_unfold(3))
  then show ?case using Cons.IH [OF b(4)] b(1) by simp
qed

section \<open>Properties\<close>

lemma FrameOverhead_exact_lemma:
  assumes "FrameRecord k i body = Inr b"
  shows "length b = length (put_uvarint (length body + 21)) + length body + 21"
    "length body < 2 ^ 62 \<Longrightarrow> length b \<le> length body + 31"
proof -
  from assms obtain w where w: "b = put_uvarint (length w) @ w" "length w = length body + 21"
    by (rule FrameRecord_bytes)
  then show "length b = length (put_uvarint (length body + 21)) + length body + 21" by simp
  then show "length body < 2 ^ 62 \<Longrightarrow> length b \<le> length body + 31"
    using put_uvarint_length [of "length body + 21" 10] by simp
qed

text \<open>C3. What is packed is what is found: walking the concatenation of the frames of any list of
  records yields exactly those records, in order, and no error; damage or foreign bytes after
  them cost only what follows, whatever the tail is.\<close>

theorem Frames_recover:
  assumes "packs fs bs"
  shows "Frames (concat bs) = (fs, None)
    \<and> Frames (concat bs @ tail) = (fs @ fst (Frames tail), snd (Frames tail))"
  using Frames_packs [OF assms, of "[]"] Frames_packs [OF assms, of tail]
  by (simp add: Frames_unfold(1))

theorem Frames_recover_witness:
  "\<exists>b. FrameRecord KindChunk 7 [1, 2, 3] = Inr b \<and>
     Frames (b @ [0]) = ([\<lparr> frKind = KindChunk, frID = 7, frSealed = [1, 2, 3] \<rparr>], snd (Frames [0]))
     \<and> snd (Frames [0]) \<noteq> None"
proof -
  obtain b where b: "FrameRecord KindChunk 7 [1, 2, 3] = Inr b"
    by (simp add: FrameRecord_def kindCode_def Let_def)
  have "Unframe [0] = Inl (GoErr [ErrCorrupt] ''frame header truncated'')"
    by (simp add: Unframe_def uvarint_def unframe_body_def)
  then have z: "Frames [0] = ([], Some (GoErr [ErrCorrupt] ''frame header truncated''))"
    by (intro Frames_unfold(2)) simp_all
  have "packs [\<lparr> frKind = KindChunk, frID = 7, frSealed = [1, 2, 3] \<rparr>] [b]" using b by simp
  from Frames_recover [OF this, of "[0]"] b z show ?thesis by auto
qed

text \<open>A blob truncated inside a frame still yields every frame before the cut, and reports the
  loss as corruption instead of passing silently.\<close>

lemma Frames_truncated:
  assumes "packs fs bs" and "FrameRecord k i body = Inr b" and "length body + 21 < 2 ^ 64"
    and "0 < n" and "n < length b"
  shows "\<exists>e. Frames (concat bs @ take n b) = (fs, Some e) \<and> errors_Is e ErrCorrupt"
proof -
  obtain e where "Unframe (take n b) = Inl e" "errors_Is e ErrCorrupt"
    using Unframe_cut [OF assms(2,3,5)] by blast
  moreover from this have "Frames (take n b) = ([], Some e)"
    using assms(4,5) by (intro Frames_unfold(2)) auto
  ultimately show ?thesis using Frames_packs [OF assms(1), of "take n b"] by auto
qed

text \<open>The budget the packer charges for a frame is exact: \<open>FrameOverhead\<close> of the sealed length
  is the number of bytes \<open>FrameRecord\<close> adds to the sealed body.\<close>

lemma FrameOverhead_exact:
  assumes "FrameRecord k i body = Inr b"
  shows "length b = length body + FrameOverhead (length body)"
  using FrameOverhead_exact_lemma(1) [OF assms]
  by (simp add: FrameOverhead_def frameIDLen_def Let_def add.commute)

lemma Open_Seal:
  assumes "crypto_ok c" and "length nonce = NonceSize"
  shows "Seal c s (Inr nonce) m = Inr b \<Longrightarrow> Open c s b = Inr m"
    "Seal c s (Inr nonce) m = Inr b \<Longrightarrow> length b = length (cZstdEnc c m) + Overhead"
  using assms by (auto simp: Seal_def Open_def crypto_ok_def Overhead_def TagSize_def)

lemma Open_corrupt: "Open c s b = Inl e \<Longrightarrow> errors_Is e ErrCorrupt"
  by (auto simp: Open_def split: if_splits option.splits)

text \<open>What a writer does to one record: seal the body, then frame it.\<close>

definition seal_frame :: "crypto \<Rightarrow> sealer \<Rightarrow> byte list \<times> kind \<times> recid \<times> byte list \<Rightarrow> byte list res" where
  "seal_frame c s = (\<lambda>(nonce, k, i, m). rbind (Seal c s (Inr nonce) m) (FrameRecord k i))"

text \<open>C4. A record body sealed, framed and packed is recovered whole: the frames of the blob open,
  under the same key, to the plaintexts that were sealed, in order and under their own ids.\<close>

theorem Seal_pack_recover:
  assumes "crypto_ok c"
    and "list_all2 (\<lambda>r b. seal_frame c s r = Inr b \<and> length b < 2 ^ 64
           \<and> length (fst r) = NonceSize) rs bs"
  shows "map (\<lambda>f. (frKind f, frID f, Open c s (frSealed f))) (fst (Frames (concat bs)))
      = map (\<lambda>(nonce, k, i, m). (k, i, Inr m)) rs \<and> snd (Frames (concat bs)) = None"
proof -
  have "\<exists>fs. packs fs bs \<and> map (\<lambda>f. (frKind f, frID f, Open c s (frSealed f))) fs
      = map (\<lambda>(nonce, k, i, m). (k, i, Inr m)) rs"
    using assms(2)
  proof (induction rule: list_all2_induct)
    case Nil
    have "packs [] []" by simp
    then show ?case by auto
  next
    case (Cons r rs b bs)
    obtain nonce k i m where r: "r = (nonce, k, i, m)" by (cases r) auto
    from Cons r obtain body where body: "Seal c s (Inr nonce) m = Inr body"
      "FrameRecord k i body = Inr b" and n: "length nonce = NonceSize"
      by (auto simp: seal_frame_def rbind_Inr_iff)
    obtain w where "b = put_uvarint (length w) @ w" "length w = length body + 21"
      using body(2) by (rule FrameRecord_bytes)
    then have l: "length body + 21 < 2 ^ 64" using Cons by simp
    from Cons obtain fs where fs: "packs fs bs"
      "map (\<lambda>f. (frKind f, frID f, Open c s (frSealed f))) fs
        = map (\<lambda>(nonce, k, i, m). (k, i, Inr m)) rs"
      by blast
    have "packs (\<lparr> frKind = k, frID = i, frSealed = body \<rparr> # fs) (b # bs)"
      using fs body l by simp
    moreover have "Open c s body = Inr m" by (rule Open_Seal(1) [OF assms(1) n body(1)])
    ultimately show ?case using fs(2) r by (intro exI [of _ "\<lparr> frKind = k, frID = i, frSealed = body \<rparr> # fs"]) simp
  qed
  then obtain fs where "packs fs bs" "map (\<lambda>f. (frKind f, frID f, Open c s (frSealed f))) fs
      = map (\<lambda>(nonce, k, i, m). (k, i, Inr m)) rs"
    by blast
  then show ?thesis using Frames_packs [of fs bs "[]"] by (simp add: Frames_unfold(1))
qed

text \<open>A cipher and a compressor that only add their overhead.\<close>

definition plain_crypto :: crypto where
  "plain_crypto = \<lparr> cAeadSeal = (\<lambda>k n m. m @ replicate 16 0),
     cAeadOpen = (\<lambda>k n c. if length c < 16 then None else Some (take (length c - 16) c)),
     cZstdEnc = (\<lambda>m. m), cZstdDec = Some, cBlake = (\<lambda>k m. replicate 32 0) \<rparr>"

lemma plain_crypto_ok: "crypto_ok plain_crypto"
  by (simp add: crypto_ok_def plain_crypto_def TagSize_def)

theorem Seal_pack_recover_witness:
  "\<exists>b. seal_frame plain_crypto \<lparr> slRecord = [], slContent = [] \<rparr>
         (replicate 24 0, KindMemory, 3, [8]) = Inr b
     \<and> map (\<lambda>f. (frKind f, frID f, Open plain_crypto \<lparr> slRecord = [], slContent = [] \<rparr> (frSealed f)))
         (fst (Frames b)) = [(KindMemory, 3, Inr [8])]"
proof -
  let ?s = "\<lparr> slRecord = [], slContent = [] \<rparr>"
  let ?r = "(replicate 24 (0 :: byte), KindMemory, 3 :: recid, [8 :: byte])"
  obtain body where body: "Seal plain_crypto ?s (Inr (replicate 24 0)) [8] = Inr body"
    "length body = 41"
    by (simp add: Seal_def plain_crypto_def)
  obtain b where b: "FrameRecord KindMemory 3 body = Inr b"
    by (simp add: FrameRecord_def kindCode_def Let_def)
  have lb: "length b < 2 ^ 64"
    using FrameOverhead_exact_lemma(2) [OF b] body(2) by simp
  have sf: "seal_frame plain_crypto ?s ?r = Inr b" using body b by (simp add: seal_frame_def)
  have "list_all2 (\<lambda>r b. seal_frame plain_crypto ?s r = Inr b \<and> length b < 2 ^ 64
           \<and> length (fst r) = NonceSize) [?r] [b]"
    using sf lb by (simp add: NonceSize_def)
  from Seal_pack_recover [OF plain_crypto_ok this] sf show ?thesis by auto
qed

end
