(* ===== verification/Replay.thy ===== *)
theory Replay
  imports Prelude "HOL-Library.Sublist"
begin

text \<open>
  The shape the catalog and the persisted index share: a snapshot and an append-only tail of
  keyed entries, read back by replaying one after the other with the last entry of a key
  winning, and folded together now and then.  The locale states what a file format has to
  provide; inside it, appending and compacting are proved to keep what a reader sees,
  including every state an interrupted compaction can leave on disk.
\<close>

section \<open>File operations that may fail\<close>

text \<open>Which operations of a call fail, and how many bytes a failing write still puts down.\<close>

datatype io_op = OpWriteLog | OpWriteDelta nat | OpSyncLog | OpOpenPending | OpWritePending nat | OpSyncPending
  | OpClosePending | OpRename | OpTruncate | OpSeek | OpSyncEmptied | OpOpenSnapshot | OpSeekEnd | OpReadBase | OpReadDelta

record io =
  ioFails :: "io_op \<Rightarrow> bool"
  ioTorn :: nat

definition io_ok :: io where
  "io_ok = \<lparr> ioFails = (\<lambda>_. False), ioTorn = 0 \<rparr>"

section \<open>Replaying keyed entries\<close>

type_synonym ('k, 'e) view = "('k \<rightharpoonup> 'e) \<times> 'k list"

definition put_entry :: "('e \<Rightarrow> 'k) \<Rightarrow> 'e \<Rightarrow> ('k, 'e) view \<Rightarrow> ('k, 'e) view" where
  "put_entry key e = (\<lambda>(m, ord). (m(key e \<mapsto> e), if m (key e) \<noteq> None then ord else ord @ [key e]))"

definition replay :: "('e \<Rightarrow> 'k) \<Rightarrow> 'e list \<Rightarrow> ('k, 'e) view \<Rightarrow> ('k, 'e) view" where
  "replay key es v = foldl (\<lambda>v e. put_entry key e v) v es"

definition listing :: "('k, 'e) view \<Rightarrow> 'e list" where
  "listing = (\<lambda>(m, ord). map (\<lambda>k. the (m k)) ord)"

definition view_wf :: "('e \<Rightarrow> 'k) \<Rightarrow> ('k, 'e) view \<Rightarrow> bool" where
  "view_wf key = (\<lambda>(m, ord). dom m = set ord \<and> distinct ord \<and> (\<forall>k e. m k = Some e \<longrightarrow> key e = k))"

lemma replay_simps [simp]:
  "replay key [] v = v" "replay key (e # es) v = replay key es (put_entry key e v)"
  "replay key (es @ es') v = replay key es' (replay key es v)"
  by (simp_all add: replay_def)

lemma view_wf_empty [simp]: "view_wf key (Map.empty, [])"
  by (simp add: view_wf_def)

lemma view_wf_put: "view_wf key v \<Longrightarrow> view_wf key (put_entry key e v)"
  by (cases v) (auto simp: view_wf_def put_entry_def)

lemma view_wf_replay: "view_wf key v \<Longrightarrow> view_wf key (replay key es v)"
proof (induction es arbitrary: v)
  case (Cons e es)
  then show ?case by (simp add: view_wf_put)
qed simp

lemma fst_replay: "fst (replay key es v) = fst v ++ map_of (rev (map (\<lambda>e. (key e, e)) es))"
proof (induction es arbitrary: v)
  case Nil
  then show ?case by simp
next
  case (Cons e es)
  then show ?case
    by (cases v) (simp add: put_entry_def map_add_def fun_eq_iff split: option.split)
qed

lemma snd_replay: "dom (fst v) = set (snd v) \<Longrightarrow>
  snd (replay key es v) = distinct_keys (snd v) (map key es)"
proof (induction es arbitrary: v)
  case Nil
  then show ?case by simp
next
  case (Cons e es)
  obtain m ord where v: "v = (m, ord)" by (cases v)
  have "dom (fst (put_entry key e v)) = set (snd (put_entry key e v))"
    using Cons.prems by (auto simp: v put_entry_def)
  from Cons.IH [OF this] Cons.prems show ?case by (auto simp: v put_entry_def)
qed

lemma map_of_last:
  "map_of (rev (map (\<lambda>e. (key e, e)) es)) k = Some e \<Longrightarrow> e \<in> set es \<and> key e = k"
  by (auto dest: map_of_SomeD)

lemma map_of_last_None:
  "map_of (rev (map (\<lambda>e. (key e, e)) es)) k = None \<longleftrightarrow> k \<notin> key ` set es"
  by (simp add: map_of_eq_None_iff image_image)

lemma map_of_last_distinct:
  "distinct (map key es) \<Longrightarrow> e \<in> set es \<Longrightarrow> map_of (rev (map (\<lambda>e. (key e, e)) es)) (key e) = Some e"
  by (intro map_of_is_SomeI) (auto simp: rev_map [symmetric] comp_def)

lemma dom_the: "dom m = set ord \<Longrightarrow> k \<in> set ord \<Longrightarrow> m k = Some (the (m k))"
  by (metis domIff option.collapse)

lemma listing_keys: "view_wf key (m, ord) \<Longrightarrow> map key (listing (m, ord)) = ord"
  by (auto simp: view_wf_def listing_def intro!: map_idI) (metis domIff option.collapse)

lemma in_listing:
  assumes "view_wf key (m, ord)"
  shows "e \<in> set (listing (m, ord)) \<longleftrightarrow> m (key e) = Some e"
proof
  assume "e \<in> set (listing (m, ord))"
  then obtain k where k: "k \<in> set ord" "e = the (m k)" by (auto simp: listing_def)
  then have "m k = Some e" using assms dom_the [of m ord k] by (simp add: view_wf_def)
  then show "m (key e) = Some e" using assms by (auto simp: view_wf_def)
next
  assume "m (key e) = Some e"
  then show "e \<in> set (listing (m, ord))"
    using assms by (force simp: listing_def view_wf_def)
qed

text \<open>Two views with the same listing are the same.\<close>

lemma listing_inject:
  assumes "view_wf key v" and "view_wf key w" and "listing v = listing w"
  shows "v = w"
proof -
  obtain m ord where v: "v = (m, ord)" by (cases v)
  obtain m' ord' where w: "w = (m', ord')" by (cases w)
  have o: "ord = ord'" using assms listing_keys unfolding v w by metis
  have dm: "dom m = set ord" "dom m' = set ord"
    using assms(1,2) o by (simp_all add: v w view_wf_def)
  have "m k = m' k" for k
  proof (cases "k \<in> set ord")
    case True
    then have "m k = Some (the (m k))" "m' k = Some (the (m' k))"
      using dom_the dm by metis+
    moreover have "the (m k) = the (m' k)"
      using assms(3) o True unfolding v w by (simp add: listing_def)
    ultimately show ?thesis by metis
  next
    case False
    then show ?thesis using dm by (metis domIff)
  qed
  then show ?thesis using o by (simp add: v w fun_eq_iff)
qed

text \<open>
  What compaction writes is the live part of the listing.  Replaying it, and over it any
  entries the log still holds, shows the same live records in the same order.
\<close>

lemma replay_compacted:
  assumes "suffix ls hs" and "view = replay key hs (Map.empty, [])"
    and "es = filter live (listing view)"
  shows "filter live (listing (replay key (es @ ls) (Map.empty, []))) = es"
proof -
  obtain m ord where view: "view = (m, ord)" by (cases view)
  have wf: "view_wf key (m, ord)"
    using view_wf_replay [OF view_wf_empty, of key hs] view assms(2) by simp
  have m: "m = map_of (rev (map (\<lambda>e. (key e, e)) hs))"
    using fst_replay [of key hs "(Map.empty, [])"] view assms(2) by simp
  obtain ps where hs: "hs = ps @ ls" using assms(1) by (auto simp: suffix_def)
  define w where "w = replay key (es @ ls) (Map.empty, [])"
  obtain m' ord' where w: "w = (m', ord')" by (cases w)
  have wf': "view_wf key (m', ord')" using view_wf_replay [of key _ "es @ ls"] w w_def by (metis view_wf_empty)
  have m': "m' = map_of (rev (map (\<lambda>e. (key e, e)) (es @ ls)))"
    using fst_replay [of key "es @ ls" "(Map.empty, [])"] w w_def by simp
  have ord': "ord' = distinct_keys [] (map key (es @ ls))"
    using snd_replay [of "(Map.empty, [])" key "es @ ls"] w w_def by simp
  have es_m: "e \<in> set es \<longleftrightarrow> live e \<and> m (key e) = Some e" for e
    using in_listing [OF wf] by (auto simp: assms(3) view)
  have dist: "distinct (map key es)"
    using listing_keys [OF wf] wf unfolding assms(3) view view_wf_def
    by (metis (no_types, lifting) case_prodD distinct_map_filter)
  have same: "m' k = m k" if "k \<in> key ` set ls" for k
    using that map_of_last_None [of key ls k]
    by (auto simp: m m' hs map_add_def split: option.splits)
  have kept: "m' (key e) = Some e" if "e \<in> set es" for e
  proof (cases "key e \<in> key ` set ls")
    case True
    then show ?thesis using same es_m that by metis
  next
    case False
    then have "map_of (rev (map (\<lambda>e. (key e, e)) ls)) (key e) = None"
      by (simp add: map_of_last_None)
    then show ?thesis
      using map_of_last_distinct [OF dist that] by (simp add: m' map_add_def)
  qed
  have gone: "\<not> live (the (m' k))" if k: "k \<in> key ` set ls" "k \<notin> key ` set es" for k
  proof -
    have "m k \<noteq> None" using k(1) map_of_last_None [of key hs k] by (auto simp: m hs)
    then obtain e where e: "m k = Some e" by auto
    then have "key e = k" using wf by (auto simp: view_wf_def)
    then have "\<not> live e" using es_m [of e] e k(2) by force
    then show ?thesis using same [OF k(1)] e by simp
  qed
  define new where "new = drop (length es) ord'"
  have ord_es: "ord' = map key es @ new"
  proof -
    have "distinct_keys [] (map key es) = map key es" using dist by (simp add: distinct_keys_fresh)
    moreover have "\<exists>r. distinct_keys s ks = s @ r" for s :: "'b list" and ks
      by (induction ks arbitrary: s) (auto, metis append.assoc)
    ultimately show ?thesis
      unfolding new_def ord' by (metis append_eq_conv_conj distinct_keys_append length_map map_append)
  qed
  have new: "k \<in> key ` set ls \<and> k \<notin> key ` set es" if "k \<in> set new" for k
  proof -
    have "distinct (map key es @ new)" using wf' ord_es by (auto simp: view_wf_def)
    moreover have "k \<in> set ord'" using that ord_es by simp
    then have "k \<in> key ` set es \<union> key ` set ls" by (auto simp: ord')
    ultimately show ?thesis using that by auto
  qed
  have "map (\<lambda>k. the (m' k)) (map key es) = es" using kept by (auto intro: map_idI)
  moreover have "filter live (map (\<lambda>k. the (m' k)) new) = []" using new gone by (auto simp: filter_empty_conv)
  moreover have "filter live es = es" using es_m by (simp add: filter_id_conv)
  ultimately have "filter live (listing w) = es"
    unfolding w listing_def ord_es by (simp del: map_map)
  then show ?thesis by (simp add: w_def)
qed

section \<open>The interface\<close>

text \<open>
  A file format provides the entries a reader gets from a disk state, in replay order, and
  relates the disk before and after an append that returned no error and after a compaction,
  finished or not.
\<close>

locale entry_log =
  fixes key :: "'e \<Rightarrow> 'k"
    and live :: "'e \<Rightarrow> bool"
    and inv :: "'d \<Rightarrow> bool"
    and held :: "'d \<Rightarrow> 'e list"
    and appended :: "'e list \<Rightarrow> 'd \<Rightarrow> 'd \<Rightarrow> bool"
    and compacted :: "'e list \<Rightarrow> 'd \<Rightarrow> 'd \<Rightarrow> bool"
  assumes appended_held:
      "inv d \<Longrightarrow> appended es d d' \<Longrightarrow> inv d' \<and> held d' = held d @ es"
    and compacted_held:
      "inv d \<Longrightarrow> compacted es d d' \<Longrightarrow>
         inv d' \<and> (held d' = held d \<or> (\<exists>ls. suffix ls (held d) \<and> held d' = es @ ls))"
begin

definition view :: "'d \<Rightarrow> ('k, 'e) view" where
  "view d = replay key (held d) (Map.empty, [])"

definition records :: "'d \<Rightarrow> 'e list" where
  "records d = filter live (listing (view d))"

lemma view_wf: "view_wf key (view d)"
  unfolding view_def by (rule view_wf_replay) simp

lemma view_appended: "inv d \<Longrightarrow> appended es d d' \<Longrightarrow> view d' = replay key es (view d)"
  using appended_held [of d es d'] by (simp add: view_def)

text \<open>What an entry shown after an append is: the last one appended for its key, or an old one.\<close>

lemma records_appended:
  assumes "inv d" and "appended es d d'" and "distinct (map key es)"
  shows "set (records d') = {e \<in> set es. live e} \<union> {e \<in> set (records d). key e \<notin> key ` set es}"
proof -
  obtain m ord where v: "view d = (m, ord)" by (cases "view d")
  obtain m' ord' where v': "view d' = (m', ord')" by (cases "view d'")
  have m': "m' = m ++ map_of (rev (map (\<lambda>e. (key e, e)) es))"
    using fst_replay [of key es "view d"] view_appended [OF assms(1,2)] v v' by (metis fst_conv)
  have "m' (key e) = Some e \<longleftrightarrow> e \<in> set es \<or> (m (key e) = Some e \<and> key e \<notin> key ` set es)" for e
  proof (cases "key e \<in> key ` set es")
    case True
    then obtain a where a: "a \<in> set es" "key a = key e" by auto
    then have "m' (key e) = Some a"
      using map_of_last_distinct [OF assms(3) a(1)] by (simp add: m' map_add_def)
    moreover have "a = e \<longleftrightarrow> e \<in> set es" using a assms(3) by (auto simp: distinct_map inj_on_def)
    ultimately show ?thesis using True by auto
  next
    case False
    then have "map_of (rev (map (\<lambda>e. (key e, e)) es)) (key e) = None" by (simp add: map_of_last_None)
    then show ?thesis using False by (auto simp: m' map_add_def)
  qed
  then show ?thesis
    using in_listing [of key m ord] in_listing [of key m' ord'] view_wf [of d] view_wf [of d'] v v'
    by (auto simp: records_def)
qed

lemma records_compacted:
  assumes "inv d" and "compacted (records d) d d'"
  shows "records d' = records d"
proof -
  from compacted_held [OF assms] consider "held d' = held d"
    | ls where "suffix ls (held d)" "held d' = records d @ ls" by blast
  then show ?thesis
  proof cases
    case 1
    then show ?thesis by (simp add: records_def view_def)
  next
    case 2
    from replay_compacted [OF 2(1) view_def [of d] records_def [of d]]
    show ?thesis by (simp only: records_def [of d'] view_def 2(2))
  qed
qed

lemma view_compacted:
  assumes "inv d" and "compacted (records d) d d'" and "\<And>e. live e"
  shows "view d' = view d"
proof -
  have "listing (view d') = listing (view d)"
    using records_compacted [OF assms(1,2)] assms(3) by (simp add: records_def)
  then show ?thesis by (rule listing_inject [OF view_wf view_wf])
qed

end

end
