(* ===== verification/Manifest.thy ===== *)
theory Manifest
  imports Seal Replay
begin

text \<open>
  Package \<open>manifest\<close>: the catalog of record ids to object locations and its two files, a
  snapshot and an append-only log of sealed lines.

  The disk is the two fields \<open>lgSnap\<close> and \<open>lgFile\<close> of the log.  An \<open>io\<close> value says which file
  operations of a call fail, and how many bytes a failing write still leaves; a crash between
  two operations leaves the disk a failure of the second one leaves.  The JSON codec, the
  cipher and the entropy source are the fields of a \<open>menv\<close>; \<open>lgRand\<close> counts the nonces drawn.
\<close>

section \<open>Entries and lines\<close>

record mentry =
  enID :: recid
  enKind :: kind
  enType :: string
  enVersion :: int
  enCID :: cid
  enObjectRef :: string
  enSlabID :: string
  enBytes :: int
  enTags :: "string list"
  enWrittenAt :: gotime
  enDeleted :: bool

record menv =
  meCrypto :: crypto
  meSealer :: sealer
  meMarshal :: "mentry \<Rightarrow> byte list res"
  meUnmarshal :: "byte list \<Rightarrow> mentry res"
  meRand :: "nat \<Rightarrow> byte list res"

definition maxLineBytes :: nat where "maxLineBytes = 1048576"

definition encodeEntry :: "menv \<Rightarrow> nat \<Rightarrow> mentry \<Rightarrow> string res" where
  "encodeEntry env n e =
    (case meMarshal env e of
       Inl err \<Rightarrow> Inl (wrap_err ''encode manifest entry: '' err)
     | Inr plaintext \<Rightarrow>
        (case Seal (meCrypto env) (meSealer env) (meRand env n) plaintext of
           Inl err \<Rightarrow> Inl (wrap_err ''seal manifest entry: '' err)
         | Inr sealed \<Rightarrow> Inr (b64_encode b64_std True sealed @ [CHR 0x0A])))"

text \<open>\<open>bufio.ScanLines\<close>: what precedes each line feed, and a last line without one.\<close>

fun scan_lines :: "string \<Rightarrow> string \<Rightarrow> string list" where
  "scan_lines cur [] = (if cur = [] then [] else [cur])"
| "scan_lines cur (c # cs) =
     (if c = CHR 0x0A then cur # scan_lines [] cs else scan_lines (cur @ [c]) cs)"

definition drop_cr :: "string \<Rightarrow> string" where
  "drop_cr l = (if l \<noteq> [] \<and> last l = CHR 0x0D then butlast l else l)"

text \<open>One non-empty line to the entry it holds.\<close>

definition decode_line :: "menv \<Rightarrow> string \<Rightarrow> mentry res" where
  "decode_line env text =
    (case b64_decode b64_std True text of
       None \<Rightarrow> fail [] ''line: illegal base64 data''
     | Some sealed \<Rightarrow>
        (case Open (meCrypto env) (meSealer env) sealed of
           Inl err \<Rightarrow> Inl (wrap_err ''line: '' err)
         | Inr plaintext \<Rightarrow>
            (case meUnmarshal env plaintext of
               Inl err \<Rightarrow> Inl (wrap_err ''line: '' err)
             | Inr entry \<Rightarrow> Inr entry)))"

text \<open>The scanner refuses a line that does not fit its buffer.\<close>

fun read_lines :: "menv \<Rightarrow> string list \<Rightarrow> (recid, mentry) view \<Rightarrow> (recid, mentry) view res" where
  "read_lines env [] v = Inr v"
| "read_lines env (l # ls) v =
     (if maxLineBytes \<le> length l then fail [] ''token too long''
      else if drop_cr l = [] then read_lines env ls v
      else rbind (decode_line env (drop_cr l)) (\<lambda>e. read_lines env ls (put_entry enID e v)))"

definition readEntries :: "menv \<Rightarrow> string \<Rightarrow> (recid, mentry) view \<Rightarrow> (recid, mentry) view res" where
  "readEntries env text v = read_lines env (scan_lines [] text) v"

section \<open>The log\<close>

record log =
  lgFile :: string
  lgSnap :: "string option"
  lgLogBytes :: int
  lgSnapshotBytes :: int
  lgWritten :: int
  lgCompactions :: int
  lgRand :: nat

definition Log_Append :: "menv \<Rightarrow> io \<Rightarrow> mentry \<Rightarrow> (log, unit) step" where
  "Log_Append env io e lg =
    (let lg0 = lg\<lparr> lgRand := Suc (lgRand lg) \<rparr> in
     case encodeEntry env (lgRand lg) e of
       Inl err \<Rightarrow> (Inl err, lg0)
     | Inr line \<Rightarrow>
        if ioFails io OpWriteLog then
          (fail [] ''append manifest entry'', lg0\<lparr> lgFile := lgFile lg @ take (ioTorn io) line \<rparr>)
        else if ioFails io OpSyncLog then
          (fail [] ''sync manifest log'', lg0\<lparr> lgFile := lgFile lg @ line \<rparr>)
        else
          (Inr (), lg0\<lparr> lgFile := lgFile lg @ line,
             lgLogBytes := lgLogBytes lg + int (length line),
             lgWritten := lgWritten lg + int (length line) \<rparr>))"

definition Log_Replay :: "menv \<Rightarrow> io \<Rightarrow> log \<Rightarrow> (recid, mentry) view res" where
  "Log_Replay env io lg =
    rbind (case lgSnap lg of
        None \<Rightarrow> Inr (Map.empty, [])
      | Some text \<Rightarrow> if ioFails io OpOpenSnapshot then fail [] ''open manifest snapshot''
          else readEntries env text (Map.empty, []))
      (\<lambda>v. if ioFails io OpSeek then fail [] ''rewind manifest log''
           else rbind (readEntries env (lgFile lg) v) (\<lambda>v'.
             if ioFails io OpSeekEnd then fail [] ''seek to end of manifest log'' else Inr v'))"

definition MinCompactBytes :: int where "MinCompactBytes = 65536"

text \<open>\<open>CompactRatio\<close> is a quarter, and both products are exact in a \<open>float64\<close>.\<close>

definition dueForCompaction :: "log \<Rightarrow> bool" where
  "dueForCompaction lg \<longleftrightarrow>
     \<not> lgLogBytes lg < MinCompactBytes \<and> lgSnapshotBytes lg < 4 * lgLogBytes lg"

fun write_pending :: "menv \<Rightarrow> io \<Rightarrow> nat \<Rightarrow> mentry list \<Rightarrow> nat \<Rightarrow> string \<Rightarrow> string res \<times> nat" where
  "write_pending env io i [] r buf = (Inr buf, r)"
| "write_pending env io i (e # es) r buf =
     (case encodeEntry env r e of
        Inl err \<Rightarrow> (Inl err, Suc r)
      | Inr line \<Rightarrow> if ioFails io (OpWritePending i) then (fail [] ''write manifest snapshot'', Suc r)
          else write_pending env io (Suc i) es (Suc r) (buf @ line))"

definition Log_compact :: "menv \<Rightarrow> io \<Rightarrow> mentry list \<Rightarrow> (log, unit) step" where
  "Log_compact env io es lg =
    (if ioFails io OpOpenPending then (fail [] ''open manifest snapshot'', lg)
     else case write_pending env io 0 es (lgRand lg) [] of
       (Inl err, r) \<Rightarrow> (Inl err, lg\<lparr> lgRand := r \<rparr>)
     | (Inr text, r) \<Rightarrow>
        let lg1 = lg\<lparr> lgRand := r \<rparr> in
        if ioFails io OpSyncPending then (fail [] ''sync manifest snapshot'', lg1)
        else if ioFails io OpClosePending then (fail [] ''close manifest snapshot'', lg1)
        else if ioFails io OpRename then (fail [] ''install manifest snapshot'', lg1)
        else let lg2 = lg1\<lparr> lgSnap := Some text \<rparr> in
        if ioFails io OpTruncate then (fail [] ''empty manifest log'', lg2)
        else let lg3 = lg2\<lparr> lgFile := [] \<rparr> in
        if ioFails io OpSeek then (fail [] ''rewind manifest log'', lg3)
        else if ioFails io OpSyncEmptied then (fail [] ''sync manifest log'', lg3)
        else (Inr (), lg3\<lparr> lgSnapshotBytes := int (length text), lgLogBytes := 0,
                lgWritten := lgWritten lg3 + int (length text),
                lgCompactions := lgCompactions lg3 + 1 \<rparr>))"

section \<open>The catalog\<close>

record manifest =
  mfLog :: log
  mfEntries :: "recid \<rightharpoonup> mentry"
  mfOrder :: "recid list"

definition Load :: "menv \<Rightarrow> io \<Rightarrow> log \<Rightarrow> manifest res" where
  "Load env io lg = rbind (Log_Replay env io lg)
     (\<lambda>(m, ord). Inr \<lparr> mfLog = lg, mfEntries = m, mfOrder = ord \<rparr>)"

definition Manifest_append :: "menv \<Rightarrow> io \<Rightarrow> mentry \<Rightarrow> (manifest, unit) step" where
  "Manifest_append env io e m =
    (case Log_Append env io e (mfLog m) of
       (Inl err, lg) \<Rightarrow> (Inl err, m\<lparr> mfLog := lg \<rparr>)
     | (Inr _, lg) \<Rightarrow> (Inr (), m\<lparr> mfLog := lg,
          mfOrder := (if mfEntries m (enID e) = None then mfOrder m @ [enID e] else mfOrder m),
          mfEntries := (mfEntries m)(enID e \<mapsto> e) \<rparr>))"

definition Manifest_Compact :: "menv \<Rightarrow> io \<Rightarrow> (manifest, unit) step" where
  "Manifest_Compact env io m =
    (case Log_compact env io (map (\<lambda>i. the (mfEntries m i)) (mfOrder m)) (mfLog m) of
       (r, lg) \<Rightarrow> (r, m\<lparr> mfLog := lg \<rparr>))"

definition Manifest_Append :: "menv \<Rightarrow> io \<Rightarrow> mentry \<Rightarrow> (manifest, unit) step" where
  "Manifest_Append env io e m =
    (case Manifest_append env io e m of
       (Inl err, m1) \<Rightarrow> (Inl err, m1)
     | (Inr _, m1) \<Rightarrow>
        if dueForCompaction (mfLog m1) then Manifest_Compact env io m1 else (Inr (), m1))"

definition Manifest_Lookup :: "manifest \<Rightarrow> recid \<Rightarrow> mentry res" where
  "Manifest_Lookup m i = (case mfEntries m i of
     None \<Rightarrow> fail [ErrManifestNotFound] ''no manifest entry''
   | Some e \<Rightarrow> if enDeleted e then fail [ErrManifestNotFound] ''no manifest entry'' else Inr e)"

definition Manifest_Remove :: "menv \<Rightarrow> io \<Rightarrow> gotime \<Rightarrow> recid \<Rightarrow> (manifest, unit) step" where
  "Manifest_Remove env io now i m =
    (case Manifest_Lookup m i of
       Inl err \<Rightarrow> (Inl err, m)
     | Inr e \<Rightarrow> Manifest_Append env io (e\<lparr> enDeleted := True, enWrittenAt := now \<rparr>) m)"

definition Manifest_Entries :: "manifest \<Rightarrow> mentry list" where
  "Manifest_Entries m =
     filter (\<lambda>e. \<not> enDeleted e) (map (\<lambda>i. the (mfEntries m i)) (mfOrder m))"

text \<open>The map is ranged over in no order; only the count of what is kept matters.\<close>

definition Manifest_Len :: "manifest \<Rightarrow> nat" where
  "Manifest_Len m = card {i. \<exists>e. mfEntries m i = Some e \<and> \<not> enDeleted e}"

record mstats =
  msRecords :: int
  msLogBytes :: int
  msSnapshotBytes :: int
  msWritten :: int
  msCompactions :: int

definition Manifest_Stats :: "manifest \<Rightarrow> mstats" where
  "Manifest_Stats m = \<lparr> msRecords = int (Manifest_Len m), msLogBytes = lgLogBytes (mfLog m),
     msSnapshotBytes = lgSnapshotBytes (mfLog m), msWritten = lgWritten (mfLog m),
     msCompactions = lgCompactions (mfLog m) \<rparr>"

section \<open>What a well-formed file reads as\<close>

text \<open>
  What the environment has to promise: the cipher and compressor laws, an entropy source that
  never fails (as \<open>crypto/rand\<close> documents), and, per entry, a JSON form that decodes to it and is
  small enough for a line.
\<close>

definition env_ok :: "menv \<Rightarrow> bool" where
  "env_ok env \<longleftrightarrow> crypto_ok (meCrypto env)
     \<and> (\<forall>n. \<exists>b. meRand env n = Inr b \<and> length b = NonceSize)"

definition storable :: "menv \<Rightarrow> mentry \<Rightarrow> bool" where
  "storable env e \<longleftrightarrow> (\<exists>b. meMarshal env e = Inr b \<and> meUnmarshal env b = Inr e
     \<and> length (cZstdEnc (meCrypto env) b) < 786390)"

definition good_line :: "menv \<Rightarrow> string \<Rightarrow> mentry \<Rightarrow> bool" where
  "good_line env l e \<longleftrightarrow> (\<forall>c \<in> set l. c \<noteq> CHR 0x0A \<and> c \<noteq> CHR 0x0D) \<and> l \<noteq> []
     \<and> length l < maxLineBytes \<and> decode_line env l = Inr e \<and> storable env e"

definition file_text :: "string list \<Rightarrow> string" where
  "file_text ls = concat (map (\<lambda>l. l @ [CHR 0x0A]) ls)"

definition file_good :: "menv \<Rightarrow> string \<Rightarrow> mentry list \<Rightarrow> bool" where
  "file_good env t es \<longleftrightarrow> (\<exists>ls. t = file_text ls \<and> list_all2 (good_line env) ls es)"

definition decode_all :: "menv \<Rightarrow> string \<Rightarrow> mentry list" where
  "decode_all env t = concat (map (\<lambda>l. case decode_line env l of Inl _ \<Rightarrow> [] | Inr e \<Rightarrow> [e])
     (scan_lines [] t))"

lemma encode_good_line:
  assumes "env_ok env" and "storable env e"
  obtains l where "encodeEntry env n e = Inr (l @ [CHR 0x0A])" "good_line env l e"
proof -
  from assms(2) obtain b where b: "meMarshal env e = Inr b" "meUnmarshal env b = Inr e"
    "length (cZstdEnc (meCrypto env) b) < 786390" by (auto simp: storable_def)
  from assms(1) obtain nonce where nonce: "meRand env n = Inr nonce" "length nonce = NonceSize"
    by (auto simp: env_ok_def)
  have c: "crypto_ok (meCrypto env)" using assms(1) by (simp add: env_ok_def)
  obtain sealed where s: "Seal (meCrypto env) (meSealer env) (Inr nonce) b = Inr sealed"
    by (simp add: Seal_def)
  note S = Open_Seal [OF c nonce(2) s]
  define l where "l = b64_encode b64_std True sealed"
  have "encodeEntry env n e = Inr (l @ [CHR 0x0A])"
    by (simp add: encodeEntry_def b(1) nonce(1) s l_def)
  moreover have "good_line env l e"
  proof -
    have "length l < maxLineBytes"
      using b(3) S(2) by (simp add: l_def b64_length_std maxLineBytes_def Overhead_def
          NonceSize_def TagSize_def less_mult_imp_div_less)
    moreover have "l \<noteq> []"
      using S(2) by (auto simp: l_def Overhead_def NonceSize_def)
    moreover have "decode_line env l = Inr e"
      by (simp add: decode_line_def l_def b64_decode_encode S(1) b(2))
    ultimately show ?thesis
      using b64_encode_no_breaks [of b64_std True sealed] assms(2) by (simp add: good_line_def l_def)
  qed
  ultimately show thesis by (rule that)
qed

lemma scan_lines_line:
  "(\<forall>c \<in> set l. c \<noteq> CHR 0x0A) \<Longrightarrow> scan_lines cur (l @ CHR 0x0A # rest) = (cur @ l) # scan_lines [] rest"
  by (induction l arbitrary: cur) auto

lemma scan_lines_file:
  "list_all2 (good_line env) ls es \<Longrightarrow> scan_lines [] (file_text ls @ rest) = ls @ scan_lines [] rest"
proof (induction rule: list_all2_induct)
  case Nil
  then show ?case by (simp add: file_text_def)
next
  case (Cons l ls e es)
  have "scan_lines [] (l @ CHR 0x0A # file_text ls @ rest) = l # scan_lines [] (file_text ls @ rest)"
    using scan_lines_line [of l "[]"] Cons(1) by (simp add: good_line_def)
  with Cons(3) show ?case by (simp add: file_text_def)
qed

lemma good_line_drop_cr: "good_line env l e \<Longrightarrow> drop_cr l = l"
  using last_in_set by (fastforce simp: good_line_def drop_cr_def)

lemma read_lines_good:
  "list_all2 (good_line env) ls es \<Longrightarrow>
   read_lines env (ls @ ls') v = read_lines env ls' (replay enID es v)"
proof (induction arbitrary: v rule: list_all2_induct)
  case Nil
  then show ?case by simp
next
  case (Cons l ls e es)
  have "drop_cr l = l" using Cons(1) by (rule good_line_drop_cr)
  with Cons show ?case by (simp add: good_line_def)
qed

lemma readEntries_good: "file_good env t es \<Longrightarrow> readEntries env t v = Inr (replay enID es v)"
  using scan_lines_file [of env _ es "[]"] read_lines_good [of env _ es "[]"]
  by (cases v) (auto simp: file_good_def readEntries_def)

lemma decode_all_good: "file_good env t es \<Longrightarrow> decode_all env t = es"
proof -
  have "list_all2 (good_line env) ls es \<Longrightarrow>
      concat (map (\<lambda>l. case decode_line env l of Inl _ \<Rightarrow> [] | Inr e \<Rightarrow> [e]) ls) = es" for ls
    by (induction rule: list_all2_induct) (auto simp: good_line_def)
  then show "file_good env t es \<Longrightarrow> decode_all env t = es"
    using scan_lines_file [of env _ es "[]"] by (auto simp: file_good_def decode_all_def)
qed

lemma file_good_Nil [simp]: "file_good env [] []"
  by (auto simp: file_good_def file_text_def intro: exI [of _ "[]"])

lemma file_good_ex [simp]: "Ex (file_good env [])"
  using file_good_Nil by blast

lemma file_good_snoc:
  assumes "file_good env t es" and "good_line env l e"
  shows "file_good env (t @ l @ [CHR 0x0A]) (es @ [e])"
proof -
  from assms(1) obtain ls where "t = file_text ls" "list_all2 (good_line env) ls es"
    by (auto simp: file_good_def)
  then have "t @ l @ [CHR 0x0A] = file_text (ls @ [l])"
    "list_all2 (good_line env) (ls @ [l]) (es @ [e])"
    using assms(2) by (auto simp: file_text_def list_all2_appendI)
  then show ?thesis by (auto simp: file_good_def)
qed

lemma write_pending_good:
  assumes "env_ok env" and "\<forall>e \<in> set es. storable env e" and "file_good env buf es0"
    and "write_pending env io i es r buf = (Inr text, r')"
  shows "file_good env text (es0 @ es)"
  using assms(2-4)
proof (induction es arbitrary: i r buf es0)
  case Nil
  then show ?case by simp
next
  case (Cons e es)
  obtain l where l: "encodeEntry env r e = Inr (l @ [CHR 0x0A])" "good_line env l e"
    using encode_good_line [OF assms(1), of e r] Cons.prems(1) by auto
  have "file_good env text ((es0 @ [e]) @ es)"
  proof (rule Cons.IH)
    show "file_good env (buf @ l @ [CHR 0x0A]) (es0 @ [e])"
      by (rule file_good_snoc [OF Cons.prems(2) l(2)])
    show "write_pending env io (Suc i) es (Suc r) (buf @ l @ [CHR 0x0A]) = (Inr text, r')"
      using Cons.prems(3) l(1) by (auto split: if_splits)
  qed (use Cons.prems in auto)
  then show ?case by simp
qed

section \<open>The catalog as an entry log\<close>

definition snap_text :: "log \<Rightarrow> string" where
  "snap_text lg = (case lgSnap lg of None \<Rightarrow> [] | Some t \<Rightarrow> t)"

definition disk_ok :: "menv \<times> log \<Rightarrow> bool" where
  "disk_ok = (\<lambda>(env, lg). env_ok env
     \<and> (\<exists>ss ls. file_good env (snap_text lg) ss \<and> file_good env (lgFile lg) ls))"

definition disk_held :: "menv \<times> log \<Rightarrow> mentry list" where
  "disk_held = (\<lambda>(env, lg). decode_all env (snap_text lg) @ decode_all env (lgFile lg))"

definition log_appended :: "mentry list \<Rightarrow> menv \<times> log \<Rightarrow> menv \<times> log \<Rightarrow> bool" where
  "log_appended es d d' \<longleftrightarrow> fst d' = fst d \<and> (\<exists>e. es = [e] \<and> storable (fst d) e
     \<and> (\<exists>io r. Log_Append (fst d) io e (snd d) = (r, snd d')
          \<and> (r = Inr () \<or> \<not> ioFails io OpWriteLog)))"

definition log_compacted :: "mentry list \<Rightarrow> menv \<times> log \<Rightarrow> menv \<times> log \<Rightarrow> bool" where
  "log_compacted es d d' \<longleftrightarrow> fst d' = fst d \<and> (\<forall>e \<in> set es. storable (fst d) e)
     \<and> (\<exists>io r. Log_compact (fst d) io es (snd d) = (r, snd d'))"

lemma Log_Append_disk:
  assumes "env_ok env" and "storable env e" and "Log_Append env io e lg = (r, lg')"
    and "\<not> ioFails io OpWriteLog"
  obtains l where "good_line env l e" "lgFile lg' = lgFile lg @ l @ [CHR 0x0A]"
    "lgSnap lg' = lgSnap lg"
proof -
  obtain l where l: "encodeEntry env (lgRand lg) e = Inr (l @ [CHR 0x0A])" "good_line env l e"
    by (rule encode_good_line [OF assms(1,2)])
  have "lgFile lg' = lgFile lg @ l @ [CHR 0x0A]" "lgSnap lg' = lgSnap lg"
    using assms(3,4) l(1) by (auto simp: Log_Append_def Let_def split: if_splits)
  then show thesis by (rule that [OF l(2)])
qed

lemma Log_compact_disk:
  assumes "env_ok env" and "\<forall>e \<in> set es. storable env e" and "Log_compact env io es lg = (r, lg')"
  shows "(lgSnap lg' = lgSnap lg \<and> lgFile lg' = lgFile lg)
     \<or> (\<exists>t. file_good env t es \<and> lgSnap lg' = Some t \<and> (lgFile lg' = lgFile lg \<or> lgFile lg' = []))"
proof (cases "ioFails io OpOpenPending")
  case True
  then show ?thesis using assms(3) by (simp add: Log_compact_def)
next
  case False
  show ?thesis
  proof (cases "write_pending env io 0 es (lgRand lg) []")
    case (Pair w n)
    show ?thesis
    proof (cases w)
      case (Inl err)
      then show ?thesis using assms(3) Pair False by (auto simp: Log_compact_def)
    next
      case (Inr buf)
      have "file_good env buf es"
        using write_pending_good [OF assms(1,2) file_good_Nil] Pair Inr by fastforce
      then show ?thesis
        using assms(3) Pair Inr False by (auto simp: Log_compact_def Let_def split: if_splits)
    qed
  qed
qed

interpretation catalog: entry_log enID "\<lambda>_. True" disk_ok disk_held log_appended log_compacted
proof unfold_locales
  fix d d' es
  assume "disk_ok d" and app: "log_appended es d d'"
  then obtain env lg ss ls where d: "d = (env, lg)" "env_ok env" "file_good env (snap_text lg) ss"
    "file_good env (lgFile lg) ls"
    by (cases d) (auto simp: disk_ok_def)
  from app d obtain io r lg' e where d': "d' = (env, lg')" and e: "es = [e]" and st: "storable env e"
    and A: "Log_Append env io e lg = (r, lg')" "r = Inr () \<or> \<not> ioFails io OpWriteLog"
    by (cases d') (auto simp: log_appended_def)
  have nf: "\<not> ioFails io OpWriteLog"
    using A by (auto simp: Log_Append_def Let_def split: sum.splits if_splits)
  obtain l where l: "good_line env l e" "lgFile lg' = lgFile lg @ l @ [CHR 0x0A]"
    "lgSnap lg' = lgSnap lg"
    by (rule Log_Append_disk [OF d(2) st A(1) nf])
  have f: "file_good env (lgFile lg') (ls @ [e])"
    unfolding l(2) by (rule file_good_snoc [OF d(4) l(1)])
  have s: "file_good env (snap_text lg') ss" using d(3) l(3) by (simp add: snap_text_def)
  show "disk_ok d' \<and> disk_held d' = disk_held d @ es"
    using d f s d' e by (auto simp: disk_ok_def disk_held_def decode_all_good)
next
  fix d d' es
  assume "disk_ok d" and comp: "log_compacted es d d'"
  then obtain env lg ss ls where d: "d = (env, lg)" "env_ok env" "file_good env (snap_text lg) ss"
    "file_good env (lgFile lg) ls"
    by (cases d) (auto simp: disk_ok_def)
  from comp d obtain io r lg' where d': "d' = (env, lg')" and st: "\<forall>e \<in> set es. storable env e"
    and C: "Log_compact env io es lg = (r, lg')"
    by (cases d') (auto simp: log_compacted_def)
  from Log_compact_disk [OF d(2) st C] consider
      "lgSnap lg' = lgSnap lg" "lgFile lg' = lgFile lg"
    | t where "file_good env t es" "lgSnap lg' = Some t" "lgFile lg' = lgFile lg"
    | t where "file_good env t es" "lgSnap lg' = Some t" "lgFile lg' = []"
    by blast
  then show "disk_ok d' \<and> (disk_held d' = disk_held d
      \<or> (\<exists>ls. suffix ls (disk_held d) \<and> disk_held d' = es @ ls))"
  proof cases
    case 1
    then have "snap_text lg' = snap_text lg" by (simp add: snap_text_def)
    with 1 d d' show ?thesis by (auto simp: disk_ok_def disk_held_def)
  next
    case 2
    then have "file_good env (snap_text lg') es" by (simp add: snap_text_def)
    moreover have "suffix ls (disk_held d)"
      using d by (simp add: disk_held_def decode_all_good suffixI)
    ultimately show ?thesis
      using 2 d d' by (auto simp: disk_ok_def disk_held_def decode_all_good)
  next
    case 3
    then have s: "file_good env (snap_text lg') es" by (simp add: snap_text_def)
    have "disk_held d' = es @ []"
      using 3 d' decode_all_good [OF s] decode_all_good [OF file_good_Nil, of env]
      by (simp add: disk_held_def)
    moreover have "suffix [] (disk_held d)" by simp
    moreover have "file_good env (lgFile lg') []" using 3 by simp
    then have "disk_ok d'" using s d d' unfolding disk_ok_def by blast
    ultimately show ?thesis by blast
  qed
qed

lemma Log_Replay_view:
  assumes "disk_ok (env, lg)" and "\<not> ioFails io OpOpenSnapshot" and "\<not> ioFails io OpSeek" and "\<not> ioFails io OpSeekEnd"
  shows "Log_Replay env io lg = Inr (catalog.view (env, lg))"
proof -
  from assms(1) obtain ss ls where g: "file_good env (snap_text lg) ss" "file_good env (lgFile lg) ls"
    by (auto simp: disk_ok_def)
  have "readEntries env (snap_text lg) (Map.empty, []) = Inr (replay enID ss (Map.empty, []))"
    by (rule readEntries_good [OF g(1)])
  moreover have "readEntries env (lgFile lg) v = Inr (replay enID ls v)" for v
    by (rule readEntries_good [OF g(2)])
  moreover have "disk_held (env, lg) = ss @ ls"
    using g by (simp add: disk_held_def decode_all_good)
  then have "catalog.view (env, lg) = replay enID ls (replay enID ss (Map.empty, []))"
    by (simp add: catalog.view_def)
  moreover have "(case lgSnap lg of None \<Rightarrow> Inr (Map.empty, [])
        | Some text \<Rightarrow> if ioFails io OpOpenSnapshot then fail [] ''open manifest snapshot''
          else readEntries env text (Map.empty, [])) = readEntries env (snap_text lg) (Map.empty, [])"
    using assms(2) readEntries_good [OF file_good_Nil, of env "(Map.empty, [])"]
    by (simp add: snap_text_def split: option.split)
  ultimately show ?thesis using assms(3,4) by (simp add: Log_Replay_def)
qed

section \<open>The catalog and its files agree\<close>

text \<open>In memory and on disk the catalog is the same map in the same order, all of it storable.\<close>

definition in_step :: "menv \<Rightarrow> manifest \<Rightarrow> bool" where
  "in_step env m \<longleftrightarrow> disk_ok (env, mfLog m)
     \<and> catalog.view (env, mfLog m) = (mfEntries m, mfOrder m)"

definition same_catalog :: "manifest \<Rightarrow> manifest \<Rightarrow> bool" where
  "same_catalog m m' \<longleftrightarrow> mfEntries m = mfEntries m' \<and> mfOrder m = mfOrder m'"

lemma in_step_Load:
  "in_step env m \<Longrightarrow> Load env io_ok (mfLog m) = Inr m"
  by (simp add: in_step_def Load_def Log_Replay_view io_ok_def)

lemma storable_held:
  assumes "disk_ok (env, lg)"
  shows "\<forall>e \<in> set (disk_held (env, lg)). storable env e"
proof -
  have "file_good env t es \<Longrightarrow> \<forall>e \<in> set es. storable env e" for t es
    by (auto simp: file_good_def list_all2_conv_all_nth good_line_def set_conv_nth)
  then show ?thesis
    using assms by (auto simp: disk_ok_def disk_held_def decode_all_good)
qed

lemma in_step_facts:
  assumes "in_step env m"
  shows "view_wf enID (mfEntries m, mfOrder m)"
    "map (\<lambda>i. the (mfEntries m i)) (mfOrder m) = catalog.records (env, mfLog m)"
    "\<forall>e \<in> set (catalog.records (env, mfLog m)). storable env e"
proof -
  show wf: "view_wf enID (mfEntries m, mfOrder m)"
    using catalog.view_wf [of "(env, mfLog m)"] assms by (simp add: in_step_def)
  show eq: "map (\<lambda>i. the (mfEntries m i)) (mfOrder m) = catalog.records (env, mfLog m)"
    using assms by (simp add: in_step_def catalog.records_def listing_def)
  show "\<forall>e \<in> set (catalog.records (env, mfLog m)). storable env e"
  proof
    fix e assume "e \<in> set (catalog.records (env, mfLog m))"
    then have "e \<in> set (listing (mfEntries m, mfOrder m))" using eq by (simp add: listing_def)
    then have "mfEntries m (enID e) = Some e" using in_listing [OF wf] by simp
    moreover have "mfEntries m = map_of (rev (map (\<lambda>e. (enID e, e)) (disk_held (env, mfLog m))))"
      using fst_replay [of enID "disk_held (env, mfLog m)" "(Map.empty, [])"] assms
      by (simp add: in_step_def catalog.view_def)
    ultimately have "e \<in> set (disk_held (env, mfLog m))"
      using map_of_last [of enID "disk_held (env, mfLog m)" "enID e" e] by simp
    then show "storable env e" using storable_held [of env "mfLog m"] assms by (simp add: in_step_def)
  qed
qed

lemma Manifest_Compact_in_step:
  assumes "in_step env m" and "Manifest_Compact env io m = (r, m')"
  shows "in_step env m' \<and> same_catalog m m'"
proof -
  note F = in_step_facts [OF assms(1)]
  obtain lg' where lg': "Log_compact env io (catalog.records (env, mfLog m)) (mfLog m) = (r, lg')"
    "m' = m\<lparr> mfLog := lg' \<rparr>"
    using assms(2) F(2) by (auto simp: Manifest_Compact_def split: prod.splits)
  have d: "disk_ok (env, mfLog m)" using assms(1) by (simp add: in_step_def)
  have c: "log_compacted (catalog.records (env, mfLog m)) (env, mfLog m) (env, lg')"
    using lg'(1) F(3) by (auto simp: log_compacted_def)
  have "disk_ok (env, lg')" using catalog.compacted_held [OF d c] by blast
  moreover have "catalog.view (env, lg') = catalog.view (env, mfLog m)"
    by (rule catalog.view_compacted [OF d c]) simp
  ultimately show ?thesis
    using assms(1) lg'(2) by (simp add: in_step_def same_catalog_def)
qed

lemma Manifest_append_in_step:
  assumes "in_step env m" and "storable env e" and "Manifest_append env io e m = (Inr u, m')"
  shows "in_step env m' \<and> (mfEntries m', mfOrder m') = put_entry enID e (mfEntries m, mfOrder m)"
proof -
  obtain lg' where lg': "Log_Append env io e (mfLog m) = (Inr (), lg')"
    "mfLog m' = lg'" "mfEntries m' = (mfEntries m)(enID e \<mapsto> e)"
    "mfOrder m' = (if mfEntries m (enID e) = None then mfOrder m @ [enID e] else mfOrder m)"
    using assms(3) by (auto simp: Manifest_append_def split: prod.splits sum.splits)
  have d: "disk_ok (env, mfLog m)" using assms(1) by (simp add: in_step_def)
  have a: "log_appended [e] (env, mfLog m) (env, lg')"
    using assms(2) lg'(1) by (auto simp: log_appended_def)
  have "disk_ok (env, lg')" using catalog.appended_held [OF d a] by blast
  moreover have "catalog.view (env, lg') = put_entry enID e (catalog.view (env, mfLog m))"
    using catalog.view_appended [OF d a] by simp
  ultimately show ?thesis using assms(1) lg'(2-) by (auto simp: in_step_def put_entry_def)
qed

lemma Manifest_append_failed:
  assumes "in_step env m" and "storable env e" and "Manifest_append env io e m = (Inl err, m')"
    and "ioFails io OpWriteLog" and "ioTorn io = 0"
  shows "in_step env m' \<and> same_catalog m m'"
proof -
  have d: "disk_ok (env, mfLog m)" using assms(1) by (simp add: in_step_def)
  have m': "m' = m\<lparr> mfLog := mfLog m' \<rparr>" "lgFile (mfLog m') = lgFile (mfLog m)"
    "lgSnap (mfLog m') = lgSnap (mfLog m)"
    using assms(3-5) by (auto simp: Manifest_append_def Log_Append_def Let_def split: sum.splits prod.splits)
  then have "disk_ok (env, mfLog m')" "disk_held (env, mfLog m') = disk_held (env, mfLog m)"
    using d by (auto simp: disk_ok_def disk_held_def snap_text_def)
  moreover have "mfEntries m' = mfEntries m" "mfOrder m' = mfOrder m"
    by (subst m'(1), simp)+
  ultimately show ?thesis using assms(1)
    by (simp add: in_step_def same_catalog_def catalog.view_def)
qed

lemma Manifest_Append_in_step:
  assumes "in_step env m" and "storable env e" and "Manifest_Append env io e m = (r, m')"
    and "\<not> ioFails io OpWriteLog" "\<not> ioFails io OpSyncLog"
  shows "in_step env m' \<and> (mfEntries m', mfOrder m') = put_entry enID e (mfEntries m, mfOrder m)"
proof -
  have "env_ok env" using assms(1) by (auto simp: in_step_def disk_ok_def)
  then obtain l where "encodeEntry env (lgRand (mfLog m)) e = Inr (l @ [CHR 0x0A])"
    using encode_good_line assms(2) by metis
  then obtain m1 where m1: "Manifest_append env io e m = (Inr (), m1)"
    using assms(4,5) by (auto simp: Manifest_append_def Log_Append_def Let_def)
  note A = Manifest_append_in_step [OF assms(1,2) m1]
  show ?thesis
  proof (cases "dueForCompaction (mfLog m1)")
    case True
    then have "Manifest_Compact env io m1 = (r, m')" using assms(3) m1 by (simp add: Manifest_Append_def)
    from Manifest_Compact_in_step [OF _ this] A show ?thesis by (simp add: same_catalog_def)
  next
    case False
    then have "m' = m1" using assms(3) m1 by (simp add: Manifest_Append_def)
    then show ?thesis using A by simp
  qed
qed

section \<open>Properties\<close>

text \<open>An environment that seals nothing away: the JSON of an entry is its id, all else default.\<close>

definition demo_entry :: "recid \<Rightarrow> mentry" where
  "demo_entry i = \<lparr> enID = i, enKind = KindMemory, enType = ''fact'', enVersion = 1, enCID = 0,
     enObjectRef = [], enSlabID = [], enBytes = 0, enTags = [], enWrittenAt = 0, enDeleted = False \<rparr>"

definition demo_env :: menv where
  "demo_env = \<lparr> meCrypto = plain_crypto, meSealer = \<lparr> slRecord = [], slContent = [] \<rparr>,
     meMarshal = (\<lambda>e. Inr ((if enDeleted e then 1 else 0) # ID_bytes (enID e))),
     meUnmarshal = (\<lambda>b. Inr ((demo_entry (ID_of_bytes (tl b)))\<lparr> enDeleted := (hd b = 1) \<rparr>)),
     meRand = (\<lambda>_. Inr (replicate 24 0)) \<rparr>"

definition empty_log :: log where
  "empty_log = \<lparr> lgFile = [], lgSnap = None, lgLogBytes = 0, lgSnapshotBytes = 0, lgWritten = 0,
     lgCompactions = 0, lgRand = 0 \<rparr>"

definition empty_manifest :: manifest where
  "empty_manifest = \<lparr> mfLog = empty_log, mfEntries = Map.empty, mfOrder = [] \<rparr>"

lemma demo_env_ok: "env_ok demo_env"
  by (simp add: env_ok_def demo_env_def plain_crypto_ok NonceSize_def)

lemma demo_storable: "storable demo_env (demo_entry i)" "storable demo_env ((demo_entry i)\<lparr> enDeleted := True \<rparr>)"
  by (simp_all add: storable_def demo_env_def plain_crypto_def) (simp_all add: demo_entry_def)

lemma empty_in_step: "env_ok env \<Longrightarrow> in_step env empty_manifest"
proof -
  assume e: "env_ok env"
  have s: "snap_text empty_log = []" "lgFile empty_log = []"
    by (simp_all add: snap_text_def empty_log_def)
  then have "disk_held (env, empty_log) = []"
    using decode_all_good [OF file_good_Nil, of env] by (simp add: disk_held_def)
  moreover have "disk_ok (env, empty_log)"
    using e s file_good_Nil [of env] by (auto simp: disk_ok_def)
  ultimately show "in_step env empty_manifest"
    by (simp add: in_step_def empty_manifest_def catalog.view_def)
qed

text \<open>C1. The catalog on disk is the catalog in memory.  From agreement, appending an entry whose line was written and synced leaves
  memory and disk agreeing on the same map and the same order with the entry in place, whether or not the append also compacted and
  whatever operation of that compaction failed; an append whose write failed before any byte of the line is reported and leaves both
  as they were.  Either way reopening the files reads exactly what memory held.  A write that failed in the middle of the line is not
  covered: it leaves a catalog that does not reopen.\<close>

theorem Manifest_Append_durable:
  assumes "in_step env m" and "storable env e" and "Manifest_Append env io e m = (r, m')"
  shows "(\<not> ioFails io OpWriteLog \<and> \<not> ioFails io OpSyncLog \<longrightarrow>
      in_step env m' \<and> mfEntries m' = (mfEntries m)(enID e \<mapsto> e)
      \<and> mfOrder m' = (if enID e \<in> set (mfOrder m) then mfOrder m else mfOrder m @ [enID e])
      \<and> Load env io_ok (mfLog m') = Inr m')
    \<and> (ioFails io OpWriteLog \<and> ioTorn io = 0 \<longrightarrow>
      (\<exists>err. r = Inl err) \<and> in_step env m' \<and> mfEntries m' = mfEntries m \<and> mfOrder m' = mfOrder m
      \<and> Load env io_ok (mfLog m') = Inr m')"
proof -
  let ?w = "ioFails io OpWriteLog" and ?s = "ioFails io OpSyncLog"
  have "in_step env m' \<and> mfEntries m' = (mfEntries m)(enID e \<mapsto> e)
      \<and> mfOrder m' = (if enID e \<in> set (mfOrder m) then mfOrder m else mfOrder m @ [enID e])
      \<and> Load env io_ok (mfLog m') = Inr m'" if "\<not> ?w" "\<not> ?s"
  proof -
    have "enID e \<in> set (mfOrder m) \<longleftrightarrow> mfEntries m (enID e) \<noteq> None"
      using in_step_facts(1) [OF assms(1)] by (auto simp: view_wf_def)
    then show ?thesis
      using that Manifest_Append_in_step [OF assms] in_step_Load [of env m'] by (auto simp: put_entry_def)
  qed
  moreover have "(\<exists>err. r = Inl err) \<and> in_step env m' \<and> mfEntries m' = mfEntries m
      \<and> mfOrder m' = mfOrder m \<and> Load env io_ok (mfLog m') = Inr m'" if w: "?w" "ioTorn io = 0"
  proof -
    have "\<exists>err n. Manifest_append env io e m = (Inl err, n)"
      by (cases "encodeEntry env (lgRand (mfLog m)) e")
        (simp_all add: w(1) Manifest_append_def Log_Append_def Let_def fail_def)
    then obtain err n where a: "Manifest_append env io e m = (Inl err, n)" by blast
    then have r: "n = m'" "\<exists>err. r = Inl err" using assms(3) by (auto simp: Manifest_Append_def)
    show ?thesis
      using Manifest_append_failed [OF assms(1,2) a w] in_step_Load [of env m'] r
      by (auto simp: same_catalog_def)
  qed
  ultimately show ?thesis by blast
qed

theorem Manifest_Append_durable_witness:
  "mfOrder (snd (Manifest_Append demo_env io_ok (demo_entry 4) empty_manifest)) = [4]"
proof -
  obtain r m' where m': "Manifest_Append demo_env io_ok (demo_entry 4) empty_manifest = (r, m')"
    by fastforce
  from Manifest_Append_durable [OF empty_in_step [OF demo_env_ok] demo_storable(1) m'] m'
  show ?thesis by (simp add: io_ok_def empty_manifest_def demo_entry_def)
qed

text \<open>C2. Compaction cannot lose or reorder anything: stopped by the failure of any of its file
  operations, before or after the snapshot is renamed into place, it leaves files that reopen
  to the very catalog it started from.\<close>

theorem Manifest_Compact_crash_safe:
  assumes "in_step env m" and "Manifest_Compact env io m = (r, m')"
  shows "Load env io_ok (mfLog m') = Inr m' \<and> mfEntries m' = mfEntries m \<and> mfOrder m' = mfOrder m"
  using Manifest_Compact_in_step [OF assms] in_step_Load by (auto simp: same_catalog_def)

theorem Manifest_Compact_crash_safe_witness:
  "mfEntries (snd (Manifest_Compact demo_env (io_ok\<lparr> ioFails := (\<lambda>p. p = OpTruncate) \<rparr>) empty_manifest))
     = Map.empty"
proof -
  obtain r m' where m': "Manifest_Compact demo_env (io_ok\<lparr> ioFails := (\<lambda>p. p = OpTruncate) \<rparr>)
      empty_manifest = (r, m')" by fastforce
  from Manifest_Compact_crash_safe [OF empty_in_step [OF demo_env_ok] m'] m'
  show ?thesis by (simp add: empty_manifest_def)
qed

text \<open>A removed record stays removed: after \<open>Remove\<close> a lookup of the id fails as not found, in
  memory, after any later compaction, finished or interrupted, and after reopening the files;
  and no other record is affected.\<close>

lemma Manifest_Remove_stays:
  assumes "in_step env m" and "Manifest_Lookup m i = Inr e"
    and "storable env (e\<lparr> enDeleted := True, enWrittenAt := now \<rparr>)"
    and "Manifest_Remove env io_ok now i m = (r, m1)" and "Manifest_Compact env io m1 = (r', m2)"
    and "Load env io_ok (mfLog m2) = Inr m3"
  shows "(\<forall>n \<in> {m1, m2, m3}. \<exists>err. Manifest_Lookup n i = Inl err \<and> errors_Is err ErrManifestNotFound)
    \<and> (\<forall>n \<in> {m1, m2, m3}. \<forall>j. j \<noteq> i \<longrightarrow> Manifest_Lookup n j = Manifest_Lookup m j)"
proof -
  let ?e = "e\<lparr> enDeleted := True, enWrittenAt := now \<rparr>"
  have ei: "enID e = i"
    using assms(2) in_step_facts(1) [OF assms(1)]
    by (auto simp: Manifest_Lookup_def view_wf_def split: option.splits if_splits)
  have "Manifest_Append env io_ok ?e m = (r, m1)"
    using assms(2,4) by (simp add: Manifest_Remove_def)
  from Manifest_Append_in_step [OF assms(1,3) this]
  have m1: "in_step env m1" "mfEntries m1 = (mfEntries m)(i \<mapsto> ?e)"
    using ei by (simp_all add: io_ok_def put_entry_def)
  from Manifest_Compact_in_step [OF m1(1) assms(5)]
  have m2: "in_step env m2" "mfEntries m2 = mfEntries m1" by (auto simp: same_catalog_def)
  have m3: "m3 = m2" using in_step_Load [OF m2(1)] assms(6) by simp
  have "\<forall>n \<in> {m1, m2, m3}. mfEntries n = (mfEntries m)(i \<mapsto> ?e)" using m1 m2 m3 by simp
  then show ?thesis by (auto simp: Manifest_Lookup_def)
qed

lemma readEntries_torn:
  assumes "file_good env t es" and "\<forall>c \<in> set l. c \<noteq> CHR 0x0A \<and> c \<noteq> CHR 0x0D"
    and "length l mod 4 \<noteq> 0"
  shows "\<exists>err. readEntries env (t @ l) v = Inl err"
proof -
  from assms(1) obtain ls where ls: "t = file_text ls" "list_all2 (good_line env) ls es"
    by (auto simp: file_good_def)
  have ne: "l \<noteq> []" using assms(3) by auto
  have "scan_lines cur l = [cur @ l]" if "cur @ l \<noteq> []" for cur
    using assms(2) that by (induction l arbitrary: cur) auto
  then have sl: "scan_lines [] l = [l]" using ne by simp
  have "drop_cr l = l" using assms(2) ne last_in_set by (fastforce simp: drop_cr_def)
  moreover have "b64_decode b64_std True l = None"
  proof -
    have "filter (\<lambda>c. c \<noteq> CHR 0x0A \<and> c \<noteq> CHR 0x0D) l = l"
      using assms(2) by (simp add: filter_id_conv)
    then show ?thesis using b64_quads_length [of b64_std l] assms(3)
      by (cases "b64_quads b64_std True l") (auto simp: b64_decode_def)
  qed
  ultimately have "\<exists>err. read_lines env [l] w = Inl err" for w
    using ne by (simp add: decode_line_def)
  then show ?thesis
    using read_lines_good [OF ls(2), of "[l]"] scan_lines_file [OF ls(2), of l] sl
    by (cases v) (simp add: readEntries_def ls(1))
qed

text \<open>An append interrupted in the middle of its line is not survivable: the torn line fails to
  decode as base64, so reopening the catalog fails, where the reader's own comment says that a
  truncated final line is tolerated.  The failing write is reported to its caller.\<close>

lemma Load_refuses_torn_line:
  assumes "in_step env m" and "storable env e" and "Manifest_Append env io e m = (r, m')"
    and "ioFails io OpWriteLog" and "ioTorn io mod 4 \<noteq> 0"
    and "encodeEntry env (lgRand (mfLog m)) e = Inr line" and "ioTorn io < length line"
  shows "(\<exists>err. r = Inl err) \<and> (\<exists>err. Load env io_ok (mfLog m') = Inl err)"
proof -
  from assms(1) obtain ss ls where d: "env_ok env" "file_good env (snap_text (mfLog m)) ss"
    "file_good env (lgFile (mfLog m)) ls" by (auto simp: in_step_def disk_ok_def)
  obtain l where l: "line = l @ [CHR 0x0A]" "good_line env l e"
    using encode_good_line [OF d(1) assms(2), of "lgRand (mfLog m)"] assms(6) by auto
  have tk: "take (ioTorn io) line = take (ioTorn io) l" using l(1) assms(7) by simp
  have m': "lgFile (mfLog m') = lgFile (mfLog m) @ take (ioTorn io) l"
    "lgSnap (mfLog m') = lgSnap (mfLog m)" "\<exists>err. r = Inl err"
    using assms(3,4,6) tk
    by (auto simp: Manifest_Append_def Manifest_append_def Log_Append_def Let_def)
  have "length (take (ioTorn io) l) = ioTorn io" using l(1) assms(7) by simp
  moreover have "\<forall>c \<in> set (take (ioTorn io) l). c \<noteq> CHR 0x0A \<and> c \<noteq> CHR 0x0D"
    using l(2) by (auto simp: good_line_def dest: in_set_takeD)
  ultimately have torn: "\<exists>err. readEntries env (lgFile (mfLog m')) v = Inl err" for v
    unfolding m'(1) using assms(5) by (intro readEntries_torn [OF d(3)]) simp_all
  have "\<exists>err. Log_Replay env io_ok (mfLog m') = Inl err"
  proof (cases "lgSnap (mfLog m)")
    case None
    obtain err where "readEntries env (lgFile (mfLog m')) (Map.empty, []) = Inl err"
      using torn by blast
    then show ?thesis using None m'(2) by (simp add: Log_Replay_def io_ok_def)
  next
    case (Some t)
    then have "file_good env t ss" using d(2) by (simp add: snap_text_def)
    from readEntries_good [OF this] obtain v where v: "readEntries env t (Map.empty, []) = Inr v"
      by blast
    obtain err where "readEntries env (lgFile (mfLog m')) v = Inl err" using torn by blast
    then show ?thesis using v m'(2) Some by (simp add: Log_Replay_def io_ok_def)
  qed
  then show ?thesis using m'(3) by (auto simp: Load_def)
qed

section \<open>Two processes on one catalog\<close>

lemma write_pending_succeeds:
  assumes "env_ok env" and "\<forall>e \<in> set es. storable env e"
  shows "\<exists>text r'. write_pending env io_ok i es r buf = (Inr text, r')"
  using assms(2)
proof (induction es arbitrary: i r buf)
  case Nil
  then show ?case by simp
next
  case (Cons e es)
  then have "storable env e" by simp
  then obtain l where "encodeEntry env r e = Inr (l @ [CHR 0x0A])"
    using encode_good_line [OF assms(1)] by metis
  with Cons show ?case by (simp add: io_ok_def)
qed

lemma view_of_snapshot:
  assumes "in_step env m" and "file_good env t (catalog.records (env, mfLog m))"
    and "lgSnap lg = Some t" and "lgFile lg = []"
  shows "disk_ok (env, lg) \<and> catalog.view (env, lg) = (mfEntries m, mfOrder m)"
proof -
  let ?es = "catalog.records (env, mfLog m)"
  let ?v = "catalog.view (env, mfLog m)"
  have s: "snap_text lg = t" using assms(3) by (simp add: snap_text_def)
  have "env_ok env" using assms(1) by (auto simp: in_step_def disk_ok_def)
  then have ok: "disk_ok (env, lg)" using assms(2,4) s by (auto simp: disk_ok_def)
  have held: "disk_held (env, lg) = ?es"
    using decode_all_good [OF assms(2)] decode_all_good [OF file_good_Nil, of env] s assms(4)
    by (simp add: disk_held_def)
  have l: "?es = listing ?v" by (simp add: catalog.records_def)
  have "filter (\<lambda>_. True) (listing (replay enID (?es @ []) (Map.empty, []))) = ?es"
    by (rule replay_compacted [where live = "\<lambda>_. True", OF _ catalog.view_def [of "(env, mfLog m)"]])
       (simp_all add: l)
  then have "listing (catalog.view (env, lg)) = listing ?v"
    by (simp add: catalog.view_def [of "(env, lg)"] held flip: l)
  then have "catalog.view (env, lg) = ?v" by (rule listing_inject [OF catalog.view_wf catalog.view_wf])
  then show ?thesis using ok assms(1) by (simp add: in_step_def)
qed

text \<open>The catalog's files are not safe between two processes that hold them open.  A process
  compacts from its own memory and empties the log whatever others appended to it: when one
  process catalogued a record since another loaded the catalog, a compaction by the other
  succeeds and the record is gone from the files for good.\<close>

lemma Compact_erases_other_writer:
  assumes "in_step env a" and "in_step env b"
    and "mfEntries b i = Some e" and "mfEntries a i = None"
    and "Manifest_Compact env io_ok
      (a\<lparr> mfLog := (mfLog a)\<lparr> lgFile := lgFile (mfLog b), lgSnap := lgSnap (mfLog b) \<rparr> \<rparr>) = (r, a')"
  shows "r = Inr () \<and> Load env io_ok (mfLog a') = Inr a'
    \<and> Manifest_Lookup a' i = fail [ErrManifestNotFound] ''no manifest entry''
    \<and> Load env io_ok (mfLog b) = Inr b"
proof -
  let ?es = "catalog.records (env, mfLog a)"
  let ?lg = "(mfLog a)\<lparr> lgFile := lgFile (mfLog b), lgSnap := lgSnap (mfLog b) \<rparr>"
  note F = in_step_facts [OF assms(1)]
  have e: "env_ok env" using assms(1) by (auto simp: in_step_def disk_ok_def)
  obtain t n where w: "write_pending env io_ok 0 ?es (lgRand (mfLog a)) [] = (Inr t, n)"
    using write_pending_succeeds [OF e F(3)] by blast
  have t: "file_good env t ?es" using write_pending_good [OF e F(3) file_good_Nil w] by simp
  have r: "r = Inr ()" and a': "a' = a\<lparr> mfLog := mfLog a' \<rparr>" "lgSnap (mfLog a') = Some t"
    "lgFile (mfLog a') = []"
    using assms(5) w F(2)
    by (auto simp: Manifest_Compact_def Log_compact_def Let_def io_ok_def)
  have eq: "mfEntries a' = mfEntries a" "mfOrder a' = mfOrder a" by (subst a'(1), simp)+
  have "in_step env a'"
    using view_of_snapshot [OF assms(1) t a'(2,3)] by (simp add: in_step_def eq)
  then show ?thesis
    using in_step_Load [of env a'] in_step_Load [OF assms(2)] r assms(4)
    by (simp add: Manifest_Lookup_def eq)
qed

end
