(* ===== verification/Floats.thy ===== *)
theory Floats
  imports Records "HOL-Library.Log_Nat" "HOL-Library.Product_Lexorder"
begin

text \<open>
  IEEE single precision as the vector index uses it: 32 bit patterns, the value each stands
  for, and addition and multiplication rounded to nearest, ties to even.  The sign of a zero
  is not kept in a value, which no comparison or persisted bit depends on.  A Go compiler may
  fuse a product and a sum on some targets; the two roundings written here are the ones of
  the targets that do not.
\<close>

section \<open>Values of bit patterns\<close>

type_synonym f32 = "32 word"

definition pow2 :: "int \<Rightarrow> rat" where
  "pow2 k = (if 0 \<le> k then 2 ^ nat k else 1 / 2 ^ nat (- k))"

definition f32_val :: "f32 \<Rightarrow> gofloat" where
  "f32_val w =
    (let n = uint w; neg = n div 2 ^ 31 = 1; e = n div 2 ^ 23 mod 256; m = n mod 2 ^ 23 in
     if e = 255 then (if m \<noteq> 0 then NaN else if neg then NInf else PInf)
     else let v = (if e = 0 then of_int m * pow2 (- 149) else of_int (2 ^ 23 + m) * pow2 (e - 150))
       in Fin (if neg then - v else v))"

section \<open>Rounded arithmetic\<close>

definition round_even :: "rat \<Rightarrow> int" where
  "round_even r = (let f = \<lfloor>r\<rfloor>; d = r - of_int f in
     if d < 1 / 2 then f else if 1 / 2 < d then f + 1 else if even f then f else f + 1)"

definition ilog2 :: "rat \<Rightarrow> int" where
  "ilog2 x = (case quotient_of x of (p, q) \<Rightarrow>
     let e = bitlen p - bitlen q in if pow2 e \<le> x then e else e - 1)"

definition round_f32 :: "rat \<Rightarrow> gofloat" where
  "round_f32 x = (if x = 0 then Fin 0 else
     let e = max (ilog2 (abs x)) (- 126); q = pow2 (e - 23); y = of_int (round_even (x / q)) * q in
     if pow2 128 \<le> abs y then (if 0 < x then PInf else NInf) else Fin y)"

fun f32_add :: "gofloat \<Rightarrow> gofloat \<Rightarrow> gofloat" where
  "f32_add (Fin a) (Fin b) = round_f32 (a + b)"
| "f32_add NaN _ = NaN"
| "f32_add _ NaN = NaN"
| "f32_add PInf NInf = NaN"
| "f32_add NInf PInf = NaN"
| "f32_add PInf _ = PInf"
| "f32_add NInf _ = NInf"
| "f32_add _ x = x"

definition f32_sign :: "gofloat \<Rightarrow> int" where
  "f32_sign x = (case x of Fin a \<Rightarrow> (if a < 0 then -1 else if a = 0 then 0 else 1)
     | PInf \<Rightarrow> 1 | NInf \<Rightarrow> -1 | NaN \<Rightarrow> 0)"

definition f32_mul :: "gofloat \<Rightarrow> gofloat \<Rightarrow> gofloat" where
  "f32_mul x y = (case (x, y) of
       (Fin a, Fin b) \<Rightarrow> round_f32 (a * b)
     | _ \<Rightarrow> if x = NaN \<or> y = NaN then NaN
            else (let s = f32_sign x * f32_sign y in
                  if s = 0 then NaN else if 0 < s then PInf else NInf))"

section \<open>The order of comparable values\<close>

definition float_key :: "gofloat \<Rightarrow> int \<times> rat" where
  "float_key x = (case x of NInf \<Rightarrow> (-1, 0) | Fin a \<Rightarrow> (0, a) | PInf \<Rightarrow> (1, 0) | NaN \<Rightarrow> (2, 0))"

lemma float_lt_key: "a \<noteq> NaN \<Longrightarrow> b \<noteq> NaN \<Longrightarrow> float_lt a b \<longleftrightarrow> float_key a < float_key b"
  by (cases a; cases b) (simp_all add: float_key_def)

lemma float_key_inject [simp]: "float_key a = float_key b \<longleftrightarrow> a = b"
  by (cases a; cases b) (simp_all add: float_key_def)

lemma float_lt_irrefl [simp]: "\<not> float_lt a a"
  by (cases a) simp_all

lemma round_f32_not_NaN [simp]: "round_f32 x \<noteq> NaN"
  by (simp add: round_f32_def Let_def)

text \<open>Known values: one, minus two, infinity, NaN, and a sum that rounds to even.\<close>

lemma f32_examples:
  "f32_val 0x3F800000 = Fin 1" "f32_val 0xC0000000 = Fin (- 2)"
  "f32_val 0x7F800000 = PInf" "f32_val 0x7FC00000 = NaN"
  "f32_add (Fin 1) (Fin (pow2 (- 24))) = Fin 1"
  by code_simp+

end
