(* ===== verification/Heap.thy ===== *)
theory Heap
  imports Prelude
begin

text \<open>
  The binary heap of Go's \<open>container/heap\<close> on a slice, which the vector index keeps its best
  matches in, and the contract of a bounded best-of selection over any min-heap.  The slice is
  a list updated by index; \<open>lt\<close> is the \<open>Less\<close> of the element type.
\<close>

section \<open>The operations of container/heap\<close>

definition swap_at :: "'a list \<Rightarrow> nat \<Rightarrow> nat \<Rightarrow> 'a list" where
  "swap_at h i j = h[i := h ! j, j := h ! i]"

lemma length_swap_at [simp]: "length (swap_at h i j) = length h"
  by (simp add: swap_at_def)

lemma mset_swap_at [simp]: "i < length h \<Longrightarrow> j < length h \<Longrightarrow> mset (swap_at h i j) = mset h"
  by (simp add: swap_at_def mset_swap)

lemma nth_swap_at:
  "i < length h \<Longrightarrow> j < length h \<Longrightarrow> m < length h \<Longrightarrow>
   swap_at h i j ! m = (if m = j then h ! i else if m = i then h ! j else h ! m)"
  by (auto simp: swap_at_def nth_list_update)

fun heap_up :: "('a \<Rightarrow> 'a \<Rightarrow> bool) \<Rightarrow> 'a list \<Rightarrow> nat \<Rightarrow> 'a list" where
  "heap_up lt h j =
    (let i = (j - 1) div 2 in
     if i = j \<or> \<not> lt (h ! j) (h ! i) then h else heap_up lt (swap_at h i j) i)"

declare heap_up.simps [simp del]

text \<open>\<open>down\<close> on the first \<open>n\<close> elements, with the child it compares with chosen first.\<close>

definition small_child :: "('a \<Rightarrow> 'a \<Rightarrow> bool) \<Rightarrow> 'a list \<Rightarrow> nat \<Rightarrow> nat \<Rightarrow> nat" where
  "small_child lt h i n = (if 2 * i + 2 < n \<and> lt (h ! (2 * i + 2)) (h ! (2 * i + 1))
     then 2 * i + 2 else 2 * i + 1)"

function heap_down :: "('a \<Rightarrow> 'a \<Rightarrow> bool) \<Rightarrow> 'a list \<Rightarrow> nat \<Rightarrow> nat \<Rightarrow> 'a list \<times> nat" where
  "heap_down lt h i n =
    (if n \<le> 2 * i + 1 then (h, i)
     else let j = small_child lt h i n in
       if \<not> lt (h ! j) (h ! i) then (h, i) else heap_down lt (swap_at h i j) j n)"
  by pat_completeness auto
termination
  by (relation "measure (\<lambda>(lt, h, i, n). n - i)") (auto simp: small_child_def)

declare heap_down.simps [simp del]

definition heap_Push :: "('a \<Rightarrow> 'a \<Rightarrow> bool) \<Rightarrow> 'a \<Rightarrow> 'a list \<Rightarrow> 'a list" where
  "heap_Push lt x h = heap_up lt (h @ [x]) (length h)"

definition heap_Pop :: "('a \<Rightarrow> 'a \<Rightarrow> bool) \<Rightarrow> 'a list \<Rightarrow> 'a \<times> 'a list" where
  "heap_Pop lt h =
    (let n = length h - 1; h1 = fst (heap_down lt (swap_at h 0 n) 0 n)
     in (last h1, butlast h1))"

definition heap_Fix :: "('a \<Rightarrow> 'a \<Rightarrow> bool) \<Rightarrow> 'a list \<Rightarrow> nat \<Rightarrow> 'a list" where
  "heap_Fix lt h i =
    (case heap_down lt h i (length h) of (h1, j) \<Rightarrow> if i < j then h1 else heap_up lt h1 i)"

section \<open>The heap order\<close>

definition parent :: "nat \<Rightarrow> nat" where
  "parent m = (m - 1) div 2"

lemma parent_less [simp]: "0 < m \<Longrightarrow> parent m < m"
  by (auto simp: parent_def)

lemma parent_eq_iff: "0 < m \<Longrightarrow> parent m = i \<longleftrightarrow> m = 2 * i + 1 \<or> m = 2 * i + 2"
  by (auto simp: parent_def)

definition heap_on :: "('a \<Rightarrow> 'k :: linorder) \<Rightarrow> 'a list \<Rightarrow> nat \<Rightarrow> bool" where
  "heap_on key h n \<longleftrightarrow> (\<forall>m. 0 < m \<longrightarrow> m < n \<longrightarrow> key (h ! parent m) \<le> key (h ! m))"

text \<open>A heap but for the link above \<open>j\<close>, whose children are still above \<open>j\<close>'s parent.\<close>

definition heap_above :: "('a \<Rightarrow> 'k :: linorder) \<Rightarrow> 'a list \<Rightarrow> nat \<Rightarrow> bool" where
  "heap_above key h j \<longleftrightarrow>
     (\<forall>m. 0 < m \<longrightarrow> m < length h \<longrightarrow> m \<noteq> j \<longrightarrow> key (h ! parent m) \<le> key (h ! m))
     \<and> (\<forall>m. 0 < m \<longrightarrow> m < length h \<longrightarrow> parent m = j \<longrightarrow> 0 < j \<longrightarrow> key (h ! parent j) \<le> key (h ! m))"

text \<open>A heap but for the links below \<open>i\<close>.\<close>

definition heap_below :: "('a \<Rightarrow> 'k :: linorder) \<Rightarrow> 'a list \<Rightarrow> nat \<Rightarrow> nat \<Rightarrow> bool" where
  "heap_below key h i n \<longleftrightarrow>
     (\<forall>m. 0 < m \<longrightarrow> m < n \<longrightarrow> parent m \<noteq> i \<longrightarrow> key (h ! parent m) \<le> key (h ! m))
     \<and> (\<forall>m. 0 < m \<longrightarrow> m < n \<longrightarrow> parent m = i \<longrightarrow> 0 < i \<longrightarrow> key (h ! parent i) \<le> key (h ! m))"

text \<open>\<open>Less\<close> agrees with the order of the keys on the elements of a heap.\<close>

definition less_by :: "('a \<Rightarrow> 'a \<Rightarrow> bool) \<Rightarrow> ('a \<Rightarrow> bool) \<Rightarrow> ('a \<Rightarrow> 'k :: linorder) \<Rightarrow> bool" where
  "less_by lt ok key \<longleftrightarrow> (\<forall>a b. ok a \<longrightarrow> ok b \<longrightarrow> lt a b = (key a < key b))"

lemma less_byD: "less_by lt ok key \<Longrightarrow> ok a \<Longrightarrow> ok b \<Longrightarrow> lt a b = (key a < key b)"
  by (simp add: less_by_def)

lemma swap_at_ok: "i < length h \<Longrightarrow> j < length h \<Longrightarrow> \<forall>x \<in> set h. ok x \<Longrightarrow> \<forall>x \<in> set (swap_at h i j). ok x"
  using mset_swap_at [of i h j] mset_eq_setD by metis

lemma heap_up_stop: "parent j = j \<or> \<not> lt (h ! j) (h ! parent j) \<Longrightarrow> heap_up lt h j = h"
  by (subst heap_up.simps) (auto simp: Let_def parent_def)

lemma heap_up_go: "parent j \<noteq> j \<Longrightarrow> lt (h ! j) (h ! parent j) \<Longrightarrow>
    heap_up lt h j = heap_up lt (swap_at h (parent j) j) (parent j)"
  by (subst heap_up.simps) (auto simp: Let_def parent_def)

lemma heap_down_stop:
  "n \<le> 2 * i + 1 \<or> \<not> lt (h ! small_child lt h i n) (h ! i) \<Longrightarrow> heap_down lt h i n = (h, i)"
  by (subst heap_down.simps) (auto simp: Let_def)

lemma heap_down_go:
  "2 * i + 1 < n \<Longrightarrow> lt (h ! small_child lt h i n) (h ! i) \<Longrightarrow> heap_down lt h i n
     = heap_down lt (swap_at h i (small_child lt h i n)) (small_child lt h i n) n"
  by (subst heap_down.simps) (auto simp: Let_def)

lemma heap_up_mset:
  "j < length h \<Longrightarrow> mset (heap_up lt h j) = mset h \<and> length (heap_up lt h j) = length h"
proof (induction j arbitrary: h rule: less_induct)
  case (less j)
  show ?case
  proof (cases "parent j = j \<or> \<not> lt (h ! j) (h ! parent j)")
    case True
    then show ?thesis by (simp add: heap_up_stop)
  next
    case False
    then have "parent j < j" by (auto simp: parent_def)
    with less False show ?thesis by (simp add: heap_up_go)
  qed
qed

lemma small_child_bounds: "2 * i + 1 < n \<Longrightarrow> i < small_child lt h i n \<and> small_child lt h i n < n"
  by (auto simp: small_child_def)

lemma heap_down_frame:
  "i < n \<Longrightarrow> n \<le> length h \<Longrightarrow> heap_down lt h i n = (h', k) \<Longrightarrow>
   mset h' = mset h \<and> length h' = length h \<and> (\<forall>m. n \<le> m \<longrightarrow> m < length h \<longrightarrow> h' ! m = h ! m) \<and> i \<le> k"
proof (induction "n - i" arbitrary: h i rule: less_induct)
  case less
  let ?j = "small_child lt h i n"
  show ?case
  proof (cases "n \<le> 2 * i + 1 \<or> \<not> lt (h ! ?j) (h ! i)")
    case True
    then show ?thesis using less.prems(3) by (simp add: heap_down_stop)
  next
    case False
    then have j: "i < ?j" "?j < n" using small_child_bounds [of i n lt h] by auto
    have "heap_down lt (swap_at h i ?j) ?j n = (h', k)"
      using less.prems(3) False by (simp add: heap_down_go)
    then have "mset h' = mset (swap_at h i ?j) \<and> length h' = length h
      \<and> (\<forall>m. n \<le> m \<longrightarrow> m < length h \<longrightarrow> h' ! m = swap_at h i ?j ! m) \<and> ?j \<le> k"
      using less.hyps [of ?j "swap_at h i ?j"] j less.prems by simp
    then show ?thesis using j less.prems by (auto simp: nth_swap_at)
  qed
qed

lemma heap_up_heap:
  assumes "less_by lt ok key" and "j < length h" and "\<forall>x \<in> set h. ok x" and "heap_above key h j"
  shows "heap_on key (heap_up lt h j) (length h)"
  using assms(2-4)
proof (induction j arbitrary: h rule: less_induct)
  case (less j)
  let ?i = "parent j"
  have il: "?i < length h" using less.prems(1) by (simp add: parent_def)
  have lt: "lt (h ! j) (h ! ?i) \<longleftrightarrow> key (h ! j) < key (h ! ?i)"
    using less_byD [OF assms(1)] less.prems il by simp
  note above = less.prems(3) [unfolded heap_above_def]
  show ?case
  proof (cases "?i = j \<or> \<not> lt (h ! j) (h ! ?i)")
    case True
    then have "0 < j \<Longrightarrow> key (h ! ?i) \<le> key (h ! j)" using lt parent_less [of j] by auto
    then have "heap_on key h (length h)" using above unfolding heap_on_def by blast
    then show ?thesis using True by (simp add: heap_up_stop)
  next
    case False
    then have j0: "0 < j" by (auto simp: parent_def intro: gr0I)
    then have ij: "?i < j" by simp
    have k: "key (h ! j) < key (h ! ?i)" using False lt by simp
    let ?h = "swap_at h ?i j"
    have nth: "?h ! m = (if m = j then h ! ?i else if m = ?i then h ! j else h ! m)"
      if "m < length h" for m
      using nth_swap_at [OF il less.prems(1) that] .
    have par: "parent m < length h" if "m < length h" for m using that by (simp add: parent_def)
    have "heap_above key ?h ?i"
      unfolding heap_above_def
    proof (intro conjI allI impI)
      fix m assume m: "0 < m" "m < length ?h" "m \<noteq> ?i"
      then have mp: "parent m < m" "m < length h" by simp_all
      note old = par [OF mp(2)]
      consider "m = j" | "m \<noteq> j" "parent m = ?i" | "m \<noteq> j" "parent m = j"
        | "m \<noteq> j" "parent m \<noteq> ?i" "parent m \<noteq> j" by blast
      then show "key (?h ! parent m) \<le> key (?h ! m)"
      proof cases
        case 1
        then show ?thesis using k il less.prems(1) ij by (simp add: nth)
      next
        case 2
        then have "key (h ! ?i) \<le> key (h ! m)" using above m(1) mp(2) by metis
        then show ?thesis using 2 k m mp ij il by (simp add: nth)
      next
        case 3
        then have "key (h ! ?i) \<le> key (h ! m)" using above m(1) mp(2) j0 by blast
        then show ?thesis using 3 m mp less.prems(1) by (simp add: nth)
      next
        case 4
        then show ?thesis using above m mp old by (simp add: nth)
      qed
    next
      fix m assume m: "0 < m" "m < length ?h" "parent m = ?i" "0 < ?i"
      then have ml: "m < length h" "?i < m" using parent_less [of m] by simp_all
      have pi: "parent ?i < ?i" using m(4) by simp
      have 1: "key (h ! parent ?i) \<le> key (h ! ?i)" using above m(4) il ij by simp
      have "m \<noteq> j \<Longrightarrow> key (h ! parent m) \<le> key (h ! m)" using above m(1) ml(1) by blast
      then have 2: "m \<noteq> j \<Longrightarrow> key (h ! ?i) \<le> key (h ! m)" unfolding m(3) .
      show "key (?h ! parent ?i) \<le> key (?h ! m)"
      proof -
        have "parent ?i < length h" "parent ?i \<noteq> j" "parent ?i \<noteq> ?i" using pi il ij by linarith+
        then have e1: "?h ! parent ?i = h ! parent ?i" by (simp only: nth if_False)
        have e2: "?h ! m = (if m = j then h ! ?i else h ! m)"
          using ml(2) by (subst nth [OF ml(1)]) simp
        have "key (h ! parent ?i) \<le> key (if m = j then h ! ?i else h ! m)"
          using 1 order.trans [OF 1 2] by (cases "m = j") simp_all
        then show ?thesis unfolding e1 e2 .
      qed
    qed
    then have "heap_on key (heap_up lt ?h ?i) (length ?h)"
      using ij il swap_at_ok [OF il less.prems(1,2)] by (intro less.IH) auto
    then show ?thesis using False by (simp add: heap_up_go)
  qed
qed

lemma heap_down_heap:
  assumes "less_by lt ok key" and "i < n \<or> n = 0" and "n \<le> length h" and "\<forall>x \<in> set h. ok x"
    and "heap_below key h i n"
  shows "heap_on key (fst (heap_down lt h i n)) n"
  using assms(2-5)
proof (induction "n - i" arbitrary: h i rule: less_induct)
  case less
  let ?j = "small_child lt h i n"
  note below = less.prems(4) [unfolded heap_below_def]
  show ?case
  proof (cases "n \<le> 2 * i + 1")
    case True
    then have "\<And>m. 0 < m \<Longrightarrow> m < n \<Longrightarrow> parent m \<noteq> i" by (auto simp: parent_eq_iff)
    then have "heap_on key h n" using below unfolding heap_on_def by blast
    then show ?thesis using True by (simp add: heap_down_stop)
  next
    case False
    then have j: "i < ?j" "?j < n" "i < n" using small_child_bounds [of i n lt h] by auto
    have jl: "?j < length h" "i < length h" using j less.prems(2) by simp_all
    have okc: "m < n \<Longrightarrow> ok (h ! m)" for m using less.prems(2,3) by simp
    have pj: "parent ?j = i" by (auto simp: small_child_def parent_def)
    have least: "key (h ! ?j) \<le> key (h ! m)" if "0 < m" "m < n" "parent m = i" for m
      using that less_byD [OF assms(1), of "h ! (2 * i + 2)" "h ! (2 * i + 1)"] okc
      by (auto simp: small_child_def parent_eq_iff)
    have lt: "lt (h ! ?j) (h ! i) \<longleftrightarrow> key (h ! ?j) < key (h ! i)"
      using less_byD [OF assms(1)] okc j by simp
    show ?thesis
    proof (cases "lt (h ! ?j) (h ! i)")
      case stop: False
      have "heap_on key h n"
        unfolding heap_on_def
      proof (intro allI impI)
        fix m assume m: "0 < m" "m < n"
        show "key (h ! parent m) \<le> key (h ! m)"
        proof (cases "parent m = i")
          case True
          then show ?thesis using stop lt least [OF m] by simp
        next
          case False
          then show ?thesis using below m by blast
        qed
      qed
      then show ?thesis using stop by (simp add: heap_down_stop)
    next
      case True
      then have k: "key (h ! ?j) < key (h ! i)" using lt by simp
      let ?h = "swap_at h i ?j"
      have nth: "?h ! m = (if m = ?j then h ! i else if m = i then h ! ?j else h ! m)"
        if "m < n" for m
        using nth_swap_at [OF jl(2,1)] that less.prems(2) by simp
      have "heap_below key ?h ?j n"
        unfolding heap_below_def
      proof (intro conjI allI impI)
        fix m assume m: "0 < m" "m < n" "parent m \<noteq> ?j"
        then have mp: "parent m < n" using less_trans [OF parent_less, of m n] by blast
        consider "m = ?j" | "m \<noteq> ?j" "parent m = i" | "m = i"
          | "m \<noteq> ?j" "m \<noteq> i" "parent m \<noteq> i" by blast
        then show "key (?h ! parent m) \<le> key (?h ! m)"
        proof cases
          case 1
          then show ?thesis using pj j k by (simp add: nth)
        next
          case 2
          then show ?thesis using least [OF m(1,2)] m j parent_less [OF m(1)] by (simp add: nth)
        next
          case 3
          then have "key (h ! parent i) \<le> key (h ! ?j)" using below j pj m(1) by (metis gr_implies_not_zero not_gr_zero)
          then show ?thesis using 3 m j parent_less [OF m(1)] mp by (simp add: nth)
        next
          case 4
          then show ?thesis using below m mp by (simp add: nth)
        qed
      next
        fix m assume m: "0 < m" "m < n" "parent m = ?j" "0 < ?j"
        have "parent m \<noteq> i" using m(3) j(1) by simp
        then have "key (h ! parent m) \<le> key (h ! m)" using below m(1,2) by blast
        then have "key (h ! ?j) \<le> key (h ! m)" by (simp only: m(3))
        then show "key (?h ! parent ?j) \<le> key (?h ! m)"
          using m j pj parent_less [OF m(1)] by (simp add: nth)
      qed
      then have "heap_on key (fst (heap_down lt ?h ?j n)) n"
        using j jl less.prems(2) swap_at_ok [OF jl(2,1) less.prems(3)] by (intro less.hyps) auto
      then show ?thesis using True False by (simp add: heap_down_go)
    qed
  qed
qed

section \<open>The laws of the three operations\<close>

lemma heap_on_root: "heap_on key h n \<Longrightarrow> m < n \<Longrightarrow> key (h ! 0) \<le> key (h ! m)"
proof (induction m rule: less_induct)
  case (less m)
  show ?case
  proof (cases "m = 0")
    case False
    then have "parent m < m" by simp
    with less have "key (h ! 0) \<le> key (h ! parent m)" by simp
    also have "\<dots> \<le> key (h ! m)" using less.prems False by (simp add: heap_on_def)
    finally show ?thesis .
  qed simp
qed

lemma heap_on_hd: "heap_on key h (length h) \<Longrightarrow> x \<in> set h \<Longrightarrow> key (h ! 0) \<le> key x"
  by (metis heap_on_root in_set_conv_nth)

lemma heap_Push_laws:
  assumes "less_by lt ok key" and "heap_on key h (length h)" and "\<forall>y \<in> set h. ok y" and "ok x"
  shows "heap_on key (heap_Push lt x h) (length (heap_Push lt x h))"
    "mset (heap_Push lt x h) = add_mset x (mset h)"
proof -
  have m: "mset (heap_Push lt x h) = mset (h @ [x])" "length (heap_Push lt x h) = length (h @ [x])"
    unfolding heap_Push_def using heap_up_mset [of "length h" "h @ [x]" lt] by simp_all
  have "heap_above key (h @ [x]) (length h)"
    unfolding heap_above_def
  proof (intro conjI allI impI)
    fix m assume "0 < m" "m < length (h @ [x])" "m \<noteq> length h"
    then have "m < length h" "0 < m" "parent m < m" by simp_all
    moreover from this have "parent m < length h" by (meson less_trans)
    ultimately show "key ((h @ [x]) ! parent m) \<le> key ((h @ [x]) ! m)"
      using assms(2) by (simp add: heap_on_def nth_append)
  next
    fix m assume "0 < m" "m < length (h @ [x])" "parent m = length h"
    then show "key ((h @ [x]) ! parent (length h)) \<le> key ((h @ [x]) ! m)"
      using parent_less [of m] by simp
  qed
  then have "heap_on key (heap_up lt (h @ [x]) (length h)) (length (h @ [x]))"
    using assms by (intro heap_up_heap [OF assms(1)]) auto
  then show "heap_on key (heap_Push lt x h) (length (heap_Push lt x h))"
    using m(2) by (simp add: heap_Push_def)
  show "mset (heap_Push lt x h) = add_mset x (mset h)" using m(1) by simp
qed

lemma heap_Pop_laws:
  assumes "less_by lt ok key" and "heap_on key h (length h)" and "\<forall>y \<in> set h. ok y" and "h \<noteq> []"
    and "heap_Pop lt h = (x, h')"
  shows "x = h ! 0" "mset h = add_mset x (mset h')" "heap_on key h' (length h')"
proof -
  let ?n = "length h - 1"
  let ?s = "swap_at h 0 ?n"
  obtain g k where g: "heap_down lt ?s 0 ?n = (g, k)" by fastforce
  have nl: "?n < length h" "0 < length h" using assms(4) by simp_all
  have res: "x = last g" "h' = butlast g" using assms(5) g by (simp_all add: heap_Pop_def Let_def)
  have G: "mset g = mset h \<and> length g = length h \<and> g ! ?n = ?s ! ?n"
  proof (cases "?n = 0")
    case True
    then have "g = ?s" using g by (simp add: heap_down_stop)
    then show ?thesis using nl by simp
  next
    case False
    then show ?thesis using heap_down_frame [of 0 ?n ?s lt g k] g nl by simp
  qed
  then have gne: "g \<noteq> []" using assms(4) by auto
  have "last g = ?s ! ?n" using G gne by (simp add: last_conv_nth)
  also have "\<dots> = h ! 0" using nl by (simp add: nth_swap_at)
  finally show "x = h ! 0" by (simp add: res)
  have "mset (butlast g @ [last g]) = mset g" using gne by simp
  then show "mset h = add_mset x (mset h')" using G res by simp
  have "heap_below key ?s 0 ?n"
  proof -
    have "?s ! m = h ! m" if "0 < m" "m < ?n" for m
      using that nl by (simp add: nth_swap_at)
    moreover have "parent m < ?n" if "0 < m" "m < ?n" for m
      using that parent_less less_trans by blast
    ultimately show ?thesis
      using assms(2) by (simp add: heap_below_def heap_on_def)
  qed
  moreover have "\<forall>y \<in> set ?s. ok y" by (rule swap_at_ok [OF nl(2,1) assms(3)])
  ultimately have "heap_on key (fst (heap_down lt ?s 0 ?n)) ?n"
    using nl by (intro heap_down_heap [OF assms(1)]) auto
  then have on: "heap_on key g ?n" using g by simp
  have "h' ! m = g ! m" if "m < ?n" for m using that res G by (simp add: nth_butlast)
  moreover have "parent m < ?n" if "0 < m" "m < ?n" for m
    using that parent_less less_trans by blast
  ultimately show "heap_on key h' (length h')"
    using on res G by (simp add: heap_on_def)
qed

lemma heap_Fix_laws:
  assumes "less_by lt ok key" and "heap_on key h (length h)" and "\<forall>y \<in> set h. ok y" and "h \<noteq> []"
    and "ok x"
  shows "heap_on key (heap_Fix lt (h[0 := x]) 0) (length (heap_Fix lt (h[0 := x]) 0))"
    "add_mset (h ! 0) (mset (heap_Fix lt (h[0 := x]) 0)) = add_mset x (mset h)"
proof -
  let ?u = "h[0 := x]"
  obtain g k where g: "heap_down lt ?u 0 (length h) = (g, k)" by fastforce
  have l: "0 < length h" using assms(4) by simp
  have fx: "heap_Fix lt ?u 0 = g"
    using g heap_up_stop [of 0 lt g] by (simp add: heap_Fix_def parent_def)
  have G: "mset g = mset ?u" "length g = length h"
    using heap_down_frame [of 0 "length h" ?u lt g k] g l by simp_all
  have "heap_below key ?u 0 (length h)"
    using assms(2) by (auto simp: heap_below_def heap_on_def nth_list_update)
  moreover have "\<forall>y \<in> set ?u. ok y" using assms(3,5) set_update_subset_insert [of h 0 x] by blast
  ultimately have "heap_on key (fst (heap_down lt ?u 0 (length h))) (length h)"
    using l by (intro heap_down_heap [OF assms(1)]) auto
  then show "heap_on key (heap_Fix lt ?u 0) (length (heap_Fix lt ?u 0))"
    using g G fx by simp
  show "add_mset (h ! 0) (mset (heap_Fix lt ?u 0)) = add_mset x (mset h)"
    using G(1) fx l by (simp add: mset_update)
qed

section \<open>Selecting the best\<close>

text \<open>
  What a caller of a min-heap relies on, and what it gets: keeping at most \<open>k\<close> elements by
  replacing the least whenever a better one comes leaves the \<open>k\<close> best, and popping them all
  gives them in ascending order.
\<close>

locale min_heap =
  fixes key :: "'a \<Rightarrow> 'k :: linorder"
    and ok :: "'a \<Rightarrow> bool"
    and inv :: "'h \<Rightarrow> bool"
    and elems :: "'h \<Rightarrow> 'a multiset"
    and none :: "'h"
    and top :: "'h \<Rightarrow> 'a"
    and push :: "'a \<Rightarrow> 'h \<Rightarrow> 'h"
    and pop :: "'h \<Rightarrow> 'a \<times> 'h"
    and retop :: "'a \<Rightarrow> 'h \<Rightarrow> 'h"
  assumes none: "inv none" "elems none = {#}"
    and inv_ok: "inv h \<Longrightarrow> x \<in># elems h \<Longrightarrow> ok x"
    and top: "inv h \<Longrightarrow> elems h \<noteq> {#} \<Longrightarrow> top h \<in># elems h \<and> (\<forall>x \<in># elems h. key (top h) \<le> key x)"
    and push: "inv h \<Longrightarrow> ok x \<Longrightarrow> inv (push x h) \<and> elems (push x h) = add_mset x (elems h)"
    and pop: "inv h \<Longrightarrow> elems h \<noteq> {#} \<Longrightarrow> pop h = (x, h') \<Longrightarrow>
        x = top h \<and> inv h' \<and> elems h = add_mset x (elems h')"
    and retop: "inv h \<Longrightarrow> ok x \<Longrightarrow> elems h \<noteq> {#} \<Longrightarrow>
        inv (retop x h) \<and> add_mset (top h) (elems (retop x h)) = add_mset x (elems h)"
begin

definition keep :: "nat \<Rightarrow> 'a \<Rightarrow> 'h \<Rightarrow> 'h" where
  "keep k x h = (if size (elems h) < k then push x h
     else if key (top h) < key x then retop x h else h)"

fun drain :: "nat \<Rightarrow> 'h \<Rightarrow> 'a list" where
  "drain 0 h = []"
| "drain (Suc n) h = (case pop h of (x, h') \<Rightarrow> x # drain n h')"

text \<open>\<open>best k B X\<close>: \<open>B\<close> holds \<open>k\<close> greatest elements of \<open>X\<close>, all of them if there are fewer.\<close>

definition best :: "nat \<Rightarrow> 'a multiset \<Rightarrow> 'a multiset \<Rightarrow> bool" where
  "best k B X \<longleftrightarrow> B \<subseteq># X \<and> size B = min k (size X)
     \<and> (\<forall>b \<in># B. \<forall>x \<in># X - B. key x \<le> key b)"

lemma keep_best:
  assumes "inv h" and "ok x" and "best k (elems h) X" and "0 < k"
  shows "inv (keep k x h) \<and> best k (elems (keep k x h)) (add_mset x X)"
proof -
  have sub: "elems h \<subseteq># X" and sz: "size (elems h) = min k (size X)"
    and le: "\<And>b y. b \<in># elems h \<Longrightarrow> y \<in># X - elems h \<Longrightarrow> key y \<le> key b"
    using assms(3) by (auto simp: best_def)
  show ?thesis
  proof (cases "size (elems h) < k")
    case True
    then have "size (elems h) = size X" using sz by simp
    then have "elems h = X" using sub by (simp add: subset_mset.le_iff_add) (metis add.right_neutral add_cancel_left_right size_eq_0_iff_empty size_union)
    then show ?thesis using push [OF assms(1,2)] True by (simp add: keep_def best_def)
  next
    case False
    then have full: "size (elems h) = k" "k \<le> size X" using sz by auto
    then have ne: "elems h \<noteq> {#}" using assms(4) by auto
    note t = top [OF assms(1) ne]
    obtain R where X: "X = elems h + R" using sub by (auto simp: subset_mset.le_iff_add)
    have leR: "\<And>b y. b \<in># elems h \<Longrightarrow> y \<in># R \<Longrightarrow> key y \<le> key b" using le X by simp
    show ?thesis
    proof (cases "key (top h) < key x")
      case True
      note r = retop [OF assms(1,2) ne]
      obtain E where E: "elems h = add_mset (top h) E" using t by (meson mset_add)
      then have e: "elems (retop x h) = add_mset x E" using r by simp
      have "best k (add_mset x E) (add_mset x X)"
        unfolding best_def
      proof (intro conjI ballI)
        show "add_mset x E \<subseteq># add_mset x X" using X E by simp
        show "size (add_mset x E) = min k (size (add_mset x X))" using full E by simp
        fix b y assume b: "b \<in># add_mset x E" and y: "y \<in># add_mset x X - add_mset x E"
        have "y \<in># add_mset (top h) R" using y X E by simp
        then have "key y \<le> key (top h)" using leR t by auto
        moreover have "key (top h) \<le> key b" using b True t E by auto
        ultimately show "key y \<le> key b" by (rule order.trans)
      qed
      then show ?thesis using r e True full by (simp add: keep_def)
    next
      case False
      have "best k (elems h) (add_mset x X)"
        unfolding best_def
      proof (intro conjI ballI)
        show "elems h \<subseteq># add_mset x X" using X by (simp add: subset_mset.add_increasing2 flip: add_mset_add_single)
        show "size (elems h) = min k (size (add_mset x X))" using full by simp
        fix b y assume b: "b \<in># elems h" and y: "y \<in># add_mset x X - elems h"
        have "y = x \<or> y \<in># R" using y X by (auto simp: multiset_eq_iff in_diff_count not_in_iff split: if_splits)
        then show "key y \<le> key b" using leR b False t by (auto intro: order.trans [of _ "key (top h)"])
      qed
      then show ?thesis using assms(1) full False by (simp add: keep_def)
    qed
  qed
qed

lemma keep_all:
  assumes "inv h" and "\<forall>x \<in> set xs. ok x" and "best k (elems h) X" and "0 < k"
  shows "inv (foldl (\<lambda>h x. keep k x h) h xs)
    \<and> best k (elems (foldl (\<lambda>h x. keep k x h) h xs)) (mset xs + X)"
  using assms(1-3)
proof (induction xs arbitrary: h X)
  case Nil
  then show ?case by simp
next
  case (Cons x xs)
  from keep_best [OF Cons.prems(1) _ Cons.prems(3) assms(4), of x] Cons.prems(2)
  have "inv (keep k x h)" "best k (elems (keep k x h)) (add_mset x X)" by auto
  from Cons.IH [OF this(1) _ this(2)] Cons.prems(2) show ?case by simp
qed

lemma drain_sorted:
  "inv h \<Longrightarrow> size (elems h) = n \<Longrightarrow> mset (drain n h) = elems h \<and> sorted (map key (drain n h))"
proof (induction n arbitrary: h)
  case 0
  then show ?case by simp
next
  case (Suc n)
  then have ne: "elems h \<noteq> {#}" by auto
  obtain x h' where p: "pop h = (x, h')" by fastforce
  note P = pop [OF Suc.prems(1) ne p]
  have "mset (drain n h') = elems h' \<and> sorted (map key (drain n h'))"
    using P Suc.prems(2) by (intro Suc.IH) auto
  moreover have "\<forall>y \<in># elems h'. key x \<le> key y" using P top [OF Suc.prems(1) ne] by simp
  ultimately show ?case using P p by (auto simp: set_mset_mset [symmetric] simp del: set_mset_mset)
qed

lemma select_best:
  assumes "\<forall>x \<in> set xs. ok x" and "0 < k" and "h = foldl (\<lambda>h x. keep k x h) none xs"
  shows "best k (mset (drain (size (elems h)) h)) (mset xs)
    \<and> sorted (map key (drain (size (elems h)) h))"
proof -
  have "best k (elems none) {#}" by (simp add: best_def none)
  from keep_all [OF none(1) assms(1) this assms(2)] assms(3)
  have "inv h" "best k (elems h) (mset xs)" by simp_all
  then show ?thesis using drain_sorted [of h "size (elems h)"] by simp
qed

end

end
