(* ===== verification/VectorIndex.thy ===== *)
theory VectorIndex
  imports Floats Heap Replay Seal
begin

text \<open>
  Package \<open>index\<close>: the flat matrix of unit vectors and the search over it, and the persisted
  form, an immutable base plus appended deltas of sealed, length-prefixed entries.

  A vector is a list of 32 bit patterns.  A store's sealer is the \<open>Seal\<close> and \<open>Open\<close> of the
  interface the package declares, given the count of nonces drawn so far.
\<close>

section \<open>The matrix\<close>

record index =
  ixDim :: nat
  ixModel :: string
  ixIDs :: "recid list"
  ixVectors :: "f32 list"
  ixAt :: "recid \<rightharpoonup> nat"

definition Index_New :: "string \<Rightarrow> nat \<Rightarrow> index" where
  "Index_New model wd = \<lparr> ixDim = wd, ixModel = model, ixIDs = [], ixVectors = [], ixAt = Map.empty \<rparr>"

definition Index_Len :: "index \<Rightarrow> nat" where
  "Index_Len ix = length (ixIDs ix)"

definition Index_Has :: "index \<Rightarrow> recid \<Rightarrow> bool" where
  "Index_Has ix i \<longleftrightarrow> ixAt ix i \<noteq> None"

definition Index_Add :: "recid \<Rightarrow> string \<Rightarrow> f32 list \<Rightarrow> (index, unit) step" where
  "Index_Add i model vector ix =
    (if model \<noteq> ixModel ix then (fail [ErrForeignModel] ''index model'', ix)
     else if length vector \<noteq> ixDim ix then (fail [] ''index dimension'', ix)
     else case ixAt ix i of
       Some position \<Rightarrow> (Inr (), ix\<lparr> ixVectors :=
          take (position * ixDim ix) (ixVectors ix) @ vector
          @ drop ((position + 1) * ixDim ix) (ixVectors ix) \<rparr>)
     | None \<Rightarrow> (Inr (), ix\<lparr> ixAt := (ixAt ix)(i \<mapsto> length (ixIDs ix)),
          ixIDs := ixIDs ix @ [i], ixVectors := ixVectors ix @ vector \<rparr>))"

section \<open>Search\<close>

record match =
  mtID :: recid
  mtScore :: gofloat

definition match_Less :: "match \<Rightarrow> match \<Rightarrow> bool" where
  "match_Less a b = float_lt (mtScore a) (mtScore b)"

definition dot :: "f32 list \<Rightarrow> f32 list \<Rightarrow> gofloat" where
  "dot a b = foldl (\<lambda>sum (x, y). f32_add sum (f32_mul (f32_val x) (f32_val y))) (Fin 0) (zip a b)"

definition row :: "index \<Rightarrow> nat \<Rightarrow> f32 list" where
  "row ix n = take (ixDim ix) (drop (n * ixDim ix) (ixVectors ix))"

definition search_step :: "nat \<Rightarrow> match \<Rightarrow> match list \<Rightarrow> match list" where
  "search_step k x best =
    (if length best < k then heap_Push match_Less x best
     else if float_lt (mtScore (best ! 0)) (mtScore x) then heap_Fix match_Less (best[0 := x]) 0
     else best)"

fun pop_all :: "nat \<Rightarrow> match list \<Rightarrow> match list" where
  "pop_all 0 h = []"
| "pop_all (Suc n) h = (case heap_Pop match_Less h of (x, h') \<Rightarrow> x # pop_all n h')"

text \<open>Popping fills the result from its last position down.\<close>

definition Index_Search :: "index \<Rightarrow> f32 list \<Rightarrow> int \<Rightarrow> match list res" where
  "Index_Search ix query k =
    (if length query \<noteq> ixDim ix then fail [] ''index dimension''
     else if k \<le> 0 then Inr []
     else let best = foldl (\<lambda>best (n, i). search_step (nat k)
                \<lparr> mtID = i, mtScore = dot query (row ix n) \<rparr> best) [] (enumerate 0 (ixIDs ix))
       in Inr (rev (pop_all (length best) best)))"

section \<open>Persisted entries\<close>

record ventry =
  veID :: recid
  veModel :: string
  veDim :: nat
  veVector :: "f32 list"

definition Removed :: "ventry \<Rightarrow> bool" where
  "Removed e \<longleftrightarrow> veDim e = 0"

definition Removal :: "recid \<Rightarrow> ventry" where
  "Removal i = \<lparr> veID = i, veModel = [], veDim = 0, veVector = [] \<rparr>"

record vsealer =
  vsSeal :: "nat \<Rightarrow> byte list \<Rightarrow> byte list res"
  vsOpen :: "byte list \<Rightarrow> byte list res"

definition vec_body :: "ventry \<Rightarrow> byte list" where
  "vec_body e = le_bytes 2 (length (veModel e)) @ bytes_of (veModel e) @ le_bytes 2 (veDim e)
     @ ID_bytes (veID e) @ concat (map (\<lambda>w. le_bytes 4 (unat w)) (veVector e))"

definition vec_encodeEntry :: "vsealer \<Rightarrow> nat \<Rightarrow> ventry \<Rightarrow> byte list res" where
  "vec_encodeEntry s n e =
    (if length (veVector e) \<noteq> veDim e then fail [] ''entry declares other dimensions''
     else case vsSeal s n (vec_body e) of
       Inl err \<Rightarrow> Inl (wrap_err ''seal index entry: '' err)
     | Inr sealed \<Rightarrow> Inr (le_bytes 4 (length sealed) @ sealed))"

fun le_words :: "nat \<Rightarrow> byte list \<Rightarrow> f32 list" where
  "le_words 0 b = []"
| "le_words (Suc n) b = of_nat (le_val (take 4 b)) # le_words n (drop 4 b)"

definition vec_decodeEntry :: "byte list \<Rightarrow> ventry res" where
  "vec_decodeEntry body =
    (if length body < 2 then fail [ErrCorruptIndex] ''short''
     else let nameLen = le_val (take 2 body); off = 2 in
     if length body < off + nameLen + 2 + 16 then fail [ErrCorruptIndex] ''truncated''
     else let model = string_of (take nameLen (drop off body)); off = off + nameLen;
              wd = le_val (take 2 (drop off body)); off = off + 2;
              i = ID_of_bytes (take 16 (drop off body)); off = off + 16 in
     if length body - off \<noteq> 4 * wd then fail [ErrCorruptIndex] ''vector length''
     else Inr \<lparr> veID = i, veModel = model, veDim = wd, veVector = le_words wd (drop off body) \<rparr>)"

text \<open>\<open>readEntries\<close>: the loop stops at the first damage and keeps what it has.\<close>

function vec_read :: "vsealer \<Rightarrow> byte list \<Rightarrow> ventry list" where
  "vec_read s raw =
    (if length raw < 4 then []
     else let size = le_val (take 4 raw); rest = drop 4 raw in
     if size = 0 \<or> length rest < size then []
     else case vsOpen s (take size rest) of
       Inl _ \<Rightarrow> []
     | Inr body \<Rightarrow> (case vec_decodeEntry body of
         Inl _ \<Rightarrow> []
       | Inr e \<Rightarrow> e # vec_read s (drop size rest)))"
  by pat_completeness auto
termination
  by (relation "measure (length \<circ> snd)") auto

declare vec_read.simps [simp del]

section \<open>The store\<close>

record vstore =
  vtBase :: "byte list option"
  vtDelta :: "byte list"
  vtBaseBytes :: int
  vtDeltaBytes :: int
  vtWritten :: int
  vtCompactions :: int
  vtRand :: nat

fun append_lines :: "vsealer \<Rightarrow> io \<Rightarrow> nat \<Rightarrow> ventry list \<Rightarrow> (vstore, unit) step" where
  "append_lines s io i [] st = (Inr (), st)"
| "append_lines s io i (e # es) st =
    (let st0 = st\<lparr> vtRand := Suc (vtRand st) \<rparr> in
     case vec_encodeEntry s (vtRand st) e of
       Inl err \<Rightarrow> (Inl err, st0)
     | Inr line \<Rightarrow>
        if ioFails io (OpWriteDelta i)
        then (fail [] ''append index delta'', st0\<lparr> vtDelta := vtDelta st @ take (ioTorn io) line \<rparr>)
        else append_lines s io (Suc i) es (st0\<lparr> vtDelta := vtDelta st @ line,
          vtDeltaBytes := vtDeltaBytes st + int (length line),
          vtWritten := vtWritten st + int (length line) \<rparr>))"

definition Store_Append :: "vsealer \<Rightarrow> io \<Rightarrow> ventry list \<Rightarrow> (vstore, unit) step" where
  "Store_Append s io es st =
    (if es = [] then (Inr (), st)
     else case append_lines s io 0 es st of
       (Inl err, st1) \<Rightarrow> (Inl err, st1)
     | (Inr _, st1) \<Rightarrow> if ioFails io OpSyncLog then (fail [] ''sync index delta'', st1) else (Inr (), st1))"

definition Store_Remove :: "vsealer \<Rightarrow> io \<Rightarrow> recid list \<Rightarrow> (vstore, unit) step" where
  "Store_Remove s io ids = Store_Append s io (map Removal ids)"

text \<open>Hydration keeps a position per id and overwrites in place.\<close>

definition hydrate_put :: "ventry \<Rightarrow> (recid \<rightharpoonup> nat) \<times> ventry list \<Rightarrow> (recid \<rightharpoonup> nat) \<times> ventry list" where
  "hydrate_put e = (\<lambda>(seen, out). case seen (veID e) of
     Some position \<Rightarrow> (seen, out[position := e])
   | None \<Rightarrow> (seen(veID e \<mapsto> length out), out @ [e]))"

definition Store_Hydrate :: "vsealer \<Rightarrow> vstore \<Rightarrow> ventry list" where
  "Store_Hydrate s st =
    (let base = (case vtBase st of None \<Rightarrow> [] | Some raw \<Rightarrow> vec_read s raw);
         v = foldl (\<lambda>v e. hydrate_put e v) (Map.empty, []) base;
         v = foldl (\<lambda>v e. hydrate_put e v) v (vec_read s (vtDelta st))
     in filter (\<lambda>e. \<not> Removed e) (snd v))"

text \<open>A base that was never written is not an error; a file that cannot be read is.\<close>

definition Store_Read :: "vsealer \<Rightarrow> io \<Rightarrow> vstore \<Rightarrow> ventry list res" where
  "Store_Read s io st =
    (if vtBase st \<noteq> None \<and> ioFails io OpReadBase then fail [] ''read index base''
     else if ioFails io OpReadDelta then fail [] ''read index delta''
     else Inr (Store_Hydrate s st))"

definition Store_dueForCompaction :: "vstore \<Rightarrow> bool" where
  "Store_dueForCompaction st \<longleftrightarrow> \<not> vtDeltaBytes st < 65536 \<and> vtBaseBytes st < 4 * vtDeltaBytes st"

fun write_base :: "vsealer \<Rightarrow> io \<Rightarrow> nat \<Rightarrow> ventry list \<Rightarrow> nat \<Rightarrow> byte list \<Rightarrow> byte list res \<times> nat" where
  "write_base s io i [] r buf = (Inr buf, r)"
| "write_base s io i (e # es) r buf =
     (case vec_encodeEntry s r e of
        Inl err \<Rightarrow> (Inl err, Suc r)
      | Inr line \<Rightarrow> if ioFails io (OpWritePending i) then (fail [] ''write index base'', Suc r)
          else write_base s io (Suc i) es (Suc r) (buf @ line))"

definition Store_Compact :: "vsealer \<Rightarrow> io \<Rightarrow> ventry list \<Rightarrow> (vstore, unit) step" where
  "Store_Compact s io es st =
    (if ioFails io OpOpenPending then (fail [] ''open index base'', st)
     else case write_base s io 0 es (vtRand st) [] of
       (Inl err, r) \<Rightarrow> (Inl err, st\<lparr> vtRand := r \<rparr>)
     | (Inr buf, r) \<Rightarrow>
        let st1 = st\<lparr> vtRand := r \<rparr> in
        if ioFails io OpSyncPending then (fail [] ''sync index base'', st1)
        else if ioFails io OpClosePending then (fail [] ''close index base'', st1)
        else if ioFails io OpRename then (fail [] ''install index base'', st1)
        else let st2 = st1\<lparr> vtBase := Some buf \<rparr> in
        if ioFails io OpTruncate then (fail [] ''empty index delta'', st2)
        else let st3 = st2\<lparr> vtDelta := [] \<rparr> in
        if ioFails io OpSeek then (fail [] ''rewind index delta'', st3)
        else (Inr (), st3\<lparr> vtBaseBytes := int (length buf), vtDeltaBytes := 0,
                vtWritten := vtWritten st3 + int (length buf),
                vtCompactions := vtCompactions st3 + 1 \<rparr>))"

section \<open>The matrix holds one row per record\<close>

definition ix_ok :: "index \<Rightarrow> bool" where
  "ix_ok ix \<longleftrightarrow> length (ixVectors ix) = length (ixIDs ix) * ixDim ix \<and> distinct (ixIDs ix)
     \<and> (\<forall>i. ixAt ix i = index_of (\<lambda>j. j = i) (ixIDs ix))"

definition Index_lookup :: "index \<Rightarrow> recid \<Rightarrow> f32 list option" where
  "Index_lookup ix i = map_option (row ix) (ixAt ix i)"

lemma ix_ok_New: "ix_ok (Index_New model wd)"
  by (simp add: ix_ok_def Index_New_def)

lemma index_of_eq: "index_of (\<lambda>j. j = i) xs = Some p \<Longrightarrow> p < length xs \<and> xs ! p = i"
  using index_of_Some [of "\<lambda>j. j = i" xs p] by simp

lemma row_replaced:
  assumes "length vs = n * d" and "p < n" and "m < n" and "length v = d"
  shows "take d (drop (m * d) (take (p * d) vs @ v @ drop ((p + 1) * d) vs))
    = (if m = p then v else take d (drop (m * d) vs))"
proof -
  have pd: "p * d \<le> length vs" using assms by simp
  consider "m < p" | "m = p" | "p < m" by linarith
  then show ?thesis
  proof cases
    case 1
    then obtain k where "p = m + Suc k" using less_imp_Suc_add by force
    then have "p * d = m * d + (d + k * d)" by (simp add: algebra_simps)
    then show ?thesis using 1 pd by (simp add: drop_take)
  next
    case 2
    then show ?thesis using pd assms(4) by simp
  next
    case 3
    then obtain k where k: "m = Suc p + k" using less_imp_Suc_add by force
    then have "m * d = p * d + (d + k * d)" by (simp add: algebra_simps)
    then have "drop (m * d) (take (p * d) vs @ v @ drop ((p + 1) * d) vs)
        = drop (k * d) (drop ((p + 1) * d) vs)"
      using pd assms(4) by simp
    also have "\<dots> = drop (m * d) vs" using k by (simp add: algebra_simps)
    finally show ?thesis using 3 by simp
  qed
qed

lemma row_appended:
  assumes "length vs = n * d" and "length v = d" and "m \<le> n"
  shows "take d (drop (m * d) (vs @ v)) = (if m = n then v else take d (drop (m * d) vs))"
proof (cases "m = n")
  case True
  then show ?thesis using assms by simp
next
  case False
  then obtain k where "n = m + Suc k" using assms(3) less_imp_Suc_add by force
  then have "n * d = m * d + (d + k * d)" by (simp add: algebra_simps)
  then show ?thesis using False assms by simp
qed

text \<open>\<open>Add\<close> keeps the matrix, the id list and the position map in step, stores exactly the
  vector it was given for that record and changes no other record's, refuses a vector of
  another model or width without changing anything, and replaces rather than duplicates.\<close>

lemma Index_Add_correct:
  assumes "ix_ok ix" and "Index_Add i model v ix = (r, ix')"
  shows "ix_ok ix'
    \<and> (r = Inr () \<longleftrightarrow> model = ixModel ix \<and> length v = ixDim ix)
    \<and> (r = Inr () \<longrightarrow> Index_lookup ix' = (Index_lookup ix)(i \<mapsto> v)
         \<and> ixIDs ix' = (if i \<in> set (ixIDs ix) then ixIDs ix else ixIDs ix @ [i]))
    \<and> (r \<noteq> Inr () \<longrightarrow> ix' = ix)
    \<and> (model \<noteq> ixModel ix \<longrightarrow> (\<exists>e. r = Inl e \<and> errors_Is e ErrForeignModel))"
proof -
  let ?n = "length (ixIDs ix)" and ?d = "ixDim ix"
  have ok: "length (ixVectors ix) = ?n * ?d" "distinct (ixIDs ix)"
    "\<And>j. ixAt ix j = index_of (\<lambda>x. x = j) (ixIDs ix)"
    using assms(1) by (auto simp: ix_ok_def)
  have bound: "p < ?n" if "ixAt ix j = Some p" for j p
    using that ok(3) index_of_eq by metis
  show ?thesis
  proof (cases "model = ixModel ix \<and> length v = ?d")
    case False
    then show ?thesis using assms by (auto simp: Index_Add_def split: if_splits)
  next
    case True
    show ?thesis
    proof (cases "ixAt ix i")
      case None
      then have ix': "ix' = ix\<lparr> ixAt := (ixAt ix)(i \<mapsto> ?n), ixIDs := ixIDs ix @ [i],
          ixVectors := ixVectors ix @ v \<rparr>" "r = Inr ()"
        using assms(2) True by (auto simp: Index_Add_def)
      have new: "i \<notin> set (ixIDs ix)"
        using None ok(3) [of i] index_of_None [of "\<lambda>x. x = i" "ixIDs ix"] by auto
      have "index_of (\<lambda>x. x = j) (ixIDs ix @ [i]) = ((ixAt ix)(i \<mapsto> ?n)) j" for j
        using None by (simp add: index_of_snoc ok(3) [symmetric] split: option.split)
      then have "ix_ok ix'" using ok(1,2) new True by (simp add: ix_ok_def ix' add_mult_distrib)
      moreover have "Index_lookup ix' j = ((Index_lookup ix)(i \<mapsto> v)) j" for j
      proof (cases "j = i")
        case True
        then show ?thesis using row_appended [OF ok(1), of v ?n] \<open>model = _ \<and> _\<close>
          by (simp add: Index_lookup_def row_def ix')
      next
        case False
        have "row ix' q = row ix q" if "ixAt ix j = Some q" for q
          using row_appended [OF ok(1), of v q] \<open>model = _ \<and> _\<close> bound [OF that] by (simp add: row_def ix')
        then show ?thesis using False by (cases "ixAt ix j") (simp_all add: Index_lookup_def ix')
      qed
      ultimately show ?thesis using ix' new True by auto
    next
      case (Some p)
      then have ix': "ix' = ix\<lparr> ixVectors := take (p * ?d) (ixVectors ix) @ v
          @ drop ((p + 1) * ?d) (ixVectors ix) \<rparr>" "r = Inr ()"
        using assms(2) True by (auto simp: Index_Add_def)
      have p: "p < ?n" "ixIDs ix ! p = i" using Some ok(3) index_of_eq by metis+
      then obtain k where k: "?n = p + Suc k" using less_imp_Suc_add by force
      then have l: "length (ixVectors ix) = p * ?d + (?d + k * ?d)"
        using ok(1) by (simp add: algebra_simps)
      have "ix_ok ix'" using ok True l by (auto simp: ix_ok_def ix')
      moreover have "Index_lookup ix' j = ((Index_lookup ix)(i \<mapsto> v)) j" for j
      proof (cases "ixAt ix j")
        case jn: None
        then show ?thesis using Some by (auto simp: Index_lookup_def ix')
      next
        case (Some q)
        have "q = p \<longleftrightarrow> j = i" using Some \<open>ixAt ix i = Some p\<close> ok(3) index_of_eq by (metis option.inject)
        then show ?thesis
          using Some row_replaced [OF ok(1) p(1) bound [OF Some] conjunct2 [OF True]]
          by (simp add: Index_lookup_def row_def ix')
      qed
      moreover have "i \<in> set (ixIDs ix)" using p by auto
      ultimately show ?thesis using ix' True by auto
    qed
  qed
qed

section \<open>Search returns the nearest\<close>

definition score_key :: "match \<Rightarrow> int \<times> rat" where
  "score_key m = float_key (mtScore m)"

definition scored :: "match \<Rightarrow> bool" where
  "scored m \<longleftrightarrow> mtScore m \<noteq> NaN"

definition match_heap :: "match list \<Rightarrow> bool" where
  "match_heap h \<longleftrightarrow> heap_on score_key h (length h) \<and> (\<forall>m \<in> set h. scored m)"

lemma match_Less_by: "less_by match_Less scored score_key"
  by (simp add: less_by_def match_Less_def scored_def score_key_def float_lt_key)

interpretation nearest: min_heap score_key scored match_heap mset "[]" "\<lambda>h. h ! 0"
  "heap_Push match_Less" "heap_Pop match_Less" "\<lambda>x h. heap_Fix match_Less (h[0 := x]) 0"
proof unfold_locales
  show "match_heap []" by (simp add: match_heap_def heap_on_def)
  show "mset [] = {#}" by simp
  fix h assume h: "match_heap h"
  then have H: "heap_on score_key h (length h)" "\<forall>y \<in> set h. scored y"
    by (simp_all add: match_heap_def)
  show "scored x" if "x \<in># mset h" for x using that H by simp
  show "h ! 0 \<in># mset h \<and> (\<forall>x \<in># mset h. score_key (h ! 0) \<le> score_key x)" if "mset h \<noteq> {#}"
    using that heap_on_hd [OF H(1)] by simp
  show "match_heap (heap_Push match_Less x h) \<and> mset (heap_Push match_Less x h) = add_mset x (mset h)"
    if x: "scored x" for x
  proof -
    note P = heap_Push_laws [OF match_Less_by H x]
    then have "set (heap_Push match_Less x h) = insert x (set h)"
      by (metis set_mset_add_mset_insert set_mset_mset)
    then show ?thesis using P H x by (simp add: match_heap_def)
  qed
  show "x = h ! 0 \<and> match_heap h' \<and> mset h = add_mset x (mset h')"
    if ne: "mset h \<noteq> {#}" and p: "heap_Pop match_Less h = (x, h')" for x h'
  proof -
    have "h \<noteq> []" using ne by simp
    note P = heap_Pop_laws [OF match_Less_by H this p]
    have "set h = insert x (set h')" using P(2) by (metis set_mset_add_mset_insert set_mset_mset)
    then show ?thesis using P H by (auto simp: match_heap_def)
  qed
  show "match_heap (heap_Fix match_Less (h[0 := x]) 0)
      \<and> add_mset (h ! 0) (mset (heap_Fix match_Less (h[0 := x]) 0)) = add_mset x (mset h)"
    if x: "scored x" and ne: "mset h \<noteq> {#}" for x
  proof -
    have "h \<noteq> []" using ne by simp
    note P = heap_Fix_laws [OF match_Less_by H this x]
    have "set (heap_Fix match_Less (h[0 := x]) 0) \<subseteq> insert x (set h)"
      using P(2) by (metis set_mset_add_mset_insert set_mset_mset subset_insertI)
    then show ?thesis using P H x by (auto simp: match_heap_def)
  qed
qed

definition all_matches :: "index \<Rightarrow> f32 list \<Rightarrow> match list" where
  "all_matches ix query =
     map (\<lambda>(n, i). \<lparr> mtID = i, mtScore = dot query (row ix n) \<rparr>) (enumerate 0 (ixIDs ix))"

lemma search_step_keep:
  "match_heap h \<Longrightarrow> scored x \<Longrightarrow> 0 < k \<Longrightarrow> search_step k x h = nearest.keep k x h"
proof -
  assume h: "match_heap h" and x: "scored x" and k: "0 < k"
  show ?thesis
  proof (cases "length h < k")
    case True
    then show ?thesis by (simp add: search_step_def nearest.keep_def)
  next
    case False
    then have "h ! 0 \<in> set h" using k by (intro nth_mem) linarith
    then have "scored (h ! 0)" using h by (simp add: match_heap_def)
    then have "float_lt (mtScore (h ! 0)) (mtScore x) \<longleftrightarrow> score_key (h ! 0) < score_key x"
      using x by (simp add: scored_def score_key_def float_lt_key)
    with False show ?thesis by (simp add: search_step_def nearest.keep_def)
  qed
qed

lemma search_loop_keep:
  "match_heap h \<Longrightarrow> \<forall>x \<in> set xs. scored x \<Longrightarrow> 0 < k \<Longrightarrow>
   foldl (\<lambda>h x. search_step k x h) h xs = foldl (\<lambda>h x. nearest.keep k x h) h xs"
proof (induction xs arbitrary: h)
  case (Cons x xs)
  have "match_heap (nearest.keep k x h)"
  proof (cases "length h < k")
    case True
    then show ?thesis using Cons.prems nearest.push [of h x] by (simp add: nearest.keep_def)
  next
    case False
    then have "h \<noteq> []" using Cons.prems(3) by auto
    then show ?thesis using False Cons.prems nearest.retop [of h x] by (simp add: nearest.keep_def)
  qed
  then show ?case using Cons by (simp add: search_step_keep)
qed simp

lemma pop_all_drain: "pop_all n h = nearest.drain n h"
  by (induction n arbitrary: h) (auto split: prod.split)

text \<open>C11. \<open>Search\<close> returns the \<open>k\<close> nearest records: every result carries the true score of a
  record of the index, there are \<open>k\<close> of them or as many as the index holds, they come best
  first, and no record left out scores above one returned (scores being comparable).\<close>

theorem Index_Search_nearest:
  assumes "Index_Search ix query k = Inr out" and "0 < k"
    and "\<forall>m \<in> set (all_matches ix query). mtScore m \<noteq> NaN"
  shows "mset out \<subseteq># mset (all_matches ix query)
    \<and> length out = min (nat k) (length (ixIDs ix))
    \<and> sorted_wrt (\<lambda>a b. \<not> float_lt (mtScore a) (mtScore b)) out
    \<and> (\<forall>m \<in> set out. \<forall>x \<in># mset (all_matches ix query) - mset out.
          \<not> float_lt (mtScore m) (mtScore x))"
proof -
  let ?all = "all_matches ix query"
  have ok: "\<forall>m \<in> set ?all. scored m" using assms(3) by (simp add: scored_def)
  define h where "h = foldl (\<lambda>h x. nearest.keep (nat k) x h) [] ?all"
  have "foldl (\<lambda>best (n, i). search_step (nat k)
      \<lparr> mtID = i, mtScore = dot query (row ix n) \<rparr> best) [] (enumerate 0 (ixIDs ix))
    = foldl (\<lambda>h x. search_step (nat k) x h) [] ?all"
    by (simp add: all_matches_def foldl_map case_prod_unfold)
  also have "\<dots> = h"
    unfolding h_def using ok assms(2) by (intro search_loop_keep) (simp_all add: nearest.none)
  finally have out: "out = rev (nearest.drain (length h) h)"
    using assms(1,2) by (auto simp: Index_Search_def Let_def pop_all_drain split: if_splits)
  have "0 < nat k" using assms(2) by simp
  from nearest.select_best [OF ok this h_def]
  have best: "nearest.best (nat k) (mset out) (mset ?all)"
    and srt: "sorted (map score_key (rev out))"
    by (simp_all add: out)
  have sub: "mset out \<subseteq># mset ?all" using best by (simp add: nearest.best_def)
  have nn: "m \<in> set out \<Longrightarrow> mtScore m \<noteq> NaN" for m
    using sub assms(3) by (metis mset_subset_eqD set_mset_mset)
  have nx: "x \<in># mset ?all - mset out \<Longrightarrow> mtScore x \<noteq> NaN" for x
    using assms(3) by (metis in_diffD set_mset_mset)
  have "size (mset out) = min (nat k) (size (mset ?all))" using best unfolding nearest.best_def by blast
  then have "length out = min (nat k) (length (ixIDs ix))" by (simp add: all_matches_def)
  moreover have "sorted_wrt (\<lambda>a b. \<not> float_lt (mtScore a) (mtScore b)) out"
    using srt nn unfolding sorted_wrt_map sorted_wrt_rev
    by (auto simp: score_key_def float_lt_key not_less elim!: sorted_wrt_mono_rel [rotated])
  moreover have "\<forall>m \<in> set out. \<forall>x \<in># mset ?all - mset out. \<not> float_lt (mtScore m) (mtScore x)"
    using best nn nx by (auto simp: nearest.best_def score_key_def float_lt_key not_less)
  ultimately show ?thesis using sub by blast
qed

text \<open>Two records on a line, one each side of the origin.\<close>

definition demo_index :: index where
  "demo_index = snd (Index_Add 2 ''m'' [0xC0000000] (snd (Index_Add 1 ''m'' [0x3F800000] (Index_New ''m'' 1))))"

theorem Index_Search_nearest_witness:
  "\<exists>out. Index_Search demo_index [0x3F800000] 1 = Inr out \<and> length out = 1
     \<and> mset out \<subseteq># mset (all_matches demo_index [0x3F800000])"
proof -
  have d: "ixIDs demo_index = [1, 2]" "ixDim demo_index = 1"
    by (simp_all add: demo_index_def Index_Add_def Index_New_def)
  then obtain out where out: "Index_Search demo_index [0x3F800000] 1 = Inr out"
    by (simp add: Index_Search_def Let_def)
  have "\<forall>m \<in> set (all_matches demo_index [0x3F800000]). mtScore m \<noteq> NaN" by code_simp
  from Index_Search_nearest [OF out _ this] out d show ?thesis by simp
qed

section \<open>Reading back what was written\<close>

definition vec_ok :: "vsealer \<Rightarrow> ventry \<Rightarrow> bool" where
  "vec_ok s e \<longleftrightarrow> length (veVector e) = veDim e \<and> length (veModel e) < 65536 \<and> veDim e < 65536
     \<and> (\<forall>n. \<exists>b. vsSeal s n (vec_body e) = Inr b \<and> vsOpen s b = Inr (vec_body e)
          \<and> 0 < length b \<and> length b < 2 ^ 32)"

lemma length_bytes_of [simp]: "length (bytes_of s) = length s"
  by (simp add: bytes_of_def)

lemma le_words_bytes: "le_words (length ws) (concat (map (\<lambda>w. le_bytes 4 (unat w)) ws)) = ws"
proof (induction ws)
  case Nil
  then show ?case by simp
next
  case (Cons w ws)
  have "unat w < 256 ^ 4" using unsigned_less [of w] by simp
  with Cons show ?case by simp
qed

lemma vec_decode_body:
  assumes "length (veVector e) = veDim e" and "length (veModel e) < 65536" and "veDim e < 65536"
  shows "vec_decodeEntry (vec_body e) = Inr e"
proof -
  have l: "length (concat (map (\<lambda>w. le_bytes 4 (unat w)) ws)) = 4 * length ws" for ws :: "f32 list"
    by (induction ws) auto
  have "le_words (veDim e) (concat (map (\<lambda>w. le_bytes 4 (unat w)) (veVector e))) = veVector e"
    using le_words_bytes [of "veVector e"] assms(1) by simp
  then show ?thesis
    using assms by (simp add: vec_decodeEntry_def vec_body_def Let_def l)
qed

definition vec_line :: "vsealer \<Rightarrow> byte list \<Rightarrow> ventry \<Rightarrow> bool" where
  "vec_line s l e \<longleftrightarrow> vec_ok s e \<and> (\<exists>n. vec_encodeEntry s n e = Inr l)"

lemma vec_line_encode:
  assumes "vec_ok s e"
  obtains l where "vec_encodeEntry s n e = Inr l" "vec_line s l e"
proof -
  obtain b where "vsSeal s n (vec_body e) = Inr b" using assms by (auto simp: vec_ok_def)
  then have "vec_encodeEntry s n e = Inr (le_bytes 4 (length b) @ b)"
    using assms by (simp add: vec_encodeEntry_def vec_ok_def)
  moreover from this have "vec_line s (le_bytes 4 (length b) @ b) e"
    using assms by (auto simp: vec_line_def)
  ultimately show thesis by (rule that)
qed

lemma vec_lineE:
  assumes "vec_line s l e"
  obtains b where "l = le_bytes 4 (length b) @ b" "vsOpen s b = Inr (vec_body e)" "0 < length b"
    "length b < 2 ^ 32" "vec_decodeEntry (vec_body e) = Inr e"
proof -
  from assms obtain n where n: "vec_encodeEntry s n e = Inr l" and ok: "vec_ok s e"
    by (auto simp: vec_line_def)
  from ok obtain b where b: "vsSeal s n (vec_body e) = Inr b" "vsOpen s b = Inr (vec_body e)"
    "0 < length b" "length b < 2 ^ 32" by (auto simp: vec_ok_def)
  have "l = le_bytes 4 (length b) @ b"
    using n b ok by (simp add: vec_encodeEntry_def vec_ok_def)
  moreover have "vec_decodeEntry (vec_body e) = Inr e"
    using ok by (intro vec_decode_body) (auto simp: vec_ok_def)
  ultimately show thesis using b that by blast
qed

lemma vec_read_line:
  assumes "vec_line s l e"
  shows "vec_read s (l @ rest) = e # vec_read s rest"
proof -
  from assms obtain b where b: "l = le_bytes 4 (length b) @ b" "vsOpen s b = Inr (vec_body e)"
    "0 < length b" "length b < 2 ^ 32" "vec_decodeEntry (vec_body e) = Inr e"
    by (rule vec_lineE)
  have "length b mod 256 ^ 4 = length b" using b(4) by simp
  with b show ?thesis by (subst vec_read.simps) (simp add: Let_def)
qed

lemma vec_read_torn:
  assumes "vec_line s l e" and "k < length l"
  shows "vec_read s (take k l) = []"
proof -
  from assms obtain b where b: "l = le_bytes 4 (length b) @ b" "length b < 2 ^ 32"
    by (metis vec_lineE)
  show ?thesis
  proof (cases "k < 4")
    case True
    then show ?thesis using b(1) by (subst vec_read.simps) simp
  next
    case False
    then have "take k l = le_bytes 4 (length b) @ take (k - 4) b" using b(1) by simp
    moreover have "k - 4 < length b" using assms(2) b(1) False by simp
    moreover have "length b mod 256 ^ 4 = length b" using b(2) by simp
    ultimately show ?thesis by (subst vec_read.simps) (simp add: Let_def)
  qed
qed

definition vec_file :: "vsealer \<Rightarrow> byte list \<Rightarrow> ventry list \<Rightarrow> bool" where
  "vec_file s raw es \<longleftrightarrow> (\<exists>ls. raw = concat ls \<and> list_all2 (vec_line s) ls es)"

lemma vec_file_Nil [simp]: "vec_file s [] []"
  by (auto simp: vec_file_def intro: exI [of _ "[]"])

lemma vec_file_append:
  assumes "vec_file s raw es" and "vec_line s l e"
  shows "vec_file s (raw @ l) (es @ [e])"
proof -
  from assms(1) obtain ls where "raw = concat ls" "list_all2 (vec_line s) ls es"
    by (auto simp: vec_file_def)
  then have "raw @ l = concat (ls @ [l])" "list_all2 (vec_line s) (ls @ [l]) (es @ [e])"
    using assms(2) by (auto intro: list_all2_appendI)
  then show ?thesis unfolding vec_file_def by blast
qed

lemma vec_read_file: "vec_file s raw es \<Longrightarrow> vec_read s (raw @ rest) = es @ vec_read s rest"
proof -
  have "list_all2 (vec_line s) ls es \<Longrightarrow> vec_read s (concat ls @ rest) = es @ vec_read s rest" for ls
    by (induction rule: list_all2_induct) (auto simp: vec_read_line)
  then show "vec_file s raw es \<Longrightarrow> vec_read s (raw @ rest) = es @ vec_read s rest"
    by (auto simp: vec_file_def)
qed

lemma vec_read_Nil [simp]: "vec_read s [] = []"
  by (subst vec_read.simps) simp

lemma vec_read_exact: "vec_file s raw es \<Longrightarrow> vec_read s raw = es"
  using vec_read_file [of s raw es "[]"] by simp

text \<open>Appending writes one line per entry, up to the first write that fails.\<close>

lemma append_lines_ok:
  assumes "append_lines s io i es st = (Inr u, st')" and "\<forall>e \<in> set es. vec_ok s e"
    and "vec_file s (vtDelta st) ds"
  shows "vec_file s (vtDelta st') (ds @ es) \<and> vtBase st' = vtBase st"
  using assms
proof (induction s io i es st arbitrary: ds rule: append_lines.induct)
  case (1 s io i st)
  then show ?case by simp
next
  case (2 s io i e es st)
  obtain l where l: "vec_encodeEntry s (vtRand st) e = Inr l" "vec_line s l e"
    using vec_line_encode [of s e "vtRand st"] "2.prems"(2) by auto
  have nf: "\<not> ioFails io (OpWriteDelta i)" using "2.prems"(1) l(1) by (auto simp: Let_def)
  let ?st = "st\<lparr> vtRand := Suc (vtRand st), vtDelta := vtDelta st @ l,
    vtDeltaBytes := vtDeltaBytes st + int (length l), vtWritten := vtWritten st + int (length l) \<rparr>"
  have "append_lines s io (Suc i) es ?st = (Inr u, st')"
    using "2.prems"(1) l(1) nf by (simp add: Let_def)
  moreover have "vec_file s (vtDelta ?st) (ds @ [e])"
    using vec_file_append [OF "2.prems"(3) l(2)] by simp
  ultimately show ?case
    using "2.IH" [OF refl l(1) nf, of "ds @ [e]"] "2.prems"(2) by simp
qed

lemma append_lines_torn:
  assumes "append_lines s io i es st = (Inl err, st')" and "\<forall>e \<in> set es. vec_ok s e"
    and "vec_file s (vtDelta st) ds" and "\<forall>n e l. vec_encodeEntry s n e = Inr l \<longrightarrow> ioTorn io < length l"
  shows "\<exists>j < length es. vec_read s (vtDelta st') = ds @ take j es \<and> vtBase st' = vtBase st"
  using assms
proof (induction s io i es st arbitrary: ds rule: append_lines.induct)
  case (1 s io i st)
  then show ?case by simp
next
  case (2 s io i e es st)
  obtain l where l: "vec_encodeEntry s (vtRand st) e = Inr l" "vec_line s l e"
    using vec_line_encode [of s e "vtRand st"] "2.prems"(2) by auto
  show ?case
  proof (cases "ioFails io (OpWriteDelta i)")
    case True
    then have "vtDelta st' = vtDelta st @ take (ioTorn io) l" "vtBase st' = vtBase st"
      using "2.prems"(1) l(1) by (auto simp: Let_def)
    moreover have "ioTorn io < length l" using "2.prems"(4) l(1) by blast
    ultimately have "vec_read s (vtDelta st') = ds @ take 0 (e # es) \<and> vtBase st' = vtBase st"
      using vec_read_file [OF "2.prems"(3)] vec_read_torn [OF l(2)] by simp
    then show ?thesis by blast
  next
    case False
    let ?st = "st\<lparr> vtRand := Suc (vtRand st), vtDelta := vtDelta st @ l,
      vtDeltaBytes := vtDeltaBytes st + int (length l), vtWritten := vtWritten st + int (length l) \<rparr>"
    have "append_lines s io (Suc i) es ?st = (Inl err, st')"
      using "2.prems"(1) l(1) False by (simp add: Let_def)
    moreover have "vec_file s (vtDelta ?st) (ds @ [e])"
      using vec_file_append [OF "2.prems"(3) l(2)] by simp
    ultimately obtain j where "j < length es"
      "vec_read s (vtDelta st') = (ds @ [e]) @ take j es \<and> vtBase st' = vtBase ?st"
      using "2.IH" [OF refl l(1) False, of "ds @ [e]"] "2.prems"(2,4) by auto
    then have "Suc j < length (e # es)"
      "vec_read s (vtDelta st') = ds @ take (Suc j) (e # es) \<and> vtBase st' = vtBase st" by simp_all
    then show ?thesis by blast
  qed
qed

lemma write_base_file:
  assumes "write_base s io i es r buf = (Inr raw, r')" and "\<forall>e \<in> set es. vec_ok s e"
    and "vec_file s buf ds"
  shows "vec_file s raw (ds @ es)"
  using assms
proof (induction s io i es r buf arbitrary: ds rule: write_base.induct)
  case (1 s io i r buf)
  then show ?case by simp
next
  case (2 s io i e es r buf)
  obtain l where l: "vec_encodeEntry s r e = Inr l" "vec_line s l e"
    using vec_line_encode [of s e r] "2.prems"(2) by auto
  have nf: "\<not> ioFails io (OpWritePending i)" using "2.prems"(1) l(1) by auto
  have "write_base s io (Suc i) es (Suc r) (buf @ l) = (Inr raw, r')"
    using "2.prems"(1) l(1) nf by simp
  then show ?case
    using "2.IH" [OF l(1) nf, of "ds @ [e]"] vec_file_append [OF "2.prems"(3) l(2)] "2.prems"(2) by simp
qed

section \<open>The store as an entry log\<close>

definition base_raw :: "vstore \<Rightarrow> byte list" where
  "base_raw st = (case vtBase st of None \<Rightarrow> [] | Some raw \<Rightarrow> raw)"

definition vt_ok :: "vsealer \<times> vstore \<Rightarrow> bool" where
  "vt_ok = (\<lambda>(s, st). \<exists>bs ds. vec_file s (base_raw st) bs \<and> vec_file s (vtDelta st) ds)"

definition vt_held :: "vsealer \<times> vstore \<Rightarrow> ventry list" where
  "vt_held = (\<lambda>(s, st). vec_read s (base_raw st) @ vec_read s (vtDelta st))"

definition vt_appended :: "ventry list \<Rightarrow> vsealer \<times> vstore \<Rightarrow> vsealer \<times> vstore \<Rightarrow> bool" where
  "vt_appended es d d' \<longleftrightarrow> fst d' = fst d \<and> (\<forall>e \<in> set es. vec_ok (fst d) e)
     \<and> (\<exists>io. Store_Append (fst d) io es (snd d) = (Inr (), snd d'))"

definition vt_compacted :: "ventry list \<Rightarrow> vsealer \<times> vstore \<Rightarrow> vsealer \<times> vstore \<Rightarrow> bool" where
  "vt_compacted es d d' \<longleftrightarrow> fst d' = fst d \<and> (\<forall>e \<in> set es. vec_ok (fst d) e)
     \<and> (\<exists>io r. Store_Compact (fst d) io es (snd d) = (r, snd d'))"

lemma Store_Compact_disk:
  assumes "\<forall>e \<in> set es. vec_ok s e" and "Store_Compact s io es st = (r, st')"
  shows "(vtBase st' = vtBase st \<and> vtDelta st' = vtDelta st)
     \<or> (\<exists>raw. vec_file s raw es \<and> vtBase st' = Some raw \<and> (vtDelta st' = vtDelta st \<or> vtDelta st' = []))"
proof (cases "ioFails io OpOpenPending")
  case True
  then show ?thesis using assms(2) by (simp add: Store_Compact_def)
next
  case False
  obtain w n where wb: "write_base s io 0 es (vtRand st) [] = (w, n)" by fastforce
  show ?thesis
  proof (cases w)
    case (Inl err)
    then show ?thesis using assms(2) wb False by (auto simp: Store_Compact_def)
  next
    case (Inr raw)
    have "vec_file s raw es"
      using write_base_file [OF wb [unfolded Inr] assms(1) vec_file_Nil] by simp
    then show ?thesis
      using assms(2) wb Inr False by (auto simp: Store_Compact_def Let_def split: if_splits)
  qed
qed

interpretation vectors: entry_log veID "\<lambda>e. \<not> Removed e" vt_ok vt_held vt_appended vt_compacted
proof unfold_locales
  fix d d' es
  assume "vt_ok d" and app: "vt_appended es d d'"
  then obtain s st bs ds where d: "d = (s, st)" "vec_file s (base_raw st) bs" "vec_file s (vtDelta st) ds"
    by (cases d) (auto simp: vt_ok_def)
  from app d obtain io st' where d': "d' = (s, st')" and ok: "\<forall>e \<in> set es. vec_ok s e"
    and A: "Store_Append s io es st = (Inr (), st')"
    by (cases d') (auto simp: vt_appended_def)
  have "vec_file s (vtDelta st') (ds @ es) \<and> vtBase st' = vtBase st"
  proof (cases "es = []")
    case True
    then show ?thesis using A d(3) by (simp add: Store_Append_def)
  next
    case False
    then have "append_lines s io 0 es st = (Inr (), st')"
      using A by (auto simp: Store_Append_def split: prod.splits sum.splits if_splits)
    then show ?thesis by (rule append_lines_ok [OF _ ok d(3)])
  qed
  then have "vec_file s (vtDelta st') (ds @ es)" "base_raw st' = base_raw st"
    by (simp_all add: base_raw_def)
  then show "vt_ok d' \<and> vt_held d' = vt_held d @ es"
    using d d' by (auto simp: vt_ok_def vt_held_def vec_read_exact)
next
  fix d d' es
  assume "vt_ok d" and comp: "vt_compacted es d d'"
  then obtain s st bs ds where d: "d = (s, st)" "vec_file s (base_raw st) bs" "vec_file s (vtDelta st) ds"
    by (cases d) (auto simp: vt_ok_def)
  from comp d obtain io r st' where d': "d' = (s, st')" and ok: "\<forall>e \<in> set es. vec_ok s e"
    and C: "Store_Compact s io es st = (r, st')"
    by (cases d') (auto simp: vt_compacted_def)
  from Store_Compact_disk [OF ok C] consider
      "vtBase st' = vtBase st" "vtDelta st' = vtDelta st"
    | raw where "vec_file s raw es" "vtBase st' = Some raw" "vtDelta st' = vtDelta st"
    | raw where "vec_file s raw es" "vtBase st' = Some raw" "vtDelta st' = []"
    by blast
  then show "vt_ok d' \<and> (vt_held d' = vt_held d
      \<or> (\<exists>ls. suffix ls (vt_held d) \<and> vt_held d' = es @ ls))"
  proof cases
    case 1
    then have "base_raw st' = base_raw st" by (simp add: base_raw_def)
    with 1 d d' show ?thesis by (auto simp: vt_ok_def vt_held_def)
  next
    case 2
    then have "vec_file s (base_raw st') es" by (simp add: base_raw_def)
    moreover have "suffix ds (vt_held d)" using d by (simp add: vt_held_def vec_read_exact suffixI)
    ultimately show ?thesis
      using 2 d d' by (auto simp: vt_ok_def vt_held_def vec_read_exact)
  next
    case 3
    then have b: "vec_file s (base_raw st') es" by (simp add: base_raw_def)
    have "vt_held d' = es @ []" using 3 d' by (simp add: vt_held_def vec_read_exact [OF b])
    moreover have "vec_file s (vtDelta st') []" using 3 by simp
    then have "vt_ok d'" using b d' unfolding vt_ok_def by blast
    moreover have "suffix [] (vt_held d)" by simp
    ultimately show ?thesis by blast
  qed
qed

text \<open>The positions and the list of a hydration are the map and the order of a replay.\<close>

definition hyd_rel :: "(recid \<rightharpoonup> nat) \<times> ventry list \<Rightarrow> (recid, ventry) view \<Rightarrow> bool" where
  "hyd_rel = (\<lambda>(seen, out) (m, ord). out = listing (m, ord) \<and> view_wf veID (m, ord)
     \<and> (\<forall>i. seen i = index_of (\<lambda>j. j = i) ord))"

lemma hydrate_put_rel:
  assumes "hyd_rel (seen, out) (m, ord)"
  shows "hyd_rel (hydrate_put e (seen, out)) (put_entry veID e (m, ord))"
proof -
  have r: "out = map (\<lambda>k. the (m k)) ord" "dom m = set ord" "distinct ord"
    "\<And>i. seen i = index_of (\<lambda>j. j = i) ord"
    using assms by (auto simp: hyd_rel_def listing_def view_wf_def)
  have wf: "view_wf veID (put_entry veID e (m, ord))"
    using assms by (intro view_wf_put) (simp add: hyd_rel_def)
  show ?thesis
  proof (cases "seen (veID e)")
    case None
    then have new: "veID e \<notin> set ord"
      using r(4) [of "veID e"] index_of_None [of "\<lambda>j. j = veID e" ord] by auto
    then have mn: "m (veID e) = None" using r(2) by auto
    have "index_of (\<lambda>j. j = i) (ord @ [veID e]) = (seen(veID e \<mapsto> length out)) i" for i
      using None r(1) by (simp add: index_of_snoc r(4) [symmetric] split: option.split)
    then show ?thesis
      using None wf mn new r(1)
      by (auto simp: hyd_rel_def hydrate_put_def put_entry_def listing_def)
  next
    case (Some p)
    then have p: "p < length ord" "ord ! p = veID e" using r(4) index_of_eq by metis+
    then have "veID e \<in> set ord" using nth_mem by metis
    then have mn: "m (veID e) \<noteq> None" using r(2) by auto
    have "out[p := e] = map (\<lambda>k. the ((m(veID e \<mapsto> e)) k)) ord"
    proof (rule nth_equalityI)
      fix n assume "n < length (out[p := e])"
      then have n: "n < length ord" using r(1) by simp
      have "ord ! n = veID e \<longleftrightarrow> n = p" using p n r(3) by (metis nth_eq_iff_index_eq)
      then show "out[p := e] ! n = map (\<lambda>k. the ((m(veID e \<mapsto> e)) k)) ord ! n"
        using n r(1) by (simp add: nth_list_update)
    qed (simp add: r(1))
    then show ?thesis
      using Some wf mn r(4) by (auto simp: hyd_rel_def hydrate_put_def put_entry_def listing_def)
  qed
qed

lemma hydrate_all_rel:
  "hyd_rel h v \<Longrightarrow> hyd_rel (foldl (\<lambda>v e. hydrate_put e v) h es) (replay veID es v)"
proof (induction es arbitrary: h v)
  case (Cons e es)
  then have "hyd_rel (hydrate_put e h) (put_entry veID e v)"
    using hydrate_put_rel by (metis surj_pair)
  with Cons.IH show ?case by simp
qed simp

lemma Store_Hydrate_records: "Store_Hydrate s st = vectors.records (s, st)"
proof -
  let ?b = "case vtBase st of None \<Rightarrow> [] | Some raw \<Rightarrow> vec_read s raw"
  have b: "?b = vec_read s (base_raw st)" by (auto simp: base_raw_def split: option.split)
  have "hyd_rel (Map.empty, []) (Map.empty, [])" by (simp add: hyd_rel_def listing_def)
  then have "hyd_rel (foldl (\<lambda>v e. hydrate_put e v) (Map.empty, []) (?b @ vec_read s (vtDelta st)))
      (replay veID (?b @ vec_read s (vtDelta st)) (Map.empty, []))"
    by (rule hydrate_all_rel)
  moreover have "vt_held (s, st) = ?b @ vec_read s (vtDelta st)" by (simp add: vt_held_def b)
  then have "vectors.records (s, st) = filter (\<lambda>e. \<not> Removed e)
      (listing (replay veID (?b @ vec_read s (vtDelta st)) (Map.empty, [])))"
    by (simp only: vectors.records_def vectors.view_def)
  ultimately show ?thesis
    by (simp add: Store_Hydrate_def Let_def hyd_rel_def case_prod_unfold)
qed

lemma hydrated_ok:
  assumes "vt_ok (s, st)" and "e \<in> set (Store_Hydrate s st)"
  shows "vec_ok s e"
proof -
  from assms(1) obtain bs ds where d: "vec_file s (base_raw st) bs" "vec_file s (vtDelta st) ds"
    by (auto simp: vt_ok_def)
  have infile: "vec_file s raw es \<Longrightarrow> x \<in> set es \<Longrightarrow> vec_ok s x" for raw es x
    by (auto simp: vec_file_def list_all2_conv_all_nth vec_line_def in_set_conv_nth)
  have "e \<in> set (listing (vectors.view (s, st)))"
    using assms(2) by (simp add: Store_Hydrate_records vectors.records_def)
  then have "fst (vectors.view (s, st)) (veID e) = Some e"
    using in_listing [of veID "fst (vectors.view (s, st))" "snd (vectors.view (s, st))"]
      vectors.view_wf [of "(s, st)"] by simp
  then have "e \<in> set (vt_held (s, st))"
    using map_of_last [of veID "vt_held (s, st)" "veID e" e]
      fst_replay [of veID "vt_held (s, st)" "(Map.empty, [])"] by (simp add: vectors.view_def)
  then show ?thesis using d infile by (auto simp: vt_held_def vec_read_exact)
qed

section \<open>Properties of the store\<close>

text \<open>A sealer that adds one byte.\<close>

definition demo_vsealer :: vsealer where
  "demo_vsealer = \<lparr> vsSeal = (\<lambda>n p. Inr (1 # p)), vsOpen = (\<lambda>b. Inr (tl b)) \<rparr>"

definition demo_ventry :: ventry where
  "demo_ventry = \<lparr> veID = 7, veModel = ''m'', veDim = 1, veVector = [0x3F800000] \<rparr>"

definition empty_store :: vstore where
  "empty_store = \<lparr> vtBase = None, vtDelta = [], vtBaseBytes = 0, vtDeltaBytes = 0, vtWritten = 0,
     vtCompactions = 0, vtRand = 0 \<rparr>"

lemma demo_vec_ok: "vec_ok demo_vsealer demo_ventry" "vec_ok demo_vsealer (Removal 7)"
  by (simp_all add: vec_ok_def demo_vsealer_def demo_ventry_def vec_body_def Removal_def)

lemma empty_store_ok: "vt_ok (s, empty_store)"
proof -
  have "base_raw empty_store = []" "vtDelta empty_store = []"
    by (simp_all add: empty_store_def base_raw_def)
  then show ?thesis
    unfolding vt_ok_def prod.case by (metis vec_file_Nil)
qed

lemma empty_store_hydrate: "Store_Hydrate s empty_store = []"
  by (simp add: Store_Hydrate_def empty_store_def Let_def)

lemma demo_append: "\<exists>st. Store_Append demo_vsealer io_ok [demo_ventry] empty_store = (Inr (), st)"
  by (simp add: Store_Append_def vec_encodeEntry_def demo_vsealer_def demo_ventry_def io_ok_def Let_def)

text \<open>A vector read back is the vector written, bit for bit: decoding the body of an entry
  gives the entry, for model names and widths that fit their sixteen bit fields.\<close>

lemma vec_entry_roundtrip:
  assumes "length (veVector e) = veDim e" and "length (veModel e) < 65536" and "veDim e < 65536"
  shows "vec_decodeEntry (vec_body e) = Inr e"
  using vec_decode_body [OF assms] .

text \<open>What an append does to the vectors a restart finds: exactly the appended entries that are
  not removals, and every earlier vector whose record was not named; in particular a removal
  forgets its record's vector and no other.\<close>

lemma Store_Append_hydrates:
  assumes "vt_ok (s, st)" and "\<forall>e \<in> set es. vec_ok s e" and "distinct (map veID es)"
    and "Store_Append s io es st = (Inr (), st')"
  shows "vt_ok (s, st') \<and> set (Store_Hydrate s st') = {e \<in> set es. \<not> Removed e}
    \<union> {e \<in> set (Store_Hydrate s st). veID e \<notin> veID ` set es}"
proof -
  have a: "vt_appended es (s, st) (s, st')" using assms(2,4) by (auto simp: vt_appended_def)
  from vectors.appended_held [OF assms(1) a] vectors.records_appended [OF assms(1) a assms(3)]
  show ?thesis by (simp add: Store_Hydrate_records)
qed

text \<open>C12. Folding the deltas into a new base changes nothing a restart finds: with the entries that
  hydration returned, compaction stopped by the failure of any of its file operations leaves
  files that hydrate to the same list.\<close>

theorem Store_Compact_crash_safe:
  assumes "vt_ok (s, st)" and "Store_Compact s io (Store_Hydrate s st) st = (r, st')"
  shows "vt_ok (s, st') \<and> Store_Hydrate s st' = Store_Hydrate s st"
proof -
  have c: "vt_compacted (vectors.records (s, st)) (s, st) (s, st')"
    using assms hydrated_ok [OF assms(1)] by (auto simp: vt_compacted_def Store_Hydrate_records)
  from vectors.compacted_held [OF assms(1) c] vectors.records_compacted [OF assms(1) c]
  show ?thesis by (simp add: Store_Hydrate_records)
qed

theorem Store_Compact_crash_safe_witness:
  "\<exists>st r st'. Store_Append demo_vsealer io_ok [demo_ventry] empty_store = (Inr (), st)
     \<and> Store_Compact demo_vsealer (io_ok\<lparr> ioFails := (\<lambda>p. p = OpTruncate) \<rparr>)
          (Store_Hydrate demo_vsealer st) st = (r, st')
     \<and> Store_Hydrate demo_vsealer st' = Store_Hydrate demo_vsealer st"
proof -
  obtain st where st: "Store_Append demo_vsealer io_ok [demo_ventry] empty_store = (Inr (), st)"
    using demo_append by blast
  have "vt_ok (demo_vsealer, st)"
    using Store_Append_hydrates [OF empty_store_ok _ _ st] demo_vec_ok(1) by auto
  moreover obtain r st' where c: "Store_Compact demo_vsealer (io_ok\<lparr> ioFails := (\<lambda>p. p = OpTruncate) \<rparr>)
      (Store_Hydrate demo_vsealer st) st = (r, st')" by fastforce
  ultimately have "Store_Hydrate demo_vsealer st' = Store_Hydrate demo_vsealer st"
    using Store_Compact_crash_safe by blast
  with st c show ?thesis by blast
qed

text \<open>A write torn by a crash costs at most the entries from the torn one on: what was on disk
  before, and the entries of the same call already written, still hydrate.\<close>

lemma Store_Append_torn:
  assumes "vt_ok (s, st)" and "\<forall>e \<in> set es. vec_ok s e" and "Store_Append s io es st = (Inl err, st')"
    and "\<not> ioFails io OpSyncLog" and "\<forall>n e l. vec_encodeEntry s n e = Inr l \<longrightarrow> ioTorn io < length l"
  shows "\<exists>j < length es. vt_held (s, st') = vt_held (s, st) @ take j es"
proof -
  obtain bs ds where d: "vec_file s (base_raw st) bs" "vec_file s (vtDelta st) ds"
    using assms(1) by (auto simp: vt_ok_def)
  have "append_lines s io 0 es st = (Inl err, st')"
    using assms(3,4) by (auto simp: Store_Append_def split: prod.splits sum.splits if_splits)
  from append_lines_torn [OF this assms(2) d(2) assms(5)] obtain j where
    j: "j < length es" "vec_read s (vtDelta st') = ds @ take j es" "vtBase st' = vtBase st" by blast
  then have "vt_held (s, st') = vt_held (s, st) @ take j es"
    by (simp add: vt_held_def base_raw_def vec_read_exact [OF d(2)])
  with j(1) show ?thesis by blast
qed

end
