(* ===== verification/Tables.thy ===== *)
theory Tables
  imports GoLib
begin

text \<open>
  The keyed tables of the device's SQLite database, and the statements the program runs on
  them.  A table is the list of its rows in row order, each with its primary key; a statement
  is a function on it.  SQLite runs each statement whole or not at all, so a statement that
  fails leaves its table as it was and is not written here.  What the stores rely on is a
  contract, the locale \<open>keyed_table\<close>: lookups after an insert-or-update, a delete and a bulk
  update, and primary keys that stay unique.
\<close>

type_synonym ('k, 'r) table = "('k \<times> 'r) list"

text \<open>\<open>SELECT ... WHERE key = ?\<close>\<close>

definition row_of :: "('k, 'r) table \<Rightarrow> 'k \<Rightarrow> 'r option" where
  "row_of t k = map_of t k"

definition keys_of :: "('k, 'r) table \<Rightarrow> 'k list" where
  "keys_of t = map fst t"

text \<open>\<open>INSERT ... ON CONFLICT(key) DO UPDATE SET\<close>: a new row at the end, or a change in place.\<close>

fun upsert :: "'k \<Rightarrow> 'r \<Rightarrow> ('r \<Rightarrow> 'r) \<Rightarrow> ('k, 'r) table \<Rightarrow> ('k, 'r) table" where
  "upsert k r upd [] = [(k, r)]"
| "upsert k r upd ((k', r') # t) =
     (if k' = k then (k', upd r') # t else (k', r') # upsert k r upd t)"

text \<open>\<open>DELETE ... WHERE key = ?\<close> and \<open>UPDATE ... SET ... WHERE\<close>\<close>

definition delete_row :: "'k \<Rightarrow> ('k, 'r) table \<Rightarrow> ('k, 'r) table" where
  "delete_row k t = filter (\<lambda>(k', r). k' \<noteq> k) t"

definition update_where :: "('k \<Rightarrow> 'r \<Rightarrow> bool) \<Rightarrow> ('r \<Rightarrow> 'r) \<Rightarrow> ('k, 'r) table \<Rightarrow> ('k, 'r) table" where
  "update_where p f t = map (\<lambda>(k, r). (k, if p k r then f r else r)) t"

text \<open>\<open>SELECT ... WHERE\<close>, and the number of rows a condition holds for.\<close>

definition select_where :: "('k \<Rightarrow> 'r \<Rightarrow> bool) \<Rightarrow> ('k, 'r) table \<Rightarrow> ('k, 'r) table" where
  "select_where p t = filter (\<lambda>(k, r). p k r) t"

definition count_where :: "('k \<Rightarrow> 'r \<Rightarrow> bool) \<Rightarrow> ('k, 'r) table \<Rightarrow> nat" where
  "count_where p t = length (select_where p t)"

definition table_ok :: "('k, 'r) table \<Rightarrow> bool" where
  "table_ok t = distinct (keys_of t)"

section \<open>The laws of a statement\<close>

lemma keys_of_simps [simp]: "keys_of [] = []" "keys_of ((k, r) # t) = k # keys_of t"
  by (simp_all add: keys_of_def)

lemma row_of_upsert [simp, table_simps]:
  "row_of (upsert k r upd t) j =
     (if j = k then Some (case row_of t k of None \<Rightarrow> r | Some r' \<Rightarrow> upd r') else row_of t j)"
  by (induction t) (auto simp: row_of_def)

lemma row_of_delete [simp, table_simps]:
  "row_of (delete_row k t) j = (if j = k then None else row_of t j)"
  by (induction t) (auto simp: row_of_def delete_row_def)

lemma row_of_update [simp, table_simps]:
  "row_of (update_where p f t) k = map_option (\<lambda>r. if p k r then f r else r) (row_of t k)"
  by (induction t) (auto simp: row_of_def update_where_def)

lemma row_of_Nil [simp]: "row_of [] k = None"
  by (simp add: row_of_def)

lemma row_of_Cons: "row_of ((k, r) # t) j = (if j = k then Some r else row_of t j)"
  by (simp add: row_of_def)

lemma keys_upsert:
  "keys_of (upsert k r upd t) = (if k \<in> set (keys_of t) then keys_of t else keys_of t @ [k])"
  by (induction t) auto

lemma keys_delete [simp]: "keys_of (delete_row k t) = filter (\<lambda>j. j \<noteq> k) (keys_of t)"
  by (induction t) (auto simp: keys_of_def delete_row_def)

lemma keys_update [simp]: "keys_of (update_where p f t) = keys_of t"
  by (induction t) (auto simp: keys_of_def update_where_def)

lemma set_keys_upsert [simp]: "set (keys_of (upsert k r upd t)) = insert k (set (keys_of t))"
  by (auto simp: keys_upsert)

lemma table_ok_simps [simp]:
  "table_ok []"
  "table_ok t \<Longrightarrow> table_ok (upsert k r upd t)"
  "table_ok t \<Longrightarrow> table_ok (delete_row k t)"
  "table_ok (update_where p f t) = table_ok t"
  by (simp_all add: table_ok_def keys_upsert)

lemma table_ok_select: "table_ok t \<Longrightarrow> table_ok (select_where p t)"
  by (auto simp: table_ok_def select_where_def keys_of_def intro: distinct_map_filter)

lemma row_of_keys: "(row_of t k = None) = (k \<notin> set (keys_of t))"
  by (auto simp: row_of_def keys_of_def map_of_eq_None_iff)

lemma mem_keys: "k \<in> set (keys_of t) \<longleftrightarrow> row_of t k \<noteq> None"
  by (simp add: row_of_keys)

lemma row_of_mem: "table_ok t \<Longrightarrow> (k, r) \<in> set t \<longleftrightarrow> row_of t k = Some r"
  by (simp add: table_ok_def keys_of_def row_of_def)

lemma row_of_in: "row_of t k = Some r \<Longrightarrow> (k, r) \<in> set t"
  by (simp add: row_of_def map_of_SomeD)

lemma row_of_select:
  "table_ok t \<Longrightarrow> row_of (select_where p t) k =
     (case row_of t k of None \<Rightarrow> None | Some r \<Rightarrow> if p k r then Some r else None)"
  by (induction t)
     (auto simp: table_ok_def keys_of_def select_where_def row_of_def map_of_eq_None_iff
        split: option.splits)

lemma set_upsert_fresh:
  "k \<notin> set (keys_of t) \<Longrightarrow> upsert k r upd t = t @ [(k, r)]"
  by (induction t) (auto simp: keys_of_def)

lemma length_upsert:
  "length (upsert k r upd t) = (if k \<in> set (keys_of t) then length t else Suc (length t))"
  by (induction t) auto

section \<open>The contract of a keyed table\<close>

text \<open>
  What the stores promise about one table: reading back, and that nothing else moves.  A store
  gives its own \<open>put\<close> (which row an insert makes, and what a conflict does to the row there).
\<close>

locale keyed_table =
  fixes look :: "'t \<Rightarrow> 'k \<Rightarrow> 'r option"
    and put :: "'k \<Rightarrow> 'v \<Rightarrow> 't \<Rightarrow> 't"
    and forget :: "'k \<Rightarrow> 't \<Rightarrow> 't"
    and fresh :: "'v \<Rightarrow> 'r" and onto :: "'v \<Rightarrow> 'r \<Rightarrow> 'r"
    and ok :: "'t \<Rightarrow> bool" and rows :: "'t \<Rightarrow> nat"
  assumes look_put: "look (put k v t) j =
      (if j = k then Some (case look t k of None \<Rightarrow> fresh v | Some r \<Rightarrow> onto v r) else look t j)"
    and look_forget: "look (forget k t) j = (if j = k then None else look t j)"
    and ok_put: "ok t \<Longrightarrow> ok (put k v t)"
    and ok_forget: "ok t \<Longrightarrow> ok (forget k t)"
    and rows_put: "ok t \<Longrightarrow> rows (put k v t) = rows t + (if look t k = None then 1 else 0)"
    and rows_forget: "ok t \<Longrightarrow> rows (forget k t) = rows t - (if look t k = None then 0 else 1)"
begin

lemma put_keeps_others: "j \<noteq> k \<Longrightarrow> look (put k v t) j = look t j"
  by (simp add: look_put)

lemma put_found: "look (put k v t) k \<noteq> None"
  by (simp add: look_put)

lemma forget_put: "look (forget k (put k v t)) j = look (forget k t) j"
  by (simp add: look_put look_forget)

lemma forget_idempotent: "look (forget k (forget k t)) j = look (forget k t) j"
  by (simp add: look_forget)

lemma puts_commute:
  "j \<noteq> k \<Longrightarrow> look (put k v (put j w t)) i = look (put j w (put k v t)) i"
  by (auto simp: look_put)

lemma rows_put_twice:
  assumes "ok t" shows "rows (put k w (put k v t)) = rows (put k v t)"
  using rows_put [OF ok_put [OF assms]] put_found by simp

end

lemma length_delete_row:
  assumes "table_ok t"
  shows "length (delete_row k t) = length t - (if row_of t k = None then 0 else 1)"
proof -
  have none: "k \<notin> set (keys_of s) \<Longrightarrow> delete_row k s = s" for s :: "('a, 'b) table"
    by (induction s) (auto simp: delete_row_def)
  show ?thesis using assms
  proof (induction t)
    case Nil
    then show ?case by (simp add: delete_row_def)
  next
    case (Cons x t)
    obtain j r where x: "x = (j, r)" by (cases x)
    have ok: "table_ok t" "j \<notin> set (keys_of t)" using Cons.prems x by (auto simp: table_ok_def keys_of_def)
    show ?case
    proof (cases "j = k")
      case True
      have "delete_row k (x # t) = delete_row k t" using True x by (simp add: delete_row_def)
      then show ?thesis using none [of t] ok True x by (simp add: row_of_Cons)
    next
      case False
      have "delete_row k (x # t) = x # delete_row k t" using False x by (simp add: delete_row_def)
      moreover have "row_of t k \<noteq> None \<Longrightarrow> 0 < length t" by (cases t) auto
      ultimately show ?thesis using Cons.IH [OF ok(1)] False x by (auto simp: row_of_Cons)
    qed
  qed
qed

lemma keyed_table_upsert:
  "keyed_table row_of (\<lambda>k v. upsert k (fresh v) (onto v)) delete_row fresh onto table_ok length"
  by unfold_locales (auto simp: length_upsert mem_keys length_delete_row)

end
