(* ===== verification/LocalStore.thy ===== *)
theory LocalStore
  imports Tables Records "HOL-Library.Sublist"
begin

text \<open>
  Package \<open>local\<close>, the tables that hold one thing each: record bodies, vault settings, read
  statistics, the ledger of slabs, the location cache and the session heads.  An operation of
  \<open>Store\<close> is a function on the table its statement names.  Times written by the statements are
  arguments; a stored timestamp has the millisecond precision of \<open>record.At\<close>, and its
  fixed-width form orders as the times do.
\<close>

definition stamp :: "gotime \<Rightarrow> gotime" where
  "stamp t = t div 1000000 * 1000000"

lemma stamp_mono: "s \<le> t \<Longrightarrow> stamp s \<le> stamp t"
  by (simp add: stamp_def zdiv_mono1)

lemma stamp_idem [simp]: "stamp (stamp t) = stamp t"
  by (simp add: stamp_def)

lemma stamp_bounds: "stamp t \<le> t" "t < stamp t + 1000000"
  using minus_mod_eq_div_mult [of t 1000000] pos_mod_bound [of 1000000 t] pos_mod_sign [of 1000000 t]
  by (simp_all add: stamp_def)

definition not_held :: "string \<Rightarrow> 'a res" where
  "not_held what = fail [ErrLocalNotFound] what"

definition lookup_row :: "string \<Rightarrow> ('r \<Rightarrow> 'a) \<Rightarrow> 'r option \<Rightarrow> 'a res" where
  "lookup_row what f r = (case r of None \<Rightarrow> not_held what | Some x \<Rightarrow> Inr (f x))"

lemma lookup_row_simps [simp]:
  "lookup_row what f None = Inl (GoErr [ErrLocalNotFound] what)"
  "lookup_row what f (Some x) = Inr (f x)"
  by (simp_all add: lookup_row_def not_held_def)

lemma lookup_row_Inr [simp]: "lookup_row what f r = Inr y \<longleftrightarrow> (\<exists>x. r = Some x \<and> y = f x)"
  by (cases r) auto

section \<open>Bodies\<close>

record body_row =
  bKind :: kind
  bBody :: "byte list"
  bCreated :: gotime

type_synonym bodies = "(recid, body_row) table"

definition PutBody :: "gotime \<Rightarrow> recid \<Rightarrow> kind \<Rightarrow> byte list \<Rightarrow> bodies \<Rightarrow> bodies" where
  "PutBody now i k body t =
     upsert i \<lparr>bKind = k, bBody = body, bCreated = stamp now\<rparr> (\<lambda>r. r\<lparr>bBody := body\<rparr>) t"

definition GetBody :: "bodies \<Rightarrow> recid \<Rightarrow> byte list res" where
  "GetBody t i = lookup_row ''body'' bBody (row_of t i)"

definition GetRecord :: "bodies \<Rightarrow> recid \<Rightarrow> (kind \<times> byte list) res" where
  "GetRecord t i = lookup_row ''body'' (\<lambda>r. (bKind r, bBody r)) (row_of t i)"

definition ForgetBody :: "recid \<Rightarrow> bodies \<Rightarrow> bodies" where
  "ForgetBody i t = delete_row i t"

definition BodyIDsOfKind :: "bodies \<Rightarrow> kind \<Rightarrow> recid list" where
  "BodyIDsOfKind t k = map fst
     (sort_by (\<lambda>a b. bCreated (snd a) < bCreated (snd b)
                 \<or> (bCreated (snd a) = bCreated (snd b) \<and> fst a < fst b))
        (select_where (\<lambda>i r. bKind r = k) t))"

definition CountBodies :: "bodies \<Rightarrow> nat" where
  "CountBodies t = length t"

section \<open>Vault settings\<close>

type_synonym settings = "(string, string) table"

definition PutMeta :: "string \<Rightarrow> string \<Rightarrow> settings \<Rightarrow> settings" where
  "PutMeta k v t = upsert k v (\<lambda>_. v) t"

definition GetMeta :: "settings \<Rightarrow> string \<Rightarrow> string res" where
  "GetMeta t k = lookup_row ''meta'' (\<lambda>v. v) (row_of t k)"

section \<open>Read statistics\<close>

record tier_row =
  tReads :: int
  tNanos :: int
  tMisses :: int

record tier_stat =
  tsTier :: string
  tsReads :: int
  tsSpent :: int
  tsMisses :: int

type_synonym tiers = "(string, tier_row) table"

definition RecordRead :: "string \<Rightarrow> int \<Rightarrow> tiers \<Rightarrow> tiers" where
  "RecordRead tier took t = upsert tier \<lparr>tReads = 1, tNanos = took, tMisses = 0\<rparr>
     (\<lambda>r. r\<lparr>tReads := tReads r + 1, tNanos := tNanos r + took\<rparr>) t"

definition RecordMiss :: "string \<Rightarrow> tiers \<Rightarrow> tiers" where
  "RecordMiss tier t = upsert tier \<lparr>tReads = 0, tNanos = 0, tMisses = 1\<rparr>
     (\<lambda>r. r\<lparr>tMisses := tMisses r + 1\<rparr>) t"

fun str_lt :: "string \<Rightarrow> string \<Rightarrow> bool" where
  "str_lt [] [] = False"
| "str_lt [] (d # ds) = True"
| "str_lt (c # cs) [] = False"
| "str_lt (c # cs) (d # ds) = ((of_char c :: nat) < of_char d \<or> (c = d \<and> str_lt cs ds))"

definition ReadStats :: "tiers \<Rightarrow> tier_stat list" where
  "ReadStats t = map (\<lambda>(tier, r). \<lparr>tsTier = tier, tsReads = tReads r, tsSpent = tNanos r,
       tsMisses = tMisses r\<rparr>)
     (sort_by (\<lambda>a b. str_lt (fst a) (fst b)) t)"

text \<open>Go's integer division rounds towards zero.\<close>

definition go_quot :: "int \<Rightarrow> int \<Rightarrow> int" where
  "go_quot a b = sgn a * sgn b * (\<bar>a\<bar> div \<bar>b\<bar>)"

definition TierStat_Mean :: "tier_stat \<Rightarrow> int" where
  "TierStat_Mean s = (if tsReads s = 0 then 0 else go_quot (tsSpent s) (tsReads s))"

section \<open>The ledger of slabs\<close>

type_synonym slabid = string

definition SlabPinned :: string where "SlabPinned = ''pinned''"
definition SlabHydrated :: string where "SlabHydrated = ''hydrated''"

definition SlabOrigin_Releasable :: "string \<Rightarrow> bool" where
  "SlabOrigin_Releasable origin \<longleftrightarrow> origin \<noteq> SlabHydrated"

record slab_row =
  lPinnedAt :: gotime
  lRecords :: int
  lBytes :: int
  lOrigin :: string

record tracked_slab =
  tsSlabID :: slabid
  tsPinnedAt :: gotime
  tsRecords :: int
  tsBytes :: int
  tsOrigin :: string

type_synonym ledger = "(slabid, slab_row) table"

definition trackSlab :: "gotime \<Rightarrow> slabid \<Rightarrow> int \<Rightarrow> int \<Rightarrow> string \<Rightarrow> ledger \<Rightarrow> ledger" where
  "trackSlab now s records bytes origin t =
     upsert s \<lparr>lPinnedAt = stamp now, lRecords = records, lBytes = bytes, lOrigin = origin\<rparr>
       (\<lambda>r. r\<lparr>lRecords := lRecords r + records, lBytes := lBytes r + bytes,
              lOrigin := (if lOrigin r = SlabPinned \<or> origin = SlabPinned
                          then SlabPinned else SlabHydrated)\<rparr>) t"

definition TrackSlab :: "gotime \<Rightarrow> slabid \<Rightarrow> int \<Rightarrow> int \<Rightarrow> ledger \<Rightarrow> ledger" where
  "TrackSlab now s records bytes t = trackSlab now s records bytes SlabPinned t"

definition AdoptSlab :: "gotime \<Rightarrow> slabid \<Rightarrow> int \<Rightarrow> int \<Rightarrow> ledger \<Rightarrow> ledger" where
  "AdoptSlab now s records bytes t = trackSlab now s records bytes SlabHydrated t"

definition TrackedSlabs :: "ledger \<Rightarrow> tracked_slab list" where
  "TrackedSlabs t = map (\<lambda>(s, r). \<lparr>tsSlabID = s, tsPinnedAt = lPinnedAt r, tsRecords = lRecords r,
       tsBytes = lBytes r, tsOrigin = lOrigin r\<rparr>)
     (sort_by (\<lambda>a b. lPinnedAt (snd a) < lPinnedAt (snd b)) t)"

definition TakeSlabOwnership :: "ledger \<Rightarrow> nat \<times> ledger" where
  "TakeSlabOwnership t =
     (count_where (\<lambda>_ r. lOrigin r = SlabHydrated) t,
      update_where (\<lambda>_ r. lOrigin r = SlabHydrated) (\<lambda>r. r\<lparr>lOrigin := SlabPinned\<rparr>) t)"

definition ForgetSlab :: "slabid \<Rightarrow> ledger \<Rightarrow> ledger" where
  "ForgetSlab s t = delete_row s t"

section \<open>The location cache\<close>

record object_row =
  oSlabIDs :: string
  oMeta :: "byte list"
  oFetchedAt :: gotime

record slab_cache_row =
  cMeta :: "byte list"
  cFetchedAt :: gotime

record cached_location =
  clObjectRef :: string
  clSlabIDs :: "slabid list"
  clMeta :: "byte list"
  clFetchedAt :: gotime

record cached_slab =
  csSlabID :: slabid
  csMeta :: "byte list"
  csFetchedAt :: gotime

type_synonym object_cache = "(string, object_row) table"
type_synonym slab_cache = "(slabid, slab_cache_row) table"

definition PutLocation :: "gotime \<Rightarrow> string \<Rightarrow> slabid list \<Rightarrow> byte list \<Rightarrow> object_cache \<Rightarrow> object_cache" where
  "PutLocation now ref slabs meta t =
     (let row = \<lparr>oSlabIDs = join_with '','' slabs, oMeta = meta, oFetchedAt = stamp now\<rparr>
      in upsert ref row (\<lambda>_. row) t)"

text \<open>\<open>strings.Split\<close> on a one character separator.\<close>

fun split_char :: "char \<Rightarrow> string \<Rightarrow> string list" where
  "split_char c [] = [[]]"
| "split_char c (x # xs) =
     (if x = c then [] # split_char c xs
      else (case split_char c xs of [] \<Rightarrow> [[x]] | w # ws \<Rightarrow> (x # w) # ws))"

definition GetLocation :: "object_cache \<Rightarrow> string \<Rightarrow> cached_location res" where
  "GetLocation t ref = lookup_row ''location''
     (\<lambda>r. \<lparr>clObjectRef = ref,
       clSlabIDs = (if oSlabIDs r \<noteq> [] then split_char (CHR '','') (oSlabIDs r) else []),
       clMeta = oMeta r, clFetchedAt = oFetchedAt r\<rparr>) (row_of t ref)"

definition CachedLocation_Age :: "gotime \<Rightarrow> cached_location \<Rightarrow> int" where
  "CachedLocation_Age now c = now - clFetchedAt c"

definition PutSlabMeta :: "gotime \<Rightarrow> slabid \<Rightarrow> byte list \<Rightarrow> slab_cache \<Rightarrow> slab_cache" where
  "PutSlabMeta now s meta t =
     (let row = \<lparr>cMeta = meta, cFetchedAt = stamp now\<rparr> in upsert s row (\<lambda>_. row) t)"

definition GetSlabMeta :: "slab_cache \<Rightarrow> slabid \<Rightarrow> cached_slab res" where
  "GetSlabMeta t s = lookup_row ''slab metadata''
     (\<lambda>r. \<lparr>csSlabID = s, csMeta = cMeta r, csFetchedAt = cFetchedAt r\<rparr>) (row_of t s)"

definition CachedSlab_Age :: "gotime \<Rightarrow> cached_slab \<Rightarrow> int" where
  "CachedSlab_Age now c = now - csFetchedAt c"

definition ForgetLocation :: "string \<Rightarrow> object_cache \<Rightarrow> object_cache" where
  "ForgetLocation ref t = delete_row ref t"

definition ForgetSlabMeta :: "slabid \<Rightarrow> slab_cache \<Rightarrow> slab_cache" where
  "ForgetSlabMeta s t = delete_row s t"

record cache_size =
  csObjects :: nat
  csSlabs :: nat
  csObjectBytes :: nat
  csSlabBytes :: nat

definition CacheSize :: "object_cache \<Rightarrow> slab_cache \<Rightarrow> cache_size" where
  "CacheSize ot st = \<lparr>csObjects = length ot, csSlabs = length st,
     csObjectBytes = sum_list (map (\<lambda>(_, r). length (oMeta r) + length (oSlabIDs r)) ot),
     csSlabBytes = sum_list (map (\<lambda>(_, r). length (cMeta r)) st)\<rparr>"

definition CacheSize_Total :: "cache_size \<Rightarrow> nat" where
  "CacheSize_Total c = csObjectBytes c + csSlabBytes c"

section \<open>Session heads\<close>

record head_row =
  hVersion :: int
  hTitle :: string
  hSummary :: string
  hKind :: string
  hProject :: string
  hAgent :: string
  hParent :: "recid option"
  hCreated :: gotime
  hUpdated :: gotime
  hArchived :: bool
  hMessages :: int
  hChunks :: nat
  hBytes :: int
  hHead :: "byte list"

type_synonym heads = "(recid, head_row) table"

definition ProjectKey :: "project \<Rightarrow> string" where
  "ProjectKey p = (if prRepo p \<noteq> [] then prRepo p else prCWD p)"

definition head_row_of :: "session_head \<Rightarrow> byte list \<Rightarrow> head_row" where
  "head_row_of s head = \<lparr>hVersion = sVersion s, hTitle = sTitle s, hSummary = sSummary s,
     hKind = sKind s, hProject = ProjectKey (sProject s), hAgent = agName (sAgent s),
     hParent = lnParentSession (sLineage s), hCreated = stamp (sCreated s),
     hUpdated = stamp (sUpdated s), hArchived = sArchived s, hMessages = cnMessages (sCounts s),
     hChunks = length (sChunks s), hBytes = cnBytes (sCounts s), hHead = head\<rparr>"

text \<open>
  The conflict arm sets every column but \<open>created_at\<close>, and only where the version there is the
  one the writer read; a statement that changed no row is the stale head.
\<close>

definition PutSessionHead :: "session_head \<Rightarrow> byte list \<Rightarrow> int \<Rightarrow> (heads, unit) step" where
  "PutSessionHead s head expect t =
    (let new = head_row_of s head in
     case row_of t (sID s) of
       None \<Rightarrow> (Inr (), upsert (sID s) new (\<lambda>r. r) t)
     | Some old \<Rightarrow>
         if hVersion old = expect
         then (Inr (), upsert (sID s) new (\<lambda>r. new\<lparr>hCreated := hCreated r\<rparr>) t)
         else (fail [ErrStaleHead] ''the session was changed by another writer'', t))"

definition GetSessionHead :: "heads \<Rightarrow> recid \<Rightarrow> byte list res" where
  "GetSessionHead t i = lookup_row ''session'' hHead (row_of t i)"

definition SessionTitle :: "heads \<Rightarrow> recid \<Rightarrow> string res" where
  "SessionTitle t i = lookup_row ''session'' hTitle (row_of t i)"

definition ForgetSessionHead :: "recid \<Rightarrow> heads \<Rightarrow> heads" where
  "ForgetSessionHead i t = delete_row i t"

definition CountSessions :: "heads \<Rightarrow> nat" where
  "CountSessions t = length t"

definition SessionLexicalText :: "session_head \<Rightarrow> string" where
  "SessionLexicalText s = join_with [CHR 0x0A]
     ((if sTitle s \<noteq> [] then [sTitle s] else [])
      @ (if sSummary s \<noteq> [] then [sSummary s] else [])
      @ (if sTags s \<noteq> [] then [join_with '' '' (sTags s)] else []))"

section \<open>Every table keeps the contract of a keyed table\<close>

interpretation body_table: keyed_table row_of "\<lambda>i (now, k, body). PutBody now i k body" ForgetBody
  "\<lambda>(now, k, body). \<lparr>bKind = k, bBody = body, bCreated = stamp now\<rparr>"
  "\<lambda>(now, k, body) r. r\<lparr>bBody := body\<rparr>" table_ok CountBodies
  by unfold_locales
     (auto simp: PutBody_def ForgetBody_def CountBodies_def length_upsert mem_keys
        length_delete_row split: option.splits)

interpretation setting_table: keyed_table row_of PutMeta delete_row "\<lambda>v. v" "\<lambda>v _. v" table_ok length
  by unfold_locales
     (auto simp: PutMeta_def length_upsert mem_keys length_delete_row split: option.splits)

interpretation location_table: keyed_table row_of
  "\<lambda>ref (now, slabs, meta). PutLocation now ref slabs meta" ForgetLocation
  "\<lambda>(now, slabs, meta). \<lparr>oSlabIDs = join_with '','' slabs, oMeta = meta, oFetchedAt = stamp now\<rparr>"
  "\<lambda>(now, slabs, meta) _. \<lparr>oSlabIDs = join_with '','' slabs, oMeta = meta, oFetchedAt = stamp now\<rparr>"
  table_ok length
  by unfold_locales
     (auto simp: PutLocation_def Let_def ForgetLocation_def length_upsert mem_keys
        length_delete_row split: option.splits)

interpretation slab_meta_table: keyed_table row_of "\<lambda>s (now, meta). PutSlabMeta now s meta" ForgetSlabMeta
  "\<lambda>(now, meta). \<lparr>cMeta = meta, cFetchedAt = stamp now\<rparr>"
  "\<lambda>(now, meta) _. \<lparr>cMeta = meta, cFetchedAt = stamp now\<rparr>" table_ok length
  by unfold_locales
     (auto simp: PutSlabMeta_def Let_def ForgetSlabMeta_def length_upsert mem_keys
        length_delete_row split: option.splits)

interpretation ledger_table: keyed_table row_of
  "\<lambda>s (now, records, bytes, origin). trackSlab now s records bytes origin" ForgetSlab
  "\<lambda>(now, records, bytes, origin).
     \<lparr>lPinnedAt = stamp now, lRecords = records, lBytes = bytes, lOrigin = origin\<rparr>"
  "\<lambda>(now, records, bytes, origin) r. r\<lparr>lRecords := lRecords r + records, lBytes := lBytes r + bytes,
     lOrigin := (if lOrigin r = SlabPinned \<or> origin = SlabPinned then SlabPinned else SlabHydrated)\<rparr>"
  table_ok length
  by unfold_locales
     (auto simp: trackSlab_def ForgetSlab_def length_upsert mem_keys length_delete_row
        split: option.splits)

section \<open>Lists of a table in an order\<close>

lemma body_order:
  "weak_order (\<lambda>a b. bCreated (snd a) < bCreated (snd b)
     \<or> (bCreated (snd a) = bCreated (snd b) \<and> fst a < fst (b :: recid \<times> body_row)))"
  by (rule weak_order_lex(2)) (rule weak_order_key)

lemma set_BodyIDsOfKind:
  assumes "table_ok t"
  shows "i \<in> set (BodyIDsOfKind t k) \<longleftrightarrow> (\<exists>r. row_of t i = Some r \<and> bKind r = k)"
  using row_of_mem [OF assms, of i]
  by (force simp: BodyIDsOfKind_def select_where_def image_iff)

lemma distinct_BodyIDsOfKind: "table_ok t \<Longrightarrow> distinct (BodyIDsOfKind t k)"
  using table_ok_select [of t "\<lambda>i r. bKind r = k"]
  by (simp add: BodyIDsOfKind_def table_ok_def keys_of_def)

lemma SlabOrigin_cases [simp]:
  "SlabOrigin_Releasable SlabPinned" "\<not> SlabOrigin_Releasable SlabHydrated"
  "SlabPinned \<noteq> SlabHydrated" "SlabHydrated \<noteq> SlabPinned"
  by (simp_all add: SlabOrigin_Releasable_def SlabPinned_def SlabHydrated_def)

section \<open>Cached locations\<close>

lemma split_char_ne [simp]: "split_char c s \<noteq> []"
  by (induction s) (auto split: list.splits)

lemma split_char_free: "c \<notin> set s \<Longrightarrow> split_char c s = [s]"
  by (induction s) auto

lemma split_char_append:
  "c \<notin> set w \<Longrightarrow> split_char c (w @ c # s) = w # split_char c s"
  by (induction w) auto

lemma split_join:
  "ws \<noteq> [] \<Longrightarrow> (\<And>w. w \<in> set ws \<Longrightarrow> c \<notin> set w) \<Longrightarrow> split_char c (join_with [c] ws) = ws"
  by (induction "[c]" ws rule: join_with.induct) (auto simp: split_char_free split_char_append)

lemma join_with_eq_Nil: "sep \<noteq> [] \<Longrightarrow> join_with sep ws = [] \<longleftrightarrow> ws = [] \<or> ws = [[]]"
  by (induction sep ws rule: join_with.induct) auto

text \<open>A cached location comes back as it was cached, for slab ids without a comma (they are
  hexadecimal): the same slabs in order, the same metadata, the age of the capture, and the
  entries of other objects as they were.\<close>

lemma GetLocation_PutLocation:
  assumes "\<forall>s \<in> set slabs. s \<noteq> [] \<and> CHR '','' \<notin> set s"
  shows "GetLocation (PutLocation now ref slabs meta t) ref =
      Inr \<lparr>clObjectRef = ref, clSlabIDs = slabs, clMeta = meta, clFetchedAt = stamp now\<rparr>
    \<and> (ref' \<noteq> ref \<longrightarrow> GetLocation (PutLocation now ref slabs meta t) ref' = GetLocation t ref')
    \<and> GetLocation (ForgetLocation ref (PutLocation now ref slabs meta t)) ref
        = fail [ErrLocalNotFound] ''location''"
proof -
  have "(if join_with '','' slabs \<noteq> [] then split_char (CHR '','') (join_with '','' slabs) else []) = slabs"
  proof (cases "slabs = []")
    case True
    then show ?thesis by simp
  next
    case False
    moreover from False assms have "slabs \<noteq> [[]]" by auto
    ultimately show ?thesis using assms by (simp add: split_join join_with_eq_Nil)
  qed
  then show ?thesis
    using location_table.put_keeps_others [of ref' ref "(now, slabs, meta)" t]
      location_table.look_forget [of ref "PutLocation now ref slabs meta t" ref]
    by (auto simp: GetLocation_def PutLocation_def Let_def split: option.splits)
qed

section \<open>The ledger against what it promises\<close>

text \<open>
  The promise: a slab is this device's to release when the device pinned it, however often it
  is met while hydrating, or when ownership was taken while it was in the ledger; the counts
  add up.  Abstractly a ledger maps a slab to whether it is ours and to its two counts.
\<close>

datatype ledger_op =
    LTrack gotime slabid int int
  | LAdopt gotime slabid int int
  | LTakeOwnership
  | LForget slabid

fun ledger_step :: "ledger_op \<Rightarrow> ledger \<Rightarrow> ledger" where
  "ledger_step (LTrack now s n b) t = TrackSlab now s n b t"
| "ledger_step (LAdopt now s n b) t = AdoptSlab now s n b t"
| "ledger_step LTakeOwnership t = snd (TakeSlabOwnership t)"
| "ledger_step (LForget s) t = ForgetSlab s t"

type_synonym ledger_spec = "slabid \<rightharpoonup> bool \<times> int \<times> int"

definition spec_meet :: "bool \<Rightarrow> slabid \<Rightarrow> int \<Rightarrow> int \<Rightarrow> ledger_spec \<Rightarrow> ledger_spec" where
  "spec_meet own s n b L = L(s \<mapsto> (case L s of None \<Rightarrow> (own, n, b)
     | Some (own', n', b') \<Rightarrow> (own' \<or> own, n' + n, b' + b)))"

fun spec_step :: "ledger_op \<Rightarrow> ledger_spec \<Rightarrow> ledger_spec" where
  "spec_step (LTrack now s n b) L = spec_meet True s n b L"
| "spec_step (LAdopt now s n b) L = spec_meet False s n b L"
| "spec_step LTakeOwnership L = (\<lambda>s. map_option (\<lambda>(own, n, b). (True, n, b)) (L s))"
| "spec_step (LForget s) L = L(s := None)"

definition ledger_abs :: "ledger \<Rightarrow> ledger_spec" where
  "ledger_abs t s = map_option
     (\<lambda>r. (SlabOrigin_Releasable (lOrigin r), lRecords r, lBytes r)) (row_of t s)"

definition ledger_ok :: "ledger \<Rightarrow> bool" where
  "ledger_ok t \<longleftrightarrow> table_ok t
     \<and> (\<forall>s r. row_of t s = Some r \<longrightarrow> lOrigin r = SlabPinned \<or> lOrigin r = SlabHydrated)"

lemma take_row: "lOrigin (if lOrigin r = SlabHydrated then r\<lparr>lOrigin := SlabPinned\<rparr> else r)
    = (if lOrigin r = SlabHydrated then SlabPinned else lOrigin r)"
  by simp

lemma ledger_ok_trackSlab:
  "ledger_ok t \<Longrightarrow> origin = SlabPinned \<or> origin = SlabHydrated \<Longrightarrow>
   ledger_ok (trackSlab now s n b origin t)"
  by (auto simp: ledger_ok_def trackSlab_def split: option.splits)

lemma ledger_ok_step: "ledger_ok t \<Longrightarrow> ledger_ok (ledger_step op t)"
proof (cases op)
  case (LTrack now s n b)
  moreover assume "ledger_ok t"
  ultimately show ?thesis by (simp add: TrackSlab_def ledger_ok_trackSlab)
next
  case (LAdopt now s n b)
  moreover assume "ledger_ok t"
  ultimately show ?thesis by (simp add: AdoptSlab_def ledger_ok_trackSlab)
next
  case LTakeOwnership
  moreover assume ok: "ledger_ok t"
  moreover have "lOrigin r = SlabPinned \<or> lOrigin r = SlabHydrated"
    if "row_of (snd (TakeSlabOwnership t)) s = Some r" for s r
  proof -
    from that obtain z where "row_of t s = Some z"
      "r = (if lOrigin z = SlabHydrated then z\<lparr>lOrigin := SlabPinned\<rparr> else z)"
      by (auto simp: TakeSlabOwnership_def)
    with ok show ?thesis using take_row [of z] by (auto simp: ledger_ok_def split: if_splits)
  qed
  ultimately show ?thesis by (simp add: ledger_ok_def TakeSlabOwnership_def)
next
  case (LForget s)
  moreover assume "ledger_ok t"
  ultimately show ?thesis by (auto simp: ForgetSlab_def ledger_ok_def)
qed

lemma ledger_abs_trackSlab:
  assumes "ledger_ok t" and "origin = SlabPinned \<or> origin = SlabHydrated"
  shows "ledger_abs (trackSlab now s n b origin t)
    = spec_meet (SlabOrigin_Releasable origin) s n b (ledger_abs t)"
proof
  fix u
  have "lOrigin r = SlabPinned \<or> lOrigin r = SlabHydrated" if "row_of t s = Some r" for r
    using assms(1) that by (simp add: ledger_ok_def)
  then show "ledger_abs (trackSlab now s n b origin t) u
      = spec_meet (SlabOrigin_Releasable origin) s n b (ledger_abs t) u"
    using assms(2)
    by (cases "row_of t s")
       (auto simp: ledger_abs_def spec_meet_def trackSlab_def)
qed

lemma ledger_abs_step:
  "ledger_ok t \<Longrightarrow> ledger_abs (ledger_step op t) = spec_step op (ledger_abs t)"
proof (cases op)
  case (LTrack now s n b)
  moreover assume "ledger_ok t"
  ultimately show ?thesis by (simp add: TrackSlab_def ledger_abs_trackSlab)
next
  case (LAdopt now s n b)
  moreover assume "ledger_ok t"
  ultimately show ?thesis by (simp add: AdoptSlab_def ledger_abs_trackSlab)
next
  case LTakeOwnership
  then show ?thesis
    by (auto simp: fun_eq_iff TakeSlabOwnership_def ledger_abs_def option.map_comp comp_def
        SlabOrigin_Releasable_def take_row intro!: map_option_cong split: if_splits)
next
  case (LForget s)
  then show ?thesis by (auto simp: fun_eq_iff ForgetSlab_def ledger_abs_def)
qed

lemma TrackedSlabs_mem:
  assumes "table_ok t"
  shows "(\<exists>x \<in> set (TrackedSlabs t). tsSlabID x = s \<and> P (tsRecords x) (tsBytes x) (tsOrigin x))
    \<longleftrightarrow> (\<exists>r. row_of t s = Some r \<and> P (lRecords r) (lBytes r) (lOrigin r))"
  using row_of_mem [OF assms, of s] by (force simp: TrackedSlabs_def)

text \<open>C7. Whatever sequence of flushes, hydrations, take-overs and releases a ledger goes through,
  it lists a slab as releasable exactly when the device pinned it or took ownership of it since
  it was last forgotten, never because it was only hydrated and never not because a later
  hydration met it again; and its records and bytes are the sums of what was reported.\<close>

theorem ledger_refines:
  "ledger_abs (fold ledger_step ops []) = fold spec_step ops Map.empty
   \<and> ((\<exists>x \<in> set (TrackedSlabs (fold ledger_step ops [])).
          tsSlabID x = s \<and> SlabOrigin_Releasable (tsOrigin x) \<and> tsRecords x = n \<and> tsBytes x = b)
      = (fold spec_step ops Map.empty s = Some (True, n, b)))"
proof -
  have step: "ledger_ok (fold ledger_step ops t)
      \<and> ledger_abs (fold ledger_step ops t) = fold spec_step ops (ledger_abs t)"
    if "ledger_ok t" for t
    using that
    by (induction ops arbitrary: t) (auto simp: ledger_ok_step ledger_abs_step)
  have ok: "ledger_ok (fold ledger_step ops [])"
    and abs: "ledger_abs (fold ledger_step ops []) = fold spec_step ops (ledger_abs [])"
    using step [of "[]"] by (simp_all add: ledger_ok_def)
  have "ledger_abs [] = Map.empty" by (simp add: ledger_abs_def fun_eq_iff)
  with abs have a: "ledger_abs (fold ledger_step ops []) = fold spec_step ops Map.empty" by simp
  moreover have "(\<exists>x \<in> set (TrackedSlabs (fold ledger_step ops [])).
          tsSlabID x = s \<and> SlabOrigin_Releasable (tsOrigin x) \<and> tsRecords x = n \<and> tsBytes x = b)
      = (ledger_abs (fold ledger_step ops []) s = Some (True, n, b))"
    using ok TrackedSlabs_mem [of "fold ledger_step ops []" s
        "\<lambda>n' b' origin. SlabOrigin_Releasable origin \<and> n' = n \<and> b' = b"]
    by (auto simp: ledger_ok_def ledger_abs_def)
  ultimately show ?thesis by simp
qed

section \<open>Concurrent writers of one session head\<close>

text \<open>
  A write as a writer makes it: the head it read (by its version), and the head it writes,
  whose version is the next one.
\<close>

record head_write =
  wSession :: session_head
  wHead :: "byte list"
  wExpect :: int

fun run_writes :: "head_write list \<Rightarrow> heads \<Rightarrow> head_write list \<times> heads" where
  "run_writes [] t = ([], t)"
| "run_writes (w # ws) t =
     (case PutSessionHead (wSession w) (wHead w) (wExpect w) t of
        (Inr _, t') \<Rightarrow> (case run_writes ws t' of (done_ws, t'') \<Rightarrow> (w # done_ws, t''))
      | (Inl _, t') \<Rightarrow> run_writes ws t')"

lemma PutSessionHead_stale:
  "row_of t (sID s) = Some old \<Longrightarrow> hVersion old \<noteq> expect \<Longrightarrow>
   PutSessionHead s head expect t
     = (fail [ErrStaleHead] ''the session was changed by another writer'', t)"
  by (simp add: PutSessionHead_def)

lemma PutSessionHead_current:
  assumes "row_of t (sID s) = Some old" and "hVersion old = expect"
  shows "\<exists>t'. PutSessionHead s head expect t = (Inr (), t')
    \<and> (\<forall>j. row_of t' j = (if j = sID s then Some ((head_row_of s head)\<lparr>hCreated := hCreated old\<rparr>)
                          else row_of t j))"
  using assms by (simp add: PutSessionHead_def Let_def)

text \<open>C6. No update of a session head is lost.  Whatever writers race on a head, each writing the
  successor of the version it read, the writes that succeed were made on consecutive versions,
  each on the head the one before it left; the head that remains is the last one's, its version
  has grown by the number of successes, and every other write was refused.\<close>

theorem no_lost_head_update:
  assumes "row_of t i = Some old"
    and "\<forall>w \<in> set ws. sID (wSession w) = i \<and> sVersion (wSession w) = wExpect w + 1"
    and "run_writes ws t = (acc, t')"
  shows "map wExpect acc = map (\<lambda>n. hVersion old + int n) [0..<length acc]
    \<and> subseq acc ws
    \<and> GetSessionHead t' i = Inr (if acc = [] then hHead old else wHead (last acc))
    \<and> (\<exists>new. row_of t' i = Some new \<and> hVersion new = hVersion old + int (length acc)
         \<and> hCreated new = hCreated old)"
  using assms
proof (induction ws arbitrary: t old acc t')
  case Nil
  then show ?case by (auto simp: GetSessionHead_def)
next
  case (Cons w ws)
  have w: "sID (wSession w) = i" "sVersion (wSession w) = wExpect w + 1" using Cons.prems(2) by auto
  show ?case
  proof (cases "hVersion old = wExpect w")
    case False
    then have "run_writes ws t = (acc, t')"
      using Cons.prems(1,3) w by (simp add: PutSessionHead_stale)
    with Cons.IH [OF Cons.prems(1) _ this] Cons.prems(2) show ?thesis by auto
  next
    case True
    obtain t1 where t1: "PutSessionHead (wSession w) (wHead w) (wExpect w) t = (Inr (), t1)"
      and row: "row_of t1 i
        = Some ((head_row_of (wSession w) (wHead w))\<lparr>hCreated := hCreated old\<rparr>)"
      using PutSessionHead_current [of t "wSession w" old "wExpect w" "wHead w"] Cons.prems(1) w True
      by auto
    obtain acc' where acc: "acc = w # acc'" and run: "run_writes ws t1 = (acc', t')"
      using Cons.prems(3) t1 by (auto split: prod.splits)
    have IH: "map wExpect acc' = map (\<lambda>n. hVersion old + 1 + int n) [0..<length acc']
        \<and> subseq acc' ws \<and> GetSessionHead t' i = Inr (if acc' = [] then wHead w else wHead (last acc'))
        \<and> (\<exists>new. row_of t' i = Some new \<and> hVersion new = hVersion old + 1 + int (length acc')
             \<and> hCreated new = hCreated old)"
      using Cons.IH [OF row _ run] Cons.prems(2) w True by (simp add: head_row_of_def)
    have "map (\<lambda>n. hVersion old + int n) [0..<length acc]
        = hVersion old # map (\<lambda>n. hVersion old + 1 + int n) [0..<length acc']"
      by (simp add: acc upt_conv_Cons map_Suc_upt [symmetric] ac_simps del: upt_Suc)
    with IH True acc show ?thesis by auto
  qed
qed

definition demo_session :: "recid \<Rightarrow> int \<Rightarrow> session_head" where
  "demo_session i v = \<lparr>sID = i, sSchema = [], sSchemaVersion = 1, sVersion = v, sTitle = ''t'',
     sSummary = [], sTags = [], sProject = \<lparr>prCWD = ''/w'', prRepo = [], prBranch = []\<rparr>,
     sCreated = 0, sUpdated = 0, sArchived = False, sAgent = \<lparr>agName = [], agVersion = []\<rparr>,
     sModels = [], sCounts = \<lparr>cnMessages = 0, cnChunks = 0, cnBytes = 0, cnTokensIn = 0,
       cnTokensOut = 0, cnDurationMS = 0\<rparr>, sKind = SessionMain, sAgentRef = None,
     sLineage = \<lparr>lnParentSession = None, lnForkedFrom = None, lnResumedFrom = None, lnChildren = []\<rparr>,
     sHeadMessage = [], sPreservedTail = [], sChunks = [], sMemories = [],
     sEmbedding = \<lparr>embModel = [], embDim = 0\<rparr>\<rparr>"

definition demo_write :: "int \<Rightarrow> byte \<Rightarrow> head_write" where
  "demo_write v b = \<lparr>wSession = demo_session 7 (v + 1), wHead = [b], wExpect = v\<rparr>"

theorem no_lost_head_update_witness:
  "GetSessionHead (snd (run_writes [demo_write 1 10, demo_write 1 11, demo_write 2 12]
     [(7, head_row_of (demo_session 7 1) [9])])) 7 = Inr [12]"
proof -
  let ?t = "[(7, head_row_of (demo_session 7 1) [9])]"
  let ?ws = "[demo_write 1 10, demo_write 1 11, demo_write 2 12]"
  have run: "fst (run_writes ?ws ?t) = [demo_write 1 10, demo_write 2 12]"
    by (simp add: demo_write_def demo_session_def head_row_of_def PutSessionHead_def row_of_def)
  then obtain t' where r: "run_writes ?ws ?t = ([demo_write 1 10, demo_write 2 12], t')"
    by (metis prod.collapse)
  have "GetSessionHead t' 7 = Inr (wHead (demo_write 2 12))"
    using no_lost_head_update [OF _ _ r, of 7 "head_row_of (demo_session 7 1) [9]"]
    by (simp add: row_of_def demo_write_def demo_session_def)
  then show ?thesis by (simp only: r) (simp add: demo_write_def)
qed

text \<open>The version check guards a head only while its row exists: a write made on a head that
  another process has forgotten since is not refused as stale but brings the head back, whatever
  version the writer read.\<close>

lemma stale_write_recreates_head:
  "fst (PutSessionHead s head expect (ForgetSessionHead (sID s) t)) = Inr ()
   \<and> GetSessionHead (snd (PutSessionHead s head expect (ForgetSessionHead (sID s) t))) (sID s) = Inr head"
  by (simp add: PutSessionHead_def ForgetSessionHead_def GetSessionHead_def head_row_of_def)

end
