(* ===== verification/FlushQueue.thy ===== *)
theory FlushQueue
  imports LocalStore
begin

text \<open>
  Package \<open>local\<close>, file \<open>queue.go\<close>: the queue of sealed records that wait for a flush, and the
  contract the packer flushes by, the locale \<open>flush_queue\<close>.  A claim marks the rows one process
  is writing; it is one statement, so no other process sees the queue between the choice of the
  rows and their marking.
\<close>

record queued_blob =
  qbID :: recid
  qbKind :: kind
  qbCID :: string
  qbPayload :: "byte list"
  qbQueuedAt :: gotime
  qbSeq :: int

record queue_row =
  qKind :: kind
  qCID :: string
  qPayload :: "byte list"
  qQueuedAt :: gotime
  qSeq :: int
  qClaimedAt :: "gotime option"
  qClaimedBy :: "string option"

type_synonym queue = "(recid, queue_row) table"

text \<open>\<open>COALESCE(MAX(seq), 0)\<close>\<close>

fun max_seq :: "queue \<Rightarrow> int option" where
  "max_seq [] = None"
| "max_seq ((i, r) # q) = (case max_seq q of None \<Rightarrow> Some (qSeq r) | Some m \<Rightarrow> Some (max (qSeq r) m))"

definition next_seq :: "queue \<Rightarrow> int" where
  "next_seq q = (case max_seq q of None \<Rightarrow> 0 | Some m \<Rightarrow> m) + 1"

definition Enqueue :: "gotime \<Rightarrow> queued_blob \<Rightarrow> queue \<Rightarrow> queue" where
  "Enqueue now b q =
    (let queued = stamp (if qbQueuedAt b = 0 then now else qbQueuedAt b) in
     upsert (qbID b)
       \<lparr>qKind = qbKind b, qCID = qbCID b, qPayload = qbPayload b, qQueuedAt = queued,
        qSeq = next_seq q, qClaimedAt = None, qClaimedBy = None\<rparr>
       (\<lambda>r. r\<lparr>qPayload := qbPayload b, qCID := qbCID b, qQueuedAt := queued\<rparr>) q)"

record queue_state =
  qsRecords :: int
  qsBytes :: int
  qsOldest :: gotime
  qsNewest :: gotime

text \<open>\<open>MIN\<close> and \<open>MAX\<close> of no rows are null, which reads back as the zero time.\<close>

definition QueueState :: "queue \<Rightarrow> queue_state" where
  "QueueState q = \<lparr>qsRecords = int (length q),
     qsBytes = sum_list (map (\<lambda>(_, r). int (length (qPayload r))) q),
     qsOldest = (case q of [] \<Rightarrow> 0 | (_, r) # q' \<Rightarrow> foldl (\<lambda>m (_, r). min m (qQueuedAt r)) (qQueuedAt r) q'),
     qsNewest = (case q of [] \<Rightarrow> 0 | (_, r) # q' \<Rightarrow> foldl (\<lambda>m (_, r). max m (qQueuedAt r)) (qQueuedAt r) q')\<rparr>"

definition blob_of :: "recid \<times> queue_row \<Rightarrow> queued_blob" where
  "blob_of x = (case x of (i, r) \<Rightarrow> \<lparr>qbID = i, qbKind = qKind r, qbCID = qCID r,
     qbPayload = qPayload r, qbQueuedAt = qQueuedAt r, qbSeq = qSeq r\<rparr>)"

definition claimable :: "gotime \<Rightarrow> int \<Rightarrow> gotime option \<Rightarrow> bool" where
  "claimable now staleAfter c \<longleftrightarrow> staleAfter \<le> 0
     \<or> (case c of None \<Rightarrow> True | Some t \<Rightarrow> t < stamp (now - staleAfter))"

definition claim_ids :: "gotime \<Rightarrow> int \<Rightarrow> int \<Rightarrow> queue \<Rightarrow> recid list" where
  "claim_ids now staleAfter limit q =
    (let rows = sort_by (\<lambda>a b. qSeq (snd a) < qSeq (snd b))
           (select_where (\<lambda>_ r. claimable now staleAfter (qClaimedAt r)) q)
     in map fst (if limit \<le> 0 then rows else take (nat limit) rows))"

definition ClaimQueued ::
    "gotime \<Rightarrow> string \<Rightarrow> int \<Rightarrow> int \<Rightarrow> queue \<Rightarrow> queued_blob list \<times> queue" where
  "ClaimQueued now owner staleAfter limit q =
    (let ids = claim_ids now staleAfter limit q;
         q' = update_where (\<lambda>i _. i \<in> set ids)
                (\<lambda>r. r\<lparr>qClaimedAt := Some (stamp now), qClaimedBy := Some owner\<rparr>) q
     in (sort_by (\<lambda>a b. qbSeq a < qbSeq b)
           (map blob_of (select_where (\<lambda>i _. i \<in> set ids) q')), q'))"

text \<open>Both run one statement per id inside one transaction.\<close>

definition ReleaseQueued :: "recid list \<Rightarrow> queue \<Rightarrow> queue" where
  "ReleaseQueued ids q = fold (\<lambda>i. update_where (\<lambda>j _. j = i)
     (\<lambda>r. r\<lparr>qClaimedAt := None, qClaimedBy := None\<rparr>)) ids q"

definition DropQueued :: "recid list \<Rightarrow> queue \<Rightarrow> queue" where
  "DropQueued ids q = fold delete_row ids q"

section \<open>The invariant of the queue\<close>

text \<open>Keys are unique, and rows stand in the order of their sequence numbers.\<close>

definition queue_ok :: "queue \<Rightarrow> bool" where
  "queue_ok q \<longleftrightarrow> table_ok q \<and> sorted_wrt (<) (map (qSeq \<circ> snd) q)"

lemma max_seq_ge: "x \<in> set q \<Longrightarrow> \<exists>m. max_seq q = Some m \<and> qSeq (snd x) \<le> m"
  by (induction q rule: max_seq.induct) (auto split: option.splits)

lemma next_seq_gt: "x \<in> set q \<Longrightarrow> qSeq (snd x) < next_seq q"
  using max_seq_ge [of x q] by (auto simp: next_seq_def)

lemma seqs_update:
  "(\<And>r. qSeq (f r) = qSeq r) \<Longrightarrow> map (qSeq \<circ> snd) (update_where p f q) = map (qSeq \<circ> snd) q"
  by (induction q) (auto simp: update_where_def)

lemma seqs_upsert:
  "(\<And>r. qSeq (upd r) = qSeq r) \<Longrightarrow> map (qSeq \<circ> snd) (upsert i row upd q) =
     (if i \<in> set (keys_of q) then map (qSeq \<circ> snd) q else map (qSeq \<circ> snd) q @ [qSeq row])"
  by (induction q) auto

lemma queue_ok_Nil [simp]: "queue_ok []"
  by (simp add: queue_ok_def)

lemma queue_ok_Enqueue [simp]: "queue_ok q \<Longrightarrow> queue_ok (Enqueue now b q)"
  using next_seq_gt [of _ q]
  by (auto simp: queue_ok_def Enqueue_def Let_def seqs_upsert sorted_wrt_append)

lemma queue_ok_update:
  "(\<And>r. qSeq (f r) = qSeq r) \<Longrightarrow> queue_ok q \<Longrightarrow> queue_ok (update_where p f q)"
  by (simp add: queue_ok_def seqs_update)

lemma queue_ok_Claim [simp]: "queue_ok q \<Longrightarrow> queue_ok (snd (ClaimQueued now owner staleAfter limit q))"
  by (simp add: ClaimQueued_def Let_def queue_ok_update)

lemma queue_ok_Release [simp]: "queue_ok q \<Longrightarrow> queue_ok (ReleaseQueued ids q)"
  unfolding ReleaseQueued_def by (induction ids arbitrary: q) (auto simp: queue_ok_update)

lemma queue_ok_delete: "queue_ok q \<Longrightarrow> queue_ok (delete_row i q)"
proof -
  assume q: "queue_ok q"
  then have "sorted_wrt (\<lambda>x y. qSeq (snd x) < qSeq (snd y)) (delete_row i q)"
    unfolding delete_row_def by (intro sorted_wrt_filter) (simp add: queue_ok_def sorted_wrt_map)
  with q show ?thesis by (simp add: queue_ok_def sorted_wrt_map)
qed

lemma queue_ok_Drop [simp]: "queue_ok q \<Longrightarrow> queue_ok (DropQueued ids q)"
  unfolding DropQueued_def by (induction ids arbitrary: q) (auto intro: queue_ok_delete)

lemma queue_ok_table [simp]: "queue_ok q \<Longrightarrow> table_ok q"
  by (simp add: queue_ok_def)

section \<open>What an operation does to a row\<close>

lemma row_of_Enqueue [table_simps]:
  "row_of (Enqueue now b q) i =
    (if i \<noteq> qbID b then row_of q i
     else Some (case row_of q i of
        None \<Rightarrow> \<lparr>qKind = qbKind b, qCID = qbCID b, qPayload = qbPayload b,
            qQueuedAt = stamp (if qbQueuedAt b = 0 then now else qbQueuedAt b),
            qSeq = next_seq q, qClaimedAt = None, qClaimedBy = None\<rparr>
      | Some r \<Rightarrow> r\<lparr>qPayload := qbPayload b, qCID := qbCID b,
            qQueuedAt := stamp (if qbQueuedAt b = 0 then now else qbQueuedAt b)\<rparr>))"
  by (simp add: Enqueue_def Let_def)

lemma row_of_Claim [table_simps]:
  "row_of (snd (ClaimQueued now owner staleAfter limit q)) i =
    map_option (\<lambda>r. if i \<in> set (claim_ids now staleAfter limit q)
       then r\<lparr>qClaimedAt := Some (stamp now), qClaimedBy := Some owner\<rparr> else r) (row_of q i)"
  by (simp add: ClaimQueued_def Let_def)

lemma row_of_Release [table_simps]:
  "row_of (ReleaseQueued ids q) i =
    map_option (\<lambda>r. if i \<in> set ids then r\<lparr>qClaimedAt := None, qClaimedBy := None\<rparr> else r) (row_of q i)"
  unfolding ReleaseQueued_def
  by (induction ids arbitrary: q) (auto simp: option.map_comp comp_def option.map_ident intro!: map_option_cong)

lemma row_of_Drop [table_simps]:
  "row_of (DropQueued ids q) i = (if i \<in> set ids then None else row_of q i)"
  unfolding DropQueued_def by (induction ids arbitrary: q) auto

lemma set_claim_ids:
  assumes "table_ok q" and "limit \<le> 0"
  shows "i \<in> set (claim_ids now staleAfter limit q) \<longleftrightarrow>
    (\<exists>r. row_of q i = Some r \<and> claimable now staleAfter (qClaimedAt r))"
  using row_of_mem [OF assms(1), of i] assms(2)
  by (force simp: claim_ids_def Let_def select_where_def image_iff)

lemma claim_ids_claimable:
  assumes "table_ok q" and "i \<in> set (claim_ids now staleAfter limit q)"
  shows "\<exists>r. row_of q i = Some r \<and> claimable now staleAfter (qClaimedAt r)"
proof -
  have "i \<in> set (claim_ids now staleAfter 0 q)"
    using assms(2) by (force simp: claim_ids_def Let_def split: if_splits dest: in_set_takeD)
  with set_claim_ids [OF assms(1), of 0 i] show ?thesis by simp
qed

lemma claimed_blobs:
  assumes "table_ok q"
  shows "b \<in> set (fst (ClaimQueued now owner staleAfter limit q)) \<longleftrightarrow>
    (\<exists>i r. i \<in> set (claim_ids now staleAfter limit q) \<and> row_of q i = Some r \<and> b = blob_of (i, r))"
    (is "?l = ?r")
proof -
  let ?ids = "set (claim_ids now staleAfter limit q)"
  let ?mark = "\<lambda>r. r\<lparr>qClaimedAt := Some (stamp now), qClaimedBy := Some owner\<rparr>"
  let ?q' = "update_where (\<lambda>i _. i \<in> ?ids) ?mark q"
  have blob: "blob_of (i, ?mark r) = blob_of (i, r)" for i r by (simp add: blob_of_def)
  have rows: "(i, r) \<in> set ?q' \<longleftrightarrow> row_of ?q' i = Some r" for i r
    using row_of_mem [of ?q' i r] assms by simp
  have "?l \<longleftrightarrow> (\<exists>i r. i \<in> ?ids \<and> (i, r) \<in> set ?q' \<and> b = blob_of (i, r))"
    by (auto simp: ClaimQueued_def Let_def select_where_def)
  also have "\<dots> \<longleftrightarrow> ?r" using blob by (auto simp: rows)
  finally show ?thesis .
qed

lemma claimed_order:
  assumes "queue_ok q"
  shows "sorted_wrt (\<lambda>a b. qbSeq a < qbSeq b) (fst (ClaimQueued now owner staleAfter limit q))"
proof -
  let ?s = "select_where (\<lambda>i _. i \<in> set (claim_ids now staleAfter limit q))
    (snd (ClaimQueued now owner staleAfter limit q))"
  have "sorted_wrt (<) (map (qSeq \<circ> snd) (snd (ClaimQueued now owner staleAfter limit q)))"
    using queue_ok_Claim [OF assms] unfolding queue_ok_def by blast
  then have "sorted_wrt (\<lambda>a b. qbSeq a < qbSeq b) (map blob_of ?s)"
    by (auto simp: select_where_def sorted_wrt_map blob_of_def sorted_wrt_filter
        elim!: sorted_wrt_mono_rel [rotated] intro!: sorted_wrt_filter split: prod.splits)
  moreover from this have "sorted_wrt (\<lambda>a b. \<not> qbSeq b < qbSeq a) (map blob_of ?s)"
    by (rule sorted_wrt_mono_rel [rotated]) simp
  ultimately show ?thesis
    by (simp add: ClaimQueued_def Let_def sort_by_id)
qed

section \<open>The contract of a flush queue\<close>

text \<open>
  What the packer relies on.  \<open>waiting\<close> is what the queue holds for a record, \<open>held_at\<close> when it
  was last claimed.  A claim takes exactly the waiting records nobody holds within the grace, and
  changes nothing but who holds them; only \<open>drop\<close> makes a record leave.
\<close>

locale flush_queue =
  fixes add :: "gotime \<Rightarrow> 'b \<Rightarrow> 'q \<Rightarrow> 'q"
    and claim :: "gotime \<Rightarrow> string \<Rightarrow> int \<Rightarrow> 'q \<Rightarrow> 'b list \<times> 'q"
    and release :: "'i list \<Rightarrow> 'q \<Rightarrow> 'q" and drop_done :: "'i list \<Rightarrow> 'q \<Rightarrow> 'q"
    and waiting :: "'q \<Rightarrow> 'i \<Rightarrow> 'p option" and held_at :: "'q \<Rightarrow> 'i \<Rightarrow> gotime option"
    and ident :: "'b \<Rightarrow> 'i" and payload :: "'b \<Rightarrow> 'p" and ok :: "'q \<Rightarrow> bool"
  assumes ok_add: "ok q \<Longrightarrow> ok (add now b q)"
    and ok_claim: "ok q \<Longrightarrow> ok (snd (claim now owner grace q))"
    and ok_release: "ok q \<Longrightarrow> ok (release ids q)"
    and ok_drop: "ok q \<Longrightarrow> ok (drop_done ids q)"
    and waiting_add: "waiting (add now b q) i = (if i = ident b then Some (payload b) else waiting q i)"
    and held_add: "held_at (add now b q) i = held_at q i"
    and claimed: "ok q \<Longrightarrow> i \<in> ident ` set (fst (claim now owner grace q))
        \<longleftrightarrow> waiting q i \<noteq> None \<and> claimable now grace (held_at q i)"
    and claim_payload: "ok q \<Longrightarrow> b \<in> set (fst (claim now owner grace q))
        \<Longrightarrow> waiting q (ident b) = Some (payload b)"
    and waiting_claim: "waiting (snd (claim now owner grace q)) i = waiting q i"
    and held_claim: "ok q \<Longrightarrow> held_at (snd (claim now owner grace q)) i
        = (if i \<in> ident ` set (fst (claim now owner grace q)) then Some (stamp now) else held_at q i)"
    and waiting_release: "waiting (release ids q) i = waiting q i"
    and held_release: "held_at (release ids q) i = (if i \<in> set ids then None else held_at q i)"
    and waiting_drop: "waiting (drop_done ids q) i = (if i \<in> set ids then None else waiting q i)"
    and held_drop: "held_at (drop_done ids q) i = (if i \<in> set ids then None else held_at q i)"
begin

lemma exclusive:
  assumes "ok q" and "0 < grace" and "now' \<le> now + grace"
  shows "ident ` set (fst (claim now owner g q))
    \<inter> ident ` set (fst (claim now' owner' grace (snd (claim now owner g q)))) = {}"
proof -
  have "stamp (now' - grace) \<le> stamp now" using assms(3) by (intro stamp_mono) simp
  then have "\<not> claimable now' grace (Some (stamp now))" using assms(2) by (simp add: claimable_def)
  then have "i \<notin> ident ` set (fst (claim now' owner' grace (snd (claim now owner g q))))"
    if "i \<in> ident ` set (fst (claim now owner g q))" for i
    unfolding claimed [OF ok_claim [OF assms(1)]] held_claim [OF assms(1)] by (simp only: that if_True) simp
  then show ?thesis by blast
qed

lemma takeover:
  assumes "ok q" and "waiting q i \<noteq> None" and "held_at q i = Some t" and "t < stamp (now - grace)"
  shows "i \<in> ident ` set (fst (claim now owner grace q))"
  using claimed [OF assms(1)] assms by (simp add: claimable_def)

lemma covered:
  assumes "ok q" and "waiting q i \<noteq> None" and "0 < grace"
  shows "i \<in> ident ` set (fst (claim now owner grace q))
    \<or> (\<exists>t. held_at q i = Some t \<and> stamp (now - grace) \<le> t)"
  using claimed [OF assms(1)] assms(2,3)
  by (auto simp: claimable_def not_less split: option.splits)

lemma retry_after_release:
  assumes "ok q" and "i \<in> ident ` set (fst (claim now owner g q))"
  shows "i \<in> ident ` set (fst (claim now' owner' grace
    (release (map ident (fst (claim now owner g q))) (snd (claim now owner g q)))))"
proof -
  have "waiting q i \<noteq> None" using claimed [OF assms(1)] assms(2) by blast
  moreover have "i \<in> set (map ident (fst (claim now owner g q)))" using assms(2) by simp
  moreover have "claimable now' grace None" by (simp add: claimable_def)
  ultimately show ?thesis
    unfolding claimed [OF ok_release [OF ok_claim [OF assms(1)]]] waiting_release waiting_claim held_release
    by (simp only: if_True) simp
qed

lemma finished_flush:
  assumes "ok q"
  shows "waiting (drop_done (map ident (fst (claim now owner g q))) (snd (claim now owner g q))) i =
    (if i \<in> ident ` set (fst (claim now owner g q)) then None else waiting q i)"
  by (simp add: waiting_drop waiting_claim)

end

definition queued :: "queue \<Rightarrow> recid \<Rightarrow> (string \<times> byte list) option" where
  "queued q i = map_option (\<lambda>r. (qCID r, qPayload r)) (row_of q i)"

definition claimed_at :: "queue \<Rightarrow> recid \<Rightarrow> gotime option" where
  "claimed_at q i = (case row_of q i of None \<Rightarrow> None | Some r \<Rightarrow> qClaimedAt r)"

definition sealed_of :: "queued_blob \<Rightarrow> string \<times> byte list" where
  "sealed_of b = (qbCID b, qbPayload b)"

interpretation fq: flush_queue Enqueue "\<lambda>now owner grace. ClaimQueued now owner grace 0"
  ReleaseQueued DropQueued queued claimed_at qbID sealed_of queue_ok
proof unfold_locales
  fix q now owner grace i assume q: "queue_ok q"
  have ids: "i \<in> qbID ` set (fst (ClaimQueued now owner grace 0 q))
      \<longleftrightarrow> i \<in> set (claim_ids now grace 0 q)" for i
  proof
    assume "i \<in> qbID ` set (fst (ClaimQueued now owner grace 0 q))"
    then show "i \<in> set (claim_ids now grace 0 q)"
      using claimed_blobs [OF queue_ok_table [OF q], of _ now owner grace 0] by (auto simp: blob_of_def)
  next
    assume i: "i \<in> set (claim_ids now grace 0 q)"
    with claim_ids_claimable [OF queue_ok_table [OF q] i] obtain r where "row_of q i = Some r" by blast
    with i have "blob_of (i, r) \<in> set (fst (ClaimQueued now owner grace 0 q))"
      using claimed_blobs [OF queue_ok_table [OF q], of _ now owner grace 0] by blast
    then show "i \<in> qbID ` set (fst (ClaimQueued now owner grace 0 q))"
      by (rule rev_image_eqI) (simp add: blob_of_def)
  qed
  show "i \<in> qbID ` set (fst (ClaimQueued now owner grace 0 q))
      \<longleftrightarrow> queued q i \<noteq> None \<and> claimable now grace (claimed_at q i)"
    using set_claim_ids [OF queue_ok_table [OF q], of 0] by (auto simp: ids queued_def claimed_at_def)
  show "claimed_at (snd (ClaimQueued now owner grace 0 q)) i
      = (if i \<in> qbID ` set (fst (ClaimQueued now owner grace 0 q)) then Some (stamp now) else claimed_at q i)"
    using claim_ids_claimable [OF queue_ok_table [OF q], of i now grace 0]
    by (auto simp: ids claimed_at_def row_of_Claim split: option.splits)
next
  fix q b now owner grace
  assume "queue_ok q" "b \<in> set (fst (ClaimQueued now owner grace 0 q))"
  then show "queued q (qbID b) = Some (sealed_of b)"
    using claimed_blobs [of q b now owner grace 0] by (auto simp: queued_def sealed_of_def blob_of_def)
qed (auto simp: queued_def claimed_at_def sealed_of_def table_simps option.map_comp comp_def
      intro!: map_option_cong split: option.splits)

text \<open>C8. A claim takes exactly the waiting records that no flush holds within its grace, each once and in the order they were queued,
  as they were queued, and marks those and no others as held from now on.  A second claim within the grace takes none of them; past
  the grace, and after a release, they are taken over.  A claim removes nothing from the queue.\<close>

theorem ClaimQueued_correct:
  assumes "queue_ok q" and "0 < grace" and "ClaimQueued now owner g 0 q = (bs, q')"
  shows "sorted_wrt (\<lambda>a b. qbSeq a < qbSeq b) bs
    \<and> (\<forall>i. i \<in> qbID ` set bs \<longleftrightarrow> queued q i \<noteq> None
         \<and> (g \<le> 0 \<or> (case claimed_at q i of None \<Rightarrow> True | Some t \<Rightarrow> t < stamp (now - g))))
    \<and> (\<forall>i. claimed_at q' i = (if i \<in> qbID ` set bs then Some (stamp now) else claimed_at q i))
    \<and> (\<forall>b \<in> set bs. queued q (qbID b) = Some (sealed_of b))
    \<and> (\<forall>i. queued q' i = queued q i)
    \<and> (now' \<le> now + grace \<longrightarrow>
         qbID ` set bs \<inter> qbID ` set (fst (ClaimQueued now' owner' grace 0 q')) = {})
    \<and> (stamp now < stamp (now' - grace) \<longrightarrow>
         qbID ` set bs \<subseteq> qbID ` set (fst (ClaimQueued now' owner' grace 0 q')))
    \<and> qbID ` set bs \<subseteq> qbID ` set (fst (ClaimQueued now' owner' grace 0 (ReleaseQueued (map qbID bs) q')))"
proof -
  have c: "fst (ClaimQueued now owner g 0 q) = bs" "snd (ClaimQueued now owner g 0 q) = q'"
    using assms(3) by simp_all
  have ok': "queue_ok q'" using queue_ok_Claim [OF assms(1), of now owner g 0] c by simp
  have over: "qbID ` set bs \<subseteq> qbID ` set (fst (ClaimQueued now' owner' grace 0 q'))"
    if t: "stamp now < stamp (now' - grace)"
  proof
    fix i assume i: "i \<in> qbID ` set bs"
    have "queued q' i \<noteq> None" "claimed_at q' i = Some (stamp now)"
      using fq.claimed [OF assms(1), of i now owner g] fq.waiting_claim [of now owner g q i]
        fq.held_claim [OF assms(1), of now owner g i] i unfolding c by simp_all
    then show "i \<in> qbID ` set (fst (ClaimQueued now' owner' grace 0 q'))"
      using t by (rule fq.takeover [OF ok'])
  qed
  have "sorted_wrt (\<lambda>a b. qbSeq a < qbSeq b) bs"
    using claimed_order [OF assms(1), of now owner g 0] by (simp only: c)
  moreover have "\<forall>b \<in> set bs. queued q (qbID b) = Some (sealed_of b)"
    using fq.claim_payload [OF assms(1), of _ now owner g] by (simp only: c) blast
  moreover have "\<forall>i. queued q' i = queued q i"
    using fq.waiting_claim [of now owner g q] by (simp only: c) blast
  moreover have "now' \<le> now + grace \<longrightarrow>
      qbID ` set bs \<inter> qbID ` set (fst (ClaimQueued now' owner' grace 0 q')) = {}"
    using fq.exclusive [OF assms(1,2), of now' now owner g owner'] by (simp only: c) blast
  moreover have "qbID ` set bs
      \<subseteq> qbID ` set (fst (ClaimQueued now' owner' grace 0 (ReleaseQueued (map qbID bs) q')))"
    using fq.retry_after_release [OF assms(1), of _ now owner g now' owner' grace]
    unfolding c by (rule subsetI)
  moreover have "\<forall>i. i \<in> qbID ` set bs \<longleftrightarrow> queued q i \<noteq> None
      \<and> (g \<le> 0 \<or> (case claimed_at q i of None \<Rightarrow> True | Some t \<Rightarrow> t < stamp (now - g)))"
    using fq.claimed [OF assms(1), of _ now owner g] unfolding c claimable_def by blast
  moreover have "\<forall>i. claimed_at q' i = (if i \<in> qbID ` set bs then Some (stamp now) else claimed_at q i)"
    using fq.held_claim [OF assms(1), of now owner g] unfolding c by blast
  ultimately show ?thesis using over by blast
qed

definition demo_blob :: "recid \<Rightarrow> byte \<Rightarrow> queued_blob" where
  "demo_blob i b = \<lparr>qbID = i, qbKind = KindMemory, qbCID = ''c'', qbPayload = [b],
     qbQueuedAt = 5000000, qbSeq = 0\<rparr>"

theorem ClaimQueued_correct_witness:
  "qbID ` set (fst (ClaimQueued 9000000 ''b'' 2000000 0
     (snd (ClaimQueued 8000000 ''a'' 2000000 0 (Enqueue 0 (demo_blob 3 1) []))))) \<inter> {3} = {}"
proof -
  let ?q = "Enqueue 0 (demo_blob 3 1) []"
  obtain bs q' where c: "ClaimQueued 8000000 ''a'' 2000000 0 ?q = (bs, q')" by (cases "ClaimQueued 8000000 ''a'' 2000000 0 ?q")
  have "qbID ` set bs = {3}"
    using arg_cong [OF c, of "\<lambda>x. qbID ` set (fst x)"]
    by (simp add: Enqueue_def demo_blob_def ClaimQueued_def claim_ids_def select_where_def
        claimable_def update_where_def blob_of_def)
  moreover have "qbID ` set bs \<inter> qbID ` set (fst (ClaimQueued 9000000 ''b'' 2000000 0 q')) = {}"
    using ClaimQueued_correct [OF _ _ c, of 2000000 9000000 "''b''"] by simp
  ultimately show ?thesis by (simp add: c Int_commute)
qed

end
