(* ===== verification/SiaEnvelope.thy ===== *)
theory SiaEnvelope
  imports LocalStore
begin

text \<open>
  Package \<open>sia\<close>, files \<open>envelope.go\<close> and \<open>location.go\<close>: the binary layout cached object locations
  are kept in, the split of a location into the part of one object and the parts it shares with
  its slab-mates, and the checks made before a cached location is read through.

  The types of the indexer's library are records; its digest of a slab, the textual form of a
  slab id and the cryptographic opening of an object are parameters.  A \<open>types.Hash256\<close>, key or
  signature is a word of its width.  A function that can end the process gives \<open>None\<close> there.
\<close>

section \<open>The types of the indexer's library\<close>

type_synonym hash256 = "256 word"
type_synonym signature = "512 word"

record sector =
  secRoot :: hash256
  secHost :: hash256

record slab_slice =
  ssKey :: hash256
  ssMinShards :: nat
  ssSectors :: "sector list"
  ssOffset :: "32 word"
  ssLength :: "32 word"

record sealed_object =
  soDataKey :: "byte list"
  soDataSig :: signature
  soMetaKey :: "byte list"
  soMeta :: "byte list"
  soMetaSig :: signature
  soCreated :: gotime
  soUpdated :: gotime
  soSlabs :: "slab_slice list"

record slab_lib =
  skDigest :: "slab_slice \<Rightarrow> hash256"
  skString :: "hash256 \<Rightarrow> slabid"

type_synonym 'a may_panic = "'a res option"

definition panic :: "'a may_panic" where "panic = None"

definition word_bytes :: "nat \<Rightarrow> 'w::len word \<Rightarrow> byte list" where
  "word_bytes n x = be_bytes n (unat x)"

definition bytes_word :: "byte list \<Rightarrow> 'w::len word" where
  "bytes_word bs = of_nat (be_val bs)"

lemma length_word_bytes [simp]: "length (word_bytes n x) = n"
  by (simp add: word_bytes_def)

lemma bytes_word_bytes [simp]:
  fixes x :: "'w::len word"
  shows "LENGTH('w) \<le> 8 * n \<Longrightarrow> bytes_word (word_bytes n x) = x"
proof -
  assume n: "LENGTH('w) \<le> 8 * n"
  have "unat x < 2 ^ LENGTH('w)" by (rule unsigned_less)
  also have "(2 :: nat) ^ LENGTH('w) \<le> 2 ^ (8 * n)" using n by (intro power_increasing) simp_all
  also have "(2 :: nat) ^ (8 * n) = 256 ^ n" by (simp add: power_mult)
  finally show ?thesis by (simp add: bytes_word_def word_bytes_def)
qed

text \<open>
  \<open>time.Time.UnixNano\<close>, an \<open>int64\<close> that wraps around for times it cannot hold, the zero time among them, and \<open>time.Unix(0, n)\<close>.
\<close>

definition unixEpoch :: gotime where "unixEpoch = 62135596800 * 1000000000"

definition UnixNano :: "gotime \<Rightarrow> 64 word" where "UnixNano t = of_int (t - unixEpoch)"
definition time_Unix :: "64 word \<Rightarrow> gotime" where "time_Unix n = unixEpoch + sint n"

definition nano_time :: "gotime \<Rightarrow> bool" where
  "nano_time t \<longleftrightarrow> - (2 ^ 63) \<le> t - unixEpoch \<and> t - unixEpoch < 2 ^ 63"

lemma time_Unix_UnixNano [simp]: "nano_time t \<Longrightarrow> time_Unix (UnixNano t) = t"
  by (simp add: nano_time_def time_Unix_def UnixNano_def signed_of_int signed_take_bit_int_eq_self del: of_int_diff)

definition u16 :: "nat \<Rightarrow> byte list" where "u16 n = be_bytes 2 n"
definition u32 :: "nat \<Rightarrow> byte list" where "u32 n = be_bytes 4 n"

lemma length_u [simp]: "length (u16 n) = 2" "length (u32 n) = 4"
  by (simp_all add: u16_def u32_def)

section \<open>Writing\<close>

definition envelopeVersion :: byte where "envelopeVersion = 1"

definition appendBytes :: "byte list \<Rightarrow> byte list \<Rightarrow> byte list" where
  "appendBytes out b = out @ u32 (length b) @ b"

definition encode_ref :: "slab_lib \<Rightarrow> slab_slice \<Rightarrow> byte list" where
  "encode_ref lib s = word_bytes 32 (skDigest lib s) @ word_bytes 4 (ssOffset s)
     @ word_bytes 4 (ssLength s)"

definition encodeObject :: "slab_lib \<Rightarrow> sealed_object \<Rightarrow> byte list" where
  "encodeObject lib s =
    (let out = appendBytes [envelopeVersion] (soDataKey s);
         out = out @ word_bytes 64 (soDataSig s);
         out = appendBytes out (soMetaKey s);
         out = appendBytes out (soMeta s);
         out = out @ word_bytes 64 (soMetaSig s);
         out = out @ word_bytes 8 (UnixNano (soCreated s)) @ word_bytes 8 (UnixNano (soUpdated s));
         out = out @ u16 (length (soSlabs s))
     in out @ concat (map (encode_ref lib) (soSlabs s)))"

definition encode_sector :: "sector \<Rightarrow> byte list" where
  "encode_sector x = word_bytes 32 (secRoot x) @ word_bytes 32 (secHost x)"

definition encodeSlab :: "slab_slice \<Rightarrow> byte list" where
  "encodeSlab s = [envelopeVersion] @ word_bytes 32 (ssKey s) @ u16 (ssMinShards s)
     @ u16 (length (ssSectors s)) @ concat (map encode_sector (ssSectors s))"

section \<open>Reading\<close>

text \<open>A reader is what is left of the buffer and whether it ran short; past that it reads zeros.\<close>

type_synonym rd = "byte list \<times> bool"

definition rd_take :: "nat \<Rightarrow> rd \<Rightarrow> byte list \<times> rd" where
  "rd_take n r = (case r of (b, bad) \<Rightarrow>
     if bad then (replicate n 0, (b, True))
     else if length b < n then (replicate n 0, (b, True))
     else (take n b, (drop n b, False)))"

definition rd_num :: "nat \<Rightarrow> rd \<Rightarrow> nat \<times> rd" where
  "rd_num n r = (case rd_take n r of (b, r') \<Rightarrow> (be_val b, r'))"

definition rd_word :: "nat \<Rightarrow> rd \<Rightarrow> 'w::len word \<times> rd" where
  "rd_word n r = (case rd_take n r of (b, r') \<Rightarrow> (bytes_word b, r'))"

definition rd_time :: "rd \<Rightarrow> gotime \<times> rd" where
  "rd_time r = (case rd_word 8 r of (n, r') \<Rightarrow> (time_Unix n, r'))"

definition rd_bytes :: "rd \<Rightarrow> byte list \<times> rd" where
  "rd_bytes r = (case rd_num 4 r of (n, r') \<Rightarrow>
     if snd r' \<or> n = 0 then ([], r') else rd_take n r')"

fun rd_many :: "nat \<Rightarrow> (rd \<Rightarrow> 'a \<times> rd) \<Rightarrow> rd \<Rightarrow> 'a list \<times> rd" where
  "rd_many 0 f r = ([], r)"
| "rd_many (Suc n) f r = (case f r of (x, r1) \<Rightarrow> case rd_many n f r1 of (xs, r2) \<Rightarrow> (x # xs, r2))"

definition rd_ref :: "rd \<Rightarrow> (hash256 \<times> 32 word \<times> 32 word) \<times> rd" where
  "rd_ref r = (case rd_word 32 r of (d, r) \<Rightarrow> case rd_word 4 r of (off, r) \<Rightarrow>
     case rd_word 4 r of (len, r) \<Rightarrow> ((d, off, len), r))"

definition rd_sector :: "rd \<Rightarrow> sector \<times> rd" where
  "rd_sector r = (case rd_word 32 r of (rt, r) \<Rightarrow> case rd_word 32 r of (host, r) \<Rightarrow>
     (\<lparr>secRoot = rt, secHost = host\<rparr>, r))"

text \<open>The slices an object is read back with: only its own ranges, the rest left blank.\<close>

definition blank_slice :: "32 word \<Rightarrow> 32 word \<Rightarrow> slab_slice" where
  "blank_slice off len = \<lparr>ssKey = 0, ssMinShards = 0, ssSectors = [], ssOffset = off, ssLength = len\<rparr>"

definition read_object :: "rd \<Rightarrow> (sealed_object \<times> hash256 list) \<times> rd" where
  "read_object r =
    (case rd_bytes r of (dkey, r) \<Rightarrow> case rd_word 64 r of (dsig, r) \<Rightarrow>
     case rd_bytes r of (mkey, r) \<Rightarrow> case rd_bytes r of (meta, r) \<Rightarrow>
     case rd_word 64 r of (msig, r) \<Rightarrow> case rd_time r of (created, r) \<Rightarrow>
     case rd_time r of (updated, r) \<Rightarrow> case rd_num 2 r of (n, r) \<Rightarrow>
     case rd_many n rd_ref r of (refs, r) \<Rightarrow>
       ((\<lparr>soDataKey = dkey, soDataSig = dsig, soMetaKey = mkey, soMeta = meta, soMetaSig = msig,
          soCreated = created, soUpdated = updated,
          soSlabs = map (\<lambda>(d, off, len). blank_slice off len) refs\<rparr>, map fst refs), r))"

definition read_slab :: "rd \<Rightarrow> slab_slice \<times> rd" where
  "read_slab r =
    (case rd_word 32 r of (key, r) \<Rightarrow> case rd_num 2 r of (shards, r) \<Rightarrow>
     case rd_num 2 r of (n, r) \<Rightarrow> case rd_many n rd_sector r of (sectors, r) \<Rightarrow>
       (\<lparr>ssKey = key, ssMinShards = shards, ssSectors = sectors, ssOffset = 0, ssLength = 0\<rparr>, r))"

text \<open>
  The version byte first.  A refused version is reported with the buffer's first byte, which an
  empty buffer does not have: reading it ends the process.
\<close>

definition decode_with :: "(rd \<Rightarrow> 'a \<times> rd) \<Rightarrow> byte list \<Rightarrow> 'a may_panic" where
  "decode_with body b =
    (case rd_take 1 (b, False) of (v, r) \<Rightarrow>
       if hd v \<noteq> envelopeVersion then
         (case b of [] \<Rightarrow> panic | _ \<Rightarrow> Some (fail [ErrStaleLocation] ''cached in another layout''))
       else (case body r of (x, (_, bad)) \<Rightarrow>
         if bad then Some (fail [ErrStaleLocation] ''cached location is truncated'') else Some (Inr x)))"

definition decodeObject :: "slab_lib \<Rightarrow> byte list \<Rightarrow> (sealed_object \<times> slabid list) may_panic" where
  "decodeObject lib b = map_option (\<lambda>r. case r of Inl e \<Rightarrow> Inl e
     | Inr (s, ds) \<Rightarrow> Inr (s, map (skString lib) ds)) (decode_with read_object b)"

definition decodeSlab :: "byte list \<Rightarrow> slab_slice may_panic" where
  "decodeSlab b = decode_with read_slab b"

section \<open>What a reader does\<close>

text \<open>
  \<open>reads f e x\<close>: \<open>f\<close> reads \<open>x\<close> off a buffer that begins with \<open>e\<close>.  \<open>exact f\<close>: what \<open>f\<close> reads
  without running short it reads from any longer buffer too, leaving the same extra; and once
  short a reader stays short.  So a buffer cut inside what \<open>f\<close> would read makes it run short.
\<close>

definition reads :: "(rd \<Rightarrow> 'a \<times> rd) \<Rightarrow> byte list \<Rightarrow> 'a \<Rightarrow> bool" where
  "reads f e x \<longleftrightarrow> (\<forall>rest. f (e @ rest, False) = (x, (rest, False)))"

definition exact :: "(rd \<Rightarrow> 'a \<times> rd) \<Rightarrow> bool" where
  "exact f \<longleftrightarrow> (\<forall>b x q ext. f (b, False) = (x, (q, False)) \<longrightarrow> f (b @ ext, False) = (x, (q @ ext, False)))
     \<and> (\<forall>b. snd (snd (f (b, True))))"

definition rd_then :: "(rd \<Rightarrow> 'a \<times> rd) \<Rightarrow> ('a \<Rightarrow> rd \<Rightarrow> 'b \<times> rd) \<Rightarrow> rd \<Rightarrow> 'b \<times> rd" where
  "rd_then f g r = (case f r of (x, r') \<Rightarrow> g x r')"

definition rd_ret :: "'a \<Rightarrow> rd \<Rightarrow> 'a \<times> rd" where
  "rd_ret x r = (x, r)"

lemma reads_then: "reads f e x \<Longrightarrow> reads (g x) e' y \<Longrightarrow> reads (rd_then f g) (e @ e') y"
  by (simp add: reads_def rd_then_def)

lemma reads_ret: "reads (rd_ret x) [] x"
  by (simp add: reads_def rd_ret_def)

lemma reads_take: "length e = n \<Longrightarrow> reads (rd_take n) e e"
  by (simp add: reads_def rd_take_def)

lemma exact_take: "exact (rd_take n)"
  by (auto simp: exact_def rd_take_def split: if_splits)

lemma exact_ret: "exact (rd_ret x)"
  by (simp add: exact_def rd_ret_def)

lemma exact_then:
  assumes "exact f" and "\<And>x. exact (g x)"
  shows "exact (rd_then f g)"
  unfolding exact_def
proof (intro conjI allI impI)
  fix b x q ext assume a: "rd_then f g (b, False) = (x, (q, False))"
  obtain y b1 bad where f: "f (b, False) = (y, (b1, bad))" by (metis prod.exhaust)
  have "\<not> bad"
  proof
    assume bad
    then have "snd (snd (g y (b1, True)))" using assms(2) by (simp add: exact_def)
    then show False using a f \<open>bad\<close> by (simp add: rd_then_def)
  qed
  then have "f (b @ ext, False) = (y, (b1 @ ext, False))" using assms(1) f by (simp add: exact_def)
  moreover have "g y (b1 @ ext, False) = (x, (q @ ext, False))"
    using assms(2) [of y] a f \<open>\<not> bad\<close> by (simp add: exact_def rd_then_def)
  ultimately show "rd_then f g (b @ ext, False) = (x, (q @ ext, False))" by (simp add: rd_then_def)
next
  fix b
  obtain y b1 bad where f: "f (b, True) = (y, (b1, bad))" by (metis prod.exhaust)
  then have "bad" using assms(1) by (metis exact_def snd_conv)
  then show "snd (snd (rd_then f g (b, True)))"
    using assms(2) f by (simp add: rd_then_def exact_def)
qed

lemma exact_cut:
  assumes "exact f" and "reads f e x" and "e = p @ ext" and "ext \<noteq> []"
  shows "snd (snd (f (p, False)))"
proof (rule ccontr)
  assume "\<not> ?thesis"
  then obtain y q where "f (p, False) = (y, (q, False))" by (metis prod.exhaust snd_conv)
  then have "f (e, False) = (y, (q @ ext, False))" using assms(1,3) by (simp add: exact_def)
  moreover have "f (e, False) = (x, ([], False))"
    using assms(2) by (simp add: reads_def) (metis append_Nil2)
  ultimately show False using assms(4) by simp
qed

section \<open>The readers of this layout\<close>

named_theorems rd_forms \<open>readers as sequences\<close>

lemma rd_num_form [rd_forms]: "rd_num n = rd_then (rd_take n) (\<lambda>b. rd_ret (be_val b))"
  by (simp add: fun_eq_iff rd_num_def rd_then_def rd_ret_def)

lemma rd_word_form [rd_forms]: "rd_word n = rd_then (rd_take n) (\<lambda>b. rd_ret (bytes_word b))"
  by (simp add: fun_eq_iff rd_word_def rd_then_def rd_ret_def)

lemma rd_time_form [rd_forms]: "rd_time = rd_then (rd_word 8) (\<lambda>n. rd_ret (time_Unix n))"
  by (simp add: fun_eq_iff rd_time_def rd_then_def rd_ret_def)

text \<open>A length read short is zero, so reading nothing and reading on are the same there.\<close>

lemma rd_bytes_form [rd_forms]:
  "rd_bytes = rd_then (rd_num 4) (\<lambda>n. if n = 0 then rd_ret [] else rd_take n)"
proof
  fix r :: rd
  have z: "be_val (replicate n 0) = 0" for n
    by (induction n) (simp_all add: be_val_def)
  obtain n b bad where r: "rd_num 4 r = (n, (b, bad))" by (metis prod.exhaust)
  have "n = 0" if bad
    using r that z by (auto simp: rd_num_def rd_take_def split: prod.splits if_splits)
  then show "rd_bytes r = rd_then (rd_num 4) (\<lambda>n. if n = 0 then rd_ret [] else rd_take n) r"
    using r by (auto simp: rd_bytes_def rd_then_def rd_ret_def)
qed

lemma rd_many_forms [rd_forms]:
  "rd_many 0 f = rd_ret []"
  "rd_many (Suc n) f = rd_then f (\<lambda>x. rd_then (rd_many n f) (\<lambda>xs. rd_ret (x # xs)))"
  by (simp_all add: fun_eq_iff rd_then_def rd_ret_def)

lemma rd_ref_form [rd_forms]: "rd_ref = rd_then (rd_word 32) (\<lambda>d. rd_then (rd_word 4)
    (\<lambda>off. rd_then (rd_word 4) (\<lambda>len. rd_ret (d, off, len))))"
  by (simp add: fun_eq_iff rd_ref_def rd_then_def rd_ret_def)

lemma rd_sector_form [rd_forms]: "rd_sector = rd_then (rd_word 32) (\<lambda>rt. rd_then (rd_word 32)
    (\<lambda>host. rd_ret \<lparr>secRoot = rt, secHost = host\<rparr>))"
  by (simp add: fun_eq_iff rd_sector_def rd_then_def rd_ret_def)

lemma read_object_form [rd_forms]:
  "read_object = rd_then rd_bytes (\<lambda>dkey. rd_then (rd_word 64) (\<lambda>dsig. rd_then rd_bytes (\<lambda>mkey.
     rd_then rd_bytes (\<lambda>meta. rd_then (rd_word 64) (\<lambda>msig. rd_then rd_time (\<lambda>created.
     rd_then rd_time (\<lambda>updated. rd_then (rd_num 2) (\<lambda>n. rd_then (rd_many n rd_ref) (\<lambda>refs.
       rd_ret (\<lparr>soDataKey = dkey, soDataSig = dsig, soMetaKey = mkey, soMeta = meta, soMetaSig = msig,
          soCreated = created, soUpdated = updated,
          soSlabs = map (\<lambda>(d, off, len). blank_slice off len) refs\<rparr>, map fst refs))))))))))"
  by (simp add: fun_eq_iff read_object_def rd_then_def rd_ret_def)

lemma read_slab_form [rd_forms]:
  "read_slab = rd_then (rd_word 32) (\<lambda>key. rd_then (rd_num 2) (\<lambda>shards. rd_then (rd_num 2) (\<lambda>n.
     rd_then (rd_many n rd_sector) (\<lambda>sectors.
       rd_ret \<lparr>ssKey = key, ssMinShards = shards, ssSectors = sectors, ssOffset = 0, ssLength = 0\<rparr>))))"
  by (simp add: fun_eq_iff read_slab_def rd_then_def rd_ret_def)

lemma exact_num [intro]: "exact (rd_num n)"
  unfolding rd_forms by (intro exact_then exact_take exact_ret)

lemma exact_word [intro]: "exact (rd_word n)"
  unfolding rd_forms by (intro exact_then exact_take exact_ret)

lemma exact_time [intro]: "exact rd_time"
  unfolding rd_time_form by (intro exact_then exact_word exact_ret)

lemma exact_bytes [intro]: "exact rd_bytes"
  unfolding rd_bytes_form by (rule exact_then) (auto simp: exact_take exact_ret)

lemma exact_many [intro]: "exact f \<Longrightarrow> exact (rd_many n f)"
  by (induction n) (auto simp only: rd_many_forms intro!: exact_then exact_ret)

lemma exact_ref [intro]: "exact rd_ref"
  unfolding rd_ref_form by (intro exact_then exact_word exact_ret)

lemma exact_sector [intro]: "exact rd_sector"
  unfolding rd_sector_form by (intro exact_then exact_word exact_ret)

lemma exact_object: "exact read_object"
  unfolding read_object_form
  by (intro exact_then exact_bytes exact_word exact_time exact_num exact_many exact_ref exact_ret)

lemma exact_slab: "exact read_slab"
  unfolding read_slab_form by (intro exact_then exact_word exact_num exact_many exact_sector exact_ret)

lemma reads_num: "x < 256 ^ n \<Longrightarrow> reads (rd_num n) (be_bytes n x) x"
  unfolding rd_num_form
  by (simp add: reads_def rd_then_def rd_ret_def rd_take_def)

lemma reads_word:
  fixes x :: "'w::len word"
  shows "LENGTH('w) \<le> 8 * n \<Longrightarrow> reads (rd_word n) (word_bytes n x) x"
  unfolding rd_word_form
  by (simp add: reads_def rd_then_def rd_ret_def rd_take_def)

lemma reads_bytes: "length b < 2 ^ 32 \<Longrightarrow> reads rd_bytes (u32 (length b) @ b) b"
  unfolding rd_bytes_form u32_def
  by (rule reads_then [OF reads_num]) (auto simp: reads_ret reads_take)

lemma reads_many:
  "(\<And>x. x \<in> set xs \<Longrightarrow> reads f (e x) (g x)) \<Longrightarrow>
   reads (rd_many (length xs) f) (concat (map e xs)) (map g xs)"
proof (induction xs)
  case Nil
  then show ?case by (simp add: rd_many_forms reads_ret)
next
  case (Cons x xs)
  have "reads (rd_then (rd_many (length xs) f) (\<lambda>ys. rd_ret (g x # ys))) (concat (map e xs) @ [])
      (g x # map g xs)"
    by (rule reads_then [OF _ reads_ret]) (use Cons in simp)
  then have "reads (rd_many (Suc (length xs)) f) (e x @ concat (map e xs) @ []) (g x # map g xs)"
    unfolding rd_many_forms by (rule reads_then [rotated]) (use Cons.prems in simp)
  then show ?case by (simp del: rd_many.simps)
qed

lemma reads_ref: "reads rd_ref (encode_ref lib s) (skDigest lib s, ssOffset s, ssLength s)"
proof -
  have "reads rd_ref (word_bytes 32 (skDigest lib s) @ word_bytes 4 (ssOffset s)
      @ word_bytes 4 (ssLength s) @ []) (skDigest lib s, ssOffset s, ssLength s)"
    unfolding rd_ref_form by (rule reads_then reads_ret reads_word | simp)+
  then show ?thesis by (simp add: encode_ref_def)
qed

lemma reads_sector: "reads rd_sector (encode_sector x) x"
proof -
  have "reads rd_sector (word_bytes 32 (secRoot x) @ word_bytes 32 (secHost x) @ [])
      \<lparr>secRoot = secRoot x, secHost = secHost x\<rparr>"
    unfolding rd_sector_form by (rule reads_then reads_ret reads_word | simp)+
  then show ?thesis by (cases x) (simp add: encode_sector_def)
qed

section \<open>The layout is its own inverse\<close>

text \<open>What the counters of the layout can hold: lengths, and times within three centuries of 1970.\<close>

definition object_fits :: "sealed_object \<Rightarrow> bool" where
  "object_fits s \<longleftrightarrow> length (soDataKey s) < 2 ^ 32 \<and> length (soMetaKey s) < 2 ^ 32
     \<and> length (soMeta s) < 2 ^ 32 \<and> length (soSlabs s) < 2 ^ 16 \<and> nano_time (soCreated s) \<and> nano_time (soUpdated s)"

definition slab_fits :: "slab_slice \<Rightarrow> bool" where
  "slab_fits s \<longleftrightarrow> ssMinShards s < 2 ^ 16 \<and> length (ssSectors s) < 2 ^ 16"

definition blank_object :: "sealed_object \<Rightarrow> sealed_object" where
  "blank_object s = s\<lparr>soSlabs := map (\<lambda>x. blank_slice (ssOffset x) (ssLength x)) (soSlabs s)\<rparr>"

definition blank_slab :: "slab_slice \<Rightarrow> slab_slice" where
  "blank_slab s = s\<lparr>ssOffset := 0, ssLength := 0\<rparr>"

lemma reads_time: "nano_time t \<Longrightarrow> reads rd_time (word_bytes 8 (UnixNano t)) t"
  using reads_word [of 8 "UnixNano t"] by (simp add: reads_def rd_time_def)

lemma reads_object:
  assumes "object_fits s"
  shows "reads read_object (tl (encodeObject lib s)) (blank_object s, map (skDigest lib) (soSlabs s))"
proof -
  let ?refs = "map (\<lambda>x. (skDigest lib x, ssOffset x, ssLength x)) (soSlabs s)"
  have "reads read_object ((u32 (length (soDataKey s)) @ soDataKey s) @ word_bytes 64 (soDataSig s)
      @ (u32 (length (soMetaKey s)) @ soMetaKey s) @ (u32 (length (soMeta s)) @ soMeta s)
      @ word_bytes 64 (soMetaSig s) @ word_bytes 8 (UnixNano (soCreated s)) @ word_bytes 8 (UnixNano (soUpdated s))
      @ u16 (length (soSlabs s)) @ concat (map (encode_ref lib) (soSlabs s)) @ [])
      (\<lparr>soDataKey = soDataKey s, soDataSig = soDataSig s, soMetaKey = soMetaKey s, soMeta = soMeta s,
        soMetaSig = soMetaSig s, soCreated = soCreated s, soUpdated = soUpdated s,
        soSlabs = map (\<lambda>(d, off, len). blank_slice off len) ?refs\<rparr>, map fst ?refs)"
    unfolding read_object_form u16_def
    by (rule reads_then reads_ret reads_bytes reads_word reads_time reads_num reads_many reads_ref
        | use assms in \<open>simp add: object_fits_def; fail\<close>)+
  then show ?thesis
    by (cases s) (simp add: encodeObject_def Let_def appendBytes_def blank_object_def comp_def)
qed

lemma reads_slab:
  assumes "slab_fits s"
  shows "reads read_slab (tl (encodeSlab s)) (blank_slab s)"
proof -
  have "reads read_slab (word_bytes 32 (ssKey s) @ u16 (ssMinShards s) @ u16 (length (ssSectors s))
      @ concat (map encode_sector (ssSectors s)) @ [])
      \<lparr>ssKey = ssKey s, ssMinShards = ssMinShards s, ssSectors = map (\<lambda>x. x) (ssSectors s),
       ssOffset = 0, ssLength = 0\<rparr>"
    unfolding read_slab_form u16_def
    by (rule reads_then reads_ret reads_word reads_num reads_many reads_sector
        | use assms in \<open>simp add: slab_fits_def; fail\<close>)+
  then show ?thesis by (cases s) (simp add: encodeSlab_def blank_slab_def)
qed

lemma encode_heads [simp]:
  "encodeObject lib s = envelopeVersion # tl (encodeObject lib s)"
  "encodeSlab x = envelopeVersion # tl (encodeSlab x)"
  by (simp_all add: encodeObject_def encodeSlab_def Let_def appendBytes_def)

declare encode_heads [simp del]

lemma decode_with_version:
  "decode_with body (envelopeVersion # b) =
     (case body (b, False) of (x, (_, bad)) \<Rightarrow>
        if bad then Some (fail [ErrStaleLocation] ''cached location is truncated'') else Some (Inr x))"
  by (simp add: decode_with_def rd_take_def)

lemma decode_with_reads:
  assumes "reads body e x"
  shows "decode_with body (envelopeVersion # e) = Some (Inr x)"
proof -
  have "body (e, False) = (x, ([], False))"
    using assms unfolding reads_def by (metis append_Nil2)
  then show ?thesis by (simp add: decode_with_version)
qed

lemma decode_with_cut:
  assumes "exact body" and "reads body e x" and "0 < n" and "n \<le> length e"
  shows "decode_with body (take n (envelopeVersion # e))
    = Some (fail [ErrStaleLocation] ''cached location is truncated'')"
proof -
  have "e = take (n - 1) e @ drop (n - 1) e" "drop (n - 1) e \<noteq> []" using assms(3,4) by auto
  from exact_cut [OF assms(1,2) this] have "snd (snd (body (take (n - 1) e, False)))" .
  moreover have "take n (envelopeVersion # e) = envelopeVersion # take (n - 1) e"
    using assms(3) by (simp add: take_Cons')
  ultimately show ?thesis
    by (cases "body (take (n - 1) e, False)") (auto simp: decode_with_version)
qed

lemma decode_with_panics: "decode_with body b = None \<longleftrightarrow> b = []"
proof (cases b)
  case Nil
  then show ?thesis by (simp add: decode_with_def rd_take_def envelopeVersion_def panic_def)
next
  case (Cons c cs)
  then show ?thesis by (simp add: decode_with_def rd_take_def split: prod.splits)
qed

section \<open>Locations\<close>

type_synonym objref = "256 word"

definition Ref_String :: "objref \<Rightarrow> string" where
  "Ref_String r = hex_encode (be_bytes 32 (unat r))"

definition ParseObjectRef :: "string \<Rightarrow> objref res" where
  "ParseObjectRef s = (case hex_decode s of
     None \<Rightarrow> fail [] ''parse object ref''
   | Some b \<Rightarrow> if length b \<noteq> 32 then fail [] ''parse object ref: want 32''
       else Inr (of_nat (be_val b)))"

record location =
  locRef :: objref
  locSlabs :: "slabid list"
  locBytes :: "byte list"

definition splitLocation :: "slab_lib \<Rightarrow> objref \<Rightarrow> sealed_object \<Rightarrow> location \<times> (slabid \<times> byte list) list" where
  "splitLocation lib ref s =
    (let slabid = (\<lambda>x. skString lib (skDigest lib x)) in
     (\<lparr>locRef = ref, locSlabs = map slabid (soSlabs s), locBytes = encodeObject lib s\<rparr>,
      map (\<lambda>x. (slabid x, encodeSlab x)) (soSlabs s)))"

text \<open>The slices in order, each read from its shared entry and given its own range.\<close>

fun join_slices :: "(slabid \<rightharpoonup> byte list) \<Rightarrow> (slabid \<times> slab_slice) list \<Rightarrow> slab_slice list may_panic" where
  "join_slices shared [] = Some (Inr [])"
| "join_slices shared ((i, own) # xs) =
    (case shared i of
       None \<Rightarrow> Some (fail [ErrStaleLocation] ''no cached metadata for slab'')
     | Some enc \<Rightarrow>
        (case decodeSlab enc of
           None \<Rightarrow> panic
         | Some (Inl e) \<Rightarrow> Some (Inl (wrap_err ''slab: '' e))
         | Some (Inr x) \<Rightarrow>
            map_option (\<lambda>r. case r of Inl e \<Rightarrow> Inl e
                | Inr ys \<Rightarrow> Inr (x\<lparr>ssOffset := ssOffset own, ssLength := ssLength own\<rparr> # ys))
              (join_slices shared xs)))"

definition joinLocation :: "slab_lib \<Rightarrow> location \<Rightarrow> (slabid \<rightharpoonup> byte list) \<Rightarrow> sealed_object may_panic" where
  "joinLocation lib loc shared =
    (if locBytes loc = [] then Some (fail [ErrStaleLocation] ''nothing cached'')
     else case decodeObject lib (locBytes loc) of
       None \<Rightarrow> panic
     | Some (Inl e) \<Rightarrow> Some (Inl e)
     | Some (Inr (s, ids)) \<Rightarrow>
         map_option (\<lambda>r. case r of Inl e \<Rightarrow> Inl e | Inr xs \<Rightarrow> Inr (s\<lparr>soSlabs := xs\<rparr>))
           (join_slices shared (zip ids (soSlabs s))))"

definition checkReachable :: "hash256 set \<Rightarrow> slab_slice list \<Rightarrow> unit res" where
  "checkReachable known xs = first_fail (concat (map (\<lambda>x.
     [check (ssMinShards x = 0 \<or> length (ssSectors x) < ssMinShards x) [ErrStaleLocation]
        ''slab has too few sectors'',
      check (length (filter (\<lambda>c. secHost c \<in> known) (ssSectors x)) < ssMinShards x)
        [ErrStaleLocation] ''slab has too few sectors on hosts the network still lists'']) xs))"

text \<open>
  \<open>DownloadAt\<close>: \<open>open\<close> is the cryptographic opening by the account's key and \<open>download\<close> the reader
  of the indexer's library; the host set is an argument, or the error of fetching it.
\<close>

definition DownloadAt ::
    "slab_lib \<Rightarrow> hash256 set res \<Rightarrow> (sealed_object \<Rightarrow> 'o res) \<Rightarrow> ('o \<Rightarrow> byte list res)
     \<Rightarrow> location \<Rightarrow> (slabid \<rightharpoonup> byte list) \<Rightarrow> byte list may_panic" where
  "DownloadAt lib hosts unseal download loc shared =
    (case joinLocation lib loc shared of
       None \<Rightarrow> panic
     | Some (Inl e) \<Rightarrow> Some (Inl e)
     | Some (Inr s) \<Rightarrow> Some (rbind hosts (\<lambda>known. rbind (checkReachable known (soSlabs s)) (\<lambda>_.
         case unseal s of
           Inl e \<Rightarrow> Inl (GoErr (ErrStaleLocation # wraps e) (why e))
         | Inr obj \<Rightarrow> download obj))))"

lemma ParseObjectRef_String [simp]: "ParseObjectRef (Ref_String r) = Inr r"
proof -
  have "unat r < 256 ^ 32" using unsigned_less [of r] by simp
  then show ?thesis by (simp add: ParseObjectRef_def Ref_String_def)
qed

lemma join_slices_panics: "join_slices shared xs = None \<Longrightarrow> \<exists>i. shared i = Some []"
  by (induction shared xs rule: join_slices.induct)
     (auto simp: decodeSlab_def decode_with_panics panic_def split: option.splits sum.splits)

lemma decodeObject_Some: "b \<noteq> [] \<Longrightarrow> decodeObject lib b \<noteq> None"
  by (simp add: decodeObject_def decode_with_panics)

lemma decode_with_errors: "decode_with body b = Some (Inl e) \<Longrightarrow> errors_Is e ErrStaleLocation"
  by (auto simp: decode_with_def panic_def split: prod.splits if_splits list.splits)

lemma join_slices_errors: "join_slices shared xs = Some (Inl e) \<Longrightarrow> errors_Is e ErrStaleLocation"
proof (induction shared xs rule: join_slices.induct)
  case (2 shared i own xs)
  show ?case
  proof (cases "shared i")
    case None
    with 2(2) show ?thesis by auto
  next
    case (Some enc)
    show ?thesis
    proof (cases "decode_with read_slab enc")
      case None
      with 2(2) Some show ?thesis by (simp add: decodeSlab_def panic_def)
    next
      case (Some r)
      with \<open>shared i = Some enc\<close> 2 show ?thesis
        using decode_with_errors [of read_slab enc]
        by (cases r; cases "join_slices shared xs") (auto simp: decodeSlab_def split: sum.splits)
    qed
  qed
qed simp

lemma joinLocation_errors: "joinLocation lib loc shared = Some (Inl e) \<Longrightarrow> errors_Is e ErrStaleLocation"
  using decode_with_errors [of read_object "locBytes loc"] join_slices_errors [of shared]
  by (auto simp: joinLocation_def decodeObject_def panic_def split: if_splits option.splits sum.splits)

lemma checkReachable_Inr: "checkReachable known xs = Inr u \<longleftrightarrow> (\<forall>x \<in> set xs. 0 < ssMinShards x
    \<and> ssMinShards x \<le> length (filter (\<lambda>c. secHost c \<in> known) (ssSectors x)))"
proof -
  have one: "check (ssMinShards x = 0 \<or> length (ssSectors x) < ssMinShards x) a b = Inr ()
      \<and> check (length (filter P (ssSectors x)) < ssMinShards x) c d = Inr ()
    \<longleftrightarrow> 0 < ssMinShards x \<and> ssMinShards x \<le> length (filter P (ssSectors x))" for x P a b c d
    unfolding check_Inr_iff using length_filter_le [of P "ssSectors x"] by linarith
  have "(\<forall>r \<in> set (concat (map (\<lambda>x. [f x, g x]) ys)). r = Inr ()) \<longleftrightarrow> (\<forall>x \<in> set ys. f x = Inr () \<and> g x = Inr ())"
    for f g :: "slab_slice \<Rightarrow> unit res" and ys by (induction ys) simp_all
  then show ?thesis unfolding checkReachable_def first_fail_Inr_iff by (simp only: one)
qed

lemma checkReachable_errors: "checkReachable known xs = Inl e \<Longrightarrow> errors_Is e ErrStaleLocation"
  unfolding checkReachable_def
  by (drule first_fail_error) (auto simp: check_def split: if_splits)

lemma join_slices_split:
  assumes "\<forall>x \<in> set xs. slab_fits x \<and> shared (f x) = Some (encodeSlab x)"
  shows "join_slices shared (zip (map f xs) (map (\<lambda>x. blank_slice (ssOffset x) (ssLength x)) xs))
    = Some (Inr xs)"
  using assms
proof (induction xs)
  case Nil
  then show ?case by simp
next
  case (Cons x xs)
  have "decodeSlab (encodeSlab x) = Some (Inr (blank_slab x))"
    unfolding decodeSlab_def
    by (subst encode_heads(2), rule decode_with_reads [OF reads_slab]) (use Cons.prems in simp)
  then show ?case using Cons by (simp add: blank_slab_def blank_slice_def)
qed

text \<open>C9. A location survives the cache: split into the object's own part and the parts it shares
  with its slab-mates, and joined again from any cache that holds those parts, it is the location
  the indexer gave, ranges included; in particular however many objects share a slab's entry.\<close>

theorem joinLocation_splitLocation:
  assumes "object_fits s" and "\<forall>x \<in> set (soSlabs s). slab_fits x"
    and "\<forall>(i, enc) \<in> set (snd (splitLocation lib ref s)). shared i = Some enc"
  shows "joinLocation lib (fst (splitLocation lib ref s)) shared = Some (Inr s)"
proof -
  let ?f = "\<lambda>x. skString lib (skDigest lib x)"
  have "decodeObject lib (encodeObject lib s) = Some (Inr (blank_object s, map ?f (soSlabs s)))"
    unfolding decodeObject_def
    by (subst encode_heads(1), subst decode_with_reads [OF reads_object [OF assms(1)]])
       (simp add: comp_def)
  moreover have "join_slices shared (zip (map ?f (soSlabs s))
      (map (\<lambda>x. blank_slice (ssOffset x) (ssLength x)) (soSlabs s))) = Some (Inr (soSlabs s))"
    by (rule join_slices_split) (use assms(2,3) in \<open>auto simp: splitLocation_def Let_def\<close>)
  moreover have "encodeObject lib s \<noteq> []" by (subst encode_heads) simp
  ultimately show ?thesis
    by (simp add: joinLocation_def splitLocation_def Let_def blank_object_def)
qed

definition demo_lib :: slab_lib where
  "demo_lib = \<lparr>skDigest = (\<lambda>x. ssKey x), skString = (\<lambda>d. hex_encode (be_bytes 32 (unat d)))\<rparr>"

definition demo_slice :: slab_slice where
  "demo_slice = \<lparr>ssKey = 5, ssMinShards = 1, ssSectors = [\<lparr>secRoot = 8, secHost = 9\<rparr>],
     ssOffset = 64, ssLength = 100\<rparr>"

definition demo_object :: sealed_object where
  "demo_object = \<lparr>soDataKey = [1, 2], soDataSig = 3, soMetaKey = [], soMeta = [4], soMetaSig = 5,
     soCreated = unixEpoch + 6, soUpdated = unixEpoch + 7, soSlabs = [demo_slice]\<rparr>"

theorem joinLocation_splitLocation_witness:
  "joinLocation demo_lib (fst (splitLocation demo_lib 1 demo_object)) (\<lambda>_. Some (encodeSlab demo_slice))
     = Some (Inr demo_object)"
  by (rule joinLocation_splitLocation)
     (simp_all add: object_fits_def nano_time_def slab_fits_def demo_object_def demo_slice_def splitLocation_def Let_def)

text \<open>C10. What damage to the cache does to a read.  A read through cached bytes fails as a stale location, or with the error of the
  library's reader, or it opens exactly the location the cached parts join to, every slab of which has at least its minimum of
  shards on hosts the network lists.  An encoding cut anywhere is refused as stale, and so is one written in another version.  Other
  damage is caught where the library's opening checks the signatures of the object, not here.  An empty entry for a shared slab ends
  the process: the error of the version check quotes a first byte that is not there.\<close>

theorem DownloadAt_damaged:
  "(DownloadAt lib hosts unseal download loc shared = None \<longrightarrow> (\<exists>i. shared i = Some []))
   \<and> (\<forall>known e. hosts = Inr known \<and> DownloadAt lib hosts unseal download loc shared = Some (Inl e)
        \<longrightarrow> errors_Is e ErrStaleLocation \<or> (\<exists>obj. download obj = Inl e))
   \<and> (\<forall>known b. hosts = Inr known \<and> DownloadAt lib hosts unseal download loc shared = Some (Inr b)
        \<longrightarrow> (\<exists>s obj. joinLocation lib loc shared = Some (Inr s) \<and> unseal s = Inr obj \<and> download obj = Inr b \<and> (\<forall>x \<in> set (soSlabs s). 0 < ssMinShards x
              \<and> ssMinShards x \<le> length (filter (\<lambda>c. secHost c \<in> known) (ssSectors x)))))
   \<and> (object_fits s \<and> 0 < n \<and> n < length (encodeObject lib s) \<longrightarrow>
        decodeObject lib (take n (encodeObject lib s))
          = Some (fail [ErrStaleLocation] ''cached location is truncated''))
   \<and> (slab_fits x \<and> 0 < n \<and> n < length (encodeSlab x) \<longrightarrow>
        decodeSlab (take n (encodeSlab x)) = Some (fail [ErrStaleLocation] ''cached location is truncated''))
   \<and> (v \<noteq> 1 \<longrightarrow> decodeObject lib (v # w) = Some (fail [ErrStaleLocation] ''cached in another layout'')
        \<and> decodeSlab (v # w) = Some (fail [ErrStaleLocation] ''cached in another layout''))
   \<and> decodeSlab [] = None"
proof (intro conjI)
  show "DownloadAt lib hosts unseal download loc shared = None \<longrightarrow> (\<exists>i. shared i = Some [])"
    using join_slices_panics [of shared] decodeObject_Some [of "locBytes loc" lib]
    by (auto simp: DownloadAt_def joinLocation_def panic_def split: option.splits sum.splits if_splits)
  show "\<forall>known e. hosts = Inr known \<and> DownloadAt lib hosts unseal download loc shared = Some (Inl e)
      \<longrightarrow> errors_Is e ErrStaleLocation \<or> (\<exists>obj. download obj = Inl e)"
    using joinLocation_errors [of lib loc shared] checkReachable_errors
    by (auto simp: DownloadAt_def panic_def rbind_Inl_iff split: option.splits sum.splits)
  show "\<forall>known b. hosts = Inr known \<and> DownloadAt lib hosts unseal download loc shared = Some (Inr b)
      \<longrightarrow> (\<exists>s obj. joinLocation lib loc shared = Some (Inr s) \<and> unseal s = Inr obj \<and> download obj = Inr b \<and> (\<forall>x \<in> set (soSlabs s). 0 < ssMinShards x
            \<and> ssMinShards x \<le> length (filter (\<lambda>c. secHost c \<in> known) (ssSectors x))))"
    by (auto simp: DownloadAt_def panic_def rbind_Inr_iff checkReachable_Inr split: option.splits sum.splits)
  show "object_fits s \<and> 0 < n \<and> n < length (encodeObject lib s) \<longrightarrow>
      decodeObject lib (take n (encodeObject lib s))
        = Some (fail [ErrStaleLocation] ''cached location is truncated'')"
  proof (intro impI, elim conjE)
    assume "object_fits s" "0 < n" "n < length (encodeObject lib s)"
    then have "n \<le> length (tl (encodeObject lib s))" by simp
    from decode_with_cut [OF exact_object reads_object [OF \<open>object_fits s\<close>] \<open>0 < n\<close> this]
    show "decodeObject lib (take n (encodeObject lib s))
        = Some (fail [ErrStaleLocation] ''cached location is truncated'')"
      unfolding decodeObject_def encode_heads(1) [symmetric, of lib s] by simp
  qed
  show "slab_fits x \<and> 0 < n \<and> n < length (encodeSlab x) \<longrightarrow>
      decodeSlab (take n (encodeSlab x)) = Some (fail [ErrStaleLocation] ''cached location is truncated'')"
  proof (intro impI, elim conjE)
    assume "slab_fits x" "0 < n" "n < length (encodeSlab x)"
    then have "n \<le> length (tl (encodeSlab x))" by simp
    from decode_with_cut [OF exact_slab reads_slab [OF \<open>slab_fits x\<close>] \<open>0 < n\<close> this]
    show "decodeSlab (take n (encodeSlab x)) = Some (fail [ErrStaleLocation] ''cached location is truncated'')"
      unfolding decodeSlab_def encode_heads(2) [symmetric, of x] by simp
  qed
  show "v \<noteq> 1 \<longrightarrow> decodeObject lib (v # w) = Some (fail [ErrStaleLocation] ''cached in another layout'')
      \<and> decodeSlab (v # w) = Some (fail [ErrStaleLocation] ''cached in another layout'')"
    by (simp add: decodeObject_def decodeSlab_def decode_with_def rd_take_def envelopeVersion_def)
  show "decodeSlab [] = None" by (simp add: decodeSlab_def decode_with_panics)
qed

theorem DownloadAt_damaged_witness:
  "decodeSlab (take 40 (encodeSlab demo_slice))
     = Some (fail [ErrStaleLocation] ''cached location is truncated'')"
  using DownloadAt_damaged [of demo_lib "Inr {}" "\<lambda>_. Inr ()" "\<lambda>_. Inr []"
      "\<lparr>locRef = 0, locSlabs = [], locBytes = []\<rparr>" Map.empty demo_object 40 demo_slice]
  by (simp add: slab_fits_def demo_slice_def encodeSlab_def encode_sector_def)

end
