(* ===== verification/SiaClient.thy ===== *)
theory SiaClient
  imports SiaEnvelope
begin

text \<open>
  Package \<open>sia\<close>, the calls to the indexer (\<open>upload.go\<close>, \<open>pin.go\<close>, \<open>objects.go\<close>, \<open>account.go\<close>), and
  package \<open>store\<close>, the batch write over them.  The indexer and its library are a parameter, the
  record \<open>sdk\<close> of its calls on an abstract state of the network: each may succeed or fail and
  change that state.  \<open>traced\<close> is the same library with every call written to a log, so that what
  the program asks of the network, and in which order, can be stated for any library.
\<close>

section \<open>The indexer's library\<close>

record sdk_object =
  obID :: objref
  obSlabs :: "slab_slice list"
  obSize :: nat

record sdk_event =
  evKey :: objref
  evUpdated :: gotime
  evDeleted :: bool
  evObject :: "sealed_object option"

text \<open>\<open>slabs.Cursor\<close>: the key and time of the last event seen; the zero cursor starts the feed.\<close>

type_synonym cursor = "(objref \<times> gotime) option"

record account =
  acReady :: bool
  acPinnedData :: nat
  acPinnedSize :: nat
  acMaxPinnedData :: nat

record 'n sdk =
  sdkOpen :: "('n, unit) step"
  sdkAdd :: "byte list \<Rightarrow> ('n, unit) step"
  sdkFinalize :: "('n, sdk_object list) step"
  sdkPinSlabs :: "slab_slice list \<Rightarrow> ('n, unit) step"
  sdkPinObject :: "sdk_object \<Rightarrow> ('n, unit) step"
  sdkDeleteObject :: "objref \<Rightarrow> ('n, unit) step"
  sdkUnpinSlab :: "slabid \<Rightarrow> ('n, unit) step"
  sdkDownload :: "objref \<Rightarrow> ('n, byte list) step"
  sdkListObjects :: "cursor \<Rightarrow> ('n, sdk_event list) step"
  sdkSlabIDs :: "nat \<Rightarrow> ('n, slabid list) step"
  sdkAccount :: "('n, account) step"
  sdkUnseal :: "sealed_object \<Rightarrow> sdk_object res"
  sdkLib :: slab_lib
  sdkParseSlab :: "slabid \<Rightarrow> bool"
  sdkSlabGone :: string
  sdkObjectGone :: string

datatype net_call =
    CAdd "byte list" | CFinalize | CPinSlabs "slab_slice list" | CPinObject objref
  | CDelete objref | CUnpin slabid | CDownload objref

definition logged :: "net_call \<Rightarrow> ('n, 'a) step \<Rightarrow> ('n \<times> net_call list, 'a) step" where
  "logged c m s = (case s of (n, tr) \<Rightarrow> case m n of (r, n') \<Rightarrow> (r, (n', tr @ [c])))"

definition unlogged :: "('n, 'a) step \<Rightarrow> ('n \<times> net_call list, 'a) step" where
  "unlogged m s = (case s of (n, tr) \<Rightarrow> case m n of (r, n') \<Rightarrow> (r, (n', tr)))"

definition traced :: "'n sdk \<Rightarrow> ('n \<times> net_call list) sdk" where
  "traced k = \<lparr>sdkOpen = unlogged (sdkOpen k), sdkAdd = (\<lambda>b. logged (CAdd b) (sdkAdd k b)),
     sdkFinalize = logged CFinalize (sdkFinalize k),
     sdkPinSlabs = (\<lambda>xs. logged (CPinSlabs xs) (sdkPinSlabs k xs)),
     sdkPinObject = (\<lambda>x. logged (CPinObject (obID x)) (sdkPinObject k x)),
     sdkDeleteObject = (\<lambda>r. logged (CDelete r) (sdkDeleteObject k r)),
     sdkUnpinSlab = (\<lambda>i. logged (CUnpin i) (sdkUnpinSlab k i)),
     sdkDownload = (\<lambda>r. logged (CDownload r) (sdkDownload k r)),
     sdkListObjects = (\<lambda>c. unlogged (sdkListObjects k c)),
     sdkSlabIDs = (\<lambda>o'. unlogged (sdkSlabIDs k o')), sdkAccount = unlogged (sdkAccount k),
     sdkUnseal = sdkUnseal k, sdkLib = sdkLib k, sdkParseSlab = sdkParseSlab k,
     sdkSlabGone = sdkSlabGone k, sdkObjectGone = sdkObjectGone k\<rparr>"

section \<open>Upload\<close>

record placement =
  plRef :: objref
  plSlab :: slabid
  plBytes :: nat

record batch =
  btObjects :: "sdk_object list"
  btPlacements :: "placement list"

definition slab_name :: "'n sdk \<Rightarrow> slab_slice \<Rightarrow> slabid" where
  "slab_name k x = skString (sdkLib k) (skDigest (sdkLib k) x)"

definition slabOf :: "'n sdk \<Rightarrow> sdk_object \<Rightarrow> slabid" where
  "slabOf k ob = (case obSlabs ob of [] \<Rightarrow> [] | x # _ \<Rightarrow> slab_name k x)"

definition Batch_Slabs :: "batch \<Rightarrow> slabid list" where
  "Batch_Slabs b = distinct_keys [] (filter (\<lambda>i. i \<noteq> []) (map plSlab (btPlacements b)))"

definition UploadPacked :: "'n sdk \<Rightarrow> byte list list \<Rightarrow> ('n, batch) step" where
  "UploadPacked k payloads =
    (if payloads = [] then sret \<lparr>btObjects = [], btPlacements = []\<rparr>
     else sbind (sdkOpen k) (\<lambda>_. sbind (smap_list (sdkAdd k) payloads) (\<lambda>_. sbind (sdkFinalize k) (\<lambda>objects.
       if length objects \<noteq> length payloads
       then sfail (GoErr [] ''packed upload returned a different number of objects'')
       else sret \<lparr>btObjects = objects, btPlacements =
              map (\<lambda>(ob, p). \<lparr>plRef = obID ob, plSlab = slabOf k ob, plBytes = length p\<rparr>)
                (zip objects payloads)\<rparr>))))"

section \<open>Pinning\<close>

text \<open>Each slab of the batch once, by digest, in the order met.\<close>

fun first_by :: "('a \<Rightarrow> 'k) \<Rightarrow> 'k list \<Rightarrow> 'a list \<Rightarrow> 'a list" where
  "first_by f seen [] = []"
| "first_by f seen (x # xs) = (if f x \<in> set seen then first_by f seen xs else x # first_by f (f x # seen) xs)"

definition PinSlabs :: "'n sdk \<Rightarrow> batch \<Rightarrow> ('n, unit) step" where
  "PinSlabs k b =
    (if btObjects b = [] then sret ()
     else let params = first_by (skDigest (sdkLib k)) [] (concat (map obSlabs (btObjects b))) in
       if params = [] then sret () else sdkPinSlabs k params)"

text \<open>
  \<open>inFlight\<close> runs a call per index with a bounded number outstanding and stops at the first
  failure.  The calls take effect one after the other in some order, which is an argument; calls
  already handed out when one fails still take effect, and every error is joined.
\<close>

definition join_errs :: "goerr list \<Rightarrow> goerr" where
  "join_errs es = GoErr (concat (map wraps es)) (concat (map why es))"

fun run_calls :: "(nat \<Rightarrow> ('n, unit) step) \<Rightarrow> nat list \<Rightarrow> goerr list \<Rightarrow> 'n \<Rightarrow> goerr list \<times> 'n" where
  "run_calls f [] errs n = (errs, n)"
| "run_calls f (i # is) errs n =
    (case f i n of (Inl e, n') \<Rightarrow> run_calls f is (errs @ [e]) n' | (Inr _, n') \<Rightarrow> run_calls f is errs n')"

definition inFlight :: "nat list \<Rightarrow> nat \<Rightarrow> (nat \<Rightarrow> ('n, unit) step) \<Rightarrow> ('n, unit) step" where
  "inFlight sched n f s =
    (if n = 0 then (Inr (), s)
     else case run_calls f sched [] s of
       ([], s') \<Rightarrow> if set sched = {..<n} then (Inr (), s') else (Inl (GoErr [] ''context canceled''), s')
     | (errs, s') \<Rightarrow> (Inl (join_errs errs), s'))"

text \<open>The orders a run can have: each index at most once.\<close>

definition schedule :: "nat \<Rightarrow> nat list \<Rightarrow> bool" where
  "schedule n sched \<longleftrightarrow> distinct sched \<and> set sched \<subseteq> {..<n}"

definition PinObjects :: "'n sdk \<Rightarrow> nat list \<Rightarrow> batch \<Rightarrow> ('n, unit) step" where
  "PinObjects k sched b =
    (if btObjects b = [] then sret ()
     else inFlight sched (length (btObjects b)) (\<lambda>i. sdkPinObject k (btObjects b ! i)))"

definition notFoundPhrase :: string where "notFoundPhrase = ''not found''"

definition isSlabGone :: "'n sdk \<Rightarrow> goerr \<Rightarrow> slabid \<Rightarrow> bool" where
  "isSlabGone k e i \<longleftrightarrow> has_sub (sdkSlabGone k) (why e)
     \<or> has_sub i (why e) \<and> has_sub notFoundPhrase (why e)"

definition UnpinSlab :: "'n sdk \<Rightarrow> slabid \<Rightarrow> ('n, unit) step" where
  "UnpinSlab k i n =
    (if \<not> sdkParseSlab k i then (fail [] ''parse slab id'', n)
     else case sdkUnpinSlab k i n of
       (Inr _, n') \<Rightarrow> (Inr (), n')
     | (Inl e, n') \<Rightarrow> if isSlabGone k e i then (Inr (), n') else (Inl (wrap_err ''unpin slab: '' e), n'))"

definition isNotFound :: "'n sdk \<Rightarrow> goerr \<Rightarrow> objref \<Rightarrow> bool" where
  "isNotFound k e r \<longleftrightarrow> has_sub (sdkObjectGone k) (why e)
     \<or> has_sub (Ref_String r) (why e) \<and> has_sub notFoundPhrase (why e)"

definition DeleteObject :: "'n sdk \<Rightarrow> objref \<Rightarrow> ('n, unit) step" where
  "DeleteObject k r n =
    (case sdkDeleteObject k r n of
       (Inr _, n') \<Rightarrow> (Inr (), n')
     | (Inl e, n') \<Rightarrow> if isNotFound k e r then (Inr (), n') else (Inl (wrap_err ''delete object: '' e), n'))"

definition DeleteObjects :: "'n sdk \<Rightarrow> nat list \<Rightarrow> objref list \<Rightarrow> ('n, unit) step" where
  "DeleteObjects k sched refs = inFlight sched (length refs) (\<lambda>i. DeleteObject k (refs ! i))"

definition Account_Free :: "account \<Rightarrow> nat" where
  "Account_Free a = (if acMaxPinnedData a \<le> acPinnedData a then 0 else acMaxPinnedData a - acPinnedData a)"

section \<open>The object feed\<close>

record stored_object =
  stRef :: objref
  stSlab :: slabid
  stBytes :: nat
  stUpdated :: gotime
  stObject :: sdk_object

record walk_stats =
  wsPages :: nat
  wsEvents :: nat
  wsDeleted :: nat
  wsSuperseded :: nat
  wsLive :: nat
  wsUnreadable :: "objref list"

record walk =
  wkStats :: walk_stats
  wkCursor :: cursor
  wkLive :: "objref \<rightharpoonup> stored_object"
  wkOrder :: "objref list"

definition walk_start :: walk where
  "walk_start = \<lparr>wkStats = \<lparr>wsPages = 0, wsEvents = 0, wsDeleted = 0, wsSuperseded = 0, wsLive = 0,
     wsUnreadable = []\<rparr>, wkCursor = None, wkLive = Map.empty, wkOrder = []\<rparr>"

text \<open>One event; \<open>seen\<close> of the code holds the keys of \<open>order\<close>.\<close>

definition walk_event :: "'n sdk \<Rightarrow> sdk_event \<Rightarrow> walk \<Rightarrow> walk" where
  "walk_event k e w =
    (let w = w\<lparr>wkCursor := Some (evKey e, evUpdated e)\<rparr>;
         w = (if evKey e \<in> set (wkOrder w)
              then w\<lparr>wkStats := (wkStats w)\<lparr>wsSuperseded := Suc (wsSuperseded (wkStats w))\<rparr>\<rparr>
              else w\<lparr>wkOrder := wkOrder w @ [evKey e]\<rparr>) in
     if evDeleted e \<or> evObject e = None then
       w\<lparr>wkStats := (wkStats w)\<lparr>wsDeleted := Suc (wsDeleted (wkStats w))\<rparr>, wkLive := (wkLive w)(evKey e := None)\<rparr>
     else case sdkUnseal k (the (evObject e)) of
       Inl err \<Rightarrow> w\<lparr>wkStats := (wkStats w)\<lparr>wsUnreadable := wsUnreadable (wkStats w) @ [evKey e]\<rparr>,
                    wkLive := (wkLive w)(evKey e := None)\<rparr>
     | Inr ob \<Rightarrow> w\<lparr>wkLive := (wkLive w)(evKey e \<mapsto> \<lparr>stRef = evKey e, stSlab = slabOf k ob,
                    stBytes = obSize ob, stUpdated = evUpdated e, stObject = ob\<rparr>)\<rparr>)"

definition walk_page :: "'n sdk \<Rightarrow> sdk_event list \<Rightarrow> walk \<Rightarrow> walk" where
  "walk_page k es w = fold (walk_event k) es (w\<lparr>wkStats := (wkStats w)
     \<lparr>wsPages := Suc (wsPages (wkStats w)), wsEvents := wsEvents (wkStats w) + length es\<rparr>\<rparr>)"

text \<open>The pages of the feed until an empty one; a feed that never ends is no result.\<close>

partial_function (option) walk_pages :: "'n sdk \<Rightarrow> walk \<Rightarrow> 'n \<Rightarrow> (walk res \<times> 'n) option" where
  "walk_pages k w n =
    (case sdkListObjects k (wkCursor w) n of
       (Inl e, n') \<Rightarrow> Some (Inl (wrap_err ''list the account's objects'' e), n')
     | (Inr es, n') \<Rightarrow> if es = [] then Some (Inr w, n') else walk_pages k (walk_page k es w) n')"

definition walk_result :: "walk \<Rightarrow> walk_stats \<times> stored_object list" where
  "walk_result w =
    (let out = map (\<lambda>r. the (wkLive w r)) (filter (\<lambda>r. wkLive w r \<noteq> None) (wkOrder w))
     in ((wkStats w)\<lparr>wsLive := length out\<rparr>, out))"

text \<open>
  The statistics counted so far are also returned beside an error, where the callers copy them into a report that is itself returned beside
  that error; the model leaves both out.
\<close>

definition WalkObjectsStats ::
    "'n sdk \<Rightarrow> 'n \<Rightarrow> ((walk_stats \<times> stored_object list) res \<times> 'n) option" where
  "WalkObjectsStats k n = map_option (\<lambda>(r, n'). (map_sum id walk_result r, n')) (walk_pages k walk_start n)"

partial_function (option) slab_pages :: "'n sdk \<Rightarrow> nat \<Rightarrow> slabid list \<Rightarrow> 'n \<Rightarrow> (slabid list res \<times> 'n) option" where
  "slab_pages k off out n =
    (case sdkSlabIDs k off n of
       (Inl e, n') \<Rightarrow> Some (Inl (wrap_err ''list pinned slabs: '' e), n')
     | (Inr page, n') \<Rightarrow> if length page < 500 then Some (Inr (out @ page), n')
         else slab_pages k (off + 500) (out @ page) n')"

definition PinnedSlabs :: "'n sdk \<Rightarrow> 'n \<Rightarrow> (slabid list res \<times> 'n) option" where
  "PinnedSlabs k = slab_pages k 0 []"

section \<open>The batch write\<close>

record blob =
  blCID :: string
  blPayload :: "byte list"

record written =
  wrCID :: string
  wrRef :: objref
  wrSlab :: slabid
  wrBytes :: nat

record flush =
  fWritten :: "written list"
  fSlabs :: "slabid list"

definition Flush_Bytes :: "flush \<Rightarrow> nat" where
  "Flush_Bytes f = sum_list (map wrBytes (fWritten f))"

definition PutBatch :: "'n sdk \<Rightarrow> nat list \<Rightarrow> blob list \<Rightarrow> ('n, flush) step" where
  "PutBatch k sched blobs =
    (if blobs = [] then sret \<lparr>fWritten = [], fSlabs = []\<rparr>
     else sbind (UploadPacked k (map blPayload blobs)) (\<lambda>b.
       sbind (PinSlabs k b) (\<lambda>_. sbind (PinObjects k sched b) (\<lambda>_.
         sret \<lparr>fWritten = map (\<lambda>(p, bl). \<lparr>wrCID = blCID bl, wrRef = plRef p, wrSlab = plSlab p,
                  wrBytes = plBytes p\<rparr>) (zip (btPlacements b) blobs),
               fSlabs = Batch_Slabs b\<rparr>))))"

section \<open>What is asked of the network\<close>

lemma traced_sel [simp]:
  "sdkAdd (traced k) b = logged (CAdd b) (sdkAdd k b)"
  "sdkOpen (traced k) = unlogged (sdkOpen k)"
  "sdkFinalize (traced k) = logged CFinalize (sdkFinalize k)"
  "sdkPinSlabs (traced k) xs = logged (CPinSlabs xs) (sdkPinSlabs k xs)"
  "sdkPinObject (traced k) x = logged (CPinObject (obID x)) (sdkPinObject k x)"
  "sdkDeleteObject (traced k) r = logged (CDelete r) (sdkDeleteObject k r)"
  "sdkUnpinSlab (traced k) i = logged (CUnpin i) (sdkUnpinSlab k i)"
  "sdkDownload (traced k) r = logged (CDownload r) (sdkDownload k r)"
  "sdkListObjects (traced k) c = unlogged (sdkListObjects k c)"
  "sdkSlabIDs (traced k) n = unlogged (sdkSlabIDs k n)"
  "sdkAccount (traced k) = unlogged (sdkAccount k)"
  "sdkUnseal (traced k) = sdkUnseal k" "sdkLib (traced k) = sdkLib k"
  "sdkParseSlab (traced k) = sdkParseSlab k"
  "sdkSlabGone (traced k) = sdkSlabGone k" "sdkObjectGone (traced k) = sdkObjectGone k"
  by (simp_all add: traced_def)

lemma traced_names [simp]:
  "slab_name (traced k) x = slab_name k x" "slabOf (traced k) ob = slabOf k ob"
  by (simp_all add: slab_name_def slabOf_def cong: list.case_cong)

lemma traced_gone [simp]:
  "isSlabGone (traced k) e i = isSlabGone k e i" "isNotFound (traced k) e r = isNotFound k e r"
  by (simp_all add: isSlabGone_def isNotFound_def)

lemma snd_logged [simp]: "snd (snd (logged c m s)) = snd s @ [c]"
  by (auto simp: logged_def split: prod.splits)

lemma snd_unlogged [simp]: "snd (snd (unlogged m s)) = snd s"
  by (auto simp: unlogged_def split: prod.splits)

lemma logged_Pair: "logged c m s = (r, (n, tr)) \<Longrightarrow> tr = snd s @ [c]"
  using snd_logged [of c m s] by simp

lemma unlogged_Pair: "unlogged m s = (r, (n, tr)) \<Longrightarrow> tr = snd s"
  using snd_unlogged [of m s] by simp

lemma smap_logged:
  "smap_list (\<lambda>x. logged (c x) (m x)) xs s = (Inr u, s') \<Longrightarrow> snd s' = snd s @ map c xs"
proof (induction xs arbitrary: s)
  case Nil
  then show ?case by (simp add: sret_def)
next
  case (Cons x xs)
  then obtain s1 y where "logged (c x) (m x) s = (Inr y, s1)"
    "smap_list (\<lambda>x. logged (c x) (m x)) xs s1 = (Inr u, s')"
    by (auto simp: sbind_Inr_iff)
  then show ?case using Cons.IH [of s1] snd_logged [of "c x" "m x" s] by simp
qed

text \<open>The log aside, a traced call is the call.\<close>

lemma fst_logged: "logged c m s = (r, t) \<Longrightarrow> m (fst s) = (r, fst t)"
  by (auto simp: logged_def split: prod.splits)

lemma fst_unlogged: "unlogged m s = (r, t) \<Longrightarrow> m (fst s) = (r, fst t)"
  by (auto simp: unlogged_def split: prod.splits)

lemma smap_untraced:
  "smap_list (\<lambda>x. logged (c x) (m x)) xs s = (Inr u, s') \<Longrightarrow> smap_list m xs (fst s) = (Inr (), fst s')"
proof (induction xs arbitrary: s)
  case Nil
  then show ?case by (simp add: sret_def)
next
  case (Cons x xs)
  then obtain s1 y where "logged (c x) (m x) s = (Inr y, s1)"
    "smap_list (\<lambda>x. logged (c x) (m x)) xs s1 = (Inr u, s')"
    by (auto simp: sbind_Inr_iff)
  then show ?case using Cons.IH [of s1] fst_logged [of "c x" "m x" s] by (simp add: sbind_def)
qed

lemma run_calls_keeps: "run_calls f is errs n = ([], n') \<Longrightarrow> errs = []"
proof (induction "is" arbitrary: errs n)
  case Nil
  then show ?case by simp
next
  case (Cons i "is")
  obtain r n1 where "f i n = (r, n1)" by (cases "f i n")
  with Cons show ?case by (cases r) (auto dest: Cons.IH)
qed

text \<open>A property each call keeps, and the log of calls that each add one entry.\<close>

lemma run_calls_inv:
  assumes "\<And>i n. P n \<Longrightarrow> P (snd (f i n))" and "P n"
  shows "P (snd (run_calls f is errs n))"
  using assms(2)
proof (induction "is" arbitrary: errs n)
  case Nil
  then show ?case by simp
next
  case (Cons i "is")
  obtain r n1 where r: "f i n = (r, n1)" by (cases "f i n")
  then have "P n1" using assms(1) [OF Cons.prems, of i] by simp
  then show ?case using Cons.IH r by (cases r) simp_all
qed

lemma run_calls_log:
  assumes "\<And>i s. snd (snd (f i s)) = snd s @ [c i]"
  shows "snd (snd (run_calls f is errs s)) = snd s @ map c is"
proof (induction "is" arbitrary: errs s)
  case Nil
  then show ?case by simp
next
  case (Cons i "is")
  obtain r s1 where r: "f i s = (r, s1)" by (cases "f i s")
  then have "snd s1 = snd s @ [c i]" using assms [of i s] by simp
  then show ?case using Cons.IH r by (cases r) simp_all
qed

lemma inFlight_log:
  assumes "\<And>i s. snd (snd (f i s)) = snd s @ [c i]" and "0 < n"
  shows "snd (snd (inFlight sched n f s)) = snd s @ map c sched"
  using run_calls_log [of f c sched "[]" s] assms
  by (auto simp: inFlight_def split: prod.splits list.splits)

lemma inFlight_complete:
  assumes "inFlight sched n f s = (Inr u, s')" and "schedule n sched"
  shows "mset sched = mset [0..<n] \<or> n = 0"
proof (cases "n = 0")
  case False
  with assms(1) have "set sched = {..<n}"
    by (auto simp: inFlight_def split: prod.splits list.splits if_splits)
  then have "set sched = set [0..<n]" by (simp add: atLeast0LessThan)
  then show ?thesis
    using assms(2) set_eq_iff_mset_eq_distinct [of sched "[0..<n]"] by (simp add: schedule_def)
qed simp

lemma UnpinSlab_log:
  "snd (snd (UnpinSlab (traced k) i s)) = snd s @ (if sdkParseSlab k i then [CUnpin i] else [])"
  by (auto simp: UnpinSlab_def dest: logged_Pair split: prod.splits sum.splits)

lemma DeleteObject_log: "snd (snd (DeleteObject (traced k) r s)) = snd s @ [CDelete r]"
  by (auto simp: DeleteObject_def dest: logged_Pair split: prod.splits sum.splits)

lemma DeleteObjects_log:
  "snd (snd (DeleteObjects (traced k) sched refs s))
    = snd s @ (if refs = [] then [] else map (\<lambda>i. CDelete (refs ! i)) sched)"
proof (cases "refs = []")
  case True
  then show ?thesis by (simp add: DeleteObjects_def inFlight_def)
next
  case False
  then show ?thesis
    using inFlight_log [of "\<lambda>i. DeleteObject (traced k) (refs ! i)" "\<lambda>i. CDelete (refs ! i)" "length refs" sched s]
      DeleteObject_log [of k] by (simp add: DeleteObjects_def)
qed

lemma first_by_covers:
  "f x \<in> f ` set (first_by f seen xs) \<union> set seen" if "x \<in> set xs"
  using that
proof (induction xs arbitrary: seen)
  case Nil
  then show ?case by simp
next
  case (Cons a xs)
  then show ?case using Cons.IH [of seen] Cons.IH [of "f a # seen"] by auto
qed

lemma first_by_distinct: "distinct (map f (first_by f seen xs)) \<and> set (map f (first_by f seen xs)) \<inter> set seen = {}"
proof (induction xs arbitrary: seen)
  case Nil
  then show ?case by simp
next
  case (Cons x xs)
  then show ?case using Cons.IH [of "f x # seen"] by auto
qed

lemma first_by_subset: "set (first_by f seen xs) \<subseteq> set xs"
proof (induction xs arbitrary: seen)
  case Nil
  then show ?case by simp
next
  case (Cons a xs)
  show ?case using Cons.IH [of seen] Cons.IH [of "f a # seen"] by auto
qed

lemma UploadPacked_traced:
  assumes "UploadPacked (traced k) payloads (n, tr) = (Inr b, (n', tr'))" and "payloads \<noteq> []"
  shows "tr' = tr @ map CAdd payloads @ [CFinalize]" "length (btObjects b) = length payloads"
    "btPlacements b = map (\<lambda>(ob, p). \<lparr>plRef = obID ob, plSlab = slabOf k ob, plBytes = length p\<rparr>)
       (zip (btObjects b) payloads)"
    "\<exists>n0 n1 n2. sdkOpen k n = (Inr (), n0) \<and> smap_list (sdkAdd k) payloads n0 = (Inr (), n1)
       \<and> sdkFinalize k n1 = (Inr (btObjects b), n2)"
proof -
  obtain s1 s2 u1 u2 obs where
    o: "unlogged (sdkOpen k) (n, tr) = (Inr u1, s1)"
    and a: "smap_list (\<lambda>p. logged (CAdd p) (sdkAdd k p)) payloads s1 = (Inr u2, s2)"
    and f: "logged CFinalize (sdkFinalize k) s2 = (Inr obs, (n', tr'))"
    and b: "length obs = length payloads" "b = \<lparr>btObjects = obs, btPlacements =
       map (\<lambda>(ob, p). \<lparr>plRef = obID ob, plSlab = slabOf k ob, plBytes = length p\<rparr>) (zip obs payloads)\<rparr>"
    using assms unfolding UploadPacked_def sbind_Inr_iff traced_sel if_not_P [OF assms(2)] slabOf_def [symmetric]
    by (simp split: if_splits add: sfail_def sret_def sbind_Inr_iff)
  have "snd s1 = tr" using snd_unlogged [of "sdkOpen k" "(n, tr)"] o by simp
  moreover have "snd s2 = snd s1 @ map CAdd payloads" by (rule smap_logged [OF a])
  moreover have "tr' = snd s2 @ [CFinalize]" by (rule logged_Pair [OF f])
  ultimately show "tr' = tr @ map CAdd payloads @ [CFinalize]" by simp
  show "length (btObjects b) = length payloads"
    "btPlacements b = map (\<lambda>(ob, p). \<lparr>plRef = obID ob, plSlab = slabOf k ob, plBytes = length p\<rparr>)
       (zip (btObjects b) payloads)"
    using b by simp_all
  show "\<exists>n0 n1 n2. sdkOpen k n = (Inr (), n0) \<and> smap_list (sdkAdd k) payloads n0 = (Inr (), n1)
       \<and> sdkFinalize k n1 = (Inr (btObjects b), n2)"
    using fst_unlogged [OF o] smap_untraced [OF a] fst_logged [OF f] b(2) by auto
qed

lemma PutBatch_traced:
  assumes "PutBatch (traced k) sched blobs (n, tr) = (Inr f, (n', tr'))" and "blobs \<noteq> []"
    and "schedule (length blobs) sched"
  shows "\<exists>obs params pins. length obs = length blobs
    \<and> (\<exists>n0 n1 n2. sdkOpen k n = (Inr (), n0) \<and> smap_list (sdkAdd k) (map blPayload blobs) n0 = (Inr (), n1)
         \<and> sdkFinalize k n1 = (Inr obs, n2))
    \<and> set params \<subseteq> (\<Union>ob \<in> set obs. set (obSlabs ob))
    \<and> tr' = tr @ map CAdd (map blPayload blobs) @ [CFinalize]
        @ (if params = [] then [] else [CPinSlabs params]) @ map CPinObject pins
    \<and> distinct (map (skDigest (sdkLib k)) params)
    \<and> (\<forall>ob \<in> set obs. skDigest (sdkLib k) ` set (obSlabs ob) \<subseteq> skDigest (sdkLib k) ` set params)
    \<and> mset pins = mset (map obID obs)
    \<and> map wrCID (fWritten f) = map blCID blobs \<and> map wrRef (fWritten f) = map obID obs
    \<and> map wrSlab (fWritten f) = map (slabOf k) obs
    \<and> map wrBytes (fWritten f) = map (length \<circ> blPayload) blobs
    \<and> distinct (fSlabs f) \<and> set (fSlabs f) = set (map (slabOf k) obs) - {[]}"
proof -
  obtain b s1 s2 u1 u2 where
    up: "UploadPacked (traced k) (map blPayload blobs) (n, tr) = (Inr b, s1)"
    and ps: "PinSlabs (traced k) b s1 = (Inr u1, s2)"
    and po: "PinObjects (traced k) sched b s2 = (Inr u2, (n', tr'))"
    and f: "f = \<lparr>fWritten = map (\<lambda>(p, bl). \<lparr>wrCID = blCID bl, wrRef = plRef p, wrSlab = plSlab p,
        wrBytes = plBytes p\<rparr>) (zip (btPlacements b) blobs), fSlabs = Batch_Slabs b\<rparr>"
    using assms(1,2) by (auto simp: PutBatch_def sbind_Inr_iff sret_def)
  obtain n1 tr1 where s1: "s1 = (n1, tr1)" by (cases s1)
  note U = UploadPacked_traced [OF up [unfolded s1]]
  let ?obs = "btObjects b" and ?d = "skDigest (sdkLib k)"
  have ne: "?obs \<noteq> []" and len: "length ?obs = length blobs" using U(2) assms(2) by auto
  define params where "params = first_by ?d [] (concat (map obSlabs ?obs))"
  have s2: "snd s2 = tr1 @ (if params = [] then [] else [CPinSlabs params])"
    using ps ne s1
    by (cases s2) (auto simp: PinSlabs_def Let_def params_def sret_def dest: logged_Pair split: if_splits)
  have fl: "inFlight sched (length ?obs) (\<lambda>i. logged (CPinObject (obID (?obs ! i))) (sdkPinObject k (?obs ! i))) s2
      = (Inr u2, (n', tr'))"
    using po ne by (simp add: PinObjects_def)
  have "tr' = snd s2 @ map (\<lambda>i. CPinObject (obID (?obs ! i))) sched"
    using inFlight_log [of "\<lambda>i. logged (CPinObject (obID (?obs ! i))) (sdkPinObject k (?obs ! i))"
        "\<lambda>i. CPinObject (obID (?obs ! i))" "length ?obs" sched s2] fl ne by simp
  moreover have "mset sched = mset [0..<length ?obs]"
    using inFlight_complete [OF fl] assms(2,3) len by simp
  then have "mset (map (\<lambda>i. obID (?obs ! i)) sched) = mset (map (\<lambda>i. obID (?obs ! i)) [0..<length ?obs])"
    by (simp only: mset_map)
  then have "mset (map (\<lambda>i. obID (?obs ! i)) sched) = mset (map obID ?obs)"
    using arg_cong [OF map_nth [of ?obs], of "map obID"] by (simp only: map_map comp_def)
  moreover have "?d ` set (obSlabs ob) \<subseteq> ?d ` set params" if "ob \<in> set ?obs" for ob
    using first_by_covers [of _ "concat (map obSlabs ?obs)" ?d "[]"] that by (fastforce simp: params_def)
  moreover have "set params \<subseteq> (\<Union>ob \<in> set ?obs. set (obSlabs ob))"
    using first_by_subset [of ?d "[]" "concat (map obSlabs ?obs)"] by (simp add: params_def)
  moreover have "\<exists>n0 n1 n2. sdkOpen k n = (Inr (), n0) \<and> smap_list (sdkAdd k) (map blPayload blobs) n0 = (Inr (), n1)
       \<and> sdkFinalize k n1 = (Inr ?obs, n2)" using U(4) assms(2) by simp
  moreover have "distinct (map ?d params)" using first_by_distinct [of ?d "[]"] by (simp add: params_def)
  moreover have pl: "map plSlab (btPlacements b) = map (slabOf k) ?obs"
    "map plRef (btPlacements b) = map obID ?obs" "map plBytes (btPlacements b) = map (length \<circ> blPayload) blobs"
    using U(2,3) assms(2) by (auto intro!: nth_equalityI)
  moreover have lp: "length (btPlacements b) = length blobs" using U(2,3) assms(2) by simp
  have "map wrCID (fWritten f) = map blCID blobs" "map wrRef (fWritten f) = map plRef (btPlacements b)"
    "map wrSlab (fWritten f) = map plSlab (btPlacements b)"
    "map wrBytes (fWritten f) = map plBytes (btPlacements b)"
    using lp by (auto simp: f intro!: nth_equalityI)
  moreover have "distinct (fSlabs f)" "set (fSlabs f) = set (map (slabOf k) ?obs) - {[]}"
    using distinct_distinct_keys [of "[]"] pl(1) by (auto simp: f Batch_Slabs_def)
  ultimately show ?thesis
    using U(1) s2 len assms(2)
    by (intro exI [of _ ?obs] exI [of _ params] exI [of _ "map (\<lambda>i. obID (?obs ! i)) sched"])
       (simp add: s1 comp_def)
qed

text \<open>C13. A batch that is reported written was asked for in the one order that makes it retrievable:
  all payloads packed in order and finalized, then each slab of the batch pinned once, then every
  object pinned; and the report names, for each blob in order, its own content address, the object
  at its place among those the finalized upload returned, and that object's first slab.  Whatever the network does, and in
  whatever order the concurrent object pins take effect.\<close>

theorem PutBatch_correct:
  assumes "PutBatch (traced k) sched blobs (n, tr) = (Inr f, (n', tr'))" and "blobs \<noteq> []"
    and "schedule (length blobs) sched"
  shows "\<exists>obs params pins. length obs = length blobs
    \<and> (\<exists>n0 n1 n2. sdkOpen k n = (Inr (), n0) \<and> smap_list (sdkAdd k) (map blPayload blobs) n0 = (Inr (), n1)
         \<and> sdkFinalize k n1 = (Inr obs, n2))
    \<and> set params \<subseteq> (\<Union>ob \<in> set obs. set (obSlabs ob))
    \<and> tr' = tr @ map CAdd (map blPayload blobs) @ [CFinalize]
        @ (if params = [] then [] else [CPinSlabs params]) @ map CPinObject pins
    \<and> distinct (map (skDigest (sdkLib k)) params)
    \<and> (\<forall>ob \<in> set obs. skDigest (sdkLib k) ` set (obSlabs ob) \<subseteq> skDigest (sdkLib k) ` set params)
    \<and> mset pins = mset (map obID obs)
    \<and> map wrCID (fWritten f) = map blCID blobs \<and> map wrRef (fWritten f) = map obID obs
    \<and> map wrSlab (fWritten f) = map (slabOf k) obs
    \<and> map wrBytes (fWritten f) = map (length \<circ> blPayload) blobs
    \<and> distinct (fSlabs f) \<and> set (fSlabs f) = set (map (slabOf k) obs) - {[]}"
  by (rule PutBatch_traced [OF assms])

text \<open>A network that keeps what it is sent: its state is the payloads of the open upload.\<close>

definition demo_sdk :: "byte list list sdk" where
  "demo_sdk = \<lparr>sdkOpen = (\<lambda>_. (Inr (), [])), sdkAdd = (\<lambda>b up. (Inr (), up @ [b])),
     sdkFinalize = (\<lambda>up. (Inr (map (\<lambda>i. \<lparr>obID = of_nat i + 1, obSlabs = [demo_slice], obSize = 1\<rparr>)
        [0..<length up]), up)),
     sdkPinSlabs = (\<lambda>_ up. (Inr (), up)), sdkPinObject = (\<lambda>_ up. (Inr (), up)),
     sdkDeleteObject = (\<lambda>_ up. (Inr (), up)), sdkUnpinSlab = (\<lambda>_ up. (Inr (), up)),
     sdkDownload = (\<lambda>_ up. (Inr [], up)), sdkListObjects = (\<lambda>_ up. (Inr [], up)),
     sdkSlabIDs = (\<lambda>_ up. (Inr [], up)),
     sdkAccount = (\<lambda>up. (Inr \<lparr>acReady = True, acPinnedData = 0, acPinnedSize = 0, acMaxPinnedData = 0\<rparr>, up)),
     sdkUnseal = (\<lambda>s. Inr \<lparr>obID = 0, obSlabs = soSlabs s, obSize = 1\<rparr>), sdkLib = demo_lib,
     sdkParseSlab = (\<lambda>_. True), sdkSlabGone = ''slab not found'', sdkObjectGone = ''object not found''\<rparr>"

lemmas eval_put = PutBatch_def UploadPacked_def PinSlabs_def PinObjects_def inFlight_def sbind_def
  sret_def demo_sdk_def logged_def unlogged_def demo_slice_def demo_lib_def

theorem PutBatch_correct_witness:
  "\<exists>f s. PutBatch (traced demo_sdk) [1, 0] [\<lparr>blCID = ''a'', blPayload = [7]\<rparr>, \<lparr>blCID = ''b'', blPayload = []\<rparr>]
      ([], []) = (Inr f, s) \<and> map wrCID (fWritten f) = [''a'', ''b'']"
proof -
  let ?bs = "[\<lparr>blCID = ''a'', blPayload = [7 :: byte]\<rparr>, \<lparr>blCID = ''b'', blPayload = []\<rparr>]"
  have "\<exists>f n tr. PutBatch (traced demo_sdk) [1, 0] ?bs ([], []) = (Inr f, (n, tr))"
    by (simp add: eval_put upt_rec lessThan_Suc atLeast0_lessThan_Suc numeral_2_eq_2 insert_commute)
  then obtain f n tr where p: "PutBatch (traced demo_sdk) [1, 0] ?bs ([], []) = (Inr f, (n, tr))" by blast
  have "schedule (length ?bs) [1, 0]" by (simp add: schedule_def)
  from PutBatch_correct [OF p _ this] have "map wrCID (fWritten f) = [''a'', ''b'']" by auto
  with p show ?thesis by (intro exI [of _ f] exI [of _ "(n, tr)"]) simp
qed

section \<open>The feed, collapsed\<close>

definition event_object :: "'n sdk \<Rightarrow> sdk_event \<Rightarrow> stored_object option" where
  "event_object k e =
    (if evDeleted e then None else case evObject e of None \<Rightarrow> None
     | Some s \<Rightarrow> (case sdkUnseal k s of Inl _ \<Rightarrow> None
        | Inr ob \<Rightarrow> Some \<lparr>stRef = evKey e, stSlab = slabOf k ob, stBytes = obSize ob, stUpdated = evUpdated e, stObject = ob\<rparr>))"

definition unreadable :: "'n sdk \<Rightarrow> sdk_event \<Rightarrow> bool" where
  "unreadable k e \<longleftrightarrow> \<not> evDeleted e \<and> (\<exists>s err. evObject e = Some s \<and> sdkUnseal k s = Inl err)"

text \<open>The last event of a key decides.\<close>

definition last_object :: "'n sdk \<Rightarrow> sdk_event list \<Rightarrow> objref \<Rightarrow> stored_object option" where
  "last_object k es r = (case List.find (\<lambda>e. evKey e = r) (rev es) of None \<Rightarrow> None | Some e \<Rightarrow> event_object k e)"

definition cursor_after :: "sdk_event list \<Rightarrow> cursor" where
  "cursor_after es = (if es = [] then None else Some (evKey (last es), evUpdated (last es)))"

lemma walk_event_parts:
  "wkLive (walk_event k e w) = (wkLive w)(evKey e := event_object k e)"
  "wkOrder (walk_event k e w) = distinct_keys (wkOrder w) [evKey e]"
  "wkCursor (walk_event k e w) = Some (evKey e, evUpdated e)"
  "wsUnreadable (wkStats (walk_event k e w)) = wsUnreadable (wkStats w) @ (if unreadable k e then [evKey e] else [])"
  "wsEvents (wkStats (walk_event k e w)) = wsEvents (wkStats w)"
  by (auto simp: walk_event_def Let_def event_object_def unreadable_def fun_eq_iff split: option.splits sum.splits)

lemma walk_fold_parts:
  "wkLive (fold (walk_event k) es w) r =
     (case List.find (\<lambda>e. evKey e = r) (rev es) of None \<Rightarrow> wkLive w r | Some e \<Rightarrow> event_object k e)
   \<and> wkOrder (fold (walk_event k) es w) = distinct_keys (wkOrder w) (map evKey es)
   \<and> wkCursor (fold (walk_event k) es w) = (if es = [] then wkCursor w else cursor_after es)
   \<and> wsUnreadable (wkStats (fold (walk_event k) es w))
       = wsUnreadable (wkStats w) @ map evKey (filter (unreadable k) es)
   \<and> wsEvents (wkStats (fold (walk_event k) es w)) = wsEvents (wkStats w)"
proof (induction es rule: rev_induct)
  case Nil
  then show ?case by simp
next
  case (snoc e es)
  then show ?case by (simp add: walk_event_parts distinct_keys_append cursor_after_def)
qed

lemma walk_page_parts:
  "wkLive (walk_page k es w) = wkLive (fold (walk_event k) es w)"
  "wkOrder (walk_page k es w) = wkOrder (fold (walk_event k) es w)"
  "wkCursor (walk_page k es w) = wkCursor (fold (walk_event k) es w)"
  "wsUnreadable (wkStats (walk_page k es w)) = wsUnreadable (wkStats (fold (walk_event k) es w))"
  "wsEvents (wkStats (walk_page k es w)) = wsEvents (wkStats w) + length es"
proof -
  let ?w = "w\<lparr>wkStats := (wkStats w)\<lparr>wsPages := Suc (wsPages (wkStats w)), wsEvents := wsEvents (wkStats w) + length es\<rparr>\<rparr>"
  note A = walk_fold_parts [of k es ?w] and B = walk_fold_parts [of k es w]
  show "wkLive (walk_page k es w) = wkLive (fold (walk_event k) es w)"
  proof
    fix r show "wkLive (walk_page k es w) r = wkLive (fold (walk_event k) es w) r"
      using A [of r] B [of r] by (auto simp: walk_page_def split: option.splits)
  qed
  show "wkOrder (walk_page k es w) = wkOrder (fold (walk_event k) es w)"
    "wkCursor (walk_page k es w) = wkCursor (fold (walk_event k) es w)"
    "wsUnreadable (wkStats (walk_page k es w)) = wsUnreadable (wkStats (fold (walk_event k) es w))"
    "wsEvents (wkStats (walk_page k es w)) = wsEvents (wkStats w) + length es"
    using A [of 0] B [of 0] by (auto simp: walk_page_def)
qed

text \<open>
  A feed that does not change while it is read: from the cursor of any prefix the service answers
  with a non-empty part of the rest, if any is left.
\<close>

definition feed :: "'n sdk \<Rightarrow> sdk_event list \<Rightarrow> bool" where
  "feed k es \<longleftrightarrow> (\<forall>ps qs n. es = ps @ qs \<longrightarrow>
     (\<exists>m. sdkListObjects k (cursor_after ps) n = (Inr (take m qs), n) \<and> (qs \<noteq> [] \<longrightarrow> 0 < m)))"

definition walked :: "'n sdk \<Rightarrow> sdk_event list \<Rightarrow> walk \<Rightarrow> bool" where
  "walked k ps w \<longleftrightarrow> wkCursor w = cursor_after ps \<and> wkOrder w = distinct_keys [] (map evKey ps)
     \<and> wkLive w = last_object k ps \<and> wsEvents (wkStats w) = length ps
     \<and> wsUnreadable (wkStats w) = map evKey (filter (unreadable k) ps)"

lemma walked_page:
  assumes "walked k ps w" and "es \<noteq> []"
  shows "walked k (ps @ es) (walk_page k es w)"
proof -
  have "wkLive (fold (walk_event k) es w) = last_object k (ps @ es)"
  proof
    fix r
    have "List.find P (xs @ ys) = (case List.find P xs of None \<Rightarrow> List.find P ys | Some x \<Rightarrow> Some x)"
      for P and xs ys :: "sdk_event list" by (induction xs) auto
    then show "wkLive (fold (walk_event k) es w) r = last_object k (ps @ es) r"
      using walk_fold_parts [of k es w r] assms(1)
      by (auto simp: walked_def last_object_def split: option.splits)
  qed
  moreover have "cursor_after es = cursor_after (ps @ es)" using assms(2) by (simp add: cursor_after_def)
  ultimately show ?thesis
    using walk_fold_parts [of k es w 0] assms
    by (simp add: walked_def walk_page_parts distinct_keys_append)
qed

lemma walk_pages_total:
  assumes "feed k es" and "walked k ps w" and "es = ps @ qs"
  shows "\<exists>w'. walk_pages k w n = Some (Inr w', n) \<and> walked k es w'"
  using assms(2,3)
proof (induction "length qs" arbitrary: ps qs w rule: less_induct)
  case less
  obtain m where m: "sdkListObjects k (cursor_after ps) n = (Inr (take m qs), n)" "qs \<noteq> [] \<longrightarrow> 0 < m"
    using assms(1) less.prems(2) unfolding feed_def by metis
  have c: "wkCursor w = cursor_after ps" using less.prems(1) by (simp add: walked_def)
  show ?case
  proof (cases "qs = []")
    case True
    then show ?thesis using m(1) c less.prems by (subst walk_pages.simps) simp
  next
    case False
    then have ne: "take m qs \<noteq> []" using m(2) by simp
    have "length (drop m qs) < length qs" using False m(2) by simp
    from less.hyps [OF this walked_page [OF less.prems(1) ne]] less.prems(2)
    obtain w' where "walk_pages k (walk_page k (take m qs) w) n = Some (Inr w', n)" "walked k es w'"
      by auto
    then show ?thesis using m(1) c ne by (subst walk_pages.simps) simp
  qed
qed

lemma slab_pages_total:
  assumes "\<And>off n. sdkSlabIDs k off n = (Inr (take 500 (drop off ids)), n)" and "out = take off ids"
  shows "slab_pages k off out n = Some (Inr ids, n)"
  using assms(2)
proof (induction "length ids - off" arbitrary: off out rule: less_induct)
  case less
  show ?case
  proof (cases "length (take 500 (drop off ids)) < 500")
    case True
    then have "take 500 (drop off ids) = drop off ids" by simp
    then show ?thesis using True less.prems assms(1) by (subst slab_pages.simps) simp
  next
    case False
    then have l: "off + 500 \<le> length ids" by auto
    then have "length ids - (off + 500) < length ids - off" by simp
    moreover have "out @ take 500 (drop off ids) = take (off + 500) ids"
      using less.prems by (simp add: take_add)
    ultimately show ?thesis
      using less.hyps [of "off + 500"] False assms(1) by (subst slab_pages.simps) simp
  qed
qed

lemma walk_complete:
  assumes "feed k es"
  shows "\<exists>stats objs. WalkObjectsStats k n = Some (Inr (stats, objs), n)
     \<and> map stRef objs = filter (\<lambda>r. last_object k es r \<noteq> None) (distinct_keys [] (map evKey es))
     \<and> (\<forall>ob \<in> set objs. last_object k es (stRef ob) = Some ob) \<and> distinct objs
     \<and> wsLive stats = length objs \<and> wsEvents stats = length es
     \<and> wsUnreadable stats = map evKey (filter (unreadable k) es)"
proof -
  have "walked k [] walk_start"
    by (simp add: walked_def walk_start_def cursor_after_def last_object_def fun_eq_iff)
  from walk_pages_total [OF assms(1) this, of es n] obtain w
    where w: "walk_pages k walk_start n = Some (Inr w, n)" "walked k es w" by auto
  define objs where "objs = snd (walk_result w)"
  have L: "wkLive w = last_object k es" "wkOrder w = distinct_keys [] (map evKey es)"
    using w(2) by (simp_all add: walked_def)
  have ref: "last_object k es r = Some ob \<Longrightarrow> stRef ob = r" for r ob
    by (auto simp: last_object_def event_object_def find_Some_iff split: option.splits if_splits sum.splits)
  have o: "objs = map (\<lambda>r. the (last_object k es r))
      (filter (\<lambda>r. last_object k es r \<noteq> None) (distinct_keys [] (map evKey es)))"
    by (simp add: objs_def walk_result_def Let_def L)
  have refs: "map stRef objs = filter (\<lambda>r. last_object k es r \<noteq> None) (distinct_keys [] (map evKey es))"
    unfolding o map_map by (rule map_idI) (auto dest: ref)
  moreover have "\<forall>ob \<in> set objs. last_object k es (stRef ob) = Some ob"
  proof
    fix ob assume "ob \<in> set objs"
    then obtain r where "last_object k es r = Some ob" by (auto simp: o)
    with ref [OF this] show "last_object k es (stRef ob) = Some ob" by simp
  qed
  moreover have "distinct objs"
    using refs distinct_distinct_keys [of "[]" "map evKey es"] by (metis distinct_filter distinct.simps(1) distinct_map)
  moreover have "WalkObjectsStats k n = Some (Inr (walk_result w), n)"
    using w(1) by (simp add: WalkObjectsStats_def)
  moreover have "walk_result w = ((wkStats w)\<lparr>wsLive := length objs\<rparr>, objs)"
    by (simp add: objs_def walk_result_def Let_def)
  ultimately show "\<exists>stats objs. WalkObjectsStats k n = Some (Inr (stats, objs), n)
     \<and> map stRef objs = filter (\<lambda>r. last_object k es r \<noteq> None) (distinct_keys [] (map evKey es))
     \<and> (\<forall>ob \<in> set objs. last_object k es (stRef ob) = Some ob) \<and> distinct objs
     \<and> wsLive stats = length objs \<and> wsEvents stats = length es
     \<and> wsUnreadable stats = map evKey (filter (unreadable k) es)"
    using w(2) by (intro exI [of _ "(wkStats w)\<lparr>wsLive := length objs\<rparr>"] exI [of _ objs]) (simp add: walked_def)
qed

text \<open>C14. Enumerating the account ends and is complete.  Over a feed that stands still, however it is
  paged, the walk visits every key whose last event is an object that opens, and no other, once,
  in the order the keys first appear, as that last event gave it.  The unreadable list is not
  collapsed that way: it names every key that ever had an event that would not open, also when a
  later event of the key opens and the object is visited as live.  Listing the pinned slabs
  likewise ends with all of them.\<close>

theorem enumeration_complete:
  assumes "feed k es" and "\<And>off n. sdkSlabIDs k off n = (Inr (take 500 (drop off ids)), n)"
  shows "(\<exists>stats objs. WalkObjectsStats k n = Some (Inr (stats, objs), n)
     \<and> map stRef objs = filter (\<lambda>r. last_object k es r \<noteq> None) (distinct_keys [] (map evKey es))
     \<and> (\<forall>ob \<in> set objs. last_object k es (stRef ob) = Some ob) \<and> distinct objs
     \<and> wsLive stats = length objs \<and> wsEvents stats = length es
     \<and> wsUnreadable stats = map evKey (filter (unreadable k) es))
    \<and> PinnedSlabs k n = Some (Inr ids, n)"
  using walk_complete [OF assms(1)] slab_pages_total [OF assms(2), of "[]" 0]
  by (simp add: PinnedSlabs_def)

text \<open>A feed of three events on two keys, two to a page: an object, another, and the deletion of the first.\<close>

fun after_cursor :: "cursor \<Rightarrow> sdk_event list \<Rightarrow> sdk_event list" where
  "after_cursor None es = es"
| "after_cursor (Some c) [] = []"
| "after_cursor (Some c) (e # es) = (if (evKey e, evUpdated e) = c then es else after_cursor (Some c) es)"

definition feed_sdk :: "sdk_event list \<Rightarrow> slabid list \<Rightarrow> byte list list sdk" where
  "feed_sdk es ids = demo_sdk\<lparr>sdkListObjects := (\<lambda>c n. (Inr (take 2 (after_cursor c es)), n)),
     sdkSlabIDs := (\<lambda>off n. (Inr (take 500 (drop off ids)), n))\<rparr>"

lemma after_cursor_last:
  "distinct (map (\<lambda>e. (evKey e, evUpdated e)) (ps @ qs)) \<Longrightarrow> ps \<noteq> [] \<Longrightarrow> after_cursor (Some (evKey (last ps), evUpdated (last ps))) (ps @ qs) = qs"
proof (induction ps)
  case Nil
  then show ?case by simp
next
  case (Cons p ps)
  show ?case
  proof (cases "ps = []")
    case False
    then have "last ps \<in> set (ps @ qs)" by simp
    then have "(evKey (last ps), evUpdated (last ps)) \<in> (\<lambda>e. (evKey e, evUpdated e)) ` set (ps @ qs)" by (rule imageI)
    then have "(evKey p, evUpdated p) \<noteq> (evKey (last ps), evUpdated (last ps))" using Cons.prems(1) by auto
    then show ?thesis using Cons False by simp
  qed simp
qed

lemma feed_sdk_feed: "distinct (map (\<lambda>e. (evKey e, evUpdated e)) es) \<Longrightarrow> feed (feed_sdk es ids) es"
  unfolding feed_def
proof (intro allI impI exI conjI)
  fix ps qs n assume d: "distinct (map (\<lambda>e. (evKey e, evUpdated e)) es)" and es: "es = ps @ qs"
  have "after_cursor (cursor_after ps) es = qs"
    using after_cursor_last d unfolding es by (cases "ps = []") (auto simp: cursor_after_def)
  then show "sdkListObjects (feed_sdk es ids) (cursor_after ps) n = (Inr (take 2 qs), n)" by (simp add: feed_sdk_def)
qed simp

definition demo_event :: "objref \<Rightarrow> gotime \<Rightarrow> bool \<Rightarrow> sdk_event" where
  "demo_event r t gone = \<lparr>evKey = r, evUpdated = t, evDeleted = gone, evObject = Some demo_object\<rparr>"

theorem enumeration_complete_witness:
  "\<exists>stats ob. WalkObjectsStats (feed_sdk [demo_event 1 1 False, demo_event 2 2 False, demo_event 1 3 True] [''a'', ''b'']) []
      = Some (Inr (stats, [ob]), [])
     \<and> stRef ob = 2 \<and> obSlabs (stObject ob) = [demo_slice] \<and> wsEvents stats = 3
     \<and> PinnedSlabs (feed_sdk [demo_event 1 1 False, demo_event 2 2 False, demo_event 1 3 True] [''a'', ''b'']) [] = Some (Inr [''a'', ''b''], [])"
proof -
  let ?es = "[demo_event 1 1 False, demo_event 2 2 False, demo_event 1 3 True]"
  let ?k = "feed_sdk ?es [''a'', ''b'']"
  have f: "feed ?k ?es" by (rule feed_sdk_feed) (simp add: demo_event_def)
  have "\<And>off n. sdkSlabIDs ?k off n = (Inr (take 500 (drop off [''a'', ''b''])), n)" by (simp add: feed_sdk_def)
  from enumeration_complete [OF f this, of "[]"]
  obtain stats objs where w: "WalkObjectsStats ?k [] = Some (Inr (stats, objs), [])"
      "map stRef objs = filter (\<lambda>r. last_object ?k ?es r \<noteq> None) (distinct_keys [] (map evKey ?es))"
      "\<forall>ob \<in> set objs. last_object ?k ?es (stRef ob) = Some ob" "wsEvents stats = 3"
    and p: "PinnedSlabs ?k [] = Some (Inr [''a'', ''b''], [])" by auto
  have l: "last_object ?k ?es 1 = None" "last_object ?k ?es 2 = Some \<lparr>stRef = 2, stSlab = slabOf ?k \<lparr>obID = 0, obSlabs = [demo_slice], obSize = 1\<rparr>,
      stBytes = 1, stUpdated = 2, stObject = \<lparr>obID = 0, obSlabs = [demo_slice], obSize = 1\<rparr>\<rparr>"
    by (simp_all add: last_object_def event_object_def demo_event_def feed_sdk_def demo_sdk_def demo_object_def)
  have "map stRef objs = [2]" using w(2) l by (simp add: demo_event_def)
  then obtain ob where ob: "objs = [ob]" "stRef ob = 2" by auto
  with w(3) l(2) have "obSlabs (stObject ob) = [demo_slice]" by auto
  with w(1,4) ob p show ?thesis by auto
qed

end
