(* ===== verification/Packer.thy ===== *)
theory Packer
  imports FlushQueue SiaClient
begin

text \<open>
  Package \<open>store/packer\<close>: when a queue becomes a flush, what one flush does on every outcome of
  the network and of the database, the timer, and several processes flushing one queue.

  The network write, the flush callback and the failures of the database's statements are
  arguments.  A statement that fails leaves the queue as it was.  Times are nanoseconds, and the
  difference of two times is not saturated.
\<close>

section \<open>Policy\<close>

record policy =
  poIdleAfter :: int
  poMaxAge :: int
  poMaxBytes :: int
  poMaxRecords :: int
  poClaimTimeout :: int

definition Second :: int where "Second = 1000000000"
definition Minute :: int where "Minute = 60 * Second"

definition DefaultIdleAfter :: int where "DefaultIdleAfter = 5 * Minute"
definition DefaultMaxAge :: int where "DefaultMaxAge = 60 * Minute"
definition DefaultClaimTimeout :: int where "DefaultClaimTimeout = 10 * Minute"

definition DefaultPolicy :: "int \<Rightarrow> policy" where
  "DefaultPolicy slabBytes = \<lparr>poIdleAfter = DefaultIdleAfter, poMaxAge = DefaultMaxAge,
     poMaxBytes = slabBytes, poMaxRecords = 100000, poClaimTimeout = DefaultClaimTimeout\<rparr>"

definition Immediate :: "int \<Rightarrow> policy" where
  "Immediate slabBytes = \<lparr>poIdleAfter = 0, poMaxAge = 0, poMaxBytes = slabBytes, poMaxRecords = 1,
     poClaimTimeout = DefaultClaimTimeout\<rparr>"

definition ReasonIdle :: string where "ReasonIdle = ''idle''"
definition ReasonAge :: string where "ReasonAge = ''age''"
definition ReasonBytes :: string where "ReasonBytes = ''bytes''"
definition ReasonRecords :: string where "ReasonRecords = ''records''"
definition ReasonManual :: string where "ReasonManual = ''manual''"

definition Policy_due :: "policy \<Rightarrow> queue_state \<Rightarrow> gotime \<Rightarrow> string option" where
  "Policy_due p st now =
    (if qsRecords st = 0 then None
     else if 0 < poMaxRecords p \<and> poMaxRecords p \<le> qsRecords st then Some ReasonRecords
     else if 0 < poMaxBytes p \<and> poMaxBytes p \<le> qsBytes st then Some ReasonBytes
     else if 0 < poMaxAge p \<and> qsOldest st \<noteq> 0 \<and> poMaxAge p \<le> now - qsOldest st then Some ReasonAge
     else if 0 < poIdleAfter p \<and> qsNewest st \<noteq> 0 \<and> poIdleAfter p \<le> now - qsNewest st then Some ReasonIdle
     else None)"

definition claimTimeout :: "policy \<Rightarrow> int" where
  "claimTimeout p = (if 0 < poClaimTimeout p then poClaimTimeout p else DefaultClaimTimeout)"

definition tick :: "policy \<Rightarrow> int" where
  "tick p =
    (let shortest = (if poIdleAfter p \<le> 0 \<or> 0 < poMaxAge p \<and> poMaxAge p < poIdleAfter p
                     then poMaxAge p else poIdleAfter p) in
     if shortest \<le> 0 then Minute else min (max (go_quot shortest 10) Second) Minute)"

section \<open>The packer\<close>

record queued_item =
  qiID :: recid
  qiKind :: kind
  qiBlob :: blob
  qiSince :: gotime

record presult =
  prReason :: string
  prRecords :: "queued_item list"
  prFlush :: flush

definition no_result :: presult where
  "no_result = \<lparr>prReason = [], prRecords = [], prFlush = \<lparr>fWritten = [], fSlabs = []\<rparr>\<rparr>"

definition Result_Empty :: "presult \<Rightarrow> bool" where
  "Result_Empty r \<longleftrightarrow> prRecords r = []"

record packer =
  pkQueue :: queue
  pkState :: queue_state
  pkPolicy :: policy
  pkOwner :: string
  pkOnline :: bool
  pkRunning :: bool

datatype db_op = DbEnqueue | DbState | DbClaim | DbRelease | DbDrop

text \<open>What a packer runs in: the network write, the callback, and which statements fail.\<close>

record 'w flusher =
  flPut :: "blob list \<Rightarrow> ('w, flush) step"
  flHook :: "(presult \<Rightarrow> ('w, unit) step) option"
  flDB :: "db_op \<Rightarrow> goerr option"

type_synonym ('s, 'a) call = "'s \<Rightarrow> ('a \<times> goerr option) \<times> 's"

definition Packer_New :: "'w flusher \<Rightarrow> bool \<Rightarrow> queue option \<Rightarrow> policy \<Rightarrow> string res \<Rightarrow> packer res" where
  "Packer_New fl online queue pol owner =
    (case queue of
       None \<Rightarrow> fail [] ''packer needs the device store to hold its queue''
     | Some q \<Rightarrow> rbind owner (\<lambda>o'.
         case flDB fl DbState of
           Some e \<Rightarrow> Inl e
         | None \<Rightarrow> Inr \<lparr>pkQueue = q, pkState = QueueState q, pkPolicy = pol, pkOwner = o',
                         pkOnline = online, pkRunning = False\<rparr>))"

definition item_of :: "queued_blob \<Rightarrow> queued_item" where
  "item_of b = \<lparr>qiID = qbID b, qiKind = qbKind b, qiBlob = \<lparr>blCID = qbCID b, blPayload = qbPayload b\<rparr>,
     qiSince = qbQueuedAt b\<rparr>"

definition refresh :: "'w flusher \<Rightarrow> packer \<Rightarrow> goerr option \<times> packer" where
  "refresh fl p = (case flDB fl DbState of
     Some e \<Rightarrow> (Some e, p) | None \<Rightarrow> (None, p\<lparr>pkState := QueueState (pkQueue p)\<rparr>))"

text \<open>What follows a callback that accepted the flush.\<close>

definition finish :: "'w flusher \<Rightarrow> recid list \<Rightarrow> presult \<Rightarrow> packer \<Rightarrow> (presult \<times> goerr option) \<times> packer" where
  "finish fl ids result p =
    (case flDB fl DbDrop of
       Some e \<Rightarrow> ((result, Some e), p)
     | None \<Rightarrow> (case refresh fl (p\<lparr>pkQueue := DropQueued ids (pkQueue p)\<rparr>) of
         (err, p') \<Rightarrow> ((result, err), p')))"

definition Packer_flush :: "'w flusher \<Rightarrow> gotime \<Rightarrow> string \<Rightarrow> (packer \<times> 'w, presult) call" where
  "Packer_flush fl now reason s =
    (case s of (p, w) \<Rightarrow>
     if \<not> pkOnline p then ((no_result, Some (GoErr [ErrPackerOffline] ''packer has no connection to the network'')), (p, w))
     else case flDB fl DbClaim of
       Some e \<Rightarrow> ((no_result, Some e), (p, w))
     | None \<Rightarrow>
        (case ClaimQueued now (pkOwner p) (claimTimeout (pkPolicy p)) 0 (pkQueue p) of (claimed, q1) \<Rightarrow>
         let p1 = p\<lparr>pkQueue := q1\<rparr> in
         if claimed = [] then ((no_result, None), (p1, w))
         else let items = map item_of claimed; ids = map qbID claimed in
         (case flPut fl (map qiBlob items) w of
            (Inl e, w1) \<Rightarrow>
              (case flDB fl DbRelease of
                 Some e' \<Rightarrow> ((no_result, Some (join_errs [e, e'])), (p1, w1))
               | None \<Rightarrow> ((no_result, Some e), (p1\<lparr>pkQueue := ReleaseQueued ids q1\<rparr>, w1)))
          | (Inr f, w1) \<Rightarrow>
              let result = \<lparr>prReason = reason, prRecords = items, prFlush = f\<rparr> in
              (case flHook fl of
                 None \<Rightarrow> (case finish fl ids result p1 of (r, p2) \<Rightarrow> (r, (p2, w1)))
               | Some h \<Rightarrow>
                  (case h result w1 of
                     (Inl e, w2) \<Rightarrow> ((result, Some e), (p1, w2))
                   | (Inr _, w2) \<Rightarrow> (case finish fl ids result p1 of (r, p2) \<Rightarrow> (r, (p2, w2))))))))"

definition Packer_Flush :: "'w flusher \<Rightarrow> gotime \<Rightarrow> (packer \<times> 'w, presult) call" where
  "Packer_Flush fl now = Packer_flush fl now ReasonManual"

definition Packer_Add :: "'w flusher \<Rightarrow> gotime \<Rightarrow> queued_item \<Rightarrow> (packer \<times> 'w, presult) call" where
  "Packer_Add fl now item s =
    (case s of (p, w) \<Rightarrow>
     let since = (if qiSince item = 0 then now else qiSince item) in
     case flDB fl DbEnqueue of
       Some e \<Rightarrow> ((no_result, Some e), (p, w))
     | None \<Rightarrow>
        let q = Enqueue now \<lparr>qbID = qiID item, qbKind = qiKind item, qbCID = blCID (qiBlob item),
                  qbPayload = blPayload (qiBlob item), qbQueuedAt = since, qbSeq = 0\<rparr> (pkQueue p);
            st = pkState p;
            st = st\<lparr>qsRecords := qsRecords st + 1,
                    qsBytes := qsBytes st + int (length (blPayload (qiBlob item))),
                    qsOldest := (if qsOldest st = 0 then since else qsOldest st),
                    qsNewest := since\<rparr>;
            p1 = p\<lparr>pkQueue := q, pkState := st\<rparr>
        in (case Policy_due (pkPolicy p) st now of
              None \<Rightarrow> ((no_result, None), (p1, w))
            | Some reason \<Rightarrow> if \<not> pkOnline p then ((no_result, None), (p1, w))
                else Packer_flush fl now reason (p1, w)))"

definition Packer_Due :: "packer \<Rightarrow> gotime \<Rightarrow> string option" where
  "Packer_Due p now = Policy_due (pkPolicy p) (pkState p) now"

definition Packer_Pending :: "packer \<Rightarrow> int" where "Packer_Pending p = qsRecords (pkState p)"
definition Packer_PendingBytes :: "packer \<Rightarrow> int" where "Packer_PendingBytes p = qsBytes (pkState p)"
definition Packer_Oldest :: "packer \<Rightarrow> gotime" where "Packer_Oldest p = qsOldest (pkState p)"

section \<open>The timer\<close>

definition Packer_Start :: "packer \<Rightarrow> packer" where
  "Packer_Start p = (if pkRunning p \<or> \<not> pkOnline p then p else p\<lparr>pkRunning := True\<rparr>)"

definition Packer_Stop :: "packer \<Rightarrow> packer" where
  "Packer_Stop p = p\<lparr>pkRunning := False\<rparr>"

text \<open>One turn of the loop; a failed flush is handed to \<open>onError\<close> and the loop goes on.\<close>

definition run_tick :: "'w flusher \<Rightarrow> gotime \<Rightarrow> packer \<times> 'w \<Rightarrow> goerr option \<times> packer \<times> 'w" where
  "run_tick fl now s =
    (case Packer_Due (fst s) now of
       None \<Rightarrow> (None, s)
     | Some reason \<Rightarrow> (case Packer_flush fl now reason s of ((_, err), s') \<Rightarrow> (err, s')))"

fun Packer_run :: "'w flusher \<Rightarrow> gotime list \<Rightarrow> packer \<times> 'w \<Rightarrow> goerr list \<times> packer \<times> 'w" where
  "Packer_run fl [] s = ([], s)"
| "Packer_run fl (now # ticks) s =
    (case run_tick fl now s of (err, s1) \<Rightarrow>
     case Packer_run fl ticks s1 of (errs, s2) \<Rightarrow>
       ((case err of None \<Rightarrow> errs | Some e \<Rightarrow> e # errs), s2))"

section \<open>What a flush leaves\<close>

lemma claimTimeout_pos: "0 < claimTimeout p"
  by (simp add: claimTimeout_def DefaultClaimTimeout_def Minute_def Second_def)

lemma item_of_sel [simp]: "qiID (item_of b) = qbID b"
  "blCID (qiBlob (item_of b)) = qbCID b" "blPayload (qiBlob (item_of b)) = qbPayload b"
  by (simp_all add: item_of_def)

lemma finish_queue:
  "finish fl ids res p = ((r, err), p') \<Longrightarrow> r = res
   \<and> pkQueue p' = (if flDB fl DbDrop = None then DropQueued ids (pkQueue p) else pkQueue p)"
  by (auto simp: finish_def refresh_def split: option.splits)

lemma fst_finish: "fst (fst (finish fl ids res p)) = res"
  by (auto simp: finish_def refresh_def split: option.splits prod.splits)

text \<open>Where a flush ends, and what it made of the queue there.\<close>

definition flush_kept :: "packer \<Rightarrow> packer \<Rightarrow> bool" where
  "flush_kept p p' \<longleftrightarrow> (\<forall>i. queued (pkQueue p') i = queued (pkQueue p) i)"

definition item_sealed :: "queued_item \<Rightarrow> string \<times> byte list" where
  "item_sealed x = (blCID (qiBlob x), blPayload (qiBlob x))"

lemma item_sealed_of [simp]: "item_sealed (item_of b) = sealed_of b"
  by (simp add: item_sealed_def sealed_of_def)

lemma Packer_flush_cases:
  assumes "Packer_flush fl now reason (p, w) = ((res, err), (p', w'))"
  obtains (untouched) "p' = p" "w' = w" "res = no_result" "err \<noteq> None"
  | (idle) q1 where "ClaimQueued now (pkOwner p) (claimTimeout (pkPolicy p)) 0 (pkQueue p) = ([], q1)"
      "p' = p\<lparr>pkQueue := q1\<rparr>" "w' = w" "res = no_result" "err = None"
  | (put_failed) cl q1 e where "cl \<noteq> []"
      "ClaimQueued now (pkOwner p) (claimTimeout (pkPolicy p)) 0 (pkQueue p) = (cl, q1)"
      "flPut fl (map qiBlob (map item_of cl)) w = (Inl e, w')" "res = no_result" "err \<noteq> None"
      "pkQueue p' = (if flDB fl DbRelease = None then ReleaseQueued (map qbID cl) q1 else q1)"
  | (hook_failed) cl q1 f h w1 e where "cl \<noteq> []"
      "ClaimQueued now (pkOwner p) (claimTimeout (pkPolicy p)) 0 (pkQueue p) = (cl, q1)"
      "flPut fl (map qiBlob (map item_of cl)) w = (Inr f, w1)" "flHook fl = Some h"
      "res = \<lparr>prReason = reason, prRecords = map item_of cl, prFlush = f\<rparr>"
      "h res w1 = (Inl e, w')" "err = Some e" "pkQueue p' = q1"
  | (written) cl q1 f w1 where "cl \<noteq> []"
      "ClaimQueued now (pkOwner p) (claimTimeout (pkPolicy p)) 0 (pkQueue p) = (cl, q1)"
      "flPut fl (map qiBlob (map item_of cl)) w = (Inr f, w1)"
      "res = \<lparr>prReason = reason, prRecords = map item_of cl, prFlush = f\<rparr>"
      "(case flHook fl of None \<Rightarrow> w' = w1 | Some h \<Rightarrow> h res w1 = (Inr (), w'))"
      "pkQueue p' = (if flDB fl DbDrop = None then DropQueued (map qbID cl) q1 else q1)"
proof (cases "pkOnline p \<and> flDB fl DbClaim = None")
  case False
  then show thesis
    using assms by (intro untouched) (cases "flDB fl DbClaim"; auto simp: Packer_flush_def split: if_splits)+
next
  case True
  obtain cl q1 where c: "ClaimQueued now (pkOwner p) (claimTimeout (pkPolicy p)) 0 (pkQueue p) = (cl, q1)"
    by fastforce
  obtain pr w1 where pr: "flPut fl (map qiBlob (map item_of cl)) w = (pr, w1)" by fastforce
  show thesis
  proof (cases "cl = []")
    case True': True
    then show thesis using assms True c idle by (auto simp: Packer_flush_def Let_def)
  next
    case ne: False
    show thesis
    proof (cases pr)
      case (Inl e)
      then show thesis using assms True c ne pr put_failed [of cl q1 e]
        by (auto simp: Packer_flush_def Let_def split: option.splits)
    next
      case (Inr f)
      let ?res = "\<lparr>prReason = reason, prRecords = map item_of cl, prFlush = f\<rparr>"
      show thesis
      proof (cases "flHook fl")
        case None
        obtain rr pp where fin: "finish fl (map qbID cl) ?res (p\<lparr>pkQueue := q1\<rparr>) = (rr, pp)" by fastforce
        obtain r0 e0 where rr: "rr = (r0, e0)" by (cases rr)
        note fq = finish_queue [OF fin [unfolded rr]]
        have eqs: "(res, err) = rr" "p' = pp" "w' = w1"
          using assms True c ne pr Inr None fin by (simp_all add: Packer_flush_def Let_def)
        show thesis
          by (rule written [of cl q1 f w1]) (use c ne pr Inr None fq eqs rr in simp_all)
      next
        case (Some h)
        obtain hr w2 where h: "h ?res w1 = (hr, w2)" by fastforce
        show thesis
        proof (cases hr)
          case Inl': (Inl e)
          then show thesis using assms True c ne pr Inr Some h hook_failed [of cl q1 f w1 h e]
            by (auto simp: Packer_flush_def Let_def)
        next
          case Inr': (Inr u)
          obtain rr pp where fin: "finish fl (map qbID cl) ?res (p\<lparr>pkQueue := q1\<rparr>) = (rr, pp)" by fastforce
          obtain r0 e0 where rr: "rr = (r0, e0)" by (cases rr)
          note fq = finish_queue [OF fin [unfolded rr]]
          have eqs: "(res, err) = rr" "p' = pp" "w' = w2"
            using assms True c ne pr Inr Some h Inr' fin by (simp_all add: Packer_flush_def Let_def)
          show thesis
            by (rule written [of cl q1 f w1]) (use c ne pr Inr Some h Inr' fq eqs rr in simp_all)
        qed
      qed
    qed
  qed
qed

lemma claim_facts:
  assumes "queue_ok q" and "ClaimQueued now owner grace 0 q = (cl, q1)"
  shows "queue_ok q1" "queued q1 i = queued q i"
    "i \<in> qbID ` set cl \<longleftrightarrow> queued q i \<noteq> None \<and> claimable now grace (claimed_at q i)"
    "b \<in> set cl \<Longrightarrow> queued q (qbID b) = Some (sealed_of b)"
    "claimed_at q1 i = (if i \<in> qbID ` set cl then Some (stamp now) else claimed_at q i)"
proof -
  have c: "fst (ClaimQueued now owner grace 0 q) = cl" "snd (ClaimQueued now owner grace 0 q) = q1"
    using assms(2) by simp_all
  show "queue_ok q1" using fq.ok_claim [OF assms(1), of now owner grace] by (simp only: c)
  show "queued q1 i = queued q i" using fq.waiting_claim [of now owner grace q i] by (simp only: c)
  show "i \<in> qbID ` set cl \<longleftrightarrow> queued q i \<noteq> None \<and> claimable now grace (claimed_at q i)"
    using fq.claimed [OF assms(1), of i now owner grace] by (simp only: c)
  show "b \<in> set cl \<Longrightarrow> queued q (qbID b) = Some (sealed_of b)"
    using fq.claim_payload [OF assms(1), of b now owner grace] by (simp only: c)
  show "claimed_at q1 i = (if i \<in> qbID ` set cl then Some (stamp now) else claimed_at q i)"
    using fq.held_claim [OF assms(1), of now owner grace i] by (simp only: c)
qed

text \<open>A record left the queue through this flush: written, accepted by the callback, and dropped.\<close>

definition delivered :: "'w flusher \<Rightarrow> 'w \<Rightarrow> presult \<Rightarrow> recid \<Rightarrow> string \<times> byte list \<Rightarrow> bool" where
  "delivered fl w res i c \<longleftrightarrow> (\<exists>x \<in> set (prRecords res). qiID x = i \<and> item_sealed x = c)
     \<and> (\<exists>w1. flPut fl (map qiBlob (prRecords res)) w = (Inr (prFlush res), w1)
          \<and> (\<forall>h. flHook fl = Some h \<longrightarrow> (\<exists>w2. h res w1 = (Inr (), w2))))"

text \<open>C15. A flush never loses a record.  On every outcome of the network, the callback and the
  database, what the queue holds for a record is what it held before, unless the record was
  written with the very bytes that were queued and the callback accepted that write; and when
  the write failed and the release did not, no record is held by this flush any more.\<close>

theorem Packer_flush_keeps:
  assumes "queue_ok (pkQueue p)" and "Packer_flush fl now reason (p, w) = ((res, err), (p', w'))"
  shows "queue_ok (pkQueue p')
    \<and> (\<forall>i. queued (pkQueue p') i = queued (pkQueue p) i
         \<or> queued (pkQueue p') i = None \<and> (\<exists>c. queued (pkQueue p) i = Some c \<and> delivered fl w res i c))
    \<and> (err \<noteq> None \<and> prRecords res = [] \<and> flDB fl DbRelease = None \<longrightarrow>
         (\<forall>i. claimed_at (pkQueue p') i = None \<or> claimed_at (pkQueue p') i = claimed_at (pkQueue p) i))"
  using assms(2)
proof (cases rule: Packer_flush_cases)
  case untouched
  then show ?thesis using assms(1) by simp
next
  case (idle q1)
  then show ?thesis using claim_facts(1,2) [OF assms(1) idle(1)] by simp
next
  case (put_failed cl q1 e)
  then show ?thesis using claim_facts [OF assms(1) put_failed(2)]
    by (auto simp: fq.waiting_release fq.held_release)
next
  case (hook_failed cl q1 f h w1 e)
  then show ?thesis using claim_facts(1,2) [OF assms(1) hook_failed(2)] by simp
next
  case (written cl q1 f w1)
  note C = claim_facts [OF assms(1) written(2)]
  have "delivered fl w res (qbID b) (sealed_of b)" if "b \<in> set cl" for b
    unfolding delivered_def
  proof
    show "\<exists>x \<in> set (prRecords res). qiID x = qbID b \<and> item_sealed x = sealed_of b"
      using that by (auto simp: written(4) intro!: bexI [of _ "item_of b"])
    show "\<exists>w1. flPut fl (map qiBlob (prRecords res)) w = (Inr (prFlush res), w1)
          \<and> (\<forall>h. flHook fl = Some h \<longrightarrow> (\<exists>w2. h res w1 = (Inr (), w2)))"
      using written(3,4,5) by (intro exI [of _ w1]) auto
  qed
  moreover have "queued (pkQueue p) (qbID b) = Some (sealed_of b)" if "b \<in> set cl" for b
    using C(4) that by blast
  moreover have "prRecords res \<noteq> []" using written(1,4) by simp
  moreover have "queued (pkQueue p') i = queued (pkQueue p) i
      \<or> queued (pkQueue p') i = None \<and> i \<in> qbID ` set cl" for i
    using C(2) written(6) by (auto simp: fq.waiting_drop)
  moreover have "queue_ok (pkQueue p')" using C(1) written(6) by simp
  ultimately show ?thesis by blast
qed

definition demo_flusher :: "unit flusher" where
  "demo_flusher = \<lparr>flPut = (\<lambda>bs w. (Inr \<lparr>fWritten = [], fSlabs = []\<rparr>, w)), flHook = None, flDB = (\<lambda>_. None)\<rparr>"

definition demo_packer :: packer where
  "demo_packer = \<lparr>pkQueue = Enqueue 0 (demo_blob 3 1) [], pkState = QueueState (Enqueue 0 (demo_blob 3 1) []),
     pkPolicy = DefaultPolicy 0, pkOwner = ''a'', pkOnline = True, pkRunning = False\<rparr>"

lemma demo_packer_ok: "queue_ok (pkQueue demo_packer)"
  by (simp add: demo_packer_def)

lemma demo_queue: "queued (pkQueue demo_packer) 3 = Some (''c'', [1])" "claimed_at (pkQueue demo_packer) 3 = None"
  by (simp_all add: demo_packer_def queued_def claimed_at_def row_of_Enqueue demo_blob_def)

theorem Packer_flush_keeps_witness:
  "\<exists>res err p'. Packer_flush (demo_flusher\<lparr>flPut := (\<lambda>bs w. (fail [] ''down'', w))\<rparr>) 9000000 ReasonManual
      (demo_packer, ()) = ((res, err), (p', ()))
     \<and> queued (pkQueue p') 3 = Some (''c'', [1])"
proof -
  let ?fl = "demo_flusher\<lparr>flPut := (\<lambda>bs w. (fail [] ''down'', w))\<rparr>"
  obtain res err p' w' where f: "Packer_flush ?fl 9000000 ReasonManual (demo_packer, ()) = ((res, err), (p', w'))"
    by (metis prod.exhaust)
  have "\<not> delivered ?fl () res i c" for i c by (simp add: delivered_def)
  then have "queued (pkQueue p') 3 = queued (pkQueue demo_packer) 3"
    using Packer_flush_keeps [OF demo_packer_ok f] by blast
  with f show ?thesis by (simp add: demo_queue)
qed

text \<open>C16. The deadlines fire.  Once the oldest record the packer knows of is as old as the maximum
  age, or the newest has been idle for the idle period, the next turn of the timer flushes: if
  the network, the callback and the database work, every waiting record that no other flush
  holds within its grace has then been handed to the callback with its bytes and has left the
  queue, and what the packer reports as pending is what the queue still holds.\<close>

theorem run_tick_flushes:
  assumes "queue_ok (pkQueue p)" and "pkOnline p" and "0 < qsRecords (pkState p)"
    and "0 < poMaxAge (pkPolicy p) \<and> qsOldest (pkState p) \<noteq> 0 \<and> poMaxAge (pkPolicy p) \<le> now - qsOldest (pkState p)
       \<or> 0 < poIdleAfter (pkPolicy p) \<and> qsNewest (pkState p) \<noteq> 0 \<and> poIdleAfter (pkPolicy p) \<le> now - qsNewest (pkState p)"
    and "\<And>op. flDB fl op = None" and "\<And>bs v. \<exists>f v'. flPut fl bs v = (Inr f, v')"
    and "\<And>h r v. flHook fl = Some h \<Longrightarrow> \<exists>v'. h r v = (Inr (), v')"
    and "queued (pkQueue p) i = Some c" and "claimable now (claimTimeout (pkPolicy p)) (claimed_at (pkQueue p) i)"
  shows "\<exists>reason res p' w'. Packer_Due p now = Some reason
    \<and> Packer_flush fl now reason (p, w) = ((res, None), (p', w'))
    \<and> run_tick fl now (p, w) = (None, (p', w'))
    \<and> delivered fl w res i c \<and> queued (pkQueue p') i = None \<and> pkState p' = QueueState (pkQueue p')"
proof -
  obtain reason where due: "Packer_Due p now = Some reason"
  proof (cases "Packer_Due p now")
    case None
    then show thesis using assms(3,4) by (auto simp: Packer_Due_def Policy_due_def split: if_splits)
  qed (rule that)
  obtain cl q1 where c: "ClaimQueued now (pkOwner p) (claimTimeout (pkPolicy p)) 0 (pkQueue p) = (cl, q1)"
    by fastforce
  note C = claim_facts [OF assms(1) c]
  have i: "i \<in> qbID ` set cl" using C(3) assms(8,9) by simp
  then have ne: "cl \<noteq> []" by auto
  obtain f w1 where put: "flPut fl (map qiBlob (map item_of cl)) w = (Inr f, w1)" using assms(6) by blast
  let ?res = "\<lparr>prReason = reason, prRecords = map item_of cl, prFlush = f\<rparr>"
  let ?q2 = "DropQueued (map qbID cl) q1"
  let ?p' = "p\<lparr>pkQueue := ?q2, pkState := QueueState ?q2\<rparr>"
  have fin: "finish fl (map qbID cl) ?res (p\<lparr>pkQueue := q1\<rparr>) = ((?res, None), ?p')"
    by (simp add: finish_def refresh_def assms(5))
  obtain w' where w': "case flHook fl of None \<Rightarrow> w' = w1 | Some h \<Rightarrow> h ?res w1 = (Inr (), w')"
  proof (cases "flHook fl")
    case None
    then show thesis using that by simp
  next
    case (Some h)
    then show thesis using that assms(7) [OF Some] by force
  qed
  have run: "Packer_flush fl now reason (p, w) = ((?res, None), (?p', w'))"
    using assms(2,5) c ne put fin w'
    by (cases "flHook fl") (simp_all add: Packer_flush_def Let_def)
  have "queued ?q2 i = None" using i by (simp add: fq.waiting_drop)
  moreover have "delivered fl w ?res i c"
  proof -
    obtain b where b: "b \<in> set cl" "qbID b = i" using i by auto
    then have "sealed_of b = c" using C(4) assms(8) by force
    then have "\<exists>x \<in> set (prRecords ?res). qiID x = i \<and> item_sealed x = c"
      using b by (intro bexI [of _ "item_of b"]) simp_all
    moreover have "\<forall>h. flHook fl = Some h \<longrightarrow> (\<exists>w2. h ?res w1 = (Inr (), w2))"
      using assms(7) by blast
    ultimately show ?thesis unfolding delivered_def using put by auto
  qed
  moreover have "run_tick fl now (p, w) = (None, (?p', w'))"
    using due run by (simp add: run_tick_def)
  ultimately show ?thesis using due run
    by (intro exI [of _ reason] exI [of _ ?res] exI [of _ ?p'] exI [of _ w']) simp
qed

theorem run_tick_flushes_witness:
  "\<exists>res p' w'. Packer_flush demo_flusher (DefaultMaxAge + 5000000) ReasonAge (demo_packer, ()) = ((res, None), (p', w'))
     \<and> queued (pkQueue p') 3 = None"
proof -
  have st: "pkState demo_packer = \<lparr>qsRecords = 1, qsBytes = 1, qsOldest = 5000000, qsNewest = 5000000\<rparr>"
    by (simp add: demo_packer_def QueueState_def Enqueue_def demo_blob_def stamp_def)
  have po: "pkPolicy demo_packer = DefaultPolicy 0" "pkOnline demo_packer"
    by (simp_all add: demo_packer_def)
  have due: "Packer_Due demo_packer (DefaultMaxAge + 5000000) = Some ReasonAge"
    by (simp add: Packer_Due_def Policy_due_def st po DefaultPolicy_def DefaultMaxAge_def Minute_def Second_def)
  have "\<exists>reason res p' w'. Packer_Due demo_packer (DefaultMaxAge + 5000000) = Some reason
    \<and> Packer_flush demo_flusher (DefaultMaxAge + 5000000) reason (demo_packer, ()) = ((res, None), (p', w'))
    \<and> run_tick demo_flusher (DefaultMaxAge + 5000000) (demo_packer, ()) = (None, (p', w'))
    \<and> delivered demo_flusher () res 3 (''c'', [1]) \<and> queued (pkQueue p') 3 = None \<and> pkState p' = QueueState (pkQueue p')"
    by (rule run_tick_flushes [OF demo_packer_ok])
       (simp_all add: st po demo_queue DefaultPolicy_def DefaultMaxAge_def Minute_def Second_def
          demo_flusher_def claimable_def)
  with due show ?thesis by auto
qed

section \<open>Several processes on one queue\<close>

text \<open>
  The vault's processes share the queue and the network.  Each runs \<open>Packer_flush\<close>, of which only the single calls are indivisible:
  \<open>flush_step\<close> is one such call, and a flight says which of them a process has reached.  Run without interruption the calls are
  the flush.
\<close>

datatype flight =
    Resting
  | Starting
  | Claimed "queued_blob list"
  | PutFailed "queued_blob list"
  | Written "queued_blob list" flush
  | Accepted "queued_blob list"

definition flush_step :: "'w flusher \<Rightarrow> gotime \<Rightarrow> string \<Rightarrow> packer \<Rightarrow> flight \<Rightarrow> queue \<Rightarrow> 'w \<Rightarrow> flight \<times> queue \<times> 'w" where
  "flush_step fl now reason p pc q w = (case pc of
     Resting \<Rightarrow> (Resting, q, w)
   | Starting \<Rightarrow> if \<not> pkOnline p then (Resting, q, w)
       else (case flDB fl DbClaim of Some e \<Rightarrow> (Resting, q, w)
        | None \<Rightarrow> (case ClaimQueued now (pkOwner p) (claimTimeout (pkPolicy p)) 0 q of (bs, q1) \<Rightarrow>
            (if bs = [] then Resting else Claimed bs, q1, w)))
   | Claimed bs \<Rightarrow> (case flPut fl (map qiBlob (map item_of bs)) w of
       (Inl e, w1) \<Rightarrow> (PutFailed bs, q, w1)
     | (Inr f, w1) \<Rightarrow> (Written bs f, q, w1))
   | PutFailed bs \<Rightarrow> (Resting, if flDB fl DbRelease = None then ReleaseQueued (map qbID bs) q else q, w)
   | Written bs f \<Rightarrow> (case flHook fl of None \<Rightarrow> (Accepted bs, q, w)
     | Some h \<Rightarrow> (case h \<lparr>prReason = reason, prRecords = map item_of bs, prFlush = f\<rparr> w of
         (Inl e, w2) \<Rightarrow> (Resting, q, w2)
       | (Inr _, w2) \<Rightarrow> (Accepted bs, q, w2)))
   | Accepted bs \<Rightarrow> (Resting, if flDB fl DbDrop = None then DropQueued (map qbID bs) q else q, w))"

fun flush_calls :: "nat \<Rightarrow> 'w flusher \<Rightarrow> gotime \<Rightarrow> string \<Rightarrow> packer \<Rightarrow> flight \<times> queue \<times> 'w \<Rightarrow> flight \<times> queue \<times> 'w" where
  "flush_calls 0 fl now reason p s = s"
| "flush_calls (Suc n) fl now reason p s = (case s of (pc, q, w) \<Rightarrow> flush_calls n fl now reason p (flush_step fl now reason p pc q w))"

lemma flush_calls_Resting [simp]: "flush_calls n fl now reason p (Resting, q, w) = (Resting, q, w)"
  by (induction n) (simp_all add: flush_step_def)

















section \<open>The timer's interval\<close>

lemma tick_bounds: "Second \<le> tick p" "tick p \<le> Minute"
  by (auto simp: tick_def Let_def Second_def Minute_def)

lemma tick_tenth:
  assumes "0 < poIdleAfter p" and "10 * Second \<le> poIdleAfter p" and "0 < poMaxAge p \<longrightarrow> 10 * Second \<le> poMaxAge p"
  shows "10 * tick p \<le> poIdleAfter p" "0 < poMaxAge p \<Longrightarrow> 10 * tick p \<le> poMaxAge p"
  using assms
  by (auto simp: tick_def Let_def go_quot_def Second_def Minute_def min_def max_def)

end
