(* ===== verification/Reclaim.thy ===== *)
theory Reclaim
  imports SiaClient Floats
begin

text \<open>
  Package \<open>store/reclaim\<close>: what a sweep may destroy, the sweep, the listing of slabs that hold
  nothing, and repack.  The state is the network, the device's slab ledger and slab cache, the
  state of the caller that repack calls back into, and the report being filled in.  Go ranges
  over a map in no order; the order is the argument \<open>rng\<close>.  Durations are left out.
\<close>

section \<open>What is live\<close>

record slab =
  slID :: slabid
  slPinnedAt :: gotime
  slRecords :: int
  slBytes :: int
  slOrigin :: string

definition Slab_Releasable :: "slab \<Rightarrow> bool" where
  "Slab_Releasable s = SlabOrigin_Releasable (slOrigin s)"

record keep_set =
  lvObjects :: "objref set"
  lvSlabs :: "slabid set"
  lvCatalogued :: int
  lvReleaseAll :: bool

definition Live_Check :: "keep_set \<Rightarrow> nat \<Rightarrow> unit res" where
  "Live_Check l pinned =
    (if lvCatalogued l < 0
       then fail [ErrKeepSetDegenerate] ''the catalog reported a negative number of records''
     else if lvCatalogued l = 0 \<and> pinned = 0 then Inr ()
     else if lvCatalogued l = 0 \<and> \<not> lvReleaseAll l
       then fail [ErrKeepSetDegenerate] ''the catalog holds no records while slabs are pinned''
     else if lvCatalogued l = 0 then Inr ()
     else if card (lvObjects l) = 0
       then fail [ErrKeepSetDegenerate] ''the keep-set names none of their objects''
     else if int (card (lvObjects l)) < lvCatalogued l
       then fail [ErrKeepSetDegenerate] ''the keep-set does not name every object''
     else if card (lvSlabs l) = 0
       then fail [ErrKeepSetDegenerate] ''the keep-set names no slab to keep''
     else Inr ())"

record sweep_plan =
  spDeadObjects :: "objref list"
  spReleasableSlabs :: "slabid list"
  spHeldSlabs :: nat
  spForeignObjects :: nat

definition planSweep :: "(slabid list \<Rightarrow> slabid list) \<Rightarrow> keep_set \<Rightarrow> slab list \<Rightarrow> stored_object list \<Rightarrow> sweep_plan" where
  "planSweep rng live tracked objects =
    (let ours = distinct_keys [] (map slID (filter Slab_Releasable tracked)) in
     \<lparr>spDeadObjects = map stRef (filter (\<lambda>ob. stSlab ob \<in> set ours \<and> stRef ob \<notin> lvObjects live) objects),
      spReleasableSlabs = filter (\<lambda>i. i \<notin> lvSlabs live) (rng ours),
      spHeldSlabs = length (filter (\<lambda>s. \<not> Slab_Releasable s) tracked),
      spForeignObjects = length (filter (\<lambda>ob. stSlab ob \<notin> set ours) objects)\<rparr>)"

text \<open>Ranging over a map visits each key once.\<close>

definition ranged :: "('k list \<Rightarrow> 'k list) \<Rightarrow> bool" where
  "ranged rng \<longleftrightarrow> (\<forall>ks. distinct ks \<longrightarrow> distinct (rng ks) \<and> set (rng ks) = set ks)"

section \<open>State\<close>

record ('n, 'w, 'r) rworld =
  rwNet :: 'n
  rwLedger :: ledger
  rwCache :: slab_cache
  rwCaller :: 'w
  rwReport :: 'r

datatype ledger_stmt = RdTracked | RdTrack slabid | RdForgetSlab slabid | RdForgetMeta slabid

text \<open>The indexer's library, which statements on the device fail, the clock, and the orders in which
  concurrent calls take effect.\<close>

record 'n reclaimer =
  rcSdk :: "'n sdk"
  rcDB :: "ledger_stmt \<Rightarrow> goerr option"
  rcNow :: gotime
  rcSched :: "nat \<Rightarrow> nat list"
  rcRange :: "slabid list \<Rightarrow> slabid list"

definition on_net :: "('n, 'a) step \<Rightarrow> (('n, 'w, 'r) rworld, 'a) step" where
  "on_net m s = (case m (rwNet s) of (r, n) \<Rightarrow> (r, s\<lparr>rwNet := n\<rparr>))"

definition net_run :: "('n, 'a) run \<Rightarrow> (('n, 'w, 'r) rworld, 'a) run" where
  "net_run m s = (case m (rwNet s) of None \<Rightarrow> None | Some (r, n) \<Rightarrow> Some (r, s\<lparr>rwNet := n\<rparr>))"

definition stmt :: "'n reclaimer \<Rightarrow> ledger_stmt \<Rightarrow> (('n, 'w, 'r) rworld \<Rightarrow> ('n, 'w, 'r) rworld)
    \<Rightarrow> (('n, 'w, 'r) rworld, unit) step" where
  "stmt rc st f s = (case rcDB rc st of Some e \<Rightarrow> (Inl e, s) | None \<Rightarrow> (Inr (), f s))"

definition wrapping :: "string \<Rightarrow> ('s, 'a) step \<Rightarrow> ('s, 'a) step" where
  "wrapping msg m s = (case m s of (Inl e, s') \<Rightarrow> (Inl (wrap_err msg e), s') | (Inr x, s') \<Rightarrow> (Inr x, s'))"

definition note_report :: "('r \<Rightarrow> 'r) \<Rightarrow> (('n, 'w, 'r) rworld, unit) step" where
  "note_report f = smod (\<lambda>s. s\<lparr>rwReport := f (rwReport s)\<rparr>)"

section \<open>The ledger\<close>

definition Track :: "'n reclaimer \<Rightarrow> slabid \<Rightarrow> int \<Rightarrow> int \<Rightarrow> (('n, 'w, 'r) rworld, unit) step" where
  "Track rc i records bytes =
    (if i = [] then sret ()
     else stmt rc (RdTrack i) (\<lambda>s. s\<lparr>rwLedger := TrackSlab (rcNow rc) i records bytes (rwLedger s)\<rparr>))"

definition Adopt :: "'n reclaimer \<Rightarrow> slabid \<Rightarrow> int \<Rightarrow> int \<Rightarrow> (('n, 'w, 'r) rworld, unit) step" where
  "Adopt rc i records bytes =
    (if i = [] then sret ()
     else stmt rc (RdTrack i) (\<lambda>s. s\<lparr>rwLedger := AdoptSlab (rcNow rc) i records bytes (rwLedger s)\<rparr>))"

definition Tracked :: "'n reclaimer \<Rightarrow> (('n, 'w, 'r) rworld, slab list) step" where
  "Tracked rc s = (case rcDB rc RdTracked of
     Some e \<Rightarrow> (Inl e, s)
   | None \<Rightarrow> (Inr (map (\<lambda>t. \<lparr>slID = tsSlabID t, slPinnedAt = tsPinnedAt t, slRecords = tsRecords t,
        slBytes = tsBytes t, slOrigin = tsOrigin t\<rparr>) (TrackedSlabs (rwLedger s))), s))"

definition Unpin :: "'n reclaimer \<Rightarrow> slabid \<Rightarrow> (('n, 'w, 'r) rworld, unit) step" where
  "Unpin rc i =
    sbind (on_net (UnpinSlab (rcSdk rc) i)) (\<lambda>_.
    sbind (wrapping ''slab was released but the ledger still lists it: ''
        (stmt rc (RdForgetSlab i) (\<lambda>s. s\<lparr>rwLedger := ForgetSlab i (rwLedger s)\<rparr>))) (\<lambda>_.
      stmt rc (RdForgetMeta i) (\<lambda>s. s\<lparr>rwCache := ForgetSlabMeta i (rwCache s)\<rparr>)))"

definition Client_Account :: "'n sdk \<Rightarrow> ('n, account) step" where
  "Client_Account k = wrapping ''read the account: '' (sdkAccount k)"

section \<open>The sweep\<close>

record sweep =
  swObjectsSeen :: nat
  swObjectsDeleted :: nat
  swUnreadable :: nat
  swSlabsReleased :: nat
  swSlabsHeld :: nat
  swBefore :: account
  swAfter :: account

definition no_account :: account where
  "no_account = \<lparr>acReady = False, acPinnedData = 0, acPinnedSize = 0, acMaxPinnedData = 0\<rparr>"

definition no_sweep :: sweep where
  "no_sweep = \<lparr>swObjectsSeen = 0, swObjectsDeleted = 0, swUnreadable = 0, swSlabsReleased = 0,
     swSlabsHeld = 0, swBefore = no_account, swAfter = no_account\<rparr>"

definition Sweep_Freed :: "sweep \<Rightarrow> nat" where
  "Sweep_Freed s = (if acPinnedData (swBefore s) \<le> acPinnedData (swAfter s) then 0
     else acPinnedData (swBefore s) - acPinnedData (swAfter s))"

text \<open>The destructive half: the dead objects, then the slabs, then the account once more.\<close>

definition release_slabs :: "'n reclaimer \<Rightarrow> slabid list \<Rightarrow> (('n, 'w, sweep) rworld, unit) step" where
  "release_slabs rc ids = smap_list (\<lambda>i. sbind (Unpin rc i) (\<lambda>_.
     note_report (\<lambda>r. r\<lparr>swSlabsReleased := Suc (swSlabsReleased r)\<rparr>))) ids"

definition account_after :: "'n reclaimer \<Rightarrow> (('n, 'w, sweep) rworld, unit) step" where
  "account_after rc = sbind (on_net (Client_Account (rcSdk rc))) (\<lambda>a. note_report (\<lambda>r. r\<lparr>swAfter := a\<rparr>))"

definition carry_out :: "'n reclaimer \<Rightarrow> sweep_plan \<Rightarrow> (('n, 'w, sweep) rworld, unit) step" where
  "carry_out rc plan =
    sbind (wrapping ''delete dead objects: ''
        (on_net (DeleteObjects (rcSdk rc) (rcSched rc (length (spDeadObjects plan))) (spDeadObjects plan)))) (\<lambda>_.
    sbind (note_report (\<lambda>r. r\<lparr>swObjectsDeleted := length (spDeadObjects plan)\<rparr>)) (\<lambda>_.
    sbind (release_slabs rc (spReleasableSlabs plan)) (\<lambda>_.
      account_after rc)))"

definition Sweep :: "'n reclaimer \<Rightarrow> keep_set \<Rightarrow> (('n, 'w, sweep) rworld, unit) run" where
  "Sweep rc live =
    pbind (prun (sbind (note_report (\<lambda>_. no_sweep)) (\<lambda>_. Tracked rc))) (\<lambda>tracked.
    pbind (prun (slift (Live_Check live (length tracked)))) (\<lambda>_.
    pbind (prun (on_net (Client_Account (rcSdk rc)))) (\<lambda>before.
    pbind (prun (note_report (\<lambda>r. r\<lparr>swBefore := before\<rparr>))) (\<lambda>_.
    pbind (net_run (WalkObjectsStats (rcSdk rc))) (\<lambda>(stats, objects).
      let plan = planSweep (rcRange rc) live tracked objects in
      prun (sbind (note_report (\<lambda>r. r\<lparr>swObjectsSeen := length objects,
          swUnreadable := length (wsUnreadable stats), swSlabsHeld := spHeldSlabs plan\<rparr>)) (\<lambda>_.
        carry_out rc plan)))))))"

section \<open>Slabs that hold nothing\<close>

record orphan =
  orID :: slabid
  orTracked :: bool

record unledgered =
  unID :: slabid
  unEmpty :: bool

definition checkOccupancy :: "nat \<Rightarrow> nat \<Rightarrow> bool \<Rightarrow> unit res" where
  "checkOccupancy pinned occupied releaseAll =
    (if pinned = 0 \<or> 0 < occupied \<or> releaseAll then Inr ()
     else fail [ErrKeepSetDegenerate] ''the object walk found nothing on any pinned slab'')"

definition occupied_slabs :: "stored_object list \<Rightarrow> slabid set" where
  "occupied_slabs objects = {i \<in> set (map stSlab objects). i \<noteq> []}"

definition Orphans :: "'n reclaimer \<Rightarrow> bool \<Rightarrow> (('n, 'w, 'r) rworld, orphan list) run" where
  "Orphans rc releaseAll =
    pbind (net_run (PinnedSlabs (rcSdk rc))) (\<lambda>pinned.
    pbind (net_run (WalkObjectsStats (rcSdk rc))) (\<lambda>(_, objects).
    pbind (prun (slift (checkOccupancy (length pinned) (card (occupied_slabs objects)) releaseAll))) (\<lambda>_.
    pbind (prun (Tracked rc)) (\<lambda>tracked.
      prun (sret (map (\<lambda>i. \<lparr>orID = i, orTracked = i \<in> slID ` set tracked\<rparr>)
        (filter (\<lambda>i. i \<notin> occupied_slabs objects) pinned)))))))"

definition list_unledgered :: "slabid list \<Rightarrow> stored_object list \<Rightarrow> slab list \<Rightarrow> unledgered list" where
  "list_unledgered pinned objects tracked =
     map (\<lambda>i. \<lparr>unID = i, unEmpty = (i \<notin> occupied_slabs objects)\<rparr>)
       (filter (\<lambda>i. i \<notin> slID ` set tracked) pinned)"

definition Unledgered :: "'n reclaimer \<Rightarrow> (('n, 'w, 'r) rworld, unledgered list) run" where
  "Unledgered rc =
    pbind (net_run (PinnedSlabs (rcSdk rc))) (\<lambda>pinned.
    pbind (net_run (WalkObjectsStats (rcSdk rc))) (\<lambda>(_, objects).
    pbind (prun (Tracked rc)) (\<lambda>tracked. prun (sret (list_unledgered pinned objects tracked)))))"

definition ReleaseOrphans :: "'n reclaimer \<Rightarrow> bool \<Rightarrow> (('n, 'w, sweep) rworld, unit) run" where
  "ReleaseOrphans rc releaseAll =
    pbind (prun (sbind (note_report (\<lambda>_. no_sweep)) (\<lambda>_. on_net (Client_Account (rcSdk rc))))) (\<lambda>before.
    pbind (prun (note_report (\<lambda>r. r\<lparr>swBefore := before\<rparr>))) (\<lambda>_.
    pbind (Orphans rc releaseAll) (\<lambda>orphans.
      prun (sbind (release_slabs rc (map orID orphans)) (\<lambda>_. account_after rc)))))"

definition DropUnreadable :: "'n reclaimer \<Rightarrow> (('n, 'w, 'r) rworld, objref list) run" where
  "DropUnreadable rc =
    pbind (net_run (WalkObjectsStats (rcSdk rc))) (\<lambda>(stats, _).
      let refs = wsUnreadable stats in
      prun (if refs = [] then sret []
        else sbind (wrapping ''delete unreadable objects: ''
               (on_net (DeleteObjects (rcSdk rc) (rcSched rc (length refs)) refs))) (\<lambda>_. sret refs)))"

section \<open>Repack\<close>

record held_record =
  hlID :: recid
  hlCID :: string
  hlRef :: objref
  hlSlab :: slabid

record moved =
  mvID :: recid
  mvCID :: string
  mvFrom :: objref
  mvTo :: objref
  mvSlab :: slabid
  mvBytes :: nat

record repack =
  rpRecords :: "moved list"
  rpSlabsBefore :: nat
  rpSlabsAfter :: nat
  rpPeak :: nat
  rpBefore :: account
  rpAfter :: account

definition no_repack :: repack where
  "no_repack = \<lparr>rpRecords = [], rpSlabsBefore = 0, rpSlabsAfter = 0, rpPeak = 0,
     rpBefore = no_account, rpAfter = no_account\<rparr>"

definition Repack_Freed :: "repack \<Rightarrow> nat" where
  "Repack_Freed r = (if acPinnedData (rpBefore r) \<le> acPinnedData (rpAfter r) then 0
     else acPinnedData (rpBefore r) - acPinnedData (rpAfter r))"

definition slab_set :: "held_record list \<Rightarrow> slabid list" where
  "slab_set held = distinct_keys [] (filter (\<lambda>i. i \<noteq> []) (map hlSlab held))"

definition ours_of :: "slab list \<Rightarrow> slabid \<Rightarrow> bool" where
  "ours_of tracked i = (case map_of (rev (map (\<lambda>s. (slID s, Slab_Releasable s)) tracked)) i of
     None \<Rightarrow> False | Some b \<Rightarrow> b)"

definition ownsAll :: "'n reclaimer \<Rightarrow> slabid list \<Rightarrow> (('n, 'w, 'r) rworld, unit) step" where
  "ownsAll rc ids =
    (if ids = [] then sret ()
     else sbind (Tracked rc) (\<lambda>tracked.
       if filter (\<lambda>i. \<not> ours_of tracked i) ids = [] then sret ()
       else sfail (GoErr [ErrNotOursToRelease] ''slabs were pinned by another device and hydrated here'')))"

definition Client_Download :: "'n sdk \<Rightarrow> objref \<Rightarrow> ('n, byte list) step" where
  "Client_Download k r = wrapping ''read object: '' (sdkDownload k r)"

fun read_all :: "'n reclaimer \<Rightarrow> held_record list \<Rightarrow> (('n, 'w, 'r) rworld, blob list) step" where
  "read_all rc [] = sret []"
| "read_all rc (h # hs) =
    sbind (wrapping ''read for repack: '' (on_net (Client_Download (rcSdk rc) (hlRef h)))) (\<lambda>p.
    sbind (read_all rc hs) (\<lambda>bs. sret (\<lparr>blCID = hlCID h, blPayload = p\<rparr> # bs)))"

definition moved_of :: "held_record \<times> written \<Rightarrow> moved" where
  "moved_of = (\<lambda>(h, w). \<lparr>mvID = hlID h, mvCID = wrCID w, mvFrom = hlRef h, mvTo = wrRef w,
     mvSlab = wrSlab w, mvBytes = wrBytes w\<rparr>)"

text \<open>Everything before the caller is asked to record the moves.\<close>

definition track_copies :: "'n reclaimer \<Rightarrow> held_record list \<Rightarrow> flush \<Rightarrow> (('n, 'w, repack) rworld, moved list \<times> flush) step" where
  "track_copies rc held f =
    sbind (note_report (\<lambda>r. r\<lparr>rpSlabsAfter := length (fSlabs f),
        rpPeak := rpSlabsBefore r + length (fSlabs f)\<rparr>)) (\<lambda>_.
      if length (fWritten f) \<noteq> length held
      then sfail (GoErr [] ''repack wrote a different number of objects'')
      else let moved = map moved_of (zip held (fWritten f)) in
        sbind (note_report (\<lambda>r. r\<lparr>rpRecords := moved\<rparr>)) (\<lambda>_.
        sbind (smap_list (\<lambda>i. Track rc i (int (length held)) (int (Flush_Bytes f))) (fSlabs f)) (\<lambda>_.
          sret (moved, f))))"

definition write_copies :: "'n reclaimer \<Rightarrow> held_record list \<Rightarrow> (('n, 'w, repack) rworld, moved list \<times> flush) step" where
  "write_copies rc held =
    sbind (note_report (\<lambda>r. r\<lparr>rpSlabsBefore := length (slab_set held)\<rparr>)) (\<lambda>_.
    sbind (ownsAll rc (slab_set held)) (\<lambda>_.
    sbind (on_net (Client_Account (rcSdk rc))) (\<lambda>before.
    sbind (note_report (\<lambda>r. r\<lparr>rpBefore := before\<rparr>)) (\<lambda>_.
    sbind (read_all rc held) (\<lambda>blobs.
    sbind (wrapping ''write for repack: ''
        (on_net (PutBatch (rcSdk rc) (rcSched rc (length blobs)) blobs))) (\<lambda>f.
      track_copies rc held f))))))"

definition on_caller :: "('w, 'a) step \<Rightarrow> (('n, 'w, 'r) rworld, 'a) step" where
  "on_caller m s = (case m (rwCaller s) of (r, w) \<Rightarrow> (r, s\<lparr>rwCaller := w\<rparr>))"

text \<open>Everything after the caller recorded them.\<close>

definition retire_old :: "'n reclaimer \<Rightarrow> held_record list \<Rightarrow> flush \<Rightarrow> (('n, 'w, repack) rworld, unit) step" where
  "retire_old rc held f =
    sbind (wrapping ''retire old objects: ''
        (on_net (DeleteObjects (rcSdk rc) (rcSched rc (length held)) (map hlRef held)))) (\<lambda>_.
    sbind (smap_list (Unpin rc) (filter (\<lambda>i. i \<notin> set (fSlabs f)) (rcRange rc (slab_set held)))) (\<lambda>_.
    sbind (on_net (Client_Account (rcSdk rc))) (\<lambda>a. note_report (\<lambda>r. r\<lparr>rpAfter := a\<rparr>))))"

definition Repack ::
    "'n reclaimer \<Rightarrow> (moved list \<Rightarrow> ('w, unit) step) \<Rightarrow> held_record list \<Rightarrow> (('n, 'w, repack) rworld, unit) step" where
  "Repack rc apply_moves held =
    sbind (note_report (\<lambda>_. no_repack)) (\<lambda>_.
      if held = [] then sret ()
      else sbind (write_copies rc held) (\<lambda>(moved, f).
        sbind (wrapping ''record the new locations: '' (on_caller (apply_moves moved))) (\<lambda>_.
          retire_old rc held f)))"

section \<open>The watermark\<close>

text \<open>Double precision, rounded to nearest even; no quotient here overflows.\<close>

definition round_f64 :: "rat \<Rightarrow> rat" where
  "round_f64 x = (if x = 0 then 0 else
     let e = max (ilog2 (abs x)) (- 1022); q = pow2 (e - 52) in of_int (round_even (x / q)) * q)"

definition DefaultWatermark :: rat where "DefaultWatermark = 3 / 4"

record watermark_check =
  wmUsed :: rat
  wmDue :: bool
  wmAffordable :: bool
  wmHeadroom :: "64 word"

definition Watermark :: "account \<Rightarrow> int \<Rightarrow> 64 word \<Rightarrow> watermark_check" where
  "Watermark a slabs slabBytes =
    (let room = of_int slabs * slabBytes;
         used = round_f64 (round_f64 (of_nat (acPinnedData a)) / round_f64 (of_nat (acMaxPinnedData a))) in
     if acMaxPinnedData a = 0
     then \<lparr>wmUsed = 0, wmDue = False, wmAffordable = False, wmHeadroom = room\<rparr>
     else \<lparr>wmUsed = used, wmDue = (DefaultWatermark \<le> used),
       wmAffordable = (unat room \<le> Account_Free a), wmHeadroom = room\<rparr>)"

section \<open>What a step asks of the network\<close>

definition log_of :: "('n \<times> net_call list, 'w, 'r) rworld \<Rightarrow> net_call list" where
  "log_of s = snd (rwNet s)"

definition destructive :: "net_call \<Rightarrow> bool" where
  "destructive c = (case c of CDelete _ \<Rightarrow> True | CUnpin _ \<Rightarrow> True | _ \<Rightarrow> False)"

lemma destructive_simps [simp]:
  "destructive (CDelete r)" "destructive (CUnpin i)" "\<not> destructive (CAdd b)" "\<not> destructive CFinalize"
  "\<not> destructive (CPinSlabs xs)" "\<not> destructive (CPinObject r)" "\<not> destructive (CDownload r)"
  by (simp_all add: destructive_def)

lemma walk_pages_quiet:
  assumes "walk_pages (traced k) w n = Some y"
  shows "snd (snd y) = snd n"
proof -
  have "k' = traced k \<longrightarrow> snd (snd y) = snd n" if "walk_pages k' w n = Some y" for k'
  proof (rule walk_pages.raw_induct [where P = "\<lambda>k' w n y. k' = traced k \<longrightarrow> snd (snd y) = snd n", OF _ that],
      intro impI)
    fix pages k' w y and n :: "'a \<times> net_call list"
    assume I: "\<And>k' w n y. pages k' w n = Some y \<Longrightarrow> k' = traced k \<longrightarrow> snd (snd y) = snd n"
      and B: "(case sdkListObjects k' (wkCursor w) n of
          (Inl e, n') \<Rightarrow> Some (Inl (wrap_err ''list the account's objects'' e), n')
        | (Inr es, n') \<Rightarrow> if es = [] then Some (Inr w, n') else pages k' (walk_page k' es w) n') = Some y"
      and k': "k' = traced k"
    obtain r n1 where l: "sdkListObjects k' (wkCursor w) n = (r, n1)"
      by (cases "sdkListObjects k' (wkCursor w) n")
    then have "snd n1 = snd n" using snd_unlogged [of "sdkListObjects k (wkCursor w)" n] by (simp add: k')
    with B l k' show "snd (snd y) = snd n"
      by (cases r) (auto split: if_splits dest!: I)
  qed
  with assms show ?thesis by blast
qed

lemma walk_quiet: "WalkObjectsStats (traced k) n = Some (r, n') \<Longrightarrow> snd n' = snd n"
  using walk_pages_quiet [of k walk_start n] by (force simp: WalkObjectsStats_def)

lemma pbind_Some:
  "pbind m f s = Some (r, t) \<longleftrightarrow> (\<exists>e. m s = Some (Inl e, t) \<and> r = Inl e)
    \<or> (\<exists>x s1. m s = Some (Inr x, s1) \<and> f x s1 = Some (r, t))"
  by (auto simp: pbind_def split: option.splits sum.splits prod.splits)

lemma sbind_eq:
  "sbind m f s = (r, t) \<longleftrightarrow> (\<exists>e. m s = (Inl e, t) \<and> r = Inl e)
    \<or> (\<exists>x s1. m s = (Inr x, s1) \<and> f x s1 = (r, t))"
  by (auto simp: sbind_def split: sum.splits prod.splits)

lemma note_report_eq [simp]: "note_report f s = (Inr (), s\<lparr>rwReport := f (rwReport s)\<rparr>)"
  by (simp add: note_report_def smod_def)

lemma log_of_report [simp]: "log_of (s\<lparr>rwReport := x\<rparr>) = log_of s"
  by (simp add: log_of_def)

lemma snd_wrapping [simp]: "snd (wrapping msg m s) = snd (m s)"
  by (auto simp: wrapping_def split: prod.splits sum.splits)

lemma wrapping_Inr [simp]: "wrapping msg m s = (Inr x, t) \<longleftrightarrow> m s = (Inr x, t)"
  by (auto simp: wrapping_def split: prod.splits sum.splits)

lemma wrapping_Inl: "wrapping msg m s = (Inl e, t) \<longleftrightarrow> (\<exists>e'. m s = (Inl e', t) \<and> e = wrap_err msg e')"
  by (auto simp: wrapping_def split: prod.splits sum.splits)

lemma on_net_eq: "on_net m s = (r, t) \<longleftrightarrow> (\<exists>n. m (rwNet s) = (r, n) \<and> t = s\<lparr>rwNet := n\<rparr>)"
  by (auto simp: on_net_def split: prod.splits)

lemma account_quiet:
  assumes "on_net (Client_Account (traced k)) s = (r, t)"
  shows "log_of t = log_of s \<and> rwLedger t = rwLedger s \<and> rwCaller t = rwCaller s \<and> rwReport t = rwReport s"
proof -
  obtain n where n: "Client_Account (traced k) (rwNet s) = (r, n)" "t = s\<lparr>rwNet := n\<rparr>"
    using assms by (auto simp: on_net_eq)
  have "snd (snd (Client_Account (traced k) (rwNet s))) = snd (rwNet s)"
    by (simp add: Client_Account_def)
  with n show ?thesis by (simp add: log_of_def)
qed

section \<open>The ledger's slabs\<close>

definition releasable :: "ledger \<Rightarrow> slabid \<Rightarrow> bool" where
  "releasable t i \<longleftrightarrow> (\<exists>r. row_of t i = Some r \<and> SlabOrigin_Releasable (lOrigin r))"

lemma Tracked_facts:
  assumes "Tracked rc s = (r, t)"
  shows "t = s" "r = Inr tracked \<Longrightarrow> length tracked = length (rwLedger s)"
    "r = Inr tracked \<Longrightarrow> table_ok (rwLedger s) \<Longrightarrow>
       i \<in> slID ` {x \<in> set tracked. Slab_Releasable x} \<longleftrightarrow> releasable (rwLedger s) i"
    "r = Inr tracked \<Longrightarrow> table_ok (rwLedger s) \<Longrightarrow> ours_of tracked i \<longleftrightarrow> releasable (rwLedger s) i"
proof -
  from assms show "t = s" by (auto simp: Tracked_def split: option.splits)
  assume r: "r = Inr tracked"
  then have t: "map (\<lambda>x. (slID x, slOrigin x)) tracked
      = map (\<lambda>x. (fst x, lOrigin (snd x))) (sort_by (\<lambda>a b. lPinnedAt (snd a) < lPinnedAt (snd b)) (rwLedger s))"
    using assms by (auto simp: Tracked_def TrackedSlabs_def split: option.splits)
  show "length tracked = length (rwLedger s)" using arg_cong [OF t, of length] by (simp only: length_map length_sort_by)
  have m: "x \<in> (\<lambda>x. (slID x, slOrigin x)) ` set tracked \<longleftrightarrow> x \<in> (\<lambda>x. (fst x, lOrigin (snd x))) ` set (rwLedger s)" for x
    using arg_cong [OF t, of set] by simp
  assume ok: "table_ok (rwLedger s)"
  show R: "i \<in> slID ` {x \<in> set tracked. Slab_Releasable x} \<longleftrightarrow> releasable (rwLedger s) i"
  proof -
    have "i \<in> slID ` {x \<in> set tracked. Slab_Releasable x} \<longleftrightarrow>
        (\<exists>g. (i, g) \<in> (\<lambda>x. (slID x, slOrigin x)) ` set tracked \<and> SlabOrigin_Releasable g)"
      by (auto simp: Slab_Releasable_def)
    also have "\<dots> \<longleftrightarrow> (\<exists>x. (i, x) \<in> set (rwLedger s) \<and> SlabOrigin_Releasable (lOrigin x))"
      unfolding m by (force simp: image_iff)
    finally show ?thesis by (simp add: releasable_def row_of_mem [OF ok])
  qed
  have "map slID tracked = map fst (map (\<lambda>x. (slID x, slOrigin x)) tracked)" by simp
  then have "distinct (map slID tracked)"
    using ok unfolding t by (simp add: table_ok_def keys_of_def comp_def)
  then have inj: "inj_on slID (set tracked)" by (simp add: distinct_map)
  have "ours_of tracked i \<longleftrightarrow> i \<in> slID ` {x \<in> set tracked. Slab_Releasable x}"
  proof (cases "map_of (rev (map (\<lambda>s. (slID s, Slab_Releasable s)) tracked)) i")
    case None
    then have "i \<notin> slID ` set tracked" by (simp add: map_of_eq_None_iff image_image)
    with None show ?thesis by (auto simp: ours_of_def)
  next
    case (Some b)
    then obtain x where x: "x \<in> set tracked" "slID x = i" "Slab_Releasable x = b" by (auto dest!: map_of_SomeD)
    have "Slab_Releasable y = b" if "y \<in> set tracked" "slID y = i" for y
      using inj_onD [OF inj, of y x] that x by simp
    with Some x show ?thesis by (auto simp: ours_of_def)
  qed
  then show "ours_of tracked i \<longleftrightarrow> releasable (rwLedger s) i" using R by simp
qed

section \<open>Releasing slabs\<close>

definition unpins :: "(slabid \<Rightarrow> bool) \<Rightarrow>
    (slabid \<Rightarrow> (('n \<times> net_call list, 'w, 'r) rworld, unit) step) \<Rightarrow> bool" where
  "unpins ok f \<longleftrightarrow> (\<forall>i s r t. f i s = (r, t) \<longrightarrow>
     log_of t = log_of s @ (if ok i then [CUnpin i] else [])
     \<and> (\<forall>j. j \<noteq> i \<or> \<not> ok i \<longrightarrow> row_of (rwLedger t) j = row_of (rwLedger s) j)
     \<and> (\<forall>j. row_of (rwLedger s) j = None \<longrightarrow> row_of (rwLedger t) j = None)
     \<and> (r = Inr () \<longrightarrow> ok i \<and> row_of (rwLedger t) i = None) \<and> rwCaller t = rwCaller s)"

lemma unpins_Unpin:
  assumes "rcSdk (rc :: ('n \<times> net_call list) reclaimer) = traced k"
  shows "unpins (sdkParseSlab k)
    (Unpin rc :: slabid \<Rightarrow> (('n \<times> net_call list, 'w, 'r) rworld, unit) step)"
  unfolding unpins_def
proof (intro allI impI)
  fix i r and s t :: "('n \<times> net_call list, 'w, 'r) rworld"
  assume "Unpin rc i s = (r, t)"
  moreover obtain u n where u: "UnpinSlab (traced k) i (rwNet s) = (u, n)"
    by (cases "UnpinSlab (traced k) i (rwNet s)")
  moreover have "snd n = log_of s @ (if sdkParseSlab k i then [CUnpin i] else [])"
    using UnpinSlab_log [of k i "rwNet s"] u by (simp add: log_of_def)
  moreover have "u = Inr () \<Longrightarrow> sdkParseSlab k i"
    using u by (auto simp: UnpinSlab_def split: if_splits)
  ultimately show "log_of t = log_of s @ (if sdkParseSlab k i then [CUnpin i] else [])
     \<and> (\<forall>j. j \<noteq> i \<or> \<not> sdkParseSlab k i \<longrightarrow> row_of (rwLedger t) j = row_of (rwLedger s) j)
     \<and> (\<forall>j. row_of (rwLedger s) j = None \<longrightarrow> row_of (rwLedger t) j = None)
     \<and> (r = Inr () \<longrightarrow> sdkParseSlab k i \<and> row_of (rwLedger t) i = None) \<and> rwCaller t = rwCaller s"
    using assms
    by (auto simp: Unpin_def sbind_eq on_net_eq stmt_def wrapping_def log_of_def ForgetSlab_def
        split: option.splits if_splits)
qed

lemma unpins_note:
  assumes "unpins ok f"
  shows "unpins ok (\<lambda>i. sbind (f i) (\<lambda>_. note_report g))"
  using assms unfolding unpins_def by (auto simp: sbind_eq)

lemma unpin_loop:
  assumes "unpins ok f"
  shows "smap_list f ids s = (r, t) \<Longrightarrow>
    \<exists>us rest. ids = us @ rest \<and> log_of t = log_of s @ map CUnpin us
      \<and> (\<forall>j. j \<notin> set us \<longrightarrow> row_of (rwLedger t) j = row_of (rwLedger s) j)
      \<and> (\<forall>j. row_of (rwLedger s) j = None \<longrightarrow> row_of (rwLedger t) j = None) \<and> rwCaller t = rwCaller s
      \<and> (r = Inr () \<longrightarrow> rest = [] \<and> (\<forall>i \<in> set ids. row_of (rwLedger t) i = None))"
proof (induction ids arbitrary: s)
  case Nil
  then show ?case by (simp add: sret_def)
next
  case (Cons i ids)
  obtain ri s1 where fi: "f i s = (ri, s1)" by fastforce
  note F = assms [unfolded unpins_def, rule_format, OF fi]
  show ?case
  proof (cases ri)
    case (Inl e)
    with Cons.prems(1) fi have "t = s1" "r = Inl e" by (auto simp: sbind_eq)
    then show ?thesis
      using F by (intro exI [of _ "if ok i then [i] else []"] exI [of _ "if ok i then ids else i # ids"]) auto
  next
    case (Inr x)
    with Cons.prems(1) fi have "smap_list f ids s1 = (r, t)" by (auto simp: sbind_eq)
    from Cons.IH [OF this] obtain us rest where us: "ids = us @ rest"
      "log_of t = log_of s1 @ map CUnpin us" "rwCaller t = rwCaller s1"
      "\<And>j. j \<notin> set us \<Longrightarrow> row_of (rwLedger t) j = row_of (rwLedger s1) j"
      "\<And>j. row_of (rwLedger s1) j = None \<Longrightarrow> row_of (rwLedger t) j = None"
      "r = Inr () \<Longrightarrow> rest = [] \<and> (\<forall>i \<in> set ids. row_of (rwLedger t) i = None)" by blast
    have "ok i" "row_of (rwLedger s1) i = None" using F Inr by auto
    then show ?thesis
      using F us by (intro exI [of _ "i # us"] exI [of _ rest]) auto
  qed
qed

section \<open>What a sweep destroys\<close>

lemma delete_facts:
  assumes "rcSdk rc = traced k" and "schedule (length refs) sched"
    and "on_net (DeleteObjects (rcSdk rc) sched refs) s = (r, t)"
  shows "\<exists>dels. log_of t = log_of s @ map CDelete dels \<and> set dels \<subseteq> set refs
    \<and> rwLedger t = rwLedger s \<and> rwCaller t = rwCaller s \<and> (r = Inr () \<longrightarrow> mset dels = mset refs)"
proof -
  define dels where "dels = (if refs = [] then [] else map ((!) refs) sched)"
  obtain n where n: "DeleteObjects (traced k) sched refs (rwNet s) = (r, n)" "t = s\<lparr>rwNet := n\<rparr>"
    using assms by (auto simp: on_net_eq)
  have "mset dels = mset refs" if "r = Inr ()"
  proof (cases "refs = []")
    case False
    have "inFlight sched (length refs) (\<lambda>i. DeleteObject (traced k) (refs ! i)) (rwNet s) = (Inr (), n)"
      using n(1) that by (simp add: DeleteObjects_def)
    from inFlight_complete [OF this assms(2)] False have "mset sched = mset [0..<length refs]" by simp
    then have "mset (map ((!) refs) sched) = mset (map ((!) refs) [0..<length refs])" by (simp only: mset_map)
    then show ?thesis using False by (simp add: dels_def map_nth)
  qed (simp add: dels_def)
  moreover have "set dels \<subseteq> set refs"
    using assms(2) by (auto simp: dels_def schedule_def intro!: nth_mem)
  moreover have "log_of t = log_of s @ map CDelete dels"
    using DeleteObjects_log [of k sched refs "rwNet s"] n by (simp add: log_of_def dels_def comp_def)
  ultimately show ?thesis using n(2) by (intro exI [of _ dels]) simp
qed

definition unmoved :: "('n \<times> net_call list, 'w, 'r) rworld \<Rightarrow> ('n \<times> net_call list, 'w, 'r) rworld \<Rightarrow> bool" where
  "unmoved s t \<longleftrightarrow> log_of t = log_of s \<and> rwLedger t = rwLedger s \<and> rwCaller t = rwCaller s"

text \<open>Deletes, then releases, then a last step that asks nothing destructive.\<close>

lemma destroy_facts:
  assumes k: "rcSdk rc = traced k" and sched: "schedule (length refs) sched" and f: "unpins ok f"
    and mid: "\<And>s r t. mid s = (r, t) \<Longrightarrow> r = Inr () \<and> unmoved s t"
    and fin: "\<And>s. unmoved s (snd (fin s))"
    and run: "sbind (wrapping msg (on_net (DeleteObjects (rcSdk rc) sched refs)))
      (\<lambda>_. sbind mid (\<lambda>_. sbind (smap_list f ids) (\<lambda>_. fin))) s = (r, t)"
  shows "\<exists>dels us rest. ids = us @ rest
    \<and> log_of t = log_of s @ map CDelete dels @ map CUnpin us \<and> set dels \<subseteq> set refs
    \<and> (us \<noteq> [] \<or> r = Inr () \<longrightarrow> mset dels = mset refs)
    \<and> (\<forall>j. j \<notin> set us \<longrightarrow> row_of (rwLedger t) j = row_of (rwLedger s) j)
    \<and> (r = Inr () \<longrightarrow> rest = [] \<and> (\<forall>i \<in> set us. row_of (rwLedger t) i = None)) \<and> rwCaller t = rwCaller s"
proof -
  obtain rd s1 where d: "on_net (DeleteObjects (rcSdk rc) sched refs) s = (rd, s1)"
    by (cases "on_net (DeleteObjects (rcSdk rc) sched refs) s")
  from delete_facts [OF k sched d] obtain dels where D:
    "log_of s1 = log_of s @ map CDelete dels" "set dels \<subseteq> set refs" "rwLedger s1 = rwLedger s"
    "rwCaller s1 = rwCaller s" "rd = Inr () \<Longrightarrow> mset dels = mset refs" by blast
  show ?thesis
  proof (cases rd)
    case (Inl e)
    then have "t = s1" "r \<noteq> Inr ()"
      using run d by (auto simp: sbind_eq wrapping_Inl)
    then show ?thesis
      using D by (intro exI [of _ dels] exI [of _ "[]"] exI [of _ ids]) auto
  next
    case (Inr x)
    obtain rm s2 where m: "mid s1 = (rm, s2)" by (cases "mid s1")
    with mid have M: "rm = Inr ()" "unmoved s1 s2" by blast+
    obtain rr s3 where rel: "smap_list f ids s2 = (rr, s3)" by (cases "smap_list f ids s2")
    from unpin_loop [OF f rel] obtain us rest where U: "ids = us @ rest"
      "log_of s3 = log_of s2 @ map CUnpin us" "rwCaller s3 = rwCaller s2"
      "\<And>j. j \<notin> set us \<Longrightarrow> row_of (rwLedger s3) j = row_of (rwLedger s2) j"
      "rr = Inr () \<Longrightarrow> rest = [] \<and> (\<forall>i \<in> set ids. row_of (rwLedger s3) i = None)"
      by blast
    from run d m M(1) rel Inr
    have t: "t = s3 \<and> (\<exists>e. rr = Inl e \<and> r = Inl e) \<or> rr = Inr () \<and> fin s3 = (r, t)"
      by (auto simp: sbind_eq wrapping_Inl)
    then have "unmoved s3 t" "r = Inr () \<Longrightarrow> rr = Inr ()"
      using fin [of s3] by (auto simp: unmoved_def)
    then show ?thesis
      using D U M(2) Inr unfolding unmoved_def
      by (intro exI [of _ dels] exI [of _ us] exI [of _ rest]) auto
  qed
qed

lemma note_unmoved: "note_report f s = (r, t) \<Longrightarrow> r = Inr () \<and> unmoved s t"
  by (auto simp: unmoved_def)

lemma account_note_unmoved:
  assumes "rcSdk rc = traced k"
  shows "unmoved s (snd (sbind (on_net (Client_Account (rcSdk rc))) (\<lambda>a. note_report (f a)) s))"
proof -
  obtain r t where a: "on_net (Client_Account (traced k)) s = (r, t)"
    by (cases "on_net (Client_Account (traced k)) s")
  from account_quiet [OF a] a assms show ?thesis
    by (cases r) (auto simp: unmoved_def sbind_def)
qed

lemma carry_out_facts:
  assumes k: "rcSdk rc = traced k" and sched: "\<And>n. schedule n (rcSched rc n)"
    and run: "carry_out rc plan s = (r, t)"
  shows "\<exists>dels us rest. spReleasableSlabs plan = us @ rest
    \<and> log_of t = log_of s @ map CDelete dels @ map CUnpin us
    \<and> set dels \<subseteq> set (spDeadObjects plan)
    \<and> (us \<noteq> [] \<or> r = Inr () \<longrightarrow> mset dels = mset (spDeadObjects plan))
    \<and> (\<forall>j. j \<notin> set us \<longrightarrow> row_of (rwLedger t) j = row_of (rwLedger s) j)
    \<and> (r = Inr () \<longrightarrow> rest = [] \<and> (\<forall>i \<in> set us. row_of (rwLedger t) i = None)) \<and> rwCaller t = rwCaller s"
  by (rule destroy_facts [OF k sched unpins_note [OF unpins_Unpin [OF k]] note_unmoved _
        run [unfolded carry_out_def release_slabs_def]])
     (auto simp: account_after_def intro: account_note_unmoved [OF k])

lemma planSweep_facts:
  assumes "ranged rng"
  shows "distinct (spReleasableSlabs (planSweep rng live tracked objects))"
    "set (spReleasableSlabs (planSweep rng live tracked objects))
       = slID ` {x \<in> set tracked. Slab_Releasable x} - lvSlabs live"
    "set (spDeadObjects (planSweep rng live tracked objects)) = {stRef ob |ob. ob \<in> set objects
       \<and> stSlab ob \<in> slID ` {x \<in> set tracked. Slab_Releasable x} \<and> stRef ob \<notin> lvObjects live}"
proof -
  have o: "distinct (distinct_keys [] ks)" for ks :: "slabid list"
    by (rule distinct_distinct_keys) simp
  show "distinct (spReleasableSlabs (planSweep rng live tracked objects))"
    using assms o by (auto simp: planSweep_def Let_def ranged_def)
  show "set (spReleasableSlabs (planSweep rng live tracked objects))
       = slID ` {x \<in> set tracked. Slab_Releasable x} - lvSlabs live"
    using assms o by (auto simp: planSweep_def Let_def ranged_def)
  show "set (spDeadObjects (planSweep rng live tracked objects)) = {stRef ob |ob. ob \<in> set objects
       \<and> stSlab ob \<in> slID ` {x \<in> set tracked. Slab_Releasable x} \<and> stRef ob \<notin> lvObjects live}"
    by (auto simp: planSweep_def Let_def)
qed

text \<open>The objects a sweep lists: after reading the account, the walk of all of them.\<close>

definition account_lists :: "'n sdk \<Rightarrow> 'n \<times> net_call list \<Rightarrow> stored_object list \<Rightarrow> bool" where
  "account_lists k n objects \<longleftrightarrow> (\<exists>a n1 st n2. Client_Account (traced k) n = (Inr a, n1)
     \<and> WalkObjectsStats (traced k) n1 = Some (Inr (st, objects), n2))"

text \<open>A sweep either stops before it asks anything destructive, or carries out a plan.\<close>

lemma Sweep_cases:
  assumes k: "rcSdk rc = traced k" and run: "Sweep rc live s = Some (r, t)"
  obtains e where "r = Inl e" "log_of t = log_of s" "rwLedger t = rwLedger s" "rwCaller t = rwCaller s"
  | tracked objects s1 where "Tracked rc s = (Inr tracked, s)" "Live_Check live (length tracked) = Inr ()"
      "account_lists k (rwNet s) objects"
      "log_of s1 = log_of s" "rwLedger s1 = rwLedger s" "rwCaller s1 = rwCaller s"
      "carry_out rc (planSweep (rcRange rc) live tracked objects) s1 = (r, t)"
proof -
  let ?s0 = "s\<lparr>rwReport := no_sweep\<rparr>"
  obtain rt s1 where T: "Tracked rc ?s0 = (rt, s1)" by (cases "Tracked rc ?s0")
  note s1 = Tracked_facts(1) [OF T]
  have Ts: "Tracked rc s = (rt, s)" using T by (auto simp: Tracked_def split: option.splits)
  show thesis
  proof (cases rt)
    case (Inl e)
    with run T s1 show thesis
      by (intro that(1) [of e]) (auto simp: Sweep_def pbind_Some sbind_eq)
  next
    case (Inr tracked)
    let ?c = "Live_Check live (length tracked)"
    let ?go = "\<lambda>_. pbind (prun (on_net (Client_Account (rcSdk rc)))) (\<lambda>before.
      pbind (prun (note_report (\<lambda>r. r\<lparr>swBefore := before\<rparr>))) (\<lambda>_.
      pbind (net_run (WalkObjectsStats (rcSdk rc))) (\<lambda>(stats, objects).
        let plan = planSweep (rcRange rc) live tracked objects in
        prun (sbind (note_report (\<lambda>r. r\<lparr>swObjectsSeen := length objects,
            swUnreadable := length (wsUnreadable stats), swSlabsHeld := spHeldSlabs plan\<rparr>)) (\<lambda>_.
          carry_out rc plan)))))"
    have R: "pbind (prun (slift ?c)) ?go ?s0 = Some (r, t)"
      using run T s1 Inr unfolding Sweep_def by (auto simp: pbind_Some sbind_eq)
    show thesis
    proof (cases ?c)
      case (Inl e)
      with R show thesis by (intro that(1) [of e]) (auto simp: pbind_Some slift_def)
    next
      case c: (Inr u)
      obtain ra s2 where A: "on_net (Client_Account (rcSdk rc)) ?s0 = (ra, s2)"
        by (cases "on_net (Client_Account (rcSdk rc)) ?s0")
      note Q = account_quiet [OF A [unfolded k]]
      show thesis
      proof (cases ra)
        case (Inl e)
        with R c A Q show thesis by (intro that(1) [of e]) (auto simp: pbind_Some slift_def)
      next
        case (Inr before)
        define s3 where "s3 = s2\<lparr>rwReport := (rwReport s2)\<lparr>swBefore := before\<rparr>\<rparr>"
        obtain rw n' where W: "WalkObjectsStats (traced k) (rwNet s3) = Some (rw, n')"
          using R c A Inr by (fastforce simp: pbind_Some slift_def net_run_def s3_def k split: option.splits)
        note wq = walk_quiet [OF W]
        show thesis
        proof (cases rw)
          case (Inl e)
          with R c A Inr W wq Q show thesis
            by (intro that(1) [of e])
               (auto simp: pbind_Some slift_def net_run_def s3_def k log_of_def)
        next
          case w: (Inr x)
          obtain st objects where x: "x = (st, objects)" by (cases x)
          define s4 where "s4 = s3\<lparr>rwNet := n', rwReport := (rwReport s3)\<lparr>swObjectsSeen := length objects,
            swUnreadable := length (wsUnreadable st),
            swSlabsHeld := spHeldSlabs (planSweep (rcRange rc) live tracked objects)\<rparr>\<rparr>"
          have "carry_out rc (planSweep (rcRange rc) live tracked objects) s4 = (r, t)"
            using R c A Inr W w x
            by (simp add: pbind_def slift_def net_run_def s3_def s4_def k Let_def sbind_def prun_def)
          moreover have "log_of s4 = log_of s" "rwLedger s4 = rwLedger s" "rwCaller s4 = rwCaller s"
            using Q wq by (simp_all add: s4_def s3_def log_of_def)
          moreover have "account_lists k (rwNet s) objects"
            using W w x A Inr by (auto simp: account_lists_def on_net_eq k s3_def)
          ultimately show thesis
            using that(2) [of tracked objects s4] Ts \<open>rt = Inr tracked\<close> c by simp
        qed
      qed
    qed
  qed
qed

text \<open>A sweep destroys only what it may, and in the one order that strands nothing.  On any network,
  with any failure of the network or the ledger, and in whatever order maps are ranged over and
  concurrent deletes land: every destructive call is a delete of an object that the account lists
  on a slab this device may release and that the keep-set does not name, or the release of a slab
  this device may release and the keep-set does not name; no slab is released twice, or before
  every dead object is deleted; nothing at all is asked for unless the keep-set passed its check;
  the ledger loses exactly what was released; and a sweep that reports success released every
  slab that may go.\<close>

lemma Sweep_facts:
  assumes "rcSdk rc = traced k" and "ranged (rcRange rc)" and "\<And>n. schedule n (rcSched rc n)"
    and "table_ok (rwLedger s)" and "Sweep rc live s = Some (r, t)"
  shows "\<exists>dels us objects. log_of t = log_of s @ map CDelete dels @ map CUnpin us \<and> distinct us
    \<and> (dels \<noteq> [] \<or> us \<noteq> [] \<or> r = Inr () \<longrightarrow> Live_Check live (length (rwLedger s)) = Inr () \<and> account_lists k (rwNet s) objects)
    \<and> set dels \<subseteq> stRef ` {ob \<in> set objects. releasable (rwLedger s) (stSlab ob)} - lvObjects live
    \<and> (us \<noteq> [] \<or> r = Inr () \<longrightarrow> set dels = stRef ` {ob \<in> set objects. releasable (rwLedger s) (stSlab ob)} - lvObjects live)
    \<and> set us \<subseteq> {i. releasable (rwLedger s) i} - lvSlabs live
    \<and> (\<forall>i. i \<notin> set us \<longrightarrow> row_of (rwLedger t) i = row_of (rwLedger s) i)
    \<and> (r = Inr () \<longrightarrow> set us = {i. releasable (rwLedger s) i} - lvSlabs live
          \<and> (\<forall>i \<in> set us. row_of (rwLedger t) i = None))
    \<and> rwCaller t = rwCaller s"
  using Sweep_cases [OF assms(1,5)]
proof cases
  case (1 e)
  then show ?thesis by (intro exI [of _ "[]"]) simp
next
  case (2 tracked objects s1)
  let ?plan = "planSweep (rcRange rc) live tracked objects"
  note P = planSweep_facts [OF assms(2), of live tracked objects]
  have T: "slID ` {x \<in> set tracked. Slab_Releasable x} = {i. releasable (rwLedger s) i}"
    using Tracked_facts(3) [OF 2(1)] assms(4) by blast
  have len: "length tracked = length (rwLedger s)" using Tracked_facts(2) [OF 2(1)] by simp
  from carry_out_facts [OF assms(1,3) 2(7)] obtain dels us rest where C:
    "spReleasableSlabs ?plan = us @ rest" "log_of t = log_of s1 @ map CDelete dels @ map CUnpin us"
    "set dels \<subseteq> set (spDeadObjects ?plan)"
    "us \<noteq> [] \<or> r = Inr () \<Longrightarrow> mset dels = mset (spDeadObjects ?plan)"
    "\<And>j. j \<notin> set us \<Longrightarrow> row_of (rwLedger t) j = row_of (rwLedger s1) j"
    "r = Inr () \<Longrightarrow> rest = [] \<and> (\<forall>i \<in> set us. row_of (rwLedger t) i = None)" "rwCaller t = rwCaller s1" by blast
  have slabs: "set us \<union> set rest = {i. releasable (rwLedger s) i} - lvSlabs live"
    using P(2) C(1) T by simp
  have dead: "set (spDeadObjects ?plan)
      = stRef ` {ob \<in> set objects. releasable (rwLedger s) (stSlab ob)} - lvObjects live"
    using P(3) unfolding T by (auto simp: image_iff)
  have "us \<noteq> [] \<or> r = Inr () \<Longrightarrow> set dels = set (spDeadObjects ?plan)"
    using C(4) mset_eq_setD by blast
  moreover have "distinct us" using P(1) C(1) by simp
  moreover have "set us \<subseteq> {i. releasable (rwLedger s) i} - lvSlabs live" using slabs by blast
  moreover have "r = Inr () \<Longrightarrow> set us = {i. releasable (rwLedger s) i} - lvSlabs live"
    using slabs C(6) by simp
  ultimately show ?thesis
    using C(2,3,5,6,7) 2(2-6) len unfolding dead
    by (intro exI [of _ dels] exI [of _ us] exI [of _ objects]) simp
qed

text \<open>A demonstration: object 1 runs over slabs s1 and s2, object 2 sits on s2.\<close>

definition span_lib :: slab_lib where
  "span_lib = \<lparr>skDigest = ssKey, skString = (\<lambda>d. if d = 5 then ''s1'' else ''s2'')\<rparr>"

definition span_events :: "sdk_event list" where
  "span_events =
    [\<lparr>evKey = 1, evUpdated = 1, evDeleted = False,
       evObject = Some (demo_object\<lparr>soSlabs := [demo_slice, demo_slice\<lparr>ssKey := 6\<rparr>]\<rparr>)\<rparr>,
     \<lparr>evKey = 2, evUpdated = 1, evDeleted = False,
       evObject = Some (demo_object\<lparr>soSlabs := [demo_slice\<lparr>ssKey := 6\<rparr>]\<rparr>)\<rparr>]"

definition span_sdk :: "byte list list sdk" where
  "span_sdk = demo_sdk\<lparr>sdkLib := span_lib,
     sdkListObjects := (\<lambda>c up. (Inr (if c = None then span_events else []), up))\<rparr>"

definition span_reclaimer :: "(byte list list \<times> net_call list) reclaimer" where
  "span_reclaimer = \<lparr>rcSdk = traced span_sdk, rcDB = (\<lambda>_. None), rcNow = 0, rcSched = (\<lambda>n. [0..<n]),
     rcRange = (\<lambda>ks. ks)\<rparr>"

definition span_world_of :: "'w \<Rightarrow> (byte list list \<times> net_call list, 'w, sweep) rworld" where
  "span_world_of c = \<lparr>rwNet = ([], []), rwLedger = TrackSlab 0 ''s2'' 1 1 (TrackSlab 0 ''s1'' 1 1 []),
     rwCache = [], rwCaller = c, rwReport = no_sweep\<rparr>"

abbreviation span_world :: "(byte list list \<times> net_call list, unit, sweep) rworld" where
  "span_world \<equiv> span_world_of ()"

definition span_live :: keep_set where
  "span_live = \<lparr>lvObjects = {1}, lvSlabs = {''s1''}, lvCatalogued = 1, lvReleaseAll = False\<rparr>"

abbreviation span_object :: "slab_slice list \<Rightarrow> sdk_object" where
  "span_object is \<equiv> \<lparr>obID = 0, obSlabs = is, obSize = 1\<rparr>"

lemma span_walk: "\<exists>st n. WalkObjectsStats (traced span_sdk) ([], tr) = Some (Inr (st,
    [\<lparr>stRef = 1, stSlab = ''s1'', stBytes = 1, stUpdated = 1, stObject = span_object [demo_slice, demo_slice\<lparr>ssKey := 6\<rparr>]\<rparr>,
     \<lparr>stRef = 2, stSlab = ''s2'', stBytes = 1, stUpdated = 1, stObject = span_object [demo_slice\<lparr>ssKey := 6\<rparr>]\<rparr>]), ([], tr))"
  by (simp add: WalkObjectsStats_def walk_pages.simps walk_start_def span_sdk_def span_events_def unlogged_def
      walk_page_def walk_event_def demo_sdk_def demo_object_def slabOf_def slab_name_def span_lib_def
      demo_slice_def walk_result_def Let_def)

lemma span_sweep: "\<exists>t. Sweep span_reclaimer span_live (span_world_of c) = Some (Inr (), t)
    \<and> log_of t = [CDelete 2, CUnpin ''s2'']"
proof -
  obtain st where w: "WalkObjectsStats (traced span_sdk) ([], []) = Some (Inr (st,
    [\<lparr>stRef = 1, stSlab = ''s1'', stBytes = 1, stUpdated = 1, stObject = span_object [demo_slice, demo_slice\<lparr>ssKey := 6\<rparr>]\<rparr>,
     \<lparr>stRef = 2, stSlab = ''s2'', stBytes = 1, stUpdated = 1, stObject = span_object [demo_slice\<lparr>ssKey := 6\<rparr>]\<rparr>]), ([], []))"
    using span_walk by auto
  have T: "Tracked span_reclaimer ((span_world_of c)\<lparr>rwReport := x\<rparr>) = (Inr [
      \<lparr>slID = ''s1'', slPinnedAt = 0, slRecords = 1, slBytes = 1, slOrigin = SlabPinned\<rparr>,
      \<lparr>slID = ''s2'', slPinnedAt = 0, slRecords = 1, slBytes = 1, slOrigin = SlabPinned\<rparr>],
      (span_world_of c)\<lparr>rwReport := x\<rparr>)" for x
    by (simp add: Tracked_def span_reclaimer_def span_world_of_def TrackSlab_def trackSlab_def TrackedSlabs_def stamp_def)
  have A: "on_net (Client_Account (rcSdk span_reclaimer)) ((span_world_of c)\<lparr>rwReport := x\<rparr>)
      = (Inr (no_account\<lparr>acReady := True\<rparr>), (span_world_of c)\<lparr>rwReport := x\<rparr>)" for x
    by (simp add: on_net_def Client_Account_def wrapping_def span_reclaimer_def span_sdk_def demo_sdk_def
        unlogged_def span_world_of_def no_account_def)
  have P: "planSweep (rcRange span_reclaimer) span_live [
      \<lparr>slID = ''s1'', slPinnedAt = 0, slRecords = 1, slBytes = 1, slOrigin = SlabPinned\<rparr>,
      \<lparr>slID = ''s2'', slPinnedAt = 0, slRecords = 1, slBytes = 1, slOrigin = SlabPinned\<rparr>]
    [\<lparr>stRef = 1, stSlab = ''s1'', stBytes = 1, stUpdated = 1, stObject = span_object [demo_slice, demo_slice\<lparr>ssKey := 6\<rparr>]\<rparr>,
     \<lparr>stRef = 2, stSlab = ''s2'', stBytes = 1, stUpdated = 1, stObject = span_object [demo_slice\<lparr>ssKey := 6\<rparr>]\<rparr>]
    = \<lparr>spDeadObjects = [2], spReleasableSlabs = [''s2''], spHeldSlabs = 0, spForeignObjects = 0\<rparr>"
    by (simp add: planSweep_def Let_def span_live_def span_reclaimer_def Slab_Releasable_def
        SlabOrigin_Releasable_def SlabPinned_def SlabHydrated_def)
  have C: "\<exists>t. carry_out span_reclaimer \<lparr>spDeadObjects = [2], spReleasableSlabs = [''s2''],
       spHeldSlabs = 0, spForeignObjects = 0\<rparr> ((span_world_of c)\<lparr>rwReport := x\<rparr>) = (Inr (), t)
     \<and> log_of t = [CDelete 2, CUnpin ''s2'']" for x
    by (simp add: carry_out_def release_slabs_def account_after_def sbind_def on_net_def wrapping_def
        DeleteObjects_def inFlight_def DeleteObject_def Unpin_def UnpinSlab_def stmt_def Client_Account_def
        span_reclaimer_def span_sdk_def demo_sdk_def logged_def unlogged_def span_world_of_def log_of_def sret_def
        lessThan_Suc upt_rec)
  have L: "Live_Check span_live (Suc (Suc 0)) = Inr ()" by (simp add: Live_Check_def span_live_def)
  have N: "rcSdk span_reclaimer = traced span_sdk" "rwNet ((span_world_of c)\<lparr>rwReport := x\<rparr>) = ([], [])"
    "(span_world_of c)\<lparr>rwReport := x, rwNet := ([], [])\<rparr> = (span_world_of c)\<lparr>rwReport := x\<rparr>" for x
    by (simp_all add: span_reclaimer_def span_world_of_def)
  show ?thesis
    using C by (simp add: Sweep_def pbind_def prun_def sbind_def T A [unfolded N] slift_def L net_run_def N w
      P [unfolded One_nat_def] Let_def)
qed

text \<open>So the sweep released s2, where the second half of the live object 1 is: the catalog names an
  object's first slab only.\<close>

lemma spanning_object_loses_slab:
  "\<exists>t. Sweep span_reclaimer span_live span_world = Some (Inr (), t) \<and> CUnpin ''s2'' \<in> set (log_of t)
    \<and> 1 \<in> lvObjects span_live
    \<and> slab_name span_sdk ` set (soSlabs (the (evObject (hd span_events)))) = {''s1'', ''s2''}"
  using span_sweep [of "()"]
  by (auto simp: span_live_def span_events_def slab_name_def span_sdk_def span_lib_def demo_slice_def demo_object_def)

text \<open>A sweep refuses a keep-set that does not cover the vault, before it asks anything of the
  network: when the caller says it holds records and the keep-set names fewer objects than that,
  or no slab; when it says it holds none while slabs are pinned and emptying was not asked for;
  when the count is negative.  The error is the degenerate keep-set, and nothing is changed.\<close>

lemma Sweep_refuses_degenerate:
  assumes "rcDB rc RdTracked = None"
    and "lvCatalogued live < 0
      \<or> lvCatalogued live = 0 \<and> rwLedger s \<noteq> [] \<and> \<not> lvReleaseAll live
      \<or> 0 < lvCatalogued live \<and> (int (card (lvObjects live)) < lvCatalogued live \<or> lvSlabs live = {})"
  shows "\<exists>e. Sweep rc live s = Some (Inl e, s\<lparr>rwReport := no_sweep\<rparr>) \<and> errors_Is e ErrKeepSetDegenerate"
proof -
  have "\<exists>tracked. Tracked rc (s\<lparr>rwReport := no_sweep\<rparr>) = (Inr tracked, s\<lparr>rwReport := no_sweep\<rparr>)
      \<and> length tracked = length (rwLedger s)"
    using assms(1) by (simp add: Tracked_def TrackedSlabs_def)
  then obtain tracked where T: "Tracked rc (s\<lparr>rwReport := no_sweep\<rparr>) = (Inr tracked, s\<lparr>rwReport := no_sweep\<rparr>)"
    "length tracked = length (rwLedger s)" by blast
  have "\<exists>e. Live_Check live (length tracked) = Inl e \<and> errors_Is e ErrKeepSetDegenerate"
    using assms(2) T(2) by (auto simp: Live_Check_def)
  then show ?thesis by (auto simp: Sweep_def pbind_def prun_def sbind_def T(1) slift_def)
qed

section \<open>What repack destroys\<close>

definition harmless :: "net_call list \<Rightarrow> bool" where
  "harmless cs \<longleftrightarrow> (\<forall>c \<in> set cs. \<not> destructive c)"

lemma harmless_simps [simp]:
  "harmless []" "harmless (c # cs) \<longleftrightarrow> \<not> destructive c \<and> harmless cs"
  "harmless (cs @ ds) \<longleftrightarrow> harmless cs \<and> harmless ds"
  by (auto simp: harmless_def)

definition gentle :: "net_call list \<Rightarrow> 'n \<times> net_call list \<Rightarrow> bool" where
  "gentle tr s \<longleftrightarrow> (\<exists>cs. snd s = tr @ cs \<and> harmless cs)"

lemma gentle_logged: "\<not> destructive c \<Longrightarrow> preserves (gentle tr) (logged c m)"
  by (rule preservesI) (force simp: gentle_def)

lemma gentle_unlogged: "preserves (gentle tr) (unlogged m)"
  by (rule preservesI) (simp add: gentle_def)

lemma gentle_PutBatch: "preserves (gentle tr) (PutBatch (traced k) sched blobs)"
proof -
  have pin: "preserves (gentle tr) (PinObjects (traced k) sched b)" for b
  proof (rule preservesI)
    fix s assume g: "gentle tr (s :: 'a \<times> net_call list)"
    have "gentle tr (snd (run_calls (\<lambda>i. sdkPinObject (traced k) (btObjects b ! i)) sched [] s))"
      by (rule run_calls_inv [where P = "gentle tr", OF _ g]) (simp add: preservesD [OF gentle_logged])
    with g show "gentle tr (snd (PinObjects (traced k) sched b s))"
      by (auto simp: PinObjects_def inFlight_def sret_def split: prod.splits list.splits)
  qed
  have up: "preserves (gentle tr) (UploadPacked (traced k) ps)" for ps
    unfolding UploadPacked_def traced_sel
    by (auto intro!: preserves_sbind preserves_smap_list gentle_logged gentle_unlogged)
  have ps: "preserves (gentle tr) (PinSlabs (traced k) b)" for b
    by (auto simp: PinSlabs_def Let_def intro!: gentle_logged)
  show ?thesis
    unfolding PutBatch_def using up ps pin by (auto intro!: preserves_sbind)
qed

lemma read_all_facts:
  assumes k: "rcSdk rc = traced k"
  shows "read_all rc hs s = (r, t) \<Longrightarrow> \<exists>m. log_of t = log_of s @ map (CDownload \<circ> hlRef) (take m hs)
    \<and> rwLedger t = rwLedger s \<and> rwCaller t = rwCaller s
    \<and> (\<forall>bs. r = Inr bs \<longrightarrow> length hs \<le> m \<and> map blCID bs = map hlCID hs
         \<and> list_all2 (\<lambda>h b. \<exists>n n'. sdkDownload k (hlRef h) n = (Inr (blPayload b), n')) hs bs)"
proof (induction hs arbitrary: s r t)
  case Nil
  then show ?case by (auto simp: sret_def)
next
  case (Cons h hs)
  obtain rd n where d: "logged (CDownload (hlRef h)) (sdkDownload k (hlRef h)) (rwNet s) = (rd, n)"
    by (cases "logged (CDownload (hlRef h)) (sdkDownload k (hlRef h)) (rwNet s)")
  define s1 where "s1 = s\<lparr>rwNet := n\<rparr>"
  have l: "log_of s1 = log_of s @ [CDownload (hlRef h)]" "rwLedger s1 = rwLedger s" "rwCaller s1 = rwCaller s"
    using snd_logged [of "CDownload (hlRef h)" "sdkDownload k (hlRef h)" "rwNet s"] d
    by (simp_all add: s1_def log_of_def)
  show ?case
  proof (cases rd)
    case (Inl e)
    with Cons.prems d k have "t = s1" "\<exists>e. r = Inl e"
      by (auto simp: sbind_eq wrapping_Inl on_net_eq Client_Download_def s1_def)
    with l show ?thesis by (intro exI [of _ 1]) auto
  next
    case (Inr p)
    obtain rb s2 where rb: "read_all rc hs s1 = (rb, s2)" by (cases "read_all rc hs s1")
    from Cons.IH [OF rb] obtain m where m:
      "log_of s2 = log_of s1 @ map (CDownload \<circ> hlRef) (take m hs)"
      "rwLedger s2 = rwLedger s1" "rwCaller s2 = rwCaller s1"
      "\<forall>bs. rb = Inr bs \<longrightarrow> length hs \<le> m \<and> map blCID bs = map hlCID hs
         \<and> list_all2 (\<lambda>h b. \<exists>n n'. sdkDownload k (hlRef h) n = (Inr (blPayload b), n')) hs bs" by blast
    have t: "t = s2" "r = (case rb of Inl e \<Rightarrow> Inl e | Inr bs \<Rightarrow> Inr (\<lparr>blCID = hlCID h, blPayload = p\<rparr> # bs))"
      using Cons.prems d k Inr rb
      by (auto simp: sbind_eq wrapping_Inl on_net_eq Client_Download_def s1_def sret_def split: sum.splits)
    have "\<exists>n n'. sdkDownload k (hlRef h) n = (Inr p, n')"
      using d Inr by (auto simp: logged_def split: prod.splits)
    with l m t show ?thesis by (intro exI [of _ "Suc m"]) (auto split: sum.splits)
  qed
qed

lemma track_loop:
  "smap_list (\<lambda>i. Track rc i a b) ids s = (r, t) \<Longrightarrow> log_of t = log_of s \<and> rwCaller t = rwCaller s
    \<and> (\<forall>j. j \<notin> set ids \<longrightarrow> row_of (rwLedger t) j = row_of (rwLedger s) j)
    \<and> (\<forall>j. releasable (rwLedger s) j \<longrightarrow> releasable (rwLedger t) j)
    \<and> (r = Inr () \<longrightarrow> (\<forall>i \<in> set ids. i \<noteq> [] \<longrightarrow> releasable (rwLedger t) i))"
proof (induction ids arbitrary: s)
  case Nil
  then show ?case by (simp add: sret_def)
next
  case (Cons i ids)
  obtain ri s1 where f: "Track rc i a b s = (ri, s1)" by (cases "Track rc i a b s")
  then have F: "log_of s1 = log_of s" "rwCaller s1 = rwCaller s"
    "\<And>j. j \<noteq> i \<Longrightarrow> row_of (rwLedger s1) j = row_of (rwLedger s) j"
    "\<And>j. releasable (rwLedger s) j \<Longrightarrow> releasable (rwLedger s1) j"
    "ri = Inr () \<Longrightarrow> i \<noteq> [] \<Longrightarrow> releasable (rwLedger s1) i"
    by (auto simp: Track_def stmt_def sret_def log_of_def releasable_def TrackSlab_def trackSlab_def
        SlabOrigin_Releasable_def SlabPinned_def SlabHydrated_def split: if_splits option.splits)
  show ?case
  proof (cases ri)
    case (Inl e)
    with Cons.prems f have "t = s1" "r = Inl e" by (auto simp: sbind_eq)
    with F show ?thesis by auto
  next
    case (Inr x)
    with Cons.prems f have "smap_list (\<lambda>i. Track rc i a b) ids s1 = (r, t)" by (auto simp: sbind_eq)
    from Cons.IH [OF this] F Inr show ?thesis by auto
  qed
qed

text \<open>The ledger the check read: a failed check changes nothing and asks nothing.\<close>

lemma ownsAll_same: "ownsAll rc ids s = (r, t) \<Longrightarrow> t = s"
  by (auto simp: ownsAll_def Tracked_def sbind_eq sret_def sfail_def split: if_splits option.splits)

lemma ownsAll_facts:
  assumes "table_ok (rwLedger s)" and "ownsAll rc ids s = (r, t)"
  shows "r = Inr () \<Longrightarrow> \<forall>i \<in> set ids. releasable (rwLedger s) i"
    "rcDB rc RdTracked = None \<Longrightarrow> \<exists>i \<in> set ids. \<not> releasable (rwLedger s) i \<Longrightarrow>
       \<exists>e. r = Inl e \<and> errors_Is e ErrNotOursToRelease"
proof -
  obtain rt s1 where T: "Tracked rc s = (rt, s1)" by (cases "Tracked rc s")
  note F = Tracked_facts [OF T]
  have ours: "rt = Inr tracked \<Longrightarrow> ours_of tracked = releasable (rwLedger s)" for tracked
    using F(4) assms(1) by blast
  show "r = Inr () \<Longrightarrow> \<forall>i \<in> set ids. releasable (rwLedger s) i"
    using assms(2) T ours by (auto simp: ownsAll_def sbind_eq sret_def sfail_def filter_empty_conv split: if_splits)
  assume "rcDB rc RdTracked = None" "\<exists>i \<in> set ids. \<not> releasable (rwLedger s) i"
  moreover from this(1) T obtain tracked where "rt = Inr tracked" by (auto simp: Tracked_def)
  ultimately show "\<exists>e. r = Inl e \<and> errors_Is e ErrNotOursToRelease"
    using assms(2) T ours by (auto simp: ownsAll_def sbind_eq sret_def sfail_def filter_empty_conv split: if_splits)
qed

definition held_back :: "('n \<times> net_call list, 'w, 'r) rworld \<Rightarrow> ('n \<times> net_call list, 'w, 'r) rworld \<Rightarrow> bool" where
  "held_back s t \<longleftrightarrow> (\<exists>cs. log_of t = log_of s @ cs \<and> harmless cs) \<and> rwCaller t = rwCaller s
     \<and> (\<forall>j. releasable (rwLedger s) j \<longrightarrow> releasable (rwLedger t) j)"

lemma held_back_refl: "held_back s s"
  by (simp add: held_back_def)

lemma held_back_trans: "held_back s t \<Longrightarrow> held_back t u \<Longrightarrow> held_back s u"
  unfolding held_back_def by (metis append_assoc harmless_simps(3))

lemma held_back_unmoved: "unmoved s t \<Longrightarrow> held_back s t"
  by (simp add: held_back_def unmoved_def)

lemma preserves_held_back:
  "(\<And>s r t. m s = (r, t) \<Longrightarrow> held_back s t) \<Longrightarrow> preserves (held_back s0) m"
  unfolding preserves_def using held_back_trans by (metis prod.collapse)

lemma held_back_write:
  assumes k: "rcSdk rc = traced k"
  shows "preserves (held_back s0) (write_copies rc held)"
proof -
  have nt: "preserves (held_back s0) (note_report f)" for f :: "repack \<Rightarrow> repack" and s0 :: "('a \<times> net_call list, 'b, repack) rworld"
    by (rule preserves_held_back) (auto simp: held_back_def)
  have own: "preserves (held_back s0) (ownsAll rc ids)" for ids and s0 :: "('a \<times> net_call list, 'b, repack) rworld"
    by (rule preserves_held_back)
       (auto simp: ownsAll_def sbind_eq sret_def sfail_def Tracked_def held_back_refl split: if_splits option.splits)
  have acc: "preserves (held_back s0) (on_net (Client_Account (rcSdk rc)))" for s0 :: "('a \<times> net_call list, 'b, repack) rworld"
    unfolding k by (rule preserves_held_back) (auto dest!: account_quiet intro: held_back_unmoved simp: unmoved_def)
  have rd: "preserves (held_back s0) (read_all rc held)" for s0 :: "('a \<times> net_call list, 'b, repack) rworld"
    by (rule preserves_held_back) (fastforce dest!: read_all_facts [OF k] simp: held_back_def harmless_def)
  have put: "preserves (held_back s0) (wrapping msg (on_net (PutBatch (rcSdk rc) sched blobs)))"
    for msg sched blobs and s0 :: "('a \<times> net_call list, 'b, repack) rworld"
  proof (rule preserves_held_back)
    fix s r t assume "wrapping msg (on_net (PutBatch (rcSdk rc) sched blobs)) s = (r, t)"
    then have "t = snd (on_net (PutBatch (traced k) sched blobs) s)" by (metis snd_conv snd_wrapping k)
    then have t: "t = s\<lparr>rwNet := snd (PutBatch (traced k) sched blobs (rwNet s))\<rparr>"
      by (simp add: on_net_def split: prod.splits)
    have "gentle (log_of s) (snd (PutBatch (traced k) sched blobs (rwNet s)))"
      by (rule preservesD [OF gentle_PutBatch]) (simp add: gentle_def log_of_def)
    with t show "held_back s t" by (auto simp: held_back_def gentle_def log_of_def)
  qed
  have track: "preserves (held_back s0) (smap_list (\<lambda>i. Track rc i a b) ids)"
    for a b ids and s0 :: "('a \<times> net_call list, 'b, repack) rworld"
    by (rule preserves_held_back) (auto dest!: track_loop simp: held_back_def)
  show ?thesis
    unfolding write_copies_def track_copies_def Let_def
    by (intro preserves_sbind nt own acc rd put) (auto intro!: preserves_sbind nt track)
qed

text \<open>The copies of a success, and what was asked for to make them.\<close>

definition copies :: "'n sdk \<Rightarrow> held_record list \<Rightarrow> moved list \<Rightarrow> flush \<Rightarrow> net_call list \<Rightarrow> bool" where
  "copies k held moved f cs \<longleftrightarrow> (\<exists>(blobs :: blob list) pins.
     cs = map (CDownload \<circ> hlRef) held @ map (CAdd \<circ> blPayload) blobs @ pins
     \<and> list_all2 (\<lambda>h b. blCID b = hlCID h
          \<and> (\<exists>n n'. sdkDownload k (hlRef h) n = (Inr (blPayload b), n'))) held blobs
     \<and> list_all2 (\<lambda>h m. mvID m = hlID h \<and> mvCID m = hlCID h \<and> mvFrom m = hlRef h
          \<and> CPinObject (mvTo m) \<in> set pins \<and> (mvSlab m \<noteq> [] \<longrightarrow> mvSlab m \<in> set (fSlabs f))) held moved)"

lemma write_copies_Inr:
  assumes k: "rcSdk rc = traced k" and sched: "\<And>n. schedule n (rcSched rc n)" and "held \<noteq> []"
    and run: "write_copies rc held s = (Inr (moved, f), t)"
  shows "\<exists>cs. log_of t = log_of s @ cs \<and> copies k held moved f cs"
    "\<forall>i \<in> set (fSlabs f). releasable (rwLedger t) i"
    "\<forall>i. i \<notin> set (fSlabs f) \<longrightarrow> row_of (rwLedger t) i = row_of (rwLedger s) i"
proof -
  obtain s2 s3 s4 s5 blobs a where
    o: "ownsAll rc (slab_set held) (s\<lparr>rwReport := (rwReport s)\<lparr>rpSlabsBefore := length (slab_set held)\<rparr>\<rparr>) = (Inr (), s2)"
    and ac: "on_net (Client_Account (traced k)) s2 = (Inr a, s3)"
    and rd: "read_all rc held (s3\<lparr>rwReport := (rwReport s3)\<lparr>rpBefore := a\<rparr>\<rparr>) = (Inr blobs, s4)"
    and pb: "on_net (PutBatch (traced k) (rcSched rc (length blobs)) blobs) s4 = (Inr f, s5)"
    and tc: "track_copies rc held f s5 = (Inr (moved, f), t)"
    using run unfolding write_copies_def k
    by (auto simp: sbind_Inr_iff track_copies_def Let_def sret_def sfail_def split: if_splits)
  note s2 = ownsAll_same [OF o] and s3 = account_quiet [OF ac]
  from read_all_facts [OF k rd] have R: "log_of s4 = log_of s3 @ map (CDownload \<circ> hlRef) held"
    "rwLedger s4 = rwLedger s3" "map blCID blobs = map hlCID held"
    "list_all2 (\<lambda>h b. \<exists>n n'. sdkDownload k (hlRef h) n = (Inr (blPayload b), n')) held blobs"
    by auto
  have lb: "length blobs = length held" using R(3) map_eq_imp_length_eq by blast
  obtain n0 tr0 n1 where n: "rwNet s4 = (n0, tr0)" "s5 = s4\<lparr>rwNet := n1\<rparr>"
    "PutBatch (traced k) (rcSched rc (length blobs)) blobs (n0, tr0) = (Inr f, (fst n1, snd n1))"
    using pb by (cases "rwNet s4") (auto simp: on_net_eq)
  from PutBatch_traced [OF n(3) _ sched] lb assms(3) obtain obs params pins where B:
    "snd n1 = tr0 @ map CAdd (map blPayload blobs) @ [CFinalize]
        @ (if params = [] then [] else [CPinSlabs params]) @ map CPinObject pins"
    "mset pins = mset (map obID obs)" "map wrCID (fWritten f) = map blCID blobs"
    "map wrRef (fWritten f) = map obID obs" "map wrSlab (fWritten f) = map (slabOf k) obs"
    "set (fSlabs f) = set (map (slabOf k) obs) - {[]}"
    by (metis length_greater_0_conv)
  define tail where "tail = [CFinalize] @ (if params = [] then [] else [CPinSlabs params]) @ map CPinObject pins"
  have l5: "log_of s5 = log_of s4 @ map (CAdd \<circ> blPayload) blobs @ tail"
    using B(1) n by (simp add: log_of_def tail_def)
  define s6 where "s6 = s5\<lparr>rwReport := (rwReport s5)\<lparr>rpSlabsAfter := length (fSlabs f),
    rpPeak := rpSlabsBefore (rwReport s5) + length (fSlabs f), rpRecords := map moved_of (zip held (fWritten f))\<rparr>\<rparr>"
  from tc have T: "unmoved s5 s6" "length (fWritten f) = length held"
    "moved = map moved_of (zip held (fWritten f))"
    "smap_list (\<lambda>i. Track rc i (int (length held)) (int (Flush_Bytes f))) (fSlabs f) s6 = (Inr (), t)"
    by (auto simp: track_copies_def sbind_Inr_iff Let_def sret_def sfail_def unmoved_def s6_def split: if_splits)
  note t = track_loop [OF T(4)]
  have pinned: "CPinObject (wrRef w) \<in> set tail" if "w \<in> set (fWritten f)" for w
  proof -
    have "wrRef w \<in> set (map obID obs)" using that B(4) by (metis imageI list.set_map)
    then have "wrRef w \<in> set pins" using B(2) mset_eq_setD by blast
    then show ?thesis by (simp add: tail_def)
  qed
  have slab: "wrSlab w \<noteq> [] \<longrightarrow> wrSlab w \<in> set (fSlabs f)" if "w \<in> set (fWritten f)" for w
    using that B(5,6) by (metis DiffI imageI list.set_map singletonD)
  have cid: "wrCID (fWritten f ! i) = hlCID (held ! i)" if "i < length held" for i
    using that B(3) R(3) T(2) by (metis nth_map)
  have "list_all2 (\<lambda>h m. mvID m = hlID h \<and> mvCID m = hlCID h \<and> mvFrom m = hlRef h
      \<and> CPinObject (mvTo m) \<in> set tail \<and> (mvSlab m \<noteq> [] \<longrightarrow> mvSlab m \<in> set (fSlabs f))) held moved"
    using T(2,3) pinned slab cid by (auto simp: list_all2_conv_all_nth moved_of_def)
  moreover have "blCID (blobs ! i) = hlCID (held ! i)" if "i < length held" for i
    using that R(3) lb by (metis nth_map)
  then have "list_all2 (\<lambda>h b. blCID b = hlCID h
      \<and> (\<exists>n n'. sdkDownload k (hlRef h) n = (Inr (blPayload b), n'))) held blobs"
    using R(4) by (simp add: list_all2_conv_all_nth)
  ultimately have "copies k held moved f (map (CDownload \<circ> hlRef) held @ map (CAdd \<circ> blPayload) blobs @ tail)"
    unfolding copies_def by blast
  moreover have "log_of t = log_of s @ map (CDownload \<circ> hlRef) held @ map (CAdd \<circ> blPayload) blobs @ tail"
    using t T(1) l5 R(1) s3 s2 by (simp add: unmoved_def)
  ultimately show "\<exists>cs. log_of t = log_of s @ cs \<and> copies k held moved f cs" by blast
  show "\<forall>i \<in> set (fSlabs f). releasable (rwLedger t) i" using t B(6) by auto
  show "\<forall>i. i \<notin> set (fSlabs f) \<longrightarrow> row_of (rwLedger t) i = row_of (rwLedger s) i"
    using t T(1) R(2) s3 s2 n(2) by (simp add: unmoved_def)
qed

lemma sbind_sret: "sbind (sret x) f = f x"
  by (simp add: sbind_def sret_def fun_eq_iff)

lemma write_owned:
  assumes "table_ok (rwLedger s)" and "write_copies rc held s = (r, t)"
  shows "(\<exists>e. r = Inl e) \<and> unmoved s t \<or> (\<forall>i \<in> set (slab_set held). releasable (rwLedger s) i)"
proof -
  let ?s0 = "s\<lparr>rwReport := (rwReport s)\<lparr>rpSlabsBefore := length (slab_set held)\<rparr>\<rparr>"
  obtain ro s1 where o: "ownsAll rc (slab_set held) ?s0 = (ro, s1)" by (cases "ownsAll rc (slab_set held) ?s0")
  have ok: "table_ok (rwLedger ?s0)" using assms(1) by simp
  show ?thesis
  proof (cases ro)
    case (Inl e)
    with assms(2) o ownsAll_same [OF o] show ?thesis
      by (auto simp: write_copies_def sbind_def unmoved_def)
  next
    case (Inr u)
    with ownsAll_facts(1) [OF ok o] show ?thesis by simp
  qed
qed

text \<open>Repack destroys nothing it has not copied.  On any network and with any failure: nothing is
  deleted or released unless every record was first read, written again from the bytes read,
  pinned, and the caller accepted the new places, each under the record's own id; only the
  records' old objects are deleted, and slabs are released only after all of them are, and only
  slabs the records were on, that this device may release and that no copy went to.  A vault
  with a record on storage another device pinned is refused before anything is asked of the
  network, and on success all the old slabs are gone from the ledger and the new ones are in it.\<close>

lemma Repack_facts:
  assumes k: "rcSdk rc = traced k" and "ranged (rcRange rc)" and sched: "\<And>n. schedule n (rcSched rc n)"
    and ok: "table_ok (rwLedger s)" and run: "Repack rc apply_moves held s = (r, t)"
  shows "\<exists>cs dels us. log_of t = log_of s @ cs @ map CDelete dels @ map CUnpin us \<and> harmless cs
    \<and> (cs \<noteq> [] \<or> r = Inr () \<longrightarrow> (\<forall>i \<in> set (slab_set held). releasable (rwLedger s) i))
    \<and> (dels \<noteq> [] \<or> us \<noteq> [] \<or> r = Inr () \<and> held \<noteq> [] \<longrightarrow> (\<exists>moved f. copies k held moved f cs
          \<and> apply_moves moved (rwCaller s) = (Inr (), rwCaller t)
          \<and> set dels \<subseteq> set (map hlRef held) \<and> (us \<noteq> [] \<longrightarrow> mset dels = mset (map hlRef held))
          \<and> distinct us \<and> set us \<subseteq> set (slab_set held) - set (fSlabs f)
          \<and> (r = Inr () \<longrightarrow> set us = set (slab_set held) - set (fSlabs f)
                \<and> (\<forall>i \<in> set us. row_of (rwLedger t) i = None)
                \<and> (\<forall>i \<in> set (fSlabs f). releasable (rwLedger t) i))))
    \<and> (rwCaller t = rwCaller s \<or> (\<exists>moved. rwCaller t = snd (apply_moves moved (rwCaller s))))"
proof (cases "held = []")
  case True
  then have "r = Inr ()" "t = s\<lparr>rwReport := no_repack\<rparr>"
    using run by (simp_all add: Repack_def sbind_def sret_def)
  with True show ?thesis by (intro exI [of _ "[]"]) (simp add: slab_set_def)
next
  case False
  let ?s0 = "s\<lparr>rwReport := no_repack\<rparr>"
  obtain rw s1 where W: "write_copies rc held ?s0 = (rw, s1)" by (cases "write_copies rc held ?s0")
  have "held_back ?s0 s1"
    using preservesD [OF held_back_write [OF k] held_back_refl, of ?s0 held] W by simp
  then obtain cs where cs: "log_of s1 = log_of s @ cs" "harmless cs" "rwCaller s1 = rwCaller s"
    by (auto simp: held_back_def)
  have owned: "\<forall>i \<in> set (slab_set held). releasable (rwLedger s) i" if "cs \<noteq> [] \<or> rw = Inr y" for y
    using write_owned [OF _ W] ok that cs(1) by (auto simp: unmoved_def)
  show ?thesis
  proof (cases rw)
    case (Inl e)
    with run W False have "t = s1" "\<exists>e. r = Inl e" by (auto simp: Repack_def sbind_def)
    then show ?thesis
      using cs owned False by (intro exI [of _ cs] exI [of _ "[]"]) auto
  next
    case (Inr y)
    obtain moved f where y: "y = (moved, f)" by (cases y)
    from write_copies_Inr [OF k sched False W [unfolded Inr y]] cs(1)
    have C: "copies k held moved f cs" "\<forall>i \<in> set (fSlabs f). releasable (rwLedger s1) i" by auto
    obtain ra w where A: "apply_moves moved (rwCaller s) = (ra, w)" by (cases "apply_moves moved (rwCaller s)")
    show ?thesis
    proof (cases ra)
      case (Inl e)
      with run W False Inr y A cs(3) have "t = s1\<lparr>rwCaller := w\<rparr>" "\<exists>e. r = Inl e"
        by (auto simp: Repack_def sbind_def on_caller_def wrapping_def)
      moreover have "\<exists>moved. w = snd (apply_moves moved (rwCaller s))" using A by (metis snd_conv)
      ultimately show ?thesis
        using cs owned Inr False by (intro exI [of _ cs] exI [of _ "[]"]) (auto simp: log_of_def)
    next
      case acc: (Inr u)
      let ?s2 = "s1\<lparr>rwCaller := w\<rparr>" and ?ids = "filter (\<lambda>i. i \<notin> set (fSlabs f)) (rcRange rc (slab_set held))"
      have "retire_old rc held f ?s2 = (r, t)"
        using run W False Inr y A acc cs(3) by (simp add: Repack_def sbind_def on_caller_def wrapping_def)
      then have ret: "sbind (wrapping ''retire old objects: ''
          (on_net (DeleteObjects (rcSdk rc) (rcSched rc (length held)) (map hlRef held))))
        (\<lambda>_. sbind (sret ()) (\<lambda>_. sbind (smap_list (Unpin rc) ?ids)
        (\<lambda>_. sbind (on_net (Client_Account (rcSdk rc))) (\<lambda>a. note_report (\<lambda>r. r\<lparr>rpAfter := a\<rparr>))))) ?s2 = (r, t)"
        by (simp add: retire_old_def sbind_sret)
      have sl: "distinct (slab_set held)" unfolding slab_set_def by (rule distinct_distinct_keys) simp
      with assms(2) have ids: "distinct ?ids" "set ?ids = set (slab_set held) - set (fSlabs f)"
        by (auto simp: ranged_def)
      have sc: "schedule (length (map hlRef held)) (rcSched rc (length held))" using sched by simp
      have mid: "\<And>s r t. sret () s = (r, t) \<Longrightarrow> r = Inr () \<and> unmoved s t"
        by (auto simp: sret_def unmoved_def)
      from destroy_facts [OF k sc unpins_Unpin [OF k] mid account_note_unmoved [OF k] ret]
      obtain dels us rest where D: "?ids = us @ rest" "log_of t = log_of ?s2 @ map CDelete dels @ map CUnpin us"
        "set dels \<subseteq> set (map hlRef held)" "us \<noteq> [] \<or> r = Inr () \<longrightarrow> mset dels = mset (map hlRef held)"
        "\<forall>j. j \<notin> set us \<longrightarrow> row_of (rwLedger t) j = row_of (rwLedger ?s2) j"
        "r = Inr () \<longrightarrow> rest = [] \<and> (\<forall>i \<in> set us. row_of (rwLedger t) i = None)" "rwCaller t = w"
        by auto
      have us: "distinct us" "set us \<subseteq> set (slab_set held) - set (fSlabs f)"
        "r = Inr () \<Longrightarrow> set us = set (slab_set held) - set (fSlabs f)"
        using ids D(1,6) by auto
      have "releasable (rwLedger t) i" if "i \<in> set (fSlabs f)" for i
        using C(2) that us(2) D(5) by (auto simp: releasable_def)
      moreover have "log_of t = log_of s @ cs @ map CDelete dels @ map CUnpin us"
        using D(2) cs(1) by (simp add: log_of_def)
      moreover have "\<forall>i \<in> set (slab_set held). releasable (rwLedger s) i" using owned [of y] Inr by simp
      moreover have "apply_moves moved (rwCaller s) = (Inr (), rwCaller t)" using A acc D(7) by simp
      moreover from this have "\<exists>moved. rwCaller t = snd (apply_moves moved (rwCaller s))" by (metis snd_conv)
      ultimately show ?thesis
        using C(1) D(3,4,6) us cs(2)
        by (intro exI [of _ cs] exI [of _ dels] exI [of _ us] conjI impI exI [of _ moved] exI [of _ f] disjI2) simp_all
    qed
  qed
qed

definition repack_world_of :: "'w \<Rightarrow> (byte list list \<times> net_call list, 'w, repack) rworld" where
  "repack_world_of c = \<lparr>rwNet = ([], []), rwLedger = TrackSlab 0 ''s2'' 1 1 (TrackSlab 0 ''s1'' 1 1 []),
     rwCache = [], rwCaller = c, rwReport = no_repack\<rparr>"

lemma repack_owns:
  assumes "slab = ''s1'' \<or> slab = ''s2''"
  shows "ownsAll span_reclaimer [slab] ((repack_world_of c)\<lparr>rwReport := x\<rparr>) = (Inr (), (repack_world_of c)\<lparr>rwReport := x\<rparr>)"
  using assms
  by (auto simp: ownsAll_def sbind_def Tracked_def span_reclaimer_def repack_world_of_def TrackSlab_def trackSlab_def
      TrackedSlabs_def ours_of_def Slab_Releasable_def SlabOrigin_Releasable_def SlabPinned_def SlabHydrated_def
      sret_def)

lemma repack_put:
  "PutBatch (traced span_sdk) [0] [\<lparr>blCID = c, blPayload = []\<rparr>] (up, tr)
    = (Inr \<lparr>fWritten = [\<lparr>wrCID = c, wrRef = 1, wrSlab = ''s1'', wrBytes = 0\<rparr>], fSlabs = [''s1'']\<rparr>,
       ([[]], tr @ [CAdd [], CFinalize, CPinSlabs [demo_slice], CPinObject 1]))"
  by (simp add: PutBatch_def UploadPacked_def PinSlabs_def PinObjects_def inFlight_def sbind_def
      sret_def span_sdk_def demo_sdk_def logged_def unlogged_def demo_slice_def span_lib_def slabOf_def slab_name_def
      Batch_Slabs_def lessThan_Suc upt_rec)

lemma repack_demo:
  assumes "slab = ''s1'' \<or> slab = ''s2''"
    and apply_moves: "apply_moves [\<lparr>mvID = 7, mvCID = cid, mvFrom = ref, mvTo = 1, mvSlab = ''s1'', mvBytes = 0\<rparr>] c = (Inr (), c')"
  shows "\<exists>t. Repack span_reclaimer apply_moves [\<lparr>hlID = 7, hlCID = cid, hlRef = ref, hlSlab = slab\<rparr>]
      (repack_world_of c) = (Inr (), t)
    \<and> log_of t = [CDownload ref, CAdd [], CFinalize, CPinSlabs [demo_slice], CPinObject 1, CDelete ref]
        @ (if slab = ''s1'' then [] else [CUnpin slab])"
proof -
  let ?h = "\<lparr>hlID = 7, hlCID = cid, hlRef = ref, hlSlab = slab\<rparr>"
  have N: "rwNet (repack_world_of c) = ([], [])" "rwCaller (repack_world_of c) = c" by (simp_all add: repack_world_of_def)
  have S: "rcSdk span_reclaimer = traced span_sdk" "rcSched span_reclaimer n = [0..<n]" "rcDB span_reclaimer x = None"
    "rcRange span_reclaimer ks = ks" for n x ks
    by (simp_all add: span_reclaimer_def)
  have A: "Client_Account (traced span_sdk) (up, tr) = (Inr (no_account\<lparr>acReady := True\<rparr>), (up, tr))" for up tr
    by (simp add: Client_Account_def wrapping_def span_sdk_def demo_sdk_def unlogged_def no_account_def)
  have D: "Client_Download (traced span_sdk) ref (up, tr) = (Inr [], (up, tr @ [CDownload ref]))" for up tr
    by (simp add: Client_Download_def wrapping_def span_sdk_def demo_sdk_def logged_def)
  have X: "DeleteObjects (traced span_sdk) [0] [ref] (up, tr) = (Inr (), (up, tr @ [CDelete ref]))" for up tr
    by (simp add: DeleteObjects_def inFlight_def DeleteObject_def span_sdk_def demo_sdk_def logged_def lessThan_Suc)
  have U: "UnpinSlab (traced span_sdk) i (up, tr) = (Inr (), (up, tr @ [CUnpin i]))" for i up tr
    by (simp add: UnpinSlab_def span_sdk_def demo_sdk_def logged_def)
  show ?thesis
    using assms(1) apply_moves repack_owns [where c = c and slab = "''s1''"] repack_owns [where c = c and slab = "''s2''"]
    by (elim disjE) (simp_all add: Repack_def write_copies_def sbind_def slab_set_def A D S repack_put wrapping_def on_net_def N
        track_copies_def Let_def Track_def stmt_def sret_def on_caller_def retire_old_def X Unpin_def U log_of_def
        moved_of_def)
qed

text \<open>A copy that lands where the record was: the slab is kept, as the code means it to, but the
  object, which is the copy, is deleted.\<close>

lemma repack_deletes_reused:
  "\<exists>t. Repack span_reclaimer (\<lambda>_. sret ()) [\<lparr>hlID = 7, hlCID = ''c'', hlRef = 1, hlSlab = ''s1''\<rparr>] (repack_world_of ()) = (Inr (), t)
    \<and> log_of t = [CDownload 1, CAdd [], CFinalize, CPinSlabs [demo_slice], CPinObject 1, CDelete 1]"
  using repack_demo [of "''s1''" "\<lambda>_. sret ()" "''c''" 1 "()" "()"] by (auto simp: sret_def)

section \<open>What the orphan scan destroys\<close>

lemma slab_pages_quiet:
  assumes "slab_pages (traced k) off out n = Some y"
  shows "snd (snd y) = snd n"
proof -
  have "k' = traced k \<longrightarrow> snd (snd y) = snd n" if "slab_pages k' off out n = Some y" for k'
  proof (rule slab_pages.raw_induct [where P = "\<lambda>k' off out n y. k' = traced k \<longrightarrow> snd (snd y) = snd n", OF _ that],
      intro impI)
    fix pages k' off out y and n :: "'a \<times> net_call list"
    assume I: "\<And>k' off out n y. pages k' off out n = Some y \<Longrightarrow> k' = traced k \<longrightarrow> snd (snd y) = snd n"
      and B: "(case sdkSlabIDs k' off n of
          (Inl e, n') \<Rightarrow> Some (Inl (wrap_err ''list pinned slabs: '' e), n')
        | (Inr page, n') \<Rightarrow> if length page < 500 then Some (Inr (out @ page), n')
            else pages k' (off + 500) (out @ page) n') = Some y"
      and k': "k' = traced k"
    obtain r n1 where l: "sdkSlabIDs k' off n = (r, n1)" by (cases "sdkSlabIDs k' off n")
    then have "snd n1 = snd n" using snd_unlogged [of "sdkSlabIDs k off" n] by (simp add: k')
    with B l k' show "snd (snd y) = snd n"
      by (cases r) (auto split: if_splits dest!: I)
  qed
  with assms show ?thesis by blast
qed

lemma net_run_Some: "net_run m s = Some (r, t) \<longleftrightarrow> (\<exists>n. m (rwNet s) = Some (r, n) \<and> t = s\<lparr>rwNet := n\<rparr>)"
  by (auto simp: net_run_def split: option.splits prod.splits)

text \<open>What the indexer answered to the two listings.\<close>

definition listed :: "'n sdk \<Rightarrow> slabid list \<Rightarrow> stored_object list \<Rightarrow> bool" where
  "listed k pinned objects \<longleftrightarrow> (\<exists>n n'. PinnedSlabs k n = Some (Inr pinned, n'))
     \<and> (\<exists>n n' st. WalkObjectsStats k n = Some (Inr (st, objects), n'))"

lemma Orphans_facts:
  assumes k: "rcSdk rc = traced k" and "Orphans rc releaseAll s = Some (r, t)"
  shows "log_of t = log_of s \<and> rwLedger t = rwLedger s \<and> (\<forall>os. r = Inr os \<longrightarrow> (\<exists>pinned objects.
     listed (traced k) pinned objects \<and> map orID os = filter (\<lambda>i. i \<notin> occupied_slabs objects) pinned
     \<and> (pinned = [] \<or> occupied_slabs objects \<noteq> {} \<or> releaseAll)))"
proof -
  have fin: "finite (occupied_slabs objects)" for objects
    by (simp add: occupied_slabs_def)
  have pq: "\<forall>n y. PinnedSlabs (traced k) n = Some y \<longrightarrow> snd (snd y) = snd n"
    using slab_pages_quiet [of k 0 "[]"] by (auto simp: PinnedSlabs_def)
  have wq: "\<forall>n y. WalkObjectsStats (traced k) n = Some y \<longrightarrow> snd (snd y) = snd n"
    using walk_quiet [of k] by (metis prod.collapse)
  have quiet: "log_of s' = log_of w \<and> rwLedger s' = rwLedger w"
    if "net_run m w = Some (x, s')" "\<forall>n y. m n = Some y \<longrightarrow> snd (snd y) = snd n"
    for m x and w s' :: "('a \<times> net_call list, 'b, 'c) rworld"
  proof -
    from that(1) obtain n where n: "m (rwNet w) = Some (x, n)" "s' = w\<lparr>rwNet := n\<rparr>"
      by (auto simp: net_run_Some)
    from that(2) n(1) have "snd (snd (x, n)) = snd (rwNet w)" by blast
    with n(2) show ?thesis by (simp add: log_of_def)
  qed
  from assms(2) consider e where "net_run (PinnedSlabs (traced k)) s = Some (Inl e, t)" "r = Inl e"
    | pinned s1 where "net_run (PinnedSlabs (traced k)) s = Some (Inr pinned, s1)"
        "pbind (net_run (WalkObjectsStats (traced k))) (\<lambda>(_, objects).
          pbind (prun (slift (checkOccupancy (length pinned) (card (occupied_slabs objects)) releaseAll))) (\<lambda>_.
          pbind (prun (Tracked rc)) (\<lambda>tracked.
            prun (sret (map (\<lambda>i. \<lparr>orID = i, orTracked = i \<in> slID ` set tracked\<rparr>)
              (filter (\<lambda>i. i \<notin> occupied_slabs objects) pinned)))))) s1 = Some (r, t)"
    unfolding Orphans_def k pbind_Some [of "net_run (PinnedSlabs (traced k))"] by blast
  then show ?thesis
  proof cases
    case (1 e)
    with quiet [OF 1(1) pq] show ?thesis by simp
  next
    case (2 pinned s1)
    note q1 = quiet [OF 2(1) pq]
    from 2(2) consider e where "net_run (WalkObjectsStats (traced k)) s1 = Some (Inl e, t)" "r = Inl e"
      | st objects s2 where "net_run (WalkObjectsStats (traced k)) s1 = Some (Inr (st, objects), s2)"
        "pbind (prun (slift (checkOccupancy (length pinned) (card (occupied_slabs objects)) releaseAll))) (\<lambda>_.
          pbind (prun (Tracked rc)) (\<lambda>tracked.
            prun (sret (map (\<lambda>i. \<lparr>orID = i, orTracked = i \<in> slID ` set tracked\<rparr>)
              (filter (\<lambda>i. i \<notin> occupied_slabs objects) pinned))))) s2 = Some (r, t)"
      unfolding pbind_Some [of "net_run (WalkObjectsStats (traced k))"] by auto
    then show ?thesis
    proof cases
      case (1 e)
      with q1 quiet [OF 1(1) wq] show ?thesis by simp
    next
      case w: (2 st objects s2)
      note q2 = quiet [OF w(1) wq]
      have t: "t = s2 \<and> (\<forall>os. r = Inr os \<longrightarrow> map orID os = filter (\<lambda>i. i \<notin> occupied_slabs objects) pinned
          \<and> (pinned = [] \<or> occupied_slabs objects \<noteq> {} \<or> releaseAll))"
        using w(2) fin [of objects]
        by (auto simp: pbind_Some slift_def sret_def checkOccupancy_def card_gt_0_iff comp_def
            dest!: Tracked_facts(1) split: if_splits)
      obtain n where n: "PinnedSlabs (traced k) (rwNet s) = Some (Inr pinned, n)"
        using 2(1) by (auto simp only: net_run_Some)
      obtain n' where n': "WalkObjectsStats (traced k) (rwNet s1) = Some (Inr (st, objects), n')"
        using w(1) by (auto simp only: net_run_Some)
      have "listed (traced k) pinned objects"
        unfolding listed_def by (intro conjI exI) (rule n, rule n')
      with t have "\<forall>os. r = Inr os \<longrightarrow> (\<exists>pinned objects. listed (traced k) pinned objects
          \<and> map orID os = filter (\<lambda>i. i \<notin> occupied_slabs objects) pinned
          \<and> (pinned = [] \<or> occupied_slabs objects \<noteq> {} \<or> releaseAll))" by blast
      with q1 q2 t show ?thesis by simp
    qed
  qed
qed

text \<open>Releasing orphans releases only slabs the indexer bills on which no object the account lists
  begins, asks for nothing else, and refuses when the walk found nothing on any of them unless
  emptying the account was asked for; on success every such slab was released and is out of the
  ledger.\<close>

lemma ReleaseOrphans_safe:
  assumes "rcSdk rc = traced k" and "ReleaseOrphans rc releaseAll s = Some (r, t)"
  shows "\<exists>us pinned objects. log_of t = log_of s @ map CUnpin us
    \<and> (us \<noteq> [] \<or> r = Inr () \<longrightarrow> listed (traced k) pinned objects
          \<and> (pinned = [] \<or> occupied_slabs objects \<noteq> {} \<or> releaseAll))
    \<and> set us \<subseteq> set pinned - occupied_slabs objects
    \<and> (\<forall>i. i \<notin> set us \<longrightarrow> row_of (rwLedger t) i = row_of (rwLedger s) i)
    \<and> (r = Inr () \<longrightarrow> set us = set pinned - occupied_slabs objects \<and> (\<forall>i \<in> set us. row_of (rwLedger t) i = None))"
proof -
  let ?s0 = "s\<lparr>rwReport := no_sweep\<rparr>"
  obtain ra s1 where A: "on_net (Client_Account (rcSdk rc)) ?s0 = (ra, s1)"
    by (cases "on_net (Client_Account (rcSdk rc)) ?s0")
  from account_quiet [OF A [unfolded assms(1)]] have q1: "log_of s1 = log_of s" "rwLedger s1 = rwLedger s" by simp_all
  show ?thesis
  proof (cases ra)
    case (Inl e)
    with assms(2) A have "t = s1" "r = Inl e"
      by (auto simp: ReleaseOrphans_def pbind_Some sbind_eq)
    with q1 show ?thesis by (intro exI [of _ "[]"]) auto
  next
    case (Inr before)
    let ?s2 = "s1\<lparr>rwReport := (rwReport s1)\<lparr>swBefore := before\<rparr>\<rparr>"
    from assms(2) A Inr consider e where "Orphans rc releaseAll ?s2 = Some (Inl e, t)" "r = Inl e"
      | os s3 where "Orphans rc releaseAll ?s2 = Some (Inr os, s3)"
          "sbind (release_slabs rc (map orID os)) (\<lambda>_. account_after rc) s3 = (r, t)"
      unfolding ReleaseOrphans_def by (auto simp: pbind_Some sbind_eq)
    then show ?thesis
    proof cases
      case (1 e)
      with Orphans_facts [OF assms(1) 1(1)] q1 show ?thesis by (intro exI [of _ "[]"]) auto
    next
      case (2 os s3)
      note F = Orphans_facts [OF assms(1) 2(1)]
      have O1: "log_of s3 = log_of s" "rwLedger s3 = rwLedger s" using F q1 by simp_all
      from F obtain pinned objects where O: "listed (traced k) pinned objects"
        "map orID os = filter (\<lambda>i. i \<notin> occupied_slabs objects) pinned"
        "pinned = [] \<or> occupied_slabs objects \<noteq> {} \<or> releaseAll" by blast
      obtain rr s4 where L: "release_slabs rc (map orID os) s3 = (rr, s4)"
        by (cases "release_slabs rc (map orID os) s3")
      from unpin_loop [OF unpins_note [OF unpins_Unpin [OF assms(1)]] L [unfolded release_slabs_def]]
      obtain us rest where U: "map orID os = us @ rest" "log_of s4 = log_of s3 @ map CUnpin us"
        "\<And>j. j \<notin> set us \<Longrightarrow> row_of (rwLedger s4) j = row_of (rwLedger s3) j"
        "rr = Inr () \<Longrightarrow> rest = [] \<and> (\<forall>i \<in> set (map orID os). row_of (rwLedger s4) i = None)" by blast
      have a: "unmoved s4 (snd (account_after rc s4))"
        unfolding account_after_def by (rule account_note_unmoved [OF assms(1)])
      have fin: "log_of t = log_of s4 \<and> rwLedger t = rwLedger s4 \<and> (r = Inr () \<longrightarrow> rr = Inr ())"
        using 2(2) L a by (cases rr) (auto simp: sbind_def unmoved_def)
      have us: "set us \<union> set rest = set pinned - occupied_slabs objects"
        using arg_cong [OF U(1), of set] O(2) by auto
      have log: "log_of t = log_of s @ map CUnpin us" using fin U(2) O1 by simp
      have rows: "\<forall>i. i \<notin> set us \<longrightarrow> row_of (rwLedger t) i = row_of (rwLedger s) i"
        using fin U(3) O1 by simp
      have all: "r = Inr () \<longrightarrow> set us = set pinned - occupied_slabs objects
          \<and> (\<forall>i \<in> set us. row_of (rwLedger t) i = None)"
        using fin U(1,4) us by auto
      have sub: "set us \<subseteq> set pinned - occupied_slabs objects" using us by blast
      show ?thesis
        by (rule exI [of _ us], rule exI [of _ pinned], rule exI [of _ objects]) (intro conjI impI log O(1,3) sub rows all)
    qed
  qed
qed

text \<open>The scan names an object's first slab only, so it takes the rest of a long object for empty.\<close>

lemma orphan_holds_data:
  "occupied_slabs [\<lparr>stRef = 1, stSlab = slabOf span_sdk \<lparr>obID = 1, obSlabs = [demo_slice, demo_slice\<lparr>ssKey := 6\<rparr>],
       obSize = 1\<rparr>, stBytes = 1, stUpdated = 1, stObject = ob\<rparr>] = {''s1''}"
  "slab_name span_sdk (demo_slice\<lparr>ssKey := 6\<rparr>) = ''s2''"
  by (auto simp: occupied_slabs_def slabOf_def slab_name_def span_sdk_def span_lib_def demo_slice_def)

text \<open>A key that would not open once and opens now is live, and is on the list of the unreadable.\<close>

definition healed_sdk :: "byte list list sdk" where
  "healed_sdk = span_sdk\<lparr>
     sdkUnseal := (\<lambda>s. if soDataKey s = [] then Inl (GoErr [] ''open'') else Inr \<lparr>obID = 0, obSlabs = soSlabs s, obSize = 1\<rparr>),
     sdkListObjects := (\<lambda>c up. (Inr (if c = None then
       [\<lparr>evKey = 1, evUpdated = 1, evDeleted = False, evObject = Some (demo_object\<lparr>soDataKey := []\<rparr>)\<rparr>,
        \<lparr>evKey = 1, evUpdated = 2, evDeleted = False, evObject = Some demo_object\<rparr>] else []), up))\<rparr>"

lemma DropUnreadable_deletes_live:
  "\<exists>st ob n. WalkObjectsStats (traced healed_sdk) ([], []) = Some (Inr (st, [ob]), n) \<and> stRef ob = 1
     \<and> wsUnreadable st = [1]"
  "\<exists>t. DropUnreadable (span_reclaimer\<lparr>rcSdk := traced healed_sdk\<rparr>) span_world = Some (Inr [1], t)
     \<and> log_of t = [CDelete 1]"
proof -
  have w: "\<exists>st ob. WalkObjectsStats (traced healed_sdk) ([], []) = Some (Inr (st, [ob]), ([], [])) \<and> stRef ob = 1
     \<and> wsUnreadable st = [1]"
    by (simp add: WalkObjectsStats_def walk_pages.simps walk_start_def healed_sdk_def span_sdk_def unlogged_def
        walk_page_def walk_event_def demo_sdk_def demo_object_def walk_result_def Let_def)
  then show "\<exists>st ob n. WalkObjectsStats (traced healed_sdk) ([], []) = Some (Inr (st, [ob]), n) \<and> stRef ob = 1
     \<and> wsUnreadable st = [1]" by blast
  from w obtain st ob where "WalkObjectsStats (traced healed_sdk) ([], []) = Some (Inr (st, [ob]), ([], []))"
    "wsUnreadable st = [1]" by blast
  then show "\<exists>t. DropUnreadable (span_reclaimer\<lparr>rcSdk := traced healed_sdk\<rparr>) span_world = Some (Inr [1], t)
     \<and> log_of t = [CDelete 1]"
    by (simp add: DropUnreadable_def pbind_def prun_def sbind_def net_run_def span_world_of_def span_reclaimer_def
        Let_def sret_def wrapping_def on_net_def DeleteObjects_def inFlight_def DeleteObject_def healed_sdk_def
        span_sdk_def demo_sdk_def logged_def log_of_def lessThan_Suc upt_rec)
qed

section \<open>The watermark\<close>

lemma Watermark_affordable:
  assumes "acMaxPinnedData a \<noteq> 0" and "0 \<le> slabs" and "nat slabs * unat slabBytes < 2 ^ 64"
  shows "wmAffordable (Watermark a slabs slabBytes)
    \<longleftrightarrow> nat slabs * unat slabBytes = 0 \<or> nat slabs * unat slabBytes + acPinnedData a \<le> acMaxPinnedData a"
proof -
  have "of_int slabs * slabBytes = word_of_nat (nat slabs * unat slabBytes)"
    using assms(2) by simp
  then have "unat (of_int slabs * slabBytes) = nat slabs * unat slabBytes"
    using assms(3) by (simp add: unat_of_nat take_bit_eq_mod del: of_nat_mult)
  then obtain N where N: "unat (of_int slabs * slabBytes) = N" "nat slabs * unat slabBytes = N" by blast
  show ?thesis
    using assms(1) unfolding N(2) by (auto simp: Watermark_def Let_def Account_Free_def N(1))
qed

end
