(* ===== verification/LocalRanking.thy ===== *)
theory LocalRanking
  imports LocalStore "HOL-Library.List_Lexorder" "HOL-Library.Char_ord"
begin

text \<open>
  Package \<open>local\<close>, what ranking and listing read: the ranking metadata of each record, its tags and
  its terms (\<open>ranking.go\<close>, \<open>lexical.go\<close>, \<open>describe.go\<close>), the listings with their cursors
  (\<open>records.go\<close>, \<open>sessions.go\<close>) and the numbered migrations of the schema (\<open>schema.go\<close>).  Unicode
  case and letter tables, the text of a timestamp and the full text engine are parameters.
\<close>

section \<open>Text\<close>

text \<open>Runes are their code points; \<open>tlEnc\<close> is UTF-8, \<open>tlDecode\<close> ranges over a string as Go does.\<close>

record text_lib =
  tlDecode :: "string \<Rightarrow> nat list"
  tlEnc :: "nat \<Rightarrow> string"
  tlLow :: "nat \<Rightarrow> nat"
  tlWord :: "nat \<Rightarrow> bool"
  tlTime :: "gotime \<Rightarrow> string"

definition tl_string :: "text_lib \<Rightarrow> nat list \<Rightarrow> string" where
  "tl_string tx rs = concat (map (tlEnc tx) rs)"

definition ToLower :: "text_lib \<Rightarrow> string \<Rightarrow> string" where
  "ToLower tx s = tl_string tx (map (tlLow tx) (tlDecode tx s))"

text \<open>\<open>strings.FieldsFunc\<close>: the maximal runs of runes that satisfy the predicate.\<close>

fun runs_of :: "('a \<Rightarrow> bool) \<Rightarrow> 'a list \<Rightarrow> 'a list \<Rightarrow> 'a list list" where
  "runs_of p cur [] = (if cur = [] then [] else [cur])"
| "runs_of p cur (r # rs) = (if p r then runs_of p (cur @ [r]) rs
     else if cur = [] then runs_of p [] rs else cur # runs_of p [] rs)"

section \<open>Tags and terms\<close>

definition NormalizeTag :: "text_lib \<Rightarrow> string \<Rightarrow> string" where
  "NormalizeTag tx tag = ToLower tx (trim_space tag)"

definition NormalizeTags :: "text_lib \<Rightarrow> string list \<Rightarrow> string list" where
  "NormalizeTags tx tags = distinct_keys [] (filter (\<lambda>t. t \<noteq> []) (map (NormalizeTag tx) tags))"

definition LexicalText :: "memory \<Rightarrow> string" where
  "LexicalText m = join_with [CHR 0x0A]
     ([mStatement m]
      @ (if mContext m \<noteq> [] then [mContext m] else [])
      @ (if mKeywords m \<noteq> [] then [join_with '' '' (mKeywords m)] else [])
      @ (if mTags m \<noteq> [] then [join_with '' '' (mTags m)] else []))"

definition stopwords :: "string list" where
  "stopwords = [
    ''the'', ''and'', ''for'', ''are'', ''but'', ''not'',
    ''you'', ''all'', ''can'', ''her'', ''was'', ''one'',
    ''our'', ''out'', ''his'', ''has'', ''had'', ''how'',
    ''its'', ''who'', ''did'', ''yes'', ''that'', ''this'',
    ''with'', ''from'', ''they'', ''have'', ''were'', ''been'',
    ''what'', ''when'', ''will'', ''would'', ''there'', ''their'',
    ''which'', ''about'', ''into'', ''than'', ''them'', ''then'',
    ''does'', ''doing'', ''just'', ''some'', ''such'', ''only'',
    ''very'', ''also'', ''any'', ''get'', ''got'', ''let'',
    ''say'', ''she'', ''him'', ''why'', ''use'', ''used'']"

definition analyze :: "text_lib \<Rightarrow> string \<Rightarrow> string list" where
  "analyze tx text =
     filter (\<lambda>w. 2 \<le> length w \<and> w \<notin> set stopwords)
       (map (tl_string tx) (runs_of (tlWord tx) [] (tlDecode tx (ToLower tx text))))"

definition Terms :: "text_lib \<Rightarrow> string \<Rightarrow> string list" where
  "Terms tx text = analyze tx text"

section \<open>Ranking metadata\<close>

record ranking_meta =
  rmID :: recid
  rmKind :: kind
  rmType :: string
  rmTags :: "string list"
  rmSupersedes :: "recid option"
  rmText :: string

record meta_row =
  mrKind :: kind
  mrType :: string
  mrSupersedes :: "recid option"
  mrCreated :: gotime

record ranking_db =
  rdMeta :: "(recid, meta_row) table"
  rdTags :: "(recid \<times> string) list"
  rdLexical :: "(recid \<times> string) list"

definition putLexical :: "text_lib \<Rightarrow> recid \<Rightarrow> string \<Rightarrow> ranking_db \<Rightarrow> ranking_db" where
  "putLexical tx i text db =
    (let kept = filter (\<lambda>(j, _). j \<noteq> i) (rdLexical db); terms = analyze tx text in
     db\<lparr>rdLexical := (if terms = [] then kept else kept @ [(i, join_with '' '' terms)])\<rparr>)"

definition forgetLexical :: "recid \<Rightarrow> ranking_db \<Rightarrow> ranking_db" where
  "forgetLexical i db = db\<lparr>rdLexical := filter (\<lambda>(j, _). j \<noteq> i) (rdLexical db)\<rparr>"

text \<open>\<open>INSERT OR IGNORE\<close> of the tags of one record.\<close>

fun insert_tags :: "recid \<Rightarrow> string list \<Rightarrow> (recid \<times> string) list \<Rightarrow> (recid \<times> string) list" where
  "insert_tags i [] rows = rows"
| "insert_tags i (t # ts) rows = insert_tags i ts (if (i, t) \<in> set rows then rows else rows @ [(i, t)])"

definition PutRankingMeta :: "text_lib \<Rightarrow> gotime \<Rightarrow> ranking_meta \<Rightarrow> ranking_db \<Rightarrow> ranking_db" where
  "PutRankingMeta tx now m db =
    (let k = (if rmKind m = [] then KindMemory else rmKind m);
         db = db\<lparr>rdMeta := upsert (rmID m)
             \<lparr>mrKind = k, mrType = rmType m, mrSupersedes = rmSupersedes m, mrCreated = stamp now\<rparr>
             (\<lambda>r. r\<lparr>mrKind := k, mrType := rmType m, mrSupersedes := rmSupersedes m\<rparr>) (rdMeta db)\<rparr>;
         db = db\<lparr>rdTags := insert_tags (rmID m) (NormalizeTags tx (rmTags m))
             (filter (\<lambda>(j, _). j \<noteq> rmID m) (rdTags db))\<rparr>
     in putLexical tx (rmID m) (rmText m) db)"

definition ForgetRankingMeta :: "recid \<Rightarrow> ranking_db \<Rightarrow> ranking_db" where
  "ForgetRankingMeta i db =
     forgetLexical i (db\<lparr>rdTags := filter (\<lambda>(j, _). j \<noteq> i) (rdTags db), rdMeta := delete_row i (rdMeta db)\<rparr>)"

text \<open>The tags of a record, \<open>ORDER BY tag\<close>.\<close>

definition tags_of :: "ranking_db \<Rightarrow> recid \<Rightarrow> string list" where
  "tags_of db i = sort_by str_lt (map snd (filter (\<lambda>(j, _). j = i) (rdTags db)))"

definition meta_of_row :: "recid \<Rightarrow> meta_row \<Rightarrow> string list \<Rightarrow> ranking_meta" where
  "meta_of_row i r tags = \<lparr>rmID = i, rmKind = mrKind r, rmType = mrType r, rmTags = tags,
     rmSupersedes = mrSupersedes r, rmText = []\<rparr>"

definition RankingMetaAll :: "ranking_db \<Rightarrow> ranking_meta list" where
  "RankingMetaAll db = map (\<lambda>(i, r). meta_of_row i r (tags_of db i)) (rdMeta db)"

definition RankingMetaFor :: "ranking_db \<Rightarrow> recid \<Rightarrow> ranking_meta res" where
  "RankingMetaFor db i = lookup_row ''ranking metadata'' (\<lambda>r. meta_of_row i r (tags_of db i)) (row_of (rdMeta db) i)"

definition CountRecordMeta :: "ranking_db \<Rightarrow> nat" where
  "CountRecordMeta db = length (rdMeta db)"

record tag_count =
  tcTag :: string
  tcRecords :: nat

definition tag_uses :: "ranking_db \<Rightarrow> string \<Rightarrow> nat" where
  "tag_uses db t = length (filter (\<lambda>(_, u). u = t) (rdTags db))"

definition TagFrequencies :: "text_lib \<Rightarrow> ranking_db \<Rightarrow> string list \<Rightarrow> tag_count list \<times> nat" where
  "TagFrequencies tx db tags =
     (map (\<lambda>t. \<lparr>tcTag = t, tcRecords = tag_uses db t\<rparr>) (NormalizeTags tx tags), length (rdMeta db))"

definition VocabularyTags :: "ranking_db \<Rightarrow> int \<Rightarrow> tag_count list" where
  "VocabularyTags db limit =
    (let n = (if limit \<le> 0 then 64 else limit) in
     take (nat n) (sort_by (\<lambda>a b. tcRecords b < tcRecords a \<or> tcRecords a = tcRecords b \<and> str_lt (tcTag a) (tcTag b))
       (map (\<lambda>t. \<lparr>tcTag = t, tcRecords = tag_uses db t\<rparr>) (distinct_keys [] (map snd (rdTags db))))))"

definition CountRecordsByKind :: "ranking_db \<Rightarrow> kind \<rightharpoonup> nat" where
  "CountRecordsByKind db k = (let n = count_where (\<lambda>_ r. mrKind r = k) (rdMeta db) in if n = 0 then None else Some n)"

definition CountLexical :: "ranking_db \<Rightarrow> nat" where
  "CountLexical db = length (rdLexical db)"

text \<open>\<open>fts\<close> is the engine: the rows of a table that match an expression, best first.\<close>

definition SearchLexical :: "text_lib \<Rightarrow> ((recid \<times> string) list \<Rightarrow> string \<Rightarrow> recid list)
    \<Rightarrow> ranking_db \<Rightarrow> string \<Rightarrow> int \<Rightarrow> recid list" where
  "SearchLexical tx fts db query k =
    (if k \<le> 0 then []
     else let terms = analyze tx query in
       if terms = [] then []
       else take (nat k) (fts (rdLexical db) (join_with '' OR '' (map (\<lambda>t. [CHR 0x22] @ t @ [CHR 0x22]) terms))))"

section \<open>Describing a candidate pool\<close>

record described =
  deMeta :: "recid \<rightharpoonup> ranking_meta"
  deSuperseded :: "recid \<Rightarrow> bool"

definition superseded :: "ranking_db \<Rightarrow> recid \<Rightarrow> bool" where
  "superseded db i \<longleftrightarrow> (\<exists>(_, r) \<in> set (rdMeta db). mrSupersedes r = Some i)"

definition Describe :: "ranking_db \<Rightarrow> recid list \<Rightarrow> described" where
  "Describe db ids = \<lparr>
     deMeta = (\<lambda>i. if i \<in> set ids then map_option
        (\<lambda>r. \<lparr>rmID = i, rmKind = mrKind r, rmType = mrType r, rmTags = tags_of db i,
              rmSupersedes = None, rmText = []\<rparr>) (row_of (rdMeta db) i) else None),
     deSuperseded = (\<lambda>i. i \<in> set ids \<and> superseded db i)\<rparr>"

section \<open>Listing records\<close>

type_synonym page_cursor = string

definition cursorSeparator :: string where "cursorSeparator = [CHR 0x00]"

definition encodeCursor :: "text_lib \<Rightarrow> gotime \<Rightarrow> recid \<Rightarrow> page_cursor" where
  "encodeCursor tx created i =
     b64_encode b64_url False (bytes_of (tlTime tx created @ cursorSeparator @ ID_String i))"

definition Cursor_decode :: "page_cursor \<Rightarrow> (string \<times> string) res" where
  "Cursor_decode c =
    (if c = [] then Inr ([], [])
     else case b64_decode b64_url False c of
       None \<Rightarrow> fail [] ''cursor is not one this vault issued''
     | Some raw \<Rightarrow> (case cut cursorSeparator (string_of raw) of
         None \<Rightarrow> fail [] ''cursor is not one this vault issued''
       | Some (created, i) \<Rightarrow> rbind (ParseID i) (\<lambda>_. Inr (created, i))))"

record record_query =
  rqKinds :: "kind list"
  rqTypes :: "string list"
  rqTags :: "string list"
  rqIncludeSuperseded :: bool
  rqLimit :: int
  rqCursor :: page_cursor

record record_row =
  rrID :: recid
  rrKind :: kind
  rrType :: string
  rrTags :: "string list"
  rrCreated :: gotime
  rrSuperseded :: bool

definition DefaultRecordLimit :: int where "DefaultRecordLimit = 20"
definition MaxRecordLimit :: int where "MaxRecordLimit = 200"

definition record_limit :: "int \<Rightarrow> nat" where
  "record_limit n = nat (min (if n \<le> 0 then DefaultRecordLimit else n) MaxRecordLimit)"

definition record_selected :: "text_lib \<Rightarrow> ranking_db \<Rightarrow> record_query \<Rightarrow> recid \<Rightarrow> meta_row \<Rightarrow> bool" where
  "record_selected tx db q i r \<longleftrightarrow>
     (rqKinds q = [] \<or> mrKind r \<in> set (rqKinds q))
     \<and> (rqTypes q = [] \<or> mrType r \<in> set (rqTypes q))
     \<and> (\<forall>t \<in> set (NormalizeTags tx (rqTags q)). (i, t) \<in> set (rdTags db))
     \<and> (rqIncludeSuperseded q \<or> \<not> superseded db i)"

text \<open>\<open>ORDER BY created_at DESC, record_id ASC\<close>, and the rows strictly after a cursor in that order.\<close>

definition row_before :: "text_lib \<Rightarrow> recid \<times> meta_row \<Rightarrow> recid \<times> meta_row \<Rightarrow> bool" where
  "row_before tx = (\<lambda>(i, r) (j, s). str_lt (tlTime tx (mrCreated s)) (tlTime tx (mrCreated r))
     \<or> tlTime tx (mrCreated r) = tlTime tx (mrCreated s) \<and> str_lt (ID_String i) (ID_String j))"

definition after_cursor :: "text_lib \<Rightarrow> string \<Rightarrow> string \<Rightarrow> recid \<Rightarrow> meta_row \<Rightarrow> bool" where
  "after_cursor tx created i j r \<longleftrightarrow> created = []
     \<or> str_lt (tlTime tx (mrCreated r)) created
     \<or> tlTime tx (mrCreated r) = created \<and> str_lt i (ID_String j)"

definition listed_row :: "ranking_db \<Rightarrow> recid \<times> meta_row \<Rightarrow> record_row" where
  "listed_row db = (\<lambda>(i, r). \<lparr>rrID = i, rrKind = mrKind r, rrType = mrType r, rrTags = tags_of db i,
     rrCreated = mrCreated r, rrSuperseded = superseded db i\<rparr>)"

definition ListRecords :: "text_lib \<Rightarrow> ranking_db \<Rightarrow> record_query \<Rightarrow> (record_row list \<times> page_cursor) res" where
  "ListRecords tx db q =
    (let limit = record_limit (rqLimit q) in
     rbind (Cursor_decode (rqCursor q)) (\<lambda>(created, i).
       let rows = take (limit + 1) (sort_by (row_before tx)
             (select_where (\<lambda>j r. record_selected tx db q j r \<and> after_cursor tx created i j r) (rdMeta db)));
           out = map (listed_row db) (take limit rows)
       in Inr (out, if length rows \<le> limit \<or> out = [] then []
                    else encodeCursor tx (rrCreated (last out)) (rrID (last out)))))"

section \<open>Listing sessions\<close>

record session_query =
  sqKinds :: "string list"
  sqParent :: "recid option"
  sqProject :: string
  sqTags :: "string list"
  sqSince :: "gotime option"
  sqUntil :: "gotime option"
  sqIncludeArchived :: bool
  sqLimit :: int
  sqOffset :: int

record session_row =
  srID :: recid
  srVersion :: int
  srTitle :: string
  srSummary :: string
  srKind :: string
  srProject :: string
  srAgent :: string
  srParent :: "recid option"
  srCreated :: gotime
  srUpdated :: gotime
  srArchived :: bool
  srCounts :: counts

definition DefaultSessionLimit :: int where "DefaultSessionLimit = 100"

definition session_selected :: "text_lib \<Rightarrow> ranking_db \<Rightarrow> session_query \<Rightarrow> recid \<Rightarrow> head_row \<Rightarrow> bool" where
  "session_selected tx db q i r \<longleftrightarrow>
     (sqIncludeArchived q \<or> \<not> hArchived r)
     \<and> (sqKinds q = [] \<or> hKind r \<in> set (sqKinds q))
     \<and> (sqParent q = None \<or> hParent r = sqParent q)
     \<and> (sqProject q = [] \<or> hProject r = sqProject q)
     \<and> (case sqSince q of None \<Rightarrow> True | Some t \<Rightarrow> \<not> str_lt (tlTime tx (hUpdated r)) (tlTime tx t))
     \<and> (case sqUntil q of None \<Rightarrow> True | Some t \<Rightarrow> \<not> str_lt (tlTime tx t) (tlTime tx (hUpdated r)))
     \<and> (\<forall>t \<in> set (NormalizeTags tx (sqTags q)). (i, t) \<in> set (rdTags db))"

definition ListSessions :: "text_lib \<Rightarrow> ranking_db \<Rightarrow> heads \<Rightarrow> session_query \<Rightarrow> session_row list" where
  "ListSessions tx db heads q =
    (let limit = (if sqLimit q \<le> 0 then DefaultSessionLimit else sqLimit q);
         rows = sort_by (\<lambda>(i, r) (j, s). str_lt (tlTime tx (hUpdated s)) (tlTime tx (hUpdated r))
             \<or> tlTime tx (hUpdated r) = tlTime tx (hUpdated s) \<and> str_lt (ID_String i) (ID_String j))
           (select_where (session_selected tx db q) heads)
     in map (\<lambda>(i, r). \<lparr>srID = i, srVersion = hVersion r, srTitle = hTitle r, srSummary = hSummary r,
          srKind = hKind r, srProject = hProject r, srAgent = hAgent r, srParent = hParent r,
          srCreated = hCreated r, srUpdated = hUpdated r, srArchived = hArchived r,
          srCounts = \<lparr>cnMessages = hMessages r, cnChunks = int (hChunks r), cnBytes = hBytes r,
            cnTokensIn = 0, cnTokensOut = 0, cnDurationMS = 0\<rparr>\<rparr>)
        (take (nat limit) (drop (nat (sqOffset q)) rows)))"

section \<open>Migrations\<close>

record 'd migration =
  mgVersion :: int
  mgLabel :: string
  mgUp :: "'d \<Rightarrow> 'd res"
  mgDown :: "'d \<Rightarrow> 'd res"

text \<open>The database and the version in its header; a failed transaction leaves both.\<close>

record 'd schema =
  scData :: 'd
  scVersion :: int

definition baselineVersion :: int where "baselineVersion = 1"

text \<open>\<open>hasColumn\<close> and \<open>ALTER TABLE ... ADD COLUMN\<close> are statements of the database.\<close>

definition preVersionColumns :: "(string \<times> string \<times> string) list" where
  "preVersionColumns = [(''record_meta'', ''kind'', ''TEXT NOT NULL DEFAULT '' @ [CHR 0x27] @ ''memory'' @ [CHR 0x27]),
     (''slabs'', ''origin'', ''TEXT NOT NULL DEFAULT '' @ [CHR 0x27] @ ''pinned'' @ [CHR 0x27])]"

definition addPreVersionColumns :: "(string \<Rightarrow> string \<Rightarrow> 'd \<Rightarrow> bool res)
    \<Rightarrow> (string \<Rightarrow> string \<Rightarrow> string \<Rightarrow> 'd \<Rightarrow> 'd res) \<Rightarrow> 'd \<Rightarrow> 'd res" where
  "addPreVersionColumns hasColumn alter d =
    foldl (\<lambda>r (tab, column, def). rbind r (\<lambda>d. rbind (hasColumn tab column d) (\<lambda>present.
       if present then Inr d else alter tab column def d))) (Inr d) preVersionColumns"

definition applyUp :: "('d \<Rightarrow> 'd res) \<Rightarrow> 'd migration \<Rightarrow> ('d schema, unit) step" where
  "applyUp addColumns st s =
    (if mgVersion st \<le> scVersion s then (Inr (), s)
     else case rbind (case mgUp st (scData s) of Inl e \<Rightarrow> Inl (wrap_err ''migration up: '' e) | Inr d \<Rightarrow> Inr d)
         (\<lambda>d. if mgVersion st = baselineVersion then addColumns d else Inr d) of
       Inl e \<Rightarrow> (Inl e, s)
     | Inr d \<Rightarrow> (Inr (), \<lparr>scData = d, scVersion = mgVersion st\<rparr>))"

definition migrate :: "('d \<Rightarrow> 'd res) \<Rightarrow> 'd migration list \<Rightarrow> ('d schema, unit) step" where
  "migrate addColumns steps s =
    (let latest = mgVersion (last steps); held = scVersion s in
     if latest < held then (fail [] ''vault schema was written by a newer mnemosia'', s)
     else smap_list (applyUp addColumns) (filter (\<lambda>st. held < mgVersion st) steps) s)"

definition applyDown :: "'d migration \<Rightarrow> ('d schema, unit) step" where
  "applyDown st s =
    (if scVersion s < mgVersion st then (Inr (), s)
     else case mgDown st (scData s) of
       Inl e \<Rightarrow> (Inl (wrap_err ''migration down: '' e), s)
     | Inr d \<Rightarrow> (Inr (), \<lparr>scData = d, scVersion = mgVersion st - 1\<rparr>))"

definition migrateDownTo :: "'d migration list \<Rightarrow> int \<Rightarrow> ('d schema, unit) step" where
  "migrateDownTo steps target = smap_list applyDown (filter (\<lambda>st. target < mgVersion st) (rev steps))"

text \<open>Names of the embedded files, \<open>NNNN_label.up.sql\<close>.\<close>

definition cutLast :: "string \<Rightarrow> string \<Rightarrow> (string \<times> string) option" where
  "cutLast s sep = map_option (\<lambda>(a, b). (rev b, rev a)) (cut (rev sep) (rev s))"

definition cut_suffix :: "string \<Rightarrow> string \<Rightarrow> string option" where
  "cut_suffix s suf = (if starts_with (rev suf) (rev s) then Some (take (length s - length suf) s) else None)"

definition parseMigrationName :: "(string \<Rightarrow> int option) \<Rightarrow> string \<Rightarrow> (int \<times> string \<times> string) res" where
  "parseMigrationName atoi name =
    (case cut_suffix name ''.sql'' of
       None \<Rightarrow> fail [] ''not a .sql file''
     | Some body \<Rightarrow> (case cutLast body ''.'' of
         None \<Rightarrow> fail [] ''does not name a direction''
       | Some (left, direction) \<Rightarrow>
           if direction \<noteq> ''up'' \<and> direction \<noteq> ''down'' then fail [] ''does not name a direction''
           else (case cut ''_'' left of
               None \<Rightarrow> fail [] ''not named NNNN_label''
             | Some (number, label) \<Rightarrow>
                 if label = [] then fail [] ''not named NNNN_label''
                 else (case atoi number of
                     None \<Rightarrow> fail [] ''does not start with a version number''
                   | Some v \<Rightarrow> if v < 1 then fail [] ''does not start with a version number''
                       else Inr (v, label, direction)))))"

record found_step =
  fsVersion :: int
  fsLabel :: string
  fsUp :: string
  fsDown :: string

fun collect_steps :: "(string \<Rightarrow> int option) \<Rightarrow> (string \<times> string) list \<Rightarrow> (int, found_step) table
    \<Rightarrow> (int, found_step) table res" where
  "collect_steps atoi [] found = Inr found"
| "collect_steps atoi ((name, body) # files) found =
    rbind (parseMigrationName atoi name) (\<lambda>(v, label, direction).
      let st = (case row_of found v of Some st \<Rightarrow> st
            | None \<Rightarrow> \<lparr>fsVersion = v, fsLabel = label, fsUp = [], fsDown = []\<rparr>) in
      if fsLabel st \<noteq> label then fail [] ''migration is named twice''
      else let st' = (if direction = ''up'' then st\<lparr>fsUp := body\<rparr> else st\<lparr>fsDown := body\<rparr>) in
        collect_steps atoi files (upsert v st' (\<lambda>_. st') found))"

definition loadMigrations :: "(string \<Rightarrow> int option) \<Rightarrow> (string \<times> string) list \<Rightarrow> found_step list res" where
  "loadMigrations atoi files =
    rbind (collect_steps atoi files []) (\<lambda>found.
      let steps = sort_by (\<lambda>a b. fsVersion a < fsVersion b) (map snd found) in
      if steps = [] then fail [] ''no migrations are embedded''
      else rbind (first_fail (map (\<lambda>(i, st). first_fail
          [check (fsVersion st \<noteq> int i + 1) [] ''migrations skip a version'',
           check (trim_space (fsUp st) = []) [] ''no up direction'',
           check (trim_space (fsDown st) = []) [] ''no down direction'']) (enumerate 0 steps)))
        (\<lambda>_. Inr steps))"

section \<open>What a listing shows\<close>

lemma str_lt_less: "str_lt a b \<longleftrightarrow> a < b"
  by (induction a b rule: str_lt.induct) (auto simp: less_char_def)

lemma weak_order_row_before: "weak_order (row_before tx)"
proof -
  have "row_before tx = (\<lambda>a b. tlTime tx (mrCreated (snd a)) > tlTime tx (mrCreated (snd b))
      \<or> tlTime tx (mrCreated (snd a)) = tlTime tx (mrCreated (snd b)) \<and> ID_String (fst a) < ID_String (fst b))"
    by (auto simp: row_before_def str_lt_less fun_eq_iff)
  then show ?thesis by (simp add: weak_order_lex(1) weak_order_key(1))
qed

lemma row_before_total: "fst a \<noteq> fst b \<Longrightarrow> row_before tx a b \<or> row_before tx b a"
  using neq_iff [of "ID_String (fst a)" "ID_String (fst b)"]
  by (cases a; cases b) (auto simp: row_before_def str_lt_less)

text \<open>The rows a query selects, in the order they are listed.\<close>

definition selected_rows :: "text_lib \<Rightarrow> ranking_db \<Rightarrow> record_query \<Rightarrow> (recid \<times> meta_row) list" where
  "selected_rows tx db q = sort_by (row_before tx) (select_where (record_selected tx db q) (rdMeta db))"

lemma selected_rows_distinct:
  "table_ok (rdMeta db) \<Longrightarrow> distinct (map fst (selected_rows tx db q))"
  using table_ok_select [of "rdMeta db"] by (simp add: selected_rows_def table_ok_def keys_of_def)

lemma set_selected_rows: "set (selected_rows tx db q) = {(i, r) \<in> set (rdMeta db). record_selected tx db q i r}"
  by (auto simp: selected_rows_def select_where_def)

lemma selected_rows_sorted:
  "table_ok (rdMeta db) \<Longrightarrow> sorted_wrt (row_before tx) (selected_rows tx db q)"
  by (rule strictly_sorted [OF weak_order_row_before selected_rows_distinct _ row_before_total])
     (auto simp: selected_rows_def intro: sorted_sort_by weak_order_row_before)

lemma filter_after:
  assumes "weak_order lt" "sorted_wrt lt xs" "j < length xs"
  shows "filter (lt (xs ! j)) xs = drop (Suc j) xs"
proof -
  have less: "lt (xs ! a) (xs ! b)" if "a < b" "b < length xs" for a b
    using sorted_wrt_nth_less [OF assms(2) that] .
  have "\<not> lt (xs ! j) x" if "x \<in> set (take (Suc j) xs)" for x
  proof -
    from that obtain i where i: "i \<le> j" "x = xs ! i" using assms(3) by (auto simp: in_set_conv_nth less_Suc_eq_le)
    show ?thesis
    proof (cases "i = j")
      case True
      then show ?thesis using i weak_order_asym [OF assms(1)] by blast
    next
      case False
      then show ?thesis using i less [of i j] assms(3) weak_order_asym [OF assms(1)] by simp
    qed
  qed
  moreover have "lt (xs ! j) x" if "x \<in> set (drop (Suc j) xs)" for x
  proof -
    from that obtain i where "i < length xs - Suc j" "x = drop (Suc j) xs ! i"
      by (metis in_set_conv_nth length_drop)
    then show ?thesis using less [of j "Suc j + i"] by simp
  qed
  ultimately have "filter (lt (xs ! j)) (take (Suc j) xs @ drop (Suc j) xs) = drop (Suc j) xs"
    by (simp add: filter_True filter_False del: append_take_drop_id)
  then show ?thesis by simp
qed

lemma sorted_wrt_filter: "sorted_wrt P xs \<Longrightarrow> sorted_wrt P (filter p xs)"
  by (induction xs) auto

lemma sort_by_filter:
  assumes "weak_order lt" "distinct (map fst xs)"
    and "\<And>a b. fst a \<noteq> fst b \<Longrightarrow> lt a b \<or> lt b a"
  shows "sort_by lt (filter p xs) = filter p (sort_by lt xs)"
proof (rule sorted_unique [OF assms(1)])
  show "sorted_wrt (\<lambda>a b. \<not> lt b a) (sort_by lt (filter p xs))" by (rule sorted_sort_by [OF assms(1)])
  show "sorted_wrt (\<lambda>a b. \<not> lt b a) (filter p (sort_by lt xs))"
    by (rule sorted_wrt_filter [OF sorted_sort_by [OF assms(1)]])
  show "mset (sort_by lt (filter p xs)) = mset (filter p (sort_by lt xs))" by (simp add: mset_filter)
  fix a b assume "a \<in> set (sort_by lt (filter p xs))" "b \<in> set (sort_by lt (filter p xs))"
    "\<not> lt a b" "\<not> lt b a"
  then have "fst a = fst b" "a \<in> set xs" "b \<in> set xs" using assms(3) [of a b] by auto
  then show "a = b" using assms(2) by (auto simp: distinct_map dest: inj_onD)
qed

section \<open>Cursors\<close>

text \<open>What the text of a timestamp never is: empty, or holding the separator.\<close>

definition plain_times :: "text_lib \<Rightarrow> bool" where
  "plain_times tx \<longleftrightarrow> (\<forall>t. tlTime tx t \<noteq> [] \<and> CHR 0x00 \<notin> set (tlTime tx t))"

definition cursor_at :: "text_lib \<Rightarrow> (recid \<times> meta_row) list \<Rightarrow> nat \<Rightarrow> page_cursor" where
  "cursor_at tx rows j = (if j = 0 then [] else encodeCursor tx (mrCreated (snd (rows ! (j - 1)))) (fst (rows ! (j - 1))))"

lemma bytes_of_empty: "bytes_of s = [] \<longleftrightarrow> s = []"
  by (simp add: bytes_of_def)

lemma encodeCursor_nonempty: "encodeCursor tx t i \<noteq> []"
  by (simp add: encodeCursor_def cursorSeparator_def bytes_of_empty)

lemma Cursor_decode_encode:
  assumes "plain_times tx"
  shows "Cursor_decode (encodeCursor tx t i) = Inr (tlTime tx t, ID_String i)"
proof -
  have "CHR 0x00 \<notin> set (tlTime tx t)" using assms by (simp add: plain_times_def)
  then have "cut cursorSeparator (tlTime tx t @ cursorSeparator @ ID_String i) = Some (tlTime tx t, ID_String i)"
    unfolding cursorSeparator_def by (rule cut_fresh)
  then show ?thesis using encodeCursor_nonempty [of tx t i]
    by (simp add: Cursor_decode_def encodeCursor_def b64_decode_encode)
qed

lemma after_cursor_row:
  "plain_times tx \<Longrightarrow> after_cursor tx (tlTime tx (mrCreated (snd x))) (ID_String (fst x)) j r \<longleftrightarrow> row_before tx x (j, r)"
  by (cases x) (auto simp: after_cursor_def row_before_def plain_times_def)

lemma record_limit_pos: "0 < record_limit n"
  by (simp add: record_limit_def DefaultRecordLimit_def MaxRecordLimit_def)
lemma record_selected_cursor: "record_selected tx db (q\<lparr>rqCursor := c\<rparr>) = record_selected tx db q"
  by (simp add: record_selected_def fun_eq_iff)

text \<open>One page: from the cursor of any row, in the database as it is when the page is asked for.\<close>

lemma ListRecords_after:
  assumes "table_ok (rdMeta db)" and "plain_times tx"
    and rest: "rest = (case after of None \<Rightarrow> selected_rows tx db q
      | Some x \<Rightarrow> filter (row_before tx x) (selected_rows tx db q))"
    and c: "c = (case after of None \<Rightarrow> [] | Some x \<Rightarrow> encodeCursor tx (mrCreated (snd x)) (fst x))"
  shows "ListRecords tx db (q\<lparr>rqCursor := c\<rparr>) =
    (let n = record_limit (rqLimit q) in
     Inr (map (listed_row db) (take n rest),
       if length rest \<le> n then [] else encodeCursor tx (mrCreated (snd (rest ! (n - 1)))) (fst (rest ! (n - 1)))))"
proof -
  define n where "n = record_limit (rqLimit q)"
  have n: "0 < n" by (simp add: n_def record_limit_pos)
  obtain created i where dec: "Cursor_decode c = Inr (created, i)"
    and sel: "sort_by (row_before tx) (select_where (\<lambda>j r. record_selected tx db q j r
        \<and> after_cursor tx created i j r) (rdMeta db)) = rest"
  proof (cases after)
    case None
    show ?thesis by (rule that [of "[]" "[]"]) (simp_all add: None c rest Cursor_decode_def after_cursor_def selected_rows_def)
  next
    case (Some x)
    have "distinct (map fst (select_where (record_selected tx db q) (rdMeta db)))"
      using table_ok_select [OF assms(1)] by (simp add: table_ok_def keys_of_def)
    from sort_by_filter [OF weak_order_row_before this, where p = "row_before tx x"] row_before_total [of _ _ tx]
    have "filter (row_before tx x) (selected_rows tx db q)
        = sort_by (row_before tx) (filter (row_before tx x) (select_where (record_selected tx db q) (rdMeta db)))"
      by (simp add: selected_rows_def)
    also have "filter (row_before tx x) (select_where (record_selected tx db q) (rdMeta db))
        = select_where (\<lambda>j r. record_selected tx db q j r
            \<and> after_cursor tx (tlTime tx (mrCreated (snd x))) (ID_String (fst x)) j r) (rdMeta db)"
      by (auto simp: select_where_def after_cursor_row [OF assms(2)] intro!: filter_cong)
    finally show ?thesis
      by (intro that [of "tlTime tx (mrCreated (snd x))" "ID_String (fst x)"])
         (simp_all add: Some c rest Cursor_decode_encode [OF assms(2)])
  qed
  have len [simp]: "length (select_where (\<lambda>j r. record_selected tx db q j r \<and> after_cursor tx created i j r) (rdMeta db))
      = length rest" using arg_cong [OF sel, of length] by simp
  show ?thesis
  proof (cases "length rest \<le> n")
    case True
    then show ?thesis
      unfolding ListRecords_def record_selected_cursor by (simp add: dec sel n_def [symmetric] Let_def)
  next
    case False
    then have ne: "take n rest \<noteq> []" and len: "length (take n rest) = n" using n by auto
    have "last (take n rest) = rest ! (n - 1)"
      using n by (simp only: last_conv_nth [OF ne] len) simp
    moreover have "rrCreated (listed_row db y) = mrCreated (snd y)" "rrID (listed_row db y) = fst y" for y
      by (cases y; simp add: listed_row_def)+
    ultimately show ?thesis
      using False n ne unfolding ListRecords_def record_selected_cursor
      by (simp add: dec sel n_def [symmetric] last_map)
  qed
qed

lemma selected_rows_after:
  "table_ok (rdMeta db) \<Longrightarrow> j < length (selected_rows tx db q)
   \<Longrightarrow> filter (row_before tx (selected_rows tx db q ! j)) (selected_rows tx db q) = drop (Suc j) (selected_rows tx db q)"
  by (rule filter_after [OF weak_order_row_before selected_rows_sorted])

lemma ListRecords_pages:
  assumes "table_ok (rdMeta db)" "plain_times tx" "j \<le> length (selected_rows tx db q)"
  defines "rows \<equiv> selected_rows tx db q" and "n \<equiv> record_limit (rqLimit q)"
  shows "ListRecords tx db (q\<lparr>rqCursor := cursor_at tx rows j\<rparr>) =
    Inr (map (listed_row db) (take n (drop j rows)), if length rows \<le> j + n then [] else cursor_at tx rows (j + n))"
proof -
  define after where "after = (if j = 0 then None else Some (rows ! (j - 1)))"
  have "drop j rows = (case after of None \<Rightarrow> selected_rows tx db q
      | Some x \<Rightarrow> filter (row_before tx x) (selected_rows tx db q))"
    using selected_rows_after [OF assms(1), of "j - 1" tx q] assms(3) by (auto simp: after_def rows_def)
  note page = ListRecords_after [OF assms(1,2) this refl]
  have c: "(case after of None \<Rightarrow> [] | Some x \<Rightarrow> encodeCursor tx (mrCreated (snd x)) (fst x)) = cursor_at tx rows j"
    by (simp add: after_def cursor_at_def)
  have "0 < n" by (simp add: n_def record_limit_pos)
  then have "cursor_at tx rows (j + n) = encodeCursor tx (mrCreated (snd (drop j rows ! (n - 1)))) (fst (drop j rows ! (n - 1)))"
    if "j + n < length rows" using that assms(3) by (simp add: cursor_at_def)
  then show ?thesis using page [unfolded c] assms(3)
    by (auto simp: n_def [symmetric] rows_def [symmetric] Let_def not_le)
qed

text \<open>Following the cursors, at most \<open>fuel\<close> pages.\<close>

fun list_all_pages :: "nat \<Rightarrow> text_lib \<Rightarrow> ranking_db \<Rightarrow> record_query \<Rightarrow> record_row list option" where
  "list_all_pages 0 tx db q = None"
| "list_all_pages (Suc fuel) tx db q = (case ListRecords tx db q of
     Inl e \<Rightarrow> None
   | Inr (out, next_page) \<Rightarrow> if next_page = [] then Some out
       else map_option ((@) out) (list_all_pages fuel tx db (q\<lparr>rqCursor := next_page\<rparr>)))"

lemma list_all_pages_from:
  assumes "table_ok (rdMeta db)" "plain_times tx" and rows_def: "rows = selected_rows tx db q"
  shows "j \<le> length rows \<Longrightarrow> length rows - j < fuel
    \<Longrightarrow> list_all_pages fuel tx db (q\<lparr>rqCursor := cursor_at tx rows j\<rparr>) = Some (map (listed_row db) (drop j rows))"
proof (induction fuel arbitrary: j)
  case 0
  then show ?case by simp
next
  case (Suc fuel)
  define n where "n = record_limit (rqLimit q)"
  have n: "0 < n" by (simp add: n_def record_limit_pos)
  have page: "ListRecords tx db (q\<lparr>rqCursor := cursor_at tx rows j\<rparr>) =
    Inr (map (listed_row db) (take n (drop j rows)), if length rows \<le> j + n then [] else cursor_at tx rows (j + n))"
    using ListRecords_pages [OF assms(1,2), of j q] Suc.prems(1) by (simp add: rows_def n_def)
  show ?case
  proof (cases "length rows \<le> j + n")
    case True
    then show ?thesis by (simp add: page)
  next
    case False
    have "cursor_at tx rows (j + n) \<noteq> []" using n by (simp add: cursor_at_def encodeCursor_nonempty)
    moreover have "list_all_pages fuel tx db (q\<lparr>rqCursor := cursor_at tx rows (j + n)\<rparr>)
        = Some (map (listed_row db) (drop (j + n) rows))"
      by (rule Suc.IH) (use Suc.prems False n in auto)
    moreover have "take n (drop j rows) @ drop (j + n) rows = drop j rows"
      by (metis append_take_drop_id drop_drop add.commute)
    ultimately show ?thesis using False by (simp add: page flip: map_append)
  qed
qed

text \<open>C18. Asking for page after page from the empty cursor ends, and lists every selected record exactly once,
  newest first and by identity among equals, whatever the size of a page.\<close>

theorem ListRecords_complete:
  assumes "table_ok (rdMeta db)" "plain_times tx" "length (rdMeta db) < fuel"
  shows "\<exists>rows. list_all_pages fuel tx db (q\<lparr>rqCursor := []\<rparr>) = Some (map (listed_row db) rows)
    \<and> distinct (map fst rows) \<and> sorted_wrt (row_before tx) rows
    \<and> set rows = {(i, r) \<in> set (rdMeta db). record_selected tx db q i r}"
proof (intro exI conjI)
  have "length (selected_rows tx db q) \<le> length (rdMeta db)"
    by (simp add: selected_rows_def select_where_def)
  then show "list_all_pages fuel tx db (q\<lparr>rqCursor := []\<rparr>) = Some (map (listed_row db) (selected_rows tx db q))"
    using list_all_pages_from [OF assms(1,2) refl, where j = 0 and q = q and fuel = fuel] assms(3) by (simp add: cursor_at_def)
  show "sorted_wrt (row_before tx) (selected_rows tx db q)" by (rule selected_rows_sorted [OF assms(1)])
qed (simp_all add: selected_rows_distinct assms(1) set_selected_rows)
definition demo_text :: text_lib where
  "demo_text = \<lparr>tlDecode = map of_char, tlEnc = (\<lambda>r. [char_of r]), tlLow = (\<lambda>r. if 65 \<le> r \<and> r \<le> 90 then r + 32 else r),
     tlWord = (\<lambda>r. 97 \<le> r \<and> r \<le> 122), tlTime = (\<lambda>t. ''t'')\<rparr>"

definition demo_ranking :: ranking_db where
  "demo_ranking = \<lparr>rdMeta = map (\<lambda>i. (i, \<lparr>mrKind = KindMemory, mrType = ''fact'', mrSupersedes = None, mrCreated = 9\<rparr>)) [3, 1, 2],
     rdTags = [(3, ''go''), (2, ''go'')], rdLexical = []\<rparr>"

definition demo_query :: record_query where
  "demo_query = \<lparr>rqKinds = [], rqTypes = [], rqTags = [''Go''], rqIncludeSuperseded = False, rqLimit = 1, rqCursor = []\<rparr>"

theorem ListRecords_complete_witness:
  "\<exists>rows. list_all_pages 9 demo_text demo_ranking (demo_query\<lparr>rqCursor := []\<rparr>) = Some (map (listed_row demo_ranking) rows)
    \<and> distinct (map fst rows) \<and> sorted_wrt (row_before demo_text) rows
    \<and> set rows = {(i, r) \<in> set (rdMeta demo_ranking). record_selected demo_text demo_ranking demo_query i r}"
  by (rule ListRecords_complete)
     (simp_all add: demo_ranking_def table_ok_def keys_of_def plain_times_def demo_text_def)

section \<open>Migrations by several processes\<close>

text \<open>What one migration does to the data, and a run of them from the start.\<close>

definition up_body :: "('d \<Rightarrow> 'd res) \<Rightarrow> 'd migration \<Rightarrow> 'd \<Rightarrow> 'd res" where
  "up_body addColumns st d = rbind (case mgUp st d of Inl e \<Rightarrow> Inl (wrap_err ''migration up: '' e) | Inr d \<Rightarrow> Inr d)
     (\<lambda>d. if mgVersion st = baselineVersion then addColumns d else Inr d)"

lemma applyUp_body:
  "applyUp addColumns st s =
    (if mgVersion st \<le> scVersion s then (Inr (), s)
     else case up_body addColumns st (scData s) of Inl e \<Rightarrow> (Inl e, s)
       | Inr d \<Rightarrow> (Inr (), \<lparr>scData = d, scVersion = mgVersion st\<rparr>))"
  by (simp add: applyUp_def up_body_def)

fun run_ups :: "('d \<Rightarrow> 'd res) \<Rightarrow> 'd migration list \<Rightarrow> 'd \<Rightarrow> 'd res" where
  "run_ups addColumns [] d = Inr d"
| "run_ups addColumns (st # sts) d = rbind (up_body addColumns st d) (run_ups addColumns sts)"

lemma run_ups_snoc: "run_ups ac (sts @ [st]) d = rbind (run_ups ac sts d) (up_body ac st)"
  by (induction sts arbitrary: d) (auto simp: rbind_def split: sum.splits)

definition numbered :: "'d migration list \<Rightarrow> bool" where
  "numbered steps \<longleftrightarrow> (\<forall>i < length steps. mgVersion (steps ! i) = int i + 1)"

text \<open>
  Each process has the migrations it still has to apply, worked out from the version it read when
  it opened; every transaction of one of them is a step, and a process may stop anywhere.
\<close>

inductive mig_step :: "('d \<Rightarrow> 'd res) \<Rightarrow> 'd migration list \<Rightarrow> 'd schema \<times> (nat \<Rightarrow> 'd migration list)
    \<Rightarrow> 'd schema \<times> (nat \<Rightarrow> 'd migration list) \<Rightarrow> bool" for ac steps where
  mig_open: "\<not> mgVersion (last steps) < scVersion s \<Longrightarrow>
    mig_step ac steps (s, w) (s, w(p := filter (\<lambda>st. scVersion s < mgVersion st) steps))"
| mig_apply: "w p = st # todo \<Longrightarrow> applyUp ac st s = (Inr (), s') \<Longrightarrow> mig_step ac steps (s, w) (s', w(p := todo))"
| mig_fail: "w p = st # todo \<Longrightarrow> applyUp ac st s = (Inl e, s') \<Longrightarrow> mig_step ac steps (s, w) (s', w(p := []))"
| mig_stop: "mig_step ac steps (s, w) (s, w(p := []))"

inductive_cases mig_stepE: "mig_step ac steps sw sw'"

definition at_version :: "('d \<Rightarrow> 'd res) \<Rightarrow> 'd migration list \<Rightarrow> 'd \<Rightarrow> 'd schema \<Rightarrow> bool" where
  "at_version ac steps d0 s \<longleftrightarrow> 0 \<le> scVersion s \<and> scVersion s \<le> int (length steps)
     \<and> run_ups ac (take (nat (scVersion s)) steps) d0 = Inr (scData s)"

definition todo_ok :: "'d migration list \<Rightarrow> 'd schema \<Rightarrow> 'd migration list \<Rightarrow> bool" where
  "todo_ok steps s todo \<longleftrightarrow> todo = [] \<or> (\<exists>k. int k \<le> scVersion s \<and> todo = drop k steps)"

lemma todo_ok_mono: "todo_ok steps s todo \<Longrightarrow> scVersion s \<le> scVersion s' \<Longrightarrow> todo_ok steps s' todo"
  unfolding todo_ok_def by (elim disjE exE conjE) (auto intro: order_trans)

lemma filter_versions:
  assumes "numbered steps" "0 \<le> v" "v \<le> int (length steps)"
  shows "filter (\<lambda>st. v < mgVersion st) steps = drop (nat v) steps"
proof -
  have "filter (\<lambda>st. v < mgVersion st) (take (nat v) steps) = []"
    using assms by (auto simp: filter_empty_conv numbered_def in_set_conv_nth)
  moreover have "filter (\<lambda>st. v < mgVersion st) (drop (nat v) steps) = drop (nat v) steps"
    using assms by (auto simp: filter_id_conv numbered_def in_set_conv_nth)
  ultimately show ?thesis by (metis append_take_drop_id append_Nil filter_append)
qed

lemma applyUp_at_version:
  assumes "numbered steps" "at_version ac steps d0 s" "todo_ok steps s (st # todo)" "applyUp ac st s = (r, s')"
  shows "at_version ac steps d0 s' \<and> scVersion s \<le> scVersion s' \<and> (r = Inr () \<longrightarrow> todo_ok steps s' todo)"
proof -
  obtain k where k: "int k \<le> scVersion s" "st # todo = drop k steps"
    using assms(3) by (auto simp: todo_ok_def)
  then have kl: "k < length steps" by (metis drop_all list.distinct(1) not_le)
  have st: "st = steps ! k" "todo = drop (Suc k) steps"
    using k(2) Cons_nth_drop_Suc [OF kl] by (metis list.inject)+
  have ver: "mgVersion st = int k + 1" using assms(1) kl st by (simp add: numbered_def)
  show ?thesis
  proof (cases "int k < scVersion s")
    case True
    then have "s' = s" using assms(4) ver by (simp add: applyUp_body)
    moreover have "todo_ok steps s todo" unfolding todo_ok_def using True st(2)
      by (intro disjI2 exI [of _ "Suc k"]) auto
    ultimately show ?thesis using assms(2) by simp
  next
    case False
    then have v: "scVersion s = int k" using k by simp
    have take: "take (Suc k) steps = take k steps @ [st]" using kl st by (simp add: take_Suc_conv_app_nth)
    have now: "run_ups ac (take k steps) d0 = Inr (scData s)" using assms(2) v by (simp add: at_version_def)
    show ?thesis
    proof (cases "up_body ac st (scData s)")
      case (Inl e)
      then show ?thesis using assms(2,4) ver v by (auto simp: applyUp_body)
    next
      case (Inr d)
      then have s': "s' = \<lparr>scData = d, scVersion = int k + 1\<rparr>" using assms(4) ver v by (auto simp: applyUp_body)
      have "run_ups ac (take (Suc k) steps) d0 = Inr d" using now Inr by (simp add: take run_ups_snoc)
      moreover have "nat (int k + 1) = Suc k" by simp
      ultimately have "at_version ac steps d0 s'" using kl by (simp add: at_version_def s')
      moreover have "todo_ok steps s' todo" unfolding todo_ok_def using st(2)
        by (intro disjI2 exI [of _ "Suc k"]) (auto simp: s')
      ultimately show ?thesis by (simp add: s' v)
    qed
  qed
qed

lemma mig_step_invariant:
  assumes "mig_step ac steps (s, w) (s', w')" and "numbered steps"
    and "at_version ac steps d0 s" "\<forall>p. todo_ok steps s (w p)"
  shows "at_version ac steps d0 s' \<and> (\<forall>p. todo_ok steps s' (w' p))"
  using assms(1)
proof (cases rule: mig_step.cases)
  case (mig_open p)
  then show ?thesis using assms(2-4) filter_versions [OF assms(2), of "scVersion s"]
    by (auto simp: at_version_def todo_ok_def [where todo = "drop _ _"] intro!: exI [of _ "nat (scVersion s)"])
next
  case (mig_apply p st todo)
  then have "todo_ok steps s (st # todo)" using assms(4) by metis
  from applyUp_at_version [OF assms(2,3) this] mig_apply assms(4) show ?thesis
    by (auto intro: todo_ok_mono)
next
  case (mig_fail p st todo e)
  then have "todo_ok steps s (st # todo)" using assms(4) by metis
  from applyUp_at_version [OF assms(2,3) this] mig_fail assms(4) show ?thesis
    by (auto intro: todo_ok_mono simp: todo_ok_def [where todo = "[]"])
next
  case (mig_stop p)
  then show ?thesis using assms(3,4) by (auto simp: todo_ok_def [where todo = "[]"])
qed

lemma migrations_invariant:
  assumes "(mig_step ac steps)\<^sup>*\<^sup>* x y" "numbered steps" "at_version ac steps d0 (fst x)" "\<forall>p. todo_ok steps (fst x) (snd x p)"
  shows "at_version ac steps d0 (fst y) \<and> (\<forall>p. todo_ok steps (fst y) (snd y p))"
  using assms(1)
proof induction
  case base
  show ?case using assms(3,4) by simp
next
  case (step y z)
  then show ?case using mig_step_invariant [of ac steps "fst y" "snd y" "fst z" "snd z" d0] assms(2) by simp
qed
text \<open>C19. However processes that open one vault at once interleave their migrations, and wherever any of them
  fails or stops, the data is what the migrations up to the version in the header make of the start, each run once.\<close>

theorem migrations_consistent:
  assumes "numbered steps" and "(mig_step ac steps)\<^sup>*\<^sup>* (\<lparr>scData = d0, scVersion = 0\<rparr>, \<lambda>_. []) (s, w)"
  shows "run_ups ac (take (nat (scVersion s)) steps) d0 = Inr (scData s) \<and> 0 \<le> scVersion s \<and> scVersion s \<le> int (length steps)"
  using migrations_invariant [OF assms(2,1), of d0] by (simp add: at_version_def todo_ok_def)

text \<open>One process alone: \<open>migrate\<close> is a sequence of these steps, and when it reports success all migrations ran.\<close>

lemma migrate_todo:
  assumes "numbered steps"
  shows "at_version ac steps d0 s \<Longrightarrow> todo_ok steps s todo \<Longrightarrow> smap_list (applyUp ac) todo s = (r, s')
    \<Longrightarrow> at_version ac steps d0 s' \<and> (r = Inr () \<and> todo \<noteq> [] \<longrightarrow> mgVersion (last todo) \<le> scVersion s')"
proof (induction todo arbitrary: s)
  case Nil
  then show ?case by (simp add: step_defs)
next
  case (Cons st todo)
  obtain r1 s1 where one: "applyUp ac st s = (r1, s1)" by fastforce
  note step = applyUp_at_version [OF assms Cons.prems(1,2) one]
  show ?case
  proof (cases r1)
    case (Inl e)
    then show ?thesis using Cons.prems(3) one step by (auto simp: step_defs)
  next
    case (Inr u)
    then have rest: "smap_list (applyUp ac) todo s1 = (r, s')" using Cons.prems(3) one by (simp add: step_defs)
    have reached: "mgVersion st \<le> scVersion s1"
      using one Inr by (auto simp: applyUp_body split: if_splits sum.splits)
    show ?thesis
    proof (cases "todo = []")
      case True
      then show ?thesis using rest step reached by (simp add: step_defs)
    next
      case False
      then show ?thesis using Cons.IH [OF _ _ rest] step Inr by simp
    qed
  qed
qed
lemma migrate_complete:
  assumes "numbered steps" "steps \<noteq> []" "at_version ac steps d0 s" "migrate ac steps s = (Inr (), s')"
  shows "scVersion s' = int (length steps) \<and> run_ups ac steps d0 = Inr (scData s')"
proof -
  have v: "0 \<le> scVersion s" "scVersion s \<le> int (length steps)" using assms(3) by (auto simp: at_version_def)
  have last: "mgVersion (last steps) = int (length steps)"
    using assms(1,2) by (cases "length steps") (simp_all add: numbered_def last_conv_nth)
  have run: "smap_list (applyUp ac) (drop (nat (scVersion s)) steps) s = (Inr (), s')"
    using assms(4) filter_versions [OF assms(1) v] by (simp add: migrate_def Let_def split: if_splits)
  have "todo_ok steps s (drop (nat (scVersion s)) steps)"
    unfolding todo_ok_def using v by (intro disjI2 exI [of _ "nat (scVersion s)"]) simp
  from migrate_todo [OF assms(1,3) this run]
  have at: "at_version ac steps d0 s'"
    and reach: "drop (nat (scVersion s)) steps \<noteq> [] \<longrightarrow> mgVersion (last (drop (nat (scVersion s)) steps)) \<le> scVersion s'" by auto
  have "scVersion s' = int (length steps)"
  proof (cases "drop (nat (scVersion s)) steps = []")
    case True
    then have "s' = s" using run by (simp add: step_defs)
    then show ?thesis using True v by simp
  next
    case False
    then have "last (drop (nat (scVersion s)) steps) = last steps" by (simp add: last_drop)
    then show ?thesis using reach False last at by (simp add: at_version_def)
  qed
  then show ?thesis using at by (simp add: at_version_def)
qed

text \<open>A file of a newer build is refused, and nothing is touched.\<close>

lemma migrate_refuses_newer:
  "mgVersion (last steps) < scVersion s \<Longrightarrow> \<exists>e. migrate ac steps s = (Inl e, s)"
  by (simp add: migrate_def Let_def)

text \<open>The migrations that load are numbered from one without a gap, and each has both directions.\<close>

lemma loadMigrations_numbered:
  assumes "loadMigrations atoi files = Inr steps"
  shows "steps \<noteq> [] \<and> (\<forall>i < length steps. fsVersion (steps ! i) = int i + 1
    \<and> trim_space (fsUp (steps ! i)) \<noteq> [] \<and> trim_space (fsDown (steps ! i)) \<noteq> [])"
proof -
  let ?ok = "\<lambda>(i, st). first_fail
          [check (fsVersion st \<noteq> int i + 1) [] ''migrations skip a version'',
           check (trim_space (fsUp st) = []) [] ''no up direction'',
           check (trim_space (fsDown st) = []) [] ''no down direction'']"
  have "steps \<noteq> [] \<and> first_fail (map ?ok (enumerate 0 steps)) = Inr ()"
    using assms by (auto simp: loadMigrations_def rbind_Inr_iff Let_def split: if_splits)
  then have "steps \<noteq> []" and all: "\<forall>x \<in> set (enumerate 0 steps). ?ok x = Inr ()"
    by (simp_all add: first_fail_Inr_iff)
  moreover have "fsVersion (steps ! i) = int i + 1 \<and> trim_space (fsUp (steps ! i)) \<noteq> []
      \<and> trim_space (fsDown (steps ! i)) \<noteq> []" if "i < length steps" for i
  proof -
    have "(i, steps ! i) \<in> set (enumerate 0 steps)" using that by (simp add: in_set_enumerate_eq)
    with all show ?thesis by (force simp: first_fail_Inr_iff)
  qed
  ultimately show ?thesis by blast
qed

definition demo_migration :: "int \<Rightarrow> int list migration" where
  "demo_migration v = \<lparr>mgVersion = v, mgLabel = ''m'', mgUp = (\<lambda>d. Inr (d @ [v])), mgDown = (\<lambda>d. Inr (butlast d))\<rparr>"

theorem migrations_consistent_witness:
  "run_ups (\<lambda>d. Inr (0 # d)) (take 2 [demo_migration 1, demo_migration 2]) [] = Inr [0, 1, 2]
   \<and> run_ups Inr (take 1 [demo_migration 1, demo_migration 2]) [] = Inr [1]"
proof
  show "run_ups (\<lambda>d. Inr (0 # d)) (take 2 [demo_migration 1, demo_migration 2]) [] = Inr [0, 1, 2]"
    by (simp add: up_body_def demo_migration_def baselineVersion_def)
  let ?steps = "[demo_migration 1, demo_migration 2]"
  let ?w = "(\<lambda>_. [])(0 := ?steps, Suc 0 := ?steps) :: nat \<Rightarrow> int list migration list"
  let ?s0 = "\<lparr>scData = [], scVersion = 0\<rparr> :: int list schema"
  let ?s1 = "\<lparr>scData = [1], scVersion = 1\<rparr> :: int list schema"
  have num: "numbered ?steps" by (auto simp: numbered_def demo_migration_def less_Suc_eq)
  have "mig_step Inr ?steps (?s0, \<lambda>_. []) (?s0, (\<lambda>_. [])(0 := filter (\<lambda>st. scVersion ?s0 < mgVersion st) ?steps))"
    by (rule mig_open) (simp add: demo_migration_def)
  then have a: "mig_step Inr ?steps (?s0, \<lambda>_. []) (?s0, (\<lambda>_. [])(0 := ?steps))"
    by (simp add: demo_migration_def)
  have "mig_step Inr ?steps (?s0, (\<lambda>_. [])(0 := ?steps))
      (?s0, (\<lambda>_. [])(0 := ?steps, Suc 0 := filter (\<lambda>st. scVersion ?s0 < mgVersion st) ?steps))"
    by (rule mig_open) (simp add: demo_migration_def)
  then have b: "mig_step Inr ?steps (?s0, (\<lambda>_. [])(0 := ?steps)) (?s0, ?w)"
    by (simp add: demo_migration_def)
  have c: "mig_step Inr ?steps (?s0, ?w) (?s1, ?w(0 := [demo_migration 2]))"
    by (rule mig_apply [where st = "demo_migration 1"])
       (simp_all add: applyUp_body up_body_def demo_migration_def baselineVersion_def)
  have d: "mig_step Inr ?steps (?s1, ?w(0 := [demo_migration 2])) (?s1, ?w(0 := [demo_migration 2], Suc 0 := [demo_migration 2]))"
    by (rule mig_apply [where st = "demo_migration 1"]) (simp_all add: applyUp_body demo_migration_def)
  have "(mig_step Inr ?steps)\<^sup>*\<^sup>* (?s0, \<lambda>_. []) (?s1, ?w(0 := [demo_migration 2], Suc 0 := [demo_migration 2]))"
    by (rule converse_rtranclp_into_rtranclp [OF a converse_rtranclp_into_rtranclp [OF b
        converse_rtranclp_into_rtranclp [OF c r_into_rtranclp [where r = "mig_step Inr ?steps", OF d]]]])
  from migrations_consistent [OF num this] show "run_ups Inr (take 1 ?steps) [] = Inr [1]" by simp
qed

section \<open>Terms, tags and metadata\<close>

lemma analyze_words: "w \<in> set (analyze tx t) \<Longrightarrow> 2 \<le> length w \<and> w \<notin> set stopwords"
  by (auto simp: analyze_def)

lemma set_insert_tags: "set (insert_tags i ts rows) = set rows \<union> (\<lambda>t. (i, t)) ` set ts"
  by (induction i ts rows rule: insert_tags.induct) auto

lemma distinct_insert_tags: "distinct rows \<Longrightarrow> distinct (insert_tags i ts rows)"
  by (induction i ts rows rule: insert_tags.induct) auto

lemma set_NormalizeTags: "set (NormalizeTags tx tags) = NormalizeTag tx ` set tags - {[]}"
  by (auto simp: NormalizeTags_def)

lemma set_tags_of: "set (tags_of db i) = {t. (i, t) \<in> set (rdTags db)}"
  by (force simp: tags_of_def)

lemma putLexical_other [simp]:
  "rdMeta (putLexical tx i t db) = rdMeta db" "rdTags (putLexical tx i t db) = rdTags db"
  by (simp_all add: putLexical_def Let_def)

lemma forgetLexical_other [simp]:
  "rdMeta (forgetLexical i db) = rdMeta db" "rdTags (forgetLexical i db) = rdTags db"
  by (simp_all add: forgetLexical_def)

text \<open>What describing a record after it was filed says of it and of the others.\<close>

lemma Describe_put:
  assumes "rmID m \<in> set ids"
  shows "\<exists>d. deMeta (Describe (PutRankingMeta tx now m db) ids) (rmID m) = Some d
     \<and> rmKind d = (if rmKind m = [] then KindMemory else rmKind m) \<and> rmType d = rmType m
     \<and> set (rmTags d) = set (NormalizeTags tx (rmTags m))"
  using assms by (auto simp: Describe_def PutRankingMeta_def Let_def set_tags_of set_insert_tags split: option.splits)

lemma Describe_put_other:
  assumes "i \<noteq> rmID m"
  shows "deMeta (Describe (PutRankingMeta tx now m db) ids) i = deMeta (Describe db ids) i"
proof -
  have "filter (\<lambda>(j, _). j = i) (insert_tags (rmID m) ts rows) = filter (\<lambda>(j, _). j = i) rows" for ts rows
    using assms by (induction "rmID m" ts rows rule: insert_tags.induct) auto
  then have "tags_of (PutRankingMeta tx now m db) i = tags_of db i"
    using assms by (auto simp: tags_of_def PutRankingMeta_def Let_def intro!: arg_cong [of _ _ "sort_by str_lt"] arg_cong [of _ _ "map snd"] filter_cong)
  then show ?thesis using assms by (simp add: Describe_def PutRankingMeta_def Let_def)
qed

end
