(* ===== verification/Recall.thy ===== *)
theory Recall
  imports LocalRanking VectorIndex
begin

text \<open>
  Package \<open>recall\<close>: fusing the vector and the lexical ranking, the soft filter, the ranking, and the
  pipeline from a query to fetched records.  The embedder, the catalog, the lexical index and the
  fetcher are the interfaces the package declares and stay parameters; the vector index is the
  model of package \<open>index\<close>.  Scores are IEEE single precision.  Stage durations are left out.
\<close>

section \<open>Single precision quotients\<close>

text \<open>No divisor in this package is a zero, whose sign a value does not keep.\<close>

definition f32_div :: "gofloat \<Rightarrow> gofloat \<Rightarrow> gofloat" where
  "f32_div x y = (case (x, y) of
       (Fin a, Fin b) \<Rightarrow> (if b = 0 then (if a = 0 then NaN else if 0 < a then PInf else NInf) else round_f32 (a / b))
     | (Fin a, _) \<Rightarrow> (if y = NaN then NaN else Fin 0)
     | (_, Fin b) \<Rightarrow> (if x = NaN then NaN else if (0 \<le> b) = (x = PInf) then PInf else NInf)
     | _ \<Rightarrow> NaN)"

definition f32_of_nat :: "nat \<Rightarrow> gofloat" where
  "f32_of_nat n = round_f32 (of_nat n)"

definition float_eq :: "gofloat \<Rightarrow> gofloat \<Rightarrow> bool" where
  "float_eq a b \<longleftrightarrow> a = b \<and> a \<noteq> NaN"

section \<open>Fusion\<close>

record candidate =
  cdID :: recid
  cdScore :: gofloat
  cdSimilarity :: gofloat
  cdFused :: gofloat
  cdLexical :: gofloat
  cdBoost :: gofloat

definition RRFk :: gofloat where "RRFk = Fin 60"
definition DefaultLexicalWeight :: gofloat where "DefaultLexicalWeight = round_f32 (3 / 100)"

text \<open>The share of the pass with the given weight at position \<open>n\<close>, counted from zero.\<close>

definition contribution :: "gofloat \<Rightarrow> nat \<Rightarrow> gofloat" where
  "contribution weight n = f32_div weight (f32_add RRFk (f32_of_nat (n + 1)))"

definition fuse_lexical :: "gofloat \<Rightarrow> nat \<times> recid \<Rightarrow> candidate list \<times> (recid \<rightharpoonup> nat)
    \<Rightarrow> candidate list \<times> (recid \<rightharpoonup> nat)" where
  "fuse_lexical weight = (\<lambda>(n, i) (fused, posn).
    (let share = contribution weight n in
     case posn i of
       Some p \<Rightarrow> if float_lt (Fin 0) (cdLexical (fused ! p)) then (fused, posn)
         else (fused[p := (fused ! p)\<lparr>cdLexical := share, cdFused := f32_add (cdFused (fused ! p)) share\<rparr>], posn)
     | None \<Rightarrow> (fused @ [\<lparr>cdID = i, cdScore = Fin 0, cdSimilarity = Fin 0, cdFused = share, cdLexical = share,
           cdBoost = Fin 0\<rparr>], posn(i \<mapsto> length fused))))"

definition fuse_vector :: "nat \<times> match \<Rightarrow> candidate list \<times> (recid \<rightharpoonup> nat) \<Rightarrow> candidate list \<times> (recid \<rightharpoonup> nat)" where
  "fuse_vector = (\<lambda>(n, x) (fused, posn).
     (fused @ [\<lparr>cdID = mtID x, cdScore = Fin 0, cdSimilarity = mtScore x,
        cdFused = contribution (Fin 1) n, cdLexical = Fin 0, cdBoost = Fin 0\<rparr>], posn(mtID x \<mapsto> length fused)))"

definition fuse :: "match list \<Rightarrow> recid list \<Rightarrow> gofloat \<Rightarrow> candidate list" where
  "fuse matches lexical weight =
    map (\<lambda>c. c\<lparr>cdScore := cdFused c\<rparr>)
      (fst (fold (fuse_lexical weight) (enumerate 0 lexical)
        (fold fuse_vector (enumerate 0 matches) ([], Map.empty))))"

section \<open>The filter\<close>

record rfilter =
  flTypes :: "string list"
  flTags :: "string list"

definition Filter_Empty :: "rfilter \<Rightarrow> bool" where
  "Filter_Empty f \<longleftrightarrow> flTypes f = [] \<and> flTags f = []"

record weights =
  wtTag :: gofloat
  wtType :: gofloat

definition DefaultWeights :: weights where
  "DefaultWeights = \<lparr>wtTag = round_f32 (2 / 1000), wtType = round_f32 (67 / 100000)\<rparr>"

definition orDefault :: "weights \<Rightarrow> weights" where
  "orDefault w = (if float_eq (wtTag w) (Fin 0) \<and> float_eq (wtType w) (Fin 0) then DefaultWeights else w)"

record rmeta =
  meKind :: kind
  meType :: string
  meTags :: "string list"

definition normalizeTag :: "text_lib \<Rightarrow> string \<Rightarrow> string" where
  "normalizeTag tx tag = ToLower tx (trim_space tag)"

definition boost :: "text_lib \<Rightarrow> rfilter \<Rightarrow> weights \<Rightarrow> rmeta \<Rightarrow> gofloat" where
  "boost tx f w0 meta =
    (if Filter_Empty f then Fin 0
     else let w = orDefault w0;
       carried = set (map (normalizeTag tx) (meTags meta));
       matched = length (filter (\<lambda>want. normalizeTag tx want \<in> carried) (flTags f));
       total = (if flTags f = [] then Fin 0
          else f32_add (Fin 0) (f32_div (f32_mul (wtTag w) (f32_of_nat matched)) (f32_of_nat (length (flTags f)))))
     in if meType meta \<in> set (flTypes f) then f32_add total (wtType w) else total)"

section \<open>Requests and ranking\<close>

record request =
  rqQuery :: string
  rqMax :: int
  rqScope :: "kind list"
  rqFilter :: rfilter
  rqWeights :: weights
  rqLexicalWeight :: gofloat
  rqWithSuperseded :: bool
  rqCandidates :: int

record known_pool =
  knMeta :: "recid \<rightharpoonup> rmeta"
  knSuperseded :: "recid \<Rightarrow> bool"

record drop_counts =
  dcSuperseded :: nat
  dcOutOfScope :: nat

definition inScope :: "kind list \<Rightarrow> rmeta option \<Rightarrow> bool" where
  "inScope scope meta = (case meta of None \<Rightarrow> False | Some d \<Rightarrow> meKind d \<in> set scope)"

text \<open>The order of the result: the score, best first, and the identity among equals.\<close>

definition cand_less :: "candidate \<Rightarrow> candidate \<Rightarrow> bool" where
  "cand_less a b = (if \<not> float_eq (cdScore a) (cdScore b) then float_lt (cdScore b) (cdScore a)
     else str_lt (ID_String (cdID a)) (ID_String (cdID b)))"

definition rank_step :: "text_lib \<Rightarrow> known_pool \<Rightarrow> request \<Rightarrow> candidate \<Rightarrow> candidate list \<times> drop_counts
    \<Rightarrow> candidate list \<times> drop_counts" where
  "rank_step tx known q c = (\<lambda>(kept, counts).
    (if \<not> rqWithSuperseded q \<and> knSuperseded known (cdID c)
     then (kept, counts\<lparr>dcSuperseded := dcSuperseded counts + 1\<rparr>)
     else if rqScope q \<noteq> [] \<and> \<not> inScope (rqScope q) (knMeta known (cdID c))
     then (kept, counts\<lparr>dcOutOfScope := dcOutOfScope counts + 1\<rparr>)
     else let c' = (case knMeta known (cdID c) of
         Some meta \<Rightarrow> if Filter_Empty (rqFilter q) then c
           else let b = boost tx (rqFilter q) (orDefault (rqWeights q)) meta in
             c\<lparr>cdBoost := b, cdScore := f32_add (cdScore c) b\<rparr>
       | None \<Rightarrow> c)
       in (kept @ [c'], counts)))"

definition rank :: "text_lib \<Rightarrow> candidate list \<Rightarrow> known_pool \<Rightarrow> request \<Rightarrow> nat \<Rightarrow> candidate list \<times> drop_counts" where
  "rank tx fused known q k =
    (case fold (rank_step tx known q) fused ([], \<lparr>dcSuperseded = 0, dcOutOfScope = 0\<rparr>) of
       (kept, counts) \<Rightarrow> (take k (sort_by cand_less kept), counts))"

section \<open>The pipeline\<close>

datatype found = FoundMemory memory | FoundSession session_head | FoundNothing

definition Found_Kind :: "found \<Rightarrow> kind" where
  "Found_Kind f = (case f of FoundMemory _ \<Rightarrow> KindMemory | FoundSession _ \<Rightarrow> KindSession | FoundNothing \<Rightarrow> [])"

definition Found_ID :: "found \<Rightarrow> recid" where
  "Found_ID f = (case f of FoundMemory m \<Rightarrow> mID m | FoundSession s \<Rightarrow> sID s | FoundNothing \<Rightarrow> 0)"

datatype tier = TierLocal | TierCached | TierNetwork

record hit =
  htFound :: found
  htScore :: gofloat
  htSimilarity :: gofloat
  htLexical :: gofloat
  htBoost :: gofloat
  htTier :: tier

record recalled =
  reHits :: "hit list"
  reSearched :: nat
  reConsidered :: nat
  reLexicalHits :: nat
  reSupersededHidden :: nat
  reScopeExcluded :: nat

definition DefaultLimit :: int where "DefaultLimit = 5"
definition DefaultCandidates :: int where "DefaultCandidates = 100"

text \<open>\<open>'w\<close> is the state a fetch may change, in caches and counters of the fetcher.\<close>

record 'w pipeline =
  plEmbed :: "string \<Rightarrow> f32 list res"
  plIndex :: index
  plFetch :: "recid \<Rightarrow> ('w, found \<times> tier) run"
  plCatalog :: "(recid list \<Rightarrow> known_pool res) option"
  plLexical :: "(string \<Rightarrow> int \<Rightarrow> recid list res) option"

definition lexicalWeight :: "request \<Rightarrow> gofloat" where
  "lexicalWeight q =
    (if float_eq (rqLexicalWeight q) (Fin 0) then DefaultLexicalWeight
     else if float_lt (rqLexicalWeight q) (Fin 0) then Fin 0
     else rqLexicalWeight q)"

definition searchLexical :: "'w pipeline \<Rightarrow> string \<Rightarrow> int \<Rightarrow> gofloat \<Rightarrow> recid list res" where
  "searchLexical pl query k weight =
    (case plLexical pl of None \<Rightarrow> Inr []
     | Some search \<Rightarrow> if float_eq weight (Fin 0) then Inr [] else search query k)"

definition recall_describe :: "'w pipeline \<Rightarrow> candidate list \<Rightarrow> known_pool res" where
  "recall_describe pl fused =
    (case plCatalog pl of
       None \<Rightarrow> Inr \<lparr>knMeta = Map.empty, knSuperseded = (\<lambda>_. False)\<rparr>
     | Some describe \<Rightarrow> if fused = [] then Inr \<lparr>knMeta = Map.empty, knSuperseded = (\<lambda>_. False)\<rparr>
         else describe (map cdID fused))"

fun fetch_hits :: "'w pipeline \<Rightarrow> candidate list \<Rightarrow> ('w, hit list) run" where
  "fetch_hits pl [] = prun (sret [])"
| "fetch_hits pl (c # cs) = (\<lambda>s. case plFetch pl (cdID c) s of
     None \<Rightarrow> None
   | Some (Inl e, s') \<Rightarrow> Some (Inl (wrap_err ''recall: '' e), s')
   | Some (Inr (found, tier), s') \<Rightarrow> pbind (fetch_hits pl cs) (\<lambda>hits.
       prun (sret (\<lparr>htFound = found, htScore = cdScore c, htSimilarity = cdSimilarity c, htLexical = cdLexical c,
          htBoost = cdBoost c, htTier = tier\<rparr> # hits))) s')"

definition run_limit :: "request \<Rightarrow> int" where
  "run_limit q = (if rqMax q \<le> 0 then DefaultLimit else rqMax q)"

definition run_pool :: "request \<Rightarrow> int" where
  "run_pool q = max (run_limit q) (if rqCandidates q \<le> 0 then DefaultCandidates else rqCandidates q)"

definition Pipeline_Run :: "text_lib \<Rightarrow> 'w pipeline \<Rightarrow> request \<Rightarrow> ('w, recalled) run" where
  "Pipeline_Run tx pl q =
    (if rqQuery q = [] then prun (sfail (GoErr [] ''recall: empty query''))
     else let weight = lexicalWeight q in
     pbind (prun (slift (plEmbed pl (rqQuery q)))) (\<lambda>vector.
     pbind (prun (slift (Index_Search (plIndex pl) vector (run_pool q)))) (\<lambda>matches.
     pbind (prun (slift (searchLexical pl (rqQuery q) (run_pool q) weight))) (\<lambda>lexical.
     let fused = fuse matches lexical weight in
     pbind (prun (slift (recall_describe pl fused))) (\<lambda>known.
     let (ranked, counts) = rank tx fused known q (nat (run_limit q)) in
     pbind (fetch_hits pl ranked) (\<lambda>hits.
     prun (sret \<lparr>reHits = hits, reSearched = Index_Len (plIndex pl), reConsidered = length fused,
        reLexicalHits = length lexical, reSupersededHidden = dcSuperseded counts,
        reScopeExcluded = dcOutOfScope counts\<rparr>)))))))"
section \<open>What fusion computes\<close>

lemma fuse_lexical_at:
  "fuse_lexical w (n, i) (fused, posn) = (case posn i of
     Some p \<Rightarrow> if float_lt (Fin 0) (cdLexical (fused ! p)) then (fused, posn)
       else (fused[p := (fused ! p)\<lparr>cdLexical := contribution w n, cdFused := f32_add (cdFused (fused ! p)) (contribution w n)\<rparr>], posn)
   | None \<Rightarrow> (fused @ [\<lparr>cdID = i, cdScore = Fin 0, cdSimilarity = Fin 0, cdFused = contribution w n,
       cdLexical = contribution w n, cdBoost = Fin 0\<rparr>], posn(i \<mapsto> length fused)))"
  by (simp add: fuse_lexical_def Let_def)

lemma fuse_vector_at:
  "fuse_vector (n, x) (fused, posn) = (fused @ [\<lparr>cdID = mtID x, cdScore = Fin 0, cdSimilarity = mtScore x,
     cdFused = contribution (Fin 1) n, cdLexical = Fin 0, cdBoost = Fin 0\<rparr>], posn(mtID x \<mapsto> length fused))"
  by (simp add: fuse_vector_def)

text \<open>One record of the fused pool, from the positions the two passes gave it.\<close>

definition pool_entry :: "match list \<Rightarrow> recid list \<Rightarrow> gofloat \<Rightarrow> recid \<Rightarrow> candidate" where
  "pool_entry matches lexical weight i =
    (let share = (case index_of (\<lambda>j. j = i) lexical of None \<Rightarrow> Fin 0 | Some n \<Rightarrow> contribution weight n);
         total = (case index_of (\<lambda>j. j = i) (map mtID matches) of
             None \<Rightarrow> share
           | Some a \<Rightarrow> if i \<in> set lexical then f32_add (contribution (Fin 1) a) share else contribution (Fin 1) a) in
     \<lparr>cdID = i, cdScore = Fin 0,
      cdSimilarity = (case index_of (\<lambda>j. j = i) (map mtID matches) of None \<Rightarrow> Fin 0 | Some a \<Rightarrow> mtScore (matches ! a)),
      cdFused = total, cdLexical = share, cdBoost = Fin 0\<rparr>)"

definition placed :: "candidate list \<Rightarrow> (recid \<rightharpoonup> nat) \<Rightarrow> bool" where
  "placed fused posn \<longleftrightarrow> (\<forall>i p. posn i = Some p \<longleftrightarrow> p < length fused \<and> cdID (fused ! p) = i)"

lemma placedD: "placed fused posn \<Longrightarrow> p < length fused \<Longrightarrow> posn (cdID (fused ! p)) = Some p"
  by (simp add: placed_def)

lemma placed_snoc:
  "placed fused posn \<Longrightarrow> posn (cdID c) = None \<Longrightarrow> placed (fused @ [c]) (posn(cdID c \<mapsto> length fused))"
proof -
  assume placed: "placed fused posn" and none: "posn (cdID c) = None"
  then have "cdID (fused ! p) \<noteq> cdID c" if "p < length fused" for p
    using placedD [OF placed that] none by auto
  then show ?thesis using placed unfolding placed_def by (auto simp: nth_append less_Suc_eq)
qed

lemma placed_None:
  assumes "placed fused posn"
  shows "posn i = None \<longleftrightarrow> i \<notin> cdID ` set fused"
proof (cases "posn i")
  case None
  then have "cdID (fused ! p) \<noteq> i" if "p < length fused" for p using placedD [OF assms that] by auto
  then have "i \<notin> cdID ` set fused" by (metis imageE in_set_conv_nth)
  then show ?thesis using None by simp
next
  case (Some p)
  then have "p < length fused" "cdID (fused ! p) = i" using assms by (auto simp: placed_def)
  then show ?thesis using Some by auto
qed

lemma placed_update: "placed fused posn \<Longrightarrow> p < length fused \<Longrightarrow> cdID c = cdID (fused ! p) \<Longrightarrow> placed (fused[p := c]) posn"
  unfolding placed_def by (auto simp: nth_list_update)

lemma fuse_vectors:
  "distinct (map mtID xs) \<Longrightarrow>
   (case fold fuse_vector (enumerate 0 xs) ([], Map.empty) of (fused, posn) \<Rightarrow>
      fused = map (pool_entry xs [] w) (map mtID xs) \<and> placed fused posn)"
proof (induction xs rule: rev_induct)
  case Nil
  then show ?case by (simp add: placed_def)
next
  case (snoc x xs)
  obtain fused posn where before: "fold fuse_vector (enumerate 0 xs) ([], Map.empty) = (fused, posn)"
    by fastforce
  with snoc have fused: "fused = map (pool_entry xs [] w) (map mtID xs)" and placed: "placed fused posn" by auto
  have fresh: "mtID x \<notin> mtID ` set xs" using snoc.prems by auto
  have old: "pool_entry (xs @ [x]) [] w i = pool_entry xs [] w i" if "i \<in> mtID ` set xs" for i
  proof -
    from that have "index_of (\<lambda>j. j = i) (map mtID xs) \<noteq> None" by (auto simp: index_of_None)
    then obtain a where a: "index_of (\<lambda>j. j = i) (map mtID xs) = Some a" by auto
    then have "a < length xs" by (auto dest: index_of_Some)
    then show ?thesis using a by (simp add: pool_entry_def index_of_snoc nth_append)
  qed
  have none: "index_of (\<lambda>j. j = mtID x) (map mtID xs) = None"
    unfolding index_of_None using fresh by (metis set_map)
  have new: "pool_entry (xs @ [x]) [] w (mtID x) = \<lparr>cdID = mtID x, cdScore = Fin 0, cdSimilarity = mtScore x,
        cdFused = contribution (Fin 1) (length xs), cdLexical = Fin 0, cdBoost = Fin 0\<rparr>"
    by (simp add: pool_entry_def index_of_snoc none)
  have "cdID ` set fused = mtID ` set xs" by (auto simp: fused pool_entry_def Let_def image_image)
  then have "posn (mtID x) = None" using fresh by (simp add: placed_None [OF placed])
  then have "placed (fused @ [pool_entry (xs @ [x]) [] w (mtID x)]) (posn(mtID x \<mapsto> length fused))"
    using placed_snoc [OF placed, of "pool_entry (xs @ [x]) [] w (mtID x)"] by (simp add: new)
  moreover have "map (pool_entry xs [] w) (map mtID xs) = map (pool_entry (xs @ [x]) [] w) (map mtID xs)"
    using old by simp
  ultimately show ?case
    using before by (simp add: enumerate_append_eq fuse_vector_at new [symmetric] fused)
qed
lemma pool_entry_ID [simp]: "cdID (pool_entry xs ls w i) = i"
  by (simp add: pool_entry_def Let_def)

lemma nth_of_ID:
  "distinct ids \<Longrightarrow> fused = map f ids \<Longrightarrow> p < length ids \<Longrightarrow> fused[p := g (ids ! p)] = map (\<lambda>i. if i = ids ! p then g i else f i) ids"
  by (rule nth_equalityI) (auto simp: nth_list_update nth_eq_iff_index_eq)

text \<open>A record of the lexical pass adds to the pool what its best position gives.\<close>

lemma pool_entry_snoc:
  assumes "i \<in> set ls"
  shows "pool_entry xs (ls @ [x]) w i = pool_entry xs ls w i"
proof -
  from assms have "index_of (\<lambda>j. j = i) ls \<noteq> None" by (auto simp: index_of_None)
  then show ?thesis using assms by (auto simp: pool_entry_def index_of_snoc Let_def split: option.splits)
qed

lemma pool_entry_other: "i \<noteq> x \<Longrightarrow> pool_entry xs (ls @ [x]) w i = pool_entry xs ls w i"
  by (auto simp: pool_entry_def index_of_snoc Let_def split: option.splits)

lemma fuse_lexicals:
  assumes "distinct (map mtID xs)"
  shows "\<forall>n < length ls. float_lt (Fin 0) (contribution w n) \<Longrightarrow>
   (case fold (fuse_lexical w) (enumerate 0 ls) (fold fuse_vector (enumerate 0 xs) ([], Map.empty)) of (fused, posn) \<Rightarrow>
      fused = map (pool_entry xs ls w) (distinct_keys (map mtID xs) ls) \<and> placed fused posn)"
proof (induction ls rule: rev_induct)
  case Nil
  then show ?case using fuse_vectors [OF assms] by simp
next
  case (snoc x ls)
  let ?ids = "distinct_keys (map mtID xs) ls"
  have dist: "distinct ?ids" by (rule distinct_distinct_keys [OF assms])
  obtain fused posn where before: "fold (fuse_lexical w) (enumerate 0 ls) (fold fuse_vector (enumerate 0 xs) ([], Map.empty)) = (fused, posn)"
    by fastforce
  with snoc have fused: "fused = map (pool_entry xs ls w) ?ids" and placed: "placed fused posn" by auto
  have ids: "distinct_keys (map mtID xs) (ls @ [x]) = (if x \<in> set ?ids then ?ids else ?ids @ [x])"
    by (simp add: distinct_keys_append)
  have keys: "cdID ` set fused = set ?ids" by (force simp: fused)
  have share: "float_lt (Fin 0) (contribution w (length ls))" using snoc.prems by simp
  show ?case
  proof (cases "posn x")
    case None
    then have new: "x \<notin> set ?ids" using placed_None [OF placed] keys by blast
    have absent: "index_of (\<lambda>j. j = x) ls = None" "index_of (\<lambda>j. j = x) (map mtID xs) = None"
      using new by (auto simp: index_of_None)
    have entry: "pool_entry xs (ls @ [x]) w x = \<lparr>cdID = x, cdScore = Fin 0, cdSimilarity = Fin 0,
        cdFused = contribution w (length ls), cdLexical = contribution w (length ls), cdBoost = Fin 0\<rparr>"
      by (simp add: pool_entry_def index_of_snoc absent Let_def)
    have "map (pool_entry xs (ls @ [x]) w) ?ids = map (pool_entry xs ls w) ?ids"
      using new by (intro map_cong [OF refl] pool_entry_other) auto
    moreover have "placed (fused @ [pool_entry xs (ls @ [x]) w x]) (posn(x \<mapsto> length fused))"
      using placed_snoc [OF placed, of "pool_entry xs (ls @ [x]) w x"] None by simp
    ultimately show ?thesis
      using None new by (simp add: enumerate_append_eq before fuse_lexical_at Let_def ids entry fused)
  next
    case (Some p)
    then have p: "p < length fused" "cdID (fused ! p) = x" using placed by (auto simp: placed_def)
    then have pi: "p < length ?ids" "?ids ! p = x" by (simp_all add: fused)
    then have mem: "x \<in> set ?ids" by (metis nth_mem)
    have at: "fused ! p = pool_entry xs ls w x" using pi by (simp add: fused)
    show ?thesis
    proof (cases "x \<in> set ls")
      case True
      then obtain n where n: "index_of (\<lambda>j. j = x) ls = Some n" by (cases "index_of (\<lambda>j. j = x) ls") (auto simp: index_of_None)
      then have "n < length ls" using index_of_Some [OF n] by simp
      then have "float_lt (Fin 0) (cdLexical (fused ! p))" using snoc.prems at n by (simp add: pool_entry_def Let_def)
      moreover have "map (pool_entry xs (ls @ [x]) w) ?ids = map (pool_entry xs ls w) ?ids"
        using True by (intro map_cong [OF refl]) (metis pool_entry_other pool_entry_snoc)
      ultimately show ?thesis
        using Some mem placed by (simp add: enumerate_append_eq before fuse_lexical_at Let_def ids fused)
    next
      case False
      then have none: "index_of (\<lambda>j. j = x) ls = None" by (auto simp: index_of_None)
      from False mem have "x \<in> mtID ` set xs" by simp
      then have "index_of (\<lambda>j. j = x) (map mtID xs) \<noteq> None" by (auto simp: index_of_None)
      then obtain a where a: "index_of (\<lambda>j. j = x) (map mtID xs) = Some a" by auto
      have new: "(fused ! p)\<lparr>cdLexical := contribution w (length ls),
            cdFused := f32_add (cdFused (fused ! p)) (contribution w (length ls))\<rparr> = pool_entry xs (ls @ [x]) w x"
        using False by (simp add: at pool_entry_def Let_def a none index_of_snoc)
      have "fused[p := pool_entry xs (ls @ [x]) w (?ids ! p)]
          = map (\<lambda>i. if i = ?ids ! p then pool_entry xs (ls @ [x]) w i else pool_entry xs ls w i) ?ids"
        by (rule nth_of_ID [OF dist fused pi(1)])
      also have "\<dots> = map (pool_entry xs (ls @ [x]) w) ?ids"
        by (intro map_cong [OF refl]) (simp add: pi(2) pool_entry_other)
      finally have upd: "fused[p := pool_entry xs (ls @ [x]) w x] = map (pool_entry xs (ls @ [x]) w) ?ids"
        by (simp add: pi(2))
      have "\<not> float_lt (Fin 0) (cdLexical (fused ! p))" by (simp add: at pool_entry_def Let_def none)
      moreover have "placed (fused[p := pool_entry xs (ls @ [x]) w x]) posn"
        by (rule placed_update [OF placed p(1)]) (simp add: p(2))
      ultimately show ?thesis
        using Some mem by (simp add: enumerate_append_eq before fuse_lexical_at Let_def ids new upd)
    qed
  qed
qed

lemma fuse_pool:
  assumes "distinct (map mtID matches)"
    and "\<forall>n < length lexical. float_lt (Fin 0) (contribution weight n)"
  shows "fuse matches lexical weight =
    map (\<lambda>i. let c = pool_entry matches lexical weight i in c\<lparr>cdScore := cdFused c\<rparr>)
      (distinct_keys (map mtID matches) lexical)"
proof -
  obtain fused posn where "fold (fuse_lexical weight) (enumerate 0 lexical) (fold fuse_vector (enumerate 0 matches) ([], Map.empty)) = (fused, posn)"
    by fastforce
  then show ?thesis using fuse_lexicals [OF assms] by (simp add: fuse_def Let_def)
qed

text \<open>C20. The fused pool is the vector ranking followed by the records only the lexical pass found, each once, and a
  record scores the reciprocal of its place in each pass that found it, its best place where a pass repeats it.\<close>

theorem fuse_is_reciprocal_rank:
  assumes "distinct (map mtID matches)"
    and "\<forall>n < length lexical. float_lt (Fin 0) (contribution weight n)"
  shows "fuse matches lexical weight =
    map (\<lambda>i. let c = pool_entry matches lexical weight i in c\<lparr>cdScore := cdFused c\<rparr>)
      (distinct_keys (map mtID matches) lexical)"
  by (rule fuse_pool [OF assms])

theorem fuse_is_reciprocal_rank_witness:
  "map (\<lambda>c. (cdID c, float_lt (Fin 0) (cdLexical c), cdSimilarity c))
     (fuse [\<lparr>mtID = 7, mtScore = Fin 1\<rparr>, \<lparr>mtID = 8, mtScore = Fin 0\<rparr>] [8, 9, 8] DefaultLexicalWeight)
   = [(7, False, Fin 1), (8, True, Fin 0), (9, True, Fin 0)]"
proof -
  have "\<forall>n \<in> set [0 ..< 3]. float_lt (Fin 0) (contribution DefaultLexicalWeight n)" by code_simp
  then have pos: "\<forall>n < length [8, 9, 8 :: recid]. float_lt (Fin 0) (contribution DefaultLexicalWeight n)" by simp
  have c: "float_lt (Fin 0) (contribution DefaultLexicalWeight 0)" "float_lt (Fin 0) (contribution DefaultLexicalWeight 1)"
    using pos by simp_all
  show ?thesis
    by (subst fuse_is_reciprocal_rank [OF _ pos]) (use c in \<open>simp_all add: pool_entry_def Let_def\<close>)
qed
section \<open>What ranking keeps, and its order\<close>

text \<open>Who takes part, which no filter decides, and the record with its boost.\<close>

definition current :: "known_pool \<Rightarrow> request \<Rightarrow> recid \<Rightarrow> bool" where
  "current known q i \<longleftrightarrow> rqWithSuperseded q \<or> \<not> knSuperseded known i"

definition in_scope :: "known_pool \<Rightarrow> request \<Rightarrow> recid \<Rightarrow> bool" where
  "in_scope known q i \<longleftrightarrow> rqScope q = [] \<or> inScope (rqScope q) (knMeta known i)"

definition boosted :: "text_lib \<Rightarrow> known_pool \<Rightarrow> request \<Rightarrow> candidate \<Rightarrow> candidate" where
  "boosted tx known q c = (case knMeta known (cdID c) of
     Some meta \<Rightarrow> if Filter_Empty (rqFilter q) then c
       else let b = boost tx (rqFilter q) (orDefault (rqWeights q)) meta in
         c\<lparr>cdBoost := b, cdScore := f32_add (cdScore c) b\<rparr>
   | None \<Rightarrow> c)"

lemma boosted_ID [simp]: "cdID (boosted tx known q c) = cdID c"
  by (simp add: boosted_def Let_def split: option.splits)

lemma rank_steps:
  "fold (rank_step tx known q) cs (kept, counts) =
    (kept @ map (boosted tx known q) (filter (\<lambda>c. current known q (cdID c) \<and> in_scope known q (cdID c)) cs),
     counts\<lparr>dcSuperseded := dcSuperseded counts + length (filter (\<lambda>c. \<not> current known q (cdID c)) cs),
       dcOutOfScope := dcOutOfScope counts
         + length (filter (\<lambda>c. current known q (cdID c) \<and> \<not> in_scope known q (cdID c)) cs)\<rparr>)"
proof (induction cs arbitrary: kept counts)
  case Nil
  then show ?case by simp
next
  case (Cons c cs)
  have "rank_step tx known q c (kept, counts) =
      (if \<not> current known q (cdID c) then (kept, counts\<lparr>dcSuperseded := dcSuperseded counts + 1\<rparr>)
       else if \<not> in_scope known q (cdID c) then (kept, counts\<lparr>dcOutOfScope := dcOutOfScope counts + 1\<rparr>)
       else (kept @ [boosted tx known q c], counts))"
    by (auto simp: rank_step_def current_def in_scope_def boosted_def Let_def)
  then show ?case by (simp add: Cons.IH)
qed

definition ranked_pool :: "text_lib \<Rightarrow> known_pool \<Rightarrow> request \<Rightarrow> candidate list \<Rightarrow> candidate list" where
  "ranked_pool tx known q fused = sort_by cand_less
     (map (boosted tx known q) (filter (\<lambda>c. current known q (cdID c) \<and> in_scope known q (cdID c)) fused))"

lemma rank_pool:
  "rank tx fused known q k = (take k (ranked_pool tx known q fused),
     \<lparr>dcSuperseded = length (filter (\<lambda>c. \<not> current known q (cdID c)) fused),
      dcOutOfScope = length (filter (\<lambda>c. current known q (cdID c) \<and> \<not> in_scope known q (cdID c)) fused)\<rparr>)"
  by (simp add: rank_def rank_steps ranked_pool_def)

text \<open>Scores that compare: no sum over not negative weights is a NaN.\<close>

definition nonneg :: "gofloat \<Rightarrow> bool" where
  "nonneg x \<longleftrightarrow> (case x of Fin a \<Rightarrow> 0 \<le> a | PInf \<Rightarrow> True | _ \<Rightarrow> False)"

lemma pow2_pos: "0 < pow2 k"
  by (simp add: pow2_def)

lemma round_even_nonneg: "0 \<le> r \<Longrightarrow> 0 \<le> round_even r"
  by (simp add: round_even_def Let_def)

lemma round_f32_nonneg: "0 \<le> x \<Longrightarrow> nonneg (round_f32 x)"
proof (cases "x = 0")
  case False
  assume "0 \<le> x"
  then have x: "0 < x" using False by simp
  define q where "q = pow2 (max (ilog2 \<bar>x\<bar>) (- 126) - 23)"
  have "0 < q" by (simp add: q_def pow2_pos)
  moreover from this x have "0 \<le> round_even (x / q)" by (intro round_even_nonneg) simp
  ultimately have "0 \<le> of_int (round_even (x / q)) * q" by simp
  then show ?thesis using x by (simp add: round_f32_def Let_def nonneg_def q_def)
qed (simp add: round_f32_def nonneg_def)

lemma nonneg_add: "nonneg a \<Longrightarrow> nonneg b \<Longrightarrow> nonneg (f32_add a b)"
  by (cases a; cases b) (auto simp: nonneg_def round_f32_nonneg [unfolded nonneg_def])

lemma nonneg_div: "nonneg a \<Longrightarrow> 0 < b \<Longrightarrow> nonneg (f32_div a (Fin b))"
  by (cases a) (auto simp: nonneg_def f32_div_def round_f32_nonneg [unfolded nonneg_def])

lemma nonneg_mul: "0 \<le> a \<Longrightarrow> 0 \<le> b \<Longrightarrow> nonneg (f32_mul (Fin a) (Fin b))"
  by (simp add: f32_mul_def round_f32_nonneg)

lemma nonneg_not_NaN: "nonneg a \<Longrightarrow> a \<noteq> NaN"
  by (cases a) (auto simp: nonneg_def)

lemma cand_less_key:
  assumes "cdScore a \<noteq> NaN" "cdScore b \<noteq> NaN"
  shows "cand_less a b \<longleftrightarrow> float_key (cdScore a) > float_key (cdScore b)
     \<or> float_key (cdScore a) = float_key (cdScore b) \<and> ID_String (cdID a) < ID_String (cdID b)"
proof -
  have "float_lt (cdScore a) (cdScore a) = False" by simp
  then show ?thesis using assms float_lt_key [OF assms(2,1)] by (auto simp: cand_less_def float_eq_def str_lt_less)
qed
text \<open>Rounding keeps a value of one or more positive.\<close>

lemma pow2_powi: "pow2 k = 2 powi k"
  by (simp add: pow2_def power_int_def field_simps)

lemma ilog2_le:
  assumes "0 < x"
  shows "pow2 (ilog2 x) \<le> x"
proof -
  obtain p q where pq: "quotient_of x = (p, q)" by fastforce
  have q: "0 < q" and x: "x = of_int p / of_int q"
    using quotient_of_denom_pos [OF pq] quotient_of_div [OF pq] by simp_all
  have p: "0 < p" using assms q by (simp add: x zero_less_divide_iff)
  have "2 ^ nat (bitlen p - 1) \<le> p" using bitlen_bounds [OF p] by simp
  then have lo: "(2 :: rat) ^ nat (bitlen p - 1) \<le> of_int p"
    by (metis of_int_le_iff of_int_numeral of_int_power)
  have "q < 2 ^ nat (bitlen q)" using bitlen_bounds [OF q] by simp
  then have hi: "of_int q < (2 :: rat) ^ nat (bitlen q)"
    by (metis of_int_less_iff of_int_numeral of_int_power)
  have pos: "0 < bitlen p" "0 < bitlen q" 
    using p q bitlen_nonneg [of p] bitlen_nonneg [of q] bitlen_eq_zero_iff [of p] bitlen_eq_zero_iff [of q]
    by linarith+
  have "(2 :: rat) powi (bitlen p - bitlen q - 1) = 2 ^ nat (bitlen p - 1) / 2 ^ nat (bitlen q)"
  proof -
    have "bitlen p - bitlen q - 1 = (bitlen p - 1) - bitlen q" by simp
    then have "(2 :: rat) powi (bitlen p - bitlen q - 1) = 2 powi (bitlen p - 1) / 2 powi (bitlen q)"
      by (metis power_int_diff zero_neq_numeral)
    then show ?thesis using pos by (simp add: power_int_def)
  qed
  also have "\<dots> \<le> x" unfolding x using lo hi p q by (intro frac_le) auto
  finally show ?thesis by (auto simp: ilog2_def pq Let_def pow2_powi)
qed

lemma round_f32_pos:
  assumes "1 \<le> x"
  shows "float_lt (Fin 0) (round_f32 x)"
proof -
  define e where "e = max (ilog2 x) (- 126)"
  have x: "0 < x" using assms by simp
  have "pow2 (- 126) \<le> 1" by (simp add: pow2_def)
  then have "pow2 e \<le> x" using ilog2_le [OF x] assms by (auto simp: e_def max_def)
  moreover have q: "0 < pow2 (e - 23)" by (rule pow2_pos)
  moreover have "pow2 e = pow2 (e - 23) * 2 ^ 23"
    by (simp add: pow2_powi power_int_diff)
  ultimately have "2 ^ 23 \<le> x / pow2 (e - 23)" by (simp add: field_simps)
  then have "2 ^ 23 \<le> \<lfloor>x / pow2 (e - 23)\<rfloor>" by (simp add: le_floor_iff)
  then have "0 < round_even (x / pow2 (e - 23))" by (simp add: round_even_def Let_def)
  then have "0 < of_int (round_even (x / pow2 (e - 23))) * pow2 (e - 23)" using q by simp
  then show ?thesis using x by (simp add: round_f32_def Let_def e_def [symmetric])
qed
lemma round_f32_finite:
  assumes "1 \<le> x" "x < 2 ^ 100"
  shows "\<exists>b. round_f32 x = Fin b"
proof -
  define e where "e = max (ilog2 x) (- 126)"
  define r where "r = round_even (x / pow2 (e - 23))"
  have x: "0 < x" using assms by simp
  have q: "0 < pow2 (e - 23)" by (rule pow2_pos)
  have "pow2 (- 126) \<le> 1" by (simp add: pow2_def)
  then have "pow2 e \<le> x" using ilog2_le [OF x] assms by (auto simp: e_def max_def)
  moreover have "pow2 e = pow2 (e - 23) * 2 ^ 23" by (simp add: pow2_powi power_int_diff)
  ultimately have step: "pow2 (e - 23) \<le> x" using q by (simp add: field_simps)
  have "round_even y \<le> \<lfloor>y\<rfloor> + 1" for y by (simp add: round_even_def Let_def)
  then have "of_int r \<le> (of_int (\<lfloor>x / pow2 (e - 23)\<rfloor> + 1) :: rat)" unfolding r_def of_int_le_iff by blast
  also have "\<dots> \<le> x / pow2 (e - 23) + 1" by simp
  finally have "of_int r \<le> x / pow2 (e - 23) + 1" .
  then have "of_int r * pow2 (e - 23) \<le> x + pow2 (e - 23)" using q by (simp add: field_simps)
  also have "\<dots> < 2 ^ 128" using step assms(2) by simp
  finally have "of_int r * pow2 (e - 23) < pow2 128" by (simp add: pow2_def)
  moreover have "0 \<le> r" unfolding r_def using x q by (intro round_even_nonneg) simp
  ultimately show ?thesis using x q by (simp add: round_f32_def Let_def e_def [symmetric] r_def [symmetric])
qed

lemma nonneg_of_nat: "nonneg (f32_of_nat n)" "0 < n \<Longrightarrow> float_lt (Fin 0) (f32_of_nat n)"
  by (simp_all add: f32_of_nat_def round_f32_nonneg round_f32_pos)

lemma nonneg_quotient: "nonneg a \<Longrightarrow> float_lt (Fin 0) b \<Longrightarrow> a \<noteq> PInf \<Longrightarrow> nonneg (f32_div a b)"
  by (cases a; cases b) (auto simp: nonneg_def f32_div_def round_f32_nonneg [unfolded nonneg_def])

lemma contribution_nonneg:
  assumes "0 \<le> w"
  shows "nonneg (contribution (Fin w) n)"
proof -
  have "float_lt (Fin 0) (f32_add RRFk (f32_of_nat (n + 1)))"
  proof (cases "f32_of_nat (n + 1)")
    case (Fin a)
    then have "0 \<le> a" using nonneg_of_nat(1) [of "n + 1"] by (simp add: nonneg_def)
    then show ?thesis using Fin by (simp add: RRFk_def round_f32_pos)
  qed (use nonneg_of_nat(1) [of "n + 1"] in \<open>simp_all add: RRFk_def nonneg_def\<close>)
  then show ?thesis unfolding contribution_def by (rule nonneg_quotient [rotated]) (simp_all add: nonneg_def assms)
qed

lemma fuse_pool_scores:
  assumes "distinct (map mtID matches)" "0 \<le> w"
    and "\<forall>n < length lexical. float_lt (Fin 0) (contribution (Fin w) n)"
  shows "\<forall>c \<in> set (fuse matches lexical (Fin w)). nonneg (cdScore c)"
    and "distinct (map cdID (fuse matches lexical (Fin w)))"
proof -
  have one: "nonneg (contribution (Fin 1) n)" for n by (rule contribution_nonneg) simp
  have share: "nonneg (contribution (Fin w) n)" for n by (rule contribution_nonneg [OF assms(2)])
  have "nonneg (cdFused (pool_entry matches lexical (Fin w) i))" for i
    using nonneg_add [OF one share] one share
    by (auto simp: pool_entry_def Let_def nonneg_def [of "Fin 0"] index_of_None split: option.splits)
  then show "\<forall>c \<in> set (fuse matches lexical (Fin w)). nonneg (cdScore c)"
    by (auto simp: fuse_pool [OF assms(1,3)] Let_def)
  show "distinct (map cdID (fuse matches lexical (Fin w)))"
    by (simp add: fuse_pool [OF assms(1,3)] Let_def comp_def distinct_distinct_keys [OF assms(1)])
qed

text \<open>Weights a caller may give: finite and not negative.\<close>

definition fair_weights :: "request \<Rightarrow> bool" where
  "fair_weights q \<longleftrightarrow> (\<exists>a b. orDefault (rqWeights q) = \<lparr>wtTag = Fin a, wtType = Fin b\<rparr> \<and> 0 \<le> a \<and> 0 \<le> b)
     \<and> length (flTags (rqFilter q)) < 2 ^ 24"

lemma f32_of_nat_small: "n < 2 ^ 24 \<Longrightarrow> \<exists>b \<ge> 0. f32_of_nat n = Fin b"
proof (cases "n = 0")
  case False
  assume n: "n < 2 ^ 24"
  have "(of_nat n :: rat) < of_nat (2 ^ 24)" using n by (rule of_nat_less_iff [THEN iffD2])
  then have "\<exists>b. f32_of_nat n = Fin b"
    unfolding f32_of_nat_def using False by (intro round_f32_finite) simp_all
  then show ?thesis using nonneg_of_nat(1) [of n] by (auto simp: nonneg_def)
qed (simp add: f32_of_nat_def round_f32_def)

lemma boost_nonneg:
  assumes "fair_weights q"
  shows "nonneg (boost tx (rqFilter q) (orDefault (rqWeights q)) meta)"
proof -
  obtain a b where w: "orDefault (rqWeights q) = \<lparr>wtTag = Fin a, wtType = Fin b\<rparr>" "0 \<le> a" "0 \<le> b"
    and small: "length (flTags (rqFilter q)) < 2 ^ 24"
    using assms by (auto simp: fair_weights_def)
  have same: "orDefault (orDefault v) = orDefault v" for v
    by (auto simp: orDefault_def)
  have n0: "nonneg (Fin 0)" "nonneg (Fin b)" using w by (simp_all add: nonneg_def)
  have quot: "nonneg (f32_div (f32_mul (Fin a) (f32_of_nat m)) (f32_of_nat n))" if "0 < n" "m \<le> n" "n < 2 ^ 24" for m n
  proof -
    obtain c where c: "f32_of_nat m = Fin c" "0 \<le> c" using f32_of_nat_small [of m] \<open>m \<le> n\<close> \<open>n < 2 ^ 24\<close> by auto
    obtain d where d: "f32_of_nat n = Fin d" "0 < d"
      using f32_of_nat_small [OF \<open>n < 2 ^ 24\<close>] nonneg_of_nat(2) [OF \<open>0 < n\<close>] by auto
    show ?thesis unfolding c d by (rule nonneg_div [OF nonneg_mul [OF w(2) c(2)] d(2)])
  qed
  have some: "nonneg (f32_div (f32_mul (Fin a) (f32_of_nat (length (filter P (flTags (rqFilter q))))))
      (f32_of_nat (length (flTags (rqFilter q)))))" if "flTags (rqFilter q) \<noteq> []" for P
    using quot [OF _ length_filter_le small] that by simp
  have again: "orDefault \<lparr>wtTag = Fin a, wtType = Fin b\<rparr> = \<lparr>wtTag = Fin a, wtType = Fin b\<rparr>"
    using same [of "rqWeights q"] by (simp only: w(1))
  show ?thesis
    unfolding boost_def w(1) again Let_def using some n0 nonneg_add by (simp del: f32_add.simps)
qed

section \<open>The promise of ranking\<close>

definition score_less :: "candidate \<Rightarrow> candidate \<Rightarrow> bool" where
  "score_less a b \<longleftrightarrow> float_key (cdScore a) > float_key (cdScore b)
     \<or> float_key (cdScore a) = float_key (cdScore b) \<and> ID_String (cdID a) < ID_String (cdID b)"

lemma weak_order_score: "weak_order score_less"
  unfolding score_less_def [abs_def] by (rule weak_order_lex(1) [OF weak_order_key(1)])

lemma score_less_total: "cdID a \<noteq> cdID b \<Longrightarrow> score_less a b \<or> score_less b a"
  using neq_iff [of "ID_String (cdID a)" "ID_String (cdID b)"]
  by (auto simp: score_less_def)

lemma ranked_pool_sorted:
  assumes "\<forall>c \<in> set fused. nonneg (cdScore c)" "distinct (map cdID fused)" "fair_weights q"
  shows "sorted_wrt score_less (ranked_pool tx known q fused)"
    and "a \<in> set (ranked_pool tx known q fused) \<Longrightarrow> b \<in> set (ranked_pool tx known q fused) \<Longrightarrow> cand_less a b = score_less a b"
proof -
  let ?kept = "map (boosted tx known q) (filter (\<lambda>c. current known q (cdID c) \<and> in_scope known q (cdID c)) fused)"
  have "nonneg (cdScore (boosted tx known q c))" if "c \<in> set fused" for c
    using assms(1) that boost_nonneg [OF assms(3)] by (auto simp: boosted_def Let_def intro: nonneg_add split: option.splits)
  then have num: "cdScore c \<noteq> NaN" if "c \<in> set ?kept" for c
    using that by (auto dest: nonneg_not_NaN)
  have agree: "cand_less a b = score_less a b" if "a \<in> set ?kept" "b \<in> set ?kept" for a b
    unfolding score_less_def by (rule cand_less_key [OF num [OF that(1)] num [OF that(2)]])
  have pool: "ranked_pool tx known q fused = sort_by score_less ?kept"
    unfolding ranked_pool_def by (rule sort_by_cong [OF agree])
  have "distinct (map cdID ?kept)" using assms(2) by (simp add: comp_def distinct_map_filter)
  then have dist: "distinct (map cdID (sort_by score_less ?kept))" by simp
  have "sorted_wrt (\<lambda>a b. \<not> score_less b a) (sort_by score_less ?kept)"
    by (rule sorted_sort_by [OF weak_order_score])
  then show "sorted_wrt score_less (ranked_pool tx known q fused)"
    unfolding pool by (rule strictly_sorted [OF weak_order_score dist _ score_less_total])
  show "a \<in> set (ranked_pool tx known q fused) \<Longrightarrow> b \<in> set (ranked_pool tx known q fused) \<Longrightarrow> cand_less a b = score_less a b"
    using agree by (simp only: ranked_pool_def set_sort_by)
qed
lemma mset_ranked_pool:
  "set (ranked_pool tx known q fused)
     = boosted tx known q ` {c \<in> set fused. current known q (cdID c) \<and> in_scope known q (cdID c)}"
  "length (ranked_pool tx known q fused) = length (filter (\<lambda>c. current known q (cdID c) \<and> in_scope known q (cdID c)) fused)"
  by (auto simp: ranked_pool_def)

lemma count_split:
  "length (filter (\<lambda>c. \<not> P c) xs) + length (filter (\<lambda>c. P c \<and> \<not> Q c) xs) + length (filter (\<lambda>c. P c \<and> Q c) xs) = length xs"
  by (induction xs) auto

text \<open>C21. Ranking keeps every candidate that is current and in scope, whatever the filter asks: it returns as many of them as it
  may, the best first, none left out being better than one returned, and the rest are counted by the reason that dropped them.\<close>

theorem rank_keeps_all:
  assumes "\<forall>c \<in> set fused. nonneg (cdScore c)" "distinct (map cdID fused)" "fair_weights q"
    and "rank tx fused known q k = (out, counts)"
  defines "eligible \<equiv> {c \<in> set fused. current known q (cdID c) \<and> in_scope known q (cdID c)}"
  shows "length out = min k (card eligible) \<and> sorted_wrt cand_less out
    \<and> set out \<subseteq> boosted tx known q ` eligible
    \<and> (\<forall>c \<in> boosted tx known q ` eligible. c \<notin> set out \<longrightarrow> (\<forall>d \<in> set out. cand_less d c))
    \<and> dcSuperseded counts + dcOutOfScope counts + card eligible = length fused"
proof (intro conjI)
  let ?all = "ranked_pool tx known q fused"
  have out: "out = take k ?all" using assms(4) by (simp add: rank_pool)
  have set: "set ?all = boosted tx known q ` eligible" by (simp add: mset_ranked_pool eligible_def)
  note sorted = ranked_pool_sorted(1) [OF assms(1-3), of tx known]
  note agree = ranked_pool_sorted(2) [OF assms(1-3), of _ tx known]
  have "distinct fused" using assms(2) by (simp add: distinct_map)
  then have card: "card eligible = length (filter (\<lambda>c. current known q (cdID c) \<and> in_scope known q (cdID c)) fused)"
    unfolding eligible_def by (simp add: distinct_card [symmetric])
  show "length out = min k (card eligible)" by (simp add: out mset_ranked_pool card min.commute)
  show "sorted_wrt cand_less out"
  proof (rule sorted_wrt_mono_rel)
    show "sorted_wrt score_less out" unfolding out by (rule sorted_wrt_take [OF sorted])
    have "a \<in> set ?all" if "a \<in> set out" for a using that unfolding out by (rule in_set_takeD)
    then show "cand_less a b" if "a \<in> set out" "b \<in> set out" "score_less a b" for a b
      using that agree by blast
  qed
  show "set out \<subseteq> boosted tx known q ` eligible" using set by (auto simp: out dest: in_set_takeD)
  show "\<forall>c \<in> boosted tx known q ` eligible. c \<notin> set out \<longrightarrow> (\<forall>d \<in> set out. cand_less d c)"
  proof (intro ballI impI)
    fix c d assume c: "c \<in> boosted tx known q ` eligible" "c \<notin> set out" and d: "d \<in> set out"
    have "sorted_wrt score_less (take k ?all @ drop k ?all)" using sorted by simp
    moreover have cd: "c \<in> set ?all" "d \<in> set ?all" using c(1) set d by (auto simp: out dest: in_set_takeD)
    then have "c \<in> set (drop k ?all)" using c(2) by (metis Un_iff append_take_drop_id out set_append)
    ultimately have "score_less d c" using d by (simp add: sorted_wrt_append out del: append_take_drop_id)
    then show "cand_less d c" by (simp add: agree cd)
  qed
  show "dcSuperseded counts + dcOutOfScope counts + card eligible = length fused"
    using assms(4) count_split [where P = "\<lambda>c. current known q (cdID c)" and Q = "\<lambda>c. in_scope known q (cdID c)" and xs = fused]
    by (auto simp: rank_pool card)
qed
section \<open>The promise of a recall\<close>

definition fetched :: "'w pipeline \<Rightarrow> recid \<Rightarrow> hit \<Rightarrow> bool" where
  "fetched pl i h \<longleftrightarrow> (\<exists>s1 s2. plFetch pl i s1 = Some (Inr (htFound h, htTier h), s2))"

lemma fetch_hits_all:
  "fetch_hits pl cs s = Some (Inr hits, s') \<Longrightarrow> list_all2 (\<lambda>c h. fetched pl (cdID c) h \<and> htScore h = cdScore c) cs hits"
proof (induction cs arbitrary: s hits)
  case Nil
  then show ?case by (simp add: step_defs)
next
  case (Cons c cs)
  obtain r s1 where one: "plFetch pl (cdID c) s = Some (r, s1)"
    using Cons.prems by (auto split: option.splits)
  obtain found tier where r: "r = Inr (found, tier)"
    using Cons.prems one by (cases r) auto
  obtain rest where rest: "fetch_hits pl cs s1 = Some (Inr rest, s')"
    and hits: "hits = \<lparr>htFound = found, htScore = cdScore c, htSimilarity = cdSimilarity c, htLexical = cdLexical c,
          htBoost = cdBoost c, htTier = tier\<rparr> # rest"
    using Cons.prems one r by (auto simp: pbind_Inr_iff step_defs)
  have "plFetch pl (cdID c) s = Some (Inr (htFound (hd hits), htTier (hd hits)), s1)" by (simp add: one r hits)
  then have "fetched pl (cdID c) (hd hits)" unfolding fetched_def by blast
  then show ?case using Cons.IH [OF rest] by (simp add: hits)
qed

text \<open>One record that cannot be fetched fails the recall.\<close>

lemma fetch_hits_fails:
  assumes "c \<in> set cs" "\<forall>s. \<exists>e s'. plFetch pl (cdID c) s = Some (Inl e, s')"
    and "\<forall>d \<in> set cs. \<forall>s. plFetch pl (cdID d) s \<noteq> None"
  shows "\<exists>e s'. fetch_hits pl cs s = Some (Inl e, s')"
  using assms(1,3)
proof (induction cs arbitrary: s)
  case Nil
  then show ?case by simp
next
  case (Cons d cs)
  have "plFetch pl (cdID d) s \<noteq> None" using Cons.prems(2) by simp
  then obtain y where "plFetch pl (cdID d) s = Some y" by blast
  then obtain r s1 where one: "plFetch pl (cdID d) s = Some (r, s1)" by (cases y) simp
  show ?case
  proof (cases r)
    case (Inl e)
    then show ?thesis using one by simp
  next
    case (Inr x)
    then have "d \<noteq> c" using assms(2) one by (metis Inl_Inr_False option.inject prod.inject)
    then obtain e s' where "fetch_hits pl cs s1 = Some (Inl e, s')" using Cons.IH [of s1] Cons.prems by auto
    then show ?thesis using one Inr by (cases x) (simp add: pbind_def)
  qed
qed

lemma Pipeline_Run_stages:
  assumes "Pipeline_Run tx pl q s = Some (Inr r, s')"
  obtains vector matches lexical known ranked counts where "rqQuery q \<noteq> []"
    "plEmbed pl (rqQuery q) = Inr vector" "Index_Search (plIndex pl) vector (run_pool q) = Inr matches"
    "searchLexical pl (rqQuery q) (run_pool q) (lexicalWeight q) = Inr lexical"
    "recall_describe pl (fuse matches lexical (lexicalWeight q)) = Inr known"
    "rank tx (fuse matches lexical (lexicalWeight q)) known q (nat (run_limit q)) = (ranked, counts)"
    "fetch_hits pl ranked s = Some (Inr (reHits r), s')"
    "reConsidered r = length (fuse matches lexical (lexicalWeight q))"
    "reSupersededHidden r = dcSuperseded counts" "reScopeExcluded r = dcOutOfScope counts"
proof -
  have "rqQuery q \<noteq> []" using assms by (auto simp: Pipeline_Run_def prun_def step_defs split: if_splits)
  with assms obtain vector matches lexical known where stages:
    "plEmbed pl (rqQuery q) = Inr vector" "Index_Search (plIndex pl) vector (run_pool q) = Inr matches"
    "searchLexical pl (rqQuery q) (run_pool q) (lexicalWeight q) = Inr lexical"
    "recall_describe pl (fuse matches lexical (lexicalWeight q)) = Inr known"
    unfolding Pipeline_Run_def Let_def by (auto simp: pbind_Inr_iff step_defs)
  obtain ranked counts where "rank tx (fuse matches lexical (lexicalWeight q)) known q (nat (run_limit q)) = (ranked, counts)"
    by fastforce
  then show thesis
    using assms stages \<open>rqQuery q \<noteq> []\<close> unfolding Pipeline_Run_def Let_def
    by (auto simp: pbind_Inr_iff step_defs intro: that)
qed

text \<open>A recall that answers holds back nothing but replaced and out of scope records: it returns as many of the others as asked
  for, each fetched by its own identity, and never one the catalog calls replaced (unless asked) or of another class.\<close>

lemma Pipeline_Run_answers:
  assumes "Pipeline_Run tx pl q s = Some (Inr r, s')"
  shows "length (reHits r) + reSupersededHidden r + reScopeExcluded r \<le> reConsidered r
    \<and> length (reHits r) = min (nat (run_limit q)) (reConsidered r - reSupersededHidden r - reScopeExcluded r)
    \<and> (\<exists>pool known ids. recall_describe pl pool = Inr known \<and> set ids \<subseteq> cdID ` set pool
        \<and> list_all2 (fetched pl) ids (reHits r)
        \<and> (\<forall>i \<in> set ids. current known q i \<and> in_scope known q i))"
proof -
  from Pipeline_Run_stages [OF assms] obtain pool known ranked counts where
    pool: "recall_describe pl pool = Inr known" "rank tx pool known q (nat (run_limit q)) = (ranked, counts)"
    and hits: "fetch_hits pl ranked s = Some (Inr (reHits r), s')"
    and counts: "reConsidered r = length pool" "reSupersededHidden r = dcSuperseded counts" "reScopeExcluded r = dcOutOfScope counts"
    by metis
  have ranked: "ranked = take (nat (run_limit q)) (ranked_pool tx known q pool)" using pool(2) by (simp add: rank_pool)
  have all: "list_all2 (\<lambda>c h. fetched pl (cdID c) h \<and> htScore h = cdScore c) ranked (reHits r)"
    by (rule fetch_hits_all [OF hits])
  then have len: "length (reHits r) = length ranked" by (simp add: list_all2_lengthD)
  have split: "reSupersededHidden r + reScopeExcluded r + length (ranked_pool tx known q pool) = reConsidered r"
    using pool(2) count_split [where P = "\<lambda>c. current known q (cdID c)" and Q = "\<lambda>c. in_scope known q (cdID c)" and xs = pool]
    by (auto simp: rank_pool counts mset_ranked_pool)
  have ids: "list_all2 (fetched pl) (map cdID ranked) (reHits r)"
    using all by (auto simp: list_all2_map1 elim: list_all2_mono)
  have "set ranked \<subseteq> boosted tx known q ` {c \<in> set pool. current known q (cdID c) \<and> in_scope known q (cdID c)}"
    unfolding ranked mset_ranked_pool(1) [symmetric] by (rule set_take_subset)
  then have "\<forall>i \<in> set (map cdID ranked). i \<in> cdID ` set pool \<and> current known q i \<and> in_scope known q i" by force
  then have "recall_describe pl pool = Inr known \<and> set (map cdID ranked) \<subseteq> cdID ` set pool
        \<and> list_all2 (fetched pl) (map cdID ranked) (reHits r)
        \<and> (\<forall>i \<in> set (map cdID ranked). current known q i \<and> in_scope known q i)"
    using pool(1) ids by blast
  note ids = this
  have len: "length (reHits r) = min (nat (run_limit q)) (length (ranked_pool tx known q pool))"
    using len by (simp add: ranked min.commute)
  show ?thesis
  proof (intro conjI)
    show "length (reHits r) + reSupersededHidden r + reScopeExcluded r \<le> reConsidered r"
      using split len by linarith
    have "length (ranked_pool tx known q pool) = reConsidered r - reSupersededHidden r - reScopeExcluded r"
      using split by linarith
    then show "length (reHits r) = min (nat (run_limit q)) (reConsidered r - reSupersededHidden r - reScopeExcluded r)"
      by (simp only: len)
    show "\<exists>pool known ids. recall_describe pl pool = Inr known \<and> set ids \<subseteq> cdID ` set pool
        \<and> list_all2 (fetched pl) ids (reHits r) \<and> (\<forall>i \<in> set ids. current known q i \<and> in_scope known q i)"
      using ids by (intro exI)
  qed
qed
definition demo_request :: request where
  "demo_request = \<lparr>rqQuery = ''q'', rqMax = 0, rqScope = [], rqFilter = \<lparr>flTypes = [], flTags = [''go'']\<rparr>,
     rqWeights = \<lparr>wtTag = Fin 1, wtType = Fin 1\<rparr>, rqLexicalWeight = Fin 0, rqWithSuperseded = False, rqCandidates = 0\<rparr>"

definition demo_pool :: "candidate list" where
  "demo_pool = map (\<lambda>i. \<lparr>cdID = i, cdScore = Fin 1, cdSimilarity = Fin 0, cdFused = Fin 1, cdLexical = Fin 0, cdBoost = Fin 0\<rparr>) [7, 8]"

definition demo_known :: known_pool where
  "demo_known = \<lparr>knMeta = [8 \<mapsto> \<lparr>meKind = KindMemory, meType = ''fact'', meTags = [''Go'']\<rparr>], knSuperseded = (\<lambda>i. i = 7)\<rparr>"

theorem rank_keeps_all_witness:
  "length (fst (rank demo_text demo_pool demo_known demo_request 1)) = 1
    \<and> dcSuperseded (snd (rank demo_text demo_pool demo_known demo_request 1))
      + dcOutOfScope (snd (rank demo_text demo_pool demo_known demo_request 1)) = 1"
proof -
  let ?r = "rank demo_text demo_pool demo_known demo_request 1"
  have fair: "fair_weights demo_request"
    by (simp add: fair_weights_def demo_request_def orDefault_def float_eq_def)
  have elig: "{c \<in> set demo_pool. current demo_known demo_request (cdID c) \<and> in_scope demo_known demo_request (cdID c)} = {demo_pool ! 1}"
    by (auto simp: demo_pool_def demo_known_def demo_request_def current_def in_scope_def)
  have "\<forall>c \<in> set demo_pool. nonneg (cdScore c)" "distinct (map cdID demo_pool)"
    by (simp_all add: demo_pool_def nonneg_def)
  from rank_keeps_all [OF this fair, of demo_text demo_known 1 "fst ?r" "snd ?r"] show ?thesis
    by (simp add: elig) (simp add: demo_pool_def)
qed

definition demo_pipeline :: "unit pipeline" where
  "demo_pipeline = \<lparr>plEmbed = (\<lambda>_. Inr [0x3F800000]),
     plIndex = \<lparr>ixDim = 1, ixModel = ''m'', ixIDs = [7], ixVectors = [0x3F800000], ixAt = [7 \<mapsto> 0]\<rparr>,
     plFetch = (\<lambda>i s. Some (Inr (FoundNothing, TierLocal), s)), plCatalog = Some (\<lambda>_. Inr demo_known), plLexical = None\<rparr>"

end
