(* ===== verification/VaultState.thy ===== *)
theory VaultState
  imports Recall Manifest Reclaim Packer
begin

text \<open>
  Package \<open>vault\<close>, the state a vault keeps and what its operations share: the tables of the device,
  the catalog, the vector index in memory and on disk, the write queue, the ledger and the network
  (\<open>vault.go\<close>, \<open>vectors.go\<close>, \<open>catalog.go\<close>, \<open>browse.go\<close>, \<open>neighbours.go\<close>).

  The clock stands still within one operation.  The embedder, the JSON codec of package \<open>record\<close>,
  the random source, the cryptography and the indexer's library are parameters.
\<close>

section \<open>State and environment\<close>

record index_health =
  ihModel :: string
  ihDim :: nat
  ihIndexed :: int
  ihForeign :: "string \<rightharpoonup> nat"

record session_stats =
  ssHeadReads :: int
  ssChunkReads :: int
  ssChunkBytes :: int

record 'n vault =
  vaBodies :: bodies
  vaSettings :: settings
  vaHeads :: heads
  vaRanking :: ranking_db
  vaTiers :: tiers
  vaObjects :: object_cache
  vaSlabs :: slab_cache
  vaLedger :: ledger
  vaManifest :: manifest
  vaIndex :: index
  vaVectors :: vstore
  vaHealth :: index_health
  vaPacker :: packer
  vaNet :: 'n
  vaStats :: session_stats
  vaReady :: bool
  vaDrawn :: nat
  vaFileOps :: nat

text \<open>
  \<open>vnRand n k\<close> is what the \<open>n\<close>-th read of the random source, of \<open>k\<close> bytes, yields, \<open>vnIO\<close> and \<open>vnVectorIO\<close> which file operations
  of the \<open>n\<close>-th change to the catalog and to the index fail, \<open>vnTook\<close> what a stopwatch shows, \<open>vnTurns\<close> what the clock
  shows and whether the caller gave up at each turn of a wait.
\<close>

record 'n venv =
  vnText :: text_lib
  vnNow :: gotime
  vnTook :: int
  vnTTL :: int
  vnOnline :: bool
  vnModel :: string
  vnDim :: nat
  vnEmbed :: "string \<Rightarrow> f32 list res"
  vnCrypto :: crypto
  vnSealer :: sealer
  vnRand :: "nat \<Rightarrow> nat \<Rightarrow> byte list res"
  vnCatalog :: menv
  vnIO :: "nat \<Rightarrow> io"
  vnVectorSealer :: vsealer
  vnVectorIO :: "nat \<Rightarrow> io"
  vnReclaimer :: "'n reclaimer"
  vnUploads :: "nat list"
  vnQueueFails :: "db_op \<Rightarrow> goerr option"
  vnObject :: "objref \<Rightarrow> ('n, sealed_object) step"
  vnHosts :: "'n \<Rightarrow> hash256 set res"
  vnRead :: "'n \<Rightarrow> sdk_object \<Rightarrow> byte list res"
  vnTurns :: "(gotime \<times> bool) list"
  vnMarshal :: "memory \<Rightarrow> byte list res"
  vnUnmarshal :: "byte list \<Rightarrow> memory res"
  vnMarshalChunk :: "chunk \<Rightarrow> byte list res"
  vnUnmarshalChunk :: "byte list \<Rightarrow> chunk res"
  vnMarshalMessage :: "message \<Rightarrow> byte list res"
  vnMarshalSession :: "session_head \<Rightarrow> byte list res"
  vnUnmarshalSession :: "byte list \<Rightarrow> session_head res"

abbreviation vnSdk :: "'n venv \<Rightarrow> 'n sdk" where
  "vnSdk ve \<equiv> rcSdk (vnReclaimer ve)"

section \<open>Running a component's operation in the vault\<close>

definition on_catalog :: "'n venv \<Rightarrow> (io \<Rightarrow> (manifest, 'a) step) \<Rightarrow> ('n vault, 'a) step" where
  "on_catalog ve m s = (case m (vnIO ve (vaFileOps s)) (vaManifest s) of
     (r, mf) \<Rightarrow> (r, s\<lparr>vaManifest := mf, vaFileOps := vaFileOps s + 1\<rparr>))"

definition on_vectors :: "'n venv \<Rightarrow> (io \<Rightarrow> (vstore, 'a) step) \<Rightarrow> ('n vault, 'a) step" where
  "on_vectors ve m s = (case m (vnVectorIO ve (vaFileOps s)) (vaVectors s) of
     (r, vt) \<Rightarrow> (r, s\<lparr>vaVectors := vt, vaFileOps := vaFileOps s + 1\<rparr>))"

definition on_index :: "(index, 'a) step \<Rightarrow> ('n vault, 'a) step" where
  "on_index m s = (case m (vaIndex s) of (r, ix) \<Rightarrow> (r, s\<lparr>vaIndex := ix\<rparr>))"

definition on_heads :: "(heads, 'a) step \<Rightarrow> ('n vault, 'a) step" where
  "on_heads m s = (case m (vaHeads s) of (r, h) \<Rightarrow> (r, s\<lparr>vaHeads := h\<rparr>))"

definition on_network :: "('n, 'a) step \<Rightarrow> ('n vault, 'a) step" where
  "on_network m s = (case m (vaNet s) of (r, n) \<Rightarrow> (r, s\<lparr>vaNet := n\<rparr>))"

text \<open>A read of the random source.\<close>

definition draw :: "'n venv \<Rightarrow> nat \<Rightarrow> ('n vault, byte list res) step" where
  "draw ve k s = (Inr (vnRand ve (vaDrawn s) k), s\<lparr>vaDrawn := vaDrawn s + 1\<rparr>)"

definition NewID :: "'n venv \<Rightarrow> ('n vault, recid) step" where
  "NewID ve = sbind (draw ve 16) (\<lambda>r. slift (case r of
     Inl e \<Rightarrow> Inl (wrap_err ''generate record id: '' e)
   | Inr b \<Rightarrow> Inr (ID_of_bytes b)))"

text \<open>The network, the ledger and the cache of slab metadata, for the operations of the reclaimer.\<close>

definition rworld_of :: "'n vault \<Rightarrow> 'r \<Rightarrow> ('n, 'n vault, 'r) rworld" where
  "rworld_of s rep = \<lparr>rwNet = vaNet s, rwLedger = vaLedger s, rwCache = vaSlabs s, rwCaller = s, rwReport = rep\<rparr>"

definition vault_of :: "('n, 'n vault, 'r) rworld \<Rightarrow> 'n vault" where
  "vault_of w = (rwCaller w)\<lparr>vaNet := rwNet w, vaLedger := rwLedger w, vaSlabs := rwCache w\<rparr>"

definition on_reclaimer :: "(('n, 'n vault, unit) rworld, 'a) step \<Rightarrow> ('n vault, 'a) step" where
  "on_reclaimer m s = (case m (rworld_of s ()) of (r, w) \<Rightarrow> (r, vault_of w))"

section \<open>The index in memory and on disk\<close>

definition classifyVectors :: "string \<Rightarrow> nat \<Rightarrow> ventry list \<Rightarrow> ventry list \<times> index_health" where
  "classifyVectors model wd stored =
    (let usable = filter (\<lambda>e. \<not> (veModel e \<noteq> model \<or> veDim e \<noteq> wd)) stored;
         foreign = filter (\<lambda>e. veModel e \<noteq> model \<or> veDim e \<noteq> wd) stored in
     (usable, \<lparr>ihModel = model, ihDim = wd, ihIndexed = int (length usable),
        ihForeign = (\<lambda>m. let n = length (filter (\<lambda>e. veModel e = m) foreign) in if n = 0 then None else Some n)\<rparr>))"

definition Health_Mixed :: "index_health \<Rightarrow> bool" where
  "Health_Mixed h \<longleftrightarrow> ihForeign h \<noteq> Map.empty"

fun add_vectors :: "ventry list \<Rightarrow> (index, unit) step" where
  "add_vectors [] = sret ()"
| "add_vectors (e # es) = sbind (Index_Add (veID e) (veModel e) (veVector e)) (\<lambda>_. add_vectors es)"

text \<open>Opening the index: what the files hydrate to, without the vectors of other models.\<close>

definition openIndex :: "'n venv \<Rightarrow> ('n vault, unit) step" where
  "openIndex ve s =
    (case on_vectors ve (\<lambda>io st. (Store_Read (vnVectorSealer ve) io st, st)) s of
       (Inl e, s1) \<Rightarrow> (Inl e, s1)
     | (Inr stored, s1) \<Rightarrow>
       (case classifyVectors (vnModel ve) (vnDim ve) stored of
          (usable, health) \<Rightarrow>
          (case add_vectors usable (Index_New (vnModel ve) (vnDim ve)) of
             (Inl e, ix) \<Rightarrow> (Inl e, s1\<lparr>vaIndex := ix\<rparr>)
           | (Inr _, ix) \<Rightarrow> (Inr (), s1\<lparr>vaIndex := ix, vaHealth := health\<rparr>))))"

definition read_and_compact :: "'n venv \<Rightarrow> string \<Rightarrow> ('n vault, unit) step" where
  "read_and_compact ve msg = on_vectors ve (\<lambda>io st. case Store_Read (vnVectorSealer ve) io st of
     Inl e \<Rightarrow> (Inl (wrap_err msg e), st) | Inr es \<Rightarrow> Store_Compact (vnVectorSealer ve) io es st)"

definition CompactIndex :: "'n venv \<Rightarrow> ('n vault, unit) step" where
  "CompactIndex ve = read_and_compact ve []"

definition compactVectorsIfDue :: "'n venv \<Rightarrow> ('n vault, unit) step" where
  "compactVectorsIfDue ve s =
    (if \<not> Store_dueForCompaction (vaVectors s) then (Inr (), s) else read_and_compact ve ''compact index: '' s)"

definition putVector :: "'n venv \<Rightarrow> recid \<Rightarrow> f32 list \<Rightarrow> ('n vault, unit) step" where
  "putVector ve i vector =
    sbind (on_vectors ve (\<lambda>io. Store_Append (vnVectorSealer ve) io
        [\<lparr>veID = i, veModel = vnModel ve, veDim = vnDim ve, veVector = vector\<rparr>])) (\<lambda>_.
    sbind (on_index (Index_Add i (vnModel ve) vector)) (\<lambda>_.
    sbind (smod (\<lambda>s. s\<lparr>vaHealth := (vaHealth s)\<lparr>ihIndexed := ihIndexed (vaHealth s) + 1\<rparr>\<rparr>)) (\<lambda>_.
    compactVectorsIfDue ve)))"

section \<open>What ranking is told\<close>

definition rankingMeta :: "memory \<Rightarrow> ranking_meta" where
  "rankingMeta m = \<lparr>rmID = mID m, rmKind = KindMemory, rmType = mType m, rmTags = mTags m,
     rmSupersedes = mSupersedes m, rmText = LexicalText m\<rparr>"

definition sessionRankingMeta :: "session_head \<Rightarrow> ranking_meta" where
  "sessionRankingMeta h = \<lparr>rmID = sID h, rmKind = KindSession, rmType = [], rmTags = sTags h,
     rmSupersedes = None, rmText = SessionLexicalText h\<rparr>"

definition put_meta :: "'n venv \<Rightarrow> ranking_meta \<Rightarrow> ('n vault, unit) step" where
  "put_meta ve m = smod (\<lambda>s. s\<lparr>vaRanking := PutRankingMeta (vnText ve) (vnNow ve) m (vaRanking s)\<rparr>)"

definition put_body :: "'n venv \<Rightarrow> recid \<Rightarrow> kind \<Rightarrow> byte list \<Rightarrow> ('n vault, unit) step" where
  "put_body ve i k body = smod (\<lambda>s. s\<lparr>vaBodies := PutBody (vnNow ve) i k body (vaBodies s)\<rparr>)"

definition Vault_Describe :: "'n vault \<Rightarrow> recid list \<Rightarrow> known_pool" where
  "Vault_Describe s ids =
    (let d = Describe (vaRanking s) ids in
     \<lparr>knMeta = (\<lambda>i. map_option (\<lambda>m. \<lparr>meKind = rmKind m, meType = rmType m, meTags = rmTags m\<rparr>) (deMeta d i)),
      knSuperseded = deSuperseded d\<rparr>)"

section \<open>Session heads\<close>

definition vault_session :: "'n venv \<Rightarrow> recid \<Rightarrow> ('n vault, session_head) step" where
  "vault_session ve i s = (case GetSessionHead (vaHeads s) i of
     Inl e \<Rightarrow> (Inl e, s)
   | Inr head \<Rightarrow> (vnUnmarshalSession ve head,
       s\<lparr>vaStats := (vaStats s)\<lparr>ssHeadReads := ssHeadReads (vaStats s) + 1\<rparr>\<rparr>))"

definition Vault_Session :: "'n venv \<Rightarrow> recid \<Rightarrow> ('n vault, session_head) step" where
  "Vault_Session ve i s = (case vault_session ve i s of
     (Inl e, s') \<Rightarrow> (Inl (if errors_Is e ErrLocalNotFound then GoErr [ErrNoSession] ''no such session'' else e), s')
   | (Inr h, s') \<Rightarrow> (Inr h, s'))"

section \<open>Browsing\<close>

record browse_row =
  brID :: recid
  brKind :: kind
  brType :: string
  brTags :: "string list"
  brCreated :: gotime
  brLabel :: string
  brSuperseded :: bool

text \<open>A statement, where this device holds the body and it parses.\<close>

definition held_statement :: "'n venv \<Rightarrow> 'n vault \<Rightarrow> recid \<Rightarrow> string" where
  "held_statement ve s i = (case GetBody (vaBodies s) i of
     Inl _ \<Rightarrow> []
   | Inr body \<Rightarrow> (case vnUnmarshal ve body of Inl _ \<Rightarrow> [] | Inr m \<Rightarrow> mStatement m))"

definition label :: "'n venv \<Rightarrow> 'n vault \<Rightarrow> record_row \<Rightarrow> string" where
  "label ve s r =
    (if rrKind r = KindSession then (case SessionTitle (vaHeads s) (rrID r) of Inl _ \<Rightarrow> [] | Inr t \<Rightarrow> t)
     else held_statement ve s (rrID r))"

definition Browse :: "'n venv \<Rightarrow> 'n vault \<Rightarrow> record_query \<Rightarrow> (browse_row list \<times> page_cursor) res" where
  "Browse ve s q = rbind (ListRecords (vnText ve) (vaRanking s) q) (\<lambda>(rows, next_page).
     Inr (map (\<lambda>r. \<lparr>brID = rrID r, brKind = rrKind r, brType = rrType r, brTags = rrTags r,
        brCreated = rrCreated r, brLabel = label ve s r, brSuperseded = rrSuperseded r\<rparr>) rows, next_page))"

section \<open>What a write is compared with\<close>

definition NeighbourLimit :: nat where "NeighbourLimit = 5"
definition ConflictSimilarity :: gofloat where "ConflictSimilarity = round_f32 (9 / 10)"
definition TagCommonShare :: rat where "TagCommonShare = 1 / 4"
definition TagAdviceMinRecords :: nat where "TagAdviceMinRecords = 30"

record neighbour =
  nbID :: recid
  nbType :: string
  nbTags :: "string list"
  nbStatement :: string
  nbSimilarity :: gofloat
  nbConflict :: bool

definition neighbours :: "'n venv \<Rightarrow> 'n vault \<Rightarrow> recid \<Rightarrow> f32 list \<Rightarrow> neighbour list res" where
  "neighbours ve s self vector =
    rbind (Index_Search (vaIndex s) vector (int NeighbourLimit + 1)) (\<lambda>matches.
    let others = filter (\<lambda>x. mtID x \<noteq> self) matches;
        d = Describe (vaRanking s) (map mtID others) in
    Inr (map (\<lambda>x. \<lparr>nbID = mtID x,
        nbType = (case deMeta d (mtID x) of None \<Rightarrow> [] | Some m \<Rightarrow> rmType m),
        nbTags = (case deMeta d (mtID x) of None \<Rightarrow> [] | Some m \<Rightarrow> rmTags m),
        nbStatement = held_statement ve s (mtID x), nbSimilarity = mtScore x,
        nbConflict = (float_lt ConflictSimilarity (mtScore x) \<or> float_eq (mtScore x) ConflictSimilarity)\<rparr>)
      (take NeighbourLimit others)))"

record tag_specificity =
  tgTag :: string
  tgRecords :: nat
  tgShare :: rat
  tgTooCommon :: bool
  tgNew :: bool

record tag_advice =
  taRecords :: nat
  taTags :: "tag_specificity list"
  taDiscriminating :: nat

definition tag_share :: "nat \<Rightarrow> nat \<Rightarrow> rat" where
  "tag_share n whole = (if 0 < whole then round_f64 (of_nat n / of_nat whole) else 0)"

definition specificity :: "nat \<Rightarrow> tag_count \<Rightarrow> tag_specificity" where
  "specificity whole c = \<lparr>tgTag = tcTag c, tgRecords = tcRecords c, tgShare = tag_share (tcRecords c) whole,
     tgTooCommon = (tcRecords c \<noteq> 0 \<and> TagAdviceMinRecords \<le> whole \<and> TagCommonShare < tag_share (tcRecords c) whole),
     tgNew = (tcRecords c = 0)\<rparr>"

definition tagAdvice :: "'n venv \<Rightarrow> 'n vault \<Rightarrow> string list \<Rightarrow> tag_advice" where
  "tagAdvice ve s tags = (case TagFrequencies (vnText ve) (vaRanking s) tags of (cs, whole) \<Rightarrow>
     \<lparr>taRecords = whole, taTags = map (specificity whole) cs,
      taDiscriminating = length (filter (\<lambda>t. \<not> tgTooCommon t) (map (specificity whole) cs))\<rparr>)"

definition NeedsNarrowerTags :: "tag_advice \<Rightarrow> bool" where
  "NeedsNarrowerTags a \<longleftrightarrow> TagAdviceMinRecords \<le> taRecords a \<and> taTags a \<noteq> [] \<and> taDiscriminating a = 0"

definition TagVocabulary :: "'n vault \<Rightarrow> int \<Rightarrow> tag_specificity list" where
  "TagVocabulary s limit = (let whole = CountRecordMeta (vaRanking s) in
     map (\<lambda>c. \<lparr>tgTag = tcTag c, tgRecords = tcRecords c, tgShare = tag_share (tcRecords c) whole,
         tgTooCommon = (0 < whole \<and> TagAdviceMinRecords \<le> whole \<and> TagCommonShare < tag_share (tcRecords c) whole),
         tgNew = False\<rparr>)
       (VocabularyTags (vaRanking s) limit))"

section \<open>A vault that holds nothing\<close>

definition demo_memory :: "recid \<Rightarrow> memory" where
  "demo_memory i = \<lparr>mID = i, mKind = KindMemory, mType = ''fact'', mSchemaVersion = 1, mVersion = 1, mStatement = ''s'',
     mContext = [], mKeywords = [], mTags = [''t''], mEntities = [], mCreatedAt = 9, mUpdatedAt = 9, mValidFrom = None,
     mValidUntil = None, mLastRecalledAt = None, mRecallCount = 0, mImportance = Fin 0, mConfidence = Fin 1,
     mSupersedes = None, mSupersededBy = None, mLinks = [],
     mSource = \<lparr>srcOrigin = [], srcSessionID = [], srcSpan = [], srcClient = []\<rparr>, mEmbedding = \<lparr>embModel = ''m'', embDim = 1\<rparr>\<rparr>"

definition demo_reclaimer :: "byte list list reclaimer" where
  "demo_reclaimer = \<lparr>rcSdk = demo_sdk, rcDB = (\<lambda>_. None), rcNow = 0, rcSched = (\<lambda>n. [0..<n]), rcRange = (\<lambda>ks. ks)\<rparr>"

abbreviation venv_over :: "'n reclaimer \<Rightarrow> 'n venv" where
  "venv_over rc \<equiv> \<lparr>vnText = demo_text, vnNow = 1000000, vnTook = 1, vnTTL = 1000, vnOnline = True, vnModel = ''m'', vnDim = 1,
     vnEmbed = (\<lambda>_. Inr [0x3F800000]), vnCrypto = plain_crypto, vnSealer = \<lparr>slRecord = [], slContent = []\<rparr>,
     vnRand = (\<lambda>n k. Inr (replicate k (of_nat n + 1))), vnCatalog = demo_env, vnIO = (\<lambda>_. io_ok),
     vnVectorSealer = demo_vsealer, vnVectorIO = (\<lambda>_. io_ok), vnReclaimer = rc, vnUploads = [0],
     vnQueueFails = (\<lambda>_. None), vnObject = (\<lambda>_ n. (Inr demo_object, n)), vnHosts = (\<lambda>_. Inr {9}),
     vnRead = (\<lambda>_ _. Inr []), vnTurns = [(1000000, False)],
     vnMarshal = (\<lambda>m. Inr (ID_bytes (mID m))), vnUnmarshal = (\<lambda>b. Inr (demo_memory (ID_of_bytes b))),
     vnMarshalChunk = (\<lambda>c. Inr (ID_bytes (chID c))), vnUnmarshalChunk = (\<lambda>b. fail [] ''no chunk''),
     vnMarshalMessage = (\<lambda>m. Inr (replicate (length (msgID m)) 0)),
     vnMarshalSession = (\<lambda>h. Inr (ID_bytes (sID h))), vnUnmarshalSession = (\<lambda>b. Inr (demo_session (ID_of_bytes b) 1))\<rparr>"

definition demo_venv :: "byte list list venv" where
  "demo_venv = venv_over demo_reclaimer"

abbreviation vault_over :: "'n \<Rightarrow> 'n vault" where
  "vault_over n \<equiv> \<lparr>vaBodies = [], vaSettings = [], vaHeads = [], vaRanking = demo_ranking, vaTiers = [], vaObjects = [],
     vaSlabs = [], vaLedger = [], vaManifest = empty_manifest, vaIndex = Index_New ''m'' 1, vaVectors = empty_store,
     vaHealth = \<lparr>ihModel = ''m'', ihDim = 1, ihIndexed = 0, ihForeign = Map.empty\<rparr>, vaPacker = demo_packer, vaNet = n,
     vaStats = \<lparr>ssHeadReads = 0, ssChunkReads = 0, ssChunkBytes = 0\<rparr>, vaReady = False, vaDrawn = 0, vaFileOps = 0\<rparr>"

definition demo_vault :: "byte list list vault" where
  "demo_vault = vault_over []"

end
