(* ===== verification/VaultFetch.thy ===== *)
theory VaultFetch
  imports VaultState
begin

text \<open>
  \<open>vault/fetch.go\<close>: resolving a record to its body through the three tiers, the device's copy, a
  cached location, and the indexer; and \<open>Recall\<close> of \<open>vault.go\<close> over it.  A read of a damaged cache may
  end the process, so these operations are \<open>run\<close>s.

  What a fetch writes on the device, the body (\<open>PutBody\<close>), the location and its shared halves
  (\<open>cacheLocation\<close>, \<open>forgetLocation\<close>) and the counters, are single SQL statements on an open
  database, and are taken to succeed.  In the code a statement that fails for the body or the location
  ends the read with its error, one that fails for a counter is ignored: the theorems here are about
  reads whose statements ran.
\<close>

section \<open>Counting reads\<close>

definition tier_name :: "tier \<Rightarrow> string" where
  "tier_name t = (case t of TierLocal \<Rightarrow> ''local'' | TierCached \<Rightarrow> ''cached'' | TierNetwork \<Rightarrow> ''network'')"

definition countRead :: "'n venv \<Rightarrow> tier \<Rightarrow> 'n vault \<Rightarrow> 'n vault" where
  "countRead ve t s = s\<lparr>vaTiers := RecordRead (tier_name t) (vnTook ve) (vaTiers s)\<rparr>"

definition countMiss :: "tier \<Rightarrow> 'n vault \<Rightarrow> 'n vault" where
  "countMiss t s = s\<lparr>vaTiers := RecordMiss (tier_name t) (vaTiers s)\<rparr>"

section \<open>The cached location\<close>

definition cacheLocation :: "'n venv \<Rightarrow> location \<times> (slabid \<times> byte list) list \<Rightarrow> 'n vault \<Rightarrow> 'n vault" where
  "cacheLocation ve ls s = s\<lparr>
     vaSlabs := foldl (\<lambda>t (i, b). PutSlabMeta (vnNow ve) i b t) (vaSlabs s) (snd ls),
     vaObjects := PutLocation (vnNow ve) (Ref_String (locRef (fst ls))) (locSlabs (fst ls)) (locBytes (fst ls)) (vaObjects s)\<rparr>"

definition forgetLocation :: "cached_location \<Rightarrow> 'n vault \<Rightarrow> 'n vault" where
  "forgetLocation c s = s\<lparr>vaObjects := ForgetLocation (clObjectRef c) (vaObjects s),
     vaSlabs := foldl (\<lambda>t i. ForgetSlabMeta i t) (vaSlabs s) (clSlabIDs c)\<rparr>"

text \<open>The shared halves of a location: all of them and fresh, or the cache does not answer.\<close>

fun gather_slabs :: "'n venv \<Rightarrow> slab_cache \<Rightarrow> slabid list \<Rightarrow> (slabid \<rightharpoonup> byte list) \<Rightarrow> (slabid \<rightharpoonup> byte list) option res" where
  "gather_slabs ve t [] shared = Inr (Some shared)"
| "gather_slabs ve t (i # is) shared = (case GetSlabMeta t i of
     Inl e \<Rightarrow> if errors_Is e ErrLocalNotFound then Inr None else Inl e
   | Inr c \<Rightarrow> if vnTTL ve \<le> CachedSlab_Age (vnNow ve) c then Inr None
       else gather_slabs ve t is (shared(i \<mapsto> csMeta c)))"

definition download_at :: "'n venv \<Rightarrow> 'n vault \<Rightarrow> location \<Rightarrow> (slabid \<rightharpoonup> byte list) \<Rightarrow> byte list may_panic" where
  "download_at ve s = DownloadAt (sdkLib (vnSdk ve)) (vnHosts ve (vaNet s)) (sdkUnseal (vnSdk ve)) (vnRead ve (vaNet s))"

definition fetchCached :: "'n venv \<Rightarrow> mentry \<Rightarrow> objref \<Rightarrow> ('n vault, byte list option) run" where
  "fetchCached ve entry ref s =
    (case GetLocation (vaObjects s) (enObjectRef entry) of
       Inl e \<Rightarrow> Some (if errors_Is e ErrLocalNotFound then Inr None else Inl e, s)
     | Inr c \<Rightarrow>
       if vnTTL ve \<le> CachedLocation_Age (vnNow ve) c then Some (Inr None, s)
       else (case gather_slabs ve (vaSlabs s) (clSlabIDs c) Map.empty of
          Inl e \<Rightarrow> Some (Inl e, s)
        | Inr None \<Rightarrow> Some (Inr None, s)
        | Inr (Some shared) \<Rightarrow>
           (case download_at ve s \<lparr>locRef = ref, locSlabs = clSlabIDs c, locBytes = clMeta c\<rparr> shared of
              None \<Rightarrow> None
            | Some (Inl e) \<Rightarrow> Some (Inr None, forgetLocation c s)
            | Some (Inr payload) \<Rightarrow> Some (Inr (Some payload), s))))"

definition LocationFor :: "'n venv \<Rightarrow> objref \<Rightarrow> ('n vault, location \<times> (slabid \<times> byte list) list) step" where
  "LocationFor ve ref = sbind (on_network (wrapping ''look up object: '' (vnObject ve ref)))
     (\<lambda>sealed. sret (splitLocation (sdkLib (vnSdk ve)) ref sealed))"

definition fetchRemote :: "'n venv \<Rightarrow> mentry \<Rightarrow> objref \<Rightarrow> ('n vault, byte list \<times> tier) run" where
  "fetchRemote ve entry ref = pbind (fetchCached ve entry ref) (\<lambda>cached. case cached of
     Some payload \<Rightarrow> prun (sret (payload, TierCached))
   | None \<Rightarrow> prun (
       sbind (smod (countMiss TierCached)) (\<lambda>_.
       sbind (LocationFor ve ref) (\<lambda>located.
       sbind (on_network (Client_Download (vnSdk ve) ref)) (\<lambda>payload.
       sbind (smod (cacheLocation ve located)) (\<lambda>_.
       sret (payload, TierNetwork)))))))"

section \<open>Bodies\<close>

definition openBody :: "'n venv \<Rightarrow> recid \<Rightarrow> byte list \<Rightarrow> byte list res" where
  "openBody ve i payload = (case Unframe payload of
     Inl e \<Rightarrow> Inl (wrap_err ''record: '' e)
   | Inr (frame, _) \<Rightarrow>
       if frID frame \<noteq> i then fail [] ''the stored blob identifies itself as another record''
       else (case Open (vnCrypto ve) (vnSealer ve) (frSealed frame) of
         Inl e \<Rightarrow> Inl (wrap_err ''record: '' e) | Inr body \<Rightarrow> Inr body))"

definition openPayload :: "'n venv \<Rightarrow> recid \<Rightarrow> byte list \<Rightarrow> memory res" where
  "openPayload ve i payload = rbind (openBody ve i payload) (vnUnmarshal ve)"

definition fetchBody :: "'n venv \<Rightarrow> recid \<Rightarrow> ('n vault, kind \<times> byte list \<times> tier) run" where
  "fetchBody ve i s =
    (case GetRecord (vaBodies s) i of
       Inr (kind, body) \<Rightarrow> Some (Inr (kind, body, TierLocal), countRead ve TierLocal s)
     | Inl e \<Rightarrow> if \<not> errors_Is e ErrLocalNotFound then Some (Inl e, s)
       else let s1 = countMiss TierLocal s in
       (case Manifest_Lookup (vaManifest s1) i of
          Inl e \<Rightarrow> Some (Inl e, s1)
        | Inr entry \<Rightarrow>
          if \<not> vnOnline ve then Some (fail [ErrVaultOffline] ''not held on this device: vault is open offline'', s1)
          else (case ParseObjectRef (enObjectRef entry) of
             Inl e \<Rightarrow> Some (Inl e, s1)
           | Inr ref \<Rightarrow>
             pbind (fetchRemote ve entry ref) (\<lambda>(payload, tier).
             pbind (prun (slift (openBody ve i payload))) (\<lambda>body.
             pbind (prun (put_body ve i (enKind entry) body)) (\<lambda>_.
             pbind (prun (smod (countRead ve tier))) (\<lambda>_.
             prun (sret (enKind entry, body, tier)))))) s1)))"

definition Fetch :: "'n venv \<Rightarrow> recid \<Rightarrow> ('n vault, found \<times> tier) run" where
  "Fetch ve i s = (case vault_session ve i s of
     (Inr h, s1) \<Rightarrow> Some (Inr (FoundSession h, TierLocal), s1)
   | (Inl e, s1) \<Rightarrow> if \<not> errors_Is e ErrLocalNotFound then Some (Inl e, s1)
       else pbind (fetchBody ve i) (\<lambda>(kind, body, tier).
         if kind = KindMemory then prun (slift (rbind (vnUnmarshal ve body) (\<lambda>m. Inr (FoundMemory m, tier))))
         else prun (sfail (GoErr [] ''not something recall returns''))) s1)"

definition FetchMemory :: "'n venv \<Rightarrow> recid \<Rightarrow> ('n vault, memory \<times> tier) run" where
  "FetchMemory ve i = pbind (Fetch ve i) (\<lambda>(found, tier). case found of
     FoundMemory m \<Rightarrow> prun (sret (m, tier)) | _ \<Rightarrow> prun (sfail (GoErr [] ''not a memory'')))"

text \<open>What the network holds, past this device's copy.\<close>

definition StoredBytes :: "'n venv \<Rightarrow> recid \<Rightarrow> ('n vault, byte list) step" where
  "StoredBytes ve i s =
    (if \<not> vnOnline ve then (fail [ErrVaultOffline] ''vault is open offline'', s)
     else case rbind (Manifest_Lookup (vaManifest s) i) (\<lambda>entry. ParseObjectRef (enObjectRef entry)) of
       Inl e \<Rightarrow> (Inl e, s)
     | Inr ref \<Rightarrow> on_network (Client_Download (vnSdk ve) ref) s)"

definition BodyFromNetwork :: "'n venv \<Rightarrow> recid \<Rightarrow> ('n vault, byte list) step" where
  "BodyFromNetwork ve i = sbind (StoredBytes ve i) (\<lambda>payload. slift (openBody ve i payload))"

definition FetchMemoryFromNetwork :: "'n venv \<Rightarrow> recid \<Rightarrow> ('n vault, memory) step" where
  "FetchMemoryFromNetwork ve i = sbind (StoredBytes ve i) (\<lambda>payload. slift (openPayload ve i payload))"

definition ForgetLocally :: "recid \<Rightarrow> 'n vault \<Rightarrow> 'n vault" where
  "ForgetLocally i s = s\<lparr>vaBodies := ForgetBody i (vaBodies s)\<rparr>"

definition Vault_ForgetSessionHead :: "recid \<Rightarrow> 'n vault \<Rightarrow> 'n vault" where
  "Vault_ForgetSessionHead i s = s\<lparr>vaHeads := ForgetSessionHead i (vaHeads s)\<rparr>"

section \<open>Recall\<close>

text \<open>\<open>fts\<close> is the text engine.\<close>

definition vault_pipeline :: "'n venv \<Rightarrow> ((recid \<times> string) list \<Rightarrow> string \<Rightarrow> recid list) \<Rightarrow> 'n vault \<Rightarrow> 'n vault pipeline" where
  "vault_pipeline ve fts s = \<lparr>plEmbed = vnEmbed ve, plIndex = vaIndex s, plFetch = Fetch ve,
     plCatalog = Some (\<lambda>ids. Inr (Vault_Describe s ids)),
     plLexical = Some (\<lambda>query k. Inr (SearchLexical (vnText ve) fts (vaRanking s) query k))\<rparr>"

definition Vault_Recall :: "'n venv \<Rightarrow> ((recid \<times> string) list \<Rightarrow> string \<Rightarrow> recid list) \<Rightarrow> request \<Rightarrow> ('n vault, recalled) run" where
  "Vault_Recall ve fts q s = Pipeline_Run (vnText ve) (vault_pipeline ve fts s) q s"

section \<open>A read that came from elsewhere is kept\<close>

lemma GetRecord_PutBody:
  "GetRecord t i = Inl e \<Longrightarrow> GetRecord (PutBody now i k b t) i = Inr (k, b)"
  "j \<noteq> i \<Longrightarrow> GetRecord (PutBody now i k b t) j = GetRecord t j"
  by (auto simp: GetRecord_def PutBody_def lookup_row_def split: option.splits)

lemma countRead_sel [simp]:
  "vaBodies (countRead ve t s) = vaBodies s" "vaManifest (countRead ve t s) = vaManifest s"
  "vaNet (countRead ve t s) = vaNet s" "vaObjects (countRead ve t s) = vaObjects s" "vaSlabs (countRead ve t s) = vaSlabs s"
  by (simp_all add: countRead_def)

lemma countMiss_sel [simp]:
  "vaBodies (countMiss t s) = vaBodies s" "vaManifest (countMiss t s) = vaManifest s"
  "vaNet (countMiss t s) = vaNet s" "vaObjects (countMiss t s) = vaObjects s" "vaSlabs (countMiss t s) = vaSlabs s"
  by (simp_all add: countMiss_def)

lemma forgetLocation_sel [simp]:
  "vaBodies (forgetLocation c s) = vaBodies s" "vaManifest (forgetLocation c s) = vaManifest s" "vaNet (forgetLocation c s) = vaNet s"
  by (simp_all add: forgetLocation_def)

lemma cacheLocation_sel [simp]:
  "vaBodies (cacheLocation ve ls s) = vaBodies s" "vaManifest (cacheLocation ve ls s) = vaManifest s" "vaNet (cacheLocation ve ls s) = vaNet s"
  by (simp_all add: cacheLocation_def)

text \<open>Nothing below the device's copy changes what this device holds or catalogs.\<close>

definition keeps_records :: "'n vault \<Rightarrow> 'n vault \<Rightarrow> bool" where
  "keeps_records s t \<longleftrightarrow> vaBodies t = vaBodies s \<and> vaManifest t = vaManifest s"

lemma fetchCached_keeps:
  "fetchCached ve en ref s = Some (r, t) \<Longrightarrow> keeps_records s t \<and> vaNet t = vaNet s"
  by (auto simp: fetchCached_def keeps_records_def split: sum.splits option.splits if_splits)

lemma on_network_sel:
  "on_network m s = (r, t) \<Longrightarrow> \<exists>n. m (vaNet s) = (r, n) \<and> t = s\<lparr>vaNet := n\<rparr>"
  by (auto simp: on_network_def split: prod.splits)

lemma fetchRemote_keeps:
  assumes "fetchRemote ve en ref s = Some (r, t)"
  shows "keeps_records s t"
proof -
  obtain c s1 where c: "fetchCached ve en ref s = Some (c, s1)"
    using assms by (auto simp: fetchRemote_def pbind_def split: option.splits)
  then have k: "keeps_records s s1" using fetchCached_keeps by blast
  show ?thesis
    using assms k unfolding fetchRemote_def pbind_def c
    by (auto simp: prun_def step_defs LocationFor_def keeps_records_def dest!: on_network_sel split: sum.splits option.splits prod.splits)
qed

text \<open>What a read that had to leave the device went through.\<close>

lemma fetchBody_remote:
  assumes "fetchBody ve i s = Some (Inr (k, body, tier), t)" and "GetRecord (vaBodies s) i = Inl e"
  shows "\<exists>en ref payload s1. Manifest_Lookup (vaManifest s) i = Inr en \<and> ParseObjectRef (enObjectRef en) = Inr ref
     \<and> fetchRemote ve en ref (countMiss TierLocal s) = Some (Inr (payload, tier), s1) \<and> openBody ve i payload = Inr body
     \<and> k = enKind en \<and> t = countRead ve tier (s1\<lparr>vaBodies := PutBody (vnNow ve) i k body (vaBodies s1)\<rparr>)"
  using assms
  by (auto simp: fetchBody_def pbind_Inr_iff prun_def slift_def put_body_def smod_def sret_def Let_def
        split: sum.splits if_splits)

text \<open>Where the bytes of such a read came from: the indexer's object, downloaded whole, or the hosts,
  through a cached location that is fresh in all its halves.\<close>

definition read_from_cache :: "'n venv \<Rightarrow> mentry \<Rightarrow> objref \<Rightarrow> byte list \<Rightarrow> 'n vault \<Rightarrow> bool" where
  "read_from_cache ve en ref payload s \<longleftrightarrow> (\<exists>c shared. GetLocation (vaObjects s) (enObjectRef en) = Inr c
     \<and> CachedLocation_Age (vnNow ve) c < vnTTL ve \<and> gather_slabs ve (vaSlabs s) (clSlabIDs c) Map.empty = Inr (Some shared)
     \<and> download_at ve s \<lparr>locRef = ref, locSlabs = clSlabIDs c, locBytes = clMeta c\<rparr> shared = Some (Inr payload))"

definition read_from_network :: "'n venv \<Rightarrow> objref \<Rightarrow> byte list \<Rightarrow> 'n vault \<Rightarrow> bool" where
  "read_from_network ve ref payload s \<longleftrightarrow> (\<exists>sealed n1 n2. vnObject ve ref (vaNet s) = (Inr sealed, n1)
     \<and> sdkDownload (vnSdk ve) ref n1 = (Inr payload, n2))"

lemma fetchCached_source:
  assumes "fetchCached ve en ref s = Some (Inr r, t)"
  shows "(r = None \<or> (\<exists>p. r = Some p \<and> read_from_cache ve en ref p s)) \<and> vaNet t = vaNet s"
  using assms by (auto simp: fetchCached_def read_from_cache_def split: sum.splits option.splits if_splits)

lemma fetchRemote_source:
  assumes "fetchRemote ve en ref s = Some (Inr (payload, tier), t)"
  shows "(tier = TierCached \<and> read_from_cache ve en ref payload s)
    \<or> (tier = TierNetwork \<and> read_from_network ve ref payload s)"
proof -
  obtain r s1 where r: "fetchCached ve en ref s = Some (Inr r, s1)"
    using assms by (auto simp: fetchRemote_def pbind_Inr_iff)
  note src = fetchCached_source [OF r]
  show ?thesis
  proof (cases r)
    case (Some p)
    with assms r src show ?thesis by (simp add: fetchRemote_def pbind_def prun_def sret_def)
  next
    case None
    with assms r src show ?thesis
      by (auto simp: fetchRemote_def pbind_def prun_def step_defs LocationFor_def on_network_def wrapping_def
        Client_Download_def read_from_network_def split: sum.splits prod.splits)
  qed
qed

text \<open>C22. A read that succeeds is authentic and becomes local.  It returns either this device's copy, or the opening, under the vault's
  key, of a frame that names this very record; and the frame is the head of the very bytes that came back for the object the catalog
  names: downloaded whole after the indexer served that object, or read through a cached location of it that was fresh in all its
  halves.  They are then held here with the catalog's kind, every other record is held as before, and the next read of the record is
  local and returns the same bytes.\<close>

theorem fetchBody_authentic_then_local:
  assumes read: "fetchBody ve i s = Some (Inr (k, body, tier), t)"
  shows "(tier = TierLocal \<longrightarrow> GetRecord (vaBodies s) i = Inr (k, body))
     \<and> (tier \<noteq> TierLocal \<longrightarrow> (\<exists>en ref payload frame rest. Manifest_Lookup (vaManifest s) i = Inr en \<and> k = enKind en
          \<and> ParseObjectRef (enObjectRef en) = Inr ref
          \<and> ((tier = TierCached \<and> read_from_cache ve en ref payload s) \<or> (tier = TierNetwork \<and> read_from_network ve ref payload s))
          \<and> Unframe payload = Inr (frame, rest) \<and> frID frame = i
          \<and> Open (vnCrypto ve) (vnSealer ve) (frSealed frame) = Inr body))
     \<and> (\<forall>j. j \<noteq> i \<longrightarrow> GetRecord (vaBodies t) j = GetRecord (vaBodies s) j)
     \<and> fetchBody ve i t = Some (Inr (k, body, TierLocal), countRead ve TierLocal t)"
proof (cases "GetRecord (vaBodies s) i")
  case (Inr kb)
  with read have "kb = (k, body)" "tier = TierLocal" "t = countRead ve TierLocal s"
    by (cases kb; simp add: fetchBody_def)+
  with Inr show ?thesis by (simp add: fetchBody_def)
next
  case (Inl e)
  obtain en ref payload s1 where s1: "Manifest_Lookup (vaManifest s) i = Inr en" "ParseObjectRef (enObjectRef en) = Inr ref"
      "fetchRemote ve en ref (countMiss TierLocal s) = Some (Inr (payload, tier), s1)"
      "openBody ve i payload = Inr body" "k = enKind en"
    and t: "t = countRead ve tier (s1\<lparr>vaBodies := PutBody (vnNow ve) i k body (vaBodies s1)\<rparr>)"
    using fetchBody_remote [OF read Inl] by blast
  have held: "vaBodies s1 = vaBodies s" using fetchRemote_keeps [OF s1(3)] by (simp add: keeps_records_def)
  have g: "GetRecord (vaBodies t) i = Inr (k, body)" using t held GetRecord_PutBody(1) [OF Inl] by simp
  obtain frame rest where f: "Unframe payload = Inr (frame, rest)" "frID frame = i"
      "Open (vnCrypto ve) (vnSealer ve) (frSealed frame) = Inr body"
    using s1(4) by (auto simp: openBody_def split: sum.splits if_splits)
  have src: "(tier = TierCached \<and> read_from_cache ve en ref payload s) \<or> (tier = TierNetwork \<and> read_from_network ve ref payload s)"
    using fetchRemote_source [OF s1(3)] by (simp add: read_from_cache_def read_from_network_def download_at_def)
  have others: "\<forall>j. j \<noteq> i \<longrightarrow> GetRecord (vaBodies t) j = GetRecord (vaBodies s) j"
    using t held GetRecord_PutBody(2) by simp
  have tier: "tier \<noteq> TierLocal" using src by auto
  have "fetchBody ve i t = Some (Inr (k, body, TierLocal), countRead ve TierLocal t)"
    by (simp add: fetchBody_def g)
  with s1(1,2,5) f src others tier show ?thesis by blast
qed

text \<open>The halves gathered are ones the cache holds, and none of them being empty nothing panics.\<close>

definition cached_meta :: "slab_cache \<Rightarrow> slabid \<rightharpoonup> byte list" where
  "cached_meta t i = map_option cMeta (row_of t i)"

lemma gather_slabs_cached:
  "sh \<subseteq>\<^sub>m cached_meta c \<Longrightarrow> \<exists>r. gather_slabs ve c is sh = Inr r \<and> (\<forall>m. r = Some m \<longrightarrow> m \<subseteq>\<^sub>m cached_meta c)"
proof (induction "is" arbitrary: sh)
  case Nil
  then show ?case by simp
next
  case (Cons i "is")
  show ?case
  proof (cases "row_of c i")
    case None
    then show ?thesis by (simp add: GetSlabMeta_def)
  next
    case (Some r)
    then have "sh(i \<mapsto> cMeta r) \<subseteq>\<^sub>m cached_meta c"
      using Cons.prems by (simp add: map_le_def cached_meta_def)
    from Cons.IH [OF this] Some show ?thesis by (simp add: GetSlabMeta_def del: fun_upd_apply)
  qed
qed

lemma download_at_Some:
  assumes "\<And>j. sh j \<noteq> Some []"
  shows "download_at ve s loc sh \<noteq> None"
proof -
  have "join_slices sh xs \<noteq> None" for xs using join_slices_panics assms by blast
  moreover have "locBytes loc \<noteq> [] \<Longrightarrow> decodeObject (sdkLib (vnSdk ve)) (locBytes loc) \<noteq> None"
    by (rule decodeObject_Some)
  ultimately have "joinLocation (sdkLib (vnSdk ve)) loc sh \<noteq> None"
    by (auto simp: joinLocation_def split: option.split sum.split prod.split)
  then show ?thesis by (auto simp: download_at_def DownloadAt_def split: option.split sum.split)
qed

section \<open>What the caches may hold\<close>

text \<open>
  An object is known by the list of slab ranges it occupies: the digests of its slabs, in order, with its own offset and length in
  each.  \<open>content_addressed\<close> states what the caches rely on of the indexer: an object keeps its list for as long as its reference
  names it, within the bounds of the envelope, and a digest does not depend on the range.  The hosts of a slab may change.
\<close>

type_synonym slab_range = "slabid \<times> 32 word \<times> 32 word"

definition slab_ranges :: "slab_lib \<Rightarrow> slab_slice list \<Rightarrow> slab_range list" where
  "slab_ranges lib xs = map (\<lambda>x. (skString lib (skDigest lib x), ssOffset x, ssLength x)) xs"

definition content_addressed :: "'n venv \<Rightarrow> (objref \<Rightarrow> slab_range list) \<Rightarrow> bool" where
  "content_addressed ve ranges \<longleftrightarrow>
     (\<forall>x off len. skDigest (sdkLib (vnSdk ve)) (x\<lparr>ssOffset := off, ssLength := len\<rparr>) = skDigest (sdkLib (vnSdk ve)) x)
     \<and> (\<forall>ref n so n1. vnObject ve ref n = (Inr so, n1) \<longrightarrow> object_fits so \<and> (\<forall>x \<in> set (soSlabs so). slab_fits x)
          \<and> slab_ranges (sdkLib (vnSdk ve)) (soSlabs so) = ranges ref)"

text \<open>A cache is sound when an entry that decodes says what it is kept for; a slab's entry is never empty.  Age plays no part.\<close>

definition sound_slabs :: "slab_lib \<Rightarrow> slab_cache \<Rightarrow> bool" where
  "sound_slabs lib t \<longleftrightarrow> (\<forall>i b. cached_meta t i = Some b \<longrightarrow> b \<noteq> []
     \<and> (\<forall>x. decodeSlab b = Some (Inr x) \<longrightarrow> skString lib (skDigest lib x) = i))"

definition sound_locations :: "slab_lib \<Rightarrow> (objref \<Rightarrow> slab_range list) \<Rightarrow> object_cache \<Rightarrow> bool" where
  "sound_locations lib ranges t \<longleftrightarrow> (\<forall>key ref cl so ids. ParseObjectRef key = Inr ref \<longrightarrow> GetLocation t key = Inr cl
     \<longrightarrow> decodeObject lib (clMeta cl) = Some (Inr (so, ids))
     \<longrightarrow> zip ids (map (\<lambda>x. (ssOffset x, ssLength x)) (soSlabs so)) = ranges ref)"

definition sound_caches :: "'n venv \<Rightarrow> (objref \<Rightarrow> slab_range list) \<Rightarrow> 'n vault \<Rightarrow> bool" where
  "sound_caches ve ranges s \<longleftrightarrow>
     sound_slabs (sdkLib (vnSdk ve)) (vaSlabs s) \<and> sound_locations (sdkLib (vnSdk ve)) ranges (vaObjects s)"

text \<open>The two writes of a fetch and the two deletions keep them so.\<close>

lemma cached_meta_upd:
  "cached_meta (PutSlabMeta now i b t) = (cached_meta t)(i \<mapsto> b)" "cached_meta (ForgetSlabMeta i t) = (cached_meta t)(i := None)"
  using slab_meta_table.look_put [of i "(now, b)" t] slab_meta_table.look_forget [of i t]
  by (auto simp: cached_meta_def fun_eq_iff split: option.splits)

lemma sound_slabs_put:
  assumes "\<forall>x off len. skDigest lib (x\<lparr>ssOffset := off, ssLength := len\<rparr>) = skDigest lib x"
    and "sound_slabs lib t" and "\<forall>x \<in> set xs. slab_fits x"
  shows "sound_slabs lib (foldl (\<lambda>t (i, b). PutSlabMeta now i b t) t (map (\<lambda>x. (skString lib (skDigest lib x), encodeSlab x)) xs))"
  using assms(2,3)
proof (induction xs arbitrary: t)
  case Nil
  then show ?case by simp
next
  case (Cons x xs)
  have d: "decodeSlab (encodeSlab x) = Some (Inr (blank_slab x))"
    unfolding decodeSlab_def by (subst encode_heads(2), rule decode_with_reads [OF reads_slab]) (use Cons.prems in simp)
  have "encodeSlab x \<noteq> []" by (subst encode_heads) simp
  with d Cons.prems(1) assms(1) have "sound_slabs lib (PutSlabMeta now (skString lib (skDigest lib x)) (encodeSlab x) t)"
    by (simp add: sound_slabs_def cached_meta_upd blank_slab_def)
  from Cons.IH [OF this] Cons.prems(2) show ?case by simp
qed

lemma sound_slabs_forget: "sound_slabs lib t \<Longrightarrow> sound_slabs lib (foldl (\<lambda>t i. ForgetSlabMeta i t) t is)"
proof (induction "is" arbitrary: t)
  case (Cons i "is")
  have "sound_slabs lib (ForgetSlabMeta i t)" using Cons.prems by (simp add: sound_slabs_def cached_meta_upd)
  from Cons.IH [OF this] show ?case by simp
qed simp

lemma sound_locations_forget: "sound_locations lib ranges t \<Longrightarrow> sound_locations lib ranges (ForgetLocation key t)"
proof -
  have "GetLocation (ForgetLocation key t) k = Inr cl \<Longrightarrow> GetLocation t k = Inr cl" for k cl
    by (auto simp: GetLocation_def location_table.look_forget lookup_row_def not_held_def split: option.splits if_splits)
  then show "sound_locations lib ranges t \<Longrightarrow> ?thesis" unfolding sound_locations_def by blast
qed

lemma sound_locations_put:
  assumes "sound_locations lib ranges t" and "object_fits so" and "slab_ranges lib (soSlabs so) = ranges ref"
  shows "sound_locations lib ranges (PutLocation now (Ref_String ref) slabs (encodeObject lib so) t)"
proof -
  have d: "decodeObject lib (encodeObject lib so) = Some (Inr (blank_object so, map (\<lambda>x. skString lib (skDigest lib x)) (soSlabs so)))"
    unfolding decodeObject_def
    by (subst encode_heads(1), subst decode_with_reads [OF reads_object [OF assms(2)]]) (simp add: comp_def)
  have r: "zip (map (\<lambda>x. skString lib (skDigest lib x)) (soSlabs so)) (map (\<lambda>x. (ssOffset x, ssLength x)) (soSlabs (blank_object so)))
      = ranges ref"
    unfolding assms(3) [symmetric] slab_ranges_def blank_object_def
    by (induction "soSlabs so") (simp_all add: blank_slice_def comp_def zip_map_map zip_same_conv_map)
  have meta: "clMeta cl = encodeObject lib so" if "GetLocation (PutLocation now (Ref_String ref) slabs (encodeObject lib so) t) (Ref_String ref) = Inr cl"
    for cl using that location_table.look_put [of "Ref_String ref" "(now, slabs, encodeObject lib so)" t "Ref_String ref"]
    by (auto simp: GetLocation_def lookup_row_def split: option.splits)
  have other: "key \<noteq> Ref_String ref \<Longrightarrow> GetLocation (PutLocation now (Ref_String ref) slabs (encodeObject lib so) t) key = GetLocation t key"
    for key using location_table.look_put [of "Ref_String ref" "(now, slabs, encodeObject lib so)" t key] by (simp add: GetLocation_def)
  show ?thesis
    unfolding sound_locations_def
  proof (intro allI impI)
    fix key ref' cl so' ids
    assume k: "ParseObjectRef key = Inr ref'" "GetLocation (PutLocation now (Ref_String ref) slabs (encodeObject lib so) t) key = Inr cl"
      "decodeObject lib (clMeta cl) = Some (Inr (so', ids))"
    show "zip ids (map (\<lambda>x. (ssOffset x, ssLength x)) (soSlabs so')) = ranges ref'"
    proof (cases "key = Ref_String ref")
      case True
      then show ?thesis using k d r meta by simp
    next
      case False
      then have "GetLocation t key = Inr cl" using k(2) other by simp
      then show ?thesis using assms(1) k(1,3) unfolding sound_locations_def by blast
    qed
  qed
qed

lemma sound_caches_forget: "sound_caches ve ranges s \<Longrightarrow> sound_caches ve ranges (forgetLocation c s)"
  by (simp add: sound_caches_def forgetLocation_def sound_slabs_forget sound_locations_forget)

lemma sound_caches_cache:
  assumes "content_addressed ve ranges" and "vnObject ve ref n = (Inr so, n1)" and "sound_caches ve ranges s"
  shows "sound_caches ve ranges (cacheLocation ve (splitLocation (sdkLib (vnSdk ve)) ref so) s)"
proof -
  have so: "object_fits so" "\<forall>x \<in> set (soSlabs so). slab_fits x" "slab_ranges (sdkLib (vnSdk ve)) (soSlabs so) = ranges ref"
    using assms(1,2) unfolding content_addressed_def by blast+
  have d: "\<forall>x off len. skDigest (sdkLib (vnSdk ve)) (x\<lparr>ssOffset := off, ssLength := len\<rparr>) = skDigest (sdkLib (vnSdk ve)) x"
    using assms(1) by (simp add: content_addressed_def)
  show ?thesis
    using assms(3) sound_slabs_put [OF d _ so(2)] sound_locations_put [of _ ranges, OF _ so(1,3)]
    by (simp add: sound_caches_def cacheLocation_def splitLocation_def Let_def)
qed

text \<open>What sound caches join to is the object, whatever hosts its slabs are on.\<close>

lemma join_slices_sound:
  assumes "\<forall>x off len. skDigest lib (x\<lparr>ssOffset := off, ssLength := len\<rparr>) = skDigest lib x"
    and "sound_slabs lib t" and "shared \<subseteq>\<^sub>m cached_meta t" and "join_slices shared zs = Some (Inr xs)"
  shows "slab_ranges lib xs = map (\<lambda>(i, own). (i, ssOffset own, ssLength own)) zs"
  using assms(3,4)
proof (induction shared zs arbitrary: xs rule: join_slices.induct)
  case (1 shared)
  then show ?case by (simp add: slab_ranges_def)
next
  case (2 shared i own zs)
  from 2(3) obtain enc x where e: "shared i = Some enc" "decodeSlab enc = Some (Inr x)"
    by (auto simp: panic_def split: option.splits sum.splits)
  with 2(3) obtain r where r: "join_slices shared zs = Some r" by auto
  with 2(3) e obtain ys where x: "shared i = Some enc" "decodeSlab enc = Some (Inr x)" "join_slices shared zs = Some (Inr ys)"
    "xs = x\<lparr>ssOffset := ssOffset own, ssLength := ssLength own\<rparr> # ys"
    by (cases r) auto
  have "cached_meta t i = Some enc" using 2(2) x(1) by (metis domI map_le_def)
  then have "skString lib (skDigest lib x) = i" using assms(2) x(2) by (auto simp: sound_slabs_def)
  with 2(1) [OF x(1,2) refl 2(2) x(3)] x(4) assms(1) show ?case by (simp add: slab_ranges_def)
qed

lemma joined_ranges:
  assumes "content_addressed ve ranges" and "sound_caches ve ranges s" and "ParseObjectRef key = Inr ref"
    and "GetLocation (vaObjects s) key = Inr cl" and "shared \<subseteq>\<^sub>m cached_meta (vaSlabs s)" and "locBytes loc = clMeta cl"
    and "joinLocation (sdkLib (vnSdk ve)) loc shared = Some (Inr so)"
  shows "slab_ranges (sdkLib (vnSdk ve)) (soSlabs so) = ranges ref"
proof -
  obtain so' ids xs where j: "decodeObject (sdkLib (vnSdk ve)) (clMeta cl) = Some (Inr (so', ids))"
      "join_slices shared (zip ids (soSlabs so')) = Some (Inr xs)" "so = so'\<lparr>soSlabs := xs\<rparr>"
    using assms(6,7) by (auto simp: joinLocation_def panic_def split: if_splits option.splits sum.splits)
  have z: "map (\<lambda>(i, own). (i, ssOffset own, ssLength own)) (zip ids ys) = zip ids (map (\<lambda>x. (ssOffset x, ssLength x)) ys)" for ys
    by (induction ids ys rule: list_induct2') simp_all
  have "slab_ranges (sdkLib (vnSdk ve)) xs = map (\<lambda>(i, own). (i, ssOffset own, ssLength own)) (zip ids (soSlabs so'))"
    by (rule join_slices_sound [OF conjunct1 [OF assms(1) [unfolded content_addressed_def]]
        conjunct1 [OF assms(2) [unfolded sound_caches_def]] assms(5) j(2)])
  also have "\<dots> = zip ids (map (\<lambda>x. (ssOffset x, ssLength x)) (soSlabs so'))" by (rule z)
  also have "\<dots> = ranges ref"
    using assms(2-4) j(1) unfolding sound_caches_def sound_locations_def by blast
  finally show ?thesis using j(3) by simp
qed

lemma fetchCached_sound:
  assumes lib: "content_addressed ve ranges"
    and reads: "\<And>n so obj p. slab_ranges (sdkLib (vnSdk ve)) (soSlabs so) = ranges ref \<Longrightarrow> sdkUnseal (vnSdk ve) so = Inr obj
      \<Longrightarrow> vnRead ve n obj = Inr p \<Longrightarrow> p = payload"
    and caches: "sound_caches ve ranges s" and ref: "ParseObjectRef (enObjectRef en) = Inr ref"
  shows "\<exists>r t. fetchCached ve en ref s = Some (Inr r, t) \<and> vaNet t = vaNet s \<and> sound_caches ve ranges t
    \<and> (\<forall>p. r = Some p \<longrightarrow> p = payload)"
proof (cases "GetLocation (vaObjects s) (enObjectRef en)")
  case (Inl e)
  then have "errors_Is e ErrLocalNotFound"
    by (auto simp: GetLocation_def lookup_row_def not_held_def split: option.splits)
  with Inl caches show ?thesis by (auto simp: fetchCached_def)
next
  case (Inr cl)
  obtain o' where o': "gather_slabs ve (vaSlabs s) (clSlabIDs cl) Map.empty = Inr o'"
    "\<And>m. o' = Some m \<Longrightarrow> m \<subseteq>\<^sub>m cached_meta (vaSlabs s)"
    using gather_slabs_cached [of Map.empty "vaSlabs s" ve "clSlabIDs cl"] by auto
  show ?thesis
  proof (cases "vnTTL ve \<le> CachedLocation_Age (vnNow ve) cl \<or> o' = None")
    case True
    with Inr o'(1) caches show ?thesis by (auto simp: fetchCached_def)
  next
    case False
    let ?loc = "\<lparr>locRef = ref, locSlabs = clSlabIDs cl, locBytes = clMeta cl\<rparr>"
    obtain m where m: "o' = Some m" "m \<subseteq>\<^sub>m cached_meta (vaSlabs s)" using False o'(2) by auto
    have "m j \<noteq> Some []" for j
      using m(2) caches unfolding sound_caches_def sound_slabs_def by (metis domI map_le_def)
    then obtain r where r: "download_at ve s ?loc m = Some r"
      using download_at_Some [of m] by fastforce
    have "p = payload" if p: "r = Inr p" for p
    proof -
      obtain so obj where "joinLocation (sdkLib (vnSdk ve)) ?loc m = Some (Inr so)" "sdkUnseal (vnSdk ve) so = Inr obj"
          "vnRead ve (vaNet s) obj = Inr p"
        using r unfolding p by (auto simp: download_at_def DownloadAt_def panic_def rbind_Inr_iff split: option.splits sum.splits)
      then show ?thesis using joined_ranges [OF lib caches ref Inr m(2), of ?loc so] reads [of so obj "vaNet s" p] by simp
    qed
    with r Inr False o'(1) m(1) caches show ?thesis
      by (cases r) (simp_all add: fetchCached_def sound_caches_forget)
  qed
qed

text \<open>C23. The cache of locations costs latency and nothing else.  Let the indexer serve the catalogued object, a read of an object on
  its slab ranges yield its bytes or fail, and the caches be sound: an entry that decodes says what it is kept for, and no slab's
  entry is empty (an empty one ends the process).  Then, whatever is missing, expired, truncated, in another layout, on hosts that
  are gone or refused by the library, a read of a record this device lost succeeds with the record's bytes, and leaves the
  caches sound.\<close>

theorem stale_cache_never_fails_a_read:
  assumes "GetRecord (vaBodies s) i = Inl e" and "Manifest_Lookup (vaManifest s) i = Inr en"
    and "vnOnline ve" and ref: "ParseObjectRef (enObjectRef en) = Inr ref"
    and serves: "vnObject ve ref (vaNet s) = (Inr sealed, n1)" "sdkDownload (vnSdk ve) ref n1 = (Inr payload, n2)"
    and opens: "openBody ve i payload = Inr body"
    and lib: "content_addressed ve ranges"
    and reads: "\<And>n so obj p. slab_ranges (sdkLib (vnSdk ve)) (soSlabs so) = ranges ref \<Longrightarrow> sdkUnseal (vnSdk ve) so = Inr obj
      \<Longrightarrow> vnRead ve n obj = Inr p \<Longrightarrow> p = payload"
    and caches: "sound_caches ve ranges s"
  shows "\<exists>tier t. fetchBody ve i s = Some (Inr (enKind en, body, tier), t) \<and> sound_caches ve ranges t"
proof -
  let ?s = "countMiss TierLocal s"
  have nf: "errors_Is e ErrLocalNotFound" using assms(1)
    by (auto simp: GetRecord_def lookup_row_def not_held_def split: option.splits)
  have "\<exists>r s1. fetchCached ve en ref ?s = Some (Inr r, s1) \<and> vaNet s1 = vaNet s \<and> sound_caches ve ranges s1
      \<and> (\<forall>p. r = Some p \<longrightarrow> p = payload)"
    using fetchCached_sound [where s = ?s, OF lib reads _ ref] caches by (simp add: sound_caches_def)
  then obtain r s1 where s1: "fetchCached ve en ref ?s = Some (Inr r, s1)" "vaNet s1 = vaNet s" "sound_caches ve ranges s1"
    "\<And>p. r = Some p \<Longrightarrow> p = payload" by blast
  have "\<exists>tier s2. fetchRemote ve en ref ?s = Some (Inr (payload, tier), s2) \<and> sound_caches ve ranges s2"
  proof (cases r)
    case (Some p)
    with s1 show ?thesis by (simp add: fetchRemote_def pbind_def prun_def sret_def)
  next
    case None
    let ?s2 = "countMiss TierCached s1\<lparr>vaNet := n2\<rparr>"
    let ?s3 = "cacheLocation ve (splitLocation (sdkLib (vnSdk ve)) ref sealed) ?s2"
    have "fetchRemote ve en ref ?s = Some (Inr (payload, TierNetwork), ?s3)"
      using None s1(1,2) serves
      by (simp add: fetchRemote_def pbind_def prun_def step_defs LocationFor_def on_network_def wrapping_def Client_Download_def)
    moreover have "sound_caches ve ranges ?s3"
      by (rule sound_caches_cache [OF lib serves(1)]) (use s1(3) in \<open>simp add: sound_caches_def\<close>)
    ultimately show ?thesis by blast
  qed
  then obtain tier s2 where "fetchRemote ve en ref ?s = Some (Inr (payload, tier), s2)" "sound_caches ve ranges s2" by blast
  with assms(1-4) opens nf show ?thesis
    by (simp add: fetchBody_def pbind_def prun_def step_defs put_body_def Let_def sound_caches_def)
qed

text \<open>What a writer sealed and framed under the vault's key opens to what was written.\<close>

lemma openBody_sealed:
  assumes "crypto_ok (vnCrypto ve)" and "length nonce = NonceSize"
    and "Seal (vnCrypto ve) (vnSealer ve) (Inr nonce) m = Inr b"
    and "FrameRecord k i b = Inr payload" and "length b + 21 < 2 ^ 64"
  shows "openBody ve i payload = Inr m"
proof -
  have "Unframe payload = Inr (\<lparr>frKind = k, frID = i, frSealed = b\<rparr>, [])"
    using Unframe_FrameRecord [OF assms(4,5), of "[]"] by simp
  with Open_Seal(1) [OF assms(1-3)] show ?thesis by (simp add: openBody_def)
qed

definition catalogued :: "recid \<Rightarrow> manifest \<Rightarrow> manifest" where
  "catalogued i m = m\<lparr>mfEntries := (mfEntries m)(i \<mapsto> (demo_entry i)\<lparr>enObjectRef := Ref_String 9\<rparr>)\<rparr>"

lemma demo_payload:
  obtains payload where "\<And>ve :: byte list list venv. vnCrypto ve = plain_crypto \<Longrightarrow> vnSealer ve = \<lparr>slRecord = [], slContent = []\<rparr>
    \<Longrightarrow> openBody ve 4 payload = Inr [1, 2]"
proof -
  obtain b where b: "Seal plain_crypto \<lparr>slRecord = [], slContent = []\<rparr> (Inr (replicate 24 0)) [1, 2] = Inr b" "length b = 42"
    by (simp add: Seal_def plain_crypto_def)
  obtain payload where "FrameRecord KindMemory 4 b = Inr payload"
    by (simp add: FrameRecord_def kindCode_def Let_def)
  then have "vnCrypto ve = plain_crypto \<Longrightarrow> vnSealer ve = \<lparr>slRecord = [], slContent = []\<rparr>
      \<Longrightarrow> openBody ve 4 payload = Inr [1, 2]" for ve :: "byte list list venv"
    using openBody_sealed [of ve "replicate 24 0" "[1, 2]" b KindMemory 4 payload] b plain_crypto_ok
    by (simp add: NonceSize_def)
  then show thesis by (rule that)
qed

text \<open>A network that serves one payload, to a vault that catalogs one record it does not hold.\<close>

definition serving :: "byte list \<Rightarrow> byte list list venv" where
  "serving payload = demo_venv\<lparr>vnReclaimer := demo_reclaimer\<lparr>rcSdk := demo_sdk\<lparr>sdkDownload := (\<lambda>_ n. (Inr payload, n))\<rparr>\<rparr>,
     vnRead := (\<lambda>_ _. Inr payload)\<rparr>"

definition cataloguing_vault :: "byte list list vault" where
  "cataloguing_vault = demo_vault\<lparr>vaManifest := catalogued 4 empty_manifest\<rparr>"

lemma serving_sel:
  "vnCrypto (serving p) = plain_crypto" "vnSealer (serving p) = \<lparr>slRecord = [], slContent = []\<rparr>" "vnOnline (serving p)"
  "vnObject (serving p) r n = (Inr demo_object, n)" "sdkDownload (vnSdk (serving p)) r n = (Inr p, n)"
  by (simp_all add: serving_def demo_venv_def)

lemma cataloguing_vault_sel:
  "GetRecord (vaBodies cataloguing_vault) 4 = Inl (GoErr [ErrLocalNotFound] ''body'')"
  "Manifest_Lookup (vaManifest cataloguing_vault) 4 = Inr ((demo_entry 4)\<lparr>enObjectRef := Ref_String 9\<rparr>)"
  "cached_meta (vaSlabs cataloguing_vault) j = None"
  "GetLocation (vaObjects cataloguing_vault) r = Inl (GoErr [ErrLocalNotFound] ''location'')"
  by (simp_all add: cataloguing_vault_def demo_vault_def GetRecord_def GetLocation_def cached_meta_def catalogued_def
        Manifest_Lookup_def demo_entry_def)

text \<open>A device that lost a record after caching where it is.\<close>

definition caching_vault :: "byte list \<Rightarrow> byte list list vault" where
  "caching_vault p = cacheLocation (serving p) (splitLocation (sdkLib (vnSdk (serving p))) 9 demo_object) cataloguing_vault"

lemma serving_addressed:
  "content_addressed (serving p) (\<lambda>_. slab_ranges demo_lib (soSlabs demo_object))"
  "sdkLib (vnSdk (serving p)) = demo_lib" "vnRead (serving p) n x = Inr p"
  by (simp_all add: content_addressed_def serving_def demo_venv_def demo_reclaimer_def demo_sdk_def demo_lib_def object_fits_def
    nano_time_def slab_fits_def demo_object_def demo_slice_def)

lemma caching_vault_sound: "sound_caches (serving p) (\<lambda>_. slab_ranges demo_lib (soSlabs demo_object)) (caching_vault p)"
proof -
  have "sound_caches (serving p) (\<lambda>_. slab_ranges demo_lib (soSlabs demo_object)) cataloguing_vault"
    by (simp add: sound_caches_def sound_slabs_def sound_locations_def cataloguing_vault_sel)
  from sound_caches_cache [OF serving_addressed(1) serving_sel(4) this] show ?thesis by (simp add: caching_vault_def)
qed

theorem stale_cache_never_fails_a_read_witness:
  "vaObjects (caching_vault [7]) \<noteq> [] \<and> vaSlabs (caching_vault [7]) \<noteq> []
   \<and> (\<exists>payload tier t. fetchBody (serving payload) 4 (caching_vault payload) = Some (Inr (KindMemory, [1, 2], tier), t))"
proof -
  obtain payload where p: "openBody (serving payload) 4 payload = Inr [1, 2]"
    using demo_payload serving_sel(1,2) by metis
  have "vaObjects (caching_vault [7]) \<noteq> []" "vaSlabs (caching_vault [7]) \<noteq> []"
    by (simp_all add: caching_vault_def cacheLocation_def splitLocation_def Let_def demo_object_def cataloguing_vault_def demo_vault_def
      PutLocation_def PutSlabMeta_def)
  moreover have "\<exists>tier t. fetchBody (serving payload) 4 (caching_vault payload)
      = Some (Inr (enKind ((demo_entry 4)\<lparr>enObjectRef := Ref_String 9\<rparr>), [1, 2], tier), t)
      \<and> sound_caches (serving payload) (\<lambda>_. slab_ranges demo_lib (soSlabs demo_object)) t"
    by (rule stale_cache_never_fails_a_read [where e = "GoErr [ErrLocalNotFound] ''body''" and ref = 9,
        OF _ _ serving_sel(3) _ serving_sel(4,5) p serving_addressed(1) _ caching_vault_sound])
      (simp_all add: caching_vault_def cataloguing_vault_sel serving_addressed)
  ultimately show ?thesis by (auto simp: demo_entry_def)
qed

theorem fetchBody_authentic_then_local_witness:
  "\<exists>payload body t. fetchBody (serving payload) 4 cataloguing_vault = Some (Inr (KindMemory, body, TierNetwork), t)
     \<and> read_from_network (serving payload) 9 payload cataloguing_vault
     \<and> fetchBody (serving payload) 4 t = Some (Inr (KindMemory, body, TierLocal), countRead (serving payload) TierLocal t)"
proof -
  obtain payload where p: "openBody (serving payload) 4 payload = Inr [1, 2]"
    using demo_payload serving_sel(1,2) by metis
  have "fetchCached (serving payload) ((demo_entry 4)\<lparr>enObjectRef := Ref_String 9\<rparr>) 9 (countMiss TierLocal cataloguing_vault)
      = Some (Inr None, countMiss TierLocal cataloguing_vault)"
    by (simp add: fetchCached_def cataloguing_vault_sel)
  then have "\<exists>s1. fetchRemote (serving payload) ((demo_entry 4)\<lparr>enObjectRef := Ref_String 9\<rparr>) 9 (countMiss TierLocal cataloguing_vault)
      = Some (Inr (payload, TierNetwork), s1)"
    by (simp add: fetchRemote_def pbind_def prun_def step_defs LocationFor_def on_network_def wrapping_def Client_Download_def serving_sel)
  then obtain t where t: "fetchBody (serving payload) 4 cataloguing_vault = Some (Inr (KindMemory, [1, 2], TierNetwork), t)"
    by (auto simp: fetchBody_def cataloguing_vault_sel serving_sel p pbind_def prun_def step_defs put_body_def Let_def demo_entry_def)
  note local = conjunct2 [OF conjunct2 [OF conjunct2 [OF fetchBody_authentic_then_local [OF t]]]]
  have "read_from_network (serving payload) 9 payload cataloguing_vault"
    by (simp add: read_from_network_def serving_sel)
  with t local show ?thesis by blast
qed

end
