(* ===== verification/VaultFlush.thy ===== *)
theory VaultFlush
  imports VaultFetch
begin

text \<open>
  The write path of \<open>vault/remember.go\<close> and \<open>vault/vault.go\<close> that every record shares: sealing a body
  into a framed blob, queueing it, flushing the queue to the network, and what a completed flush
  catalogs; and \<open>WaitReady\<close> of \<open>sia/account.go\<close>, which holds the first flush of a process.
\<close>

section \<open>Waiting for an account to be funded\<close>

text \<open>One turn per reading of the clock; when the turns given run out the wait has not ended yet.\<close>

fun WaitReady :: "'n sdk \<Rightarrow> gotime \<Rightarrow> (gotime \<times> bool) list \<Rightarrow> ('n, account) run" where
  "WaitReady k deadline [] n = None"
| "WaitReady k deadline ((now, cancelled) # turns) n = (case Client_Account k n of
     (Inl e, n') \<Rightarrow> Some (Inl e, n')
   | (Inr a, n') \<Rightarrow> if acReady a then Some (Inr a, n')
       else if deadline < now then Some (fail [] ''account not ready: the indexer is still funding host accounts'', n')
       else if cancelled then Some (fail [] ''context canceled'', n')
       else WaitReady k deadline turns n')"

definition FirstWriteBudget :: int where "FirstWriteBudget = 90 * Second"

definition Vault_WaitReady :: "'n venv \<Rightarrow> int \<Rightarrow> ('n vault, account) run" where
  "Vault_WaitReady ve budget s =
    (if \<not> vnOnline ve then Some (fail [ErrVaultOffline] ''vault is open offline'', s)
     else case WaitReady (vnSdk ve) (vnNow ve + budget) (vnTurns ve) (vaNet s) of
       None \<Rightarrow> None
     | Some (Inl e, n) \<Rightarrow> Some (Inl e, s\<lparr>vaNet := n\<rparr>)
     | Some (Inr a, n) \<Rightarrow> Some (Inr a, s\<lparr>vaNet := n, vaReady := True\<rparr>))"

definition awaitFirstWrite :: "'n venv \<Rightarrow> ('n vault, unit) run" where
  "awaitFirstWrite ve s =
    (if \<not> vnOnline ve \<or> vaReady s then Some (Inr (), s)
     else pbind (Vault_WaitReady ve FirstWriteBudget) (\<lambda>_. prun (sret ())) s)"

section \<open>Cataloguing a flush\<close>

text \<open>What the flush wrote under each content address; of two writes under one, the later.\<close>

definition by_cid :: "written list \<Rightarrow> string \<rightharpoonup> written" where
  "by_cid ws = map_of (rev (map (\<lambda>w. (wrCID w, w)) ws))"

definition entry_for :: "'n venv \<Rightarrow> ranking_db \<Rightarrow> queued_item \<Rightarrow> cid \<Rightarrow> written \<Rightarrow> mentry" where
  "entry_for ve db q c w =
    (let meta = RankingMetaFor db (qiID q) in
     \<lparr>enID = qiID q, enKind = qiKind q,
      enType = (case meta of Inl _ \<Rightarrow> [] | Inr m \<Rightarrow> rmType m), enVersion = 1, enCID = c,
      enObjectRef = Ref_String (wrRef w), enSlabID = wrSlab w, enBytes = int (wrBytes w),
      enTags = (case meta of Inl _ \<Rightarrow> [] | Inr m \<Rightarrow> rmTags m), enWrittenAt = vnNow ve, enDeleted = False\<rparr>)"

definition catalog_one :: "'n venv \<Rightarrow> (string \<rightharpoonup> written) \<Rightarrow> queued_item \<Rightarrow> ('n vault, unit) step" where
  "catalog_one ve byCID q s =
    (case byCID (blCID (qiBlob q)) of
       None \<Rightarrow> (fail [] ''catalog: the flush reported no object for it'', s)
     | Some w \<Rightarrow> (case ParseCID (blCID (qiBlob q)) of
         Inl e \<Rightarrow> (Inl (wrap_err ''catalog: '' e), s)
       | Inr c \<Rightarrow> wrapping ''catalog: '' (on_catalog ve
           (\<lambda>io. Manifest_Append (vnCatalog ve) io (entry_for ve (vaRanking s) q c w))) s))"

definition track_one :: "'n venv \<Rightarrow> presult \<Rightarrow> slabid \<Rightarrow> ('n vault, unit) step" where
  "track_one ve r i = wrapping ''track slab: ''
     (on_reclaimer (Track (vnReclaimer ve) i (int (length (prRecords r))) (int (Flush_Bytes (prFlush r)))))"

definition recordFlush :: "'n venv \<Rightarrow> presult \<Rightarrow> ('n vault, unit) step" where
  "recordFlush ve r =
    sbind (smap_list (catalog_one ve (by_cid (fWritten (prFlush r)))) (prRecords r)) (\<lambda>_.
      smap_list (track_one ve r) (fSlabs (prFlush r)))"

section \<open>The queue in the vault\<close>

definition vault_flusher :: "'n venv \<Rightarrow> 'n vault flusher" where
  "vault_flusher ve = \<lparr>flPut = (\<lambda>blobs. on_network (PutBatch (vnSdk ve) (vnUploads ve) blobs)),
     flHook = Some (recordFlush ve), flDB = vnQueueFails ve\<rparr>"

definition on_packer :: "(packer \<times> 'n vault, presult) call \<Rightarrow> ('n vault, presult) step" where
  "on_packer m s = (case m (vaPacker s, s) of
     ((res, err), (p, s')) \<Rightarrow> (case err of Some e \<Rightarrow> Inl e | None \<Rightarrow> Inr res, s'\<lparr>vaPacker := p\<rparr>))"

text \<open>\<open>Flush\<close> answers \<open>None\<close> where nothing was queued.\<close>

definition Vault_Flush :: "'n venv \<Rightarrow> ('n vault, flush option) run" where
  "Vault_Flush ve = pbind (awaitFirstWrite ve) (\<lambda>_. prun (
     sbind (on_packer (Packer_Flush (vault_flusher ve) (vnNow ve))) (\<lambda>r.
       sret (if Result_Empty r then None else Some (prFlush r)))))"

definition Vault_Pending :: "'n vault \<Rightarrow> int" where "Vault_Pending s = Packer_Pending (vaPacker s)"

section \<open>A record on its way out\<close>

text \<open>The content address and the framed blob of a body, one read of the random source in between.\<close>

definition seal_body :: "'n venv \<Rightarrow> recid \<Rightarrow> kind \<Rightarrow> byte list \<Rightarrow> ('n vault, cid \<times> byte list) step" where
  "seal_body ve i k body =
    sbind (draw ve NonceSize) (\<lambda>r.
    sbind (slift (Seal (vnCrypto ve) (vnSealer ve) r body)) (\<lambda>sealed.
    sbind (slift (FrameRecord k i sealed)) (\<lambda>framed.
      sret (Sealer_CID (vnCrypto ve) (vnSealer ve) body, framed))))"

definition queue_blob :: "'n venv \<Rightarrow> recid \<Rightarrow> kind \<Rightarrow> cid \<Rightarrow> byte list \<Rightarrow> ('n vault, presult) step" where
  "queue_blob ve i k c framed = on_packer (Packer_Add (vault_flusher ve) (vnNow ve)
     \<lparr>qiID = i, qiKind = k, qiBlob = \<lparr>blCID = CID_String c, blPayload = framed\<rparr>, qiSince = 0\<rparr>)"

section \<open>What a flush leaves in the catalog and in the ledger\<close>

lemma Manifest_Append_Inr:
  "Manifest_Append env io e m = (Inr u, m') \<Longrightarrow> mfEntries m' = (mfEntries m)(enID e \<mapsto> e)"
  by (auto simp: Manifest_Append_def Manifest_append_def Manifest_Compact_def split: sum.splits prod.splits if_splits)

text \<open>What cataloguing a flush may change: the catalog and the ledger, and nothing else a read goes by.\<close>

definition apart_from_catalog :: "'n vault \<Rightarrow> 'n vault \<Rightarrow> bool" where
  "apart_from_catalog s t \<longleftrightarrow> vaBodies t = vaBodies s \<and> vaHeads t = vaHeads s \<and> vaRanking t = vaRanking s
     \<and> vaObjects t = vaObjects s \<and> vaSlabs t = vaSlabs s \<and> vaNet t = vaNet s"

lemma apart_refl: "apart_from_catalog s s"
  by (simp add: apart_from_catalog_def)

lemma apart_trans: "apart_from_catalog s t \<Longrightarrow> apart_from_catalog t u \<Longrightarrow> apart_from_catalog s u"
  by (simp add: apart_from_catalog_def)

lemma on_catalog_Inr:
  "on_catalog ve m s = (Inr x, t) \<Longrightarrow> \<exists>io mf. m io (vaManifest s) = (Inr x, mf)
     \<and> t = s\<lparr>vaManifest := mf, vaFileOps := vaFileOps s + 1\<rparr>"
  by (auto simp: on_catalog_def split: prod.splits)

lemma catalog_one_Inr:
  assumes "catalog_one ve byCID q s = (Inr u, t)"
  shows "apart_from_catalog s t \<and> vaLedger t = vaLedger s
     \<and> (\<exists>w c. byCID (blCID (qiBlob q)) = Some w \<and> ParseCID (blCID (qiBlob q)) = Inr c
          \<and> mfEntries (vaManifest t) = (mfEntries (vaManifest s))(qiID q \<mapsto> entry_for ve (vaRanking s) q c w))"
proof -
  obtain w c where w: "byCID (blCID (qiBlob q)) = Some w" "ParseCID (blCID (qiBlob q)) = Inr c"
    "on_catalog ve (\<lambda>io. Manifest_Append (vnCatalog ve) io (entry_for ve (vaRanking s) q c w)) s = (Inr u, t)"
    using assms by (auto simp: catalog_one_def split: option.splits sum.splits)
  obtain io mf where mf: "Manifest_Append (vnCatalog ve) io (entry_for ve (vaRanking s) q c w) (vaManifest s) = (Inr u, mf)"
    "t = s\<lparr>vaManifest := mf, vaFileOps := vaFileOps s + 1\<rparr>"
    using on_catalog_Inr [OF w(3)] by blast
  have "enID (entry_for ve (vaRanking s) q c w) = qiID q" by (simp add: entry_for_def Let_def)
  with Manifest_Append_Inr [OF mf(1)] mf(2) w(1,2) show ?thesis by (simp add: apart_from_catalog_def)
qed

definition catalogued_as :: "'n venv \<Rightarrow> (string \<rightharpoonup> written) \<Rightarrow> ranking_db \<Rightarrow> queued_item list \<Rightarrow> recid \<Rightarrow> mentry option \<Rightarrow> bool" where
  "catalogued_as ve byCID db qs i e \<longleftrightarrow> (\<exists>q \<in> set qs. qiID q = i \<and> (\<exists>w c. byCID (blCID (qiBlob q)) = Some w
     \<and> ParseCID (blCID (qiBlob q)) = Inr c \<and> e = Some (entry_for ve db q c w)))"

lemma catalog_all_Inr:
  "smap_list (catalog_one ve byCID) qs s = (Inr u, t) \<Longrightarrow> apart_from_catalog s t \<and> vaLedger t = vaLedger s
     \<and> (\<forall>i. mfEntries (vaManifest t) i = mfEntries (vaManifest s) i \<and> i \<notin> qiID ` set qs
          \<or> catalogued_as ve byCID (vaRanking s) qs i (mfEntries (vaManifest t) i))"
proof (induction qs arbitrary: s)
  case Nil
  then show ?case by (simp add: sret_def apart_refl)
next
  case (Cons q qs)
  then obtain v s1 where s1: "catalog_one ve byCID q s = (Inr v, s1)"
    "smap_list (catalog_one ve byCID) qs s1 = (Inr u, t)" by (auto simp: sbind_Inr_iff)
  note A = catalog_one_Inr [OF s1(1)] and B = Cons.IH [OF s1(2)]
  have rk: "vaRanking s1 = vaRanking s" using A by (simp add: apart_from_catalog_def)
  show ?case
  proof (intro conjI allI)
    show "apart_from_catalog s t" using A B apart_trans by blast
    show "vaLedger t = vaLedger s" using A B by simp
    fix i
    have "i \<notin> qiID ` set (q # qs) \<Longrightarrow> i \<noteq> qiID q \<and> i \<notin> qiID ` set qs" by simp
    moreover have "catalogued_as ve byCID (vaRanking s) qs i e \<Longrightarrow> catalogued_as ve byCID (vaRanking s) (q # qs) i e" for e
      by (auto simp: catalogued_as_def)
    moreover have "catalogued_as ve byCID (vaRanking s) (q # qs) (qiID q) (mfEntries (vaManifest s1) (qiID q))"
      using A by (auto simp: catalogued_as_def)
    ultimately show "mfEntries (vaManifest t) i = mfEntries (vaManifest s) i \<and> i \<notin> qiID ` set (q # qs)
      \<or> catalogued_as ve byCID (vaRanking s) (q # qs) i (mfEntries (vaManifest t) i)"
      using A conjunct2 [OF conjunct2 [OF B], rule_format, of i] rk by (cases "i = qiID q") auto
  qed
qed

lemma track_one_Inr:
  assumes "track_one ve r i s = (Inr u, t)"
  shows "apart_from_catalog s t \<and> vaManifest t = vaManifest s \<and> (i \<noteq> [] \<longrightarrow> releasable (vaLedger t) i)
     \<and> (\<forall>j. releasable (vaLedger s) j \<longrightarrow> releasable (vaLedger t) j)"
  using assms
  by (auto simp: track_one_def on_reclaimer_def Track_def stmt_def sret_def rworld_of_def vault_of_def apart_from_catalog_def
      releasable_def TrackSlab_def trackSlab_def SlabOrigin_Releasable_def SlabHydrated_def SlabPinned_def
      split: prod.splits option.splits if_splits)

lemma track_all_Inr:
  "smap_list (track_one ve r) is s = (Inr u, t) \<Longrightarrow> apart_from_catalog s t \<and> vaManifest t = vaManifest s
     \<and> (\<forall>i \<in> set is. i \<noteq> [] \<longrightarrow> releasable (vaLedger t) i) \<and> (\<forall>j. releasable (vaLedger s) j \<longrightarrow> releasable (vaLedger t) j)"
proof (induction "is" arbitrary: s)
  case Nil
  then show ?case by (simp add: sret_def apart_refl)
next
  case (Cons i "is")
  then obtain v s1 where s1: "track_one ve r i s = (Inr v, s1)" "smap_list (track_one ve r) is s1 = (Inr u, t)"
    by (auto simp: sbind_Inr_iff)
  from track_one_Inr [OF s1(1)] Cons.IH [OF s1(2)] show ?case using apart_trans by auto
qed

lemma recordFlush_Inr:
  assumes "recordFlush ve r s = (Inr u, t)"
  shows "apart_from_catalog s t" "i \<in> set (fSlabs (prFlush r)) \<Longrightarrow> i \<noteq> [] \<Longrightarrow> releasable (vaLedger t) i"
    "q \<in> set (prRecords r) \<Longrightarrow> \<exists>q' \<in> set (prRecords r). qiID q' = qiID q \<and> (\<exists>w c.
        by_cid (fWritten (prFlush r)) (blCID (qiBlob q')) = Some w
        \<and> mfEntries (vaManifest t) (qiID q) = Some (entry_for ve (vaRanking s) q' c w))"
    "j \<notin> qiID ` set (prRecords r) \<Longrightarrow> mfEntries (vaManifest t) j = mfEntries (vaManifest s) j"
proof -
  obtain v s1 where s1: "smap_list (catalog_one ve (by_cid (fWritten (prFlush r)))) (prRecords r) s = (Inr v, s1)"
    "smap_list (track_one ve r) (fSlabs (prFlush r)) s1 = (Inr u, t)"
    using assms by (auto simp: recordFlush_def sbind_Inr_iff)
  note A = catalog_all_Inr [OF s1(1)] and B = track_all_Inr [OF s1(2)]
  show "apart_from_catalog s t" using A B apart_trans by blast
  show "i \<in> set (fSlabs (prFlush r)) \<Longrightarrow> i \<noteq> [] \<Longrightarrow> releasable (vaLedger t) i" using B by blast
  show "j \<notin> qiID ` set (prRecords r) \<Longrightarrow> mfEntries (vaManifest t) j = mfEntries (vaManifest s) j"
    using conjunct2 [OF conjunct2 [OF A], rule_format, of j] B by (auto simp: catalogued_as_def)
  assume q: "q \<in> set (prRecords r)"
  have "qiID q \<in> qiID ` set (prRecords r)" using q by blast
  with conjunct2 [OF conjunct2 [OF A], rule_format, of "qiID q"] B
  show "\<exists>q' \<in> set (prRecords r). qiID q' = qiID q \<and> (\<exists>w c.
        by_cid (fWritten (prFlush r)) (blCID (qiBlob q')) = Some w
        \<and> mfEntries (vaManifest t) (qiID q) = Some (entry_for ve (vaRanking s) q' c w))"
    by (auto simp: catalogued_as_def)
qed

section \<open>What left the queue can be read back from the network alone\<close>

lemma by_cid_in: "by_cid ws c = Some w \<Longrightarrow> w \<in> set ws \<and> wrCID w = c"
  by (auto simp: by_cid_def dest!: map_of_SomeD)

lemma on_packer_Inr:
  "on_packer m s = (Inr r, t) \<Longrightarrow> \<exists>p s'. m (vaPacker s, s) = ((r, None), (p, s')) \<and> t = s'\<lparr>vaPacker := p\<rparr>"
  by (auto simp: on_packer_def split: prod.splits option.splits)

text \<open>A flush that answered: what was written, what was catalogued, and what the queue lost.\<close>

lemma vault_flush_Inr:
  assumes "on_packer (Packer_flush (vault_flusher ve) now reason) s = (Inr r, t)"
    and ok: "queue_ok (pkQueue (vaPacker s))"
    and left: "queued (pkQueue (vaPacker s)) i = Some c" "queued (pkQueue (vaPacker t)) i = None"
  obtains s1 u t1 q where "recordFlush ve r s1 = (Inr u, t1)" "t = t1\<lparr>vaPacker := vaPacker t\<rparr>"
    "s1 = s\<lparr>vaNet := vaNet t\<rparr>"
    "PutBatch (vnSdk ve) (vnUploads ve) (map qiBlob (prRecords r)) (vaNet s) = (Inr (prFlush r), vaNet t)"
    "q \<in> set (prRecords r)" "qiID q = i" "\<And>q'. q' \<in> set (prRecords r) \<Longrightarrow> qiID q' = i \<Longrightarrow> item_sealed q' = c"
proof -
  obtain p s' where f: "Packer_flush (vault_flusher ve) now reason (vaPacker s, s) = ((r, None), (p, s'))"
    and t: "t = s'\<lparr>vaPacker := p\<rparr>" using on_packer_Inr [OF assms(1)] by blast
  have sel: "flPut (vault_flusher ve) bs = on_network (PutBatch (vnSdk ve) (vnUploads ve) bs)"
    "flHook (vault_flusher ve) = Some (recordFlush ve)" for bs by (simp_all add: vault_flusher_def)
  show thesis
    using f
  proof (cases rule: Packer_flush_cases)
    case (idle q1)
    then show thesis using claim_facts(2) [OF ok idle(1), of i] left t by simp
  next
    case (written cl q1 f w1)
    note C = claim_facts [OF ok written(2)]
    obtain n where n: "PutBatch (vnSdk ve) (vnUploads ve) (map qiBlob (map item_of cl)) (vaNet s) = (Inr f, n)"
      "w1 = s\<lparr>vaNet := n\<rparr>" using on_network_sel written(3) sel(1) by metis
    have rec: "recordFlush ve r w1 = (Inr (), s')" using written(5) sel(2) by simp
    have "vaNet s' = n" using recordFlush_Inr(1) [OF rec] n(2) by (simp add: apart_from_catalog_def)
    then have net: "vaNet t = n" using t by simp
    have "i \<in> qbID ` set cl" using left written(6) C(2) t by (auto simp: fq.waiting_drop split: if_splits)
    then obtain b where b: "b \<in> set cl" "qbID b = i" by blast
    have sealed: "item_sealed q' = c" if "q' \<in> set (prRecords r)" "qiID q' = i" for q'
      using that written(4) C(4) left(1) by auto
    show thesis
      by (rule that [OF rec _ _ _ _ _ sealed, of "item_of b"]) (use n net t b written(4) in simp_all)
  qed (use left t in simp_all)
qed

lemma awaitFirstWrite_keeps:
  assumes "awaitFirstWrite ve s = Some (r, t)"
  shows "t = s\<lparr>vaNet := vaNet t, vaReady := vaReady t\<rparr>"
  using assms
  by (auto simp: awaitFirstWrite_def Vault_WaitReady_def pbind_def prun_def sret_def
        split: if_splits option.splits sum.splits prod.splits)

lemma fetch_from_network:
  assumes "row_of (vaBodies s) i = None" and "Manifest_Lookup (vaManifest s) i = Inr en" and "vnOnline ve"
    and "ParseObjectRef (enObjectRef en) = Inr ref" and "row_of (vaObjects s) (enObjectRef en) = None"
    and "vnObject ve ref (vaNet s) = (Inr sealed, n1)" "sdkDownload (vnSdk ve) ref n1 = (Inr payload, n2)"
    and "openBody ve i payload = Inr body"
  shows "\<exists>t. fetchBody ve i s = Some (Inr (enKind en, body, TierNetwork), t)"
  using assms
  by (simp add: fetchBody_def GetRecord_def fetchRemote_def fetchCached_def GetLocation_def LocationFor_def
        on_network_def wrapping_def Client_Download_def pbind_def prun_def step_defs put_body_def Let_def)

text \<open>C24. From the queue to the network and back: a record that left the queue through a flush which
  answered is catalogued where the network put it.  Even when this device then loses its own copy
  of the record, a read returns the body that was sealed, provided the network serves the object
  it reported; and every slab the flush was billed for is in the ledger as this vault's to release.
\<close>

theorem flushed_record_survives_the_device:
  assumes flush: "Vault_Flush ve s = Some (Inr (Some f), t)" and "vnOnline ve" and ok: "queue_ok (pkQueue (vaPacker s))"
    and left: "queued (pkQueue (vaPacker s)) i = Some (c, payload)" "queued (pkQueue (vaPacker t)) i = None"
    and opens: "openBody ve i payload = Inr body"
    and serves: "\<And>w. w \<in> set (fWritten f) \<Longrightarrow> wrCID w = c \<Longrightarrow> \<exists>sealed n1 n2.
        vnObject ve (wrRef w) (vaNet t) = (Inr sealed, n1) \<and> sdkDownload (vnSdk ve) (wrRef w) n1 = (Inr payload, n2)"
    and fresh: "\<And>w. w \<in> set (fWritten f) \<Longrightarrow> wrCID w = c \<Longrightarrow> row_of (vaObjects s) (Ref_String (wrRef w)) = None"
  shows "(\<exists>k t'. fetchBody ve i (ForgetLocally i t) = Some (Inr (k, body, TierNetwork), t'))
     \<and> (\<forall>x \<in> set (fSlabs f). x \<noteq> [] \<longrightarrow> releasable (vaLedger t) x)"
proof -
  obtain s0 r where s0: "awaitFirstWrite ve s = Some (Inr (), s0)"
    and r: "on_packer (Packer_Flush (vault_flusher ve) (vnNow ve)) s0 = (Inr r, t)" "f = prFlush r"
    using flush by (auto simp: Vault_Flush_def pbind_Inr_iff prun_def sbind_Inr_iff sret_def split: if_splits)
  have s0': "s0 = s\<lparr>vaNet := vaNet s0, vaReady := vaReady s0\<rparr>" by (rule awaitFirstWrite_keeps [OF s0])
  have pk: "vaPacker s0 = vaPacker s" by (subst s0') simp
  have ob: "vaObjects s0 = vaObjects s" by (subst s0') simp
  obtain s1 u t1 q where rec: "recordFlush ve r s1 = (Inr u, t1)" "t = t1\<lparr>vaPacker := vaPacker t\<rparr>"
      "s1 = s0\<lparr>vaNet := vaNet t\<rparr>" "q \<in> set (prRecords r)" "qiID q = i"
    and same: "\<And>q'. q' \<in> set (prRecords r) \<Longrightarrow> qiID q' = i \<Longrightarrow> item_sealed q' = (c, payload)"
    using vault_flush_Inr [OF r(1) [unfolded Packer_Flush_def], of i "(c, payload)"] ok left pk by (metis (no_types, lifting))
  obtain q' w x where w: "q' \<in> set (prRecords r)" "qiID q' = i"
      "by_cid (fWritten (prFlush r)) (blCID (qiBlob q')) = Some w"
      "mfEntries (vaManifest t1) i = Some (entry_for ve (vaRanking s1) q' x w)"
    using recordFlush_Inr(3) [OF rec(1,4)] rec(5) by auto
  have "blCID (qiBlob q') = c" using same [OF w(1,2)] by (simp add: item_sealed_def)
  then have wr: "w \<in> set (fWritten f)" "wrCID w = c" using by_cid_in [OF w(3)] r(2) by simp_all
  have t: "vaManifest t = vaManifest t1" "vaObjects t = vaObjects s" "vaLedger t = vaLedger t1"
    using rec(2) recordFlush_Inr(1) [OF rec(1)] rec(3) ob
    by (simp_all add: apart_from_catalog_def) (metis vault.ext_inject vault.surjective vault.update_convs(13))+
  obtain sealed n1 n2 where n: "vnObject ve (wrRef w) (vaNet t) = (Inr sealed, n1)"
    "sdkDownload (vnSdk ve) (wrRef w) n1 = (Inr payload, n2)" using serves [OF wr] by blast
  let ?t = "ForgetLocally i t"
  have e: "Manifest_Lookup (vaManifest ?t) i = Inr (entry_for ve (vaRanking s1) q' x w)"
    using w(4) t(1) by (simp add: ForgetLocally_def Manifest_Lookup_def entry_for_def Let_def)
  have "\<exists>t'. fetchBody ve i ?t = Some (Inr (enKind (entry_for ve (vaRanking s1) q' x w), body, TierNetwork), t')"
    by (rule fetch_from_network [OF _ e assms(2) _ _ _ n(2) opens])
       (use fresh [OF wr] t(2) n(1) in \<open>simp_all add: ForgetLocally_def ForgetBody_def entry_for_def Let_def\<close>)
  moreover have "\<forall>y \<in> set (fSlabs f). y \<noteq> [] \<longrightarrow> releasable (vaLedger t) y"
    using recordFlush_Inr(2) [OF rec(1)] r(2) t(3) by simp
  ultimately show ?thesis by blast
qed

text \<open>A vault with one record queued, whose catalog writes empty lines.\<close>

definition line_env :: menv where
  "line_env = demo_env\<lparr>meMarshal := (\<lambda>_. Inr []), meRand := (\<lambda>_. Inr []), meCrypto := plain_crypto\<lparr>cAeadSeal := (\<lambda>_ _ m. m)\<rparr>\<rparr>"

lemma line_append: "\<exists>m. Manifest_Append line_env io_ok e empty_manifest = (Inr (), m)"
  by (simp add: Manifest_Append_def Manifest_append_def Log_Append_def Let_def encodeEntry_def line_env_def demo_env_def Seal_def
      plain_crypto_def io_ok_def empty_manifest_def empty_log_def dueForCompaction_def MinCompactBytes_def maxLineBytes_def)

definition one_queued :: "byte list \<Rightarrow> packer" where
  "one_queued payload = demo_packer\<lparr>pkOnline := True, pkQueue := Enqueue 0
     \<lparr>qbID = 4, qbKind = KindMemory, qbCID = CID_String 7, qbPayload = payload, qbQueuedAt = 0, qbSeq = 0\<rparr> []\<rparr>"

definition queued_vault :: "byte list \<Rightarrow> byte list list vault" where
  "queued_vault payload = demo_vault\<lparr>vaReady := True, vaPacker := one_queued payload\<rparr>"

lemma demo_slab_named: "hex_encode (be_bytes 32 5) \<noteq> []"
proof -
  have "be_bytes 32 5 \<noteq> []" using length_be_bytes [of 32 5] by (metis list.size(3) zero_neq_numeral)
  then show ?thesis by (cases "be_bytes 32 5") simp_all
qed

lemma one_queued_put:
  "PutBatch (demo_sdk\<lparr>sdkDownload := d\<rparr>) [0] [\<lparr>blCID = c, blPayload = payload\<rparr>] n =
     (Inr \<lparr>fWritten = [\<lparr>wrCID = c, wrRef = 1, wrSlab = slab_name demo_sdk demo_slice, wrBytes = length payload\<rparr>],
       fSlabs = [slab_name demo_sdk demo_slice]\<rparr>, [payload])"
  by (simp add: PutBatch_def UploadPacked_def PinSlabs_def PinObjects_def inFlight_def sbind_def sret_def demo_sdk_def slabOf_def
    slab_name_def Batch_Slabs_def demo_lib_def demo_slice_def lessThan_Suc demo_slab_named)

definition serving_lines :: "byte list \<Rightarrow> byte list list venv" where
  "serving_lines payload = (serving payload)\<lparr>vnCatalog := line_env\<rparr>"


lemma serving_lines_sel:
  "vnOnline (serving_lines p)" "vnNow (serving_lines p) = 1000000" "vnQueueFails (serving_lines p) x = None"
  "vnUploads (serving_lines p) = [0]" "vnSdk (serving_lines p) = demo_sdk\<lparr>sdkDownload := (\<lambda>_ n. (Inr p, n))\<rparr>"
  "vnCatalog (serving_lines p) = line_env" "vnIO (serving_lines p) n = io_ok" "rcDB (vnReclaimer (serving_lines p)) st = None"
  by (simp_all add: serving_lines_def serving_def demo_venv_def demo_reclaimer_def)

lemma one_queued_claim:
  "\<exists>q. ClaimQueued 1000000 own grace 0 (pkQueue (one_queued payload)) =
     ([\<lparr>qbID = 4, qbKind = KindMemory, qbCID = CID_String 7, qbPayload = payload, qbQueuedAt = 0, qbSeq = 1\<rparr>], q)
     \<and> queued (DropQueued [4] q) 4 = None"
  by (simp add: one_queued_def Enqueue_def next_seq_def stamp_def ClaimQueued_def claim_ids_def select_where_def claimable_def
      update_where_def blob_of_def Let_def DropQueued_def delete_row_def queued_def)

definition demo_written :: "byte list \<Rightarrow> flush" where
  "demo_written payload = \<lparr>fWritten = [\<lparr>wrCID = CID_String 7, wrRef = 1, wrSlab = slab_name demo_sdk demo_slice, wrBytes = length payload\<rparr>],
     fSlabs = [slab_name demo_sdk demo_slice]\<rparr>"

lemma one_queued_record:
  assumes "vaManifest s = empty_manifest" and "prFlush r = demo_written payload"
    and "prRecords r = [\<lparr>qiID = 4, qiKind = KindMemory, qiBlob = \<lparr>blCID = CID_String 7, blPayload = payload\<rparr>, qiSince = 0\<rparr>]"
  shows "\<exists>t. recordFlush (serving_lines payload) r s = (Inr (), t)"
proof -
  have t: "\<exists>t. track_one (serving_lines payload) r i s' = (Inr (), t)" for i s'
    by (simp add: track_one_def wrapping_def on_reclaimer_def Track_def stmt_def sret_def serving_lines_sel split: prod.split)
  have c: "\<exists>s'. catalog_one (serving_lines payload) (by_cid (fWritten (demo_written payload)))
      \<lparr>qiID = 4, qiKind = KindMemory, qiBlob = \<lparr>blCID = CID_String 7, blPayload = payload\<rparr>, qiSince = 0\<rparr> s = (Inr (), s')"
    using line_append [of "entry_for (serving_lines payload) (vaRanking s) \<lparr>qiID = 4, qiKind = KindMemory,
        qiBlob = \<lparr>blCID = CID_String 7, blPayload = payload\<rparr>, qiSince = 0\<rparr> 7 \<lparr>wrCID = CID_String 7, wrRef = 1,
        wrSlab = slab_name demo_sdk demo_slice, wrBytes = length payload\<rparr>"] assms(1)
    by (auto simp: catalog_one_def by_cid_def demo_written_def wrapping_def on_catalog_def serving_lines_sel)
  then obtain s' where s': "smap_list (catalog_one (serving_lines payload) (by_cid (fWritten (prFlush r)))) (prRecords r) s = (Inr (), s')"
    using assms(2,3) by (auto simp: sbind_def sret_def)
  obtain s2 where "smap_list (track_one (serving_lines payload) r) (fSlabs (prFlush r)) s' = (Inr (), s2)"
    using t [of "slab_name demo_sdk demo_slice" s'] assms(2) by (auto simp: sbind_def sret_def demo_written_def)
  with s' show ?thesis by (simp add: recordFlush_def sbind_def)
qed

lemma one_queued_flush:
  "\<exists>t. Vault_Flush (serving_lines payload) (queued_vault payload) = Some (Inr (Some (demo_written payload)), t)
     \<and> queued (pkQueue (vaPacker t)) 4 = None"
proof -
  let ?ve = "serving_lines payload" and ?s = "queued_vault payload"
  have s: "vaReady ?s" "vaPacker ?s = one_queued payload" "vaManifest ?s = empty_manifest"
    by (simp_all add: queued_vault_def demo_vault_def)
  have pk: "pkOnline (one_queued payload)" by (simp add: one_queued_def)
  let ?r = "\<lparr>prReason = ReasonManual, prRecords = [\<lparr>qiID = 4, qiKind = KindMemory,
     qiBlob = \<lparr>blCID = CID_String 7, blPayload = payload\<rparr>, qiSince = 0\<rparr>], prFlush = demo_written payload\<rparr>"
  obtain q where q: "ClaimQueued 1000000 (pkOwner (one_queued payload)) (claimTimeout (pkPolicy (one_queued payload))) 0
      (pkQueue (one_queued payload)) = ([\<lparr>qbID = 4, qbKind = KindMemory, qbCID = CID_String 7, qbPayload = payload,
        qbQueuedAt = 0, qbSeq = 1\<rparr>], q)" "queued (DropQueued [4] q) 4 = None"
    using one_queued_claim by blast
  have put: "flPut (vault_flusher ?ve) [\<lparr>blCID = CID_String 7, blPayload = payload\<rparr>] ?s
      = (Inr (demo_written payload), ?s\<lparr>vaNet := [payload]\<rparr>)"
    by (simp add: vault_flusher_def on_network_def serving_lines_sel one_queued_put demo_written_def)
  obtain t where t: "recordFlush ?ve ?r (?s\<lparr>vaNet := [payload]\<rparr>) = (Inr (), t)"
    using one_queued_record [of "?s\<lparr>vaNet := [payload]\<rparr>" ?r payload] s(3) by auto
  have fl: "flHook (vault_flusher ?ve) = Some (recordFlush ?ve)" "flDB (vault_flusher ?ve) x = None" for x
    by (simp_all add: vault_flusher_def serving_lines_sel)
  have "\<exists>p. Packer_flush (vault_flusher ?ve) 1000000 ReasonManual (one_queued payload, ?s) = ((?r, None), (p, t)) \<and> pkQueue p = DropQueued [4] q"
    using q put t fl pk by (simp add: Packer_flush_def item_of_def finish_def refresh_def Let_def)
  then show ?thesis using s q(2)
    by (auto simp: Vault_Flush_def awaitFirstWrite_def pbind_def prun_def sret_def sbind_def on_packer_def Packer_Flush_def
       serving_lines_sel Result_Empty_def)
qed

theorem flushed_record_survives_the_device_witness:
  "\<exists>payload t k t'. Vault_Flush (serving_lines payload) (queued_vault payload) = Some (Inr (Some (demo_written payload)), t)
     \<and> fetchBody (serving_lines payload) 4 (ForgetLocally 4 t) = Some (Inr (k, [1, 2], TierNetwork), t')"
proof -
  have c: "vnCrypto (serving_lines p) = plain_crypto" "vnSealer (serving_lines p) = \<lparr>slRecord = [], slContent = []\<rparr>" for p
    by (simp_all add: serving_lines_def serving_sel)
  obtain payload where p: "openBody (serving_lines payload) 4 payload = Inr [1, 2]"
    using demo_payload c by metis
  obtain t where t: "Vault_Flush (serving_lines payload) (queued_vault payload) = Some (Inr (Some (demo_written payload)), t)"
    "queued (pkQueue (vaPacker t)) 4 = None" using one_queued_flush by blast
  have q: "queue_ok (pkQueue (vaPacker (queued_vault payload)))"
    "queued (pkQueue (vaPacker (queued_vault payload))) 4 = Some (CID_String 7, payload)"
    by (simp_all add: queued_vault_def one_queued_def queued_def row_of_Enqueue)
  have "\<exists>k t'. fetchBody (serving_lines payload) 4 (ForgetLocally 4 t) = Some (Inr (k, [1, 2], TierNetwork), t')"
    using flushed_record_survives_the_device [OF t(1) _ q t(2) p]
    by (simp add: serving_lines_sel serving_lines_def serving_sel queued_vault_def demo_vault_def)
  with t(1) show ?thesis by blast
qed
end
