(* ===== verification/VaultReclaim.thy ===== *)
theory VaultReclaim
  imports VaultFlush
begin

text \<open>
  \<open>vault/reclaim.go\<close>: what the catalog keeps alive, and the operations that give storage back over it:
  the sweep, repack and the move of the catalog to the copies, the orphan scan, and forgetting a
  record.
\<close>

definition errOffline :: goerr where
  "errOffline = GoErr [ErrVaultOffline] ''vault is open offline''"

section \<open>The keep-set\<close>

fun entry_refs :: "mentry list \<Rightarrow> objref list res" where
  "entry_refs [] = Inr []"
| "entry_refs (e # es) = (case ParseObjectRef (enObjectRef e) of
     Inl err \<Rightarrow> Inl (wrap_err ''record is catalogued at an object ref that cannot be read: '' err)
   | Inr ref \<Rightarrow> rbind (entry_refs es) (\<lambda>refs. Inr (ref # refs)))"

definition Vault_live :: "manifest \<Rightarrow> bool \<Rightarrow> keep_set res" where
  "Vault_live m releaseAll = (let entries = Manifest_Entries m in
     rbind (entry_refs entries) (\<lambda>refs. Inr \<lparr>lvObjects = set refs,
       lvSlabs = set (filter (\<lambda>i. i \<noteq> []) (map enSlabID entries)),
       lvCatalogued = int (length entries), lvReleaseAll = releaseAll\<rparr>))"

section \<open>Running the reclaimer\<close>

text \<open>An operation that reports even when it fails.\<close>

type_synonym ('s, 'r) reporting = "'s \<Rightarrow> ((unit res \<times> 'r) \<times> 's) option"

definition reclaiming :: "'r \<Rightarrow> (('n, 'n vault, 'r) rworld, unit) run \<Rightarrow> ('n vault, 'r) reporting" where
  "reclaiming rep m s = (case m (rworld_of s rep) of
     None \<Rightarrow> None | Some (r, w) \<Rightarrow> Some ((r, rwReport w), vault_of w))"

definition on_reclaimer_run :: "(('n, 'n vault, unit) rworld, 'a) run \<Rightarrow> ('n vault, 'a) run" where
  "on_reclaimer_run m s = (case m (rworld_of s ()) of None \<Rightarrow> None | Some (r, w) \<Rightarrow> Some (r, vault_of w))"

text \<open>Both operations that rewrite or release storage refuse while the queue owes something.\<close>

definition Vault_Reclaim :: "'n venv \<Rightarrow> bool \<Rightarrow> ('n vault, sweep) reporting" where
  "Vault_Reclaim ve releaseAll s =
    (if \<not> vnOnline ve then Some ((Inl errOffline, no_sweep), s)
     else if 0 < Vault_Pending s
       then Some ((fail [] ''records are queued and not yet on the network: flush before reclaiming'', no_sweep), s)
     else case Vault_live (vaManifest s) releaseAll of
       Inl e \<Rightarrow> Some ((Inl e, no_sweep), s)
     | Inr keep \<Rightarrow> reclaiming no_sweep (Sweep (vnReclaimer ve) keep) s)"

definition TakeOwnership :: "('n vault, nat) step" where
  "TakeOwnership s = (case TakeSlabOwnership (vaLedger s) of (n, l) \<Rightarrow> (Inr n, s\<lparr>vaLedger := l\<rparr>))"

section \<open>Repack\<close>

definition relocate_one :: "'n venv \<Rightarrow> moved \<Rightarrow> ('n vault, unit) step" where
  "relocate_one ve mv s = (case Manifest_Lookup (vaManifest s) (mvID mv) of
     Inl e \<Rightarrow> (Inl e, s)
   | Inr entry \<Rightarrow>
       sbind (on_catalog ve (\<lambda>io. Manifest_Append (vnCatalog ve) io
           (entry\<lparr>enObjectRef := Ref_String (mvTo mv), enSlabID := mvSlab mv, enBytes := int (mvBytes mv), enWrittenAt := vnNow ve\<rparr>)))
         (\<lambda>_. smod (\<lambda>s. s\<lparr>vaObjects := ForgetLocation (Ref_String (mvFrom mv)) (vaObjects s)\<rparr>)) s)"

definition relocate :: "'n venv \<Rightarrow> moved list \<Rightarrow> ('n vault, unit) step" where
  "relocate ve moves = smap_list (relocate_one ve) moves"

definition held_of :: "mentry \<Rightarrow> objref \<Rightarrow> held_record" where
  "held_of e ref = \<lparr>hlID = enID e, hlCID = CID_String (enCID e), hlRef = ref, hlSlab = enSlabID e\<rparr>"

fun all_held :: "mentry list \<Rightarrow> held_record list res" where
  "all_held [] = Inr []"
| "all_held (e # es) = (case ParseObjectRef (enObjectRef e) of
     Inl err \<Rightarrow> Inl (wrap_err ''record: '' err)
   | Inr ref \<Rightarrow> rbind (all_held es) (\<lambda>hs. Inr (held_of e ref # hs)))"

definition Vault_Repack :: "'n venv \<Rightarrow> ('n vault, repack) reporting" where
  "Vault_Repack ve s =
    (if \<not> vnOnline ve then Some ((Inl errOffline, no_repack), s)
     else if 0 < Vault_Pending s
       then Some ((fail [] ''records are queued and not yet on the network: flush before repacking'', no_repack), s)
     else case all_held (Manifest_Entries (vaManifest s)) of
       Inl e \<Rightarrow> Some ((Inl e, no_repack), s)
     | Inr held \<Rightarrow> reclaiming no_repack (prun (Repack (vnReclaimer ve) (relocate ve) held)) s)"

section \<open>Asking and releasing\<close>

text \<open>\<open>slabBytes\<close> is what the indexer's library answers for the payload of one slab.\<close>

definition Vault_Watermark :: "'n venv \<Rightarrow> int res \<Rightarrow> ('n vault, watermark_check) step" where
  "Vault_Watermark ve slabBytes =
    (if \<not> vnOnline ve then sfail errOffline
     else sbind (on_network (Client_Account (vnSdk ve))) (\<lambda>account.
       sbind (slift slabBytes) (\<lambda>bytes.
       sbind (on_reclaimer (Tracked (vnReclaimer ve))) (\<lambda>tracked.
         sret (Watermark account (int (length tracked)) (word_of_int bytes))))))"

definition Vault_TrackedSlabs :: "'n venv \<Rightarrow> ('n vault, slab list) step" where
  "Vault_TrackedSlabs ve = (if \<not> vnOnline ve then sfail errOffline else on_reclaimer (Tracked (vnReclaimer ve)))"

definition Vault_Unledgered :: "'n venv \<Rightarrow> ('n vault, unledgered list) run" where
  "Vault_Unledgered ve = (if \<not> vnOnline ve then prun (sfail errOffline)
     else on_reclaimer_run (Unledgered (vnReclaimer ve)))"

definition Vault_Orphans :: "'n venv \<Rightarrow> bool \<Rightarrow> ('n vault, orphan list) run" where
  "Vault_Orphans ve releaseAll = (if \<not> vnOnline ve then prun (sfail errOffline)
     else on_reclaimer_run (Orphans (vnReclaimer ve) releaseAll))"

definition Vault_ReleaseOrphans :: "'n venv \<Rightarrow> bool \<Rightarrow> ('n vault, sweep) reporting" where
  "Vault_ReleaseOrphans ve releaseAll s =
    (if \<not> vnOnline ve then Some ((Inl errOffline, no_sweep), s)
     else reclaiming no_sweep (ReleaseOrphans (vnReclaimer ve) releaseAll) s)"

definition Vault_DropUnreadable :: "'n venv \<Rightarrow> ('n vault, objref list) run" where
  "Vault_DropUnreadable ve = (if \<not> vnOnline ve then prun (sfail errOffline)
     else on_reclaimer_run (DropUnreadable (vnReclaimer ve)))"

section \<open>Forgetting\<close>

definition forget_ranking :: "recid \<Rightarrow> ('n vault, unit) step" where
  "forget_ranking i = smod (\<lambda>s. s\<lparr>vaRanking := ForgetRankingMeta i (vaRanking s)\<rparr>)"

definition Vault_Forget :: "'n venv \<Rightarrow> recid \<Rightarrow> ('n vault, unit) step" where
  "Vault_Forget ve i =
    sbind (on_catalog ve (\<lambda>io. Manifest_Remove (vnCatalog ve) io (vnNow ve) i)) (\<lambda>_.
    sbind (smod (ForgetLocally i)) (\<lambda>_.
    sbind (on_vectors ve (\<lambda>io. Store_Remove (vnVectorSealer ve) io [i])) (\<lambda>_.
      forget_ranking i)))"

section \<open>The catalog and the keep-set\<close>

definition catalog_wf :: "manifest \<Rightarrow> bool" where
  "catalog_wf m \<longleftrightarrow> view_wf enID (mfEntries m, mfOrder m)"

lemma in_step_catalog_wf: "in_step env m \<Longrightarrow> catalog_wf m"
  by (simp add: catalog_wf_def in_step_facts(1))

lemma catalog_wf_at:
  assumes "catalog_wf m" and "i \<in> set (mfOrder m)"
  shows "\<exists>e. mfEntries m i = Some e \<and> enID e = i"
proof -
  have "i \<in> dom (mfEntries m)" using assms by (simp add: catalog_wf_def view_wf_def)
  then obtain e where "mfEntries m i = Some e" by blast
  then show ?thesis using assms(1) by (simp add: catalog_wf_def view_wf_def)
qed

lemma in_Manifest_Entries:
  assumes "catalog_wf m"
  shows "e \<in> set (Manifest_Entries m) \<longleftrightarrow> Manifest_Lookup m (enID e) = Inr e"
proof
  assume "e \<in> set (Manifest_Entries m)"
  then obtain i where i: "i \<in> set (mfOrder m)" "e = the (mfEntries m i)" "\<not> enDeleted e"
    by (auto simp: Manifest_Entries_def)
  then have "mfEntries m i = Some e" "enID e = i" using catalog_wf_at [OF assms i(1)] by auto
  then show "Manifest_Lookup m (enID e) = Inr e" using i(3) by (simp add: Manifest_Lookup_def)
next
  assume "Manifest_Lookup m (enID e) = Inr e"
  then have e: "mfEntries m (enID e) = Some e" "\<not> enDeleted e"
    by (auto simp: Manifest_Lookup_def split: option.splits if_splits)
  have "dom (mfEntries m) = set (mfOrder m)" using assms by (simp add: catalog_wf_def view_wf_def)
  then have "enID e \<in> set (mfOrder m)" using e(1) by blast
  then have "e \<in> set (map (\<lambda>i. the (mfEntries m i)) (mfOrder m))" using e(1) by (auto intro!: image_eqI [of _ _ "enID e"])
  with e(2) show "e \<in> set (Manifest_Entries m)" by (simp add: Manifest_Entries_def)
qed

lemma distinct_Manifest_Entries: "catalog_wf m \<Longrightarrow> distinct (map enID (Manifest_Entries m))"
proof -
  assume wf: "catalog_wf m"
  have "map enID (map (\<lambda>i. the (mfEntries m i)) (mfOrder m)) = mfOrder m"
    using listing_keys [of enID "mfEntries m" "mfOrder m"] wf by (simp add: catalog_wf_def listing_def)
  moreover have "distinct (mfOrder m)" using wf by (simp add: catalog_wf_def view_wf_def)
  ultimately show ?thesis by (simp add: Manifest_Entries_def distinct_map_filter)
qed

lemma entry_refs_Inr:
  "entry_refs es = Inr refs \<Longrightarrow> list_all2 (\<lambda>e ref. ParseObjectRef (enObjectRef e) = Inr ref) es refs"
  by (induction es arbitrary: refs) (auto simp: rbind_Inr_iff split: sum.splits)

lemma Vault_live_names:
  assumes "Vault_live m ra = Inr keep" and "e \<in> set (Manifest_Entries m)"
  shows "\<exists>ref. ParseObjectRef (enObjectRef e) = Inr ref \<and> ref \<in> lvObjects keep" "enSlabID e \<noteq> [] \<Longrightarrow> enSlabID e \<in> lvSlabs keep"
proof -
  obtain refs where r: "entry_refs (Manifest_Entries m) = Inr refs" "lvObjects keep = set refs"
    "lvSlabs keep = set (filter (\<lambda>i. i \<noteq> []) (map enSlabID (Manifest_Entries m)))"
    using assms(1) by (auto simp: Vault_live_def Let_def rbind_Inr_iff)
  show "\<exists>ref. ParseObjectRef (enObjectRef e) = Inr ref \<and> ref \<in> lvObjects keep"
  proof -
    obtain n where n: "n < length (Manifest_Entries m)" "e = Manifest_Entries m ! n"
      using assms(2) by (auto simp: in_set_conv_nth)
    have "ParseObjectRef (enObjectRef e) = Inr (refs ! n)" "refs ! n \<in> set refs"
      using entry_refs_Inr [OF r(1)] n by (auto simp: list_all2_conv_all_nth)
    with r(2) show ?thesis by blast
  qed
  show "enSlabID e \<noteq> [] \<Longrightarrow> enSlabID e \<in> lvSlabs keep" using assms(2) r(3) by auto
qed

lemma Vault_live_sets:
  assumes "Vault_live m ra = Inr keep"
  shows "ref \<in> lvObjects keep \<longleftrightarrow> (\<exists>e \<in> set (Manifest_Entries m). ParseObjectRef (enObjectRef e) = Inr ref)"
    "i \<in> lvSlabs keep \<longleftrightarrow> i \<noteq> [] \<and> (\<exists>e \<in> set (Manifest_Entries m). enSlabID e = i)"
proof -
  obtain refs where r: "entry_refs (Manifest_Entries m) = Inr refs" "lvObjects keep = set refs"
    "lvSlabs keep = set (filter (\<lambda>i. i \<noteq> []) (map enSlabID (Manifest_Entries m)))"
    using assms by (auto simp: Vault_live_def Let_def rbind_Inr_iff)
  show "i \<in> lvSlabs keep \<longleftrightarrow> i \<noteq> [] \<and> (\<exists>e \<in> set (Manifest_Entries m). enSlabID e = i)" using r(3) by auto
  from entry_refs_Inr [OF r(1)] show "ref \<in> lvObjects keep \<longleftrightarrow> (\<exists>e \<in> set (Manifest_Entries m). ParseObjectRef (enObjectRef e) = Inr ref)"
    unfolding r(2) by (induction rule: list_all2_induct) auto
qed

text \<open>What a reclaim may destroy: listed objects on slabs this device may release, no record being catalogued at them,
  and such slabs, none being catalogued on them.\<close>

definition dead_objects :: "'n vault \<Rightarrow> stored_object list \<Rightarrow> objref set" where
  "dead_objects s objects = {stRef ob |ob. ob \<in> set objects \<and> releasable (vaLedger s) (stSlab ob)
     \<and> \<not> (\<exists>e \<in> set (Manifest_Entries (vaManifest s)). ParseObjectRef (enObjectRef e) = Inr (stRef ob))}"

definition dead_slabs :: "'n vault \<Rightarrow> slabid set" where
  "dead_slabs s = {i. releasable (vaLedger s) i \<and> \<not> (i \<noteq> [] \<and> (\<exists>e \<in> set (Manifest_Entries (vaManifest s)). enSlabID e = i))}"

text \<open>C25. Reclaiming over the catalog.  On any network and with any failure, what a reclaim destroys is dead objects first and slabs
  after them: objects the account lists on a slab this device may release and at which no record is catalogued, and slabs this device
  may release and the catalog does not name.  No slab is released before every dead object is deleted, and a reclaim that reports
  success deleted all of the one and released all of the other.  Nothing is destroyed while the queue owes the network a record,
  when an entry's object cannot be read, or when the catalog is empty and emptying was not asked for; the ledger forgets exactly what
  was released, and the catalog, the bodies and the queue stay as they were.\<close>

theorem Reclaim_spares_catalog:
  fixes s :: "('n \<times> net_call list) vault"
  assumes k: "rcSdk (vnReclaimer ve) = traced k" and "ranged (rcRange (vnReclaimer ve))"
    and "\<And>n. schedule n (rcSched (vnReclaimer ve) n)" and "table_ok (vaLedger s)"
    and run: "Vault_Reclaim ve releaseAll s = Some ((r, rep), t)"
  shows "\<exists>dels us objects. snd (vaNet t) = snd (vaNet s) @ map CDelete dels @ map CUnpin us \<and> distinct us
    \<and> (dels \<noteq> [] \<or> us \<noteq> [] \<or> r = Inr () \<longrightarrow> account_lists k (vaNet s) objects)
    \<and> set dels \<subseteq> dead_objects s objects \<and> set us \<subseteq> dead_slabs s
    \<and> (us \<noteq> [] \<longrightarrow> set dels = dead_objects s objects)
    \<and> (dels \<noteq> [] \<or> us \<noteq> [] \<longrightarrow> Vault_Pending s \<le> 0 \<and> (Manifest_Entries (vaManifest s) \<noteq> [] \<or> releaseAll)
          \<and> (\<forall>e \<in> set (Manifest_Entries (vaManifest s)). \<exists>ref. ParseObjectRef (enObjectRef e) = Inr ref))
    \<and> (\<forall>i. i \<notin> set us \<longrightarrow> row_of (vaLedger t) i = row_of (vaLedger s) i)
    \<and> (r = Inr () \<longrightarrow> set dels = dead_objects s objects \<and> set us = dead_slabs s \<and> (\<forall>i \<in> set us. row_of (vaLedger t) i = None))
    \<and> vaManifest t = vaManifest s \<and> vaBodies t = vaBodies s \<and> vaPacker t = vaPacker s"
proof (cases "vnOnline ve \<and> \<not> 0 < Vault_Pending s \<and> (\<exists>keep. Vault_live (vaManifest s) releaseAll = Inr keep)")
  case False
  then have "t = s" "r \<noteq> Inr ()"
    using run by (auto simp: Vault_Reclaim_def split: if_splits sum.splits)
  then show ?thesis by (intro exI [of _ "[]"]) simp
next
  case True
  then obtain keep where keep: "Vault_live (vaManifest s) releaseAll = Inr keep" by blast
  obtain w where w: "Sweep (vnReclaimer ve) keep (rworld_of s no_sweep) = Some (r, w)" "t = vault_of w"
    using run True keep by (auto simp: Vault_Reclaim_def reclaiming_def split: option.splits prod.splits)
  have W: "rwLedger (rworld_of s no_sweep) = vaLedger s" "rwNet (rworld_of s no_sweep) = vaNet s"
    "rwCaller (rworld_of s no_sweep) = s" by (simp_all add: rworld_of_def)
  have dead: "stRef ` {ob \<in> set objects. releasable (vaLedger s) (stSlab ob)} - lvObjects keep = dead_objects s objects"
    "{i. releasable (vaLedger s) i} - lvSlabs keep = dead_slabs s" for objects
    using Vault_live_sets [OF keep] by (auto simp: dead_objects_def dead_slabs_def)
  from Sweep_facts [OF k assms(2,3) _ w(1), unfolded W, OF assms(4)] obtain dels us objects where F:
    "log_of w = log_of (rworld_of s no_sweep) @ map CDelete dels @ map CUnpin us" "distinct us"
    "dels \<noteq> [] \<or> us \<noteq> [] \<or> r = Inr () \<longrightarrow> Live_Check keep (length (vaLedger s)) = Inr () \<and> account_lists k (vaNet s) objects"
    "set dels \<subseteq> dead_objects s objects" "us \<noteq> [] \<or> r = Inr () \<longrightarrow> set dels = dead_objects s objects"
    "set us \<subseteq> dead_slabs s"
    "\<forall>i. i \<notin> set us \<longrightarrow> row_of (rwLedger w) i = row_of (vaLedger s) i"
    "r = Inr () \<longrightarrow> set us = dead_slabs s \<and> (\<forall>i \<in> set us. row_of (rwLedger w) i = None)"
    "rwCaller w = s"
    unfolding dead by (elim exE conjE) (rule that)
  have parse: "\<exists>ref. ParseObjectRef (enObjectRef e) = Inr ref" if "e \<in> set (Manifest_Entries (vaManifest s))" for e
    using Vault_live_names(1) [OF keep that] by blast
  have c: "lvCatalogued keep = int (length (Manifest_Entries (vaManifest s)))" "lvReleaseAll keep = releaseAll"
    using keep by (auto simp: Vault_live_def Let_def rbind_Inr_iff)
  have pinned: "dels \<noteq> [] \<or> us \<noteq> [] \<Longrightarrow> vaLedger s \<noteq> []"
    using F(4,6) by (cases dels; cases us) (auto simp: releasable_def dead_objects_def dead_slabs_def)
  have "dels \<noteq> [] \<or> us \<noteq> [] \<Longrightarrow> Manifest_Entries (vaManifest s) \<noteq> [] \<or> releaseAll"
    using F(3) pinned c(1,2) by (auto simp: Live_Check_def split: if_splits)
  moreover have "log_of w = snd (vaNet s) @ map CDelete dels @ map CUnpin us" using F(1) by (simp add: log_of_def W)
  ultimately show ?thesis
    using F(2-9) parse True w(2)
    by (intro exI [of _ dels] exI [of _ us] exI [of _ objects]) (simp add: vault_of_def log_of_def)
qed

section \<open>The catalog follows a repack\<close>

lemma Manifest_Append_put:
  assumes "Manifest_Append env io e m = (r, m')"
  shows "(mfEntries m', mfOrder m') = put_entry enID e (mfEntries m, mfOrder m)
    \<or> (\<exists>err. r = Inl err) \<and> mfEntries m' = mfEntries m \<and> mfOrder m' = mfOrder m"
  using assms
  by (auto simp: Manifest_Append_def Manifest_append_def Manifest_Compact_def put_entry_def
        split: sum.splits prod.splits if_splits)

text \<open>A new entry of a catalogued record leaves the list of records as it was.\<close>

lemma put_entry_same_ids:
  assumes wf: "catalog_wf m" and look: "Manifest_Lookup m (enID e) = Inr old" and "\<not> enDeleted e"
    and put: "(mfEntries m', mfOrder m') = put_entry enID e (mfEntries m, mfOrder m)"
  shows "catalog_wf m' \<and> map enID (Manifest_Entries m') = map enID (Manifest_Entries m)
    \<and> (\<forall>j. Manifest_Lookup m' j = (if j = enID e then Inr e else Manifest_Lookup m j))"
proof -
  have old: "mfEntries m (enID e) = Some old" "\<not> enDeleted old"
    using look by (auto simp: Manifest_Lookup_def split: option.splits if_splits)
  then have m': "mfEntries m' = (mfEntries m)(enID e \<mapsto> e)" "mfOrder m' = mfOrder m"
    using put by (auto simp: put_entry_def)
  have wf': "catalog_wf m'" using wf put view_wf_put unfolding catalog_wf_def by metis
  have "map enID (Manifest_Entries n) = filter (\<lambda>i. \<not> enDeleted (the (mfEntries n i))) (mfOrder n)" if "catalog_wf n" for n
  proof -
    have "enID (the (mfEntries n i)) = i" if i: "i \<in> set (mfOrder n)" for i
      using catalog_wf_at [OF \<open>catalog_wf n\<close> i] by auto
    then show ?thesis by (auto simp: Manifest_Entries_def filter_map o_def intro!: map_idI)
  qed
  then have "map enID (Manifest_Entries m') = map enID (Manifest_Entries m)"
    using wf wf' m' assms(3) old by (auto intro!: filter_cong)
  with wf' m'(1) assms(3) show ?thesis by (simp add: Manifest_Lookup_def)
qed

definition moved_entry :: "'n venv \<Rightarrow> mentry \<Rightarrow> moved \<Rightarrow> mentry" where
  "moved_entry ve e mv = e\<lparr>enObjectRef := Ref_String (mvTo mv), enSlabID := mvSlab mv, enBytes := int (mvBytes mv),
     enWrittenAt := vnNow ve\<rparr>"

text \<open>No outcome of a move changes which records are catalogued.\<close>

definition same_records :: "manifest \<Rightarrow> manifest \<Rightarrow> bool" where
  "same_records m m' \<longleftrightarrow> catalog_wf m' \<and> map enID (Manifest_Entries m') = map enID (Manifest_Entries m)"

lemma relocate_one_facts:
  assumes "catalog_wf (vaManifest s)" and run: "relocate_one ve mv s = (r, t)"
  shows "same_records (vaManifest s) (vaManifest t)"
    "r = Inr u \<Longrightarrow> \<exists>e. Manifest_Lookup (vaManifest s) (mvID mv) = Inr e
       \<and> (\<forall>j. Manifest_Lookup (vaManifest t) j = (if j = mvID mv then Inr (moved_entry ve e mv) else Manifest_Lookup (vaManifest s) j))"
proof -
  let ?m = "vaManifest s"
  have "same_records ?m (vaManifest t) \<and> (\<forall>u. r = Inr u \<longrightarrow> (\<exists>e. Manifest_Lookup ?m (mvID mv) = Inr e
       \<and> (\<forall>j. Manifest_Lookup (vaManifest t) j = (if j = mvID mv then Inr (moved_entry ve e mv) else Manifest_Lookup ?m j))))"
  proof (cases "Manifest_Lookup ?m (mvID mv)")
    case (Inl e)
    with run assms(1) show ?thesis by (auto simp: relocate_one_def same_records_def)
  next
    case (Inr e)
    let ?e = "moved_entry ve e mv"
    have id: "enID e = mvID mv" "\<not> enDeleted e"
      using Inr assms(1) by (auto simp: Manifest_Lookup_def catalog_wf_def view_wf_def split: option.splits if_splits)
    then have E: "enID ?e = mvID mv" "\<not> enDeleted ?e" by (simp_all add: moved_entry_def)
    obtain ra m' where A: "Manifest_Append (vnCatalog ve) (vnIO ve (vaFileOps s)) ?e ?m = (ra, m')" by fastforce
    have t: "vaManifest t = m'" "r = Inr () \<or> (\<exists>err. r = Inl err)" "r = Inr () \<longleftrightarrow> ra = Inr ()"
      using run Inr A [unfolded moved_entry_def]
      by (auto simp: relocate_one_def on_catalog_def sbind_def smod_def split: sum.splits)
    from Manifest_Append_put [OF A] show ?thesis
    proof
      assume "(mfEntries m', mfOrder m') = put_entry enID ?e (mfEntries ?m, mfOrder ?m)"
      from put_entry_same_ids [OF assms(1) _ E(2) this, of e] Inr E(1) t(1)
      show ?thesis by (auto simp: same_records_def)
    next
      assume n: "(\<exists>err. ra = Inl err) \<and> mfEntries m' = mfEntries ?m \<and> mfOrder m' = mfOrder ?m"
      then have "catalog_wf m' \<and> Manifest_Entries m' = Manifest_Entries ?m"
        using assms(1) by (simp add: catalog_wf_def Manifest_Entries_def)
      with n t show ?thesis by (auto simp: same_records_def)
    qed
  qed
  then show "same_records (vaManifest s) (vaManifest t)"
    "r = Inr u \<Longrightarrow> \<exists>e. Manifest_Lookup (vaManifest s) (mvID mv) = Inr e
       \<and> (\<forall>j. Manifest_Lookup (vaManifest t) j = (if j = mvID mv then Inr (moved_entry ve e mv) else Manifest_Lookup (vaManifest s) j))"
    by blast+
qed

lemma relocate_facts:
  assumes "catalog_wf (vaManifest s)" and "relocate ve moves s = (r, t)"
  shows "same_records (vaManifest s) (vaManifest t)"
    "r = Inr u \<Longrightarrow> distinct (map mvID moves) \<Longrightarrow> mv \<in> set moves \<Longrightarrow>
       \<exists>e. Manifest_Lookup (vaManifest s) (mvID mv) = Inr e \<and> Manifest_Lookup (vaManifest t) (mvID mv) = Inr (moved_entry ve e mv)"
proof -
  have "same_records (vaManifest s) (vaManifest t) \<and> (r = Inr () \<longrightarrow> distinct (map mvID moves) \<longrightarrow>
      (\<forall>j. j \<notin> mvID ` set moves \<longrightarrow> Manifest_Lookup (vaManifest t) j = Manifest_Lookup (vaManifest s) j)
      \<and> (\<forall>mv \<in> set moves. \<exists>e. Manifest_Lookup (vaManifest s) (mvID mv) = Inr e
            \<and> Manifest_Lookup (vaManifest t) (mvID mv) = Inr (moved_entry ve e mv)))"
    using assms
  proof (induction moves arbitrary: s)
    case Nil
    then show ?case by (simp add: relocate_def sret_def same_records_def)
  next
    case (Cons x xs)
    obtain r1 s1 where x: "relocate_one ve x s = (r1, s1)" by fastforce
    note X = relocate_one_facts [OF Cons.prems(1) x]
    show ?case
    proof (cases r1)
      case (Inl e)
      with Cons.prems(2) x X(1) show ?thesis by (auto simp: relocate_def sbind_def)
    next
      case (Inr v)
      have "catalog_wf (vaManifest s1)" using X(1) by (simp add: same_records_def)
      moreover have "relocate ve xs s1 = (r, t)" using Cons.prems(2) x Inr by (simp add: relocate_def sbind_def)
      ultimately have IH: "same_records (vaManifest s1) (vaManifest t)"
        "r = Inr () \<Longrightarrow> distinct (map mvID xs) \<Longrightarrow> j \<notin> mvID ` set xs \<Longrightarrow> Manifest_Lookup (vaManifest t) j = Manifest_Lookup (vaManifest s1) j"
        "r = Inr () \<Longrightarrow> distinct (map mvID xs) \<Longrightarrow> mv \<in> set xs \<Longrightarrow> \<exists>e. Manifest_Lookup (vaManifest s1) (mvID mv) = Inr e
            \<and> Manifest_Lookup (vaManifest t) (mvID mv) = Inr (moved_entry ve e mv)" for j mv
        using Cons.IH by blast+
      obtain e where e: "Manifest_Lookup (vaManifest s) (mvID x) = Inr e"
        "\<And>j. Manifest_Lookup (vaManifest s1) j = (if j = mvID x then Inr (moved_entry ve e x) else Manifest_Lookup (vaManifest s) j)"
        using X(2) [OF Inr] by blast
      show ?thesis
      proof (intro conjI impI ballI allI)
        show "same_records (vaManifest s) (vaManifest t)" using X(1) IH(1) by (simp add: same_records_def)
        fix j assume "r = Inr ()" "distinct (map mvID (x # xs))" "j \<notin> mvID ` set (x # xs)"
        then show "Manifest_Lookup (vaManifest t) j = Manifest_Lookup (vaManifest s) j" using IH(2) [of j] e(2) by simp
      next
        fix mv assume A: "r = Inr ()" "distinct (map mvID (x # xs))" "mv \<in> set (x # xs)"
        show "\<exists>e. Manifest_Lookup (vaManifest s) (mvID mv) = Inr e \<and> Manifest_Lookup (vaManifest t) (mvID mv) = Inr (moved_entry ve e mv)"
        proof (cases "mv = x")
          case True
          then show ?thesis using A IH(2) [of "mvID x"] e by simp
        next
          case False
          then have "mv \<in> set xs" using A(3) by simp
          moreover from this have "mvID mv \<noteq> mvID x" using A(2) by (metis distinct.simps(2) image_eqI list.map(2) list.set_map)
          ultimately have "mv \<in> set xs" "mvID mv \<noteq> mvID x" by simp_all
          then show ?thesis using IH(3) [OF A(1), of mv] A(2) e(2) by simp
        qed
      qed
    qed
  qed
  then show "same_records (vaManifest s) (vaManifest t)"
    "r = Inr u \<Longrightarrow> distinct (map mvID moves) \<Longrightarrow> mv \<in> set moves \<Longrightarrow>
       \<exists>e. Manifest_Lookup (vaManifest s) (mvID mv) = Inr e \<and> Manifest_Lookup (vaManifest t) (mvID mv) = Inr (moved_entry ve e mv)"
    by simp_all
qed

lemma all_held_Inr:
  "all_held es = Inr hs \<Longrightarrow> list_all2 (\<lambda>e h. hlID h = enID e \<and> ParseObjectRef (enObjectRef e) = Inr (hlRef h) \<and> hlSlab h = enSlabID e) es hs"
  by (induction es arbitrary: hs) (auto simp: rbind_Inr_iff held_of_def split: sum.splits)

text \<open>C26. Repack and the catalog: whatever fails and wherever it stops, the same records are catalogued
  afterwards as before; no slab a record is catalogued on afterwards has been released; and an
  object one is catalogued at has been deleted only where the network answered for a copy with that
  very object.  Nothing is destroyed before every record was read and written again, its copy was
  pinned, and the catalog was changed to name the copy under the record's own identity.
\<close>

theorem Repack_keeps_records_catalogued:
  fixes s :: "('n \<times> net_call list) vault"
  assumes k: "rcSdk (vnReclaimer ve) = traced k" and "ranged (rcRange (vnReclaimer ve))"
    and "\<And>n. schedule n (rcSched (vnReclaimer ve) n)" and "table_ok (vaLedger s)" and wf: "catalog_wf (vaManifest s)"
    and run: "Vault_Repack ve s = Some ((r, rep), t)"
  shows "\<exists>cs dels us. snd (vaNet t) = snd (vaNet s) @ cs @ map CDelete dels @ map CUnpin us \<and> harmless cs
    \<and> map enID (Manifest_Entries (vaManifest t)) = map enID (Manifest_Entries (vaManifest s))
    \<and> (\<forall>e \<in> set (Manifest_Entries (vaManifest t)). (enSlabID e \<noteq> [] \<longrightarrow> enSlabID e \<notin> set us)
          \<and> (\<forall>ref. ParseObjectRef (enObjectRef e) = Inr ref \<and> ref \<in> set dels \<longrightarrow> CPinObject ref \<in> set cs))
    \<and> (dels \<noteq> [] \<or> us \<noteq> [] \<longrightarrow> (\<exists>held moved f. copies k held moved f cs
          \<and> list_all2 (\<lambda>e mv. mvID mv = enID e \<and> ParseObjectRef (enObjectRef e) = Inr (mvFrom mv)
              \<and> Manifest_Lookup (vaManifest t) (enID e) = Inr (moved_entry ve e mv)) (Manifest_Entries (vaManifest s)) moved))"
proof (cases "vnOnline ve \<and> \<not> 0 < Vault_Pending s \<and> (\<exists>held. all_held (Manifest_Entries (vaManifest s)) = Inr held)")
  case False
  then have "t = s" using run by (auto simp: Vault_Repack_def split: if_splits sum.splits)
  then show ?thesis by (intro exI [of _ "[]"]) (simp add: harmless_def)
next
  case True
  let ?m = "vaManifest s"
  obtain held where held: "all_held (Manifest_Entries ?m) = Inr held" using True by blast
  obtain w where w: "Repack (vnReclaimer ve) (relocate ve) held (rworld_of s no_repack) = (r, w)" "t = vault_of w"
    using run True held by (auto simp: Vault_Repack_def reclaiming_def prun_def split: prod.splits)
  have W: "rwLedger (rworld_of s no_repack) = vaLedger s" "rwCaller (rworld_of s no_repack) = s"
    "log_of (rworld_of s no_repack) = snd (vaNet s)" by (simp_all add: rworld_of_def log_of_def)
  note H = all_held_Inr [OF held]
  from Repack_facts [OF k assms(2,3) _ w(1), unfolded W, OF assms(4)] obtain cs dels us where
    F: "log_of w = snd (vaNet s) @ cs @ map CDelete dels @ map CUnpin us" "harmless cs"
    and D: "dels \<noteq> [] \<or> us \<noteq> [] \<or> r = Inr () \<and> held \<noteq> [] \<longrightarrow> (\<exists>moved f. copies k held moved f cs
          \<and> relocate ve moved s = (Inr (), rwCaller w)
          \<and> set dels \<subseteq> set (map hlRef held) \<and> (us \<noteq> [] \<longrightarrow> mset dels = mset (map hlRef held))
          \<and> distinct us \<and> set us \<subseteq> set (slab_set held) - set (fSlabs f)
          \<and> (r = Inr () \<longrightarrow> set us = set (slab_set held) - set (fSlabs f)
                \<and> (\<forall>i \<in> set us. row_of (rwLedger w) i = None)
                \<and> (\<forall>i \<in> set (fSlabs f). releasable (rwLedger w) i)))"
    and caller: "rwCaller w = s \<or> (\<exists>moved. rwCaller w = snd (relocate ve moved s))"
    by (elim exE conjE) (rule that)
  have t: "vaManifest t = vaManifest (rwCaller w)" "snd (vaNet t) = log_of w" using w(2) by (simp_all add: vault_of_def log_of_def)
  have same: "same_records ?m (vaManifest t)"
    using caller relocate_facts(1) [OF wf] wf t(1) by (metis same_records_def prod.collapse)
  have ids: "map enID (Manifest_Entries (vaManifest t)) = map enID (Manifest_Entries ?m)" "catalog_wf (vaManifest t)"
    using same by (simp_all add: same_records_def)
  show ?thesis
  proof (cases "dels \<noteq> [] \<or> us \<noteq> []")
    case False
    with F ids t(2) show ?thesis by (intro exI [of _ cs] exI [of _ "[]"]) simp
  next
    case destroyed: True
    with D obtain moved f where M: "copies k held moved f cs" "relocate ve moved s = (Inr (), rwCaller w)"
      "set us \<subseteq> set (slab_set held) - set (fSlabs f)" by blast
    from M(1) obtain pins where P: "list_all2 (\<lambda>h m. mvID m = hlID h \<and> mvCID m = hlCID h \<and> mvFrom m = hlRef h
        \<and> CPinObject (mvTo m) \<in> set pins \<and> (mvSlab m \<noteq> [] \<longrightarrow> mvSlab m \<in> set (fSlabs f))) held moved" "set pins \<subseteq> set cs"
      unfolding copies_def by (elim exE conjE) (rule that, assumption, simp, blast)
    have ent: "list_all2 (\<lambda>e mv. mvID mv = enID e \<and> ParseObjectRef (enObjectRef e) = Inr (mvFrom mv)
        \<and> CPinObject (mvTo mv) \<in> set cs \<and> (mvSlab mv \<noteq> [] \<longrightarrow> mvSlab mv \<in> set (fSlabs f))) (Manifest_Entries ?m) moved"
      using H P by (fastforce simp: list_all2_conv_all_nth)
    then have "map mvID moved = map enID (Manifest_Entries ?m)"
      by (auto simp: list_all2_conv_all_nth intro!: nth_equalityI)
    then have dist: "distinct (map mvID moved)" using distinct_Manifest_Entries [OF wf] by simp
    have ent': "list_all2 (\<lambda>e mv. mvID mv = enID e \<and> ParseObjectRef (enObjectRef e) = Inr (mvFrom mv)
        \<and> Manifest_Lookup (vaManifest t) (enID e) = Inr (moved_entry ve e mv)) (Manifest_Entries ?m) moved"
      unfolding list_all2_conv_all_nth
    proof (intro conjI allI impI)
      show "length (Manifest_Entries ?m) = length moved" using ent by (rule list_all2_lengthD)
      fix n assume n: "n < length (Manifest_Entries ?m)"
      let ?e = "Manifest_Entries ?m ! n" and ?mv = "moved ! n"
      show idn: "mvID ?mv = enID ?e" and "ParseObjectRef (enObjectRef ?e) = Inr (mvFrom ?mv)"
        using ent n by (simp_all add: list_all2_conv_all_nth)
      have "?mv \<in> set moved" using n ent by (simp add: list_all2_conv_all_nth)
      from relocate_facts(2) [OF wf M(2) refl dist this] obtain e where
        e: "Manifest_Lookup ?m (mvID ?mv) = Inr e" "Manifest_Lookup (vaManifest t) (mvID ?mv) = Inr (moved_entry ve e ?mv)"
        using t(1) by auto
      have "Manifest_Lookup ?m (enID ?e) = Inr ?e" using in_Manifest_Entries [OF wf, of ?e] n by simp
      with e idn show "Manifest_Lookup (vaManifest t) (enID ?e) = Inr (moved_entry ve ?e ?mv)" by simp
    qed
    have now: "\<exists>e0 mv. e = moved_entry ve e0 mv \<and> CPinObject (mvTo mv) \<in> set cs \<and> (mvSlab mv \<noteq> [] \<longrightarrow> mvSlab mv \<in> set (fSlabs f))"
      if "e \<in> set (Manifest_Entries (vaManifest t))" for e
    proof -
      have "enID e \<in> set (map enID (Manifest_Entries ?m))" using that ids(1) by (metis imageI list.set_map)
      then obtain n where n: "n < length (Manifest_Entries ?m)" "enID (Manifest_Entries ?m ! n) = enID e"
        by (auto simp: in_set_conv_nth)
      have "Manifest_Lookup (vaManifest t) (enID e) = Inr e" using in_Manifest_Entries [OF ids(2)] that by blast
      moreover have "Manifest_Lookup (vaManifest t) (enID (Manifest_Entries ?m ! n)) = Inr (moved_entry ve (Manifest_Entries ?m ! n) (moved ! n))"
        using ent' n(1) by (simp add: list_all2_conv_all_nth)
      ultimately have "e = moved_entry ve (Manifest_Entries ?m ! n) (moved ! n)"
        using n(2) by simp
      moreover have "CPinObject (mvTo (moved ! n)) \<in> set cs \<and> (mvSlab (moved ! n) \<noteq> [] \<longrightarrow> mvSlab (moved ! n) \<in> set (fSlabs f))"
        using ent n(1) by (simp add: list_all2_conv_all_nth)
      ultimately show ?thesis by blast
    qed
    have safe: "(enSlabID e \<noteq> [] \<longrightarrow> enSlabID e \<notin> set us)
        \<and> (\<forall>ref. ParseObjectRef (enObjectRef e) = Inr ref \<and> ref \<in> set dels \<longrightarrow> CPinObject ref \<in> set cs)"
      if "e \<in> set (Manifest_Entries (vaManifest t))" for e
      using now [OF that] M(3) by (auto simp: moved_entry_def)
    show ?thesis
      using F ids(1) t(2) safe M(1) ent' destroyed
      by (intro exI [of _ cs] exI [of _ dels] exI [of _ us] conjI impI exI [of _ held] exI [of _ moved] exI [of _ f]) auto
  qed
qed

section \<open>A catalog of one record, on storage this device pinned\<close>

definition one_entry :: "objref \<Rightarrow> slabid \<Rightarrow> mentry" where
  "one_entry ref slab = (demo_entry 7)\<lparr>enObjectRef := Ref_String ref, enSlabID := slab\<rparr>"

definition spanning_vault :: "mentry \<Rightarrow> (byte list list \<times> net_call list) vault" where
  "spanning_vault e = (vault_over ([], []))\<lparr>vaLedger := TrackSlab 0 ''s2'' 1 1 (TrackSlab 0 ''s1'' 1 1 []),
     vaManifest := \<lparr>mfLog = empty_log, mfEntries = [7 \<mapsto> e], mfOrder = [7]\<rparr>,
     vaPacker := demo_packer\<lparr>pkState := QueueState []\<rparr>\<rparr>"

definition spanning_venv :: "(byte list list \<times> net_call list) venv" where
  "spanning_venv = (venv_over span_reclaimer)\<lparr>vnCatalog := line_env\<rparr>"

lemma spanning_venv_sel:
  "vnReclaimer spanning_venv = span_reclaimer" "vnCatalog spanning_venv = line_env" "vnIO spanning_venv n = io_ok"
  "vnOnline spanning_venv" "vnNow spanning_venv = 1000000"
  by (simp_all add: spanning_venv_def)

lemma one_entry_sel:
  "enID (one_entry r i) = 7" "enObjectRef (one_entry r i) = Ref_String r" "enSlabID (one_entry r i) = i"
  "enCID (one_entry r i) = 0" "\<not> enDeleted (one_entry r i)"
  by (simp_all add: one_entry_def demo_entry_def)

lemma spanning_ok:
  "rcSdk (vnReclaimer spanning_venv) = traced span_sdk" "ranged (rcRange (vnReclaimer spanning_venv))"
  "schedule n (rcSched (vnReclaimer spanning_venv) n)" "table_ok (vaLedger (spanning_vault e))"
  "catalog_wf (vaManifest (spanning_vault (one_entry r i)))"
  by (auto simp: spanning_venv_sel span_reclaimer_def ranged_def schedule_def spanning_vault_def TrackSlab_def trackSlab_def
      table_ok_def keys_of_def catalog_wf_def view_wf_def one_entry_sel)

lemma spanning_sel:
  "Manifest_Entries (vaManifest (spanning_vault (one_entry r i))) = [one_entry r i]" "Vault_Pending (spanning_vault e) = 0"
  "rworld_of (spanning_vault e) no_sweep = span_world_of (spanning_vault e)"
  "rworld_of (spanning_vault e) no_repack = repack_world_of (spanning_vault e)" "snd (vaNet (spanning_vault e)) = []"
  by (simp_all add: spanning_vault_def Manifest_Entries_def one_entry_sel Vault_Pending_def Packer_Pending_def
      QueueState_def rworld_of_def span_world_of_def repack_world_of_def)

theorem Reclaim_spares_catalog_witness:
  "\<exists>rep t. Vault_Reclaim spanning_venv False (spanning_vault (one_entry 1 ''s1'')) = Some ((Inr (), rep), t)
     \<and> snd (vaNet t) = [CDelete 2, CUnpin ''s2''] \<and> row_of (vaLedger t) ''s1'' = row_of (vaLedger (spanning_vault (one_entry 1 ''s1''))) ''s1''"
proof -
  let ?s = "spanning_vault (one_entry 1 ''s1'')"
  obtain w where w: "Sweep span_reclaimer span_live (span_world_of ?s) = Some (Inr (), w)"
    "log_of w = [CDelete 2, CUnpin ''s2'']" using span_sweep [of ?s] by (elim exE conjE)
  have "Vault_live (vaManifest ?s) False = Inr span_live"
    by (auto simp: Vault_live_def spanning_sel span_live_def one_entry_sel)
  then have run: "Vault_Reclaim spanning_venv False ?s = Some ((Inr (), rwReport w), vault_of w)"
    using w(1) by (simp add: Vault_Reclaim_def reclaiming_def spanning_sel spanning_venv_sel)
  have log: "snd (vaNet (vault_of w)) = [CDelete 2, CUnpin ''s2'']" using w(2) by (simp add: vault_of_def log_of_def)
  from Reclaim_spares_catalog [OF spanning_ok(1-4) run] obtain dels us objects where
    u: "set us \<subseteq> dead_slabs ?s" "\<forall>i. i \<notin> set us \<longrightarrow> row_of (vaLedger (vault_of w)) i = row_of (vaLedger ?s) i"
    by (elim exE conjE) (rule that)
  have "''s1'' \<notin> set us" using u(1) by (auto simp: dead_slabs_def spanning_sel one_entry_sel)
  with u(2) run log show ?thesis by blast
qed

lemma spanning_relocate:
  "\<exists>c'. relocate spanning_venv [\<lparr>mvID = 7, mvCID = c, mvFrom = r, mvTo = 1, mvSlab = ''s1'', mvBytes = 0\<rparr>]
     (spanning_vault (one_entry r i)) = (Inr (), c')"
proof -
  let ?mv = "\<lparr>mvID = 7, mvCID = c, mvFrom = r, mvTo = 1, mvSlab = ''s1'', mvBytes = 0\<rparr>" and ?s = "spanning_vault (one_entry r i)"
  have "\<exists>m. Manifest_Append line_env io_ok (moved_entry spanning_venv (one_entry r i) ?mv) (vaManifest ?s) = (Inr (), m)"
    by (simp add: Manifest_Append_def Manifest_append_def Log_Append_def Let_def encodeEntry_def line_env_def demo_env_def Seal_def
      plain_crypto_def io_ok_def spanning_vault_def empty_log_def dueForCompaction_def MinCompactBytes_def)
  moreover have "Manifest_Lookup (vaManifest ?s) 7 = Inr (one_entry r i)"
    by (simp add: spanning_vault_def Manifest_Lookup_def one_entry_sel)
  ultimately show ?thesis
    by (auto simp: relocate_def relocate_one_def sbind_def sret_def smod_def on_catalog_def moved_entry_def spanning_venv_sel)
qed

theorem Repack_keeps_records_catalogued_witness:
  "\<exists>rep t e. Vault_Repack spanning_venv (spanning_vault (one_entry 2 ''s2'')) = Some ((Inr (), rep), t)
     \<and> CUnpin ''s2'' \<in> set (snd (vaNet t)) \<and> Manifest_Entries (vaManifest t) = [e] \<and> enID e = 7 \<and> enSlabID e \<noteq> ''s2''"
proof -
  let ?s = "spanning_vault (one_entry 2 ''s2'')"
  obtain c' where c': "relocate spanning_venv [\<lparr>mvID = 7, mvCID = CID_String 0, mvFrom = 2, mvTo = 1, mvSlab = ''s1'', mvBytes = 0\<rparr>] ?s
      = (Inr (), c')" using spanning_relocate by blast
  obtain w where
    w: "Repack span_reclaimer (relocate spanning_venv) [\<lparr>hlID = 7, hlCID = CID_String 0, hlRef = 2, hlSlab = ''s2''\<rparr>]
        (repack_world_of ?s) = (Inr (), w)"
      "log_of w = [CDownload 2, CAdd [], CFinalize, CPinSlabs [demo_slice], CPinObject 1, CDelete 2, CUnpin ''s2'']"
    using repack_demo [where slab = "''s2''" and apply_moves = "relocate spanning_venv" and ref = 2 and cid = "CID_String 0" and c = ?s and c' = c'] c'
    by auto
  have "all_held (Manifest_Entries (vaManifest ?s)) = Inr [\<lparr>hlID = 7, hlCID = CID_String 0, hlRef = 2, hlSlab = ''s2''\<rparr>]"
    by (simp add: spanning_sel held_of_def one_entry_sel)
  then have run: "Vault_Repack spanning_venv ?s = Some ((Inr (), rwReport w), vault_of w)"
    using w(1) by (simp add: Vault_Repack_def reclaiming_def spanning_sel prun_def spanning_venv_sel)
  have log: "snd (vaNet (vault_of w)) = [CDownload 2, CAdd [], CFinalize, CPinSlabs [demo_slice], CPinObject 1, CDelete 2, CUnpin ''s2'']"
    using w(2) by (simp add: vault_of_def log_of_def)
  from Repack_keeps_records_catalogued [OF spanning_ok run] obtain cs dels us where
    u: "snd (vaNet (vault_of w)) = snd (vaNet ?s) @ cs @ map CDelete dels @ map CUnpin us" "harmless cs"
      "map enID (Manifest_Entries (vaManifest (vault_of w))) = map enID (Manifest_Entries (vaManifest ?s))"
      "\<forall>e \<in> set (Manifest_Entries (vaManifest (vault_of w))). (enSlabID e \<noteq> [] \<longrightarrow> enSlabID e \<notin> set us)
          \<and> (\<forall>ref. ParseObjectRef (enObjectRef e) = Inr ref \<and> ref \<in> set dels \<longrightarrow> CPinObject ref \<in> set cs)"
    by blast
  obtain e where e: "Manifest_Entries (vaManifest (vault_of w)) = [e]" "enID e = 7"
    using u(3) by (auto simp: spanning_sel one_entry_sel)
  have "CUnpin ''s2'' \<in> set (snd (vaNet (vault_of w)))" using log by simp
  then have "CUnpin ''s2'' \<in> set (cs @ map CDelete dels @ map CUnpin us)" using u(1) by (simp only: spanning_sel append_Nil)
  then have "''s2'' \<in> set us" using u(2) by (auto simp: harmless_def)
  then have "enSlabID e \<noteq> ''s2''" using u(4) e(1) by auto
  with run e log show ?thesis by auto
qed
text \<open>
  Processes share the ledger and the log of the catalog, but the keep-set is computed from what this
  process loaded.  Whatever another process has appended to the log since, the sweep goes by the
  entries in memory, and here deletes object 2 and releases the slab it is on.
\<close>

lemma Reclaim_blind_to_other_process:
  fixes lg :: log
  defines "s \<equiv> (spanning_vault (one_entry 1 ''s1''))\<lparr>vaManifest := \<lparr>mfLog = lg, mfEntries = [7 \<mapsto> one_entry 1 ''s1''], mfOrder = [7]\<rparr>\<rparr>"
  shows "\<exists>rep t. Vault_Reclaim spanning_venv False s = Some ((Inr (), rep), t) \<and> snd (vaNet t) = [CDelete 2, CUnpin ''s2'']"
proof -
  obtain w where w: "Sweep span_reclaimer span_live (span_world_of s) = Some (Inr (), w)"
    "log_of w = [CDelete 2, CUnpin ''s2'']" using span_sweep [of s] by (elim exE conjE)
  have "Vault_live (vaManifest s) False = Inr span_live"
    by (auto simp: s_def Vault_live_def span_live_def one_entry_sel Manifest_Entries_def)
  moreover have "rworld_of s no_sweep = span_world_of s" "Vault_Pending s = 0"
    by (simp_all add: s_def rworld_of_def span_world_of_def spanning_vault_def Vault_Pending_def Packer_Pending_def QueueState_def)
  ultimately have "Vault_Reclaim spanning_venv False s = Some ((Inr (), rwReport w), vault_of w)"
    using w(1) by (simp add: Vault_Reclaim_def reclaiming_def spanning_venv_sel)
  moreover have "snd (vaNet (vault_of w)) = [CDelete 2, CUnpin ''s2'']" using w(2) by (simp add: vault_of_def log_of_def)
  ultimately show ?thesis by blast
qed

end
