(* ===== verification/VaultFrame.thy ===== *)
theory VaultFrame
  imports VaultReclaim
begin

text \<open>
  What each step of the vault leaves alone, and what queueing a record leaves behind: the write queue and
  the flush change the network, the catalog, the ledger and the queue itself, and a record that was queued
  is owed to the network or already catalogued on it.
\<close>

section \<open>Steps that keep a part of the state\<close>

definition keeps :: "('s \<Rightarrow> 'x) \<Rightarrow> ('s, 'a) step \<Rightarrow> bool" where
  "keeps f m \<longleftrightarrow> (\<forall>s. f (snd (m s)) = f s)"

lemma keepsI: "(\<And>s. f (snd (m s)) = f s) \<Longrightarrow> keeps f m"
  by (simp add: keeps_def)

lemma keeps_at: "keeps f m \<Longrightarrow> f (snd (m s)) = f s"
  by (simp add: keeps_def)

lemma keeps_step: "keeps f m \<Longrightarrow> m s = (r, t) \<Longrightarrow> f t = f s"
  using keeps_at [of f m s] by simp

lemma keeps_preserves: "keeps f m \<Longrightarrow> preserves (\<lambda>s. f s = d) m"
  by (rule preservesI) (simp add: keeps_at)

lemma keeps_less: "keeps f m \<Longrightarrow> (\<And>s. g s = h (f s)) \<Longrightarrow> keeps g m"
  by (simp add: keeps_def)

lemma keeps_pure [simp]: "keeps f (sret x)" "keeps f (slift r)" "keeps f (sfail e)" "keeps f (sget g)"
  by (simp_all add: keeps_def step_defs)

lemma keeps_sbind [intro]: "keeps f m \<Longrightarrow> (\<And>x. keeps f (k x)) \<Longrightarrow> keeps f (sbind m k)"
  by (rule keepsI) (auto simp: sbind_def keeps_at dest: keeps_step split: prod.split sum.split)

lemma keeps_smap [intro]: "(\<And>x. keeps f (k x)) \<Longrightarrow> keeps f (smap_list k xs)"
proof (induction xs)
  case Nil
  then show ?case by simp
next
  case (Cons x xs)
  then show ?case by (simp add: keeps_sbind)
qed

lemma keeps_wrapping [intro]: "keeps f m \<Longrightarrow> keeps f (wrapping p m)"
  by (rule keepsI) (auto simp: wrapping_def split: prod.splits sum.splits dest: keeps_step)

section \<open>The queue and the network\<close>

text \<open>The parts of a vault the queue has no part in, and those only a write to this device changes.\<close>

definition off_network :: "'n vault \<Rightarrow> bodies \<times> heads \<times> nat \<times> ranking_db \<times> index \<times> vstore \<times> index_health \<times> settings
    \<times> session_stats \<times> tiers \<times> object_cache \<times> slab_cache" where
  "off_network s = (vaBodies s, vaHeads s, vaDrawn s, vaRanking s, vaIndex s, vaVectors s, vaHealth s, vaSettings s,
     vaStats s, vaTiers s, vaObjects s, vaSlabs s)"

definition on_device :: "'n vault \<Rightarrow> bodies \<times> heads \<times> nat" where
  "on_device s = (vaBodies s, vaHeads s, vaDrawn s)"

lemma keeps_on_device: "keeps off_network m \<Longrightarrow> keeps on_device m"
  by (erule keeps_less [where h = "\<lambda>(b, h, d, _). (b, h, d)"]) (simp_all add: off_network_def on_device_def)

lemma keeps_ranking: "keeps off_network m \<Longrightarrow> keeps vaRanking m"
  by (erule keeps_less [where h = "\<lambda>(b, h, d, r, _). r"]) (simp_all add: off_network_def)

lemma keeps_index: "keeps off_network m \<Longrightarrow> keeps vaIndex m"
  by (erule keeps_less [where h = "\<lambda>(b, h, d, r, x, _). x"]) (simp_all add: off_network_def)

lemma keeps_network [simp]: "keeps off_network (on_catalog ve f)" "keeps off_network (on_network n)"
  by (auto intro!: keepsI simp: off_network_def on_catalog_def on_network_def split: prod.splits)

lemma keeps_device_parts [simp]:
  "keeps on_device (on_catalog ve f)" "keeps on_device (on_vectors ve v)" "keeps on_device (on_index g)"
  "keeps on_device (put_meta ve mt)"
  by (auto intro!: keepsI simp: on_device_def on_catalog_def on_vectors_def on_index_def step_defs put_meta_def
      split: prod.splits)

lemma Packer_flush_world:
  assumes "Packer_flush fl now reason (p, w) = ((res, err), (p', w'))"
    and put: "\<And>bs. preserves P (flPut fl bs)" and hook: "\<And>h r. flHook fl = Some h \<Longrightarrow> preserves P (h r)" and "P w"
  shows "P w'"
proof -
  have put': "P w1" if "flPut fl bs w = (x, w1)" for bs x w1
    using preservesD [OF put \<open>P w\<close>, of bs] that by simp
  have hook': "P w2" if "flHook fl = Some h" "P w1" "h r w1 = (x, w2)" for h r w1 w2 x
    using preservesD [OF hook [OF that(1)] that(2), of r] that(3) by simp
  show ?thesis
    using assms(1)
  proof (cases rule: Packer_flush_cases)
    case put_failed
    then show ?thesis using put' by blast
  next
    case hook_failed
    then show ?thesis using put' hook' by blast
  next
    case (written cl q1 f w1)
    have "P w1" by (rule put' [OF written(3)])
    then show ?thesis using written(5) hook' by (cases "flHook fl") auto
  qed (use \<open>P w\<close> in simp_all)
qed

lemma keeps_recordFlush: "keeps off_network (recordFlush ve r)"
proof -
  have "keeps off_network (catalog_one ve f q)" for f q
    by (rule keepsI) (auto simp: catalog_one_def keeps_at keeps_wrapping split: option.split sum.split)
  moreover have "keeps off_network (track_one ve r i)" for i
    by (rule keepsI)
       (auto simp: track_one_def wrapping_def on_reclaimer_def Track_def stmt_def sret_def rworld_of_def vault_of_def off_network_def
         split: option.splits prod.splits if_splits)
  ultimately show ?thesis unfolding recordFlush_def by (intro keeps_sbind keeps_smap)
qed

lemma vault_flush_world:
  "Packer_flush (vault_flusher ve) now reason (p, s) = ((res, err), (p', w)) \<Longrightarrow> off_network w = off_network s"
proof (erule Packer_flush_world [where P = "\<lambda>w. off_network w = off_network s"])
  show "preserves (\<lambda>w. off_network w = off_network s) (flPut (vault_flusher ve) bs)" for bs
    by (simp add: vault_flusher_def keeps_preserves)
  show "preserves (\<lambda>w. off_network w = off_network s) (h r)" if "flHook (vault_flusher ve) = Some h" for h r
    using that keeps_preserves [OF keeps_recordFlush, of "off_network s"] by (auto simp: vault_flusher_def)
qed simp

lemma off_network_packer [simp]: "off_network (s\<lparr>vaPacker := p\<rparr>) = off_network s"
  by (simp add: off_network_def)

lemma keeps_flush: "keeps off_network (on_packer (Packer_flush (vault_flusher ve) now reason))"
proof (rule keepsI)
  fix s
  obtain res err p w where f: "Packer_flush (vault_flusher ve) now reason (vaPacker s, s) = ((res, err), (p, w))"
    by (metis prod.collapse)
  then show "off_network (snd (on_packer (Packer_flush (vault_flusher ve) now reason) s)) = off_network s"
    using vault_flush_world [OF f] by (simp add: on_packer_def)
qed

lemma Vault_Flush_keeps: "Vault_Flush ve s = Some (r, t) \<Longrightarrow> off_network t = off_network s"
proof -
  assume f: "Vault_Flush ve s = Some (r, t)"
  then obtain x s1 where s1: "awaitFirstWrite ve s = Some (x, s1)"
    by (auto simp: Vault_Flush_def pbind_def split: option.splits)
  have d: "off_network s1 = off_network s" by (subst awaitFirstWrite_keeps [OF s1]) (simp add: off_network_def)
  have k: "keeps off_network (sbind (on_packer (Packer_Flush (vault_flusher ve) (vnNow ve)))
      (\<lambda>r. sret (if Result_Empty r then None else Some (prFlush r))))"
    unfolding Packer_Flush_def by (intro keeps_sbind keeps_flush keeps_pure)
  show ?thesis using f s1 d keeps_at [OF k, of s1]
    by (auto simp: Vault_Flush_def pbind_def prun_def split: sum.splits)
qed

lemma Vault_Flush_device: "Vault_Flush ve s = Some (r, t) \<Longrightarrow> on_device t = on_device s"
  using Vault_Flush_keeps [of ve s r t] by (simp add: off_network_def on_device_def)

section \<open>A record that was queued\<close>

definition enqueued :: "'n venv \<Rightarrow> recid \<Rightarrow> kind \<Rightarrow> cid \<Rightarrow> byte list \<Rightarrow> queue \<Rightarrow> queue" where
  "enqueued ve i k c framed q = Enqueue (vnNow ve)
     \<lparr>qbID = i, qbKind = k, qbCID = CID_String c, qbPayload = framed, qbQueuedAt = vnNow ve, qbSeq = 0\<rparr> q"

text \<open>Queueing either stops there or goes on to flush.\<close>

lemma queue_blob_cases:
  assumes "queue_blob ve i k c framed s = (x, t)"
  obtains (refused) "t = s" "\<exists>e. x = Inl e"
  | (queued) p where "t = s\<lparr>vaPacker := p\<rparr>" "x = Inr no_result" "pkQueue p = enqueued ve i k c framed (pkQueue (vaPacker s))"
  | (flushed) p1 reason res err p w where
      "Packer_flush (vault_flusher ve) (vnNow ve) reason (p1, s) = ((res, err), (p, w))" "t = w\<lparr>vaPacker := p\<rparr>"
      "x = (case err of Some e \<Rightarrow> Inl e | None \<Rightarrow> Inr res)" "pkQueue p1 = enqueued ve i k c framed (pkQueue (vaPacker s))"
      "pkOwner p1 = pkOwner (vaPacker s)" "pkPolicy p1 = pkPolicy (vaPacker s)"
proof (cases "flDB (vault_flusher ve) DbEnqueue")
  case (Some e)
  then show thesis using assms refused by (auto simp: queue_blob_def on_packer_def Packer_Add_def)
next
  case None
  let ?st = "(pkState (vaPacker s))\<lparr>qsRecords := qsRecords (pkState (vaPacker s)) + 1,
     qsBytes := qsBytes (pkState (vaPacker s)) + int (length framed),
     qsOldest := (if qsOldest (pkState (vaPacker s)) = 0 then vnNow ve else qsOldest (pkState (vaPacker s))), qsNewest := vnNow ve\<rparr>"
  let ?p = "(vaPacker s)\<lparr>pkQueue := enqueued ve i k c framed (pkQueue (vaPacker s)), pkState := ?st\<rparr>"
  have a: "Packer_Add (vault_flusher ve) (vnNow ve)
      \<lparr>qiID = i, qiKind = k, qiBlob = \<lparr>blCID = CID_String c, blPayload = framed\<rparr>, qiSince = 0\<rparr> (vaPacker s, s)
      = (case Policy_due (pkPolicy (vaPacker s)) ?st (vnNow ve) of None \<Rightarrow> ((no_result, None), (?p, s))
         | Some reason \<Rightarrow> if \<not> pkOnline (vaPacker s) then ((no_result, None), (?p, s))
             else Packer_flush (vault_flusher ve) (vnNow ve) reason (?p, s))"
    unfolding enqueued_def using None
    by (cases "qsOldest (pkState (vaPacker s)) = 0") (simp_all add: Packer_Add_def Let_def)
  show thesis
  proof (cases "\<exists>reason. Policy_due (pkPolicy (vaPacker s)) ?st (vnNow ve) = Some reason \<and> pkOnline (vaPacker s)")
    case True
    then obtain reason where r: "Policy_due (pkPolicy (vaPacker s)) ?st (vnNow ve) = Some reason" "pkOnline (vaPacker s)" by blast
    obtain res err p w where f: "Packer_flush (vault_flusher ve) (vnNow ve) reason (?p, s) = ((res, err), (p, w))"
      by (metis prod.collapse)
    show thesis
      by (rule flushed [OF f]) (use assms r f in \<open>simp_all add: queue_blob_def on_packer_def a\<close>)
  next
    case False
    then have "x = Inr no_result" "t = s\<lparr>vaPacker := ?p\<rparr>"
      using assms by (auto simp: queue_blob_def on_packer_def a split: option.splits if_splits)
    then show thesis using queued [of ?p] by simp
  qed
qed

lemma keeps_queue_blob [simp]: "keeps off_network (queue_blob ve i k c framed)"
proof (rule keepsI)
  fix s
  obtain x t where q: "queue_blob ve i k c framed s = (x, t)" by fastforce
  then show "off_network (snd (queue_blob ve i k c framed s)) = off_network s"
  proof (cases rule: queue_blob_cases)
    case (flushed p1 reason res err p w)
    then show ?thesis using q vault_flush_world [OF flushed(1)] by simp
  qed (use q in simp_all)
qed

text \<open>Where the catalog says the flush wrote a record.\<close>

definition written_to :: "flush \<Rightarrow> string \<Rightarrow> manifest \<Rightarrow> recid \<Rightarrow> bool" where
  "written_to f c m i \<longleftrightarrow> (\<exists>w \<in> set (fWritten f). wrCID w = c \<and>
     (\<exists>e. mfEntries m i = Some e \<and> enID e = i \<and> enObjectRef e = Ref_String (wrRef w) \<and> enSlabID e = wrSlab w \<and> \<not> enDeleted e))"

lemma flush_claimed:
  assumes f: "Packer_flush (vault_flusher ve) now reason (p, s) = ((r, None), (p', w))" and ok: "queue_ok (pkQueue p)"
    and has: "queued (pkQueue p) i = Some (c, payload)"
    and "claimable now (claimTimeout (pkPolicy p)) (claimed_at (pkQueue p) i)"
  shows "written_to (prFlush r) c (vaManifest w) i"
  using f
proof (cases rule: Packer_flush_cases)
  case (idle q1)
  then show ?thesis using claim_facts(3) [OF ok idle(1), of i] has assms(4) by simp
next
  case (written cl q1 f w1)
  note C = claim_facts [OF ok written(2)]
  have "i \<in> qbID ` set cl" using C(3) has assms(4) by simp
  then obtain b where b: "b \<in> set cl" "qbID b = i" by blast
  have rec: "recordFlush ve r w1 = (Inr (), w)" using written(5) by (simp add: vault_flusher_def)
  have "item_of b \<in> set (prRecords r)" using b written(4) by simp
  from recordFlush_Inr(3) [OF rec this] b(2) obtain q' x y where q': "q' \<in> set (prRecords r)" "qiID q' = i"
    "by_cid (fWritten (prFlush r)) (blCID (qiBlob q')) = Some x"
    "mfEntries (vaManifest w) i = Some (entry_for ve (vaRanking w1) q' y x)" by (auto simp: item_of_def)
  obtain b' where b': "b' \<in> set cl" "q' = item_of b'" using q'(1) written(4) by auto
  have "qbID b' = i" using b'(2) q'(2) by (simp add: item_of_def)
  then have "sealed_of b' = (c, payload)" using C(4) [OF b'(1)] has by simp
  then have "blCID (qiBlob q') = c" using b'(2) by (simp add: item_of_def sealed_of_def)
  then have "x \<in> set (fWritten (prFlush r)) \<and> wrCID x = c" using by_cid_in [OF q'(3)] by simp
  with q'(2,4) show ?thesis by (auto simp: written_to_def entry_for_def Let_def)
qed simp_all

lemma flush_unclaimed:
  assumes f: "Packer_flush (vault_flusher ve) now reason (p, s) = ((r, None), (p', w))" and ok: "queue_ok (pkQueue p)"
    and "\<not> claimable now (claimTimeout (pkPolicy p)) (claimed_at (pkQueue p) i)"
  shows "queued (pkQueue p') i = queued (pkQueue p) i"
  using f
proof (cases rule: Packer_flush_cases)
  case (idle q1)
  then show ?thesis using claim_facts(2) [OF ok idle(1), of i] by simp
next
  case (written cl q1 f w1)
  note C = claim_facts [OF ok written(2)]
  have "i \<notin> qbID ` set cl" using C(3) assms(3) by simp
  then show ?thesis using written(6) C(2) by (auto simp: fq.waiting_drop)
qed simp_all

text \<open>A record that was queued is still owed to the network, or the network has it and the catalog says where.\<close>

lemma queue_blob_owed:
  assumes "queue_blob ve i k c framed s = (Inr r, t)" and ok: "queue_ok (pkQueue (vaPacker s))"
  shows "queued (pkQueue (vaPacker t)) i = Some (CID_String c, framed) \<or> written_to (prFlush r) (CID_String c) (vaManifest t) i"
    and "queued (pkQueue (vaPacker s)) i = None \<Longrightarrow> fWritten (prFlush r) \<noteq> [] \<Longrightarrow>
      written_to (prFlush r) (CID_String c) (vaManifest t) i"
proof -
  have has: "queued (enqueued ve i k c framed q) i = Some (CID_String c, framed)" for q
    by (simp add: enqueued_def queued_def row_of_Enqueue split: option.split)
  have free: "claimed_at (enqueued ve i k c framed q) i = None" if "queued q i = None" for q
    using that by (simp add: enqueued_def queued_def claimed_at_def row_of_Enqueue)
  have ok': "queue_ok (enqueued ve i k c framed (pkQueue (vaPacker s)))" using ok by (simp add: enqueued_def)
  show "queued (pkQueue (vaPacker t)) i = Some (CID_String c, framed) \<or> written_to (prFlush r) (CID_String c) (vaManifest t) i"
    using assms(1)
  proof (cases rule: queue_blob_cases)
    case (queued p)
    then show ?thesis using has by simp
  next
    case (flushed p1 reason res err p w)
    have f: "Packer_flush (vault_flusher ve) (vnNow ve) reason (p1, s) = ((r, None), (p, w))"
      using flushed(1,3) by (cases err) simp_all
    have q: "queued (pkQueue p1) i = Some (CID_String c, framed)" "queue_ok (pkQueue p1)" using flushed(4) has ok' by simp_all
    show ?thesis using flush_claimed [OF f q(2,1)] flush_unclaimed [OF f q(2), of i] q(1) flushed(2) by auto
  qed simp
  assume n: "queued (pkQueue (vaPacker s)) i = None" and wr: "fWritten (prFlush r) \<noteq> []"
  show "written_to (prFlush r) (CID_String c) (vaManifest t) i"
    using assms(1)
  proof (cases rule: queue_blob_cases)
    case (queued p)
    then show ?thesis using wr by (simp add: no_result_def)
  next
    case (flushed p1 reason res err p w)
    have f: "Packer_flush (vault_flusher ve) (vnNow ve) reason (p1, s) = ((r, None), (p, w))"
      using flushed(1,3) by (cases err) simp_all
    have q: "queued (pkQueue p1) i = Some (CID_String c, framed)" "queue_ok (pkQueue p1)" using flushed(4) has ok' by simp_all
    have "claimable (vnNow ve) (claimTimeout (pkPolicy p1)) (claimed_at (pkQueue p1) i)"
      using free [OF n] flushed(4) by (simp add: claimable_def)
    from flush_claimed [OF f q(2,1) this] show ?thesis using flushed(2) by simp
  qed simp
qed

lemma queue_ok_flushed:
  assumes "Packer_flush fl now reason (p, w) = (x, (p', w'))" and "queue_ok (pkQueue p)"
  shows "queue_ok (pkQueue p')"
proof -
  obtain res err where "Packer_flush fl now reason (p, w) = ((res, err), (p', w'))" using assms(1) by (cases x) simp
  then show ?thesis
    by (cases rule: Packer_flush_cases) (use assms(2) claim_facts(1) in \<open>auto simp: fq.ok_release fq.ok_drop split: if_splits\<close>)
qed

lemma queue_ok_queue_blob:
  assumes "queue_blob ve i k c framed s = (x, t)" and ok: "queue_ok (pkQueue (vaPacker s))"
  shows "queue_ok (pkQueue (vaPacker t))"
  using assms(1)
proof (cases rule: queue_blob_cases)
  case (flushed p1 reason res err p w)
  then show ?thesis using queue_ok_flushed [OF flushed(1)] ok by (simp add: enqueued_def)
qed (use ok in \<open>simp_all add: enqueued_def\<close>)

text \<open>Records that wait for a flush which nothing holds back, and records the catalog places on the network.\<close>

definition pending_in :: "packer \<Rightarrow> recid \<Rightarrow> bool" where
  "pending_in p i \<longleftrightarrow> queued (pkQueue p) i \<noteq> None \<and> claimed_at (pkQueue p) i = None"

definition in_catalog :: "manifest \<Rightarrow> recid \<Rightarrow> bool" where
  "in_catalog m i \<longleftrightarrow> (\<exists>e. mfEntries m i = Some e \<and> \<not> enDeleted e)"

definition owed_or_stored :: "'n vault \<Rightarrow> recid \<Rightarrow> bool" where
  "owed_or_stored s i \<longleftrightarrow> pending_in (vaPacker s) i \<or> in_catalog (vaManifest s) i"

lemma recordFlush_in_catalog:
  assumes "recordFlush ve r s = (Inr u, t)" and "in_catalog (vaManifest s) i"
  shows "in_catalog (vaManifest t) i"
proof (cases "i \<in> qiID ` set (prRecords r)")
  case True
  then obtain q where "q \<in> set (prRecords r)" "qiID q = i" by blast
  with recordFlush_Inr(3) [OF assms(1) this(1)] show ?thesis by (auto simp: in_catalog_def entry_for_def Let_def)
next
  case False
  then show ?thesis using recordFlush_Inr(4) [OF assms(1) False] assms(2) by (simp add: in_catalog_def)
qed

text \<open>A flush that answered leaves nothing that was pending, and forgets no record.\<close>

lemma flush_stores:
  assumes f: "Packer_flush (vault_flusher ve) now reason (p, s) = ((r, None), (p', w))" and ok: "queue_ok (pkQueue p)"
    and "pending_in p i \<or> in_catalog (vaManifest s) i"
  shows "in_catalog (vaManifest w) i"
proof (cases "pending_in p i")
  case True
  then obtain c payload where "queued (pkQueue p) i = Some (c, payload)" by (cases "queued (pkQueue p) i") (auto simp: pending_in_def)
  from flush_claimed [OF f ok this] True show ?thesis by (auto simp: pending_in_def claimable_def written_to_def in_catalog_def)
next
  case False
  then have c: "in_catalog (vaManifest s) i" using assms(3) by simp
  from f show ?thesis
  proof (cases rule: Packer_flush_cases)
    case (written cl q1 f w1)
    have "in_catalog (vaManifest w1) i"
      using written(3) c by (auto simp: vault_flusher_def on_network_def split: prod.splits)
    moreover have "recordFlush ve r w1 = (Inr (), w)" using written(5) by (simp add: vault_flusher_def)
    ultimately show ?thesis by (rule recordFlush_in_catalog [rotated])
  qed (use c in simp_all)
qed

lemma flush_queue_shrinks:
  assumes "Packer_flush fl now reason (p, w) = (x, (p', w'))" and "queue_ok (pkQueue p)" and "queued (pkQueue p) j = None"
  shows "queued (pkQueue p') j = None"
proof -
  obtain res err where "Packer_flush fl now reason (p, w) = ((res, err), (p', w'))" using assms(1) by (cases x) simp
  then show ?thesis
    by (cases rule: Packer_flush_cases)
       (use assms(3) claim_facts(2) [OF assms(2)] in \<open>auto simp: fq.waiting_release fq.waiting_drop split: if_splits\<close>)
qed

lemma queue_blob_tracks:
  assumes "queue_blob ve i k c framed s = (Inr r, t)" and ok: "queue_ok (pkQueue (vaPacker s))"
    and new: "queued (pkQueue (vaPacker s)) i = None"
  shows "owed_or_stored s j \<or> j = i \<Longrightarrow> owed_or_stored t j"
    and "fWritten (prFlush r) \<noteq> [] \<Longrightarrow> owed_or_stored s j \<or> j = i \<Longrightarrow> in_catalog (vaManifest t) j"
    and "j \<noteq> i \<Longrightarrow> queued (pkQueue (vaPacker s)) j = None \<Longrightarrow> queued (pkQueue (vaPacker t)) j = None"
proof -
  let ?q = "enqueued ve i k c framed (pkQueue (vaPacker s))"
  have own: "queued ?q i = Some (CID_String c, framed)" "claimed_at ?q i = None"
    using new by (auto simp: enqueued_def queued_def claimed_at_def row_of_Enqueue split: option.splits)
  have other: "queued ?q j = queued (pkQueue (vaPacker s)) j" "claimed_at ?q j = claimed_at (pkQueue (vaPacker s)) j" if "j \<noteq> i" for j
    using that by (simp_all add: enqueued_def queued_def claimed_at_def row_of_Enqueue)
  have pend: "owed_or_stored s j \<or> j = i \<Longrightarrow> pending_in p j \<or> in_catalog (vaManifest s) j" if "pkQueue p = ?q" for p j
    using that own other [of j] by (cases "j = i") (auto simp: pending_in_def owed_or_stored_def)
  have ok': "queue_ok ?q" using ok by (simp add: enqueued_def)
  have "(owed_or_stored s j \<or> j = i \<longrightarrow> owed_or_stored t j)
    \<and> (fWritten (prFlush r) \<noteq> [] \<longrightarrow> owed_or_stored s j \<or> j = i \<longrightarrow> in_catalog (vaManifest t) j)
    \<and> (j \<noteq> i \<longrightarrow> queued (pkQueue (vaPacker s)) j = None \<longrightarrow> queued (pkQueue (vaPacker t)) j = None)"
    using assms(1)
  proof (cases rule: queue_blob_cases)
    case (queued p)
    have "r = no_result" using queued(2) by simp
    then show ?thesis using queued(1,3) pend [OF queued(3), of j] other [of j] by (simp add: owed_or_stored_def no_result_def)
  next
    case (flushed p1 reason res err p w)
    have f: "Packer_flush (vault_flusher ve) (vnNow ve) reason (p1, s) = ((r, None), (p, w))"
      using flushed(1,3) by (cases err) simp_all
    have okp: "queue_ok (pkQueue p1)" using flushed(4) ok' by simp
    have "queued (pkQueue p1) j = None \<Longrightarrow> queued (pkQueue p) j = None" by (rule flush_queue_shrinks [OF f okp])
    then show ?thesis using flush_stores [OF f okp, of j] pend [OF flushed(4), of j] other [of j] flushed(2,4)
      by (auto simp: owed_or_stored_def)
  qed simp
  then show "owed_or_stored s j \<or> j = i \<Longrightarrow> owed_or_stored t j"
    "fWritten (prFlush r) \<noteq> [] \<Longrightarrow> owed_or_stored s j \<or> j = i \<Longrightarrow> in_catalog (vaManifest t) j"
    "j \<noteq> i \<Longrightarrow> queued (pkQueue (vaPacker s)) j = None \<Longrightarrow> queued (pkQueue (vaPacker t)) j = None" by blast+
qed

text \<open>The same of a flush the caller asked for.\<close>

lemma Vault_Flush_stores:
  assumes "Vault_Flush ve s = Some (Inr f, t)" and ok: "queue_ok (pkQueue (vaPacker s))" and "owed_or_stored s j"
  shows "in_catalog (vaManifest t) j"
proof -
  obtain s0 r where s0: "awaitFirstWrite ve s = Some (Inr (), s0)"
    and r: "on_packer (Packer_Flush (vault_flusher ve) (vnNow ve)) s0 = (Inr r, t)"
    using assms(1) by (auto simp: Vault_Flush_def pbind_Inr_iff prun_def sbind_Inr_iff sret_def split: if_splits)
  have s0': "s0 = s\<lparr>vaNet := vaNet s0, vaReady := vaReady s0\<rparr>" by (rule awaitFirstWrite_keeps [OF s0])
  have pk: "vaPacker s0 = vaPacker s" "vaManifest s0 = vaManifest s" by (subst s0', simp)+
  obtain p w where f: "Packer_flush (vault_flusher ve) (vnNow ve) ReasonManual (vaPacker s0, s0) = ((r, None), (p, w))"
    "t = w\<lparr>vaPacker := p\<rparr>" using on_packer_Inr [OF r] by (auto simp: Packer_Flush_def)
  show ?thesis using flush_stores [OF f(1), of j] ok assms(3) pk f(2) by (simp add: owed_or_stored_def)
qed

text \<open>The part of the state that says what is owed and what is stored.\<close>

definition owing :: "'n vault \<Rightarrow> packer \<times> manifest" where
  "owing s = (vaPacker s, vaManifest s)"

definition owing_drawn :: "'n vault \<Rightarrow> packer \<times> manifest \<times> nat" where
  "owing_drawn s = (vaPacker s, vaManifest s, vaDrawn s)"

lemma keeps_owing_of: "keeps owing_drawn m \<Longrightarrow> keeps owing m"
  by (erule keeps_less [where h = "\<lambda>(p, m, d). (p, m)"]) (simp add: owing_def owing_drawn_def)

lemma keeps_owing_drawn [simp]:
  "keeps owing_drawn (on_vectors ve v)" "keeps owing_drawn (on_index g)" "keeps owing_drawn (on_heads h)"
  "keeps owing_drawn (put_meta ve mt)" "keeps owing_drawn (put_body ve i k b)"
  by (auto intro!: keepsI simp: owing_drawn_def on_vectors_def on_index_def on_heads_def step_defs put_meta_def put_body_def
      split: prod.splits)

lemma keeps_owing_drawn_putVector [simp]: "keeps owing_drawn (putVector ve i v)"
proof -
  have "keeps owing_drawn (smod (\<lambda>s. s\<lparr>vaHealth := f s\<rparr>))" for f :: "'a vault \<Rightarrow> index_health"
    by (rule keepsI) (simp add: smod_def owing_drawn_def)
  moreover have "keeps owing_drawn (compactVectorsIfDue ve)"
    by (rule keepsI) (simp add: compactVectorsIfDue_def read_and_compact_def keeps_at)
  ultimately show ?thesis unfolding putVector_def by (intro keeps_sbind keeps_owing_drawn keeps_pure)
qed

lemma keeps_owing_drawn_session [simp]: "keeps owing_drawn (vault_session ve i)" "keeps owing_drawn (Vault_Session ve i)"
  by (rule keepsI, simp add: Vault_Session_def vault_session_def owing_drawn_def split: sum.split prod.split)+

lemma keeps_owing_draw [simp]: "keeps owing (draw ve n)"
  by (rule keepsI) (simp add: draw_def owing_def)

lemma keeps_owing_NewID [simp]: "keeps owing (NewID ve)"
  unfolding NewID_def by (intro keeps_sbind keeps_owing_draw keeps_pure)

lemma keeps_owing_seal [simp]: "keeps owing (seal_body ve i k body)"
  unfolding seal_body_def by (intro keeps_sbind keeps_owing_draw keeps_pure)

lemma owed_or_stored_owing: "owing t = owing s \<Longrightarrow> owed_or_stored t i = owed_or_stored s i"
  by (simp add: owing_def owed_or_stored_def)

end
