(* ===== verification/VaultSession.thy ===== *)
theory VaultSession
  imports VaultFrame
begin

text \<open>
  \<open>vault/session.go\<close>: saving a conversation as a small head and immutable chunks, appending to it,
  the edges between a session and its sub-agents, and forgetting it.  \<open>vaStats\<close> counts the reads; the
  durations a result reports are left out.  So is the result that \<open>SaveSession\<close> returns beside the error
  of a durable flush that failed: the model answers with the error alone, in the state the code leaves,
  where the head is saved and its chunks wait in the queue.
\<close>

section \<open>Requests and results\<close>

record save_request =
  sqID :: recid
  sqTitle :: string
  sqSummary :: string
  sqTags :: "string list"
  sqProject :: project
  sqAgent :: agent
  sqModels :: "string list"
  sqKind :: string
  sqAgentRef :: "agent_ref option"
  sqLineage :: lineage
  sqMessages :: "message list"
  sqPreservedTail :: "string list"
  sqTokensIn :: int
  sqTokensOut :: int
  sqDurationMS :: int
  sqArchived :: bool
  sqUnarchive :: bool
  sqDurable :: bool

record save_result =
  svID :: recid
  svVersion :: int
  svChunks :: "chunk_ref list"
  svMessages :: int
  svBytes :: int
  svOnNetwork :: bool
  svFlushed :: "flush option"

section \<open>The head being written\<close>

definition vault_embedding :: "'n venv \<Rightarrow> embedding" where
  "vault_embedding ve = \<lparr>embModel = vnModel ve, embDim = int (vnDim ve)\<rparr>"

definition new_session :: "'n venv \<Rightarrow> save_request \<Rightarrow> recid \<Rightarrow> session_head" where
  "new_session ve q i = \<lparr>sID = i, sSchema = MessageSchema, sSchemaVersion = SchemaVersion, sVersion = 1, sTitle = [],
     sSummary = [], sTags = [], sProject = \<lparr>prCWD = [], prRepo = [], prBranch = []\<rparr>,
     sCreated = stamp (vnNow ve), sUpdated = stamp (vnNow ve), sArchived = False,
     sAgent = \<lparr>agName = [], agVersion = []\<rparr>, sModels = [],
     sCounts = \<lparr>cnMessages = 0, cnChunks = 0, cnBytes = 0, cnTokensIn = 0, cnTokensOut = 0, cnDurationMS = 0\<rparr>,
     sKind = (if sqKind q = [] then SessionMain else sqKind q), sAgentRef = sqAgentRef q, sLineage = sqLineage q,
     sHeadMessage = [], sPreservedTail = [], sChunks = [], sMemories = [], sEmbedding = vault_embedding ve\<rparr>"

definition openSession :: "'n venv \<Rightarrow> save_request \<Rightarrow> ('n vault, session_head \<times> int) step" where
  "openSession ve q =
    (if \<not> ID_IsZero (sqID q)
     then sbind (Vault_Session ve (sqID q)) (\<lambda>h.
       sret (h\<lparr>sVersion := sVersion h + 1, sEmbedding := vault_embedding ve\<rparr>, sVersion h))
     else sbind (NewID ve) (\<lambda>i. sret (new_session ve q i, 0)))"

definition appendUnique :: "string list \<Rightarrow> string \<Rightarrow> string list" where
  "appendUnique xs v = (if v \<in> set xs then xs else xs @ [v])"

definition add_models :: "save_request \<Rightarrow> string list \<Rightarrow> string list" where
  "add_models q models = foldl appendUnique models
     (sqModels q @ filter (\<lambda>m. m \<noteq> []) (map (\<lambda>m. mmModel (msgMeta m)) (sqMessages q)))"

definition applyHeadUpdates :: "'n venv \<Rightarrow> save_request \<Rightarrow> session_head \<Rightarrow> session_head" where
  "applyHeadUpdates ve q h = h\<lparr>
     sTitle := (if sqTitle q \<noteq> [] then sqTitle q else sTitle h),
     sSummary := (if sqSummary q \<noteq> [] then sqSummary q else sSummary h),
     sTags := (if sqTags q \<noteq> [] then NormalizeTags (vnText ve) (sqTags q) else sTags h),
     sProject := (if \<not> Project_Empty (sqProject q) then sqProject q else sProject h),
     sAgent := (if agName (sqAgent q) \<noteq> [] then sqAgent q else sAgent h),
     sAgentRef := (if sqAgentRef q \<noteq> None then sqAgentRef q else sAgentRef h),
     sModels := add_models q (sModels h),
     sPreservedTail := (if sqPreservedTail q \<noteq> [] then sqPreservedTail q else sPreservedTail h),
     sHeadMessage := (if sqMessages q \<noteq> [] then msgID (last (sqMessages q)) else sHeadMessage h),
     sCounts := (sCounts h)\<lparr>cnChunks := int (length (sChunks h)),
       cnTokensIn := cnTokensIn (sCounts h) + sqTokensIn q, cnTokensOut := cnTokensOut (sCounts h) + sqTokensOut q,
       cnDurationMS := cnDurationMS (sCounts h) + sqDurationMS q\<rparr>,
     sArchived := (if sqArchived q then True else if sqUnarchive q then False else sArchived h),
     sUpdated := stamp (vnNow ve)\<rparr>"

section \<open>What may be appended\<close>

fun validate_messages :: "string set \<Rightarrow> message list \<Rightarrow> unit res" where
  "validate_messages seen [] = Inr ()"
| "validate_messages seen (m # ms) = rbind (Message_Validate m) (\<lambda>_.
     if msgID m \<in> seen then fail [ErrInvalid] ''message is already in session''
     else validate_messages (insert (msgID m) seen) ms)"

definition boundary_ids :: "session_head \<Rightarrow> string set" where
  "boundary_ids h = set (map crFirst (sChunks h) @ map crLast (sChunks h)) - {[]}"

definition validateAppend :: "session_head \<Rightarrow> message list \<Rightarrow> unit res" where
  "validateAppend h ms = (if ms = [] then Inr () else validate_messages (boundary_ids h) ms)"

section \<open>Chunks\<close>

record written_chunk =
  wcRef :: chunk_ref
  wcCID :: string
  wcFlushed :: presult

definition new_chunk :: "recid \<Rightarrow> session_head \<Rightarrow> message list \<Rightarrow> chunk" where
  "new_chunk i h ms = \<lparr>chID = i, chKind = KindChunk, chSchema = MessageSchema, chSchemaVersion = SchemaVersion,
     chSession = sID h, chSeq = int (length (sChunks h)), chMessages = ms\<rparr>"

definition written_ref :: "chunk \<Rightarrow> byte list \<Rightarrow> cid \<Rightarrow> chunk_ref" where
  "written_ref c body k = \<lparr>crID = chID c, crSeq = chSeq c, crFirst = msgID (hd (chMessages c)),
     crLast = msgID (last (chMessages c)), crN = int (length (chMessages c)), crBytes = int (length body),
     crCID = CID_String k\<rparr>"

definition writeChunk :: "'n venv \<Rightarrow> session_head \<Rightarrow> message list \<Rightarrow> ('n vault, written_chunk) step" where
  "writeChunk ve h ms =
    sbind (NewID ve) (\<lambda>i. sbind (slift (Chunk_Validate (new_chunk i h ms))) (\<lambda>_.
    sbind (slift (vnMarshalChunk ve (new_chunk i h ms))) (\<lambda>body.
    sbind (seal_body ve i KindChunk body) (\<lambda>(k, framed).
    sbind (put_body ve i KindChunk body) (\<lambda>_.
    sbind (queue_blob ve i KindChunk k framed) (\<lambda>flushed.
      sret \<lparr>wcRef = written_ref (new_chunk i h ms) body k, wcCID = CID_String k, wcFlushed = flushed\<rparr>))))))"

lemma new_chunk_sel [simp]:
  "chMessages (new_chunk i h ms) = ms" "chID (new_chunk i h ms) = i" "chSeq (new_chunk i h ms) = int (length (sChunks h))"
  by (simp_all add: new_chunk_def)

text \<open>The chunks a save still owes the network.\<close>

definition settle :: "string set \<Rightarrow> flush option \<Rightarrow> string set" where
  "settle owed f = (case f of None \<Rightarrow> owed | Some fl \<Rightarrow> owed - set (map wrCID (fWritten fl)))"

definition add_chunk :: "chunk_ref \<Rightarrow> session_head \<Rightarrow> session_head" where
  "add_chunk ref h = h\<lparr>sChunks := sChunks h @ [ref],
     sCounts := (sCounts h)\<lparr>cnMessages := cnMessages (sCounts h) + crN ref, cnBytes := cnBytes (sCounts h) + crBytes ref\<rparr>\<rparr>"

definition tally :: "chunk_ref \<Rightarrow> save_result \<Rightarrow> save_result" where
  "tally ref r = r\<lparr>svChunks := svChunks r @ [ref], svMessages := svMessages r + crN ref, svBytes := svBytes r + crBytes ref\<rparr>"

fun write_groups :: "'n venv \<Rightarrow> message list list \<Rightarrow> session_head \<Rightarrow> save_result \<Rightarrow> string set
    \<Rightarrow> ('n vault, session_head \<times> save_result \<times> string set) step" where
  "write_groups ve [] h r owed = sret (h, r, owed)"
| "write_groups ve (ms # groups) h r owed = sbind (writeChunk ve h ms) (\<lambda>w.
     write_groups ve groups (add_chunk (wcRef w) h) (tally (wcRef w) r)
       (settle (insert (wcCID w) owed) (Some (prFlush (wcFlushed w)))))"

section \<open>Heads\<close>

definition put_head :: "'n venv \<Rightarrow> session_head \<Rightarrow> int \<Rightarrow> ('n vault, unit) step" where
  "put_head ve h from = sbind (slift (vnMarshalSession ve h)) (\<lambda>b. on_heads (PutSessionHead h b from))"

definition storeHead :: "'n venv \<Rightarrow> session_head \<Rightarrow> f32 list \<Rightarrow> int \<Rightarrow> ('n vault, unit) step" where
  "storeHead ve h vector from =
    sbind (put_head ve h from) (\<lambda>_.
    sbind (putVector ve (sID h) vector) (\<lambda>_.
    put_meta ve (sessionRankingMeta h)))"

text \<open>A head that was read, changed and is stored again.\<close>

definition reviseHead :: "'n venv \<Rightarrow> session_head \<Rightarrow> ('n vault, unit) step" where
  "reviseHead ve h = put_head ve (h\<lparr>sVersion := sVersion h + 1, sUpdated := stamp (vnNow ve)\<rparr>) (sVersion h)"

definition adoptChild :: "'n venv \<Rightarrow> recid \<Rightarrow> recid \<Rightarrow> ('n vault, unit) step" where
  "adoptChild ve up child s = (case vault_session ve up s of
     (Inl e, s') \<Rightarrow> (if errors_Is e ErrLocalNotFound then fail [ErrNoSession] ''no such session, named as the parent''
        else Inl e, s')
   | (Inr h, s') \<Rightarrow>
       if child \<in> set (lnChildren (sLineage h)) then (Inr (), s')
       else reviseHead ve (h\<lparr>sLineage := (sLineage h)\<lparr>lnChildren := lnChildren (sLineage h) @ [child]\<rparr>\<rparr>) s')"

definition disownChild :: "'n venv \<Rightarrow> recid \<Rightarrow> recid \<Rightarrow> ('n vault, unit) step" where
  "disownChild ve up child s = (case vault_session ve up s of
     (Inl e, s') \<Rightarrow> (if errors_Is e ErrLocalNotFound then Inr () else Inl e, s')
   | (Inr h, s') \<Rightarrow> let kept = filter (\<lambda>i. i \<noteq> child) (lnChildren (sLineage h)) in
       if length kept = length (lnChildren (sLineage h)) then (Inr (), s')
       else reviseHead ve (h\<lparr>sLineage := (sLineage h)\<lparr>lnChildren := kept\<rparr>\<rparr>) s')"

definition LinkMemory :: "'n venv \<Rightarrow> recid \<Rightarrow> recid \<Rightarrow> ('n vault, unit) step" where
  "LinkMemory ve session memory = sbind (Vault_Session ve session) (\<lambda>h.
     if memory \<in> set (sMemories h) then sret () else reviseHead ve (h\<lparr>sMemories := sMemories h @ [memory]\<rparr>))"

section \<open>Saving\<close>

definition no_save :: save_result where
  "no_save = \<lparr>svID = 0, svVersion = 0, svChunks = [], svMessages = 0, svBytes = 0, svOnNetwork = False, svFlushed = None\<rparr>"

text \<open>Everything on this device: the chunks, the head and what has to agree with it, the parent's edge.\<close>

definition save_head :: "'n venv \<Rightarrow> int \<Rightarrow> session_head \<Rightarrow> ('n vault, unit) step" where
  "save_head ve from h =
    sbind (slift (Session_Validate h)) (\<lambda>_.
    sbind (slift (vnEmbed ve (Session_IndexText h))) (\<lambda>vector.
    sbind (storeHead ve h vector from) (\<lambda>_.
      if from = 0 then (case lnParentSession (sLineage h) of None \<Rightarrow> sret () | Some p \<Rightarrow> adoptChild ve p (sID h))
      else sret ())))"

definition save_locally :: "'n venv \<Rightarrow> save_request \<Rightarrow> ('n vault, save_result \<times> string set) step" where
  "save_locally ve q =
    sbind (openSession ve q) (\<lambda>(h, from).
    sbind (slift (validateAppend h (sqMessages q))) (\<lambda>_.
    sbind (slift (SplitMessages (messageBytes (vnMarshalMessage ve)) (sqMessages q) ChunkTargetBytes)) (\<lambda>groups.
    sbind (write_groups ve groups h no_save {}) (\<lambda>(h, r, owed).
    sbind (save_head ve from (applyHeadUpdates ve q h)) (\<lambda>_.
      sret (r\<lparr>svID := sID h, svVersion := sVersion h\<rparr>, owed))))))"

definition SaveSession :: "'n venv \<Rightarrow> save_request \<Rightarrow> ('n vault, save_result) run" where
  "SaveSession ve q = pbind (prun (save_locally ve q)) (\<lambda>(r, owed).
     if sqDurable q \<and> owed \<noteq> {}
     then pbind (Vault_Flush ve) (\<lambda>f.
       prun (sret (r\<lparr>svFlushed := f, svOnNetwork := (settle owed f = {})\<rparr>)))
     else prun (sret (r\<lparr>svOnNetwork := (owed = {})\<rparr>)))"

section \<open>Forgetting\<close>

definition forget_chunk :: "'n venv \<Rightarrow> recid \<Rightarrow> ('n vault, unit) step" where
  "forget_chunk ve i = sbind (smod (ForgetLocally i)) (\<lambda>_ s.
     case on_catalog ve (\<lambda>io. Manifest_Remove (vnCatalog ve) io (vnNow ve) i) s of
       (Inl e, s') \<Rightarrow> (if errors_Is e ErrManifestNotFound then Inr () else Inl e, s')
     | r \<Rightarrow> r)"

definition ForgetSession :: "'n venv \<Rightarrow> recid \<Rightarrow> ('n vault, unit) step" where
  "ForgetSession ve i = sbind (Vault_Session ve i) (\<lambda>h.
     sbind (smap_list (\<lambda>c. forget_chunk ve (crID c)) (sChunks h)) (\<lambda>_.
     sbind (case lnParentSession (sLineage h) of None \<Rightarrow> sret () | Some p \<Rightarrow> disownChild ve p i) (\<lambda>_.
     sbind (forget_ranking i) (\<lambda>_.
     sbind (on_vectors ve (\<lambda>io. Store_Remove (vnVectorSealer ve) io [i])) (\<lambda>_.
     smod (Vault_ForgetSessionHead i))))))"

section \<open>What saving keeps\<close>

text \<open>A transcript as this device can read it back.\<close>

definition held_chunk :: "'n venv \<Rightarrow> bodies \<Rightarrow> recid \<Rightarrow> message list option" where
  "held_chunk ve t i = (case GetRecord t i of Inl e \<Rightarrow> None | Inr (k, body) \<Rightarrow>
     if k \<noteq> KindChunk then None else (case vnUnmarshalChunk ve body of Inl e \<Rightarrow> None | Inr c \<Rightarrow> Some (chMessages c)))"

fun held_transcript :: "'n venv \<Rightarrow> bodies \<Rightarrow> chunk_ref list \<Rightarrow> message list option" where
  "held_transcript ve t [] = Some []"
| "held_transcript ve t (r # rs) = (case (held_chunk ve t (crID r), held_transcript ve t rs) of
     (Some ms, Some ms') \<Rightarrow> Some (ms @ ms') | _ \<Rightarrow> None)"

definition stored_head :: "'n venv \<Rightarrow> heads \<Rightarrow> recid \<Rightarrow> session_head option" where
  "stored_head ve t i = (case GetSessionHead t i of Inl e \<Rightarrow> None | Inr b \<Rightarrow>
     (case vnUnmarshalSession ve b of Inl e \<Rightarrow> None | Inr h \<Rightarrow> Some h))"

lemma held_transcript_append:
  "held_transcript ve t (rs @ rs') = (case (held_transcript ve t rs, held_transcript ve t rs') of
     (Some ms, Some ms') \<Rightarrow> Some (ms @ ms') | _ \<Rightarrow> None)"
  by (induction rs) (auto split: option.splits)

lemma held_transcript_cong:
  "(\<And>r. r \<in> set rs \<Longrightarrow> held_chunk ve t' (crID r) = held_chunk ve t (crID r)) \<Longrightarrow> held_transcript ve t' rs = held_transcript ve t rs"
  by (induction rs) auto

lemma held_transcript_chunks:
  "held_transcript ve t rs = Some ms \<Longrightarrow> r \<in> set rs \<Longrightarrow> held_chunk ve t (crID r) \<noteq> None"
  by (induction rs arbitrary: ms) (auto split: option.splits)

lemma held_chunk_new:
  assumes "row_of t i = None" and "vnUnmarshalChunk ve body = Inr c"
  shows "held_chunk ve (PutBody now i KindChunk body t) i = Some (chMessages c)"
proof -
  have "GetRecord t i = Inl (GoErr [ErrLocalNotFound] ''body'')" using assms(1) by (simp add: GetRecord_def)
  from GetRecord_PutBody(1) [OF this] assms(2) show ?thesis by (simp add: held_chunk_def)
qed

lemma held_chunk_other: "j \<noteq> i \<Longrightarrow> held_chunk ve (PutBody now i k b t) j = held_chunk ve t j"
  by (simp add: held_chunk_def GetRecord_PutBody)

lemma held_transcript_fresh:
  assumes "row_of t i = None" and "held_transcript ve t rs = Some ms"
  shows "held_transcript ve (PutBody now i k b t) rs = Some ms"
proof -
  have "crID r \<noteq> i" if "r \<in> set rs" for r
    using held_transcript_chunks [OF assms(2) that] assms(1) by (auto simp: held_chunk_def GetRecord_def)
  then show ?thesis using assms(2) by (subst held_transcript_cong [where t = t]) (auto simp: held_chunk_other)
qed

text \<open>What a chunk that was written left behind.\<close>

lemma writeChunk_Inr:
  assumes "writeChunk ve h ms s = (Inr w, t)"
  obtains b body k where "vnRand ve (vaDrawn s) 16 = Inr b" "vnMarshalChunk ve (new_chunk (ID_of_bytes b) h ms) = Inr body"
    "wcRef w = written_ref (new_chunk (ID_of_bytes b) h ms) body k" "wcCID w = CID_String k"
    "vaBodies t = PutBody (vnNow ve) (ID_of_bytes b) KindChunk body (vaBodies s)" "vaHeads t = vaHeads s"
    "vaDrawn t = vaDrawn s + 2"
proof -
  obtain b body k framed s3 flushed where
    A: "vnRand ve (vaDrawn s) 16 = Inr b" "vnMarshalChunk ve (new_chunk (ID_of_bytes b) h ms) = Inr body"
    "seal_body ve (ID_of_bytes b) KindChunk body (s\<lparr>vaDrawn := vaDrawn s + 1\<rparr>) = (Inr (k, framed), s3)"
    "queue_blob ve (ID_of_bytes b) KindChunk k framed (s3\<lparr>vaBodies := PutBody (vnNow ve) (ID_of_bytes b) KindChunk body (vaBodies s3)\<rparr>)
       = (Inr flushed, t)"
    "w = \<lparr>wcRef = written_ref (new_chunk (ID_of_bytes b) h ms) body k, wcCID = CID_String k, wcFlushed = flushed\<rparr>"
    using assms
    by (auto simp: writeChunk_def NewID_def draw_def sbind_Inr_iff slift_def sret_def put_body_def smod_def split: sum.splits prod.splits)
  have s3: "s3 = s\<lparr>vaDrawn := vaDrawn s + 2\<rparr>"
    using A(3) by (auto simp: seal_body_def draw_def sbind_Inr_iff slift_def sret_def)
  have "on_device t = on_device (s3\<lparr>vaBodies := PutBody (vnNow ve) (ID_of_bytes b) KindChunk body (vaBodies s3)\<rparr>)"
    by (rule keeps_step [OF keeps_on_device [OF keeps_queue_blob] A(4)])
  with that [OF A(1,2)] A(5) s3 show thesis by (simp add: on_device_def)
qed

text \<open>
  The codecs read back what they wrote; the ids drawn on the way name nothing yet, and no two are the same.

  The laws of the codecs are about the values that have an exact written form.  \<open>record/time.go\<close> writes a time
  in whole milliseconds and \<open>encoding/json\<close> replaces what is not valid UTF-8, so a time of the model stands for one of
  whole milliseconds and a text for a valid one; a finer time or another text comes back changed, and what
  rests on these laws does not speak of it.
\<close>

definition chunk_codec :: "'n venv \<Rightarrow> message list \<Rightarrow> bool" where
  "chunk_codec ve ms \<longleftrightarrow> (\<forall>c b. set (chMessages c) \<subseteq> set ms \<longrightarrow> vnMarshalChunk ve c = Inr b \<longrightarrow> vnUnmarshalChunk ve b = Inr c)"

definition session_codec :: "'n venv \<Rightarrow> bool" where
  "session_codec ve \<longleftrightarrow> (\<forall>h b. vnMarshalSession ve h = Inr b \<longrightarrow> vnUnmarshalSession ve b = Inr h)"

definition drawn_id :: "'n venv \<Rightarrow> nat \<Rightarrow> recid option" where
  "drawn_id ve n = (case vnRand ve n 16 of Inl e \<Rightarrow> None | Inr b \<Rightarrow> Some (ID_of_bytes b))"

definition fresh_ids :: "'n venv \<Rightarrow> 'n vault \<Rightarrow> nat \<Rightarrow> bool" where
  "fresh_ids ve s n \<longleftrightarrow> (\<forall>m i. vaDrawn s \<le> m \<longrightarrow> m < n \<longrightarrow> drawn_id ve m = Some i \<longrightarrow>
     row_of (vaBodies s) i = None \<and> (\<forall>m'. m < m' \<longrightarrow> m' < n \<longrightarrow> drawn_id ve m' \<noteq> Some i))"

lemma fresh_idsD:
  assumes "fresh_ids ve s n" and "vaDrawn s \<le> m" and "m < n" and "drawn_id ve m = Some i"
  shows "row_of (vaBodies s) i = None" "m < m' \<Longrightarrow> m' < n \<Longrightarrow> drawn_id ve m' \<noteq> Some i"
  using assms unfolding fresh_ids_def by blast+

lemmas fresh_ids_now = fresh_idsD(1) [OF _ order_refl]

lemma fresh_ids_later:
  assumes "fresh_ids ve s n" and "vaDrawn s < vaDrawn t"
    and "vaBodies t = vaBodies s \<or> (\<exists>i k b. drawn_id ve (vaDrawn s) = Some i \<and> vaBodies t = PutBody (vnNow ve) i k b (vaBodies s))"
  shows "fresh_ids ve t n"
  unfolding fresh_ids_def
proof (intro allI impI conjI)
  fix m j assume m: "vaDrawn t \<le> m" "m < n" "drawn_id ve m = Some j"
  have lt: "vaDrawn s \<le> m" "vaDrawn s < m" using m(1) assms(2) by simp_all
  show "drawn_id ve m' \<noteq> Some j" if "m < m'" "m' < n" for m'
    by (rule fresh_idsD(2) [OF assms(1) lt(1) m(2,3) that])
  have old: "row_of (vaBodies s) j = None" by (rule fresh_idsD(1) [OF assms(1) lt(1) m(2,3)])
  from assms(3) show "row_of (vaBodies t) j = None"
  proof (elim disjE exE conjE)
    fix i k b assume i: "drawn_id ve (vaDrawn s) = Some i" "vaBodies t = PutBody (vnNow ve) i k b (vaBodies s)"
    have "vaDrawn s < n" using lt(2) m(2) by simp
    from fresh_idsD(2) [OF assms(1) order_refl this i(1) lt(2) m(2)] have "drawn_id ve m \<noteq> Some i" .
    then show ?thesis using old i(2) m(3) by (auto simp: PutBody_def)
  qed (use old in simp)
qed

lemma fresh_ids_mono:
  assumes "fresh_ids ve s n" and "vaDrawn s \<le> vaDrawn t" and "vaBodies t = vaBodies s"
  shows "fresh_ids ve t n"
  unfolding fresh_ids_def assms(3)
proof (intro allI impI)
  fix m i assume m: "vaDrawn t \<le> m" "m < n" "drawn_id ve m = Some i"
  have "vaDrawn s \<le> m" using assms(2) m(1) by simp
  then show "row_of (vaBodies s) i = None \<and> (\<forall>m'>m. m' < n \<longrightarrow> drawn_id ve m' \<noteq> Some i)"
    using fresh_idsD [OF assms(1) _ m(2,3)] by simp
qed

lemma write_groups_drawn:
  "write_groups ve gs h r owed s = (Inr x, t) \<Longrightarrow> vaDrawn t = vaDrawn s + 2 * length gs \<and> vaHeads t = vaHeads s"
proof (induction gs arbitrary: h r owed s)
  case (Cons ms gs)
  then obtain w s1 where w: "writeChunk ve h ms s = (Inr w, s1)"
    and t: "vaDrawn t = vaDrawn s1 + 2 * length gs \<and> vaHeads t = vaHeads s1"
    by (auto simp: sbind_Inr_iff)
  from w show ?case by (rule writeChunk_Inr) (simp add: t)
qed (simp add: sret_def)

text \<open>Each group is a chunk at the end of the transcript, and nothing held is touched.\<close>

lemma write_groups_Inr:
  assumes "write_groups ve gs h r owed s = (Inr (h', r', owed'), t)"
    and "chunk_codec ve (concat gs)" and "fresh_ids ve s (vaDrawn t)"
    and "held_transcript ve (vaBodies s) (sChunks h) = Some old"
  shows "held_transcript ve (vaBodies t) (sChunks h') = Some (old @ concat gs)"
    and "vaHeads t = vaHeads s" and "h' = h\<lparr>sChunks := sChunks h', sCounts := sCounts h'\<rparr>"
    and "svMessages r' = svMessages r + int (length (concat gs))"
    and "held_transcript ve (vaBodies s) rs = Some ms \<Longrightarrow> held_transcript ve (vaBodies t) rs = Some ms"
proof -
  have "held_transcript ve (vaBodies t) (sChunks h') = Some (old @ concat gs) \<and> vaHeads t = vaHeads s
    \<and> h' = h\<lparr>sChunks := sChunks h', sCounts := sCounts h'\<rparr> \<and> svMessages r' = svMessages r + int (length (concat gs))
    \<and> (\<forall>rs ms. held_transcript ve (vaBodies s) rs = Some ms \<longrightarrow> held_transcript ve (vaBodies t) rs = Some ms)"
    using assms
  proof (induction gs arbitrary: h r owed s old)
    case Nil
    then show ?case by (simp add: sret_def)
  next
    case (Cons ms gs)
    then obtain w s1 where w: "writeChunk ve h ms s = (Inr w, s1)"
      and rest: "write_groups ve gs (add_chunk (wcRef w) h) (tally (wcRef w) r)
        (settle (insert (wcCID w) owed) (Some (prFlush (wcFlushed w)))) s1 = (Inr (h', r', owed'), t)"
      by (auto simp: sbind_Inr_iff)
    obtain b body k where b: "vnRand ve (vaDrawn s) 16 = Inr b" "vnMarshalChunk ve (new_chunk (ID_of_bytes b) h ms) = Inr body"
      "wcRef w = written_ref (new_chunk (ID_of_bytes b) h ms) body k"
      "vaBodies s1 = PutBody (vnNow ve) (ID_of_bytes b) KindChunk body (vaBodies s)" "vaHeads s1 = vaHeads s"
      "vaDrawn s1 = vaDrawn s + 2" using w by (rule writeChunk_Inr)
    let ?i = "ID_of_bytes b"
    have d: "drawn_id ve (vaDrawn s) = Some ?i" using b(1) by (simp add: drawn_id_def)
    have lt: "vaDrawn s < vaDrawn t" using write_groups_drawn [OF rest] b(6) by simp
    have free: "row_of (vaBodies s) ?i = None" by (rule fresh_ids_now [OF Cons.prems(3) lt d])
    have "vnUnmarshalChunk ve body = Inr (new_chunk ?i h ms)"
      using Cons.prems(2) b(2) by (simp add: chunk_codec_def)
    from held_chunk_new [OF free this] have "held_chunk ve (vaBodies s1) ?i = Some ms"
      using b(4) by simp
    moreover have old: "held_transcript ve (vaBodies s1) rs = Some xs" if "held_transcript ve (vaBodies s) rs = Some xs" for rs xs
      using held_transcript_fresh [OF free that] b(4) by simp
    ultimately have now: "held_transcript ve (vaBodies s1) (sChunks (add_chunk (wcRef w) h)) = Some (old @ ms)"
      using old [OF Cons.prems(4)] b(3) by (simp add: add_chunk_def held_transcript_append written_ref_def)
    have fresh: "fresh_ids ve s1 (vaDrawn t)"
      by (rule fresh_ids_later [OF Cons.prems(3)]) (use b(4,6) d in auto)
    have codec: "chunk_codec ve (concat gs)" using Cons.prems(2) by (auto simp: chunk_codec_def)
    note IH = Cons.IH [OF rest codec fresh now]
    have "h' = h\<lparr>sChunks := sChunks h', sCounts := sCounts h'\<rparr>"
      using conjunct1 [OF conjunct2 [OF conjunct2 [OF IH]]] by (simp add: add_chunk_def)
    moreover have "svMessages (tally (wcRef w) r) = svMessages r + int (length ms)"
      using b(3) by (simp add: tally_def written_ref_def)
    ultimately show ?case using IH b(5) old by simp
  qed
  then show "held_transcript ve (vaBodies t) (sChunks h') = Some (old @ concat gs)" "vaHeads t = vaHeads s"
    "h' = h\<lparr>sChunks := sChunks h', sCounts := sCounts h'\<rparr>" "svMessages r' = svMessages r + int (length (concat gs))"
    "held_transcript ve (vaBodies s) rs = Some ms \<Longrightarrow> held_transcript ve (vaBodies t) rs = Some ms" by blast+
qed

text \<open>Each head is stored under its own id, and a revision replaces one head.\<close>

definition heads_keyed :: "'n venv \<Rightarrow> heads \<Rightarrow> bool" where
  "heads_keyed ve t \<longleftrightarrow> (\<forall>i h. stored_head ve t i = Some h \<longrightarrow> sID h = i)"

lemma PutSessionHead_Inr:
  assumes "PutSessionHead h b from t = (Inr u, t')"
  shows "GetSessionHead t' (sID h) = Inr b" "j \<noteq> sID h \<Longrightarrow> GetSessionHead t' j = GetSessionHead t j"
  using assms by (auto simp: PutSessionHead_def GetSessionHead_def head_row_of_def Let_def split: option.splits if_splits)

lemma put_head_Inr:
  assumes "put_head ve h from s = (Inr u, t)" and "session_codec ve"
  shows "stored_head ve (vaHeads t) = (stored_head ve (vaHeads s))(sID h \<mapsto> h)" "vaBodies t = vaBodies s"
    "vaDrawn t = vaDrawn s"
proof -
  obtain b where b: "vnMarshalSession ve h = Inr b" "on_heads (PutSessionHead h b from) s = (Inr u, t)"
    using assms(1) by (auto simp: put_head_def sbind_Inr_iff slift_def)
  obtain hs where hs: "PutSessionHead h b from (vaHeads s) = (Inr u, hs)" "t = s\<lparr>vaHeads := hs\<rparr>"
    using b(2) by (auto simp: on_heads_def split: prod.splits)
  show "vaBodies t = vaBodies s" "vaDrawn t = vaDrawn s" using hs(2) by simp_all
  have "vnUnmarshalSession ve b = Inr h" using assms(2) b(1) by (simp add: session_codec_def)
  then show "stored_head ve (vaHeads t) = (stored_head ve (vaHeads s))(sID h \<mapsto> h)"
    using PutSessionHead_Inr [OF hs(1)] hs(2) by (auto simp: stored_head_def)
qed

lemma vault_session_Inr:
  assumes "vault_session ve i s = (Inr h, t)"
  shows "stored_head ve (vaHeads s) i = Some h" "vaHeads t = vaHeads s" "vaBodies t = vaBodies s" "vaDrawn t = vaDrawn s"
  using assms by (auto simp: vault_session_def stored_head_def split: sum.splits)

lemma Vault_Session_Inr: "Vault_Session ve i s = (Inr h, t) \<Longrightarrow> vault_session ve i s = (Inr h, t)"
  by (auto simp: Vault_Session_def split: prod.splits sum.splits if_splits)

lemma adoptChild_Inr:
  assumes "adoptChild ve p i s = (Inr u, t)" and "session_codec ve" and "heads_keyed ve (vaHeads s)"
  shows "vaBodies t = vaBodies s" "vaDrawn t = vaDrawn s" "heads_keyed ve (vaHeads t)"
    "stored_head ve (vaHeads s) j = Some h \<Longrightarrow> \<exists>h'. stored_head ve (vaHeads t) j = Some h' \<and> sChunks h' = sChunks h"
proof -
  obtain h0 s1 where h0: "vault_session ve p s = (Inr h0, s1)"
    and t: "t = s1 \<or> (\<exists>h1 from. put_head ve h1 from s1 = (Inr u, t) \<and> sID h1 = sID h0 \<and> sChunks h1 = sChunks h0)"
  proof (cases "vault_session ve p s")
    case (Pair r s1)
    then show thesis
      using assms(1) that by (auto simp: adoptChild_def reviseHead_def split: sum.splits if_splits) fastforce
  qed
  note V = vault_session_Inr [OF h0]
  have p: "sID h0 = p" using assms(3) V(1) by (simp add: heads_keyed_def)
  from t have "vaBodies t = vaBodies s \<and> vaDrawn t = vaDrawn s \<and> heads_keyed ve (vaHeads t)
    \<and> (stored_head ve (vaHeads s) j = Some h \<longrightarrow> (\<exists>h'. stored_head ve (vaHeads t) j = Some h' \<and> sChunks h' = sChunks h))"
  proof (elim disjE exE conjE)
    assume "t = s1" then show ?thesis using V assms(3) by simp
  next
    fix h1 "from" assume h1: "put_head ve h1 from s1 = (Inr u, t)" "sID h1 = sID h0" "sChunks h1 = sChunks h0"
    note P = put_head_Inr [OF h1(1) assms(2)]
    show ?thesis using P V h1(2,3) p assms(3) by (auto simp: heads_keyed_def)
  qed
  then show "vaBodies t = vaBodies s" "vaDrawn t = vaDrawn s" "heads_keyed ve (vaHeads t)"
    "stored_head ve (vaHeads s) j = Some h \<Longrightarrow> \<exists>h'. stored_head ve (vaHeads t) j = Some h' \<and> sChunks h' = sChunks h" by blast+
qed

lemma keeps_device_putVector [simp]: "keeps on_device (putVector ve i v)"
proof -
  have "keeps on_device (smod (\<lambda>s. s\<lparr>vaHealth := f s\<rparr>))" for f :: "'a vault \<Rightarrow> index_health"
    by (rule keepsI) (simp add: smod_def on_device_def)
  moreover have "keeps on_device (compactVectorsIfDue ve)"
    by (rule keepsI) (simp add: compactVectorsIfDue_def read_and_compact_def keeps_at)
  ultimately show ?thesis unfolding putVector_def by (intro keeps_sbind keeps_device_parts keeps_pure)
qed

lemma storeHead_Inr:
  assumes "storeHead ve h vector from s = (Inr u, t)" and "session_codec ve"
  shows "stored_head ve (vaHeads t) = (stored_head ve (vaHeads s))(sID h \<mapsto> h)" "vaBodies t = vaBodies s"
    "vaDrawn t = vaDrawn s"
proof -
  obtain v s1 where s1: "put_head ve h from s = (Inr v, s1)"
    "sbind (putVector ve (sID h) vector) (\<lambda>_. put_meta ve (sessionRankingMeta h)) s1 = (Inr u, t)"
    using assms(1) by (auto simp: storeHead_def sbind_Inr_iff)
  have "keeps on_device (sbind (putVector ve (sID h) vector) (\<lambda>_. put_meta ve (sessionRankingMeta h)))"
    by (intro keeps_sbind keeps_device_putVector keeps_device_parts keeps_pure)
  from keeps_step [OF this s1(2)] have "on_device t = on_device s1" .
  with put_head_Inr [OF s1(1) assms(2)]
  show "stored_head ve (vaHeads t) = (stored_head ve (vaHeads s))(sID h \<mapsto> h)" "vaBodies t = vaBodies s"
    "vaDrawn t = vaDrawn s" by (simp_all add: on_device_def)
qed

text \<open>The transcript a save starts from: what the session it names holds, or nothing.\<close>

definition transcript_before :: "'n venv \<Rightarrow> 'n vault \<Rightarrow> recid \<Rightarrow> message list \<Rightarrow> bool" where
  "transcript_before ve s i old \<longleftrightarrow> (if ID_IsZero i then old = []
     else \<exists>h. stored_head ve (vaHeads s) i = Some h \<and> held_transcript ve (vaBodies s) (sChunks h) = Some old)"

lemma openSession_Inr:
  assumes "openSession ve q s = (Inr (h, from), t)" and "heads_keyed ve (vaHeads s)" and "transcript_before ve s (sqID q) old"
  shows "held_transcript ve (vaBodies t) (sChunks h) = Some old" "vaBodies t = vaBodies s" "vaHeads t = vaHeads s"
    "sVersion h = from + 1" "\<not> ID_IsZero (sqID q) \<Longrightarrow> sID h = sqID q" "vaDrawn s \<le> vaDrawn t"
proof -
  have "held_transcript ve (vaBodies t) (sChunks h) = Some old \<and> vaBodies t = vaBodies s \<and> vaHeads t = vaHeads s
    \<and> sVersion h = from + 1 \<and> (\<not> ID_IsZero (sqID q) \<longrightarrow> sID h = sqID q) \<and> vaDrawn s \<le> vaDrawn t"
  proof (cases "ID_IsZero (sqID q)")
    case True
    then show ?thesis using assms(1,3)
      by (auto simp: openSession_def sbind_Inr_iff NewID_def draw_def slift_def sret_def new_session_def transcript_before_def
          split: sum.splits)
  next
    case False
    then obtain h0 where h0: "Vault_Session ve (sqID q) s = (Inr h0, t)" "h = h0\<lparr>sVersion := sVersion h0 + 1,
        sEmbedding := vault_embedding ve\<rparr>" "from = sVersion h0"
      using assms(1) by (auto simp: openSession_def sbind_Inr_iff sret_def)
    note V = vault_session_Inr [OF Vault_Session_Inr [OF h0(1)]]
    show ?thesis using False V h0(2,3) assms(2,3) by (auto simp: heads_keyed_def transcript_before_def)
  qed
  then show "held_transcript ve (vaBodies t) (sChunks h) = Some old" "vaBodies t = vaBodies s" "vaHeads t = vaHeads s"
    "sVersion h = from + 1" "\<not> ID_IsZero (sqID q) \<Longrightarrow> sID h = sqID q" "vaDrawn s \<le> vaDrawn t" by blast+
qed

lemma applyHeadUpdates_sel [simp]:
  "sID (applyHeadUpdates ve q h) = sID h" "sChunks (applyHeadUpdates ve q h) = sChunks h"
  "sVersion (applyHeadUpdates ve q h) = sVersion h" "sLineage (applyHeadUpdates ve q h) = sLineage h"
  by (simp_all add: applyHeadUpdates_def)

lemma save_head_Inr:
  assumes "save_head ve from h s = (Inr u, t)" and "session_codec ve" and keyed: "heads_keyed ve (vaHeads s)"
  shows "vaBodies t = vaBodies s" "vaDrawn t = vaDrawn s" "heads_keyed ve (vaHeads t)"
    "\<exists>h'. stored_head ve (vaHeads t) (sID h) = Some h' \<and> sChunks h' = sChunks h"
    "j \<noteq> sID h \<Longrightarrow> stored_head ve (vaHeads s) j = Some g \<Longrightarrow> \<exists>g'. stored_head ve (vaHeads t) j = Some g' \<and> sChunks g' = sChunks g"
proof -
  obtain vector v s1 where s1: "storeHead ve h vector from s = (Inr v, s1)"
    and ad: "t = s1 \<or> (\<exists>p. adoptChild ve p (sID h) s1 = (Inr u, t))"
    using assms(1) by (auto simp: save_head_def sbind_Inr_iff slift_def sret_def split: if_splits option.splits)
  note S = storeHead_Inr [OF s1 assms(2)]
  have k: "heads_keyed ve (vaHeads s1)" using keyed S(1) by (simp add: heads_keyed_def)
  have "vaBodies t = vaBodies s1 \<and> vaDrawn t = vaDrawn s1 \<and> heads_keyed ve (vaHeads t)
    \<and> (\<forall>j g. stored_head ve (vaHeads s1) j = Some g \<longrightarrow> (\<exists>g'. stored_head ve (vaHeads t) j = Some g' \<and> sChunks g' = sChunks g))"
    using ad k adoptChild_Inr [OF _ assms(2) k] by blast
  then show "vaBodies t = vaBodies s" "vaDrawn t = vaDrawn s" "heads_keyed ve (vaHeads t)"
    "\<exists>h'. stored_head ve (vaHeads t) (sID h) = Some h' \<and> sChunks h' = sChunks h"
    "j \<noteq> sID h \<Longrightarrow> stored_head ve (vaHeads s) j = Some g \<Longrightarrow> \<exists>g'. stored_head ve (vaHeads t) j = Some g' \<and> sChunks g' = sChunks g"
    using S by auto
qed

lemma SplitMessages_concat: "SplitMessages f ms target = Inr gs \<Longrightarrow> concat gs = ms"
  using split_loop_groups [of f "if target \<le> 0 then ChunkTargetBytes else target" "[]" "[]" 0 ms gs]
  by (simp add: SplitMessages_def groups_ok_def)

lemma save_locally_Inr:
  assumes "save_locally ve q s = (Inr (r, owed), t)"
    and codec: "chunk_codec ve (sqMessages q)" "session_codec ve" and fresh: "fresh_ids ve s (vaDrawn t)"
    and keyed: "heads_keyed ve (vaHeads s)" and before: "transcript_before ve s (sqID q) old"
  shows "\<exists>h. stored_head ve (vaHeads t) (svID r) = Some h \<and> held_transcript ve (vaBodies t) (sChunks h) = Some (old @ sqMessages q)"
    and "\<not> ID_IsZero (sqID q) \<Longrightarrow> svID r = sqID q" and "svMessages r = int (length (sqMessages q))" and "heads_keyed ve (vaHeads t)"
    and "j \<noteq> svID r \<Longrightarrow> stored_head ve (vaHeads s) j = Some g \<Longrightarrow> held_transcript ve (vaBodies s) (sChunks g) = Some ms \<Longrightarrow>
      \<exists>g'. stored_head ve (vaHeads t) j = Some g' \<and> held_transcript ve (vaBodies t) (sChunks g') = Some ms"
proof -
  obtain h0 "from" s1 groups h1 r1 s2 u where o: "openSession ve q s = (Inr (h0, from), s1)"
    and gs: "SplitMessages (messageBytes (vnMarshalMessage ve)) (sqMessages q) ChunkTargetBytes = Inr groups"
    and w: "write_groups ve groups h0 no_save {} s1 = (Inr (h1, r1, owed), s2)"
    and hd: "save_head ve from (applyHeadUpdates ve q h1) s2 = (Inr u, t)" and r: "r = r1\<lparr>svID := sID h1, svVersion := sVersion h1\<rparr>"
    using assms(1) by (fastforce simp: save_locally_def sbind_Inr_iff slift_def sret_def)
  note O = openSession_Inr [OF o keyed before]
  have k2: "heads_keyed ve (vaHeads s1)" using O(3) keyed by simp
  have c: "chunk_codec ve (concat groups)" using codec(1) SplitMessages_concat [OF gs] by simp
  have k3: "heads_keyed ve (vaHeads s2)" using write_groups_drawn [OF w] k2 by simp
  note H = save_head_Inr [OF hd codec(2) k3]
  have f: "fresh_ids ve s1 (vaDrawn s2)"
    using fresh_ids_mono [OF fresh O(6,2)] H(2) by simp
  note W = write_groups_Inr [OF w c f O(1)]
  have id1: "sID h1 = sID h0" by (subst W(3)) simp
  show "\<exists>h. stored_head ve (vaHeads t) (svID r) = Some h \<and> held_transcript ve (vaBodies t) (sChunks h) = Some (old @ sqMessages q)"
    using H(1,4) W(1) SplitMessages_concat [OF gs] r by auto
  show "\<not> ID_IsZero (sqID q) \<Longrightarrow> svID r = sqID q" using O(5) id1 r by simp
  show "svMessages r = int (length (sqMessages q))" using W(4) SplitMessages_concat [OF gs] r by (simp add: no_save_def)
  show "heads_keyed ve (vaHeads t)" by (rule H(3))
  show "\<exists>g'. stored_head ve (vaHeads t) j = Some g' \<and> held_transcript ve (vaBodies t) (sChunks g') = Some ms"
    if "j \<noteq> svID r" "stored_head ve (vaHeads s) j = Some g" "held_transcript ve (vaBodies s) (sChunks g) = Some ms"
    using H(5) [of j g] H(1) W(2) W(5) [of "sChunks g" ms] O(2,3) that r by auto
qed

lemma SaveSession_Inr:
  assumes "SaveSession ve q s = Some (Inr r, t)"
    and "chunk_codec ve (sqMessages q)" and "session_codec ve" and "fresh_ids ve s (vaDrawn t)"
    and "heads_keyed ve (vaHeads s)" and "transcript_before ve s (sqID q) old"
  shows "(\<exists>h. stored_head ve (vaHeads t) (svID r) = Some h \<and> held_transcript ve (vaBodies t) (sChunks h) = Some (old @ sqMessages q))
    \<and> (\<not> ID_IsZero (sqID q) \<longrightarrow> svID r = sqID q) \<and> svMessages r = int (length (sqMessages q)) \<and> heads_keyed ve (vaHeads t)
    \<and> (\<forall>j g ms. j \<noteq> svID r \<longrightarrow> stored_head ve (vaHeads s) j = Some g \<longrightarrow> held_transcript ve (vaBodies s) (sChunks g) = Some ms \<longrightarrow>
        (\<exists>g'. stored_head ve (vaHeads t) j = Some g' \<and> held_transcript ve (vaBodies t) (sChunks g') = Some ms))"
proof -
  obtain r1 owed s1 where s1: "save_locally ve q s = (Inr (r1, owed), s1)" "svID r = svID r1" "svMessages r = svMessages r1"
    and d: "on_device t = on_device s1"
    using assms(1) by (auto simp: SaveSession_def pbind_Inr_iff prun_def sret_def split: if_splits dest: Vault_Flush_device)
  have "fresh_ids ve s (vaDrawn s1)" using assms(4) d by (simp add: on_device_def)
  from save_locally_Inr [OF s1(1) assms(2,3) this assms(5,6)] show ?thesis using s1(2,3) d
    by (auto simp: on_device_def)
qed

text \<open>C27. Saving a conversation, or the next part of one, appends: afterwards the session's head names a
  transcript that is what it named before followed by the messages of the request, in order, whole, and
  readable on this device; the count reported is theirs.  An append answers under the id it was given.
  Every other session keeps its transcript.  The ids drawn must be new and the JSON codec must read back
  what it wrote.
\<close>

theorem SaveSession_appends:
  assumes "SaveSession ve q s = Some (Inr r, t)"
    and "chunk_codec ve (sqMessages q)" and "session_codec ve" and "fresh_ids ve s (vaDrawn t)"
    and "heads_keyed ve (vaHeads s)" and "transcript_before ve s (sqID q) old"
  shows "(\<exists>h. stored_head ve (vaHeads t) (svID r) = Some h \<and> held_transcript ve (vaBodies t) (sChunks h) = Some (old @ sqMessages q))
    \<and> (\<not> ID_IsZero (sqID q) \<longrightarrow> svID r = sqID q) \<and> svMessages r = int (length (sqMessages q)) \<and> heads_keyed ve (vaHeads t)
    \<and> (\<forall>j g ms. j \<noteq> svID r \<longrightarrow> stored_head ve (vaHeads s) j = Some g \<longrightarrow> held_transcript ve (vaBodies s) (sChunks g) = Some ms \<longrightarrow>
        (\<exists>g'. stored_head ve (vaHeads t) j = Some g' \<and> held_transcript ve (vaBodies t) (sChunks g') = Some ms))"
  by (rule SaveSession_Inr [OF assms])

section \<open>What is said to be on the network\<close>

lemma writeChunk_tracks:
  assumes "writeChunk ve h ms s = (Inr w, t)" and ok: "queue_ok (pkQueue (vaPacker s))"
    and new: "\<forall>i. drawn_id ve (vaDrawn s) = Some i \<longrightarrow> queued (pkQueue (vaPacker s)) i = None"
  shows "drawn_id ve (vaDrawn s) = Some (crID (wcRef w))" and "queue_ok (pkQueue (vaPacker t))"
    and "owed_or_stored s j \<or> j = crID (wcRef w) \<Longrightarrow> owed_or_stored t j"
    and "wcCID w \<in> set (map wrCID (fWritten (prFlush (wcFlushed w)))) \<Longrightarrow> owed_or_stored s j \<or> j = crID (wcRef w) \<Longrightarrow>
      in_catalog (vaManifest t) j"
    and "j \<noteq> crID (wcRef w) \<Longrightarrow> queued (pkQueue (vaPacker s)) j = None \<Longrightarrow> queued (pkQueue (vaPacker t)) j = None"
proof -
  obtain b body k framed s2 flushed where A: "vnRand ve (vaDrawn s) 16 = Inr b"
    "seal_body ve (ID_of_bytes b) KindChunk body (s\<lparr>vaDrawn := vaDrawn s + 1\<rparr>) = (Inr (k, framed), s2)"
    "queue_blob ve (ID_of_bytes b) KindChunk k framed (s2\<lparr>vaBodies := PutBody (vnNow ve) (ID_of_bytes b) KindChunk body (vaBodies s2)\<rparr>)
       = (Inr flushed, t)"
    "w = \<lparr>wcRef = written_ref (new_chunk (ID_of_bytes b) h ms) body k, wcCID = CID_String k, wcFlushed = flushed\<rparr>"
    using assms(1)
    by (auto simp: writeChunk_def NewID_def draw_def sbind_Inr_iff slift_def sret_def put_body_def smod_def split: sum.splits prod.splits)
  let ?i = "ID_of_bytes b" and ?s3 = "s2\<lparr>vaBodies := PutBody (vnNow ve) (ID_of_bytes b) KindChunk body (vaBodies s2)\<rparr>"
  have s3: "owing ?s3 = owing s" using keeps_step [OF keeps_owing_seal A(2)] by (simp add: owing_def)
  then have pk: "vaPacker ?s3 = vaPacker s" by (simp add: owing_def)
  have i: "crID (wcRef w) = ?i" using A(4) by (simp add: written_ref_def)
  have d: "drawn_id ve (vaDrawn s) = Some ?i" using A(1) by (simp add: drawn_id_def)
  show "drawn_id ve (vaDrawn s) = Some (crID (wcRef w))" using d i by simp
  have ok3: "queue_ok (pkQueue (vaPacker ?s3))" and new3: "queued (pkQueue (vaPacker ?s3)) ?i = None" using ok new d pk by simp_all
  note Q = queue_blob_tracks [OF A(3) ok3 new3]
  show "queue_ok (pkQueue (vaPacker t))" by (rule queue_ok_queue_blob [OF A(3) ok3])
  show "owed_or_stored s j \<or> j = crID (wcRef w) \<Longrightarrow> owed_or_stored t j"
    using Q(1) owed_or_stored_owing [OF s3] i by simp
  show "wcCID w \<in> set (map wrCID (fWritten (prFlush (wcFlushed w)))) \<Longrightarrow> owed_or_stored s j \<or> j = crID (wcRef w) \<Longrightarrow>
      in_catalog (vaManifest t) j"
    using Q(2) owed_or_stored_owing [OF s3] i A(4) by (cases "fWritten (prFlush flushed) = []") auto
  show "j \<noteq> crID (wcRef w) \<Longrightarrow> queued (pkQueue (vaPacker s)) j = None \<Longrightarrow> queued (pkQueue (vaPacker t)) j = None"
    using Q(3) pk i by simp
qed

text \<open>The ids drawn wait in the queue under no earlier record.\<close>

definition fresh_queue :: "'n venv \<Rightarrow> 'n vault \<Rightarrow> nat \<Rightarrow> bool" where
  "fresh_queue ve s n \<longleftrightarrow> (\<forall>m i. vaDrawn s \<le> m \<longrightarrow> m < n \<longrightarrow> drawn_id ve m = Some i \<longrightarrow>
     queued (pkQueue (vaPacker s)) i = None \<and> (\<forall>m'. m < m' \<longrightarrow> m' < n \<longrightarrow> drawn_id ve m' \<noteq> Some i))"

lemma fresh_queueD:
  assumes "fresh_queue ve s n" and "vaDrawn s \<le> m" and "m < n" and "drawn_id ve m = Some i"
  shows "queued (pkQueue (vaPacker s)) i = None" "m < m' \<Longrightarrow> m' < n \<Longrightarrow> drawn_id ve m' \<noteq> Some i"
  using assms unfolding fresh_queue_def by blast+

text \<open>What a save owes: its chunks are queued or stored, and stored where nothing is owed.\<close>

definition settled :: "'n vault \<Rightarrow> save_result \<Rightarrow> string set \<Rightarrow> bool" where
  "settled s r owed \<longleftrightarrow> (\<forall>c \<in> set (svChunks r). owed_or_stored s (crID c) \<and> (owed = {} \<longrightarrow> in_catalog (vaManifest s) (crID c)))"

lemma settled_owing: "owing t = owing s \<Longrightarrow> svChunks r' = svChunks r \<Longrightarrow> settled t r' owed = settled s r owed"
proof -
  assume o: "owing t = owing s" "svChunks r' = svChunks r"
  have "owed_or_stored t = owed_or_stored s" by (rule ext) (rule owed_or_stored_owing [OF o(1)])
  then show ?thesis using o by (simp add: settled_def owing_def)
qed

lemma write_groups_settled:
  assumes "write_groups ve gs h r owed s = (Inr (h', r', owed'), t)" and "queue_ok (pkQueue (vaPacker s))"
    and "fresh_queue ve s (vaDrawn t)" and "settled s r owed"
  shows "settled t r' owed' \<and> queue_ok (pkQueue (vaPacker t))"
  using assms
proof (induction gs arbitrary: h r owed s)
  case Nil
  then show ?case by (simp add: sret_def)
next
  case (Cons ms gs)
  let ?owed = "\<lambda>w. settle (insert (wcCID w) owed) (Some (prFlush (wcFlushed w)))"
  obtain w s1 where w: "writeChunk ve h ms s = (Inr w, s1)"
    and rest: "write_groups ve gs (add_chunk (wcRef w) h) (tally (wcRef w) r) (?owed w) s1 = (Inr (h', r', owed'), t)"
    using Cons.prems(1) by (auto simp: sbind_Inr_iff)
  obtain "drawn": "vaDrawn s1 = vaDrawn s + 2" using w by (rule writeChunk_Inr)
  have lt: "vaDrawn s < vaDrawn t" using write_groups_drawn [OF rest] "drawn" by simp
  have new: "\<forall>i. drawn_id ve (vaDrawn s) = Some i \<longrightarrow> queued (pkQueue (vaPacker s)) i = None"
    using fresh_queueD(1) [OF Cons.prems(3) order_refl lt] by blast
  note W = writeChunk_tracks [OF w Cons.prems(2) new]
  have f: "fresh_queue ve s1 (vaDrawn t)"
    unfolding fresh_queue_def
  proof (intro allI impI conjI)
    fix m i assume m: "vaDrawn s1 \<le> m" "m < vaDrawn t" "drawn_id ve m = Some i"
    have le: "vaDrawn s \<le> m" "vaDrawn s < m" using m(1) "drawn" by simp_all
    show "drawn_id ve m' \<noteq> Some i" if "m < m'" "m' < vaDrawn t" for m'
      by (rule fresh_queueD(2) [OF Cons.prems(3) le(1) m(2,3) that])
    have "i \<noteq> crID (wcRef w)" using fresh_queueD(2) [OF Cons.prems(3) order_refl lt W(1) le(2) m(2)] m(3) by auto
    then show "queued (pkQueue (vaPacker s1)) i = None"
      by (rule W(5) [OF _ fresh_queueD(1) [OF Cons.prems(3) le(1) m(2,3)]])
  qed
  have "?owed w = {} \<Longrightarrow> wcCID w \<in> set (map wrCID (fWritten (prFlush (wcFlushed w))))" by (auto simp: settle_def)
  then have "settled s1 (tally (wcRef w) r) (?owed w)"
    using Cons.prems(4) W(3,4) by (auto simp: settled_def tally_def)
  from Cons.IH [OF rest W(2) f this] show ?case .
qed

lemma keeps_owing_drawn_put_head [simp]: "keeps owing_drawn (put_head ve h from)"
  unfolding put_head_def by (intro keeps_sbind keeps_owing_drawn keeps_pure)

lemma keeps_owing_drawn_save_head: "keeps owing_drawn (save_head ve from h)"
proof -
  have "keeps owing_drawn (adoptChild ve p i)" for p i
  proof (rule keepsI)
    fix s :: "'a vault"
    obtain x s1 where v: "vault_session ve p s = (x, s1)" by fastforce
    have "owing_drawn s1 = owing_drawn s" by (rule keeps_step [OF keeps_owing_drawn_session(1) v])
    then show "owing_drawn (snd (adoptChild ve p i s)) = owing_drawn s"
      by (simp add: adoptChild_def v reviseHead_def keeps_at split: sum.split)
  qed
  moreover have "keeps owing_drawn (storeHead ve h v from)" for v
    unfolding storeHead_def
    by (intro keeps_sbind keeps_owing_drawn keeps_owing_drawn_put_head keeps_owing_drawn_putVector)
  ultimately show ?thesis unfolding save_head_def
    by (intro keeps_sbind keeps_pure) (auto split: option.split)
qed

text \<open>C28. A conversation is said to be on the network only when it is.  Every chunk a save wrote is, when the save
  answers, in the write queue with nothing holding it back, or catalogued at the place a flush reported for it;
  and where the answer says \<open>OnNetwork\<close>, every one of them is catalogued.  The ids drawn must be new to the queue.
\<close>

theorem OnNetwork_is_honest:
  assumes "SaveSession ve q s = Some (Inr r, t)" and "queue_ok (pkQueue (vaPacker s))" and "fresh_queue ve s (vaDrawn t)"
  shows "\<forall>c \<in> set (svChunks r). owed_or_stored t (crID c) \<and> (svOnNetwork r \<longrightarrow> in_catalog (vaManifest t) (crID c))"
proof -
  obtain r1 owed s1 where s1: "save_locally ve q s = (Inr (r1, owed), s1)" "svChunks r = svChunks r1"
    and fin: "t = s1 \<and> svOnNetwork r = (owed = {}) \<or> (\<exists>f. Vault_Flush ve s1 = Some (Inr f, t) \<and> svOnNetwork r = (settle owed f = {}))"
    using assms(1) by (auto simp: SaveSession_def pbind_Inr_iff prun_def sret_def split: if_splits)
  have dr: "vaDrawn t = vaDrawn s1" using fin Vault_Flush_device by (auto simp: on_device_def)
  obtain h0 "from" s0 groups h1 r2 s2 u where o: "openSession ve q s = (Inr (h0, from), s0)"
    and w: "write_groups ve groups h0 no_save {} s0 = (Inr (h1, r2, owed), s2)"
    and hd: "save_head ve from (applyHeadUpdates ve q h1) s2 = (Inr u, s1)" and r1: "svChunks r1 = svChunks r2"
    using s1(1) by (fastforce simp: save_locally_def sbind_Inr_iff slift_def sret_def)
  have "keeps owing (openSession ve q)"
    by (simp add: openSession_def keeps_sbind keeps_owing_of split: prod.split)
  from keeps_step [OF this o] have o0: "owing s0 = owing s" .
  have hd1: "owing_drawn s1 = owing_drawn s2" by (rule keeps_step [OF keeps_owing_drawn_save_head hd])
  have ok: "queue_ok (pkQueue (vaPacker s0))" using o0 assms(2) by (simp add: owing_def)
  have le: "vaDrawn s \<le> vaDrawn s0"
    using o by (auto simp: openSession_def sbind_Inr_iff NewID_def draw_def slift_def sret_def split: if_splits sum.splits
        dest!: Vault_Session_Inr vault_session_Inr(4))
  have d2: "vaDrawn s1 = vaDrawn s2" using hd1 by (simp add: owing_drawn_def)
  have f: "fresh_queue ve s0 (vaDrawn s2)"
    unfolding fresh_queue_def
  proof (intro allI impI)
    fix m i assume m: "vaDrawn s0 \<le> m" "m < vaDrawn s2" "drawn_id ve m = Some i"
    have "vaDrawn s \<le> m" "m < vaDrawn t" using m le dr d2 by simp_all
    then show "queued (pkQueue (vaPacker s0)) i = None \<and> (\<forall>m'>m. m' < vaDrawn s2 \<longrightarrow> drawn_id ve m' \<noteq> Some i)"
      using fresh_queueD [OF assms(3) _ _ m(3)] o0 dr d2 by (simp add: owing_def)
  qed
  have "settled s0 no_save {}" by (simp add: settled_def no_save_def)
  from write_groups_settled [OF w ok f this] have st: "settled s2 r2 owed" "queue_ok (pkQueue (vaPacker s2))" by simp_all
  have hd2: "owing s1 = owing s2" using hd1 by (simp add: owing_drawn_def owing_def)
  then have st1: "settled s1 r owed" "queue_ok (pkQueue (vaPacker s1))"
    using st settled_owing [OF hd2, of r r2] s1(2) r1 by (simp_all add: owing_def)
  from fin show ?thesis
  proof (elim disjE exE conjE)
    fix f assume "Vault_Flush ve s1 = Some (Inr f, t)"
    from Vault_Flush_stores [OF this st1(2)] st1(1) show ?thesis by (auto simp: settled_def owed_or_stored_def)
  qed (use st1 in \<open>auto simp: settled_def\<close>)
qed

section \<open>A first exchange\<close>

definition hello :: message where
  "hello = demo_message ''m1'' [demo_part PartToolCall ''a'' []]"

definition hello_again :: message where
  "hello_again = demo_message ''m2'' [Part ''text'' ''hi'' [] [] [] [] [] False [] [] [] 0 [] [] []]"

abbreviation hellos :: "message list" where
  "hellos \<equiv> [hello, hello_again]"

definition hello_request :: save_request where
  "hello_request = \<lparr>sqID = 0, sqTitle = ''t'', sqSummary = [], sqTags = [], sqProject = \<lparr>prCWD = [], prRepo = [], prBranch = []\<rparr>,
     sqAgent = \<lparr>agName = [], agVersion = []\<rparr>, sqModels = [], sqKind = [], sqAgentRef = None,
     sqLineage = \<lparr>lnParentSession = None, lnForkedFrom = None, lnResumedFrom = None, lnChildren = []\<rparr>,
     sqMessages = hellos, sqPreservedTail = [], sqTokensIn = 0, sqTokensOut = 0, sqDurationMS = 0,
     sqArchived = False, sqUnarchive = False, sqDurable = False\<rparr>"

lemma ID_of_bytes_inject: "length a = 16 \<Longrightarrow> length b = 16 \<Longrightarrow> ID_of_bytes a = ID_of_bytes b \<longleftrightarrow> a = b"
  using ID_bytes_ID_of_bytes by metis

lemma be_bytes_zero: "be_bytes n 0 = replicate n 0"
  by (induction n) (simp_all add: replicate_append_same)

lemma ID_of_bytes_zero: "ID_of_bytes (replicate n 0) = 0"
proof -
  have "be_val (replicate n 0) = 0" by (induction n) (simp_all add: be_val_def)
  then show ?thesis by (simp add: ID_of_bytes_def)
qed
definition demo_id :: "nat \<Rightarrow> recid" where
  "demo_id n = ID_of_bytes (replicate 16 (of_nat n + 1))"

definition hello_head :: session_head where
  "hello_head = new_session demo_venv hello_request (demo_id 0)"

definition hello_chunk :: chunk where
  "hello_chunk = new_chunk (demo_id 1) hello_head hellos"

definition hello_ref :: chunk_ref where
  "hello_ref = written_ref hello_chunk [] (Sealer_CID plain_crypto \<lparr>slRecord = [], slContent = []\<rparr> [])"

definition hello_saved :: session_head where
  "hello_saved = applyHeadUpdates demo_venv hello_request (add_chunk hello_ref hello_head)"

definition hello_memory :: memory where
  "hello_memory = \<lparr>mID = demo_id 0, mKind = KindMemory, mType = ''fact'', mSchemaVersion = SchemaVersion, mVersion = 1,
     mStatement = ''s'', mContext = ''c'', mKeywords = [], mTags = [], mEntities = [], mCreatedAt = stamp 1000000,
     mUpdatedAt = stamp 1000000, mValidFrom = None, mValidUntil = None, mLastRecalledAt = None, mRecallCount = 0,
     mImportance = Fin 0, mConfidence = Fin 1, mSupersedes = None, mSupersededBy = None, mLinks = [],
     mSource = \<lparr>srcOrigin = [], srcSessionID = [], srcSpan = [], srcClient = []\<rparr>, mEmbedding = vault_embedding demo_venv\<rparr>"

text \<open>A codec that knows this chunk, this head and this memory.\<close>

definition hello_venv :: "byte list list venv" where
  "hello_venv = demo_venv\<lparr>vnMarshalChunk := (\<lambda>c. if c = hello_chunk then Inr [] else fail [] ''chunk''),
     vnUnmarshalChunk := (\<lambda>_. Inr hello_chunk),
     vnMarshalSession := (\<lambda>h. if h = hello_saved then Inr [] else fail [] ''head''),
     vnUnmarshalSession := (\<lambda>_. Inr hello_saved),
     vnMarshal := (\<lambda>m. if m = hello_memory then Inr (ID_bytes (mID m)) else fail [] ''memory''),
     vnUnmarshal := (\<lambda>_. Inr hello_memory)\<rparr>"

lemma hello_codec: "chunk_codec hello_venv ms" "session_codec hello_venv"
  by (simp_all add: chunk_codec_def session_codec_def hello_venv_def)

lemma demo_id_distinct: "demo_id 0 \<noteq> demo_id 1" "demo_id 0 \<noteq> 0" "demo_id 1 \<noteq> 0"
  by (simp_all add: demo_id_def ID_of_bytes_inject flip: ID_of_bytes_zero [of 16])

lemma hello_sel:
  "vnText hello_venv = demo_text" "vnNow hello_venv = 1000000" "vnModel hello_venv = ''m''" "vnDim hello_venv = 1"
  "vnEmbed hello_venv x = Inr [0x3F800000]" "vnCrypto hello_venv = plain_crypto" "vnSealer hello_venv = \<lparr>slRecord = [], slContent = []\<rparr>"
  "vnRand hello_venv n k = Inr (replicate k (of_nat n + 1))" "vnQueueFails hello_venv op = None"
  "vnMarshalMessage hello_venv m = Inr (replicate (length (msgID m)) 0)"
  "vnMarshalChunk hello_venv hello_chunk = Inr []" "vnMarshalSession hello_venv hello_saved = Inr []"
  "vnVectorSealer hello_venv = demo_vsealer" "vnVectorIO hello_venv n = io_ok"
  by (simp_all add: hello_venv_def demo_venv_def)

lemma hello_trimmed: "trim_space ''m1'' = ''m1''" "trim_space ''m2'' = ''m2''" "trim_space ''text'' = ''text''" "trim_space ''toolCall'' = ''toolCall''" "trim_space ''a'' = ''a''" "trim_space ''t'' = ''t''"
  by (rule trim_space_trimmed, simp add: trimmed_def white_space_def upt_rec)+

lemma hello_valid: "Message_Validate hello = Inr ()" "Message_Validate hello_again = Inr ()" "msgID hello = ''m1''" "msgID hello_again = ''m2''"
  by (simp_all add: hello_trimmed hello_def hello_again_def demo_message_def demo_part_def Message_Validate_def Role_Valid_def Roles_def MaxMessageIDBytes_def
      MaxPartsPerMessage_def part_validate.simps PartToolCall_def PartToolResult_def)

lemma hello_open: "openSession hello_venv hello_request demo_vault = (Inr (hello_head, 0), demo_vault\<lparr>vaDrawn := 1\<rparr>)"
  by (simp add: openSession_def hello_request_def ID_IsZero_def NewID_def draw_def step_defs hello_sel hello_head_def demo_id_def
     new_session_def vault_embedding_def demo_vault_def demo_venv_def)

lemma hello_append: "validateAppend hello_head (sqMessages hello_request) = Inr ()"
  by (simp add: validateAppend_def hello_request_def hello_valid boundary_ids_def hello_head_def new_session_def)

lemma hello_split: "SplitMessages (messageBytes (vnMarshalMessage hello_venv)) (sqMessages hello_request) ChunkTargetBytes = Inr [hellos]"
  by (simp add: SplitMessages_def hello_request_def messageBytes_def hello_sel hello_valid ChunkTargetBytes_def)

lemma hello_seal:
  "\<exists>framed. seal_body hello_venv i KindChunk body s =
     (Inr (Sealer_CID plain_crypto \<lparr>slRecord = [], slContent = []\<rparr> body, framed), s\<lparr>vaDrawn := vaDrawn s + 1\<rparr>)"
  by (simp add: seal_body_def draw_def step_defs hello_sel Seal_def FrameRecord_def kindCode_def Let_def)

lemma hello_queue:
  assumes "vaPacker s = demo_packer"
  shows "\<exists>p. queue_blob hello_venv i k c framed s = (Inr no_result, s\<lparr>vaPacker := p\<rparr>)"
  using assms
  by (simp add: queue_blob_def on_packer_def Packer_Add_def Let_def vault_flusher_def hello_sel Policy_due_def demo_packer_def
     DefaultPolicy_def QueueState_def Enqueue_def demo_blob_def stamp_def DefaultMaxAge_def DefaultIdleAfter_def Minute_def Second_def)
    (intro conjI impI; rule exI; rule refl)

lemma hello_write:
  "\<exists>k s p. writeChunk hello_venv hello_head hellos (demo_vault\<lparr>vaDrawn := 1\<rparr>) =
     (Inr \<lparr>wcRef = hello_ref, wcCID = k, wcFlushed = no_result\<rparr>, demo_vault\<lparr>vaDrawn := 3, vaBodies := s, vaPacker := p\<rparr>)"
proof -
  let ?s = "demo_vault\<lparr>vaDrawn := 1\<rparr>"
  have v: "Chunk_Validate (new_chunk (demo_id 1) hello_head hellos) = Inr ()"
    by (simp add: Chunk_Validate_def new_chunk_def ID_IsZero_def demo_id_distinct [simplified] hello_valid hello_head_def
        new_session_def SchemaVersion_def)
  have n: "NewID hello_venv ?s = (Inr (demo_id 1), demo_vault\<lparr>vaDrawn := 2\<rparr>)"
    by (simp add: NewID_def draw_def step_defs hello_sel demo_id_def)
  obtain framed where f: "seal_body hello_venv (demo_id 1) KindChunk [] (demo_vault\<lparr>vaDrawn := 2\<rparr>) =
     (Inr (Sealer_CID plain_crypto \<lparr>slRecord = [], slContent = []\<rparr> [], framed), demo_vault\<lparr>vaDrawn := 3\<rparr>)"
    using hello_seal [of "demo_id 1" "[]" "demo_vault\<lparr>vaDrawn := 2\<rparr>"] by auto
  let ?t = "demo_vault\<lparr>vaDrawn := 3, vaBodies := PutBody 1000000 (demo_id 1) KindChunk [] []\<rparr>"
  have b: "put_body hello_venv (demo_id 1) KindChunk [] (demo_vault\<lparr>vaDrawn := 3\<rparr>) = (Inr (), ?t)"
    by (simp add: put_body_def smod_def hello_sel demo_vault_def)
  have pk: "vaPacker ?t = demo_packer" by (simp add: demo_vault_def)
  obtain p where p: "queue_blob hello_venv (demo_id 1) KindChunk (Sealer_CID plain_crypto \<lparr>slRecord = [], slContent = []\<rparr> []) framed ?t
      = (Inr no_result, ?t\<lparr>vaPacker := p\<rparr>)"
    using hello_queue [OF pk] by blast
  have m: "vnMarshalChunk hello_venv (new_chunk (demo_id 1) hello_head hellos) = Inr []"
    using hello_sel(11) by (simp only: hello_chunk_def)
  have "writeChunk hello_venv hello_head hellos ?s = (Inr \<lparr>wcRef = hello_ref,
     wcCID = CID_String (Sealer_CID plain_crypto \<lparr>slRecord = [], slContent = []\<rparr> []), wcFlushed = no_result\<rparr>, ?t\<lparr>vaPacker := p\<rparr>)"
    by (simp only: writeChunk_def sbind_def n v m f b p slift_def sret_def hello_ref_def hello_chunk_def prod.case sum.case)
  then show ?thesis by blast
qed

lemma hello_saved_sel:
  "sTitle hello_saved = ''t''" "sTags hello_saved = []" "sID hello_saved = demo_id 0" "sVersion hello_saved = 1"
  "sLineage hello_saved = sqLineage hello_request" "sSummary hello_saved = []" "sKind hello_saved = SessionMain"
  "sSchema hello_saved = MessageSchema" "sSchemaVersion hello_saved = SchemaVersion" "sChunks hello_saved = [hello_ref]"
  by (simp_all add: hello_saved_def applyHeadUpdates_def hello_request_def add_chunk_def hello_head_def new_session_def)

lemma hello_head_valid: "Session_Validate hello_saved = Inr ()"
  by (simp add: Session_Validate_def hello_trimmed hello_saved_sel ID_IsZero_def demo_id_distinct [simplified] SchemaVersion_def MaxTitleBytes_def
      MaxSummaryBytes_def tag_checks_def chunk_ref_checks_def hello_request_def SessionKind_Valid_def SessionKinds_def SessionMain_def
      SessionSubagent_def hello_ref_def written_ref_def hello_chunk_def hello_head_def new_session_def)

lemma hello_vector:
  "\<exists>st. Store_Append demo_vsealer io_ok [\<lparr>veID = i, veModel = ''m'', veDim = 1, veVector = [0x3F800000]\<rparr>] empty_store = (Inr (), st)
     \<and> \<not> Store_dueForCompaction st"
  by (simp add: Store_Append_def vec_encodeEntry_def vec_body_def demo_vsealer_def io_ok_def Let_def empty_store_def Store_dueForCompaction_def)

lemma hello_store:
  assumes "vaHeads s = []" and "vaVectors s = empty_store" and "vaIndex s = Index_New ''m'' 1"
  shows "\<exists>t. storeHead hello_venv hello_saved [0x3F800000] 0 s = (Inr (), t)"
proof -
  have h: "put_head hello_venv hello_saved 0 s = (Inr (), s\<lparr>vaHeads := [(demo_id 0, head_row_of hello_saved [])]\<rparr>)"
    using assms(1) by (simp add: put_head_def step_defs hello_sel on_heads_def PutSessionHead_def hello_saved_sel)
  obtain st where st: "Store_Append demo_vsealer io_ok [\<lparr>veID = demo_id 0, veModel = ''m'', veDim = 1, veVector = [0x3F800000]\<rparr>] empty_store
    = (Inr (), st)" "\<not> Store_dueForCompaction st" using hello_vector by blast
  obtain ix where ix: "Index_Add (demo_id 0) ''m'' [0x3F800000] (Index_New ''m'' 1) = (Inr (), ix)"
    by (simp add: Index_Add_def Index_New_def)
  show ?thesis
    using st ix assms(2,3)
    by (simp add: storeHead_def sbind_def h putVector_def on_vectors_def hello_sel hello_saved_sel(3) on_index_def smod_def
        compactVectorsIfDue_def put_meta_def)
qed

lemma hello_run:
  "\<exists>r t. SaveSession hello_venv hello_request demo_vault = Some (Inr r, t) \<and> vaDrawn t = 3 \<and> svChunks r = [hello_ref]"
proof -
  obtain k b p where w: "writeChunk hello_venv hello_head hellos (demo_vault\<lparr>vaDrawn := 1\<rparr>) =
     (Inr \<lparr>wcRef = hello_ref, wcCID = k, wcFlushed = no_result\<rparr>, demo_vault\<lparr>vaDrawn := 3, vaBodies := b, vaPacker := p\<rparr>)"
    using hello_write by blast
  let ?s = "demo_vault\<lparr>vaDrawn := 3, vaBodies := b, vaPacker := p\<rparr>"
  have up: "applyHeadUpdates hello_venv hello_request (add_chunk hello_ref hello_head) = hello_saved"
    by (simp add: hello_saved_def applyHeadUpdates_def hello_sel demo_venv_def)
  obtain t where t: "storeHead hello_venv hello_saved [0x3F800000] 0 ?s = (Inr (), t)"
    using hello_store [of ?s] by (auto simp: demo_vault_def)
  have hd: "save_head hello_venv 0 hello_saved ?s = (Inr (), t)"
    by (simp add: save_head_def sbind_def slift_def hello_head_valid hello_sel t hello_saved_sel(5) hello_request_def sret_def)
  have "\<exists>r owed. save_locally hello_venv hello_request demo_vault = (Inr (r, owed), t) \<and> svChunks r = [hello_ref]"
    by (simp add: tally_def no_save_def save_locally_def sbind_def hello_open slift_def hello_append hello_split w [simplified] hd up sret_def)
  moreover have "vaDrawn t = 3" using storeHead_Inr(3) [OF t hello_codec(2)] by simp
  ultimately show ?thesis
    by (auto simp: SaveSession_def pbind_def prun_def sret_def hello_request_def [THEN arg_cong [where f = sqDurable]])
qed

theorem SaveSession_appends_witness:
  "\<exists>r t. SaveSession hello_venv hello_request demo_vault = Some (Inr r, t)
     \<and> (\<exists>h. stored_head hello_venv (vaHeads t) (svID r) = Some h
          \<and> held_transcript hello_venv (vaBodies t) (sChunks h) = Some hellos)"
proof -
  obtain r t where t: "SaveSession hello_venv hello_request demo_vault = Some (Inr r, t)" "vaDrawn t = 3"
    using hello_run by blast
  have d: "drawn_id hello_venv n = Some (demo_id n)" for n by (simp add: drawn_id_def hello_sel demo_id_def)
  have "fresh_ids hello_venv demo_vault (vaDrawn t)"
    unfolding t(2) fresh_ids_def d by (auto simp: demo_vault_def demo_id_def ID_of_bytes_inject less_Suc_eq numeral_3_eq_3)
  note F = SaveSession_appends [OF t(1) hello_codec this]
  have "heads_keyed hello_venv (vaHeads demo_vault)" "transcript_before hello_venv demo_vault (sqID hello_request) []"
    by (simp_all add: heads_keyed_def stored_head_def demo_vault_def GetSessionHead_def transcript_before_def hello_request_def ID_IsZero_def)
  from conjunct1 [OF F [OF this]] have "\<exists>h. stored_head hello_venv (vaHeads t) (svID r) = Some h
      \<and> held_transcript hello_venv (vaBodies t) (sChunks h) = Some ([] @ sqMessages hello_request)" .
  with t(1) show ?thesis by (auto simp: hello_request_def)
qed

lemma demo_id_not_3: "demo_id m \<noteq> 3"
proof
  assume "demo_id m = 3"
  then have "replicate 16 (of_nat m + 1) = ID_bytes 3"
    using ID_bytes_ID_of_bytes [of "replicate 16 (of_nat m + 1)"] by (simp add: demo_id_def)
  also have "ID_bytes 3 = be_bytes 15 0 @ [3]" using be_bytes.simps(2) [of 15 3] by (simp add: ID_bytes_def)
  also have "be_bytes 15 0 = replicate 15 0" by (rule be_bytes_zero)
  finally have e: "replicate 15 (of_nat m + 1) @ [of_nat m + 1] = replicate 15 0 @ [3 :: byte]"
    using replicate_Suc [of 15 "of_nat m + 1 :: byte"] by (simp add: replicate_append_same)
  have "of_nat m + 1 = (3 :: byte)" using arg_cong [OF e, of last] by simp
  moreover have "of_nat m + 1 = (0 :: byte)" using arg_cong [OF e, of hd] by simp
  ultimately have "(0 :: byte) = 3" by metis
  then show False by simp
qed

theorem OnNetwork_is_honest_witness:
  "\<exists>r t. SaveSession hello_venv hello_request demo_vault = Some (Inr r, t)
     \<and> svChunks r = [hello_ref] \<and> owed_or_stored t (crID hello_ref)"
proof -
  obtain r t where t: "SaveSession hello_venv hello_request demo_vault = Some (Inr r, t)" "vaDrawn t = 3" "svChunks r = [hello_ref]"
    using hello_run by blast
  have d: "drawn_id hello_venv n = Some (demo_id n)" for n by (simp add: drawn_id_def hello_sel demo_id_def)
  have q: "queued (pkQueue (vaPacker demo_vault)) j = None" if "j \<noteq> 3" for j
    using that by (simp add: demo_vault_def demo_packer_def Enqueue_def queued_def row_of_Cons demo_blob_def)
  have x: "demo_id m \<noteq> demo_id m'" if "m < m'" "m' < 3" for m m'
    using that by (auto simp: demo_id_def ID_of_bytes_inject less_Suc_eq numeral_3_eq_3)
  have "fresh_queue hello_venv demo_vault (vaDrawn t)"
    unfolding t(2) fresh_queue_def d using q demo_id_not_3 x by (metis option.inject)
  moreover have "queue_ok (pkQueue (vaPacker demo_vault))" using demo_packer_ok by (simp add: demo_vault_def)
  ultimately show ?thesis using OnNetwork_is_honest [OF t(1)] t(1,3) by auto
qed

end
