(* ===== verification/VaultReplay.thy ===== *)
theory VaultReplay
  imports VaultSession
begin

text \<open>
  \<open>vault/session_load.go\<close>: reading a session and, page by page, its transcript; its sub-agents; and the
  turns a memory came from.
\<close>

section \<open>Requests and results\<close>

record load_request =
  lqID :: recid
  lqTranscript :: bool
  lqFrom :: string
  lqLimit :: int
  lqIncludeSubagents :: bool

record subagent =
  sbID :: recid
  sbTitle :: string
  sbKind :: string
  sbMessages :: int
  sbSession :: "session_head option"
  sbTranscript :: "message list"

record loaded =
  ldSession :: session_head
  ldMessages :: "message list"
  ldMore :: bool
  ldNextFrom :: string
  ldSubagents :: "subagent list"
  ldChunksRead :: int

definition Subagent_Inlined :: "subagent \<Rightarrow> bool" where
  "Subagent_Inlined s \<longleftrightarrow> sbSession s \<noteq> None"

section \<open>Chunks\<close>

definition count_chunk :: "byte list \<Rightarrow> 'n vault \<Rightarrow> 'n vault" where
  "count_chunk body s = s\<lparr>vaStats := (vaStats s)\<lparr>ssChunkReads := ssChunkReads (vaStats s) + 1,
     ssChunkBytes := ssChunkBytes (vaStats s) + int (length body)\<rparr>\<rparr>"

definition Vault_chunk :: "'n venv \<Rightarrow> recid \<Rightarrow> ('n vault, chunk) run" where
  "Vault_chunk ve i = pbind (fetchBody ve i) (\<lambda>(kind, body, tier).
     if kind \<noteq> KindChunk then prun (sfail (GoErr [] ''not a transcript chunk''))
     else prun (sbind (slift (vnUnmarshalChunk ve body)) (\<lambda>c. sbind (smod (count_chunk body)) (\<lambda>_. sret c))))"

section \<open>The transcript\<close>

text \<open>One chunk's messages: whether the replay has started, what it holds, and where the limit cut it.\<close>

fun walk_messages :: "string \<Rightarrow> int \<Rightarrow> message list \<Rightarrow> bool \<Rightarrow> message list \<Rightarrow> bool \<times> message list \<times> string option" where
  "walk_messages from limit [] started out = (started, out, None)"
| "walk_messages from limit (m # ms) started out =
    (if \<not> started \<and> msgID m \<noteq> from then walk_messages from limit ms started out
     else if 0 < limit \<and> limit \<le> int (length out) then (True, out, Some (msgID m))
     else walk_messages from limit ms True (out @ [m]))"

fun walk_chunks :: "'n venv \<Rightarrow> string \<Rightarrow> int \<Rightarrow> chunk_ref list \<Rightarrow> bool \<Rightarrow> message list
    \<Rightarrow> ('n vault, message list \<times> bool \<times> string) run" where
  "walk_chunks ve from limit [] started out =
     prun (if started then sret (out, False, []) else sfail (GoErr [] ''session holds no such message''))"
| "walk_chunks ve from limit (r # rs) started out =
    (if 0 < limit \<and> limit \<le> int (length out) then prun (sret (out, True, crFirst r))
     else pbind (\<lambda>s. case Vault_chunk ve (crID r) s of
              Some (Inl e, s') \<Rightarrow> Some (Inl (wrap_err ''session chunk: '' e), s') | x \<Rightarrow> x) (\<lambda>c.
       case walk_messages from limit (chMessages c) started out of
         (_, out', Some i) \<Rightarrow> prun (sret (out', True, i))
       | (started', out', None) \<Rightarrow> walk_chunks ve from limit rs started' out'))"

definition startChunk :: "session_head \<Rightarrow> string \<Rightarrow> nat" where
  "startChunk h from = (if from = [] then 0
     else case index_of (\<lambda>r. crFirst r = from \<or> crLast r = from) (sChunks h) of None \<Rightarrow> 0 | Some i \<Rightarrow> i)"

definition transcript :: "'n venv \<Rightarrow> session_head \<Rightarrow> load_request \<Rightarrow> ('n vault, message list \<times> bool \<times> string) run" where
  "transcript ve h q = walk_chunks ve (lqFrom q) (lqLimit q) (drop (startChunk h (lqFrom q)) (sChunks h)) (lqFrom q = []) []"

definition whole_transcript :: "recid \<Rightarrow> load_request" where
  "whole_transcript i = \<lparr>lqID = i, lqTranscript = True, lqFrom = [], lqLimit = 0, lqIncludeSubagents = False\<rparr>"

section \<open>Loading\<close>

definition load_subagent :: "'n venv \<Rightarrow> recid \<Rightarrow> load_request \<Rightarrow> ('n vault, subagent) run" where
  "load_subagent ve i q = pbind (prun (Vault_Session ve i)) (\<lambda>child.
     let named = \<lparr>sbID = sID child, sbTitle = sTitle child, sbKind = sKind child, sbMessages = cnMessages (sCounts child),
           sbSession = None, sbTranscript = []\<rparr> in
     if \<not> lqIncludeSubagents q then prun (sret named)
     else if \<not> lqTranscript q then prun (sret (named\<lparr>sbSession := Some child\<rparr>))
     else pbind (transcript ve child (whole_transcript (sID child))) (\<lambda>(messages, _, _).
       prun (sret (named\<lparr>sbSession := Some child, sbTranscript := messages\<rparr>))))"

fun load_subagents :: "'n venv \<Rightarrow> load_request \<Rightarrow> recid list \<Rightarrow> ('n vault, subagent list) run" where
  "load_subagents ve q [] = prun (sret [])"
| "load_subagents ve q (i # is) = pbind (load_subagent ve i q) (\<lambda>a. pbind (load_subagents ve q is) (\<lambda>as. prun (sret (a # as))))"

definition LoadSession :: "'n venv \<Rightarrow> load_request \<Rightarrow> ('n vault, loaded) run" where
  "LoadSession ve q = pbind (prun (Vault_Session ve (lqID q))) (\<lambda>h.
     pbind (prun (sget (\<lambda>s. ssChunkReads (vaStats s)))) (\<lambda>before.
     pbind (if lqTranscript q then transcript ve h q else prun (sret ([], False, []))) (\<lambda>(messages, more, next_from).
     pbind (prun (sget (\<lambda>s. ssChunkReads (vaStats s)))) (\<lambda>after.
     pbind (load_subagents ve q (lnChildren (sLineage h))) (\<lambda>subagents.
       prun (sret \<lparr>ldSession = h, ldMessages = messages, ldMore = more, ldNextFrom = next_from, ldSubagents = subagents,
         ldChunksRead = after - before\<rparr>))))))"

section \<open>Where a memory came from\<close>

record source_span =
  sspSession :: session_head
  sspMessages :: "message list"
  sspSpan :: span

definition ResolveSource :: "'n venv \<Rightarrow> memory \<Rightarrow> ('n vault, source_span) run" where
  "ResolveSource ve m =
    (if srcSessionID (mSource m) = [] then prun (sfail (GoErr [] ''memory names no session''))
     else case ParseID (srcSessionID (mSource m)) of
       Inl e \<Rightarrow> prun (sfail (wrap_err ''memory: '' e))
     | Inr i \<Rightarrow> pbind (prun (Vault_Session ve i)) (\<lambda>h.
         let sp = ParseSpan (srcSpan (mSource m)) in
         if Span_Empty sp then prun (sret \<lparr>sspSession = h, sspMessages = [], sspSpan = sp\<rparr>)
         else pbind (transcript ve h (whole_transcript i)) (\<lambda>(messages, _, _).
           let turns = Span_Select sp messages in
           if turns = [] then prun (sfail (GoErr [] ''the session holds no such turns''))
           else prun (sret \<lparr>sspSession = h, sspMessages = turns, sspSpan = sp\<rparr>))))"

section \<open>A page of a transcript\<close>

lemma walk_messages_started:
  assumes "0 < limit" and "int (length out) \<le> limit"
  shows "walk_messages from limit ms True out =
    (True, out @ take (nat limit - length out) ms,
     if length ms \<le> nat limit - length out then None else Some (msgID (ms ! (nat limit - length out))))"
  using assms(2)
proof (induction ms arbitrary: out)
  case (Cons m ms)
  show ?case
  proof (cases "limit \<le> int (length out)")
    case True
    then have "nat limit - length out = 0" by simp
    then show ?thesis using True assms(1) by simp
  next
    case False
    then have n: "nat limit - length out = Suc (nat limit - length (out @ [m]))" by simp
    show ?thesis using Cons.IH [of "out @ [m]"] False assms(1) Cons.prems by (simp add: n)
  qed
qed simp

lemma walk_messages_all: "walk_messages from limit ms True out = (True, out @ ms, None)" if "limit \<le> 0"
  using that by (induction ms arbitrary: out) simp_all

lemma walk_messages_skip:
  "from \<notin> msgID ` set ms \<Longrightarrow> walk_messages from limit (ms @ ms') False out = walk_messages from limit ms' False out"
  by (induction ms) auto

lemma walk_messages_found:
  "from \<notin> msgID ` set ms \<Longrightarrow> msgID m = from \<Longrightarrow>
     walk_messages from limit (ms @ m # ms') False out = walk_messages from limit (m # ms') True out"
  by (simp add: walk_messages_skip)

text \<open>A head tells the truth about its chunks: the device holds them, none is empty, and the first and last ids are theirs.\<close>

definition ref_holds :: "'n venv \<Rightarrow> bodies \<Rightarrow> chunk_ref \<Rightarrow> message list \<Rightarrow> bool" where
  "ref_holds ve t r ms \<longleftrightarrow> held_chunk ve t (crID r) = Some ms \<and> ms \<noteq> [] \<and> crFirst r = msgID (hd ms) \<and> crLast r = msgID (last ms)"

definition reads_only :: "'n vault \<Rightarrow> 'n vault \<Rightarrow> bool" where
  "reads_only s t \<longleftrightarrow> vaBodies t = vaBodies s \<and> vaHeads t = vaHeads s \<and> vaManifest t = vaManifest s"

lemma reads_only_refl [simp]: "reads_only s s"
  by (simp add: reads_only_def)

lemma reads_only_trans: "reads_only s t \<Longrightarrow> reads_only t u \<Longrightarrow> reads_only s u"
  by (simp add: reads_only_def)

lemma Vault_chunk_held:
  assumes "held_chunk ve (vaBodies s) i = Some ms"
  shows "\<exists>c t. Vault_chunk ve i s = Some (Inr c, t) \<and> chMessages c = ms \<and> reads_only s t"
proof -
  obtain body c where b: "GetRecord (vaBodies s) i = Inr (KindChunk, body)" "vnUnmarshalChunk ve body = Inr c" "chMessages c = ms"
    using assms by (auto simp: held_chunk_def split: sum.splits prod.splits if_splits)
  then show ?thesis
    by (simp add: Vault_chunk_def fetchBody_def pbind_def prun_def step_defs count_chunk_def reads_only_def countRead_def)
qed

text \<open>The rest of a transcript, up to the limit, and where to go on.\<close>

definition page_of :: "int \<Rightarrow> message list \<Rightarrow> message list \<Rightarrow> message list \<times> bool \<times> string" where
  "page_of limit out ms = (let n = nat limit - length out in
     if limit \<le> 0 \<or> length ms \<le> n then (out @ ms, False, []) else (out @ take n ms, True, msgID (ms ! n)))"

lemma walk_on:
  assumes rest: "\<And>out'. limit \<le> 0 \<or> int (length out') \<le> limit \<Longrightarrow>
      \<exists>t. walk_chunks ve frm limit rs True out' s = Some (Inr (page_of limit out' ms'), t) \<and> reads_only s t"
    and go: "\<not> (0 < limit \<and> limit \<le> int (length out))"
  shows "\<exists>t. (case walk_messages frm limit ms True out of (_, out', Some i) \<Rightarrow> prun (sret (out', True, i))
       | (started', out', None) \<Rightarrow> walk_chunks ve frm limit rs started' out') s = Some (Inr (page_of limit out (ms @ ms')), t)
     \<and> reads_only s t"
proof (cases "limit \<le> 0 \<or> length ms \<le> nat limit - length out")
  case True
  have w: "walk_messages frm limit ms True out = (True, out @ ms, None)"
  proof (cases "limit \<le> 0")
    case False
    then show ?thesis using walk_messages_started [of limit out] go True by simp
  qed (rule walk_messages_all)
  have "page_of limit (out @ ms) ms' = page_of limit out (ms @ ms')"
    using go True by (auto simp: page_of_def Let_def nth_append)
  moreover have "limit \<le> 0 \<or> int (length (out @ ms)) \<le> limit" using go True by auto
  ultimately show ?thesis using rest [of "out @ ms"] w by simp
next
  case False
  then have n: "0 < limit" "int (length out) \<le> limit" "\<not> length ms \<le> nat limit - length out" using go by simp_all
  have "page_of limit out (ms @ ms') = (out @ take (nat limit - length out) ms, True, msgID (ms ! (nat limit - length out)))"
    using n by (simp add: page_of_def Let_def nth_append)
  then show ?thesis using walk_messages_started [OF n(1,2)] n(3) by (simp add: prun_def sret_def)
qed

lemma walk_chunks_started:
  assumes "list_all2 (ref_holds ve (vaBodies s)) rs mss" and "limit \<le> 0 \<or> int (length out) \<le> limit"
  shows "\<exists>t. walk_chunks ve from limit rs True out s = Some (Inr (page_of limit out (concat mss)), t) \<and> reads_only s t"
  using assms
proof (induction rs arbitrary: mss out s)
  case Nil
  then show ?case by (simp add: prun_def sret_def page_of_def)
next
  case (Cons r rs)
  obtain ms mss' where m: "mss = ms # mss'" "ref_holds ve (vaBodies s) r ms" "list_all2 (ref_holds ve (vaBodies s)) rs mss'"
    using Cons.prems(1) by (auto simp: list_all2_Cons1)
  have h: "held_chunk ve (vaBodies s) (crID r) = Some ms" "ms \<noteq> []" "crFirst r = msgID (hd ms)"
    using m(2) by (simp_all add: ref_holds_def)
  show ?case
  proof (cases "0 < limit \<and> limit \<le> int (length out)")
    case True
    then have z: "nat limit - length out = 0" "0 < limit" by (auto simp: nat_le_iff)
    obtain m0 ms0 where "ms = m0 # ms0" using h(2) by (cases ms) auto
    then show ?thesis using True z h(3) m(1) by (simp add: prun_def sret_def page_of_def)
  next
    case go: False
    obtain c s1 where c: "Vault_chunk ve (crID r) s = Some (Inr c, s1)" "chMessages c = ms" "reads_only s s1"
      using Vault_chunk_held [OF h(1)] by blast
    have b: "list_all2 (ref_holds ve (vaBodies s1)) rs mss'" using c(3) m(3) by (simp add: reads_only_def)
    from walk_on [OF Cons.IH [OF b] go, where ms = ms] c go m(1) show ?thesis by (auto simp: pbind_def intro: reads_only_trans)
  qed
qed

text \<open>A replay that starts inside: what precedes the message is passed over.\<close>

lemma walk_chunks_from:
  assumes "list_all2 (ref_holds ve (vaBodies s)) rs mss" and "concat mss = before @ m # after"
    and "from \<notin> msgID ` set before" and "msgID m = from"
  shows "\<exists>t. walk_chunks ve from limit rs False [] s = Some (Inr (page_of limit [] (m # after)), t) \<and> reads_only s t"
  using assms(1-3)
proof (induction rs arbitrary: mss before s)
  case (Cons r rs)
  obtain ms mss' where ms: "mss = ms # mss'" "ref_holds ve (vaBodies s) r ms" "list_all2 (ref_holds ve (vaBodies s)) rs mss'"
    using Cons.prems(1) by (auto simp: list_all2_Cons1)
  have h: "held_chunk ve (vaBodies s) (crID r) = Some ms" using ms(2) by (simp add: ref_holds_def)
  obtain c s1 where c: "Vault_chunk ve (crID r) s = Some (Inr c, s1)" "chMessages c = ms" "reads_only s s1"
    using Vault_chunk_held [OF h] by blast
  have b: "list_all2 (ref_holds ve (vaBodies s1)) rs mss'" using c(3) ms(3) by (simp add: reads_only_def)
  have cc: "ms @ concat mss' = before @ m # after" using Cons.prems(2) ms(1) by simp
  show ?case
  proof (cases "length ms \<le> length before")
    case True
    then obtain before' where bf: "before = ms @ before'" "concat mss' = before' @ m # after"
      using cc by (auto simp: append_eq_append_conv2)
    have "from \<notin> msgID ` set ms" "from \<notin> msgID ` set before'" using Cons.prems(3) bf(1) by auto
    then have "walk_messages from limit ms False [] = (False, [], None)"
      using walk_messages_skip [of "from" ms limit "[]" "[]"] by simp
    with Cons.IH [OF b bf(2)] c \<open>from \<notin> msgID ` set before'\<close> show ?thesis
      by (auto simp: pbind_def intro: reads_only_trans)
  next
    case False
    then obtain ms2 where m2: "ms = before @ m # ms2" "after = ms2 @ concat mss'"
      using cc by (auto simp: append_eq_append_conv2 append_eq_Cons_conv)
    have w: "walk_messages from limit ms False [] = walk_messages from limit (m # ms2) True []"
      unfolding m2(1) by (rule walk_messages_found [OF Cons.prems(3) assms(4)])
    have go: "\<not> (0 < limit \<and> limit \<le> int (length ([] :: message list)))" by simp
    from walk_on [OF walk_chunks_started [OF b] go, where ms = "m # ms2" and frm = "from"] c w m2(2) show ?thesis
      by (auto simp: pbind_def simp del: walk_messages.simps intro: reads_only_trans)
  qed
qed simp

definition truthful :: "'n venv \<Rightarrow> bodies \<Rightarrow> session_head \<Rightarrow> message list list \<Rightarrow> bool" where
  "truthful ve t h mss \<longleftrightarrow> list_all2 (ref_holds ve t) (sChunks h) mss \<and> distinct (map msgID (concat mss))
     \<and> [] \<notin> msgID ` set (concat mss)"

text \<open>The page that starts at a message is the transcript from there on, wherever the chunks begin and end.\<close>

lemma drop_start:
  assumes "list_all2 (ref_holds ve t) rs mss" and "concat mss = before @ m # after" and "distinct (map msgID (concat mss))"
    and "index_of (\<lambda>r. crFirst r = msgID m \<or> crLast r = msgID m) rs = Some i"
  shows "\<exists>before'. concat (drop i mss) = before' @ m # after \<and> set before' \<subseteq> set before"
  using assms
proof (induction rs arbitrary: mss i before)
  case (Cons r rs)
  obtain ms mss' where ms: "mss = ms # mss'" "ref_holds ve t r ms" "list_all2 (ref_holds ve t) rs mss'"
    using Cons.prems(1) by (auto simp: list_all2_Cons1)
  show ?case
  proof (cases "crFirst r = msgID m \<or> crLast r = msgID m")
    case True
    then show ?thesis using Cons.prems(2,4) by auto
  next
    case False
    then obtain k where k: "index_of (\<lambda>r. crFirst r = msgID m \<or> crLast r = msgID m) rs = Some k" "i = Suc k"
      using Cons.prems(4) by auto
    have "m \<notin> set ms"
    proof
      assume "m \<in> set ms"
      from index_of_Some [OF k(1)] have "k < length rs" "crFirst (rs ! k) = msgID m \<or> crLast (rs ! k) = msgID m" by auto
      moreover from this ms(3) have "ref_holds ve t (rs ! k) (mss' ! k)" "k < length mss'"
        by (auto simp: list_all2_conv_all_nth)
      ultimately obtain m' where "m' \<in> set (mss' ! k)" "msgID m' = msgID m"
        unfolding ref_holds_def by (metis hd_in_set last_in_set)
      then have "msgID m \<in> msgID ` set (concat mss')" using nth_mem [OF \<open>k < length mss'\<close>] by (metis imageI UN_I set_concat)
      then show False using Cons.prems(3) ms(1) \<open>m \<in> set ms\<close> by auto
    qed
    then have "length ms \<le> length before" using Cons.prems(2) ms(1)
      by (auto simp: append_eq_append_conv2 append_eq_Cons_conv)
    then obtain b' where b': "before = ms @ b'" "concat mss' = b' @ m # after"
      using Cons.prems(2) ms(1) by (auto simp: append_eq_append_conv2 append_eq_Cons_conv)
    have "distinct (map msgID (concat mss'))" using Cons.prems(3) ms(1) by simp
    from Cons.IH [OF ms(3) b'(2) this k(1)] show ?thesis using k(2) ms(1) b'(1) by auto
  qed
qed simp

lemma transcript_page:
  assumes "truthful ve (vaBodies s) h mss" and "concat mss = before @ rest"
    and "lqFrom q = (if before = [] then [] else msgID (hd rest))" and "before \<noteq> [] \<Longrightarrow> rest \<noteq> []"
  shows "\<exists>t. transcript ve h q s = Some (Inr (page_of (lqLimit q) [] rest), t) \<and> reads_only s t"
proof -
  have hold: "list_all2 (ref_holds ve (vaBodies s)) (sChunks h) mss" using assms(1) by (simp add: truthful_def)
  show ?thesis
  proof (cases "before = []")
    case True
    then have "lqFrom q = []" using assms(3) by simp
    then have tr: "transcript ve h q = walk_chunks ve [] (lqLimit q) (sChunks h) True []" by (simp add: transcript_def startChunk_def)
    have "lqLimit q \<le> 0 \<or> int (length ([] :: message list)) \<le> lqLimit q" by auto
    from walk_chunks_started [OF hold this, of "[]"] show ?thesis using True assms(2) by (simp add: tr)
  next
    case False
    then obtain m after where m: "rest = m # after" using assms(4) by (cases rest) auto
    have f: "lqFrom q = msgID m" using assms(3) False m by simp
    have c: "concat mss = before @ m # after" using assms(2) m by simp
    have d: "distinct (map msgID (concat mss))" using assms(1) by (simp add: truthful_def)
    have n: "lqFrom q \<noteq> []" using assms(1) c f by (auto simp: truthful_def)
    obtain i before' where i: "startChunk h (lqFrom q) = i" "concat (drop i mss) = before' @ m # after" "set before' \<subseteq> set before"
    proof (cases "index_of (\<lambda>r. crFirst r = lqFrom q \<or> crLast r = lqFrom q) (sChunks h)")
      case None
      then show thesis using that [of 0 before] c n by (simp add: startChunk_def)
    next
      case (Some k)
      then show thesis using drop_start [OF hold c d, of k] that [of k] n f by (auto simp: startChunk_def)
    qed
    have "list_all2 (ref_holds ve (vaBodies s)) (drop i (sChunks h)) (drop i mss)"
      using hold by (rule list_all2_dropI)
    moreover have "lqFrom q \<notin> msgID ` set before'" using d c f i(3) by auto
    ultimately obtain t where "walk_chunks ve (lqFrom q) (lqLimit q) (drop i (sChunks h)) False [] s
        = Some (Inr (page_of (lqLimit q) [] (m # after)), t)" "reads_only s t"
      using walk_chunks_from [OF _ i(2) _ f [symmetric]] by blast
    moreover have z: "(lqFrom q = []) = False" using n by simp
    ultimately show ?thesis unfolding transcript_def i(1) m z by blast
  qed
qed

section \<open>Following the pages\<close>

lemma Vault_Session_stored:
  assumes "stored_head ve (vaHeads s) i = Some h"
  shows "\<exists>t. Vault_Session ve i s = (Inr h, t) \<and> reads_only s t"
  using assms
  by (auto simp: stored_head_def Vault_Session_def vault_session_def reads_only_def split: sum.splits)

text \<open>The sub-agents a session names are on this device.\<close>

definition children_held :: "'n venv \<Rightarrow> heads \<Rightarrow> recid list \<Rightarrow> bool" where
  "children_held ve t is \<longleftrightarrow> (\<forall>i \<in> set is. stored_head ve t i \<noteq> None)"

lemma load_subagents_named:
  assumes "children_held ve (vaHeads s) is" and "\<not> lqIncludeSubagents q"
  shows "\<exists>xs t. load_subagents ve q is s = Some (Inr xs, t) \<and> reads_only s t \<and> map sbSession xs = map (\<lambda>_. None) is"
  using assms(1)
proof (induction "is" arbitrary: s)
  case Nil
  then show ?case by (simp add: prun_def sret_def)
next
  case (Cons i "is")
  obtain h s1 where h: "Vault_Session ve i s = (Inr h, s1)" "reads_only s s1"
    using Cons.prems Vault_Session_stored [of ve s i] by (auto simp: children_held_def)
  obtain a where a: "load_subagent ve i q s = Some (Inr a, s1)" "sbSession a = None"
    using h(1) assms(2) by (simp add: load_subagent_def pbind_def prun_def sret_def Let_def)
  have "children_held ve (vaHeads s1) is" using Cons.prems h(2) by (simp add: children_held_def reads_only_def)
  from Cons.IH [OF this] a h(2) show ?case by (auto simp: pbind_def prun_def sret_def intro: reads_only_trans)
qed

lemma LoadSession_transcript:
  assumes head: "stored_head ve (vaHeads s) (lqID q) = Some h"
    and children: "children_held ve (vaHeads s) (lnChildren (sLineage h))" and q: "lqTranscript q" "\<not> lqIncludeSubagents q"
    and page: "\<And>s1. reads_only s s1 \<Longrightarrow> \<exists>t. transcript ve h q s1 = Some (Inr pg, t) \<and> reads_only s1 t"
  shows "\<exists>l t. LoadSession ve q s = Some (Inr l, t) \<and> (ldMessages l, ldMore l, ldNextFrom l) = pg \<and> reads_only s t"
proof -
  obtain s1 where s1: "Vault_Session ve (lqID q) s = (Inr h, s1)" "reads_only s s1"
    using Vault_Session_stored [OF head] by blast
  obtain s2 where s2: "transcript ve h q s1 = Some (Inr pg, s2)" "reads_only s1 s2"
    using page [OF s1(2)] by blast
  have "children_held ve (vaHeads s2) (lnChildren (sLineage h))" using children s1(2) s2(2) by (simp add: reads_only_def)
  then obtain xs s3 where s3: "load_subagents ve q (lnChildren (sLineage h)) s2 = Some (Inr xs, s3)" "reads_only s2 s3"
    using load_subagents_named [OF _ q(2)] by blast
  obtain a b c where pg: "pg = (a, b, c)" by (metis prod_cases3)
  have "reads_only s s3" using s1(2) s2(2) s3(2) reads_only_trans by blast
  with s1 s2 s3 q(1) pg show ?thesis by (auto simp: LoadSession_def pbind_def prun_def sret_def sget_def)
qed

lemma LoadSession_page:
  assumes "stored_head ve (vaHeads s) (lqID q) = Some h" and tr: "truthful ve (vaBodies s) h mss"
    and "children_held ve (vaHeads s) (lnChildren (sLineage h))" and "lqTranscript q" "\<not> lqIncludeSubagents q"
    and "concat mss = before @ rest" and "lqFrom q = (if before = [] then [] else msgID (hd rest))" and "before \<noteq> [] \<Longrightarrow> rest \<noteq> []"
  shows "\<exists>l t. LoadSession ve q s = Some (Inr l, t) \<and> (ldMessages l, ldMore l, ldNextFrom l) = page_of (lqLimit q) [] rest
     \<and> reads_only s t"
proof (rule LoadSession_transcript [OF assms(1,3-5)])
  fix s1 assume "reads_only s s1"
  then have "truthful ve (vaBodies s1) h mss" using tr by (simp add: reads_only_def)
  from transcript_page [OF this assms(6-8)]
  show "\<exists>t. transcript ve h q s1 = Some (Inr (page_of (lqLimit q) [] rest), t) \<and> reads_only s1 t" .
qed

text \<open>A caller that goes on from where each page says to, at most \<open>n\<close> times.\<close>

fun load_pages :: "nat \<Rightarrow> 'n venv \<Rightarrow> load_request \<Rightarrow> ('n vault, message list list) run" where
  "load_pages 0 ve q = (\<lambda>s. None)"
| "load_pages (Suc n) ve q = pbind (LoadSession ve q) (\<lambda>l.
     if ldMore l then pbind (load_pages n ve (q\<lparr>lqFrom := ldNextFrom l\<rparr>)) (\<lambda>ps. prun (sret (ldMessages l # ps)))
     else prun (sret [ldMessages l]))"

lemma load_pages_rest:
  assumes "stored_head ve (vaHeads s) (lqID q) = Some h" and "truthful ve (vaBodies s) h mss"
    and "children_held ve (vaHeads s) (lnChildren (sLineage h))" and "lqTranscript q" "\<not> lqIncludeSubagents q" and "0 < lqLimit q"
    and "concat mss = before @ rest" and "lqFrom q = (if before = [] then [] else msgID (hd rest))" and "before \<noteq> [] \<Longrightarrow> rest \<noteq> []"
    and "length rest < n"
  shows "\<exists>ps t. load_pages n ve q s = Some (Inr ps, t) \<and> concat ps = rest \<and> ps \<noteq> []
     \<and> (\<forall>p \<in> set (butlast ps). int (length p) = lqLimit q) \<and> int (length (last ps)) \<le> lqLimit q"
  using assms
proof (induction n arbitrary: s q before rest)
  case (Suc n)
  obtain l t where l: "LoadSession ve q s = Some (Inr l, t)" "(ldMessages l, ldMore l, ldNextFrom l) = page_of (lqLimit q) [] rest"
    "reads_only s t" using LoadSession_page [OF Suc.prems(1-5,7-9)] by blast
  show ?case
  proof (cases "length rest \<le> nat (lqLimit q)")
    case True
    then have "ldMessages l = rest" "\<not> ldMore l" using l(2) by (simp_all add: page_of_def)
    then show ?thesis using l(1) True Suc.prems(6) by (simp add: pbind_def prun_def sret_def)
  next
    case False
    let ?k = "nat (lqLimit q)" and ?q = "q\<lparr>lqFrom := ldNextFrom l\<rparr>"
    have p: "ldMessages l = take ?k rest" "ldMore l" "ldNextFrom l = msgID (rest ! ?k)"
      using l(2) False Suc.prems(6) by (simp_all add: page_of_def Let_def)
    have "\<exists>ps t'. load_pages n ve ?q t = Some (Inr ps, t') \<and> concat ps = drop ?k rest \<and> ps \<noteq> []
        \<and> (\<forall>p \<in> set (butlast ps). int (length p) = lqLimit ?q) \<and> int (length (last ps)) \<le> lqLimit ?q"
    proof (rule Suc.IH [where before = "before @ take ?k rest"])
      show "lqFrom ?q = (if before @ take ?k rest = [] then [] else msgID (hd (drop ?k rest)))"
        using p(3) False Suc.prems(6) by (auto simp: hd_drop_conv_nth)
    qed (use Suc.prems l(3) False in \<open>auto simp: reads_only_def\<close>)
    then show ?thesis using l(1) p False Suc.prems(6) by (auto simp: pbind_def prun_def sret_def)
  qed
qed simp

text \<open>C29. Replaying a conversation page by page ends and is complete.  Where the head tells the truth about
  its chunks, this device holds them and no message id occurs twice, a caller that continues from
  \<open>NextFrom\<close> until \<open>More\<close> is false gets every message of the transcript exactly once and in order, however the
  pages fall across the chunks; every page but the last is full; and one call more than there are messages is
  always enough.
\<close>

theorem replay_is_complete:
  assumes "stored_head ve (vaHeads s) i = Some h" and "truthful ve (vaBodies s) h mss"
    and "children_held ve (vaHeads s) (lnChildren (sLineage h))" and "0 < limit"
  shows "\<exists>ps t. load_pages (Suc (length (concat mss))) ve
       \<lparr>lqID = i, lqTranscript = True, lqFrom = [], lqLimit = limit, lqIncludeSubagents = False\<rparr> s = Some (Inr ps, t)
     \<and> concat ps = concat mss \<and> (\<forall>p \<in> set (butlast ps). int (length p) = limit) \<and> int (length (last ps)) \<le> limit"
  using load_pages_rest [of ve s "\<lparr>lqID = i, lqTranscript = True, lqFrom = [], lqLimit = limit, lqIncludeSubagents = False\<rparr>" h mss
    "[]" "concat mss" "Suc (length (concat mss))"] assms by simp blast

text \<open>A session of two chunks on a device that holds both.\<close>

definition say :: "string \<Rightarrow> message" where "say i = hello\<lparr>msgID := i\<rparr>"

definition page_chunk :: "message list \<Rightarrow> chunk" where
  "page_chunk ms = new_chunk 8 (demo_session 7 1) ms"

definition page_ref :: "recid \<Rightarrow> message list \<Rightarrow> chunk_ref" where
  "page_ref i ms = \<lparr>crID = i, crSeq = 0, crFirst = msgID (hd ms), crLast = msgID (last ms), crN = int (length ms),
     crBytes = 1, crCID = []\<rparr>"

definition paged_head :: "message list \<Rightarrow> message list \<Rightarrow> session_head" where
  "paged_head ms ms' = (demo_session 7 1)\<lparr>sChunks := [page_ref 8 ms, page_ref 9 ms']\<rparr>"

definition paged_venv :: "message list \<Rightarrow> message list \<Rightarrow> byte list list venv" where
  "paged_venv ms ms' = demo_venv\<lparr>vnUnmarshalChunk := (\<lambda>b. Inr (page_chunk (if b = [8] then ms else ms'))),
     vnUnmarshalSession := (\<lambda>_. Inr (paged_head ms ms'))\<rparr>"

definition paged_vault :: "byte list list vault" where
  "paged_vault = demo_vault\<lparr>vaBodies := PutBody 0 8 KindChunk [8] (PutBody 0 9 KindChunk [9] []),
     vaHeads := [(7, head_row_of (demo_session 7 1) [])]\<rparr>"

lemma paged_held:
  assumes "ms \<noteq> []" and "ms' \<noteq> []"
  shows "stored_head (paged_venv ms ms') (vaHeads paged_vault) 7 = Some (paged_head ms ms')"
    "list_all2 (ref_holds (paged_venv ms ms') (vaBodies paged_vault)) (sChunks (paged_head ms ms')) [ms, ms']"
    "children_held (paged_venv ms ms') t (lnChildren (sLineage (paged_head ms ms')))"
  using assms
  by (simp_all add: stored_head_def GetSessionHead_def paged_vault_def paged_venv_def row_of_Cons head_row_of_def ref_holds_def
      held_chunk_def GetRecord_def PutBody_def paged_head_def page_ref_def page_chunk_def new_chunk_def children_held_def demo_session_def)

theorem replay_is_complete_witness:
  "\<exists>ps t. load_pages 4 (paged_venv [say ''a'', say ''b''] [say ''c''])
       \<lparr>lqID = 7, lqTranscript = True, lqFrom = [], lqLimit = 2, lqIncludeSubagents = False\<rparr> paged_vault = Some (Inr ps, t)
     \<and> concat ps = [say ''a'', say ''b'', say ''c'']"
proof -
  let ?ve = "paged_venv [say ''a'', say ''b''] [say ''c'']" and ?h = "paged_head [say ''a'', say ''b''] [say ''c'']"
  have "truthful ?ve (vaBodies paged_vault) ?h [[say ''a'', say ''b''], [say ''c'']]"
    using paged_held(2) [of "[say ''a'', say ''b'']" "[say ''c'']"] by (simp add: truthful_def say_def)
  note R = replay_is_complete [OF paged_held(1) this paged_held(3), of 2]
  have e: "Suc (length [say ''a'', say ''b'', say ''c'']) = 4" by simp
  have c: "concat [[say ''a'', say ''b''], [say ''c'']] = [say ''a'', say ''b'', say ''c'']" by simp
  show ?thesis using R [unfolded c e] by simp blast
qed

text \<open>
  Nothing keeps the ids inside a chunk apart from what is appended later: an append is compared with the ends
  of the chunks alone.  A conversation saved so is replayed in a circle, page after page.
\<close>

definition circle_head :: session_head where
  "circle_head = paged_head [say ''a'', say ''x'', say ''b''] [say ''c'', say ''x'', say ''d'']"

definition circle_venv :: "byte list list venv" where
  "circle_venv = paged_venv [say ''a'', say ''x'', say ''b''] [say ''c'', say ''x'', say ''d'']"

definition circle_from :: "string \<Rightarrow> load_request" where
  "circle_from i = \<lparr>lqID = 7, lqTranscript = True, lqFrom = i, lqLimit = 1, lqIncludeSubagents = False\<rparr>"

lemma circle_page:
  assumes "reads_only paged_vault s" and "startChunk circle_head i = k" and "i \<noteq> []"
    and "concat (drop k [[say ''a'', say ''x'', say ''b''], [say ''c'', say ''x'', say ''d'']]) = before @ m # m' # after"
    and "i \<notin> msgID ` set before" and "msgID m = i"
  shows "\<exists>l t. LoadSession circle_venv (circle_from i) s = Some (Inr l, t) \<and> ldMore l \<and> ldNextFrom l = msgID m' \<and> reads_only paged_vault t"
proof -
  have ne: "[say ''a'', say ''x'', say ''b''] \<noteq> []" "[say ''c'', say ''x'', say ''d''] \<noteq> []" by simp_all
  note H = paged_held [OF ne, folded circle_head_def circle_venv_def]
  have b: "vaBodies s = vaBodies paged_vault" "vaHeads s = vaHeads paged_vault" using assms(1) by (simp_all add: reads_only_def)
  have q: "lqID (circle_from i) = 7" "lqTranscript (circle_from i)" "\<not> lqIncludeSubagents (circle_from i)" "lqFrom (circle_from i) = i"
    "lqLimit (circle_from i) = 1" by (simp_all add: circle_from_def)
  have "\<exists>l t. LoadSession circle_venv (circle_from i) s = Some (Inr l, t) \<and> (ldMessages l, ldMore l, ldNextFrom l) = page_of 1 [] (m # m' # after)
    \<and> reads_only s t"
  proof (rule LoadSession_transcript [where h = circle_head])
    fix s1 assume "reads_only s s1"
    then have "list_all2 (ref_holds circle_venv (vaBodies s1)) (drop k (sChunks circle_head))
        (drop k [[say ''a'', say ''x'', say ''b''], [say ''c'', say ''x'', say ''d'']])"
      using list_all2_dropI [OF H(2), of k] b by (simp add: reads_only_def)
    from walk_chunks_from [OF this assms(4,5,6), of 1]
    show "\<exists>t. transcript circle_venv circle_head (circle_from i) s1 = Some (Inr (page_of 1 [] (m # m' # after)), t) \<and> reads_only s1 t"
      using assms(2,3) by (simp add: transcript_def q)
  qed (use H b q in simp_all)
  then show ?thesis using assms(1) by (auto simp: page_of_def Let_def intro: reads_only_trans)
qed

lemma duplicate_id_replays_forever:
  "validateAppend ((demo_session 7 1)\<lparr>sChunks := [page_ref 8 [say ''a'', say ''x'', say ''b'']]\<rparr>) [say ''c'', say ''x'', say ''d''] = Inr ()"
  "reads_only paged_vault s \<Longrightarrow> load_pages n circle_venv (circle_from ''x'') s = None"
proof -
  have "trim_space ''c'' = ''c''" "trim_space ''x'' = ''x''" "trim_space ''d'' = ''d''"
    by (rule trim_space_trimmed, simp add: trimmed_def white_space_def upt_rec)+
  then have v: "Message_Validate (say i) = Inr ()" if "i \<in> {''c'', ''x'', ''d''}" for i
    using that by (elim insertE emptyE) (simp_all add: say_def hello_trimmed hello_def demo_message_def demo_part_def Message_Validate_def
      Role_Valid_def Roles_def MaxMessageIDBytes_def MaxPartsPerMessage_def part_validate.simps PartToolCall_def PartToolResult_def)
  show "validateAppend ((demo_session 7 1)\<lparr>sChunks := [page_ref 8 [say ''a'', say ''x'', say ''b'']]\<rparr>) [say ''c'', say ''x'', say ''d''] = Inr ()"
    using v by (simp add: validateAppend_def boundary_ids_def page_ref_def) (simp add: say_def)
  have next_page: "circle_from i\<lparr>lqFrom := j\<rparr> = circle_from j" for i j by (simp add: circle_from_def)
  have st: "startChunk circle_head ''x'' = 0" "startChunk circle_head ''b'' = 0" "startChunk circle_head ''c'' = 1"
    by (simp_all add: startChunk_def circle_head_def paged_head_def page_ref_def say_def)
  have "\<forall>i \<in> {''x'', ''b'', ''c''}. \<forall>s. reads_only paged_vault s \<longrightarrow> load_pages n circle_venv (circle_from i) s = None"
  proof (induction n)
    case (Suc n)
    have step: "load_pages (Suc n) circle_venv (circle_from i) s = None"
      if "\<exists>l t. LoadSession circle_venv (circle_from i) s = Some (Inr l, t) \<and> ldMore l \<and> ldNextFrom l = j \<and> reads_only paged_vault t"
        "j \<in> {''x'', ''b'', ''c''}" for i j s
      using that Suc.IH by (auto simp: pbind_def next_page)
    show ?case
    proof (intro ballI allI impI)
      fix i s assume s: "i \<in> {''x'', ''b'', ''c''}" "reads_only paged_vault s"
      consider "i = ''x''" | "i = ''b''" | "i = ''c''" using s(1) by blast
      then show "load_pages (Suc n) circle_venv (circle_from i) s = None"
      proof cases
        case 1
        have "\<exists>l t. LoadSession circle_venv (circle_from i) s = Some (Inr l, t) \<and> ldMore l \<and> ldNextFrom l = msgID (say ''b'') \<and> reads_only paged_vault t"
          by (rule circle_page [OF s(2), where k = 0 and before = "[say ''a'']" and m = "say ''x''" and after = "[say ''c'', say ''x'', say ''d'']"])
             (use 1 st in \<open>simp_all add: say_def\<close>)
        then show ?thesis by (rule step) (simp add: say_def)
      next
        case 2
        have "\<exists>l t. LoadSession circle_venv (circle_from i) s = Some (Inr l, t) \<and> ldMore l \<and> ldNextFrom l = msgID (say ''c'') \<and> reads_only paged_vault t"
          by (rule circle_page [OF s(2), where k = 0 and before = "[say ''a'', say ''x'']" and m = "say ''b''" and after = "[say ''x'', say ''d'']"])
             (use 2 st in \<open>simp_all add: say_def\<close>)
        then show ?thesis by (rule step) (simp add: say_def)
      next
        case 3
        have "\<exists>l t. LoadSession circle_venv (circle_from i) s = Some (Inr l, t) \<and> ldMore l \<and> ldNextFrom l = msgID (say ''x'') \<and> reads_only paged_vault t"
          by (rule circle_page [OF s(2), where k = 1 and before = "[]" and m = "say ''c''" and after = "[say ''d'']"])
             (use 3 st in \<open>simp_all add: say_def\<close>)
        then show ?thesis by (rule step) (simp add: say_def)
      qed
    qed
  qed simp
  then show "reads_only paged_vault s \<Longrightarrow> load_pages n circle_venv (circle_from ''x'') s = None" by blast
qed

end
