(* ===== verification/VaultRemember.thy ===== *)
theory VaultRemember
  imports VaultSession
begin

text \<open>
  \<open>Remember\<close> of \<open>vault/remember.go\<close>: storing a memory on this device, queueing it for the network, linking it to
  the conversation it came from, and the advice that is returned with it.
\<close>

section \<open>Requests and results\<close>

record remember_request =
  rbStatement :: string
  rbContext :: string
  rbType :: string
  rbTags :: "string list"
  rbSource :: source
  rbSupersedes :: "recid option"
  rbImportance :: gofloat
  rbConfidence :: gofloat
  rbLinks :: "string list"
  rbValidFrom :: "gotime option"
  rbValidUntil :: "gotime option"
  rbEntities :: "entity list"
  rbKeywords :: "string list"

record remember_result =
  rsID :: recid
  rsCID :: cid
  rsStored :: gotime
  rsOnNetwork :: bool
  rsFlushed :: "flush option"
  rsNeighbours :: "neighbour list"
  rsConflicts :: "neighbour list"
  rsTags :: tag_advice
  rsLinkedSession :: "recid option"

section \<open>Storing a memory\<close>

definition new_memory :: "'n venv \<Rightarrow> remember_request \<Rightarrow> recid \<Rightarrow> memory" where
  "new_memory ve q i = \<lparr>mID = i, mKind = KindMemory, mType = rbType q, mSchemaVersion = SchemaVersion, mVersion = 1,
     mStatement = rbStatement q, mContext = rbContext q, mKeywords = rbKeywords q,
     mTags = NormalizeTags (vnText ve) (rbTags q), mEntities = rbEntities q,
     mCreatedAt = stamp (vnNow ve), mUpdatedAt = stamp (vnNow ve), mValidFrom = rbValidFrom q, mValidUntil = rbValidUntil q,
     mLastRecalledAt = None, mRecallCount = 0, mImportance = rbImportance q, mConfidence = rbConfidence q,
     mSupersedes = rbSupersedes q, mSupersededBy = None, mLinks = rbLinks q, mSource = rbSource q,
     mEmbedding = vault_embedding ve\<rparr>"

text \<open>A supersession has to name a record the vault knows.\<close>

definition check_supersedes :: "memory \<Rightarrow> 'n vault \<Rightarrow> unit res" where
  "check_supersedes m s = (case mSupersedes m of None \<Rightarrow> Inr ()
     | Some old \<Rightarrow> (case RankingMetaFor (vaRanking s) old of Inl e \<Rightarrow> Inl (wrap_err ''supersede: '' e) | Inr _ \<Rightarrow> Inr ()))"

definition link_source :: "'n venv \<Rightarrow> memory \<Rightarrow> ('n vault, recid option) step" where
  "link_source ve m =
    (if srcSessionID (mSource m) = [] then sret None
     else case ParseID (srcSessionID (mSource m)) of
       Inl e \<Rightarrow> sfail (wrap_err ''memory source: '' e)
     | Inr i \<Rightarrow> sbind (LinkMemory ve i (mID m)) (\<lambda>_. sret (Some i)))"

text \<open>What is held on this device and owed to the network before the call goes on.\<close>

definition store_memory :: "'n venv \<Rightarrow> memory \<Rightarrow> f32 list \<Rightarrow> ('n vault, cid \<times> presult) step" where
  "store_memory ve m vector =
    sbind (slift (vnMarshal ve m)) (\<lambda>body.
    sbind (seal_body ve (mID m) KindMemory body) (\<lambda>(k, framed).
    sbind (put_body ve (mID m) KindMemory body) (\<lambda>_.
    sbind (putVector ve (mID m) vector) (\<lambda>_.
    sbind (put_meta ve (rankingMeta m)) (\<lambda>_.
    sbind (queue_blob ve (mID m) KindMemory k framed) (\<lambda>flushed. sret (k, flushed)))))))"

definition Remember :: "'n venv \<Rightarrow> remember_request \<Rightarrow> ('n vault, remember_result) step" where
  "Remember ve q =
    sbind (NewID ve) (\<lambda>i.
    sbind (slift (Memory_Validate (new_memory ve q i))) (\<lambda>_.
    sbind (\<lambda>s. (check_supersedes (new_memory ve q i) s, s)) (\<lambda>_.
    sbind (slift (vnEmbed ve (Memory_IndexText (new_memory ve q i)))) (\<lambda>vector.
    sbind (store_memory ve (new_memory ve q i) vector) (\<lambda>(k, flushed).
    sbind (link_source ve (new_memory ve q i)) (\<lambda>linked.
    sbind (\<lambda>s. (neighbours ve s i vector, s)) (\<lambda>near.
    sbind (sget (\<lambda>s. tagAdvice ve s (mTags (new_memory ve q i)))) (\<lambda>advice.
    let written = list_ex (\<lambda>w. wrCID w = CID_String k) (fWritten (prFlush flushed)) in
      sret \<lparr>rsID = i, rsCID = k, rsStored = stamp (vnNow ve), rsOnNetwork = written,
        rsFlushed = (if written then Some (prFlush flushed) else None), rsNeighbours = near,
        rsConflicts = filter nbConflict near, rsTags = advice, rsLinkedSession = linked\<rparr>))))))))"

section \<open>What an answered write leaves\<close>

definition on_shelf :: "'n vault \<Rightarrow> bodies \<times> packer \<times> manifest \<times> index \<times> ranking_db" where
  "on_shelf s = (vaBodies s, vaPacker s, vaManifest s, vaIndex s, vaRanking s)"

lemma keeps_on_shelf_link: "keeps on_shelf (link_source ve m)"
proof -
  have h: "keeps on_shelf (put_head ve h from)" for h "from"
    by (rule keepsI) (auto simp: put_head_def sbind_def slift_def on_heads_def on_shelf_def split: sum.splits prod.splits)
  have "keeps on_shelf (Vault_Session ve i)" for i
    by (rule keepsI) (simp add: Vault_Session_def vault_session_def on_shelf_def split: sum.split prod.split)
  then have "keeps on_shelf (LinkMemory ve i j)" for i j
    unfolding LinkMemory_def reviseHead_def using h by (intro keeps_sbind) auto
  then show ?thesis unfolding link_source_def by (auto intro: keeps_sbind split: sum.split)
qed

text \<open>Decoding a memory undoes encoding it, for times in whole milliseconds and texts in valid UTF-8, as for the codecs of a session.\<close>

definition memory_codec :: "'n venv \<Rightarrow> bool" where
  "memory_codec ve \<longleftrightarrow> (\<forall>m body. vnMarshal ve m = Inr body \<longrightarrow> vnUnmarshal ve body = Inr m)"

lemma Remember_Inr:
  assumes "Remember ve q s = (Inr r, t)"
  obtains s1 vector flushed s2 linked where "NewID ve s = (Inr (rsID r), s1)"
    "store_memory ve (new_memory ve q (rsID r)) vector s1 = (Inr (rsCID r, flushed), s2)"
    "link_source ve (new_memory ve q (rsID r)) s2 = (Inr linked, t)"
    "rsOnNetwork r = list_ex (\<lambda>w. wrCID w = CID_String (rsCID r)) (fWritten (prFlush flushed))"
    "rsTags r = tagAdvice ve t (mTags (new_memory ve q (rsID r)))"
  using assms
  by (fastforce simp: Remember_def sbind_Inr_iff slift_def sget_def sret_def Let_def)

text \<open>The random source yields nonces of the cipher's size, and no body is longer than a frame can say.\<close>

definition seals_well :: "'n venv \<Rightarrow> byte list \<Rightarrow> bool" where
  "seals_well ve body \<longleftrightarrow> crypto_ok (vnCrypto ve) \<and> (\<forall>n b. vnRand ve n NonceSize = Inr b \<longrightarrow> length b = NonceSize)
     \<and> length (cZstdEnc (vnCrypto ve) body) + Overhead + 21 < 2 ^ 64"

lemma seal_body_opens:
  assumes "seal_body ve i k body s = (Inr (c, framed), t)" and w: "seals_well ve body"
  shows "openBody ve i framed = Inr body" and "t = s\<lparr>vaDrawn := vaDrawn s + 1\<rparr>"
proof -
  obtain sealed where seal: "Seal (vnCrypto ve) (vnSealer ve) (vnRand ve (vaDrawn s) NonceSize) body = Inr sealed"
    and frame: "FrameRecord k i sealed = Inr framed" and t: "t = s\<lparr>vaDrawn := vaDrawn s + 1\<rparr>"
    using assms(1) by (auto simp: seal_body_def draw_def sbind_Inr_iff slift_def sret_def)
  obtain nonce where n: "vnRand ve (vaDrawn s) NonceSize = Inr nonce"
    using seal by (cases "vnRand ve (vaDrawn s) NonceSize") (simp_all add: Seal_def)
  have l: "length nonce = NonceSize" and c: "crypto_ok (vnCrypto ve)" using w n by (auto simp: seals_well_def)
  have "length sealed + 21 < 2 ^ 64" using Open_Seal(2) [OF c l seal [unfolded n]] w by (simp add: seals_well_def)
  then show "openBody ve i framed = Inr body" by (rule openBody_sealed [OF c l seal [unfolded n] frame])
  show "t = s\<lparr>vaDrawn := vaDrawn s + 1\<rparr>" by (rule t)
qed

lemma putVector_Index_Has:
  assumes "putVector ve i v s = (Inr u, t)"
  shows "Index_Has (vaIndex t) i"
proof -
  obtain x s1 y s2 where s2: "on_index (Index_Add i (vnModel ve) v) s1 = (Inr y, s2)"
    "sbind (smod (\<lambda>s. s\<lparr>vaHealth := (vaHealth s)\<lparr>ihIndexed := ihIndexed (vaHealth s) + 1\<rparr>\<rparr>)) (\<lambda>_. compactVectorsIfDue ve) s2 = (Inr u, t)"
    using assms by (auto simp: putVector_def sbind_Inr_iff)
  have "vaIndex t = vaIndex s2"
    using s2(2) by (auto simp: sbind_Inr_iff smod_def compactVectorsIfDue_def read_and_compact_def on_vectors_def split: if_splits prod.splits)
  moreover have "Index_Has (vaIndex s2) i"
    using s2(1) by (auto simp: on_index_def Index_Add_def Index_Has_def split: if_splits option.splits prod.splits)
  ultimately show ?thesis by simp
qed

lemma store_memory_Inr:
  assumes "store_memory ve m vector s = (Inr (k, flushed), t)" and ok: "queue_ok (pkQueue (vaPacker s))"
    and new: "queued (pkQueue (vaPacker s)) (mID m) = None" and w: "\<And>body. vnMarshal ve m = Inr body \<Longrightarrow> seals_well ve body"
  obtains body framed where "vnMarshal ve m = Inr body" "openBody ve (mID m) framed = Inr body"
    "vaBodies t = PutBody (vnNow ve) (mID m) KindMemory body (vaBodies s)" "Index_Has (vaIndex t) (mID m)"
    "vaRanking t = PutRankingMeta (vnText ve) (vnNow ve) (rankingMeta m) (vaRanking s)"
    "queued (pkQueue (vaPacker t)) (mID m) = Some (CID_String k, framed) \<or> in_catalog (vaManifest t) (mID m)"
    "list_ex (\<lambda>w. wrCID w = CID_String k) (fWritten (prFlush flushed)) \<Longrightarrow> in_catalog (vaManifest t) (mID m)"
proof -
  obtain body framed s1 s3 u where body: "vnMarshal ve m = Inr body"
    and s1: "seal_body ve (mID m) KindMemory body s = (Inr (k, framed), s1)"
    and s3: "putVector ve (mID m) vector (s1\<lparr>vaBodies := PutBody (vnNow ve) (mID m) KindMemory body (vaBodies s1)\<rparr>) = (Inr u, s3)"
    and qb: "queue_blob ve (mID m) KindMemory k framed
        (s3\<lparr>vaRanking := PutRankingMeta (vnText ve) (vnNow ve) (rankingMeta m) (vaRanking s3)\<rparr>) = (Inr flushed, t)"
    using assms(1) by (auto simp: store_memory_def sbind_Inr_iff slift_def put_body_def put_meta_def smod_def sret_def)
  note S = seal_body_opens [OF s1 w [OF body]]
  have d: "on_device s3 = on_device (s1\<lparr>vaBodies := PutBody (vnNow ve) (mID m) KindMemory body (vaBodies s1)\<rparr>)"
    "owing_drawn s3 = owing_drawn (s1\<lparr>vaBodies := PutBody (vnNow ve) (mID m) KindMemory body (vaBodies s1)\<rparr>)"
    by (simp_all add: keeps_step [OF keeps_device_putVector s3] keeps_step [OF keeps_owing_drawn_putVector s3])
  have rk: "vaRanking s3 = vaRanking s1"
    using s3 by (auto simp: putVector_def sbind_Inr_iff smod_def on_vectors_def on_index_def compactVectorsIfDue_def read_and_compact_def
        split: if_splits prod.splits)
  let ?s4 = "s3\<lparr>vaRanking := PutRankingMeta (vnText ve) (vnNow ve) (rankingMeta m) (vaRanking s3)\<rparr>"
  have ow: "vaPacker ?s4 = vaPacker s" using d(2) S(2) by (simp add: owing_drawn_def)
  have ok4: "queue_ok (pkQueue (vaPacker ?s4))" and new4: "queued (pkQueue (vaPacker ?s4)) (mID m) = None"
    using ok new ow by simp_all
  have off: "off_network t = off_network ?s4" by (rule keeps_step [OF keeps_queue_blob qb])
  show thesis
  proof (rule that [OF body S(1)])
    show "vaBodies t = PutBody (vnNow ve) (mID m) KindMemory body (vaBodies s)"
      using off d(1) S(2) by (simp add: off_network_def on_device_def)
    show "Index_Has (vaIndex t) (mID m)" using off putVector_Index_Has [OF s3] by (simp add: off_network_def)
    show "vaRanking t = PutRankingMeta (vnText ve) (vnNow ve) (rankingMeta m) (vaRanking s)"
      using off rk S(2) by (simp add: off_network_def)
    show "queued (pkQueue (vaPacker t)) (mID m) = Some (CID_String k, framed) \<or> in_catalog (vaManifest t) (mID m)"
      using queue_blob_owed(1) [OF qb ok4] by (auto simp: written_to_def in_catalog_def)
    show "list_ex (\<lambda>w. wrCID w = CID_String k) (fWritten (prFlush flushed)) \<Longrightarrow> in_catalog (vaManifest t) (mID m)"
      using queue_blob_owed(2) [OF qb ok4 new4]
      by (cases "fWritten (prFlush flushed) = []") (auto simp: written_to_def in_catalog_def)
  qed
qed

lemma Remember_held:
  assumes "Remember ve q s = (Inr r, t)" and "queue_ok (pkQueue (vaPacker s))"
    and new: "\<And>i. drawn_id ve (vaDrawn s) = Some i \<Longrightarrow> queued (pkQueue (vaPacker s)) i = None \<and> row_of (vaBodies s) i = None"
    and w: "\<And>body. vnMarshal ve (new_memory ve q (rsID r)) = Inr body \<Longrightarrow> seals_well ve body"
  shows "\<exists>body. vnMarshal ve (new_memory ve q (rsID r)) = Inr body \<and> GetRecord (vaBodies t) (rsID r) = Inr (KindMemory, body)
     \<and> Index_Has (vaIndex t) (rsID r) \<and> (\<exists>m. RankingMetaFor (vaRanking t) (rsID r) = Inr m)
     \<and> ((\<exists>framed. queued (pkQueue (vaPacker t)) (rsID r) = Some (CID_String (rsCID r), framed) \<and> openBody ve (rsID r) framed = Inr body)
        \<or> in_catalog (vaManifest t) (rsID r))
     \<and> (rsOnNetwork r \<longrightarrow> in_catalog (vaManifest t) (rsID r))"
proof -
  obtain s1 vector flushed s2 linked where R: "NewID ve s = (Inr (rsID r), s1)"
    "store_memory ve (new_memory ve q (rsID r)) vector s1 = (Inr (rsCID r, flushed), s2)"
    "link_source ve (new_memory ve q (rsID r)) s2 = (Inr linked, t)"
    "rsOnNetwork r = list_ex (\<lambda>w. wrCID w = CID_String (rsCID r)) (fWritten (prFlush flushed))"
    using assms(1) by (rule Remember_Inr)
  let ?m = "new_memory ve q (rsID r)"
  have id: "mID ?m = rsID r" by (simp add: new_memory_def)
  have dr: "drawn_id ve (vaDrawn s) = Some (rsID r)" "s1 = s\<lparr>vaDrawn := vaDrawn s + 1\<rparr>"
    using R(1) by (auto simp: NewID_def draw_def sbind_Inr_iff slift_def drawn_id_def split: sum.splits)
  have ok: "queue_ok (pkQueue (vaPacker s1))" and n: "queued (pkQueue (vaPacker s1)) (mID ?m) = None"
    using assms(2) new [OF dr(1)] dr(2) id by simp_all
  obtain body framed where S: "vnMarshal ve ?m = Inr body" "openBody ve (mID ?m) framed = Inr body"
    "vaBodies s2 = PutBody (vnNow ve) (mID ?m) KindMemory body (vaBodies s1)" "Index_Has (vaIndex s2) (mID ?m)"
    "vaRanking s2 = PutRankingMeta (vnText ve) (vnNow ve) (rankingMeta ?m) (vaRanking s1)"
    "queued (pkQueue (vaPacker s2)) (mID ?m) = Some (CID_String (rsCID r), framed) \<or> in_catalog (vaManifest s2) (mID ?m)"
    "list_ex (\<lambda>w. wrCID w = CID_String (rsCID r)) (fWritten (prFlush flushed)) \<Longrightarrow> in_catalog (vaManifest s2) (mID ?m)"
    by (rule store_memory_Inr [OF R(2) ok n w]) blast+
  have "GetRecord (vaBodies s) (rsID r) = Inl (GoErr [ErrLocalNotFound] ''body'')" using new [OF dr(1)] by (simp add: GetRecord_def)
  from GetRecord_PutBody(1) [OF this] have g: "GetRecord (vaBodies s2) (rsID r) = Inr (KindMemory, body)"
    using S(3) id dr(2) by simp
  have m: "\<exists>m. RankingMetaFor (vaRanking s2) (rsID r) = Inr m"
    using S(5) id by (simp add: RankingMetaFor_def PutRankingMeta_def putLexical_def Let_def rankingMeta_def)
  have "on_shelf t = on_shelf s2" by (rule keeps_step [OF keeps_on_shelf_link R(3)])
  then show ?thesis using S g m R(4) id by (auto simp: on_shelf_def)
qed

text \<open>C30. A memory that was remembered is held here and owed to the network.  When \<open>Remember\<close> answers, this device
  holds the body of the record it describes under the id it reports, the index has its vector and recall its
  ranking metadata; and the record either waits in the write queue as a blob which opens to that very body
  under that id, or is catalogued on the network.  \<open>OnNetwork\<close> is said only of a record that is catalogued.
  The id drawn must be new.
\<close>

theorem remembered_is_held_and_owed:
  assumes "Remember ve q s = (Inr r, t)" and "queue_ok (pkQueue (vaPacker s))"
    and new: "\<And>i. drawn_id ve (vaDrawn s) = Some i \<Longrightarrow> queued (pkQueue (vaPacker s)) i = None \<and> row_of (vaBodies s) i = None"
    and w: "\<And>body. vnMarshal ve (new_memory ve q (rsID r)) = Inr body \<Longrightarrow> seals_well ve body"
  shows "\<exists>body. vnMarshal ve (new_memory ve q (rsID r)) = Inr body \<and> GetRecord (vaBodies t) (rsID r) = Inr (KindMemory, body)
     \<and> Index_Has (vaIndex t) (rsID r) \<and> (\<exists>m. RankingMetaFor (vaRanking t) (rsID r) = Inr m)
     \<and> ((\<exists>framed. queued (pkQueue (vaPacker t)) (rsID r) = Some (CID_String (rsCID r), framed) \<and> openBody ve (rsID r) framed = Inr body)
        \<or> in_catalog (vaManifest t) (rsID r))
     \<and> (rsOnNetwork r \<longrightarrow> in_catalog (vaManifest t) (rsID r))"
  by (rule Remember_held [OF assms])

section \<open>The advice on tags\<close>

text \<open>
  The advice is taken after the record's own tags were filed, so that every tag it reports has at least this
  record: \<open>New\<close>, the mark of a tag that no record carries yet, is never set.
\<close>

lemma put_meta_uses:
  assumes "t \<in> set (NormalizeTags tx (rmTags m))"
  shows "tag_uses (PutRankingMeta tx now m db) t \<noteq> 0"
proof -
  have "(rmID m, t) \<in> set (rdTags (PutRankingMeta tx now m db))"
    using assms by (simp add: PutRankingMeta_def Let_def set_insert_tags)
  then show ?thesis by (auto simp: tag_uses_def filter_empty_conv)
qed

lemma store_memory_ranking:
  assumes "store_memory ve m vector s = (Inr x, t)"
  shows "\<exists>db. vaRanking t = PutRankingMeta (vnText ve) (vnNow ve) (rankingMeta m) db"
proof -
  obtain k framed flushed s3 where qb: "queue_blob ve (mID m) KindMemory k framed
        (s3\<lparr>vaRanking := PutRankingMeta (vnText ve) (vnNow ve) (rankingMeta m) (vaRanking s3)\<rparr>) = (Inr flushed, t)"
    using assms by (auto simp: store_memory_def sbind_Inr_iff slift_def put_body_def put_meta_def smod_def sret_def)
  show ?thesis using keeps_step [OF keeps_queue_blob qb] by (auto simp: off_network_def)
qed

lemma Remember_tags_never_new:
  assumes "Remember ve q s = (Inr r, t)"
  shows "\<forall>x\<in>set (taTags (rsTags r)). \<not> tgNew x"
proof -
  let ?m = "new_memory ve q (rsID r)"
  obtain s1 vector flushed s2 linked where R: "store_memory ve ?m vector s1 = (Inr (rsCID r, flushed), s2)"
    "link_source ve ?m s2 = (Inr linked, t)" "rsTags r = tagAdvice ve t (mTags ?m)"
    by (rule Remember_Inr [OF assms]) (rule that)
  obtain db where db: "vaRanking s2 = PutRankingMeta (vnText ve) (vnNow ve) (rankingMeta ?m) db"
    using store_memory_ranking [OF R(1)] by blast
  have "vaRanking t = vaRanking s2" using keeps_step [OF keeps_on_shelf_link R(2)] by (simp add: on_shelf_def)
  then show ?thesis
    using put_meta_uses [of _ "vnText ve" "rankingMeta ?m"] db
    by (auto simp: R(3) tagAdvice_def TagFrequencies_def specificity_def rankingMeta_def)
qed

section \<open>A first memory\<close>

definition note_request :: remember_request where
  "note_request = \<lparr>rbStatement = ''s'', rbContext = ''c'', rbType = ''fact'', rbTags = [],
     rbSource = \<lparr>srcOrigin = [], srcSessionID = [], srcSpan = [], srcClient = []\<rparr>, rbSupersedes = None,
     rbImportance = Fin 0, rbConfidence = Fin 1, rbLinks = [], rbValidFrom = None, rbValidUntil = None,
     rbEntities = [], rbKeywords = []\<rparr>"

definition first_memory :: memory where
  "first_memory = new_memory hello_venv note_request (demo_id 0)"

lemma first_memory_sel:
  "mID first_memory = demo_id 0" "mKind first_memory = KindMemory" "mSchemaVersion first_memory = SchemaVersion"
  "mType first_memory = ''fact''" "mStatement first_memory = ''s''" "mContext first_memory = ''c''" "mTags first_memory = []"
  "mImportance first_memory = Fin 0" "mConfidence first_memory = Fin 1" "mValidFrom first_memory = None"
  "mSupersedes first_memory = None" "srcSessionID (mSource first_memory) = []"
  by (simp_all add: first_memory_def new_memory_def note_request_def NormalizeTags_def)

lemma first_memory_valid: "Memory_Validate first_memory = Inr ()"
proof -
  have "trim_space ''s'' = ''s''" "trim_space ''c'' = ''c''"
    by (rule trim_space_trimmed, simp add: trimmed_def white_space_def upt_rec)+
  then show ?thesis
    by (simp add: Memory_Validate_def first_memory_sel ID_IsZero_def demo_id_distinct [simplified] SchemaVersion_def
        Type_Valid_def Types_def MaxStatementBytes_def MaxContextBytes_def tag_checks_def)
qed

lemma first_is_hello: "first_memory = hello_memory"
  by (simp add: first_memory_def new_memory_def hello_memory_def note_request_def NormalizeTags_def hello_sel vault_embedding_def)
    (simp add: demo_venv_def)

lemma first_marshal: "vnMarshal hello_venv first_memory = Inr (ID_bytes (mID first_memory))"
  by (simp add: first_is_hello hello_venv_def)

lemma hello_marshal_Inr: "vnMarshal hello_venv m = Inr body \<Longrightarrow> m = hello_memory \<and> body = ID_bytes (demo_id 0)"
  by (auto simp: hello_venv_def hello_memory_def split: if_splits)

lemma hello_memory_codec: "memory_codec hello_venv"
proof -
  have u: "vnUnmarshal hello_venv b = Inr hello_memory" for b by (simp add: hello_venv_def)
  show ?thesis unfolding memory_codec_def u using hello_marshal_Inr by metis
qed

lemma first_seal:
  "\<exists>framed. seal_body hello_venv i KindMemory body s =
     (Inr (Sealer_CID plain_crypto \<lparr>slRecord = [], slContent = []\<rparr> body, framed), s\<lparr>vaDrawn := vaDrawn s + 1\<rparr>)"
  by (simp add: seal_body_def draw_def step_defs hello_sel Seal_def FrameRecord_def kindCode_def Let_def)

lemma first_vector:
  assumes "vaVectors s = empty_store" and "vaIndex s = Index_New ''m'' 1"
  shows "\<exists>t. putVector hello_venv i [0x3F800000] s = (Inr (), t) \<and> vaPacker t = vaPacker s \<and> ixDim (vaIndex t) = 1"
proof -
  obtain st where st: "Store_Append demo_vsealer io_ok [\<lparr>veID = i, veModel = ''m'', veDim = 1, veVector = [0x3F800000]\<rparr>] empty_store
    = (Inr (), st)" "\<not> Store_dueForCompaction st" using hello_vector by blast
  obtain ix where ix: "Index_Add i ''m'' [0x3F800000] (Index_New ''m'' 1) = (Inr (), ix)" "ixDim ix = 1"
    by (simp add: Index_Add_def Index_New_def)
  show ?thesis
    using st ix assms by (simp add: sbind_def putVector_def on_vectors_def hello_sel on_index_def smod_def compactVectorsIfDue_def)
qed

lemma first_store:
  "\<exists>k flushed t. store_memory hello_venv first_memory [0x3F800000] (demo_vault\<lparr>vaDrawn := 1\<rparr>) = (Inr (k, flushed), t)
     \<and> ixDim (vaIndex t) = 1"
proof -
  let ?b = "ID_bytes (demo_id 0)"
  let ?s = "demo_vault\<lparr>vaDrawn := 2, vaBodies := PutBody 1000000 (demo_id 0) KindMemory ?b []\<rparr>"
  obtain framed where f: "seal_body hello_venv (demo_id 0) KindMemory ?b (demo_vault\<lparr>vaDrawn := 1\<rparr>) =
     (Inr (Sealer_CID plain_crypto \<lparr>slRecord = [], slContent = []\<rparr> ?b, framed), demo_vault\<lparr>vaDrawn := 2\<rparr>)"
    using first_seal [of "demo_id 0" ?b "demo_vault\<lparr>vaDrawn := 1\<rparr>"] by auto
  have b: "put_body hello_venv (demo_id 0) KindMemory ?b (demo_vault\<lparr>vaDrawn := 2\<rparr>) = (Inr (), ?s)"
    by (simp add: put_body_def smod_def hello_sel demo_vault_def)
  obtain u where u: "putVector hello_venv (demo_id 0) [0x3F800000] ?s = (Inr (), u)" "vaPacker u = demo_packer" "ixDim (vaIndex u) = 1"
    using first_vector [of ?s "demo_id 0"] by (auto simp: demo_vault_def)
  let ?u = "u\<lparr>vaRanking := PutRankingMeta demo_text 1000000 (rankingMeta first_memory) (vaRanking u)\<rparr>"
  have m: "put_meta hello_venv (rankingMeta first_memory) u = (Inr (), ?u)"
    by (simp add: put_meta_def smod_def hello_sel)
  have pk: "vaPacker ?u = demo_packer" using u(2) by simp
  obtain p where p: "queue_blob hello_venv (demo_id 0) KindMemory (Sealer_CID plain_crypto \<lparr>slRecord = [], slContent = []\<rparr> ?b) framed ?u
      = (Inr no_result, ?u\<lparr>vaPacker := p\<rparr>)"
    using hello_queue [OF pk] by blast
  show ?thesis
    by (simp add: store_memory_def sbind_def slift_def sret_def first_marshal first_memory_sel f [simplified] b u [simplified] m p)
qed

lemma first_run: "\<exists>r t. Remember hello_venv note_request demo_vault = (Inr r, t)"
proof -
  obtain k flushed t where st: "store_memory hello_venv first_memory [0x3F800000] (demo_vault\<lparr>vaDrawn := 1\<rparr>) = (Inr (k, flushed), t)"
    "ixDim (vaIndex t) = 1" using first_store by blast
  have n: "NewID hello_venv demo_vault = (Inr (demo_id 0), demo_vault\<lparr>vaDrawn := 1\<rparr>)"
    by (simp add: NewID_def draw_def step_defs hello_sel demo_id_def demo_vault_def)
  have c: "check_supersedes first_memory w = Inr ()" "link_source hello_venv first_memory w = (Inr None, w)" for w
    by (simp_all add: check_supersedes_def link_source_def first_memory_sel sret_def)
  obtain ms where "Index_Search (vaIndex t) [0x3F800000] (int NeighbourLimit + 1) = Inr ms"
    using st(2) by (simp add: Index_Search_def Let_def)
  then obtain near where near: "neighbours hello_venv t (demo_id 0) [0x3F800000] = Inr near"
    by (simp add: neighbours_def Let_def)
  show ?thesis
    by (simp add: Remember_def sbind_def n first_memory_def [symmetric] slift_def first_memory_valid c hello_sel st(1) [simplified] near
        sget_def sret_def Let_def)
qed

theorem remembered_is_held_and_owed_witness:
  "\<exists>r t. Remember hello_venv note_request demo_vault = (Inr r, t)
     \<and> (\<exists>body. GetRecord (vaBodies t) (rsID r) = Inr (KindMemory, body)) \<and> Index_Has (vaIndex t) (rsID r)"
proof -
  obtain r t where r: "Remember hello_venv note_request demo_vault = (Inr r, t)" using first_run by blast
  have "queued (pkQueue (vaPacker demo_vault)) i = None \<and> row_of (vaBodies demo_vault) i = None" 
    if "drawn_id hello_venv (vaDrawn demo_vault) = Some i" for i
    using that demo_id_not_3 [of 0]
    by (auto simp: drawn_id_def hello_sel demo_vault_def demo_packer_def Enqueue_def queued_def row_of_Cons demo_blob_def demo_id_def)
  moreover have "seals_well hello_venv body" if "vnMarshal hello_venv m = Inr body" for m body
    using that plain_crypto_ok
    by (auto simp: seals_well_def hello_sel ID_bytes_def plain_crypto_def Overhead_def NonceSize_def TagSize_def dest!: hello_marshal_Inr)
  moreover have "queue_ok (pkQueue (vaPacker demo_vault))" using demo_packer_ok by (simp add: demo_vault_def)
  ultimately show ?thesis using remembered_is_held_and_owed [OF r] r by blast
qed

end
