(* ===== verification/VaultRebuild.thy ===== *)
theory VaultRebuild
  imports VaultReplay VaultRemember
begin

text \<open>
  \<open>vault/rebuild.go\<close>: session heads put together again from the transcript chunks, with an account, field by
  field, of where each value came from.
\<close>

section \<open>Where a field came from\<close>

datatype field_origin = OriginChunk | OriginDerived | OriginObserved | OriginReverse | OriginSynthesised | OriginLost

type_synonym origins = "string \<rightharpoonup> field_origin"

definition HeadFields :: "string list" where
  "HeadFields = [''id'', ''schema'', ''schemaVersion'', ''version'', ''title'', ''summary'', ''tags'', ''project'',
     ''created'', ''updated'', ''archived'', ''agent'', ''agentRef'', ''models'', ''counts.messages'', ''counts.chunks'',
     ''counts.bytes'', ''counts.tokens'', ''counts.durationMs'', ''kind'', ''lineage'', ''headMessage'', ''preservedTail'',
     ''chunks'', ''links.memories'', ''embedding'']"

fun originRank :: "field_origin \<Rightarrow> nat" where
  "originRank OriginChunk = 0"
| "originRank OriginDerived = 1"
| "originRank OriginObserved = 2"
| "originRank OriginReverse = 3"
| "originRank OriginSynthesised = 4"
| "originRank OriginLost = 5"

text \<open>The loop ranges over a map; no field depends on another, so the merge is taken field by field.\<close>

definition mergeOrigins :: "origins \<Rightarrow> origins \<Rightarrow> origins" where
  "mergeOrigins into other = (\<lambda>f. case other f of None \<Rightarrow> into f | Some x \<Rightarrow>
     (case into f of None \<Rightarrow> Some x | Some e \<Rightarrow> if originRank e < originRank x then Some x else Some e))"

record rebuilt_head =
  bhSession :: session_head
  bhOrigins :: origins
  bhChunks :: int
  bhMessages :: int
  bhExisting :: bool

record rebuild_request =
  bqOverwrite :: bool
  bqEmbed :: bool

record rebuild_report =
  bpChunks :: int
  bpSessions :: int
  bpStored :: int
  bpSkipped :: int
  bpGaps :: int
  bpUnreadable :: int
  bpHeads :: "rebuilt_head list"
  bpOrigins :: origins

section \<open>The records a vault can reach\<close>

definition recordIDs :: "'n vault \<Rightarrow> kind \<Rightarrow> recid list" where
  "recordIDs s k = distinct_keys [] (map enID (filter (\<lambda>e. enKind e = k) (Manifest_Entries (vaManifest s)))
     @ BodyIDsOfKind (vaBodies s) k)"

definition chunkIDs :: "'n vault \<Rightarrow> recid list" where
  "chunkIDs s = recordIDs s KindChunk"

text \<open>Chunks are filed under the session they name; a chunk that cannot be read costs itself.\<close>

record chunk_groups =
  cgGroups :: "recid \<Rightarrow> chunk list"
  cgOrder :: "recid list"
  cgChunks :: int
  cgUnreadable :: int

definition no_groups :: chunk_groups where
  "no_groups = \<lparr>cgGroups = \<lambda>_. [], cgOrder = [], cgChunks = 0, cgUnreadable = 0\<rparr>"

definition file_chunk :: "chunk \<Rightarrow> chunk_groups \<Rightarrow> chunk_groups" where
  "file_chunk c g = (if ID_IsZero (chSession c) then g
     else g\<lparr>cgGroups := (cgGroups g)(chSession c := cgGroups g (chSession c) @ [c]),
       cgOrder := (if cgGroups g (chSession c) = [] then cgOrder g @ [chSession c] else cgOrder g),
       cgChunks := cgChunks g + 1\<rparr>)"

fun gather_chunks :: "'n venv \<Rightarrow> recid list \<Rightarrow> chunk_groups \<Rightarrow> ('n vault, chunk_groups) run" where
  "gather_chunks ve [] g s = Some (Inr g, s)"
| "gather_chunks ve (i # is) g s = (case Vault_chunk ve i s of
     None \<Rightarrow> None
   | Some (Inl e, s') \<Rightarrow> gather_chunks ve is (g\<lparr>cgUnreadable := cgUnreadable g + 1\<rparr>) s'
   | Some (Inr c, s') \<Rightarrow> gather_chunks ve is (file_chunk c g) s')"

definition in_sequence :: "chunk list \<Rightarrow> chunk list" where
  "in_sequence cs = sort_by (\<lambda>a b. chSeq a < chSeq b) cs"

definition groupChunksBySession :: "'n venv \<Rightarrow> ('n vault, chunk_groups) run" where
  "groupChunksBySession ve s = pbind (gather_chunks ve (chunkIDs s) no_groups)
     (\<lambda>g. prun (sret (g\<lparr>cgGroups := (\<lambda>i. in_sequence (cgGroups g i))\<rparr>))) s"

definition hasSequenceGap :: "chunk list \<Rightarrow> bool" where
  "hasSequenceGap cs \<longleftrightarrow> list_ex (\<lambda>(i, c). chSeq c \<noteq> int i) (enumerate 0 cs)"

section \<open>The memories that name a session\<close>

fun backlinks_of :: "'n venv \<Rightarrow> bodies \<Rightarrow> recid list \<Rightarrow> (recid \<times> recid) list res" where
  "backlinks_of ve t [] = Inr []"
| "backlinks_of ve t (i # is) = (case GetBody t i of
     Inl e \<Rightarrow> if errors_Is e ErrLocalNotFound then backlinks_of ve t is else Inl e
   | Inr body \<Rightarrow> (case vnUnmarshal ve body of
       Inl e \<Rightarrow> Inl (wrap_err ''read memory: '' e)
     | Inr m \<Rightarrow> if srcSessionID (mSource m) = [] then backlinks_of ve t is
         else (case ParseID (srcSessionID (mSource m)) of
           Inl e \<Rightarrow> backlinks_of ve t is
         | Inr j \<Rightarrow> rbind (backlinks_of ve t is) (\<lambda>ls. Inr ((j, mID m) # ls)))))"

definition links_to :: "(recid \<times> recid) list \<Rightarrow> recid \<Rightarrow> recid list" where
  "links_to ls i = map snd (filter (\<lambda>(j, _). j = i) ls)"

definition memoryBacklinks :: "'n venv \<Rightarrow> 'n vault \<Rightarrow> (recid \<Rightarrow> recid list) res" where
  "memoryBacklinks ve s = rbind (backlinks_of ve (vaBodies s) (recordIDs s KindMemory)) (\<lambda>ls. Inr (links_to ls))"

definition mergeIDs :: "recid list \<Rightarrow> recid list \<Rightarrow> recid list" where
  "mergeIDs xs ys = distinct_keys [] (xs @ ys)"

section \<open>What the messages say\<close>

record transcript_facts =
  tfMessages :: int
  tfBytes :: int
  tfTokensIn :: int
  tfTokensOut :: int
  tfFirst :: gotime
  tfLast :: gotime
  tfModels :: "string list"
  tfMemoryRefs :: "recid list"
  tfHeadMessage :: string

text \<open>\<open>time.Time\<close>'s zero value, from which times are counted.\<close>

definition zero_time :: gotime where
  "zero_time = 0"

definition observe_message :: "transcript_facts \<Rightarrow> message \<Rightarrow> transcript_facts" where
  "observe_message f m = f\<lparr>tfMessages := tfMessages f + 1,
     tfTokensIn := tfTokensIn f + (uInputTokens (mmUsage (msgMeta m)) + uCacheReadTokens (mmUsage (msgMeta m))),
     tfTokensOut := tfTokensOut f + uOutputTokens (mmUsage (msgMeta m)),
     tfModels := (if mmModel (msgMeta m) \<noteq> [] then appendUnique (tfModels f) (mmModel (msgMeta m)) else tfModels f),
     tfMemoryRefs := tfMemoryRefs f @ mmMemoryRefs (msgMeta m),
     tfFirst := (if msgCreated m \<noteq> zero_time \<and> (tfFirst f = zero_time \<or> msgCreated m < tfFirst f) then msgCreated m else tfFirst f),
     tfLast := (if msgCreated m \<noteq> zero_time \<and> tfLast f < msgCreated m then msgCreated m else tfLast f),
     tfHeadMessage := msgID m\<rparr>"

definition no_facts :: transcript_facts where
  "no_facts = \<lparr>tfMessages = 0, tfBytes = 0, tfTokensIn = 0, tfTokensOut = 0, tfFirst = zero_time, tfLast = zero_time,
     tfModels = [], tfMemoryRefs = [], tfHeadMessage = []\<rparr>"

definition observe_chunk :: "'n venv \<Rightarrow> transcript_facts \<Rightarrow> chunk \<Rightarrow> transcript_facts" where
  "observe_chunk ve f c = foldl observe_message
     (case vnMarshalChunk ve c of Inl e \<Rightarrow> f | Inr body \<Rightarrow> f\<lparr>tfBytes := tfBytes f + int (length body)\<rparr>) (chMessages c)"

definition observeTranscript :: "'n venv \<Rightarrow> chunk list \<Rightarrow> transcript_facts" where
  "observeTranscript ve cs = foldl (observe_chunk ve) no_facts cs"

section \<open>A title\<close>

definition PartText :: string where "PartText = ''text''"
definition RoleUser :: string where "RoleUser = ''user''"
definition TitleFromTranscript :: nat where "TitleFromTranscript = 72"

definition truncateTitle :: "text_lib \<Rightarrow> string \<Rightarrow> string" where
  "truncateTitle tx s = (let s' = join_with '' '' (string_fields s); rs = tlDecode tx s' in
     if length rs \<le> TitleFromTranscript then s'
     else trim_space (tl_string tx (take TitleFromTranscript rs)) @ [CHR 0xE2, CHR 0x80, CHR 0xA6])"

function firstText :: "part list \<Rightarrow> string" where
  "firstText [] = []"
| "firstText (p # ps) = (if pType p = PartText \<and> trim_space (pText p) \<noteq> [] then trim_space (pText p)
     else let nested = firstText (pContent p) in if nested \<noteq> [] then nested else firstText ps)"
  by pat_completeness auto
termination
  by (relation "measure (size_list size)") (auto intro: less_SucI trans_less_add1 size_pContent)

declare firstText.simps [simp del]

fun first_said :: "message list \<Rightarrow> string" where
  "first_said [] = []"
| "first_said (m # ms) = (if msgRole m \<noteq> RoleUser then first_said ms
     else if firstText (msgParts m) \<noteq> [] then firstText (msgParts m) else first_said ms)"

definition synthesiseTitle :: "text_lib \<Rightarrow> chunk list \<Rightarrow> recid \<Rightarrow> string" where
  "synthesiseTitle tx cs i = (let said = first_said (concat (map chMessages cs)) in
     if said \<noteq> [] then truncateTitle tx said else ''Recovered session '' @ take 8 (ID_String i))"

section \<open>A head\<close>

text \<open>The position is the chunk's place in the list that is built, not the number it carries.\<close>

definition chunkRef :: "'n venv \<Rightarrow> chunk \<Rightarrow> int \<Rightarrow> chunk_ref res" where
  "chunkRef ve c position = rbind (vnMarshalChunk ve c) (\<lambda>body. Inr
     \<lparr>crID = chID c, crSeq = position, crFirst = (if chMessages c \<noteq> [] then msgID (hd (chMessages c)) else []),
      crLast = (if chMessages c \<noteq> [] then msgID (last (chMessages c)) else []), crN = int (length (chMessages c)),
      crBytes = int (length body), crCID = CID_String (Sealer_CID (vnCrypto ve) (vnSealer ve) body)\<rparr>)"

fun chunk_refs :: "'n venv \<Rightarrow> int \<Rightarrow> chunk list \<Rightarrow> chunk_ref list res" where
  "chunk_refs ve position [] = Inr []"
| "chunk_refs ve position (c # cs) =
     rbind (chunkRef ve c position) (\<lambda>r. rbind (chunk_refs ve (position + 1) cs) (\<lambda>rs. Inr (r # rs)))"

definition rebuilt_session :: "'n venv \<Rightarrow> recid \<Rightarrow> chunk list \<Rightarrow> recid list \<Rightarrow> chunk_ref list \<Rightarrow> session_head" where
  "rebuilt_session ve i cs backlinks refs = (let f = observeTranscript ve cs in
     \<lparr>sID = i, sSchema = chSchema (hd cs), sSchemaVersion = chSchemaVersion (hd cs), sVersion = 1,
      sTitle = synthesiseTitle (vnText ve) cs i, sSummary = [], sTags = [],
      sProject = \<lparr>prCWD = [], prRepo = [], prBranch = []\<rparr>,
      sCreated = stamp (if tfFirst f \<noteq> zero_time then tfFirst f else vnNow ve),
      sUpdated = stamp (if tfFirst f \<noteq> zero_time then tfLast f else vnNow ve), sArchived = False,
      sAgent = \<lparr>agName = [], agVersion = []\<rparr>, sModels = tfModels f,
      sCounts = \<lparr>cnMessages = tfMessages f, cnChunks = int (length cs), cnBytes = tfBytes f, cnTokensIn = tfTokensIn f,
        cnTokensOut = tfTokensOut f, cnDurationMS = 0\<rparr>,
      sKind = SessionMain, sAgentRef = None,
      sLineage = \<lparr>lnParentSession = None, lnForkedFrom = None, lnResumedFrom = None, lnChildren = []\<rparr>,
      sHeadMessage = tfHeadMessage f, sPreservedTail = [], sChunks = refs, sMemories = mergeIDs backlinks (tfMemoryRefs f),
      sEmbedding = \<lparr>embModel = [], embDim = 0\<rparr>\<rparr>)"

definition set_origins :: "origins \<Rightarrow> (string \<times> field_origin) list \<Rightarrow> origins" where
  "set_origins o' fs = foldl (\<lambda>m (f, x). m(f \<mapsto> x)) o' fs"

definition rebuilt_origins :: "transcript_facts \<Rightarrow> recid list \<Rightarrow> origins" where
  "rebuilt_origins f links = set_origins (\<lambda>x. if x \<in> set HeadFields then Some OriginLost else None)
     ([(''id'', OriginChunk), (''schema'', OriginChunk), (''schemaVersion'', OriginChunk), (''version'', OriginSynthesised),
       (''kind'', OriginSynthesised), (''chunks'', OriginDerived), (''counts.messages'', OriginDerived),
       (''counts.chunks'', OriginDerived), (''counts.bytes'', OriginDerived)]
      @ (if 0 < tfTokensIn f \<or> 0 < tfTokensOut f then [(''counts.tokens'', OriginObserved)] else [])
      @ (if tfFirst f \<noteq> zero_time then [(''created'', OriginObserved), (''updated'', OriginObserved)]
         else [(''created'', OriginSynthesised), (''updated'', OriginSynthesised)])
      @ (if tfModels f \<noteq> [] then [(''models'', OriginObserved)] else [])
      @ (if tfHeadMessage f \<noteq> [] then [(''headMessage'', OriginDerived)] else [])
      @ (if links \<noteq> [] then [(''links.memories'', OriginReverse)] else [])
      @ [(''title'', OriginSynthesised)])"

text \<open>The head that is stored continues the version of the one the device holds, if it holds one.\<close>

definition expected_head :: "'n venv \<Rightarrow> session_head \<Rightarrow> heads \<Rightarrow> (session_head \<times> byte list \<times> int) res" where
  "expected_head ve h t = rbind (vnMarshalSession ve h) (\<lambda>b. case GetSessionHead t (sID h) of
     Inl e \<Rightarrow> if errors_Is e ErrLocalNotFound then Inr (h, b, 0) else Inl e
   | Inr existing \<Rightarrow> rbind (vnUnmarshalSession ve existing) (\<lambda>previous.
       let h' = h\<lparr>sVersion := sVersion previous + 1\<rparr> in
       rbind (vnMarshalSession ve h') (\<lambda>b'. Inr (h', b', sVersion previous))))"

definition storeRebuiltHead :: "'n venv \<Rightarrow> session_head \<Rightarrow> bool \<Rightarrow> ('n vault, session_head) step" where
  "storeRebuiltHead ve h emb =
    sbind (\<lambda>s. (expected_head ve (if emb then h\<lparr>sEmbedding := vault_embedding ve\<rparr> else h) (vaHeads s), s)) (\<lambda>(h', b, expect).
    sbind (on_heads (PutSessionHead h' b expect)) (\<lambda>_.
    sbind (put_meta ve (sessionRankingMeta h')) (\<lambda>_.
      if \<not> emb then sret h'
      else sbind (slift (case vnEmbed ve (Session_IndexText h') of Inl e \<Rightarrow> Inl (wrap_err ''embed rebuilt session: '' e) | Inr v \<Rightarrow> Inr v)) (\<lambda>vector.
           sbind (putVector ve (sID h') vector) (\<lambda>_. sret h')))))"

text \<open>Whether this device holds a head that is not to be replaced.\<close>

definition keeps_existing :: "rebuild_request \<Rightarrow> recid \<Rightarrow> heads \<Rightarrow> bool res" where
  "keeps_existing q i t = (if bqOverwrite q then Inr False else case GetSessionHead t i of
     Inr _ \<Rightarrow> Inr True | Inl e \<Rightarrow> if errors_Is e ErrLocalNotFound then Inr False else Inl e)"

definition rebuildHead :: "'n venv \<Rightarrow> rebuild_request \<Rightarrow> recid \<Rightarrow> chunk list \<Rightarrow> recid list \<Rightarrow> ('n vault, rebuilt_head) step" where
  "rebuildHead ve q i cs backlinks =
    (if cs = [] then sfail (GoErr [] ''no chunks to rebuild from'')
     else sbind (slift (chunk_refs ve 0 cs)) (\<lambda>refs.
       let f = observeTranscript ve cs; h = rebuilt_session ve i cs backlinks refs;
           made = rebuilt_origins f (mergeIDs backlinks (tfMemoryRefs f));
           built = \<lparr>bhSession = h, bhOrigins = made, bhChunks = int (length cs), bhMessages = tfMessages f, bhExisting = True\<rparr> in
       sbind (slift (case Session_Validate h of Inl e \<Rightarrow> Inl (wrap_err ''rebuild session: '' e) | Inr u \<Rightarrow> Inr u)) (\<lambda>_.
       sbind (\<lambda>s. (keeps_existing q i (vaHeads s), s)) (\<lambda>held.
         if held then sret built
         else sbind (storeRebuiltHead ve h (bqEmbed q)) (\<lambda>h'. sret (built\<lparr>bhSession := h', bhExisting := False,
                bhOrigins := (if bqEmbed q then made(''embedding'' \<mapsto> OriginSynthesised) else made)\<rparr>))))))"

section \<open>The rebuild\<close>

definition report_head :: "chunk list \<Rightarrow> rebuilt_head \<Rightarrow> rebuild_report \<Rightarrow> rebuild_report" where
  "report_head cs b r = r\<lparr>bpGaps := bpGaps r + (if hasSequenceGap cs then 1 else 0),
     bpSkipped := bpSkipped r + (if bhExisting b then 1 else 0), bpStored := bpStored r + (if bhExisting b then 0 else 1),
     bpHeads := bpHeads r @ [b], bpOrigins := mergeOrigins (bpOrigins r) (bhOrigins b)\<rparr>"

fun rebuild_all :: "'n venv \<Rightarrow> rebuild_request \<Rightarrow> (recid \<Rightarrow> chunk list) \<Rightarrow> (recid \<Rightarrow> recid list) \<Rightarrow> recid list
    \<Rightarrow> rebuild_report \<Rightarrow> ('n vault, rebuild_report) step" where
  "rebuild_all ve q groups links [] r = sret r"
| "rebuild_all ve q groups links (i # is) r = sbind (rebuildHead ve q i (groups i) (links i)) (\<lambda>b.
     rebuild_all ve q groups links is (report_head (groups i) b r))"

definition RebuildSessions :: "'n venv \<Rightarrow> rebuild_request \<Rightarrow> ('n vault, rebuild_report) run" where
  "RebuildSessions ve q = pbind (groupChunksBySession ve) (\<lambda>g.
     prun (sbind (\<lambda>s. (memoryBacklinks ve s, s)) (\<lambda>links.
       rebuild_all ve q (cgGroups g) links (cgOrder g)
         \<lparr>bpChunks = cgChunks g, bpSessions = int (length (cgOrder g)), bpStored = 0, bpSkipped = 0, bpGaps = 0,
          bpUnreadable = cgUnreadable g, bpHeads = [], bpOrigins = Map.empty\<rparr>)))"

section \<open>Chunks in order\<close>

text \<open>A chunk as this device holds it.\<close>

definition chunk_at :: "'n venv \<Rightarrow> bodies \<Rightarrow> recid \<Rightarrow> chunk option" where
  "chunk_at ve t i = (case GetRecord t i of Inl e \<Rightarrow> None | Inr (k, body) \<Rightarrow>
     if k \<noteq> KindChunk then None else (case vnUnmarshalChunk ve body of Inl e \<Rightarrow> None | Inr c \<Rightarrow> Some c))"

lemma held_chunk_at: "held_chunk ve t i = map_option chMessages (chunk_at ve t i)"
  by (simp add: held_chunk_def chunk_at_def split: sum.split prod.split)

lemma Vault_chunk_at:
  assumes "chunk_at ve (vaBodies s) i = Some c"
  shows "\<exists>t. Vault_chunk ve i s = Some (Inr c, t) \<and> reads_only s t"
proof -
  obtain body where b: "GetRecord (vaBodies s) i = Inr (KindChunk, body)" "vnUnmarshalChunk ve body = Inr c"
    using assms by (auto simp: chunk_at_def split: sum.splits prod.splits if_splits)
  then show ?thesis
    by (simp add: Vault_chunk_def fetchBody_def pbind_def prun_def step_defs count_chunk_def reads_only_def countRead_def)
qed

lemma gather_held:
  assumes "\<forall>i \<in> set is. chunk_at ve (vaBodies s) i = Some (f i)"
  shows "\<exists>t. gather_chunks ve is g s = Some (Inr (foldl (\<lambda>g c. file_chunk c g) g (map f is)), t) \<and> reads_only s t"
  using assms
proof (induction "is" arbitrary: g s)
  case (Cons i "is")
  obtain s1 where s1: "Vault_chunk ve i s = Some (Inr (f i), s1)" "reads_only s s1"
    using Vault_chunk_at [of ve s i "f i"] Cons.prems by auto
  have "\<forall>j \<in> set is. chunk_at ve (vaBodies s1) j = Some (f j)" using Cons.prems s1(2) by (simp add: reads_only_def)
  from Cons.IH [OF this, of "file_chunk (f i) g"] s1 show ?case by (auto intro: reads_only_trans)
qed simp

lemma filed_chunks:
  defines "filed \<equiv> foldl (\<lambda>g c. file_chunk c g) no_groups"
  shows "cgGroups (filed cs) i = (if i = 0 then [] else filter (\<lambda>c. chSession c = i) cs)"
    and "distinct (cgOrder (filed cs))" and "set (cgOrder (filed cs)) = chSession ` set cs - {0}"
proof -
  have "(\<forall>i. cgGroups (filed cs) i = (if i = 0 then [] else filter (\<lambda>c. chSession c = i) cs))
    \<and> distinct (cgOrder (filed cs)) \<and> set (cgOrder (filed cs)) = chSession ` set cs - {0}"
  proof (induction cs rule: rev_induct)
    case Nil
    then show ?case by (simp add: filed_def no_groups_def)
  next
    case (snoc c cs)
    have step: "filed (cs @ [c]) = file_chunk c (filed cs)" by (simp add: filed_def)
    show ?case
    proof (cases "chSession c = 0")
      case True
      then show ?thesis using snoc.IH by (auto simp: step file_chunk_def ID_IsZero_def)
    next
      case False
      have "filter (\<lambda>c'. chSession c' = chSession c) cs = [] \<longleftrightarrow> chSession c \<notin> chSession ` set cs"
        by (induction cs) auto
      with False snoc.IH show ?thesis by (auto simp: step file_chunk_def ID_IsZero_def)
    qed
  qed
  then show "cgGroups (filed cs) i = (if i = 0 then [] else filter (\<lambda>c. chSession c = i) cs)"
    "distinct (cgOrder (filed cs))" "set (cgOrder (filed cs)) = chSession ` set cs - {0}" by auto
qed

text \<open>Sorting by the sequence number puts a whole transcript back in the order it was written in.\<close>

lemma in_sequence_whole:
  assumes "mset xs = mset cs" and seq: "map chSeq cs = map int [0..<length cs]"
  shows "in_sequence xs = cs"
proof -
  let ?ys = "in_sequence xs"
  have m: "mset ?ys = mset cs" using assms(1) by (simp add: in_sequence_def)
  have "sorted_wrt (\<lambda>a b. \<not> chSeq b < chSeq a) ?ys"
    unfolding in_sequence_def by (rule sorted_sort_by) (auto intro!: weak_orderI)
  then have "sorted (map chSeq ?ys)" by (simp add: sorted_wrt_map not_less)
  moreover have "sorted (map chSeq cs)" unfolding seq by (simp add: sorted_wrt_map)
  moreover have "mset (map chSeq ?ys) = mset (map chSeq cs)" using m by simp
  ultimately have e: "map chSeq ?ys = map chSeq cs" by (metis properties_for_sort)
  have "distinct (map chSeq cs)" unfolding seq by (simp add: distinct_map)
  then have "inj_on chSeq (set ?ys \<union> set cs)" using mset_eq_setD [OF m] by (simp add: distinct_map)
  from map_inj_on [OF e this] show ?thesis .
qed

lemma chunk_refs_Inr:
  assumes "chunk_refs ve p cs = Inr rs"
  shows "map crID rs = map chID cs"
  using assms by (induction cs arbitrary: p rs) (auto simp: chunkRef_def rbind_Inr_iff)

lemma held_transcript_of:
  assumes "map crID rs = map chID cs" and "\<forall>c \<in> set cs. chunk_at ve t (chID c) = Some c"
  shows "held_transcript ve t rs = Some (concat (map chMessages cs))"
  using assms
proof (induction rs arbitrary: cs)
  case (Cons r rs)
  obtain c cs' where "cs = c # cs'" "crID r = chID c" "map crID rs = map chID cs'" using Cons.prems(1) by (cases cs) auto
  then show ?case using Cons.IH [of cs'] Cons.prems(2) by (simp add: held_chunk_at)
qed simp

section \<open>What a rebuild leaves\<close>

lemma expected_head_Inr:
  assumes "expected_head ve h t = Inr (h', b, expect)"
  shows "vnMarshalSession ve h' = Inr b" "h' = h\<lparr>sVersion := sVersion h'\<rparr>"
proof -
  obtain b0 where b0: "vnMarshalSession ve h = Inr b0" using assms by (auto simp: expected_head_def rbind_Inr_iff)
  have "vnMarshalSession ve h' = Inr b \<and> h' = h\<lparr>sVersion := sVersion h'\<rparr>"
  proof (cases "GetSessionHead t (sID h)")
    case (Inl e)
    then show ?thesis using assms b0 by (auto simp: expected_head_def split: if_splits)
  next
    case (Inr existing)
    then show ?thesis using assms b0 by (auto simp: expected_head_def rbind_Inr_iff Let_def)
  qed
  then show "vnMarshalSession ve h' = Inr b" "h' = h\<lparr>sVersion := sVersion h'\<rparr>" by blast+
qed

lemma storeRebuiltHead_Inr:
  assumes "storeRebuiltHead ve h emb s = (Inr h', t)" and "session_codec ve"
  shows "stored_head ve (vaHeads t) (sID h) = Some h'" "j \<noteq> sID h \<Longrightarrow> GetSessionHead (vaHeads t) j = GetSessionHead (vaHeads s) j"
    "vaBodies t = vaBodies s"
    "h' = h\<lparr>sVersion := sVersion h', sEmbedding := sEmbedding h'\<rparr>"
proof -
  let ?h = "if emb then h\<lparr>sEmbedding := vault_embedding ve\<rparr> else h"
  let ?rest = "sbind (put_meta ve (sessionRankingMeta h')) (\<lambda>_. if \<not> emb then sret h'
      else sbind (slift (case vnEmbed ve (Session_IndexText h') of Inl e \<Rightarrow> Inl (wrap_err ''embed rebuilt session: '' e) | Inr v \<Rightarrow> Inr v)) (\<lambda>vector.
           sbind (putVector ve (sID h') vector) (\<lambda>_. sret h')))"
  obtain h1 b expect u s1 where e: "expected_head ve ?h (vaHeads s) = Inr (h1, b, expect)"
    and p: "on_heads (PutSessionHead h1 b expect) s = (Inr u, s1)" and x: "h1 = h'" "?rest s1 = (Inr h', t)"
    using assms(1) by (auto simp: storeRebuiltHead_def sbind_Inr_iff sret_def split: if_splits)
  note h1 = expected_head_Inr [OF e]
  then show h': "h' = h\<lparr>sVersion := sVersion h', sEmbedding := sEmbedding h'\<rparr>" using x(1)
    by (cases h; cases h') (auto split: if_splits)
  have i: "sID h1 = sID h" using arg_cong [OF h1(2), of sID] by (simp split: if_splits)
  obtain hs where hs: "PutSessionHead h1 b expect (vaHeads s) = (Inr u, hs)" "s1 = s\<lparr>vaHeads := hs\<rparr>"
    using p by (auto simp: on_heads_def split: prod.splits)
  have "keeps on_device ?rest"
    by (intro keeps_sbind keeps_device_parts) (auto intro!: keeps_sbind)
  from keeps_step [OF this x(2)] have d: "vaHeads t = hs" "vaBodies t = vaBodies s" using hs(2) by (simp_all add: on_device_def)
  then show "vaBodies t = vaBodies s" by simp
  note P = PutSessionHead_Inr [OF hs(1)]
  show "j \<noteq> sID h \<Longrightarrow> GetSessionHead (vaHeads t) j = GetSessionHead (vaHeads s) j" using P(2) d(1) i by simp
  have "vnUnmarshalSession ve b = Inr h1" using assms(2) h1(1) by (simp add: session_codec_def)
  then show "stored_head ve (vaHeads t) (sID h) = Some h'" using P(1) d(1) i x(1) by (simp add: stored_head_def)
qed

lemma keeps_manifest_parts [simp]:
  "keeps vaManifest (on_vectors ve v)" "keeps vaManifest (on_index g)" "keeps vaManifest (put_meta ve mt)"
  "keeps vaManifest (on_heads h)"
  by (auto intro!: keepsI simp: on_vectors_def on_index_def step_defs put_meta_def on_heads_def split: prod.splits)

lemma keeps_manifest_putVector [simp]: "keeps vaManifest (putVector ve i v)"
proof -
  have "keeps vaManifest (smod (\<lambda>s. s\<lparr>vaHealth := f s\<rparr>))" for f :: "'a vault \<Rightarrow> index_health"
    by (rule keepsI) (simp add: smod_def)
  moreover have "keeps vaManifest (compactVectorsIfDue ve)"
    by (rule keepsI) (simp add: compactVectorsIfDue_def read_and_compact_def keeps_at)
  ultimately show ?thesis unfolding putVector_def by (intro keeps_sbind keeps_manifest_parts keeps_pure)
qed

lemma keeps_peek: "keeps f (\<lambda>s. (g s, s))"
  by (rule keepsI) simp

lemma keeps_manifest_rebuildHead: "keeps vaManifest (rebuildHead ve q i cs links)"
proof -
  have "keeps vaManifest (storeRebuiltHead ve h emb)" for h emb
    unfolding storeRebuiltHead_def by (intro keeps_sbind keeps_peek) (auto intro!: keeps_sbind split: prod.split)
  then show ?thesis unfolding rebuildHead_def Let_def by (auto intro!: keeps_sbind keeps_peek)
qed

lemma keeps_manifest_rebuild_all: "keeps vaManifest (rebuild_all ve q groups links is r)"
  by (induction "is" arbitrary: r) (auto intro!: keeps_sbind keeps_manifest_rebuildHead)

lemma keeps_existing_Inr:
  assumes "keeps_existing q i t = Inr held"
  shows "held \<longleftrightarrow> \<not> bqOverwrite q \<and> (\<exists>x. GetSessionHead t i = Inr x)"
  using assms by (auto simp: keeps_existing_def split: if_splits sum.splits)

text \<open>One head: kept, where the device holds one that is not to be replaced, or put together from its chunks.\<close>

definition head_made :: "'n venv \<Rightarrow> chunk list \<Rightarrow> recid list \<Rightarrow> recid \<Rightarrow> heads \<Rightarrow> rebuilt_head \<Rightarrow> bool" where
  "head_made ve cs links i t b \<longleftrightarrow> stored_head ve t i = Some (bhSession b)
     \<and> (\<exists>refs ver emb. chunk_refs ve 0 cs = Inr refs
          \<and> bhSession b = (rebuilt_session ve i cs links refs)\<lparr>sVersion := ver, sEmbedding := emb\<rparr>)
     \<and> (\<forall>f. f \<noteq> ''embedding'' \<longrightarrow> bhOrigins b f = rebuilt_origins (observeTranscript ve cs) (mergeIDs links (tfMemoryRefs (observeTranscript ve cs))) f)
     \<and> bhOrigins b ''embedding'' \<in> {Some OriginLost, Some OriginSynthesised}"

lemma set_origins_simps [simp]:
  "set_origins m [] = m" "set_origins m ((f, x) # fs) = set_origins (m(f \<mapsto> x)) fs"
  "set_origins m (fs @ fs') = set_origins (set_origins m fs) fs'"
  by (simp_all add: set_origins_def)

lemma rebuilt_origins_embedding: "rebuilt_origins f links ''embedding'' = Some OriginLost"
  by (simp add: rebuilt_origins_def HeadFields_def)

lemma rebuildHead_Inr:
  assumes "rebuildHead ve q i cs links s = (Inr b, t)" and "session_codec ve"
  defines "keep \<equiv> \<not> bqOverwrite q \<and> (\<exists>x. GetSessionHead (vaHeads s) i = Inr x)"
  shows "vaBodies t = vaBodies s" and "j \<noteq> i \<Longrightarrow> GetSessionHead (vaHeads t) j = GetSessionHead (vaHeads s) j"
    and "bhExisting b \<longleftrightarrow> keep" and "keep \<Longrightarrow> vaHeads t = vaHeads s" and "\<not> keep \<Longrightarrow> head_made ve cs links i (vaHeads t) b"
proof -
  let ?f = "observeTranscript ve cs"
  let ?made = "rebuilt_origins ?f (mergeIDs links (tfMemoryRefs ?f))"
  obtain refs held where r: "chunk_refs ve 0 cs = Inr refs" "keeps_existing q i (vaHeads s) = Inr held"
    and c: "if held then bhExisting b \<and> t = s
      else \<exists>h'. storeRebuiltHead ve (rebuilt_session ve i cs links refs) (bqEmbed q) s = (Inr h', t) \<and> \<not> bhExisting b \<and> bhSession b = h'
        \<and> bhOrigins b = (if bqEmbed q then ?made(''embedding'' \<mapsto> OriginSynthesised) else ?made)"
    using assms(1)
    by (auto simp: rebuildHead_def sbind_Inr_iff slift_def sfail_def sret_def Let_def split: if_splits)
  have k: "held = keep" using keeps_existing_Inr [OF r(2)] by (simp add: keep_def)
  have sid: "sID (rebuilt_session ve i cs links refs) = i" by (simp add: rebuilt_session_def Let_def)
  have "vaBodies t = vaBodies s \<and> (j \<noteq> i \<longrightarrow> GetSessionHead (vaHeads t) j = GetSessionHead (vaHeads s) j) \<and> (bhExisting b \<longleftrightarrow> keep)
    \<and> (keep \<longrightarrow> vaHeads t = vaHeads s) \<and> (\<not> keep \<longrightarrow> head_made ve cs links i (vaHeads t) b)"
  proof (cases held)
    case True
    then show ?thesis using c k by simp
  next
    case False
    then obtain h' where h': "storeRebuiltHead ve (rebuilt_session ve i cs links refs) (bqEmbed q) s = (Inr h', t)"
      "\<not> bhExisting b" "bhSession b = h'"
      "bhOrigins b = (if bqEmbed q then ?made(''embedding'' \<mapsto> OriginSynthesised) else ?made)" using c by auto
    note S = storeRebuiltHead_Inr [OF h'(1) assms(2), unfolded sid]
    have "head_made ve cs links i (vaHeads t) b"
      unfolding head_made_def using S(1) S(4) h'(3,4) r(1) rebuilt_origins_embedding by auto
    then show ?thesis using S h'(2) k False by simp
  qed
  then show "vaBodies t = vaBodies s" "j \<noteq> i \<Longrightarrow> GetSessionHead (vaHeads t) j = GetSessionHead (vaHeads s) j"
    "bhExisting b \<longleftrightarrow> keep" "keep \<Longrightarrow> vaHeads t = vaHeads s" "\<not> keep \<Longrightarrow> head_made ve cs links i (vaHeads t) b" by blast+
qed

lemma rebuild_all_Inr:
  assumes "rebuild_all ve q groups links is r s = (Inr rp, t)" and "session_codec ve" and "distinct is"
  shows "vaBodies t = vaBodies s \<and> set (bpHeads r) \<subseteq> set (bpHeads rp)
    \<and> (\<forall>j. j \<notin> set is \<longrightarrow> GetSessionHead (vaHeads t) j = GetSessionHead (vaHeads s) j)
    \<and> (\<forall>i \<in> set is. if \<not> bqOverwrite q \<and> (\<exists>x. GetSessionHead (vaHeads s) i = Inr x) then GetSessionHead (vaHeads t) i = GetSessionHead (vaHeads s) i
         else \<exists>b \<in> set (bpHeads rp). \<not> bhExisting b \<and> head_made ve (groups i) (links i) i (vaHeads t) b)"
  using assms(1,3)
proof (induction "is" arbitrary: r s)
  case Nil
  then show ?case by (simp add: sret_def)
next
  case (Cons i "is")
  obtain b s1 where b: "rebuildHead ve q i (groups i) (links i) s = (Inr b, s1)"
    "rebuild_all ve q groups links is (report_head (groups i) b r) s1 = (Inr rp, t)"
    using Cons.prems(1) by (auto simp: sbind_Inr_iff)
  have i: "i \<notin> set is" "distinct is" using Cons.prems(2) by simp_all
  note H = rebuildHead_Inr [OF b(1) assms(2)]
  note IH = Cons.IH [OF b(2) i(2)]
  have hs: "set (bpHeads r) \<subseteq> set (bpHeads rp)" "b \<in> set (bpHeads rp)" using IH by (auto simp: report_head_def)
  have ti: "GetSessionHead (vaHeads t) i = GetSessionHead (vaHeads s1) i" using IH i(1) by blast
  have here: "if \<not> bqOverwrite q \<and> (\<exists>x. GetSessionHead (vaHeads s) i = Inr x) then GetSessionHead (vaHeads t) i = GetSessionHead (vaHeads s) i
         else \<exists>b \<in> set (bpHeads rp). \<not> bhExisting b \<and> head_made ve (groups i) (links i) i (vaHeads t) b"
    using H(3-5) ti hs(2) by (auto simp: head_made_def stored_head_def split: if_splits)
  have "\<forall>j. j \<noteq> i \<longrightarrow> GetSessionHead (vaHeads s1) j = GetSessionHead (vaHeads s) j" using H(2) by blast
  moreover have "\<forall>j \<in> set is. j \<noteq> i" using i(1) by blast
  ultimately show ?case using IH H(1) here hs(1) by auto
qed

section \<open>What the report calls exact\<close>

text \<open>Two heads agree on a field of the report.\<close>

definition same_field :: "string \<Rightarrow> session_head \<Rightarrow> session_head \<Rightarrow> bool" where
  "same_field f h g \<longleftrightarrow>
     (f = ''id'' \<longrightarrow> sID h = sID g) \<and> (f = ''schema'' \<longrightarrow> sSchema h = sSchema g)
   \<and> (f = ''schemaVersion'' \<longrightarrow> sSchemaVersion h = sSchemaVersion g) \<and> (f = ''version'' \<longrightarrow> sVersion h = sVersion g)
   \<and> (f = ''title'' \<longrightarrow> sTitle h = sTitle g) \<and> (f = ''summary'' \<longrightarrow> sSummary h = sSummary g) \<and> (f = ''tags'' \<longrightarrow> sTags h = sTags g)
   \<and> (f = ''project'' \<longrightarrow> sProject h = sProject g) \<and> (f = ''created'' \<longrightarrow> sCreated h = sCreated g)
   \<and> (f = ''updated'' \<longrightarrow> sUpdated h = sUpdated g) \<and> (f = ''archived'' \<longrightarrow> sArchived h = sArchived g)
   \<and> (f = ''agent'' \<longrightarrow> sAgent h = sAgent g) \<and> (f = ''agentRef'' \<longrightarrow> sAgentRef h = sAgentRef g) \<and> (f = ''models'' \<longrightarrow> sModels h = sModels g)
   \<and> (f = ''counts.messages'' \<longrightarrow> cnMessages (sCounts h) = cnMessages (sCounts g))
   \<and> (f = ''counts.chunks'' \<longrightarrow> cnChunks (sCounts h) = cnChunks (sCounts g))
   \<and> (f = ''counts.bytes'' \<longrightarrow> cnBytes (sCounts h) = cnBytes (sCounts g))
   \<and> (f = ''counts.tokens'' \<longrightarrow> cnTokensIn (sCounts h) = cnTokensIn (sCounts g) \<and> cnTokensOut (sCounts h) = cnTokensOut (sCounts g))
   \<and> (f = ''counts.durationMs'' \<longrightarrow> cnDurationMS (sCounts h) = cnDurationMS (sCounts g))
   \<and> (f = ''kind'' \<longrightarrow> sKind h = sKind g) \<and> (f = ''lineage'' \<longrightarrow> sLineage h = sLineage g)
   \<and> (f = ''headMessage'' \<longrightarrow> sHeadMessage h = sHeadMessage g) \<and> (f = ''preservedTail'' \<longrightarrow> sPreservedTail h = sPreservedTail g)
   \<and> (f = ''chunks'' \<longrightarrow> sChunks h = sChunks g) \<and> (f = ''links.memories'' \<longrightarrow> sMemories h = sMemories g)
   \<and> (f = ''embedding'' \<longrightarrow> sEmbedding h = sEmbedding g)"

text \<open>A head as saving leaves it: its refs are those of the chunks it wrote, numbered from the first, and its counts are theirs.\<close>

definition written_as :: "'n venv \<Rightarrow> chunk list \<Rightarrow> chunk_ref list \<Rightarrow> bool" where
  "written_as ve cs refs \<longleftrightarrow> list_all2 (\<lambda>c r. \<exists>body. vnMarshalChunk ve c = Inr body
     \<and> r = written_ref c body (Sealer_CID (vnCrypto ve) (vnSealer ve) body)) cs refs
   \<and> map chSeq cs = map int [0..<length cs] \<and> (\<forall>c \<in> set cs. chMessages c \<noteq> [])"

definition head_of_chunks :: "'n venv \<Rightarrow> chunk list \<Rightarrow> session_head \<Rightarrow> bool" where
  "head_of_chunks ve cs h \<longleftrightarrow> cs \<noteq> [] \<and> sID h \<noteq> 0 \<and> written_as ve cs (sChunks h)
     \<and> (\<forall>c \<in> set cs. chSession c = sID h \<and> chSchema c = sSchema h \<and> chSchemaVersion c = sSchemaVersion h)
     \<and> cnMessages (sCounts h) = sum_list (map crN (sChunks h)) \<and> cnBytes (sCounts h) = sum_list (map crBytes (sChunks h))
     \<and> cnChunks (sCounts h) = int (length (sChunks h)) \<and> sHeadMessage h = crLast (last (sChunks h))"

lemma chunk_refs_written:
  assumes "list_all2 (\<lambda>c r. \<exists>body. vnMarshalChunk ve c = Inr body \<and> r = written_ref c body (Sealer_CID (vnCrypto ve) (vnSealer ve) body)) cs rs"
    and "map chSeq cs = map (\<lambda>n. p + int n) [0..<length cs]" and "\<forall>c \<in> set cs. chMessages c \<noteq> []"
  shows "chunk_refs ve p cs = Inr rs"
  using assms
proof (induction cs arbitrary: rs p)
  case (Cons c cs)
  obtain r rs' body where r: "rs = r # rs'" "vnMarshalChunk ve c = Inr body"
    "r = written_ref c body (Sealer_CID (vnCrypto ve) (vnSealer ve) body)"
    "list_all2 (\<lambda>c r. \<exists>body. vnMarshalChunk ve c = Inr body \<and> r = written_ref c body (Sealer_CID (vnCrypto ve) (vnSealer ve) body)) cs rs'"
    using Cons.prems(1) by (auto simp: list_all2_Cons1)
  have q: "chSeq c = p" "map chSeq cs = map (\<lambda>n. p + 1 + int n) [0..<length cs]"
    using Cons.prems(2) by (simp_all add: upt_conv_Cons map_Suc_upt [symmetric] algebra_simps o_def del: upt_Suc)
  have "chunk_refs ve (p + 1) cs = Inr rs'" using Cons.IH [OF r(4) q(2)] Cons.prems(3) by simp
  then show ?case using r q(1) Cons.prems(3) by (simp add: chunkRef_def written_ref_def)
qed simp

lemma observe_messages:
  "tfMessages (foldl observe_message f ms) = tfMessages f + int (length ms)"
  "tfBytes (foldl observe_message f ms) = tfBytes f"
  "tfHeadMessage (foldl observe_message f ms) = (if ms = [] then tfHeadMessage f else msgID (last ms))"
  by (induction ms arbitrary: f) (simp_all add: observe_message_def)

lemma observe_chunks:
  assumes "list_all2 (\<lambda>c r. \<exists>body. vnMarshalChunk ve c = Inr body \<and> r = written_ref c body (Sealer_CID (vnCrypto ve) (vnSealer ve) body)) cs rs"
    and "\<forall>c \<in> set cs. chMessages c \<noteq> []"
  shows "tfMessages (foldl (observe_chunk ve) f cs) = tfMessages f + sum_list (map crN rs)
    \<and> tfBytes (foldl (observe_chunk ve) f cs) = tfBytes f + sum_list (map crBytes rs)
    \<and> tfHeadMessage (foldl (observe_chunk ve) f cs) = (if cs = [] then tfHeadMessage f else crLast (last rs))"
  using assms
proof (induction cs arbitrary: rs f)
  case (Cons c cs)
  obtain r rs' body where r: "rs = r # rs'" "vnMarshalChunk ve c = Inr body"
    "r = written_ref c body (Sealer_CID (vnCrypto ve) (vnSealer ve) body)"
    "list_all2 (\<lambda>c r. \<exists>body. vnMarshalChunk ve c = Inr body \<and> r = written_ref c body (Sealer_CID (vnCrypto ve) (vnSealer ve) body)) cs rs'"
    using Cons.prems(1) by (auto simp: list_all2_Cons1)
  have l: "rs' = [] \<longleftrightarrow> cs = []" using r(4) by auto
  show ?case using Cons.IH [OF r(4), of "observe_chunk ve f c"] Cons.prems(2) r(1-3) l
    by (simp add: observe_chunk_def observe_messages written_ref_def)
qed simp

text \<open>Which fields the report calls exact.\<close>

lemma set_originsD: "set_origins m fs x = Some y \<Longrightarrow> (x, y) \<in> set fs \<or> m x = Some y"
proof (induction fs arbitrary: m)
  case (Cons fx fs)
  obtain g z where g: "fx = (g, z)" by (cases fx)
  have "(x, y) \<in> set fs \<or> (m(g \<mapsto> z)) x = Some y" 
    by (rule Cons.IH) (use Cons.prems g in \<open>simp del: fun_upd_apply\<close>)
  then show ?case using g by (auto split: if_splits)
qed simp

lemma exact_origins:
  assumes "rebuilt_origins f links x = Some y" and "y = OriginChunk \<or> y = OriginDerived"
  shows "x \<in> {''id'', ''schema'', ''schemaVersion'', ''chunks'', ''counts.messages'', ''counts.chunks'', ''counts.bytes'', ''headMessage''}"
  using set_originsD [OF assms(1) [unfolded rebuilt_origins_def]] assms(2) by (auto split: if_splits)

lemma exact_fields:
  assumes h: "head_of_chunks ve cs h" and refs: "chunk_refs ve 0 cs = Inr refs"
    and f: "f \<in> {''id'', ''schema'', ''schemaVersion'', ''chunks'', ''counts.messages'', ''counts.chunks'', ''counts.bytes'', ''headMessage''}"
  shows "same_field f ((rebuilt_session ve (sID h) cs links refs)\<lparr>sVersion := v, sEmbedding := e\<rparr>) h"
proof -
  have w: "list_all2 (\<lambda>c r. \<exists>body. vnMarshalChunk ve c = Inr body \<and> r = written_ref c body (Sealer_CID (vnCrypto ve) (vnSealer ve) body)) cs (sChunks h)"
    "map chSeq cs = map int [0..<length cs]" "\<forall>c \<in> set cs. chMessages c \<noteq> []" "cs \<noteq> []"
    using h by (auto simp: head_of_chunks_def written_as_def)
  have r: "refs = sChunks h" using chunk_refs_written [OF w(1) _ w(3), of 0] w(2) refs by simp
  have l: "length (sChunks h) = length cs" using list_all2_lengthD [OF w(1)] by simp
  note O = observe_chunks [OF w(1,3), of no_facts, folded observeTranscript_def]
  have "hd cs \<in> set cs" using w(4) by simp
  then have s: "chSchema (hd cs) = sSchema h" "chSchemaVersion (hd cs) = sSchemaVersion h" using h by (auto simp: head_of_chunks_def)
  show ?thesis using f O s r l h w(4)
    by (auto simp: same_field_def rebuilt_session_def Let_def head_of_chunks_def no_facts_def)
qed

text \<open>The chunks the device holds, and the ones among them that name a session.\<close>

definition every_chunk_held :: "'n venv \<Rightarrow> 'n vault \<Rightarrow> chunk list \<Rightarrow> bool" where
  "every_chunk_held ve s cs \<longleftrightarrow> list_all2 (\<lambda>i c. chunk_at ve (vaBodies s) i = Some c \<and> chID c = i) (chunkIDs s) cs"

lemma every_chunk_heldD:
  assumes "every_chunk_held ve s cs"
  shows "\<forall>i \<in> set (chunkIDs s). \<exists>c. chunk_at ve (vaBodies s) i = Some c"
    and "cs = map (\<lambda>i. the (chunk_at ve (vaBodies s) i)) (chunkIDs s)" and "distinct cs"
    and "\<forall>c \<in> set cs. chunk_at ve (vaBodies s) (chID c) = Some c"
proof -
  let ?i = "chunkIDs s"
  have l: "length ?i = length cs" and n: "\<And>n. n < length cs \<Longrightarrow> chunk_at ve (vaBodies s) (?i ! n) = Some (cs ! n) \<and> chID (cs ! n) = ?i ! n"
    using assms by (auto simp: every_chunk_held_def list_all2_conv_all_nth)
  show "\<forall>i \<in> set ?i. \<exists>c. chunk_at ve (vaBodies s) i = Some c" using n l by (auto simp: in_set_conv_nth)
  show "cs = map (\<lambda>i. the (chunk_at ve (vaBodies s) i)) ?i" using n l by (auto intro!: nth_equalityI)
  have "map chID cs = ?i" using n l by (auto intro!: nth_equalityI)
  moreover have "distinct ?i" by (simp add: chunkIDs_def recordIDs_def distinct_distinct_keys)
  ultimately show "distinct cs" by (metis distinct_map)
  show "\<forall>c \<in> set cs. chunk_at ve (vaBodies s) (chID c) = Some c" using n l by (auto simp: in_set_conv_nth)
qed

lemma RebuildSessions_Inr:
  assumes R: "RebuildSessions ve q s = Some (Inr rp, t)" and codec: "session_codec ve" and held: "every_chunk_held ve s cs"
  defines "keep \<equiv> \<lambda>i. \<not> bqOverwrite q \<and> (\<exists>x. GetSessionHead (vaHeads s) i = Inr x)"
  shows "vaBodies t = vaBodies s" and "vaManifest t = vaManifest s"
    and "keep i \<Longrightarrow> GetSessionHead (vaHeads t) i = GetSessionHead (vaHeads s) i"
    and "i \<noteq> 0 \<Longrightarrow> i \<in> chSession ` set cs \<Longrightarrow> \<not> keep i \<Longrightarrow>
      \<exists>b \<in> set (bpHeads rp). \<exists>links. \<not> bhExisting b \<and> head_made ve (in_sequence (filter (\<lambda>c. chSession c = i) cs)) links i (vaHeads t) b"
proof -
  note A = every_chunk_heldD [OF held]
  let ?f = "\<lambda>i. the (chunk_at ve (vaBodies s) i)" and ?g = "foldl (\<lambda>g c. file_chunk c g) no_groups cs"
  have "\<forall>i \<in> set (chunkIDs s). chunk_at ve (vaBodies s) i = Some (?f i)" using A(1) by auto
  from gather_held [OF this, of no_groups] obtain s1 where s1: "gather_chunks ve (chunkIDs s) no_groups s = Some (Inr ?g, s1)" "reads_only s s1"
    unfolding A(2) [symmetric] by blast
  let ?groups = "\<lambda>i. in_sequence (cgGroups ?g i)"
  obtain r0 links where all: "rebuild_all ve q ?groups links (cgOrder ?g) r0 s1 = (Inr rp, t)"
    using R s1(1) by (auto simp: RebuildSessions_def groupChunksBySession_def pbind_def prun_def sret_def sbind_Inr_iff)
  note G = filed_chunks [of cs]
  note H = rebuild_all_Inr [OF all codec G(2)]
  have hd: "vaHeads s1 = vaHeads s" "vaBodies s1 = vaBodies s" "vaManifest s1 = vaManifest s" using s1(2) by (simp_all add: reads_only_def)
  show "vaBodies t = vaBodies s" using H hd by simp
  show "vaManifest t = vaManifest s" using keeps_step [OF keeps_manifest_rebuild_all all] hd(3) by simp
  show "keep i \<Longrightarrow> GetSessionHead (vaHeads t) i = GetSessionHead (vaHeads s) i"
    using H hd(1) by (cases "i \<in> set (cgOrder ?g)") (auto simp: keep_def)
  show "\<exists>b \<in> set (bpHeads rp). \<exists>links. \<not> bhExisting b \<and> head_made ve (in_sequence (filter (\<lambda>c. chSession c = i) cs)) links i (vaHeads t) b"
    if "i \<noteq> 0" "i \<in> chSession ` set cs" "\<not> keep i"
  proof -
    have i: "i \<in> set (cgOrder ?g)" using that(1,2) G(3) by auto
    have gr: "?groups i = in_sequence (filter (\<lambda>c. chSession c = i) cs)" using G(1) that(1) by simp
    from bspec [OF conjunct2 [OF conjunct2 [OF conjunct2 [OF H]]] i] that(3) hd(1)
    have "\<exists>b \<in> set (bpHeads rp). \<not> bhExisting b \<and> head_made ve (?groups i) (links i) i (vaHeads t) b"
      unfolding keep_def by (simp only: if_False)
    then show ?thesis unfolding gr by blast
  qed
qed

lemma rebuild_restores:
  assumes "RebuildSessions ve q s = Some (Inr rp, t)" and "session_codec ve" and "every_chunk_held ve s held"
    and "head_of_chunks ve cs h" and "set cs = {c \<in> set held. chSession c = sID h}"
  shows "(bqOverwrite q \<or> row_of (vaHeads s) (sID h) = None \<longrightarrow>
       (\<exists>b \<in> set (bpHeads rp). stored_head ve (vaHeads t) (sID h) = Some (bhSession b) \<and> sChunks (bhSession b) = sChunks h
          \<and> held_transcript ve (vaBodies t) (sChunks h) = Some (concat (map chMessages cs))
          \<and> (\<forall>f. bhOrigins b f \<in> {Some OriginChunk, Some OriginDerived} \<longrightarrow> same_field f (bhSession b) h)))
    \<and> (\<not> bqOverwrite q \<longrightarrow> (\<forall>i x. GetSessionHead (vaHeads s) i = Inr x \<longrightarrow> GetSessionHead (vaHeads t) i = Inr x))"
proof (intro conjI impI allI)
  note R = RebuildSessions_Inr [OF assms(1-3)] and A = every_chunk_heldD [OF assms(3)]
  let ?i = "sID h"
  have w: "written_as ve cs (sChunks h)" "cs \<noteq> []" "?i \<noteq> 0" using assms(4) by (simp_all add: head_of_chunks_def)
  have seq: "map chSeq cs = map int [0..<length cs]" using w(1) by (simp add: written_as_def)
  have "distinct (map chSeq cs)" unfolding seq by (simp add: distinct_map)
  then have "distinct cs" by (simp add: distinct_map)
  then have "mset (filter (\<lambda>c. chSession c = ?i) held) = mset cs"
    using A(3) assms(5) by (intro iffD1 [OF set_eq_iff_mset_eq_distinct]) simp_all
  then have cs: "in_sequence (filter (\<lambda>c. chSession c = ?i) held) = cs" by (rule in_sequence_whole [OF _ seq])
  have i: "?i \<in> chSession ` set held" using w(2) assms(5) by (cases cs) force+
  assume lost: "bqOverwrite q \<or> row_of (vaHeads s) ?i = None"
  then have "\<not> (\<not> bqOverwrite q \<and> (\<exists>x. GetSessionHead (vaHeads s) ?i = Inr x))" by (auto simp: GetSessionHead_def)
  from R(4) [OF w(3) i this] obtain b links where b: "b \<in> set (bpHeads rp)" "head_made ve cs links ?i (vaHeads t) b"
    unfolding cs by blast
  obtain refs ver emb where r: "chunk_refs ve 0 cs = Inr refs"
    "bhSession b = (rebuilt_session ve ?i cs links refs)\<lparr>sVersion := ver, sEmbedding := emb\<rparr>"
    using b(2) by (auto simp: head_made_def)
  have same: "same_field f (bhSession b) h" if "bhOrigins b f \<in> {Some OriginChunk, Some OriginDerived}" for f
  proof -
    have "f \<noteq> ''embedding''" using b(2) that by (auto simp: head_made_def)
    then have o': "rebuilt_origins (observeTranscript ve cs) (mergeIDs links (tfMemoryRefs (observeTranscript ve cs))) f = bhOrigins b f"
      using b(2) by (simp add: head_made_def)
    have "\<exists>y. bhOrigins b f = Some y \<and> (y = OriginChunk \<or> y = OriginDerived)" using that by auto
    then obtain y where "bhOrigins b f = Some y" "y = OriginChunk \<or> y = OriginDerived" by blast
    from exact_fields [OF assms(4) r(1) exact_origins [OF o' [unfolded this(1)] this(2)]] show ?thesis unfolding r(2) .
  qed
  have "same_field ''chunks'' (bhSession b) h" unfolding r(2) by (rule exact_fields [OF assms(4) r(1)]) simp
  then have ch: "sChunks (bhSession b) = sChunks h" "refs = sChunks h" using r(2) by (simp_all add: same_field_def rebuilt_session_def Let_def)
  have "\<forall>c \<in> set cs. chunk_at ve (vaBodies t) (chID c) = Some c" using A(4) assms(5) R(1) by auto
  then have "held_transcript ve (vaBodies t) (sChunks h) = Some (concat (map chMessages cs))"
    by (rule held_transcript_of [OF chunk_refs_Inr [OF r(1) [unfolded ch(2)]]])
  with b ch(1) same show "\<exists>b \<in> set (bpHeads rp). stored_head ve (vaHeads t) ?i = Some (bhSession b) \<and> sChunks (bhSession b) = sChunks h
      \<and> held_transcript ve (vaBodies t) (sChunks h) = Some (concat (map chMessages cs))
      \<and> (\<forall>f. bhOrigins b f \<in> {Some OriginChunk, Some OriginDerived} \<longrightarrow> same_field f (bhSession b) h)"
    unfolding head_made_def by blast
next
  fix i x assume "\<not> bqOverwrite q" "GetSessionHead (vaHeads s) i = Inr x"
  then show "GetSessionHead (vaHeads t) i = Inr x"
    using RebuildSessions_Inr(3) [OF assms(1-3), of i] by auto
qed

text \<open>C31. A rebuild restores a conversation and says rightly what it restored.  On a device that lost the head of a
  session but holds the chunks, whatever order the catalog lists them in and whatever other sessions they are
  mixed with, the rebuild stores a head whose chunk list is the one that was written, ref by ref, and whose transcript reads
  as it was; every field which the report calls \<open>chunk\<close> or \<open>derived\<close> has the value of the lost head.  A head the
  device still holds is left as it is unless the caller asks for it to be replaced.
\<close>

theorem rebuild_restores_transcripts:
  assumes "RebuildSessions ve q s = Some (Inr rp, t)" and "session_codec ve" and "every_chunk_held ve s held"
    and "head_of_chunks ve cs h" and "set cs = {c \<in> set held. chSession c = sID h}"
  shows "(bqOverwrite q \<or> row_of (vaHeads s) (sID h) = None \<longrightarrow>
       (\<exists>b \<in> set (bpHeads rp). stored_head ve (vaHeads t) (sID h) = Some (bhSession b) \<and> sChunks (bhSession b) = sChunks h
          \<and> held_transcript ve (vaBodies t) (sChunks h) = Some (concat (map chMessages cs))
          \<and> (\<forall>f. bhOrigins b f \<in> {Some OriginChunk, Some OriginDerived} \<longrightarrow> same_field f (bhSession b) h)))
    \<and> (\<not> bqOverwrite q \<longrightarrow> (\<forall>i x. GetSessionHead (vaHeads s) i = Inr x \<longrightarrow> GetSessionHead (vaHeads t) i = Inr x))"
  by (rule rebuild_restores [OF assms])

section \<open>A conversation without its head\<close>

definition lost_vault :: "byte list list vault" where
  "lost_vault = demo_vault\<lparr>vaBodies := PutBody 1000000 (demo_id 1) KindChunk [] []\<rparr>"

definition lost_head :: session_head where
  "lost_head = rebuilt_session hello_venv (demo_id 0) [hello_chunk] [] [hello_ref]"

text \<open>The account serves one object, with the given bytes.\<close>

definition lost_sdk :: "byte list list sdk" where
  "lost_sdk = demo_sdk\<lparr>sdkListObjects := (\<lambda>c up. (Inr (if c = None
     then [\<lparr>evKey = 1, evUpdated = 1, evDeleted = False, evObject = Some demo_object\<rparr>] else []), up))\<rparr>"

definition lost_venv :: "byte list \<Rightarrow> byte list list venv" where
  "lost_venv payload = hello_venv\<lparr>vnMarshalSession := (\<lambda>h. if h = lost_head then Inr [] else fail [] ''head''),
     vnUnmarshalSession := (\<lambda>_. Inr lost_head), vnReclaimer := demo_reclaimer\<lparr>rcSdk := lost_sdk\<rparr>,
     vnCatalog := line_env, vnRead := (\<lambda>_ _. Inr payload)\<rparr>"

lemma lost_title: "synthesiseTitle tx [hello_chunk] (demo_id 0) = ''Recovered session 01010101''"
proof -
  have "ID_bytes (demo_id 0) = replicate 16 1"
    unfolding demo_id_def by (subst ID_bytes_ID_of_bytes) simp_all
  also have "\<dots> = [1, 1, 1, 1] @ replicate 12 1"
    using replicate_add [of 4 12 "1 :: byte"] by (simp add: eval_nat_numeral(2,3))
  finally have i: "take 8 (ID_String (demo_id 0)) = ''01010101''"
    by (simp add: ID_String_def hex_char_def hex_digits_def)
  have "first_said (concat (map chMessages [hello_chunk])) = []"
    by (simp add: hello_chunk_def hello_def hello_again_def RoleUser_def demo_message_def demo_part_def firstText.simps PartText_def PartToolCall_def)
  with i show ?thesis by (simp add: synthesiseTitle_def Let_def)
qed

lemma hello_chunk_sel:
  "chSession hello_chunk = demo_id 0" "chID hello_chunk = demo_id 1" "chSeq hello_chunk = 0" "chMessages hello_chunk = hellos"
  "chSchema hello_chunk = MessageSchema" "chSchemaVersion hello_chunk = SchemaVersion"
  by (simp_all add: hello_chunk_def new_chunk_def hello_head_def new_session_def)

lemma lost_sel:
  "vnMarshalChunk (lost_venv p) hello_chunk = Inr []" "vnUnmarshalChunk (lost_venv p) b = Inr hello_chunk" "vnText (lost_venv p) = demo_text"
  "vnNow (lost_venv p) = 1000000" "vnCrypto (lost_venv p) = plain_crypto" "vnSealer (lost_venv p) = \<lparr>slRecord = [], slContent = []\<rparr>"
  "vnMarshalSession (lost_venv p) lost_head = Inr []" "vnUnmarshalSession (lost_venv p) b = Inr lost_head"
  by (simp_all add: lost_venv_def hello_sel) (simp_all add: hello_venv_def demo_venv_def)

lemma lost_refs: "chunk_refs (lost_venv p) 0 [hello_chunk] = Inr [hello_ref]"
  by (simp add: chunkRef_def lost_sel hello_chunk_sel hello_ref_def written_ref_def)

lemma lost_rebuilt: "rebuilt_session (lost_venv p) (demo_id 0) [hello_chunk] [] [hello_ref] = lost_head"
  by (simp add: lost_head_def rebuilt_session_def observeTranscript_def observe_chunk_def lost_sel hello_sel Let_def)

lemma lost_head_sel:
  "sID lost_head = demo_id 0" "sSchema lost_head = MessageSchema" "sSchemaVersion lost_head = SchemaVersion" "sVersion lost_head = 1"
  "sTitle lost_head = ''Recovered session 01010101''" "sSummary lost_head = []" "sTags lost_head = []" "sKind lost_head = SessionMain"
  "sChunks lost_head = [hello_ref]" "sAgentRef lost_head = None"
  by (simp_all add: lost_head_def rebuilt_session_def Let_def hello_chunk_sel lost_title)

lemma lost_valid: "Session_Validate lost_head = Inr ()"
proof -
  have t: "trim_space ''Recovered session 01010101'' = ''Recovered session 01010101''"
    by (rule trim_space_trimmed, simp add: trimmed_def white_space_def upt_rec)
  show ?thesis
    by (simp add: Session_Validate_def t lost_head_sel ID_IsZero_def demo_id_distinct [simplified] SchemaVersion_def MaxTitleBytes_def
      MaxSummaryBytes_def tag_checks_def chunk_ref_checks_def SessionKind_Valid_def SessionKinds_def SessionMain_def
      SessionSubagent_def hello_ref_def written_ref_def hello_chunk_def hello_head_def new_session_def)
qed

lemma lost_bodies: "GetRecord (vaBodies lost_vault) (demo_id 1) = Inr (KindChunk, [])"
proof -
  have "GetRecord [] (demo_id 1) = Inl (GoErr [ErrLocalNotFound] ''body'')" by (simp add: GetRecord_def)
  from GetRecord_PutBody(1) [OF this] show ?thesis by (simp add: lost_vault_def)
qed

lemma lost_chunk_at: "chunk_at (lost_venv p) (vaBodies lost_vault) (demo_id 1) = Some hello_chunk"
  by (simp add: chunk_at_def lost_bodies [simplified] lost_sel)

lemma lost_ids:
  assumes "vaBodies t = vaBodies lost_vault" and "vaManifest t = empty_manifest"
  shows "recordIDs t KindChunk = [demo_id 1]" "recordIDs t KindMemory = []"
  using assms
  by (simp_all add: recordIDs_def Manifest_Entries_def empty_manifest_def BodyIDsOfKind_def lost_vault_def PutBody_def select_where_def
      KindChunk_def KindMemory_def)

lemma lost_run:
  assumes "vaBodies s = vaBodies lost_vault" and "vaHeads s = []"
    and ids: "recordIDs s KindChunk = [demo_id 1]" "recordIDs s KindMemory = []"
  shows "\<exists>rp t. RebuildSessions (lost_venv p) \<lparr>bqOverwrite = False, bqEmbed = False\<rparr> s = Some (Inr rp, t)"
proof -
  let ?q = "\<lparr>bqOverwrite = False, bqEmbed = False\<rparr>"
  have "chunk_at (lost_venv p) (vaBodies s) (demo_id 1) = Some hello_chunk" using lost_chunk_at [of p] assms(1) by simp
  from Vault_chunk_at [OF this] obtain s1 where s1: "Vault_chunk (lost_venv p) (demo_id 1) s = Some (Inr hello_chunk, s1)" "reads_only s s1"
    by blast
  have g: "file_chunk hello_chunk no_groups = \<lparr>cgGroups = (\<lambda>_. [])(demo_id 0 := [hello_chunk]), cgOrder = [demo_id 0], cgChunks = 1, cgUnreadable = 0\<rparr>"
    by (simp add: file_chunk_def hello_chunk_sel ID_IsZero_def demo_id_distinct [simplified] no_groups_def)
  have "recordIDs s1 KindMemory = recordIDs s KindMemory" using s1(2) by (simp add: recordIDs_def reads_only_def)
  then have bl: "memoryBacklinks (lost_venv p) s1 = Inr (links_to [])" using ids(2) by (simp add: memoryBacklinks_def)
  have h: "vaHeads s1 = []" using s1(2) assms(2) by (simp add: reads_only_def)
  then have "keeps_existing ?q (demo_id 0) (vaHeads s1) = Inr False" by (simp add: keeps_existing_def GetSessionHead_def)
  moreover obtain t where "storeRebuiltHead (lost_venv p) lost_head False s1 = (Inr lost_head, t)"
    by (simp add: storeRebuiltHead_def expected_head_def step_defs h GetSessionHead_def lost_head_sel lost_sel on_heads_def
        PutSessionHead_def Let_def put_meta_def)
  ultimately obtain b t where "rebuildHead (lost_venv p) ?q (demo_id 0) [hello_chunk] [] s1 = (Inr b, t)"
    by (simp add: rebuildHead_def step_defs lost_refs [simplified] lost_rebuilt lost_valid Let_def)
  then show ?thesis
    by (auto simp: RebuildSessions_def groupChunksBySession_def chunkIDs_def pbind_def prun_def sret_def sbind_def ids(1) [simplified]
        s1(1) [simplified] g bl links_to_def in_sequence_def)
qed

lemma lost_start: "vaHeads lost_vault = []" "recordIDs lost_vault KindChunk = [demo_id 1]" "recordIDs lost_vault KindMemory = []"
  using lost_ids [of lost_vault] by (simp_all add: lost_vault_def demo_vault_def)

lemma lost_session_codec: "session_codec (lost_venv p)"
  by (simp add: session_codec_def lost_venv_def)

lemma lost_head_written: "head_of_chunks (lost_venv p) [hello_chunk] lost_head"
  by (simp add: head_of_chunks_def written_as_def lost_head_sel hello_chunk_sel lost_sel demo_id_distinct [simplified])
    (simp add: hello_ref_def written_ref_def hello_chunk_sel lost_head_def rebuilt_session_def observeTranscript_def observe_chunk_def
      observe_message_def no_facts_def hello_sel Let_def)

theorem rebuild_restores_transcripts_witness:
  "\<exists>rp t. RebuildSessions (lost_venv []) \<lparr>bqOverwrite = False, bqEmbed = False\<rparr> lost_vault = Some (Inr rp, t)
     \<and> (\<exists>h. stored_head (lost_venv []) (vaHeads t) (demo_id 0) = Some h \<and> sChunks h = [hello_ref]
          \<and> held_transcript (lost_venv []) (vaBodies t) (sChunks h) = Some hellos)"
proof -
  obtain rp t where R: "RebuildSessions (lost_venv []) \<lparr>bqOverwrite = False, bqEmbed = False\<rparr> lost_vault = Some (Inr rp, t)"
    using lost_run [of lost_vault "[]"] lost_start by blast
  have "chunkIDs lost_vault = [demo_id 1]" unfolding chunkIDs_def by (rule lost_start)
  then have held: "every_chunk_held (lost_venv []) lost_vault [hello_chunk]"
    by (simp add: every_chunk_held_def lost_chunk_at [simplified] hello_chunk_sel)
  note T = rebuild_restores_transcripts [OF R lost_session_codec held lost_head_written]
  have "set [hello_chunk] = {c \<in> set [hello_chunk]. chSession c = sID lost_head}" by (auto simp: lost_head_sel hello_chunk_sel)
  from conjunct1 [OF T [OF this]] have "\<exists>g. stored_head (lost_venv []) (vaHeads t) (sID lost_head) = Some g
      \<and> sChunks g = sChunks lost_head
      \<and> held_transcript (lost_venv []) (vaBodies t) (sChunks lost_head) = Some (concat (map chMessages [hello_chunk]))"
    by (auto simp: lost_vault_def demo_vault_def)
  with R show ?thesis unfolding lost_head_sel by (auto simp: hello_chunk_sel simp del: held_transcript.simps)
qed

end
