(* ===== verification/VaultHydrate.thy ===== *)
theory VaultHydrate
  imports VaultRebuild
begin

text \<open>
  \<open>vault/hydrate.go\<close> and \<open>vault/recover.go\<close>: a vault put back on a device that holds nothing, from the recovery
  phrase and the objects the indexer lists.  The report is part of the state, as the code returns it with an error
  too; durations and progress callbacks are left out, and so is what a listing that failed had counted.
\<close>

section \<open>Depth\<close>

definition HydrateCatalog :: string where "HydrateCatalog = ''catalog''"
definition HydrateMetadata :: string where "HydrateMetadata = ''metadata''"
definition HydrateIndex :: string where "HydrateIndex = ''index''"

definition hydrateRank :: "string \<rightharpoonup> nat" where
  "hydrateRank = [HydrateCatalog \<mapsto> 0, HydrateMetadata \<mapsto> 1, HydrateIndex \<mapsto> 2]"

definition Depth_includes :: "string \<Rightarrow> string \<Rightarrow> bool" where
  "Depth_includes d other \<longleftrightarrow> (case hydrateRank other of None \<Rightarrow> 0 | Some n \<Rightarrow> n) \<le> (case hydrateRank d of None \<Rightarrow> 0 | Some n \<Rightarrow> n)"

definition Depth_Valid :: "string \<Rightarrow> bool" where
  "Depth_Valid d \<longleftrightarrow> hydrateRank d \<noteq> None"

record hydrate_report =
  hyDepth :: string
  hyObjects :: int
  hyFrames :: int
  hyBytes :: int
  hyRecords :: int
  hyBodies :: int
  hySessions :: int
  hyEmbedded :: int
  hySlabs :: "slabid list"
  hyForeign :: int
  hyDamaged :: int
  hyUnreadable :: int
  hyRebuild :: "rebuild_report option"

definition no_hydrate :: "string \<Rightarrow> hydrate_report" where
  "no_hydrate d = \<lparr>hyDepth = d, hyObjects = 0, hyFrames = 0, hyBytes = 0, hyRecords = 0, hyBodies = 0, hySessions = 0,
     hyEmbedded = 0, hySlabs = [], hyForeign = 0, hyDamaged = 0, hyUnreadable = 0, hyRebuild = None\<rparr>"

text \<open>A step of the vault, and a note in the report, inside a step of both.\<close>

definition in_vault :: "('n vault, 'a) step \<Rightarrow> ('n vault \<times> 'r, 'a) step" where
  "in_vault m = (\<lambda>(s, r). case m s of (x, s') \<Rightarrow> (x, (s', r)))"

definition in_report :: "('r \<Rightarrow> 'r) \<Rightarrow> ('n vault \<times> 'r, unit) step" where
  "in_report f = smod (\<lambda>(s, r). (s, f r))"

section \<open>One frame\<close>

definition catalogEntry :: "'n venv \<Rightarrow> frame \<Rightarrow> stored_object \<Rightarrow> byte list \<Rightarrow> cid \<Rightarrow> mentry res" where
  "catalogEntry ve f ob body k =
    (let entry = \<lparr>enID = frID f, enKind = frKind f, enType = [], enVersion = 1, enCID = k,
           enObjectRef = Ref_String (stRef ob), enSlabID = stSlab ob, enBytes = int (length (frSealed f)), enTags = [],
           enWrittenAt = stamp (stUpdated ob), enDeleted = False\<rparr> in
     if frKind f = KindChunk then (case vnUnmarshalChunk ve body of
         Inl e \<Rightarrow> Inl (wrap_err ''chunk: '' e)
       | Inr c \<Rightarrow> if chID c \<noteq> frID f then fail [] ''the stored blob identifies itself otherwise'' else Inr entry)
     else (case vnUnmarshal ve body of
         Inl e \<Rightarrow> Inl (wrap_err ''record: '' e)
       | Inr m \<Rightarrow> if mID m \<noteq> frID f then fail [] ''the stored blob identifies itself otherwise''
           else Inr (entry\<lparr>enType := mType m, enVersion := mVersion m, enTags := mTags m, enWrittenAt := mUpdatedAt m\<rparr>)))"

definition hydrate_body :: "'n venv \<Rightarrow> string \<Rightarrow> frame \<Rightarrow> byte list \<Rightarrow> ('n vault \<times> hydrate_report, unit) step" where
  "hydrate_body ve depth f body =
    sbind (in_vault (put_body ve (frID f) (frKind f) body)) (\<lambda>_.
    sbind (in_report (\<lambda>r. r\<lparr>hyBodies := hyBodies r + 1\<rparr>)) (\<lambda>_.
      if frKind f = KindChunk then sret ()
      else sbind (slift (case vnUnmarshal ve body of Inl e \<Rightarrow> Inl (wrap_err ''record: '' e) | Inr m \<Rightarrow> Inr m)) (\<lambda>m.
           sbind (in_vault (put_meta ve (rankingMeta m))) (\<lambda>_.
             if \<not> Depth_includes depth HydrateIndex then sret ()
             else sbind (slift (case vnEmbed ve (Memory_IndexText m) of Inl e \<Rightarrow> Inl (wrap_err ''re-embed: '' e) | Inr v \<Rightarrow> Inr v)) (\<lambda>v.
                  sbind (in_vault (putVector ve (frID f) v)) (\<lambda>_.
                    in_report (\<lambda>r. r\<lparr>hyEmbedded := hyEmbedded r + 1\<rparr>)))))))"

definition hydrateFrame :: "'n venv \<Rightarrow> string \<Rightarrow> stored_object \<Rightarrow> frame \<Rightarrow> ('n vault \<times> hydrate_report, unit) step" where
  "hydrateFrame ve depth ob f =
    sbind (slift (Open (vnCrypto ve) (vnSealer ve) (frSealed f))) (\<lambda>body.
    sbind (slift (catalogEntry ve f ob body (Sealer_CID (vnCrypto ve) (vnSealer ve) body))) (\<lambda>entry.
    sbind (in_vault (on_catalog ve (\<lambda>io. Manifest_Append (vnCatalog ve) io entry))) (\<lambda>_.
    sbind (in_vault (on_reclaimer (Adopt (vnReclaimer ve) (stSlab ob) 1 (int (length (frSealed f)))))) (\<lambda>_.
      if \<not> Depth_includes depth HydrateMetadata then sret () else hydrate_body ve depth f body))))"

text \<open>A frame that does not open is somebody else's.\<close>

fun hydrate_frames :: "'n venv \<Rightarrow> string \<Rightarrow> stored_object \<Rightarrow> frame list \<Rightarrow> ('n vault \<times> hydrate_report, unit) step" where
  "hydrate_frames ve depth ob [] = sret ()"
| "hydrate_frames ve depth ob (f # fs) = (\<lambda>w. case hydrateFrame ve depth ob f w of
     (Inl e, (s, r)) \<Rightarrow> if errors_Is e ErrCorrupt then hydrate_frames ve depth ob fs (s, r\<lparr>hyForeign := hyForeign r + 1\<rparr>)
       else (Inl e, (s, r))
   | (Inr _, (s, r)) \<Rightarrow> hydrate_frames ve depth ob fs (s, r\<lparr>hyRecords := hyRecords r + 1, hySlabs := List.insert (stSlab ob) (hySlabs r)\<rparr>))"

definition ReadObject :: "'n venv \<Rightarrow> stored_object \<Rightarrow> 'n vault \<Rightarrow> byte list res" where
  "ReadObject ve ob s = vnRead ve (vaNet s) (stObject ob)"

definition hydrate_object :: "'n venv \<Rightarrow> string \<Rightarrow> stored_object \<Rightarrow> ('n vault \<times> hydrate_report, unit) step" where
  "hydrate_object ve depth ob =
    sbind (in_report (\<lambda>r. r\<lparr>hyObjects := hyObjects r + 1\<rparr>)) (\<lambda>_.
    sbind (wrapping ''read object: '' (in_vault (\<lambda>s. (ReadObject ve ob s, s)))) (\<lambda>payload.
    case Frames payload of (fs, damage) \<Rightarrow>
      sbind (in_report (\<lambda>r. r\<lparr>hyBytes := hyBytes r + int (length payload), hyFrames := hyFrames r + int (length fs),
               hyDamaged := hyDamaged r + (if damage = None then 0 else 1)\<rparr>)) (\<lambda>_.
        hydrate_frames ve depth ob fs)))"

section \<open>The walk\<close>

definition in_walk :: "'n venv \<Rightarrow> ('n vault \<times> 'r, walk_stats \<times> stored_object list) run" where
  "in_walk ve = (\<lambda>(s, r). case WalkObjectsStats (vnSdk ve) (vaNet s) of None \<Rightarrow> None
     | Some (x, n) \<Rightarrow> Some (x, (s\<lparr>vaNet := n\<rparr>, r)))"

definition in_rebuild :: "'n venv \<Rightarrow> rebuild_request \<Rightarrow> ('n vault \<times> 'r, rebuild_report) run" where
  "in_rebuild ve q = (\<lambda>(s, r). case RebuildSessions ve q s of None \<Rightarrow> None | Some (x, s') \<Rightarrow> Some (x, (s', r)))"

text \<open>What the walk counted is in the report whether or not the loop over the objects ended well.\<close>

definition finally_report :: "('r \<Rightarrow> 'r) \<Rightarrow> ('n vault \<times> 'r, 'a) step \<Rightarrow> ('n vault \<times> 'r, 'a) step" where
  "finally_report f m = (\<lambda>w. case m w of (x, (s, r)) \<Rightarrow> (x, (s, f r)))"

definition Hydrate :: "'n venv \<Rightarrow> string \<Rightarrow> ('n vault \<times> hydrate_report, unit) run" where
  "Hydrate ve asked =
    (let depth = (if asked = [] then HydrateMetadata else asked) in
     if \<not> vnOnline ve then prun (sfail errOffline)
     else if \<not> Depth_Valid depth then prun (sfail (GoErr [] ''hydrate depth is not known''))
     else pbind (prun (in_report (\<lambda>_. no_hydrate depth))) (\<lambda>_.
       pbind (in_walk ve) (\<lambda>(stats, objects).
       pbind (prun (finally_report (\<lambda>r. r\<lparr>hyUnreadable := int (length (wsUnreadable stats))\<rparr>)
                (smap_list (hydrate_object ve depth) objects))) (\<lambda>_.
       if Depth_includes depth HydrateMetadata
       then pbind (in_rebuild ve \<lparr>bqOverwrite = False, bqEmbed = Depth_includes depth HydrateIndex\<rparr>) (\<lambda>b.
         prun (in_report (\<lambda>r. r\<lparr>hyRebuild := Some b, hySessions := bpStored b\<rparr>)))
       else prun (sret ())))))"

section \<open>Recovery\<close>

record recovery_report =
  rvObjects :: int
  rvFrames :: int
  rvRecovered :: int
  rvForeign :: int
  rvDamaged :: int
  rvUnreadable :: int
  rvEmbedded :: int

definition no_recovery :: recovery_report where
  "no_recovery = \<lparr>rvObjects = 0, rvFrames = 0, rvRecovered = 0, rvForeign = 0, rvDamaged = 0, rvUnreadable = 0, rvEmbedded = 0\<rparr>"

definition catalog_and_track :: "'n venv \<Rightarrow> frame \<Rightarrow> stored_object \<Rightarrow> mentry \<Rightarrow> ('n vault, unit) step" where
  "catalog_and_track ve f ob entry =
    sbind (on_catalog ve (\<lambda>io. Manifest_Append (vnCatalog ve) io entry)) (\<lambda>_.
      on_reclaimer (Track (vnReclaimer ve) (stSlab ob) 1 (int (length (frSealed f)))))"

definition recoverChunk :: "'n venv \<Rightarrow> frame \<Rightarrow> stored_object \<Rightarrow> byte list \<Rightarrow> ('n vault, unit) step" where
  "recoverChunk ve f ob body =
    sbind (slift (case vnUnmarshalChunk ve body of Inl e \<Rightarrow> Inl (wrap_err ''chunk: '' e) | Inr c \<Rightarrow> Inr c)) (\<lambda>c.
    if chID c \<noteq> frID f then sfail (GoErr [] ''the stored blob identifies itself otherwise'')
    else sbind (put_body ve (frID f) (frKind f) body) (\<lambda>_.
      catalog_and_track ve f ob \<lparr>enID = frID f, enKind = frKind f, enType = [], enVersion = 1,
        enCID = Sealer_CID (vnCrypto ve) (vnSealer ve) body, enObjectRef = Ref_String (stRef ob), enSlabID = stSlab ob,
        enBytes = int (length (frSealed f)), enTags = [], enWrittenAt = stamp (vnNow ve), enDeleted = False\<rparr>))"

definition recoverFrame :: "'n venv \<Rightarrow> bool \<Rightarrow> stored_object \<Rightarrow> frame \<Rightarrow> ('n vault, bool) step" where
  "recoverFrame ve emb ob f =
    sbind (slift (Open (vnCrypto ve) (vnSealer ve) (frSealed f))) (\<lambda>body.
    if frKind f = KindChunk then sbind (recoverChunk ve f ob body) (\<lambda>_. sret False)
    else sbind (slift (case vnUnmarshal ve body of Inl e \<Rightarrow> Inl (wrap_err ''record: '' e) | Inr m \<Rightarrow> Inr m)) (\<lambda>m.
      if mID m \<noteq> frID f then sfail (GoErr [] ''the stored blob identifies itself otherwise'')
      else sbind (put_body ve (frID f) (frKind f) body) (\<lambda>_.
        sbind (put_meta ve (rankingMeta m)) (\<lambda>_.
        sbind (catalog_and_track ve f ob \<lparr>enID = frID f, enKind = frKind f, enType = mType m, enVersion = mVersion m,
            enCID = Sealer_CID (vnCrypto ve) (vnSealer ve) body, enObjectRef = Ref_String (stRef ob), enSlabID = stSlab ob,
            enBytes = int (length (frSealed f)), enTags = mTags m, enWrittenAt = mUpdatedAt m, enDeleted = False\<rparr>) (\<lambda>_.
        if \<not> emb then sret False
        else sbind (slift (case vnEmbed ve (Memory_IndexText m) of Inl e \<Rightarrow> Inl (wrap_err ''re-embed: '' e) | Inr v \<Rightarrow> Inr v)) (\<lambda>v.
             sbind (putVector ve (frID f) v) (\<lambda>_. sret True)))))))"

fun recover_frames :: "'n venv \<Rightarrow> bool \<Rightarrow> stored_object \<Rightarrow> frame list \<Rightarrow> ('n vault \<times> recovery_report, unit) step" where
  "recover_frames ve emb ob [] = sret ()"
| "recover_frames ve emb ob (f # fs) = (\<lambda>(s, r). case recoverFrame ve emb ob f s of
     (Inl e, s') \<Rightarrow> if errors_Is e ErrCorrupt then recover_frames ve emb ob fs (s', r\<lparr>rvForeign := rvForeign r + 1\<rparr>)
       else (Inl e, (s', r))
   | (Inr embedded, s') \<Rightarrow> recover_frames ve emb ob fs (s', r\<lparr>rvRecovered := rvRecovered r + 1,
         rvEmbedded := rvEmbedded r + (if embedded then 1 else 0)\<rparr>))"

definition recover_object :: "'n venv \<Rightarrow> bool \<Rightarrow> stored_object \<Rightarrow> ('n vault \<times> recovery_report, unit) step" where
  "recover_object ve emb ob =
    sbind (in_report (\<lambda>r. r\<lparr>rvObjects := rvObjects r + 1\<rparr>)) (\<lambda>_.
    sbind (wrapping ''read object: '' (in_vault (\<lambda>s. (ReadObject ve ob s, s)))) (\<lambda>payload.
    case Frames payload of (fs, damage) \<Rightarrow>
      sbind (in_report (\<lambda>r. r\<lparr>rvFrames := rvFrames r + int (length fs), rvDamaged := rvDamaged r + (if damage = None then 0 else 1)\<rparr>)) (\<lambda>_.
        recover_frames ve emb ob fs)))"

definition Recover :: "'n venv \<Rightarrow> bool \<Rightarrow> ('n vault \<times> recovery_report, unit) run" where
  "Recover ve emb =
    (if \<not> vnOnline ve then prun (sfail errOffline)
     else pbind (prun (in_report (\<lambda>_. no_recovery))) (\<lambda>_.
       pbind (in_walk ve) (\<lambda>(stats, objects).
         prun (finally_report (\<lambda>r. r\<lparr>rvUnreadable := int (length (wsUnreadable stats))\<rparr>)
           (smap_list (recover_object ve emb) objects)))))"

section \<open>What a hydration may not do\<close>

text \<open>Runs that keep an invariant, whatever they answer.\<close>

definition run_preserves :: "('s \<Rightarrow> bool) \<Rightarrow> ('s, 'a) run \<Rightarrow> bool" where
  "run_preserves P m \<longleftrightarrow> (\<forall>s r t. m s = Some (r, t) \<longrightarrow> P s \<longrightarrow> P t)"

lemma run_preservesI: "(\<And>s r t. m s = Some (r, t) \<Longrightarrow> P s \<Longrightarrow> P t) \<Longrightarrow> run_preserves P m"
  by (simp add: run_preserves_def)

lemma run_preservesD: "run_preserves P m \<Longrightarrow> m s = Some (r, t) \<Longrightarrow> P s \<Longrightarrow> P t"
  by (simp add: run_preserves_def)

lemma run_preserves_prun: "preserves P m \<Longrightarrow> run_preserves P (prun m)"
  by (auto simp: run_preserves_def prun_def dest: preservesD)

lemma run_preserves_pbind:
  assumes "run_preserves P m" and "\<And>x. run_preserves P (k x)"
  shows "run_preserves P (pbind m k)"
proof (rule run_preservesI)
  fix s r t assume m: "pbind m k s = Some (r, t)" and "P s"
  then obtain y s1 where y: "m s = Some (y, s1)" by (auto simp: pbind_def split: option.splits)
  have "P s1" by (rule run_preservesD [OF assms(1) y \<open>P s\<close>])
  then show "P t" using m y run_preservesD [OF assms(2)] by (cases y) (auto simp: pbind_def)
qed

lemma preserves_in_vault: "(\<And>r. preserves (\<lambda>s. P (s, r)) m) \<Longrightarrow> preserves P (in_vault m)"
  by (rule preservesI) (auto simp: in_vault_def preserves_def split: prod.splits, metis snd_conv)

lemma preserves_in_report: "(\<And>s r. P (s, r) \<Longrightarrow> P (s, f r)) \<Longrightarrow> preserves P (in_report f)"
  by (auto simp: in_report_def intro!: preserves_smod split: prod.splits)

lemma preserves_wrapping: "preserves P m \<Longrightarrow> preserves P (wrapping p m)"
  by (auto simp: preserves_def wrapping_def split: prod.splits sum.splits)

text \<open>The device may release what it might have released before, and no more.\<close>

definition rights_within :: "ledger \<Rightarrow> 'n vault \<Rightarrow> bool" where
  "rights_within l s \<longleftrightarrow> (\<forall>j. releasable (vaLedger s) j \<longrightarrow> releasable l j)"

lemma rights_kept: "keeps vaLedger m \<Longrightarrow> preserves (rights_within l) m"
  by (rule preservesI) (simp add: rights_within_def keeps_at)

lemma releasable_adopt: "releasable (AdoptSlab now i n b t) j \<Longrightarrow> releasable t j"
  by (auto simp: releasable_def AdoptSlab_def trackSlab_def SlabOrigin_Releasable_def SlabHydrated_def SlabPinned_def
      split: option.splits if_splits)

lemma rights_adopt: "preserves (rights_within l) (on_reclaimer (Adopt rc i n b))"
  by (rule preservesI)
    (auto simp: rights_within_def on_reclaimer_def Adopt_def stmt_def sret_def rworld_of_def vault_of_def
      split: prod.splits option.splits dest: releasable_adopt)

lemma keeps_ledger_parts [simp]:
  "keeps vaLedger (on_vectors ve v)" "keeps vaLedger (on_index g)" "keeps vaLedger (put_meta ve mt)"
  "keeps vaLedger (on_heads h)" "keeps vaLedger (on_catalog ve c)" "keeps vaLedger (put_body ve i k b)"
  by (auto intro!: keepsI simp: on_vectors_def on_index_def step_defs put_meta_def on_heads_def on_catalog_def put_body_def
      split: prod.splits)

lemma keeps_ledger_putVector [simp]: "keeps vaLedger (putVector ve i v)"
proof -
  have "keeps vaLedger (smod (\<lambda>s. s\<lparr>vaHealth := f s\<rparr>))" for f :: "'a vault \<Rightarrow> index_health"
    by (rule keepsI) (simp add: smod_def)
  moreover have "keeps vaLedger (compactVectorsIfDue ve)"
    by (rule keepsI) (simp add: compactVectorsIfDue_def read_and_compact_def keeps_at)
  ultimately show ?thesis unfolding putVector_def by (intro keeps_sbind keeps_ledger_parts keeps_pure)
qed

text \<open>An invariant of the vault that every write of a hydration keeps is kept by the loop over the objects.\<close>

locale hydration_invariant =
  fixes P :: "'n vault \<Rightarrow> bool" and ve :: "'n venv"
  assumes catalogs: "preserves P (on_catalog ve c :: ('n vault, unit) step)"
    and stores: "preserves P (put_body ve i k b)" and describes: "preserves P (put_meta ve m)"
    and indexes: "preserves P (putVector ve i v)"
    and adopts: "preserves P (on_reclaimer (Adopt (vnReclaimer ve) sl n z))"
begin

abbreviation kept :: "'n vault \<times> hydrate_report \<Rightarrow> bool" where
  "kept \<equiv> (\<lambda>(s, r). P s)"

lemma report_kept: "preserves kept (in_report f)"
  by (rule preserves_in_report) simp

lemma frame_kept: "preserves kept (hydrateFrame ve depth ob f)"
  unfolding hydrateFrame_def hydrate_body_def
  by (intro preserves_sbind preserves_pure)
    (auto intro!: preserves_sbind report_kept preserves_in_vault catalogs stores describes indexes adopts)

lemma frames_kept: "preserves kept (hydrate_frames ve depth ob fs)"
proof (induction fs)
  case (Cons f fs)
  show ?case
  proof (rule preservesI)
    fix w assume w: "kept w"
    obtain x s r where x: "hydrateFrame ve depth ob f w = (x, (s, r))" by (cases "hydrateFrame ve depth ob f w") auto
    have "P s" using preservesD [OF frame_kept w, of depth ob f] x by simp
    then have "kept (snd (hydrate_frames ve depth ob fs (s, r')))" for r' using preservesD [OF Cons.IH, of "(s, r')"] by simp
    then show "kept (snd (hydrate_frames ve depth ob (f # fs) w))" using \<open>P s\<close> x by (auto split: sum.split)
  qed
qed simp

lemma object_kept: "preserves kept (hydrate_object ve depth ob)"
proof -
  have "preserves (\<lambda>s. P s) (\<lambda>s. (ReadObject ve ob s, s))" by (rule preservesI) simp
  then show ?thesis
    unfolding hydrate_object_def
    by (auto intro!: preserves_sbind report_kept preserves_wrapping preserves_in_vault frames_kept split: prod.split)
qed

lemma objects_kept: "preserves kept (smap_list (hydrate_object ve depth) obs)"
  by (intro preserves_smap_list object_kept)

end

interpretation rights: hydration_invariant "rights_within l" ve for l ve
  by unfold_locales (auto intro: rights_kept rights_adopt)

lemma preserves_finally: "preserves P m \<Longrightarrow> (\<And>s r. P (s, r) \<Longrightarrow> P (s, f r)) \<Longrightarrow> preserves P (finally_report f m)"
  by (force simp: preserves_def finally_report_def split: prod.splits)

lemma fetchBody_ledger:
  assumes "fetchBody ve i s = Some (r, t)"
  shows "vaLedger t = vaLedger s"
proof -
  have c: "fetchCached ve en ref w = Some (x, w') \<Longrightarrow> vaLedger w' = vaLedger w" for en ref w x w'
    by (auto simp: fetchCached_def forgetLocation_def split: sum.splits option.splits if_splits)
  have f: "fetchRemote ve en ref w = Some (x, w') \<Longrightarrow> vaLedger w' = vaLedger w" for en ref w x w'
    unfolding fetchRemote_def
    by (auto simp: pbind_def prun_def step_defs LocationFor_def cacheLocation_def countMiss_def dest!: on_network_sel dest: c
        split: sum.splits option.splits prod.splits)
  show ?thesis
    using assms
    by (auto simp: fetchBody_def pbind_def prun_def step_defs put_body_def countRead_def countMiss_def Let_def dest: f
        split: sum.splits option.splits prod.splits if_splits)
qed

lemma gather_ledger: "gather_chunks ve is g s = Some (r, t) \<Longrightarrow> vaLedger t = vaLedger s"
proof (induction "is" arbitrary: g s)
  case (Cons i "is")
  obtain x s1 where x: "Vault_chunk ve i s = Some (x, s1)" using Cons.prems by (auto split: option.splits)
  have l: "vaLedger s1 = vaLedger s"
    using x by (auto simp: Vault_chunk_def pbind_def prun_def step_defs count_chunk_def dest: fetchBody_ledger
        split: option.splits sum.splits prod.splits if_splits)
  obtain g' where "gather_chunks ve is g' s1 = Some (r, t)" using Cons.prems x by (cases x) auto
  from Cons.IH [OF this] l show ?case by simp
qed simp

lemma keeps_ledger_rebuildHead: "keeps vaLedger (rebuildHead ve q i cs links)"
proof -
  have "keeps vaLedger (storeRebuiltHead ve h emb)" for h emb
    unfolding storeRebuiltHead_def by (intro keeps_sbind keeps_peek) (auto intro!: keeps_sbind split: prod.split)
  then show ?thesis unfolding rebuildHead_def Let_def by (auto intro!: keeps_sbind keeps_peek)
qed

lemma keeps_ledger_rebuild_all: "keeps vaLedger (rebuild_all ve q groups links is r)"
  by (induction "is" arbitrary: r) (auto intro!: keeps_sbind keeps_ledger_rebuildHead)

lemma rebuild_ledger:
  assumes "RebuildSessions ve q s = Some (r, t)"
  shows "vaLedger t = vaLedger s"
proof -
  let ?P = "\<lambda>t. vaLedger t = vaLedger s"
  have "run_preserves ?P (groupChunksBySession ve)"
    by (rule run_preservesI)
      (auto simp: groupChunksBySession_def pbind_def prun_def sret_def dest: gather_ledger split: option.splits sum.splits)
  moreover have "preserves ?P (sbind (\<lambda>s. (memoryBacklinks ve s, s)) (\<lambda>links. rebuild_all ve q g links is r))" for g "is" r
    by (intro preserves_sbind keeps_preserves keeps_peek keeps_ledger_rebuild_all)
  ultimately have "run_preserves ?P (RebuildSessions ve q)"
    unfolding RebuildSessions_def by (intro run_preserves_pbind run_preserves_prun)
  from run_preservesD [OF this assms] show ?thesis by simp
qed

lemma rights_rebuild: "run_preserves (\<lambda>(s, r). rights_within l s) (in_rebuild ve q)"
  by (rule run_preservesI) (auto simp: in_rebuild_def rights_within_def dest!: rebuild_ledger split: option.splits)

text \<open>C33. A hydration takes on a share of the slabs it reads from and never the right to destroy them.  At any depth,
  however it ends and whatever the objects of the account hold, every slab the ledger of this device calls releasable
  afterwards was releasable before.
\<close>

theorem hydrate_grants_no_rights:
  assumes "Hydrate ve depth (s, r) = Some (x, (t, r'))" and "releasable (vaLedger t) j"
  shows "releasable (vaLedger s) j"
proof -
  let ?P = "\<lambda>(t, r :: hydrate_report). rights_within (vaLedger s) t"
  have "run_preserves ?P (in_walk ve)"
    by (rule run_preservesI) (auto simp: in_walk_def rights_within_def split: option.splits)
  moreover have "preserves ?P (finally_report f (smap_list (hydrate_object ve d) obs))" for f d obs
    by (intro preserves_finally rights.objects_kept) simp
  ultimately have "run_preserves ?P (Hydrate ve depth)"
    unfolding Hydrate_def Let_def
    by (auto intro!: run_preserves_pbind run_preserves_prun rights.report_kept rights_rebuild)
  from run_preservesD [OF this assms(1)] assms(2) show ?thesis by (simp add: rights_within_def)
qed

section \<open>What a hydration restores\<close>

lemma net_adopt: "preserves (\<lambda>s. vaNet s = n) (on_reclaimer (Adopt rc i k b))"
  by (rule preservesI)
    (auto simp: on_reclaimer_def Adopt_def stmt_def sret_def rworld_of_def vault_of_def split: prod.splits option.splits)

lemma keeps_net_parts [simp]:
  "keeps vaNet (on_vectors ve v)" "keeps vaNet (on_index g)" "keeps vaNet (put_meta ve mt)"
  "keeps vaNet (on_catalog ve c)" "keeps vaNet (put_body ve i k b)"
  by (auto intro!: keepsI simp: on_vectors_def on_index_def step_defs put_meta_def on_catalog_def put_body_def
      split: prod.splits)

lemma keeps_net_putVector [simp]: "keeps vaNet (putVector ve i v)"
proof -
  have "keeps vaNet (smod (\<lambda>s. s\<lparr>vaHealth := f s\<rparr>))" for f :: "'a vault \<Rightarrow> index_health"
    by (rule keepsI) (simp add: smod_def)
  moreover have "keeps vaNet (compactVectorsIfDue ve)"
    by (rule keepsI) (simp add: compactVectorsIfDue_def read_and_compact_def keeps_at)
  ultimately show ?thesis unfolding putVector_def by (intro keeps_sbind keeps_net_parts keeps_pure)
qed

interpretation served: hydration_invariant "\<lambda>s. vaNet s = n" ve for n ve
  by unfold_locales (auto intro: keeps_preserves net_adopt)

text \<open>The frames of an account that open under the vault's key, object by object.\<close>

definition opened_frames :: "'n venv \<Rightarrow> frame list \<Rightarrow> (frame \<times> byte list) list" where
  "opened_frames ve fs = concat (map (\<lambda>f. case Open (vnCrypto ve) (vnSealer ve) (frSealed f) of
     Inl e \<Rightarrow> [] | Inr body \<Rightarrow> [(f, body)]) fs)"

definition on_account :: "'n venv \<Rightarrow> 'n \<Rightarrow> stored_object list \<Rightarrow> (frame \<times> byte list) list" where
  "on_account ve n obs = concat (map (\<lambda>ob. case vnRead ve n (stObject ob) of
     Inl e \<Rightarrow> [] | Inr payload \<Rightarrow> opened_frames ve (fst (Frames payload))) obs)"

text \<open>What restoring them leaves: their bodies, written in order, and a catalog entry for each.\<close>

definition put_frames :: "'n venv \<Rightarrow> (frame \<times> byte list) list \<Rightarrow> bodies \<Rightarrow> bodies" where
  "put_frames ve opened b = foldl (\<lambda>b (f, body). PutBody (vnNow ve) (frID f) (frKind f) body b) b opened"

definition entry_of :: "(frame \<times> byte list) list \<Rightarrow> recid \<Rightarrow> mentry option \<Rightarrow> bool" where
  "entry_of opened i en \<longleftrightarrow> (\<exists>e f b. en = Some e \<and> \<not> enDeleted e \<and> enKind e = frKind f \<and> (f, b) \<in> set opened \<and> frID f = i)"

definition hydrated :: "'n venv \<Rightarrow> (frame \<times> byte list) list \<Rightarrow> 'n vault \<Rightarrow> 'n vault \<Rightarrow> bool" where
  "hydrated ve opened s t \<longleftrightarrow> vaHeads t = vaHeads s \<and> vaBodies t = put_frames ve opened (vaBodies s)
     \<and> (catalog_wf (vaManifest s) \<longrightarrow> catalog_wf (vaManifest t))
     \<and> (\<forall>i. if i \<in> frID ` fst ` set opened then entry_of opened i (mfEntries (vaManifest t) i)
            else mfEntries (vaManifest t) i = mfEntries (vaManifest s) i)
     \<and> (\<forall>(f, b) \<in> set opened. frKind f = KindChunk \<longrightarrow> (\<exists>c. vnUnmarshalChunk ve b = Inr c \<and> chID c = frID f))"

lemma hydrated_refl: "hydrated ve [] s s"
  by (simp add: hydrated_def put_frames_def)

lemma hydrated_trans:
  assumes "hydrated ve o1 s s1" and "hydrated ve o2 s1 t"
  shows "hydrated ve (o1 @ o2) s t"
proof -
  have e: "entry_of o1 i en \<or> entry_of o2 i en \<Longrightarrow> entry_of (o1 @ o2) i en" for i en by (auto simp: entry_of_def)
  have "if i \<in> frID ` fst ` set (o1 @ o2) then entry_of (o1 @ o2) i (mfEntries (vaManifest t) i)
      else mfEntries (vaManifest t) i = mfEntries (vaManifest s) i" for i
  proof (cases "i \<in> frID ` fst ` set o2")
    case True
    then have "entry_of o2 i (mfEntries (vaManifest t) i)" using assms(2) by (simp add: hydrated_def)
    then show ?thesis using e True by auto
  next
    case False
    then have "mfEntries (vaManifest t) i = mfEntries (vaManifest s1) i" using assms(2) by (simp add: hydrated_def)
    moreover have "if i \<in> frID ` fst ` set o1 then entry_of o1 i (mfEntries (vaManifest s1) i)
      else mfEntries (vaManifest s1) i = mfEntries (vaManifest s) i" using assms(1) by (simp add: hydrated_def)
    ultimately show ?thesis using e False by (auto split: if_splits)
  qed
  then show ?thesis using assms by (auto simp: hydrated_def put_frames_def)
qed

lemma in_vault_eq [simp]: "in_vault m (s, r) = (x, (t, r')) \<longleftrightarrow> m s = (x, t) \<and> r' = r"
  by (auto simp: in_vault_def split: prod.splits)

lemma in_report_eq [simp]: "in_report f (s, r) = (Inr (), (s, f r))"
  by (simp add: in_report_def smod_def)

lemma catalogEntry_Inr:
  assumes "catalogEntry ve f ob body k = Inr e"
  shows "enID e = frID f" "enKind e = frKind f" "\<not> enDeleted e"
    "frKind f = KindChunk \<Longrightarrow> \<exists>c. vnUnmarshalChunk ve body = Inr c \<and> chID c = frID f"
  using assms by (auto simp: catalogEntry_def Let_def split: if_splits sum.splits)

lemma hydrated_catalog:
  assumes "on_catalog ve (\<lambda>io. Manifest_Append (vnCatalog ve) io e) s = (Inr u, s1)"
    and "on_reclaimer (Adopt rc i n z) s1 = (Inr w, s2)"
  shows "vaHeads s2 = vaHeads s \<and> vaBodies s2 = vaBodies s \<and> (catalog_wf (vaManifest s) \<longrightarrow> catalog_wf (vaManifest s2))
    \<and> mfEntries (vaManifest s2) = (mfEntries (vaManifest s))(enID e \<mapsto> e)"
proof -
  obtain io mf where mf: "Manifest_Append (vnCatalog ve) io e (vaManifest s) = (Inr u, mf)"
    "s1 = s\<lparr>vaManifest := mf, vaFileOps := vaFileOps s + 1\<rparr>" using on_catalog_Inr [OF assms(1)] by blast
  have "(mfEntries mf, mfOrder mf) = put_entry enID e (mfEntries (vaManifest s), mfOrder (vaManifest s))"
    using Manifest_Append_put [OF mf(1)] by auto
  then have wf: "catalog_wf (vaManifest s) \<longrightarrow> catalog_wf mf" using view_wf_put unfolding catalog_wf_def by metis
  have "vaHeads s2 = vaHeads s1 \<and> vaBodies s2 = vaBodies s1 \<and> vaManifest s2 = vaManifest s1"
    using assms(2) by (auto simp: on_reclaimer_def Adopt_def stmt_def sret_def rworld_of_def vault_of_def split: prod.splits option.splits if_splits)
  with mf(2) wf Manifest_Append_Inr [OF mf(1)] show ?thesis by simp
qed

lemma putVector_frame:
  assumes "putVector ve i v s = (x, t)"
  shows "vaHeads t = vaHeads s" "vaBodies t = vaBodies s" "vaManifest t = vaManifest s"
  using keeps_step [OF keeps_device_putVector assms] keeps_step [OF keeps_manifest_putVector assms] by (simp_all add: on_device_def)

lemma hydrate_body_Inr:
  assumes "hydrate_body ve depth f body (s, r) = (x, (t, r'))"
  shows "vaHeads t = vaHeads s \<and> vaManifest t = vaManifest s \<and> vaBodies t = PutBody (vnNow ve) (frID f) (frKind f) body (vaBodies s)"
proof -
  let ?P = "\<lambda>(t, r :: hydrate_report). vaHeads t = vaHeads s \<and> vaManifest t = vaManifest s
     \<and> vaBodies t = PutBody (vnNow ve) (frID f) (frKind f) body (vaBodies s)"
  have v: "preserves ?P (in_vault (putVector ve i v))" for i v
    by (rule preserves_in_vault, rule preservesI) (simp add: putVector_frame [OF surjective_pairing])
  have m: "preserves ?P (in_vault (put_meta ve m))" for m
    by (rule preserves_in_vault) (simp add: put_meta_def preserves_smod)
  have rp: "preserves ?P (in_report g)" for g by (rule preserves_in_report) simp
  obtain s1 where s1: "put_body ve (frID f) (frKind f) body s = (Inr (), s1)" "?P (s1, r1)" for r1
    by (simp add: put_body_def smod_def)
  let ?k = "if frKind f = KindChunk then sret ()
      else sbind (slift (case vnUnmarshal ve body of Inl e \<Rightarrow> Inl (wrap_err ''record: '' e) | Inr m \<Rightarrow> Inr m)) (\<lambda>m.
           sbind (in_vault (put_meta ve (rankingMeta m))) (\<lambda>_.
             if \<not> Depth_includes depth HydrateIndex then sret ()
             else sbind (slift (case vnEmbed ve (Memory_IndexText m) of Inl e \<Rightarrow> Inl (wrap_err ''re-embed: '' e) | Inr v \<Rightarrow> Inr v)) (\<lambda>v.
                  sbind (in_vault (putVector ve (frID f) v)) (\<lambda>_.
                    in_report (\<lambda>r. r\<lparr>hyEmbedded := hyEmbedded r + 1\<rparr>)))))"
  have k: "preserves ?P ?k" by (auto intro!: preserves_sbind v m rp)
  have "hydrate_body ve depth f body (s, r) = ?k (s1, r\<lparr>hyBodies := hyBodies r + 1\<rparr>)"
    unfolding hydrate_body_def by (subst sbind_def, subst sbind_def) (simp only: in_vault_def s1(1) in_report_eq prod.case sum.case)
  with preservesD [OF k s1(2)] have "?P (snd (hydrate_body ve depth f body (s, r)))" by (simp only:)
  then show ?thesis using assms by simp
qed

lemma hydrateFrame_Inr:
  assumes "hydrateFrame ve depth ob f (s, r) = (Inr u, (t, r'))" and "Depth_includes depth HydrateMetadata"
  shows "\<exists>body. Open (vnCrypto ve) (vnSealer ve) (frSealed f) = Inr body \<and> hydrated ve [(f, body)] s t"
proof -
  obtain body e u1 s1 u2 s2 where o: "Open (vnCrypto ve) (vnSealer ve) (frSealed f) = Inr body"
    and e: "catalogEntry ve f ob body (Sealer_CID (vnCrypto ve) (vnSealer ve) body) = Inr e"
    and s1: "on_catalog ve (\<lambda>io. Manifest_Append (vnCatalog ve) io e) s = (Inr u1, s1)"
    and s2: "on_reclaimer (Adopt (vnReclaimer ve) (stSlab ob) 1 (int (length (frSealed f)))) s1 = (Inr u2, s2)"
    and t: "hydrate_body ve depth f body (s2, r) = (Inr u, (t, r'))"
    using assms by (auto simp: hydrateFrame_def sbind_Inr_iff slift_def)
  have "hydrated ve [(f, body)] s t"
    using hydrate_body_Inr [OF t] hydrated_catalog [OF s1 s2] catalogEntry_Inr [OF e]
    by (auto simp: hydrated_def put_frames_def entry_of_def)
  with o show ?thesis by blast
qed

lemma hydrateFrame_foreign:
  "Open (vnCrypto ve) (vnSealer ve) (frSealed f) = Inl e \<Longrightarrow> hydrateFrame ve depth ob f w = (Inl e, w)"
  by (simp add: hydrateFrame_def sbind_def slift_def)

lemma records_in_vault: "preserves (\<lambda>(s, r). hyRecords r = n) (in_vault m)"
  by (rule preserves_in_vault) (simp add: preserves_def)

lemma hydrateFrame_records:
  assumes "hydrateFrame ve depth ob f (s, r) = (x, (t, r'))"
  shows "hyRecords r' = hyRecords r"
proof -
  have "preserves (\<lambda>(s', r'). hyRecords r' = hyRecords r) (hydrateFrame ve depth ob f)"
    unfolding hydrateFrame_def hydrate_body_def
    by (intro preserves_sbind preserves_pure records_in_vault)
      (auto intro!: preserves_sbind records_in_vault preserves_in_report)
  from preservesD [OF this, of "(s, r)"] assms show ?thesis by simp
qed

text \<open>
  \<open>seal.ErrCorrupt\<close> is a value of this program: no codec, database, embedder or random source of its surroundings returns it.  So once a
  frame has opened, nothing that can go wrong with it is taken for a frame of somebody else's.
\<close>

definition corrupt_is_ours :: "'n venv \<Rightarrow> bool" where
  "corrupt_is_ours ve \<longleftrightarrow> (\<forall>e. errors_Is e ErrCorrupt \<longrightarrow>
     (\<forall>b. vnUnmarshal ve b \<noteq> Inl e \<and> vnUnmarshalChunk ve b \<noteq> Inl e) \<and> (\<forall>x. vnEmbed ve x \<noteq> Inl e) \<and> (\<forall>q. rcDB (vnReclaimer ve) q \<noteq> Some e)
     \<and> (\<forall>en. meMarshal (vnCatalog ve) en \<noteq> Inl e) \<and> (\<forall>k. meRand (vnCatalog ve) k \<noteq> Inl e)
     \<and> (\<forall>k b. vsSeal (vnVectorSealer ve) k b \<noteq> Inl e))"

definition not_corrupt :: "('s, 'a) step \<Rightarrow> bool" where
  "not_corrupt m \<longleftrightarrow> (\<forall>s e t. m s = (Inl e, t) \<longrightarrow> \<not> errors_Is e ErrCorrupt)"

lemma not_corrupt_sbind: "not_corrupt m \<Longrightarrow> (\<And>x. not_corrupt (k x)) \<Longrightarrow> not_corrupt (sbind m k)"
  unfolding not_corrupt_def by (auto simp: sbind_def split: sum.splits prod.splits)

lemma not_corrupt_simple:
  "not_corrupt (sret x)" "not_corrupt (smod f)" "not_corrupt (in_report g)" "not_corrupt (put_body ve i k b)" "not_corrupt (put_meta ve mt)"
  "not_corrupt (slift r) \<longleftrightarrow> (\<forall>e. r = Inl e \<longrightarrow> \<not> errors_Is e ErrCorrupt)"
  by (auto simp: not_corrupt_def step_defs in_report_def put_body_def put_meta_def)

lemma not_corrupt_in_vault: "not_corrupt m \<Longrightarrow> not_corrupt (in_vault m)"
  by (auto simp: not_corrupt_def in_vault_def split: prod.splits)

lemma encodeEntry_not_corrupt:
  assumes "\<And>e. errors_Is e ErrCorrupt \<Longrightarrow> (\<forall>en. meMarshal env en \<noteq> Inl e) \<and> (\<forall>k. meRand env k \<noteq> Inl e)"
  shows "encodeEntry env n en = Inl e \<Longrightarrow> \<not> errors_Is e ErrCorrupt"
  using assms by (fastforce simp: encodeEntry_def Seal_def split: sum.splits)

lemma Manifest_Append_not_corrupt:
  assumes "\<And>e. errors_Is e ErrCorrupt \<Longrightarrow> (\<forall>en. meMarshal env en \<noteq> Inl e) \<and> (\<forall>k. meRand env k \<noteq> Inl e)"
  shows "Manifest_Append env io en m = (Inl e, m') \<Longrightarrow> \<not> errors_Is e ErrCorrupt"
proof -
  have enc: "encodeEntry env k x = Inl e \<Longrightarrow> errors_Is e ErrCorrupt \<Longrightarrow> False" for k x
    using encodeEntry_not_corrupt assms by blast
  have w: "write_pending env io i es r buf = (Inl e, r') \<Longrightarrow> \<not> errors_Is e ErrCorrupt" for i es r buf r'
    by (induction es arbitrary: i r buf) (auto split: sum.splits if_splits intro: enc)
  have c: "Manifest_Compact env io m1 = (Inl e, m') \<Longrightarrow> \<not> errors_Is e ErrCorrupt" for m1
    by (auto simp: Manifest_Compact_def Log_compact_def Let_def split: prod.splits sum.splits if_splits dest: w)
  show "Manifest_Append env io en m = (Inl e, m') \<Longrightarrow> \<not> errors_Is e ErrCorrupt"
    by (auto simp: Manifest_Append_def Manifest_append_def Log_Append_def Let_def split: prod.splits sum.splits if_splits dest: c intro: enc)
qed

lemma vectors_not_corrupt:
  assumes "\<And>e. errors_Is e ErrCorrupt \<Longrightarrow> (\<forall>k b. vsSeal vs k b \<noteq> Inl e)"
  shows "not_corrupt (Store_Append vs io es)" "not_corrupt (Store_Compact vs io es)"
proof -
  have enc: "vec_encodeEntry vs n x = Inl e \<Longrightarrow> \<not> errors_Is e ErrCorrupt" for n x e
    using assms by (fastforce simp: vec_encodeEntry_def split: if_splits sum.splits)
  have a: "append_lines vs io i es st = (Inl e, st') \<Longrightarrow> \<not> errors_Is e ErrCorrupt" for i es st e st'
    by (induction es arbitrary: i st) (auto simp: Let_def split: sum.splits if_splits dest: enc)
  have w: "write_base vs io i es r buf = (Inl e, r') \<Longrightarrow> \<not> errors_Is e ErrCorrupt" for i es r buf e r'
    by (induction es arbitrary: i r buf) (auto split: sum.splits if_splits dest: enc)
  show "not_corrupt (Store_Append vs io es)"
    by (auto simp: not_corrupt_def Store_Append_def split: if_splits prod.splits sum.splits dest: a)
  show "not_corrupt (Store_Compact vs io es)"
    by (auto simp: not_corrupt_def Store_Compact_def Let_def split: if_splits prod.splits sum.splits dest: w)
qed

lemma putVector_not_corrupt:
  assumes "corrupt_is_ours ve"
  shows "not_corrupt (putVector ve i v)"
proof -
  have vs: "errors_Is e ErrCorrupt \<Longrightarrow> (\<forall>k b. vsSeal (vnVectorSealer ve) k b \<noteq> Inl e)" for e
    using assms by (simp add: corrupt_is_ours_def)
  have on: "not_corrupt (on_vectors ve m)" if "\<And>io. not_corrupt (m io)" for m :: "io \<Rightarrow> (vstore, 'b) step"
    using that by (auto simp: not_corrupt_def on_vectors_def split: prod.splits)
  have ix: "not_corrupt (on_index (Index_Add i model v))" for model
    by (auto simp: not_corrupt_def on_index_def Index_Add_def split: prod.splits if_splits option.splits)
  have "not_corrupt (compactVectorsIfDue ve)"
  proof -
    have "not_corrupt (\<lambda>st. case Store_Read (vnVectorSealer ve) io st of
        Inl e \<Rightarrow> (Inl (wrap_err msg e), st) | Inr es \<Rightarrow> Store_Compact (vnVectorSealer ve) io es st)" for io msg
      using vectors_not_corrupt(2) [OF vs] by (auto simp: not_corrupt_def Store_Read_def split: if_splits)
    then have "not_corrupt (read_and_compact ve msg)" for msg unfolding read_and_compact_def by (rule on)
    then show ?thesis by (auto simp: not_corrupt_def compactVectorsIfDue_def split: if_splits)
  qed
  then show ?thesis
    unfolding putVector_def by (intro not_corrupt_sbind on vectors_not_corrupt(1) vs ix not_corrupt_simple)
qed

lemma hydrateFrame_not_corrupt:
  assumes ours: "corrupt_is_ours ve" and o: "Open (vnCrypto ve) (vnSealer ve) (frSealed f) = Inr body"
    and run: "hydrateFrame ve depth ob f w = (Inl e, w')"
  shows "\<not> errors_Is e ErrCorrupt"
proof -
  let ?c = "catalogEntry ve f ob body (Sealer_CID (vnCrypto ve) (vnSealer ve) body)"
  have codec: "vnUnmarshal ve b = Inl e \<Longrightarrow> \<not> errors_Is e ErrCorrupt" "vnUnmarshalChunk ve b = Inl e \<Longrightarrow> \<not> errors_Is e ErrCorrupt"
    "vnEmbed ve x = Inl e \<Longrightarrow> \<not> errors_Is e ErrCorrupt" "rcDB (vnReclaimer ve) q = Some e \<Longrightarrow> \<not> errors_Is e ErrCorrupt" for b x q e
    using ours by (auto simp: corrupt_is_ours_def)
  have cat: "not_corrupt (on_catalog ve (\<lambda>io. Manifest_Append (vnCatalog ve) io en))" for en
    using Manifest_Append_not_corrupt [of "vnCatalog ve"] ours
    by (auto simp: not_corrupt_def on_catalog_def corrupt_is_ours_def split: prod.splits)
  have adopt: "not_corrupt (on_reclaimer (Adopt (vnReclaimer ve) i n b))" for i n b
    using codec(4) by (auto simp: not_corrupt_def on_reclaimer_def Adopt_def stmt_def sret_def split: prod.splits option.splits if_splits)
  have entry: "not_corrupt (slift ?c)"
    using codec(1,2) by (auto simp: not_corrupt_simple catalogEntry_def Let_def split: if_splits sum.splits)
  have re: "not_corrupt (slift (case r of Inl e \<Rightarrow> Inl (wrap_err m e) | Inr x \<Rightarrow> Inr x))"
    if "\<And>e. r = Inl e \<Longrightarrow> \<not> errors_Is e ErrCorrupt" for r :: "'x res" and m
    using that by (auto simp: not_corrupt_simple split: sum.splits)
  have body: "not_corrupt (hydrate_body ve depth f body)"
    unfolding hydrate_body_def
    by (auto intro!: not_corrupt_sbind not_corrupt_simple not_corrupt_in_vault re putVector_not_corrupt [OF ours] dest: codec)
  have "not_corrupt (sbind (slift ?c) (\<lambda>entry. sbind (in_vault (on_catalog ve (\<lambda>io. Manifest_Append (vnCatalog ve) io entry))) (\<lambda>_.
    sbind (in_vault (on_reclaimer (Adopt (vnReclaimer ve) (stSlab ob) 1 (int (length (frSealed f)))))) (\<lambda>_.
      if \<not> Depth_includes depth HydrateMetadata then sret () else hydrate_body ve depth f body))))"
    by (auto intro!: not_corrupt_sbind entry not_corrupt_in_vault cat adopt body not_corrupt_simple)
  moreover have "hydrateFrame ve depth ob f = sbind (slift ?c) (\<lambda>entry. sbind (in_vault (on_catalog ve (\<lambda>io. Manifest_Append (vnCatalog ve) io entry))) (\<lambda>_.
    sbind (in_vault (on_reclaimer (Adopt (vnReclaimer ve) (stSlab ob) 1 (int (length (frSealed f)))))) (\<lambda>_.
      if \<not> Depth_includes depth HydrateMetadata then sret () else hydrate_body ve depth f body)))"
    by (simp add: fun_eq_iff hydrateFrame_def sbind_def [of "slift (Inr body)"] slift_def o)
  ultimately show ?thesis using run unfolding not_corrupt_def by (metis (no_types))
qed

text \<open>Every frame that opens is counted and restored, and no other.\<close>

lemma hydrate_frames_Inr:
  assumes "hydrate_frames ve depth ob fs (s, r) = (Inr u, (t, r'))" and d: "Depth_includes depth HydrateMetadata"
    and ours: "corrupt_is_ours ve"
  shows "hyRecords r' = hyRecords r + int (length (opened_frames ve fs)) \<and> hydrated ve (opened_frames ve fs) s t"
  using assms(1)
proof (induction fs arbitrary: s r)
  case Nil
  then show ?case by (simp add: sret_def opened_frames_def hydrated_refl)
next
  case (Cons f fs)
  obtain x s1 r1 where x: "hydrateFrame ve depth ob f (s, r) = (x, (s1, r1))" by (cases "hydrateFrame ve depth ob f (s, r)") auto
  have n: "hyRecords r1 = hyRecords r" by (rule hydrateFrame_records [OF x])
  show ?case
  proof (cases x)
    case (Inl e)
    then have rest: "hydrate_frames ve depth ob fs (s1, r1\<lparr>hyForeign := hyForeign r1 + 1\<rparr>) = (Inr u, (t, r'))" "errors_Is e ErrCorrupt"
      using Cons.prems x by (auto split: if_splits)
    obtain e' where e': "Open (vnCrypto ve) (vnSealer ve) (frSealed f) = Inl e'"
      using hydrateFrame_not_corrupt [OF ours _ x [unfolded Inl]] rest(2) by (cases "Open (vnCrypto ve) (vnSealer ve) (frSealed f)") auto
    then have "s1 = s" "opened_frames ve (f # fs) = opened_frames ve fs"
      using x hydrateFrame_foreign [of ve f e' depth ob "(s, r)"] by (simp_all add: opened_frames_def)
    then show ?thesis using Cons.IH [OF rest(1)] n by simp
  next
    case (Inr v)
    then have rest: "hydrate_frames ve depth ob fs (s1, r1\<lparr>hyRecords := hyRecords r1 + 1, hySlabs := List.insert (stSlab ob) (hySlabs r1)\<rparr>)
        = (Inr u, (t, r'))"
      using Cons.prems x by simp
    obtain body where b: "Open (vnCrypto ve) (vnSealer ve) (frSealed f) = Inr body" "hydrated ve [(f, body)] s s1"
      using hydrateFrame_Inr [OF x [unfolded Inr] d] by blast
    have "opened_frames ve (f # fs) = [(f, body)] @ opened_frames ve fs" using b(1) by (simp add: opened_frames_def)
    then show ?thesis using Cons.IH [OF rest] n hydrated_trans [OF b(2)] by auto
  qed
qed

lemma hydrate_object_Inr:
  assumes "hydrate_object ve depth ob (s, r) = (Inr u, (t, r'))" and d: "Depth_includes depth HydrateMetadata" and ours: "corrupt_is_ours ve"
  shows "hyRecords r' = hyRecords r + int (length (on_account ve (vaNet s) [ob])) \<and> vaNet t = vaNet s \<and> hydrated ve (on_account ve (vaNet s) [ob]) s t"
proof -
  obtain payload where p0: "vnRead ve (vaNet s) (stObject ob) = Inr payload"
    using assms(1) by (cases "vnRead ve (vaNet s) (stObject ob)") (auto simp: hydrate_object_def sbind_def wrapping_def in_vault_def ReadObject_def in_report_def smod_def)
  obtain fs damage where fs: "Frames payload = (fs, damage)" by (cases "Frames payload")
  obtain r1 where p: "hydrate_frames ve depth ob (fst (Frames payload)) (s, r1) = (Inr u, (t, r'))" "hyRecords r1 = hyRecords r"
    using assms(1) p0 fs by (simp add: hydrate_object_def sbind_def wrapping_def in_vault_def ReadObject_def)
  have "vaNet t = vaNet s" using preservesD [OF served.object_kept, of "vaNet s" "(s, r)" ve depth ob] assms(1) by simp
  with hydrate_frames_Inr [OF p(1) d ours] p0 p(2) show ?thesis by (simp add: on_account_def)
qed

lemma hydrate_objects_Inr:
  assumes "smap_list (hydrate_object ve depth) obs (s, r) = (Inr u, (t, r'))" and d: "Depth_includes depth HydrateMetadata"
    and ours: "corrupt_is_ours ve"
  shows "hyRecords r' = hyRecords r + int (length (on_account ve (vaNet s) obs)) \<and> hydrated ve (on_account ve (vaNet s) obs) s t"
  using assms(1)
proof (induction obs arbitrary: s r)
  case Nil
  then show ?case by (simp add: sret_def on_account_def hydrated_refl)
next
  case (Cons ob obs)
  obtain v s1 r1 where x: "hydrate_object ve depth ob (s, r) = (Inr v, (s1, r1))"
    "smap_list (hydrate_object ve depth) obs (s1, r1) = (Inr u, (t, r'))" using Cons.prems by (auto simp: sbind_Inr_iff)
  note H = hydrate_object_Inr [OF x(1) d ours] and IH = Cons.IH [OF x(2)]
  have a: "on_account ve (vaNet s) (ob # obs) = on_account ve (vaNet s) [ob] @ on_account ve (vaNet s) obs" by (simp add: on_account_def)
  show ?case using H IH hydrated_trans [of ve "on_account ve (vaNet s) [ob]" s s1 "on_account ve (vaNet s) obs" t] unfolding a by auto
qed

text \<open>The frames written to a device that held nothing.\<close>

definition immutable :: "(frame \<times> byte list) list \<Rightarrow> bool" where
  "immutable opened \<longleftrightarrow> (\<forall>f b g c. (f, b) \<in> set opened \<longrightarrow> (g, c) \<in> set opened \<longrightarrow> frID f = frID g \<longrightarrow> frKind f = frKind g \<and> b = c)"

lemma immutable_mono: "immutable ys \<Longrightarrow> set xs \<subseteq> set ys \<Longrightarrow> immutable xs"
  unfolding immutable_def by (meson subsetD)

lemma GetRecord_iff: "GetRecord t i = Inr (k, b) \<longleftrightarrow> (\<exists>r. row_of t i = Some r \<and> bKind r = k \<and> bBody r = b)"
  by (auto simp: GetRecord_def lookup_row_def not_held_def split: option.splits)

lemma put_frames_held:
  assumes "immutable opened"
  shows "table_ok (put_frames ve opened [])" and "(f, b) \<in> set opened \<Longrightarrow> GetRecord (put_frames ve opened []) (frID f) = Inr (frKind f, b)"
    and "row_of (put_frames ve opened []) i \<noteq> None \<Longrightarrow> i \<in> frID ` fst ` set opened"
proof -
  have "table_ok (put_frames ve opened [])
    \<and> (\<forall>f b. (f, b) \<in> set opened \<longrightarrow> GetRecord (put_frames ve opened []) (frID f) = Inr (frKind f, b))
    \<and> (\<forall>i. row_of (put_frames ve opened []) i \<noteq> None \<longrightarrow> i \<in> frID ` fst ` set opened)"
    using assms
  proof (induction opened rule: rev_induct)
    case Nil
    then show ?case by (simp add: put_frames_def)
  next
    case (snoc x xs)
    obtain g c where x: "x = (g, c)" by (cases x)
    let ?t = "put_frames ve xs []"
    have "immutable xs" by (rule immutable_mono [OF snoc.prems]) auto
    note IH = snoc.IH [OF this]
    have t: "put_frames ve (xs @ [x]) [] = PutBody (vnNow ve) (frID g) (frKind g) c ?t" by (simp add: put_frames_def x)
    have same: "frKind f = frKind g \<and> b = c" if "(f, b) \<in> set (xs @ [x])" "frID f = frID g" for f b
    proof -
      have "(g, c) \<in> set (xs @ [x])" using x by simp
      with snoc.prems that show ?thesis unfolding immutable_def by blast
    qed
    have here: "GetRecord (PutBody (vnNow ve) (frID g) (frKind g) c ?t) (frID g) = Inr (frKind g, c)"
    proof (cases "row_of ?t (frID g)")
      case None
      then have "GetRecord ?t (frID g) = Inl (GoErr [ErrLocalNotFound] ''body'')" by (simp add: GetRecord_def)
      then show ?thesis by (rule GetRecord_PutBody(1))
    next
      case (Some r)
      then obtain f b where f: "(f, b) \<in> set xs" "frID f = frID g" using IH by (metis (no_types, lifting) imageE option.distinct(1) prod.collapse)
      have "frKind f = frKind g" using same [of f b] f by simp
      moreover have "GetRecord ?t (frID f) = Inr (frKind f, b)" using IH f(1) by blast
      ultimately have "bKind r = frKind g" using Some f(2) by (simp add: GetRecord_iff)
      then show ?thesis using Some by (simp add: GetRecord_def PutBody_def)
    qed
    have "GetRecord (PutBody (vnNow ve) (frID g) (frKind g) c ?t) (frID f) = Inr (frKind f, b)" if "(f, b) \<in> set (xs @ [x])" for f b
    proof (cases "frID f = frID g")
      case True
      then show ?thesis using here same [OF that] by simp
    next
      case False
      then have "(f, b) \<in> set xs" using that x by auto
      then show ?thesis using IH GetRecord_PutBody(2) [OF False] by simp
    qed
    moreover have "row_of (PutBody (vnNow ve) (frID g) (frKind g) c ?t) i \<noteq> None \<longrightarrow> i \<in> frID ` fst ` set (xs @ [x])" for i
      using IH x by (auto simp: PutBody_def)
    moreover have "table_ok (PutBody (vnNow ve) (frID g) (frKind g) c ?t)" using IH by (simp add: PutBody_def)
    ultimately show ?case unfolding t by blast
  qed
  then show "table_ok (put_frames ve opened [])" "(f, b) \<in> set opened \<Longrightarrow> GetRecord (put_frames ve opened []) (frID f) = Inr (frKind f, b)"
    "row_of (put_frames ve opened []) i \<noteq> None \<Longrightarrow> i \<in> frID ` fst ` set opened" by blast+
qed

text \<open>Every chunk the rebuild goes through is then on the device.\<close>

definition opened_chunks :: "'n venv \<Rightarrow> (frame \<times> byte list) list \<Rightarrow> chunk set" where
  "opened_chunks ve opened = {c. \<exists>(f, b) \<in> set opened. frKind f = KindChunk \<and> vnUnmarshalChunk ve b = Inr c}"

lemma hydrated_chunks:
  assumes h: "hydrated ve opened s t" and im: "immutable opened"
    and fresh: "vaBodies s = []" "vaManifest s = empty_manifest"
  shows "\<exists>held. every_chunk_held ve t held \<and> set held = opened_chunks ve opened"
proof -
  have b: "vaBodies t = put_frames ve opened []" using h fresh(1) by (simp add: hydrated_def)
  note P = put_frames_held [OF im, where ve = ve]
  have wf: "catalog_wf (vaManifest t)" using h fresh(2) by (simp add: hydrated_def catalog_wf_def empty_manifest_def)
  have at: "\<exists>c. chunk_at ve (vaBodies t) (frID f) = Some c \<and> chID c = frID f \<and> vnUnmarshalChunk ve x = Inr c"
    if "(f, x) \<in> set opened" "frKind f = KindChunk" for f x
    using h that P(2) [OF that(1)] b by (fastforce simp: hydrated_def chunk_at_def)
  have ids: "i \<in> set (chunkIDs t) \<longleftrightarrow> (\<exists>f x. (f, x) \<in> set opened \<and> frKind f = KindChunk \<and> frID f = i)" for i
  proof
    assume "i \<in> set (chunkIDs t)"
    then consider e where "e \<in> set (Manifest_Entries (vaManifest t))" "enKind e = KindChunk" "i = enID e"
      | r where "row_of (vaBodies t) i = Some r" "bKind r = KindChunk"
      using P(1) b by (auto simp: chunkIDs_def recordIDs_def set_BodyIDsOfKind)
    then show "\<exists>f x. (f, x) \<in> set opened \<and> frKind f = KindChunk \<and> frID f = i"
    proof cases
      case 1
      then have "mfEntries (vaManifest t) i = Some e"
        using in_Manifest_Entries [OF wf] by (auto simp: Manifest_Lookup_def split: option.splits if_splits)
      moreover have "if i \<in> frID ` fst ` set opened then entry_of opened i (mfEntries (vaManifest t) i) else mfEntries (vaManifest t) i = None"
        using h fresh(2) by (simp add: hydrated_def empty_manifest_def)
      ultimately have "entry_of opened i (Some e)" by (auto split: if_splits)
      then show ?thesis using 1(2) by (auto simp: entry_of_def)
    next
      case 2
      then obtain f x where f: "(f, x) \<in> set opened" "frID f = i" using P(3) [of i] b by auto
      then show ?thesis using P(2) [OF f(1)] 2 b by (auto simp: GetRecord_iff)
    qed
  next
    assume "\<exists>f x. (f, x) \<in> set opened \<and> frKind f = KindChunk \<and> frID f = i"
    then obtain f x where f: "(f, x) \<in> set opened" "frKind f = KindChunk" "frID f = i" by blast
    obtain r where "row_of (vaBodies t) i = Some r" "bKind r = KindChunk"
      using P(2) [OF f(1)] f(2,3) b by (auto simp: GetRecord_iff)
    then show "i \<in> set (chunkIDs t)" using P(1) b by (auto simp: chunkIDs_def recordIDs_def set_BodyIDsOfKind)
  qed
  let ?c = "\<lambda>i. the (chunk_at ve (vaBodies t) i)"
  have c: "chunk_at ve (vaBodies t) i = Some (?c i) \<and> chID (?c i) = i" if i: "i \<in> set (chunkIDs t)" for i
  proof -
    obtain f x where f: "(f, x) \<in> set opened" "frKind f = KindChunk" "frID f = i" using ids [of i] i by blast
    obtain c' where "chunk_at ve (vaBodies t) i = Some c'" "chID c' = i" using at [OF f(1,2)] f(3) by auto
    then show ?thesis by simp
  qed
  then have "every_chunk_held ve t (map ?c (chunkIDs t))"
    by (simp add: every_chunk_held_def list_all2_conv_all_nth)
  moreover have "set (map ?c (chunkIDs t)) = opened_chunks ve opened"
  proof (intro set_eqI iffI)
    fix c' assume "c' \<in> set (map ?c (chunkIDs t))"
    then obtain f x where f: "(f, x) \<in> set opened" "frKind f = KindChunk" "c' = ?c (frID f)" using ids by auto
    then show "c' \<in> opened_chunks ve opened" using at [OF f(1,2)] by (auto simp: opened_chunks_def)
  next
    fix c' assume "c' \<in> opened_chunks ve opened"
    then obtain f x where f: "(f, x) \<in> set opened" "frKind f = KindChunk" "vnUnmarshalChunk ve x = Inr c'"
      by (auto simp: opened_chunks_def)
    then have "c' = ?c (frID f)" using at [OF f(1,2)] by auto
    then show "c' \<in> set (map ?c (chunkIDs t))" using ids [of "frID f"] f(1,2) by auto
  qed
  ultimately show ?thesis by blast
qed

text \<open>C32. A vault comes back from its phrase and the account alone.  On a device that holds nothing, a hydration down to
  metadata or further that succeeds has restored every frame of the account that opens under the vault's key, however many of
  somebody else's lie between them: it counts exactly these, and each is on the device with the bytes that were sealed and in the
  catalog, and nothing else is; and for every session whose head is gone, and whose chunks are among them, there is again a head
  that lists the refs which were written and reads the whole transcript.  Two frames with one id are the same record; the codec of
  session heads gives back what it was given; and \<open>seal.ErrCorrupt\<close> comes from this program only.
\<close>

theorem hydrate_restores_the_vault:
  assumes run: "Hydrate ve depth (s, r0) = Some (Inr (), (t, r))" and depth: "depth = [] \<or> Depth_includes depth HydrateMetadata"
    and walk: "WalkObjectsStats (vnSdk ve) (vaNet s) = Some (Inr (st, obs), n)"
    and fresh: "vaBodies s = []" "vaManifest s = empty_manifest" and codec: "session_codec ve"
    and im: "immutable (on_account ve n obs)" and ours: "corrupt_is_ours ve"
  shows "hyRecords r = int (length (on_account ve n obs))
    \<and> (\<forall>(f, b) \<in> set (on_account ve n obs). GetRecord (vaBodies t) (frID f) = Inr (frKind f, b) \<and> in_catalog (vaManifest t) (frID f))
    \<and> (\<forall>i. row_of (vaBodies t) i \<noteq> None \<or> in_catalog (vaManifest t) i \<longrightarrow> i \<in> frID ` fst ` set (on_account ve n obs))
    \<and> (\<forall>h cs. head_of_chunks ve cs h \<longrightarrow> set cs = {c \<in> opened_chunks ve (on_account ve n obs). chSession c = sID h} \<longrightarrow>
         row_of (vaHeads s) (sID h) = None \<longrightarrow> (\<exists>h'. stored_head ve (vaHeads t) (sID h) = Some h' \<and> sChunks h' = sChunks h
           \<and> held_transcript ve (vaBodies t) (sChunks h) = Some (concat (map chMessages cs))))"
proof -
  let ?acc = "on_account ve n obs" and ?d = "if depth = [] then HydrateMetadata else depth"
  have d: "Depth_includes ?d HydrateMetadata" using depth by (auto simp: Depth_includes_def)
  obtain s1 r1 r2 q b where loop: "smap_list (hydrate_object ve ?d) obs (s\<lparr>vaNet := n\<rparr>, no_hydrate ?d) = (Inr (), (s1, r1))"
    and rb: "RebuildSessions ve q s1 = Some (Inr b, t)" "bqOverwrite q = False" "hyRecords r = hyRecords r1"
  proof -
    obtain u w where w: "finally_report (\<lambda>r. r\<lparr>hyUnreadable := int (length (wsUnreadable st))\<rparr>)
        (smap_list (hydrate_object ve ?d) obs) (s\<lparr>vaNet := n\<rparr>, no_hydrate ?d) = (Inr u, w)"
      "pbind (in_rebuild ve \<lparr>bqOverwrite = False, bqEmbed = Depth_includes ?d HydrateIndex\<rparr>) (\<lambda>b.
         prun (in_report (\<lambda>r. r\<lparr>hyRebuild := Some b, hySessions := bpStored b\<rparr>))) w = Some (Inr (), (t, r))"
      using run d walk by (auto simp: Hydrate_def Let_def pbind_Inr_iff prun_def sfail_def in_walk_def split: if_splits)
    obtain s1 r1 where s1: "smap_list (hydrate_object ve ?d) obs (s\<lparr>vaNet := n\<rparr>, no_hydrate ?d) = (Inr u, (s1, r1))"
      "w = (s1, r1\<lparr>hyUnreadable := int (length (wsUnreadable st))\<rparr>)"
      using w(1) by (auto simp: finally_report_def split: prod.splits)
    obtain b where b: "RebuildSessions ve \<lparr>bqOverwrite = False, bqEmbed = Depth_includes ?d HydrateIndex\<rparr> s1 = Some (Inr b, t)"
      "hyRecords r = hyRecords r1"
      using w(2) s1(2) by (auto simp: pbind_Inr_iff prun_def in_rebuild_def split: option.splits)
    show thesis
      by (rule that [of s1 r1 "\<lparr>bqOverwrite = False, bqEmbed = Depth_includes ?d HydrateIndex\<rparr>" b]) (use s1(1) b in simp_all)
  qed
  have "hydrated ve ?acc (s\<lparr>vaNet := n\<rparr>) s1" and count: "hyRecords r = int (length ?acc)"
    using hydrate_objects_Inr [OF loop d ours] rb(3) by (simp_all add: no_hydrate_def)
  then have h: "hydrated ve ?acc s s1" by (simp add: hydrated_def)
  obtain held where held: "every_chunk_held ve s1 held" "set held = opened_chunks ve ?acc"
    using hydrated_chunks [OF h im fresh] by blast
  note R = RebuildSessions_Inr(1,2) [OF rb(1) codec held(1)] and P = put_frames_held [OF im, where ve = ve]
  have b: "vaBodies t = put_frames ve ?acc []" using R(1) h fresh(1) by (simp add: hydrated_def)
  have m: "if i \<in> frID ` fst ` set ?acc then entry_of ?acc i (mfEntries (vaManifest t) i) else mfEntries (vaManifest t) i = None" for i
    using R(2) h fresh(2) by (simp add: hydrated_def empty_manifest_def)
  have cat: "in_catalog (vaManifest t) i \<longleftrightarrow> i \<in> frID ` fst ` set ?acc" for i
    using m [of i] by (auto simp: in_catalog_def entry_of_def split: if_splits)
  have heads: "\<exists>h'. stored_head ve (vaHeads t) (sID h) = Some h' \<and> sChunks h' = sChunks h
      \<and> held_transcript ve (vaBodies t) (sChunks h) = Some (concat (map chMessages cs))"
    if "head_of_chunks ve cs h" "set cs = {c \<in> opened_chunks ve ?acc. chSession c = sID h}" "row_of (vaHeads s) (sID h) = None" for h cs
  proof -
    have "row_of (vaHeads s1) (sID h) = None" using h that(3) by (simp add: hydrated_def)
    with rebuild_restores [OF rb(1) codec held(1) that(1)] that(2) held(2) show ?thesis by auto
  qed
  have got: "GetRecord (vaBodies t) (frID f) = Inr (frKind f, x) \<and> in_catalog (vaManifest t) (frID f)" if "(f, x) \<in> set ?acc" for f x
    using P(2) [OF that] b cat [of "frID f"] that by force
  have only: "i \<in> frID ` fst ` set ?acc" if "row_of (vaBodies t) i \<noteq> None \<or> in_catalog (vaManifest t) i" for i
    using P(3) [of i] that b cat [of i] by auto
  have "\<forall>(f, b) \<in> set ?acc. GetRecord (vaBodies t) (frID f) = Inr (frKind f, b) \<and> in_catalog (vaManifest t) (frID f)"
    using got by fast
  with count only heads show ?thesis by (intro conjI allI impI) simp_all
qed

section \<open>An account that holds one chunk\<close>

definition lost_frame :: frame where
  "lost_frame = \<lparr>frKind = KindChunk, frID = demo_id 1, frSealed = replicate 40 0\<rparr>"

definition lost_payload :: "byte list" where
  "lost_payload = projr (FrameRecord KindChunk (demo_id 1) (replicate 40 0))"

definition lost_stored :: stored_object where
  "lost_stored = \<lparr>stRef = 1, stSlab = slab_name lost_sdk demo_slice, stBytes = 1, stUpdated = 1,
     stObject = \<lparr>obID = 0, obSlabs = [demo_slice], obSize = 1\<rparr>\<rparr>"

lemma lost_walk: "\<exists>st. WalkObjectsStats (vnSdk (lost_venv p)) [] = Some (Inr (st, [lost_stored]), [])"
  by (simp add: lost_venv_def demo_reclaimer_def WalkObjectsStats_def walk_pages.simps walk_start_def lost_sdk_def walk_page_def
      walk_event_def demo_sdk_def demo_object_def slabOf_def slab_name_def walk_result_def lost_stored_def Let_def)

lemma lost_read: "vnRead (lost_venv p) n x = Inr p"
  by (simp add: lost_venv_def)

lemma lost_frames: "Frames lost_payload = ([lost_frame], None)"
proof -
  obtain b where b: "FrameRecord KindChunk (demo_id 1) (replicate 40 0) = Inr b" by (simp add: FrameRecord_def kindCode_def Let_def)
  then have "packs [lost_frame] [b]" by (simp add: lost_frame_def)
  from Frames_packs [OF this, of "[]"] show ?thesis by (simp add: Frames_unfold(1) lost_payload_def b [simplified])
qed

lemma lost_open: "Open (vnCrypto (lost_venv p)) (vnSealer (lost_venv p)) (frSealed lost_frame) = Inr []"
  by (simp add: lost_sel Open_def lost_frame_def plain_crypto_def NonceSize_def Overhead_def TagSize_def)

lemma lost_account: "on_account (lost_venv lost_payload) n [lost_stored] = [(lost_frame, [])]"
  by (simp add: on_account_def lost_read lost_frames opened_frames_def lost_open)

lemma lost_hydrates:
  assumes "vaManifest s = empty_manifest"
  shows "\<exists>t. hydrateFrame (lost_venv p) HydrateMetadata lost_stored lost_frame (s, r) = (Inr (), (t, r\<lparr>hyBodies := hyBodies r + 1\<rparr>))
    \<and> vaBodies t = PutBody 1000000 (demo_id 1) KindChunk [] (vaBodies s) \<and> vaHeads t = vaHeads s
    \<and> vaLedger t = AdoptSlab 0 (stSlab lost_stored) 1 40 (vaLedger s)
    \<and> (\<exists>e. Manifest_Entries (vaManifest t) = [e] \<and> enID e = demo_id 1 \<and> enKind e = KindChunk)"
proof -
  obtain en where en: "catalogEntry (lost_venv p) lost_frame lost_stored []
      (Sealer_CID (vnCrypto (lost_venv p)) (vnSealer (lost_venv p)) []) = Inr en"
      "enID en = demo_id 1" "enKind en = KindChunk" "\<not> enDeleted en"
    by (simp add: catalogEntry_def Let_def lost_sel hello_chunk_sel lost_frame_def)
  obtain m where m: "Manifest_Append line_env io_ok en empty_manifest = (Inr (), m)" using line_append by blast
  from Manifest_Append_put [OF m] have entries: "Manifest_Entries m = [en]"
    by (simp add: put_entry_def empty_manifest_def Manifest_Entries_def en(4))
  have cat: "vnCatalog (lost_venv p) = line_env" "vnIO (lost_venv p) k = io_ok" "rcDB (vnReclaimer (lost_venv p)) x = None"
    "rcNow (vnReclaimer (lost_venv p)) = 0" "vnNow (lost_venv p) = 1000000" for k x
    by (simp_all add: lost_venv_def hello_venv_def demo_venv_def demo_reclaimer_def)
  let ?s1 = "s\<lparr>vaManifest := m, vaFileOps := vaFileOps s + 1\<rparr>"
  have c: "on_catalog (lost_venv p) (\<lambda>io. Manifest_Append line_env io en) s = (Inr (), ?s1)"
    by (simp add: on_catalog_def cat assms m)
  have "stSlab lost_stored \<noteq> []"
    by (simp add: lost_stored_def slab_name_def lost_sdk_def demo_sdk_def demo_lib_def demo_slice_def demo_slab_named)
  then obtain s2 where s2: "on_reclaimer (Adopt (vnReclaimer (lost_venv p)) (stSlab lost_stored) 1 40) ?s1 = (Inr (), s2)"
    "vaBodies s2 = vaBodies s" "vaHeads s2 = vaHeads s" "vaLedger s2 = AdoptSlab 0 (stSlab lost_stored) 1 40 (vaLedger s)"
    "vaManifest s2 = m"
    by (simp add: on_reclaimer_def Adopt_def stmt_def cat rworld_of_def vault_of_def)
  have f: "frKind lost_frame = KindChunk" "frID lost_frame = demo_id 1" "length (frSealed lost_frame) = 40" by (simp_all add: lost_frame_def)
  have d: "Depth_includes HydrateMetadata HydrateMetadata" by (simp add: Depth_includes_def)
  let ?t = "s2\<lparr>vaBodies := PutBody 1000000 (demo_id 1) KindChunk [] (vaBodies s)\<rparr>"
  have "hydrateFrame (lost_venv p) HydrateMetadata lost_stored lost_frame (s, r) = (Inr (), (?t, r\<lparr>hyBodies := hyBodies r + 1\<rparr>))"
    using s2(1,2) by (simp add: hydrateFrame_def hydrate_body_def step_defs lost_open en(1) c [simplified] in_vault_def in_report_def
      f d put_body_def cat)
  then show ?thesis using s2 entries en by (intro exI [of _ ?t]) simp
qed

lemma lost_hydrated:
  "\<exists>st t r. WalkObjectsStats (vnSdk (lost_venv lost_payload)) [] = Some (Inr (st, [lost_stored]), [])
    \<and> Hydrate (lost_venv lost_payload) HydrateMetadata (demo_vault\<lparr>vaLedger := l\<rparr>, r0) = Some (Inr (), (t, r))
    \<and> hyRecords r = 1 \<and> vaLedger t = AdoptSlab 0 (stSlab lost_stored) 1 40 l"
proof -
  let ?ve = "lost_venv lost_payload" and ?s = "demo_vault\<lparr>vaLedger := l\<rparr>"
  obtain st where st: "WalkObjectsStats (vnSdk ?ve) [] = Some (Inr (st, [lost_stored]), [])" using lost_walk by blast
  let ?r = "(no_hydrate HydrateMetadata)\<lparr>hyObjects := 1, hyBytes := int (length lost_payload), hyFrames := 1\<rparr>"
  obtain t where t: "hydrateFrame ?ve HydrateMetadata lost_stored lost_frame (?s, ?r) = (Inr (), (t, ?r\<lparr>hyBodies := 1\<rparr>))"
    "vaBodies t = vaBodies lost_vault" "vaHeads t = []" "vaLedger t = AdoptSlab 0 (stSlab lost_stored) 1 40 l"
    "\<exists>e. Manifest_Entries (vaManifest t) = [e] \<and> enID e = demo_id 1 \<and> enKind e = KindChunk"
    using lost_hydrates [of ?s lost_payload ?r] by (auto simp: demo_vault_def lost_vault_def no_hydrate_def)
  let ?r1 = "?r\<lparr>hyBodies := 1, hyRecords := 1, hySlabs := [stSlab lost_stored]\<rparr>"
  have loop: "smap_list (hydrate_object ?ve HydrateMetadata) [lost_stored] (?s, no_hydrate HydrateMetadata) = (Inr (), (t, ?r1))"
    using t(1) by (simp add: hydrate_object_def ReadObject_def lost_read lost_frames step_defs in_report_def in_vault_def wrapping_def
      no_hydrate_def)
  have "recordIDs t KindChunk = [demo_id 1]" "recordIDs t KindMemory = []"
    using t(2,5) by (auto simp: recordIDs_def BodyIDsOfKind_def lost_vault_def demo_vault_def PutBody_def select_where_def
      KindChunk_def KindMemory_def)
  from lost_run [OF t(2,3) this] obtain rp t' where rb: "RebuildSessions ?ve \<lparr>bqOverwrite = False, bqEmbed = False\<rparr> t = Some (Inr rp, t')"
    by blast
  have online: "vnOnline ?ve" by (simp add: lost_venv_def hello_venv_def demo_venv_def)
  have d: "Depth_Valid HydrateMetadata" "Depth_includes HydrateMetadata HydrateMetadata" "\<not> Depth_includes HydrateMetadata HydrateIndex"
    "HydrateMetadata \<noteq> []"
    by (simp_all add: Depth_Valid_def Depth_includes_def hydrateRank_def HydrateMetadata_def HydrateIndex_def HydrateCatalog_def)
  have n: "vaNet ?s = []" by (simp add: demo_vault_def)
  have s: "?s\<lparr>vaNet := []\<rparr> = ?s" by (simp add: demo_vault_def)
  let ?f = "\<lambda>r :: hydrate_report. r\<lparr>hyUnreadable := int (length (wsUnreadable st))\<rparr>"
  have "Hydrate ?ve HydrateMetadata (?s, r0) = Some (Inr (), (t', (?f ?r1)\<lparr>hyRebuild := Some rp, hySessions := bpStored rp\<rparr>))"
    by (simp add: Hydrate_def d online pbind_def prun_def in_report_def smod_def in_walk_def n [simplified] st s [simplified]
      finally_report_def loop [simplified] in_rebuild_def rb [simplified])
  moreover have "vaLedger t' = vaLedger t" by (rule rebuild_ledger [OF rb])
  ultimately show ?thesis using st t(4) by auto
qed

theorem hydrate_restores_the_vault_witness:
  "\<exists>t r h. Hydrate (lost_venv lost_payload) HydrateMetadata (demo_vault, no_hydrate []) = Some (Inr (), (t, r))
     \<and> GetRecord (vaBodies t) (demo_id 1) = Inr (KindChunk, [])
     \<and> stored_head (lost_venv lost_payload) (vaHeads t) (demo_id 0) = Some h \<and> sChunks h = [hello_ref]
     \<and> held_transcript (lost_venv lost_payload) (vaBodies t) (sChunks h) = Some hellos"
proof -
  let ?ve = "lost_venv lost_payload"
  have v: "demo_vault\<lparr>vaLedger := []\<rparr> = demo_vault" by (simp add: demo_vault_def)
  obtain st t r where st: "WalkObjectsStats (vnSdk ?ve) [] = Some (Inr (st, [lost_stored]), [])"
    and run: "Hydrate ?ve HydrateMetadata (demo_vault, no_hydrate []) = Some (Inr (), (t, r))" and r: "hyRecords r = 1"
    using lost_hydrated [of "[]" "no_hydrate []"] v by auto
  have walk: "WalkObjectsStats (vnSdk ?ve) (vaNet demo_vault) = Some (Inr (st, [lost_stored]), [])" using st by (simp add: demo_vault_def)
  have d: "Depth_includes HydrateMetadata HydrateMetadata" by (simp add: Depth_includes_def)
  have fresh: "vaBodies demo_vault = []" "vaManifest demo_vault = empty_manifest" "vaHeads demo_vault = []" by (simp_all add: demo_vault_def)
  have im: "immutable (on_account ?ve [] [lost_stored])" by (simp add: lost_account immutable_def)
  have ours: "corrupt_is_ours ?ve"
    by (auto simp: corrupt_is_ours_def lost_venv_def hello_venv_def demo_venv_def demo_reclaimer_def line_env_def demo_vsealer_def)
  note H = conjunct2 [OF hydrate_restores_the_vault [OF run disjI2 [OF d] walk fresh(1,2) lost_session_codec im ours, unfolded lost_account]]
  have "opened_chunks ?ve [(lost_frame, [])] = {hello_chunk}" by (auto simp: opened_chunks_def lost_frame_def lost_sel)
  then have "set [hello_chunk] = {c \<in> opened_chunks ?ve [(lost_frame, [])]. chSession c = sID lost_head}"
    by (auto simp: lost_head_sel hello_chunk_sel)
  moreover have "row_of (vaHeads demo_vault) (sID lost_head) = None" using fresh(3) by simp
  ultimately have "\<exists>h. stored_head ?ve (vaHeads t) (sID lost_head) = Some h \<and> sChunks h = sChunks lost_head
      \<and> held_transcript ?ve (vaBodies t) (sChunks lost_head) = Some (concat (map chMessages [hello_chunk]))"
    using conjunct2 [OF conjunct2 [OF H], rule_format, OF lost_head_written] by blast
  moreover have "GetRecord (vaBodies t) (demo_id 1) = Inr (KindChunk, [])" using conjunct1 [OF H] by (simp add: lost_frame_def)
  ultimately show ?thesis using run unfolding lost_head_sel by (auto simp: hello_chunk_sel simp del: held_transcript.simps)
qed

theorem hydrate_grants_no_rights_witness:
  "\<exists>t r. Hydrate (lost_venv lost_payload) HydrateMetadata (demo_vault\<lparr>vaLedger := TrackSlab 0 ''mine'' 1 1 []\<rparr>, no_hydrate []) = Some (Inr (), (t, r))
     \<and> releasable (vaLedger t) ''mine'' \<and> releasable (TrackSlab 0 ''mine'' 1 1 []) ''mine'' \<and> length (vaLedger t) = 2"
proof -
  let ?l = "TrackSlab 0 ''mine'' 1 1 []"
  obtain t r where run: "Hydrate (lost_venv lost_payload) HydrateMetadata (demo_vault\<lparr>vaLedger := ?l\<rparr>, no_hydrate []) = Some (Inr (), (t, r))"
    and l: "vaLedger t = AdoptSlab 0 (stSlab lost_stored) 1 40 ?l"
    using lost_hydrated [of ?l "no_hydrate []"] by blast
  have "length (stSlab lost_stored) = 64"
    by (simp add: lost_stored_def slab_name_def lost_sdk_def demo_sdk_def demo_lib_def)
  then have "stSlab lost_stored \<noteq> ''mine''" by auto
  then have "releasable (vaLedger t) ''mine''" "length (vaLedger t) = 2"
    by (simp_all add: l releasable_def AdoptSlab_def TrackSlab_def trackSlab_def SlabOrigin_Releasable_def row_of_Cons)
  moreover from hydrate_grants_no_rights [OF run this(1)] have "releasable ?l ''mine''" by simp
  ultimately show ?thesis using run by blast
qed

end
