(* ===== verification/McpAddress.thy ===== *)
theory McpAddress
  imports LocalRanking
begin

text \<open>
  Package \<open>mcp\<close>, its address space and the small text it is made of (\<open>address.go\<close>, the cursor of \<open>render.go\<close>, the
  snippets and labels of \<open>handlers.go\<close> and \<open>resolve.go\<close>): which strings are addresses, what they name, and what a
  cursor and a snippet are.
\<close>

section \<open>Addresses\<close>

definition Scheme :: string where "Scheme = ''mnemosia://''"

definition FormVault :: string where "FormVault = ''vault''"
definition FormGuide :: string where "FormGuide = ''guide''"
definition FormMemory :: string where "FormMemory = ''memory''"
definition FormSession :: string where "FormSession = ''session''"
definition FormTranscript :: string where "FormTranscript = ''transcript''"

definition VaultURI :: string where "VaultURI = Scheme @ ''vault''"
definition GuideURI :: string where "GuideURI = Scheme @ ''guide''"

record address =
  adForm :: string
  adURI :: string
  adID :: recid

definition Address_Kind :: "address \<Rightarrow> kind" where
  "Address_Kind a = (if adForm a = FormMemory then KindMemory
     else if adForm a = FormSession \<or> adForm a = FormTranscript then KindSession else [])"

definition URI :: "kind \<Rightarrow> recid \<Rightarrow> string" where
  "URI k i = Scheme @ k @ ''/'' @ ID_String i"

definition TranscriptURI :: "recid \<Rightarrow> string" where
  "TranscriptURI i = URI KindSession i @ ''/transcript''"

text \<open>\<open>strings.CutPrefix\<close>, and \<open>strings.Cut\<close> with its answer for a missing separator\<close>

definition cut_prefix :: "string \<Rightarrow> string \<Rightarrow> string option" where
  "cut_prefix p s = (if starts_with p s then Some (drop (length p) s) else None)"

definition cut_or_whole :: "string \<Rightarrow> string \<Rightarrow> string \<times> string \<times> bool" where
  "cut_or_whole sep s = (case cut sep s of None \<Rightarrow> (s, [], False) | Some (a, b) \<Rightarrow> (a, b, True))"

definition Parse :: "string \<Rightarrow> address res" where
  "Parse uri = (case cut_prefix Scheme uri of
     None \<Rightarrow> fail [] ''resolve: not an address of the vault''
   | Some rest \<Rightarrow>
       if rest = FormVault then Inr \<lparr>adForm = FormVault, adURI = uri, adID = 0\<rparr>
       else if rest = FormGuide then Inr \<lparr>adForm = FormGuide, adURI = uri, adID = 0\<rparr>
       else (case cut_or_whole ''/'' rest of (head, tail, ok) \<Rightarrow>
         if \<not> ok then fail [] ''resolve: expected a kind and an id''
         else (case cut_or_whole ''/'' tail of (idPart, suff, hasSuffix) \<Rightarrow>
           (case ParseID idPart of
              Inl e \<Rightarrow> Inl (wrap_err ''resolve: '' e)
            | Inr i \<Rightarrow>
                if head = KindMemory then
                  if hasSuffix then fail [] ''resolve: a memory has no parts to address separately''
                  else Inr \<lparr>adForm = FormMemory, adURI = uri, adID = i\<rparr>
                else if head = KindSession then
                  if \<not> hasSuffix then Inr \<lparr>adForm = FormSession, adURI = uri, adID = i\<rparr>
                  else if suff = FormTranscript then Inr \<lparr>adForm = FormTranscript, adURI = uri, adID = i\<rparr>
                  else fail [] ''resolve: a session addresses its head and its transcript''
                else fail [] ''resolve: unknown kind''))))"

text \<open>The query behind a resume that names no conversation: the most recent one.\<close>

definition latest_query :: session_query where
  "latest_query = \<lparr>sqKinds = [], sqParent = None, sqProject = [], sqTags = [], sqSince = None, sqUntil = None,
     sqIncludeArchived = False, sqLimit = 1, sqOffset = 0\<rparr>"

text \<open>An address of the form an argument asks for.\<close>

definition addressOf :: "string \<Rightarrow> string \<Rightarrow> recid res" where
  "addressOf uri want = rbind (Parse uri) (\<lambda>a.
     if adForm a \<noteq> want then fail [] ''the address is of another form'' else Inr (adID a))"

section \<open>Cursors of a ranking\<close>

definition cursorPrefix :: string where "cursorPrefix = ''r1:''"

text \<open>\<open>sha\<close> is SHA-256; of its 32 bytes six are kept.\<close>

definition queryStamp :: "(byte list \<Rightarrow> byte list) \<Rightarrow> string \<Rightarrow> string" where
  "queryStamp sha query = b64_encode b64_url False (take 6 (sha (bytes_of query)))"

definition encodeRankCursor :: "(byte list \<Rightarrow> byte list) \<Rightarrow> int \<Rightarrow> string \<Rightarrow> string" where
  "encodeRankCursor sha offset query = cursorPrefix @ Itoa offset @ '':'' @ queryStamp sha query"

definition decodeRankCursor :: "(byte list \<Rightarrow> byte list) \<Rightarrow> string \<Rightarrow> string \<Rightarrow> int res" where
  "decodeRankCursor sha cursor query =
    (if cursor = [] then Inr 0
     else case cut_prefix cursorPrefix cursor of
       None \<Rightarrow> fail [] ''that cursor is not one this server issued''
     | Some rest \<Rightarrow> (case cut '':'' rest of
         None \<Rightarrow> fail [] ''that cursor is not one this server issued''
       | Some (offsetPart, mark) \<Rightarrow> (case Atoi offsetPart of
           None \<Rightarrow> fail [] ''that cursor is not one this server issued''
         | Some offset \<Rightarrow> if offset < 0 then fail [] ''that cursor is not one this server issued''
             else if mark \<noteq> queryStamp sha query then fail [] ''that cursor belongs to a different query''
             else Inr offset)))"

section \<open>Labels and snippets\<close>

definition orElse :: "string \<Rightarrow> string \<Rightarrow> string" where
  "orElse v fallback = (if v = [] then fallback else v)"

definition shortID :: "recid \<Rightarrow> string" where
  "shortID i = (if 12 < length (ID_String i) then take 12 (ID_String i) else ID_String i)"

definition firstLine :: "string \<Rightarrow> string" where
  "firstLine s = trim_space (takeWhile (\<lambda>c. c \<noteq> CHR 0x0A) s)"

definition SnippetBytes :: nat where "SnippetBytes = 320"

definition ellipsis :: string where "ellipsis = [CHR 0xE2, CHR 0x80, CHR 0xA6]"

definition isBoundary :: "char \<Rightarrow> bool" where
  "isBoundary c \<longleftrightarrow> c = CHR '' '' \<or> c = CHR 0x0A \<or> c = CHR 0x09"

text \<open>A byte inside an encoded rune: \<open>b & 0xC0 == 0x80\<close>.\<close>

definition continues_rune :: "char \<Rightarrow> bool" where
  "continues_rune c \<longleftrightarrow> 128 \<le> (of_char c :: nat) \<and> (of_char c :: nat) < 192"

fun step_back :: "(char \<Rightarrow> bool) \<Rightarrow> string \<Rightarrow> nat \<Rightarrow> nat" where
  "step_back stop s 0 = 0"
| "step_back stop s (Suc n) = (if stop (s ! Suc n) then Suc n else step_back stop s n)"

definition snippet_cut :: "string \<Rightarrow> nat" where
  "snippet_cut s = (let n = step_back isBoundary s SnippetBytes in
     if n < SnippetBytes div 2 then step_back (\<lambda>c. \<not> continues_rune c) s SnippetBytes else n)"

definition snippet :: "string \<Rightarrow> string \<times> bool" where
  "snippet s0 = (let s = trim_space s0 in
     if length s \<le> SnippetBytes then (s, False) else (trim_space (take (snippet_cut s) s) @ ellipsis, True))"

section \<open>What an address names\<close>

lemma hex_value_plain: "hex_value c = Some n \<Longrightarrow> c \<noteq> CHR ''/''"
  by (auto simp: hex_value_def)

lemma ParseID_plain: "ParseID t = Inr i \<Longrightarrow> CHR ''/'' \<notin> set t"
proof -
  have "hex_decode t = Some b \<Longrightarrow> CHR ''/'' \<notin> set t" for b
    by (induction t arbitrary: b rule: hex_decode.induct) (auto dest: hex_value_plain split: option.splits)
  then show "ParseID t = Inr i \<Longrightarrow> CHR ''/'' \<notin> set t" by (auto simp: ParseID_def split: option.splits)
qed

lemma cut_none: "c \<notin> set s \<Longrightarrow> cut [c] s = None"
  by (induction s) (simp_all add: cut.simps)

lemma cut_or_whole_simps:
  "c \<notin> set s \<Longrightarrow> cut_or_whole [c] s = (s, [], False)"
  "c \<notin> set a \<Longrightarrow> cut_or_whole [c] (a @ c # b) = (a, b, True)"
  using cut_fresh [of c a "[]" b] by (simp_all add: cut_or_whole_def cut_none)

lemma cut_or_whole_whole:
  "cut_or_whole sep s = (a, b, ok) \<Longrightarrow> s = (if ok then a @ sep @ b else a)"
  by (auto simp: cut_or_whole_def dest: cut_Some split: option.splits)

lemma cut_prefix_iff: "cut_prefix p s = Some r \<longleftrightarrow> s = p @ r"
  by (auto simp: cut_prefix_def starts_with_iff)

lemmas form_defs = FormVault_def FormGuide_def FormMemory_def FormSession_def FormTranscript_def KindMemory_def KindSession_def

lemma Parse_memory: "ParseID t = Inr i \<Longrightarrow> Parse (Scheme @ ''memory/'' @ t) = Inr \<lparr>adForm = FormMemory, adURI = Scheme @ ''memory/'' @ t, adID = i\<rparr>"
proof -
  assume t: "ParseID t = Inr i"
  note p = cut_or_whole_simps [where c = "CHR ''/''"]
  have "cut_or_whole ''/'' (''memory/'' @ t) = (''memory'', t, True)" using p(2) [of "''memory''" t] by simp
  moreover have "cut_or_whole ''/'' t = (t, [], False)" by (rule p(1) [OF ParseID_plain [OF t]])
  ultimately show ?thesis
    using t by (simp add: Parse_def cut_prefix_iff [THEN iffD2, OF refl] form_defs)
qed

lemma Parse_session:
  assumes t: "ParseID t = Inr i"
  shows "Parse (Scheme @ ''session/'' @ t) = Inr \<lparr>adForm = FormSession, adURI = Scheme @ ''session/'' @ t, adID = i\<rparr>"
    and "Parse (Scheme @ ''session/'' @ t @ ''/transcript'') = Inr \<lparr>adForm = FormTranscript, adURI = Scheme @ ''session/'' @ t @ ''/transcript'', adID = i\<rparr>"
proof -
  note p = cut_or_whole_simps [where c = "CHR ''/''"]
  have h: "cut_or_whole ''/'' (''session/'' @ u) = (''session'', u, True)" for u using p(2) [of "''session''" u] by simp
  have "cut_or_whole ''/'' t = (t, [], False)" by (rule p(1) [OF ParseID_plain [OF t]])
  with t h [of t] show "Parse (Scheme @ ''session/'' @ t) = Inr \<lparr>adForm = FormSession, adURI = Scheme @ ''session/'' @ t, adID = i\<rparr>"
    by (simp add: Parse_def cut_prefix_iff [THEN iffD2, OF refl] form_defs)
  have "cut_or_whole ''/'' (t @ ''/transcript'') = (t, ''transcript'', True)" using p(2) [OF ParseID_plain [OF t], of "''transcript''"] by simp
  with t h [of "t @ ''/transcript''"] show "Parse (Scheme @ ''session/'' @ t @ ''/transcript'')
      = Inr \<lparr>adForm = FormTranscript, adURI = Scheme @ ''session/'' @ t @ ''/transcript'', adID = i\<rparr>"
    by (simp add: Parse_def cut_prefix_iff [THEN iffD2, OF refl] form_defs)
qed

lemma Parse_fixed:
  "Parse VaultURI = Inr \<lparr>adForm = FormVault, adURI = VaultURI, adID = 0\<rparr>"
  "Parse GuideURI = Inr \<lparr>adForm = FormGuide, adURI = GuideURI, adID = 0\<rparr>"
  by (simp_all add: Parse_def VaultURI_def GuideURI_def cut_prefix_iff [THEN iffD2, OF refl] form_defs)

text \<open>The address a record is listed under is read back as that record.\<close>

lemma Parse_URI [simp]:
  "Parse (URI KindMemory i) = Inr \<lparr>adForm = FormMemory, adURI = URI KindMemory i, adID = i\<rparr>"
  "Parse (URI KindSession i) = Inr \<lparr>adForm = FormSession, adURI = URI KindSession i, adID = i\<rparr>"
  "Parse (TranscriptURI i) = Inr \<lparr>adForm = FormTranscript, adURI = TranscriptURI i, adID = i\<rparr>"
  using Parse_memory [OF ParseID_String [of i]] Parse_session [OF ParseID_String [of i]]
  by (simp_all add: URI_def TranscriptURI_def KindMemory_def KindSession_def)

text \<open>C34. The address space is exactly the vault, the guide, the memories and two addresses per conversation.  A string is accepted if and
  only if it is one of the two fixed addresses, or a scheme and form around a string \<open>ParseID\<close> reads as an id; the answer repeats the
  string it was given, and no string names two things.  Of the spellings of an id, which may use either case for a digit, the server
  writes one: the address it writes for a memory, a conversation or a transcript is read back as the record it was written for, so
  different records never share one.\<close>

theorem address_space:
  "(Parse uri = Inr a \<longleftrightarrow>
      uri = VaultURI \<and> a = \<lparr>adForm = FormVault, adURI = uri, adID = 0\<rparr>
    \<or> uri = GuideURI \<and> a = \<lparr>adForm = FormGuide, adURI = uri, adID = 0\<rparr>
    \<or> (\<exists>t i. ParseID t = Inr i \<and>
        (uri = Scheme @ ''memory/'' @ t \<and> a = \<lparr>adForm = FormMemory, adURI = uri, adID = i\<rparr>
       \<or> uri = Scheme @ ''session/'' @ t \<and> a = \<lparr>adForm = FormSession, adURI = uri, adID = i\<rparr>
       \<or> uri = Scheme @ ''session/'' @ t @ ''/transcript'' \<and> a = \<lparr>adForm = FormTranscript, adURI = uri, adID = i\<rparr>)))
   \<and> Parse (URI KindMemory j) = Inr \<lparr>adForm = FormMemory, adURI = URI KindMemory j, adID = j\<rparr>
   \<and> Parse (URI KindSession j) = Inr \<lparr>adForm = FormSession, adURI = URI KindSession j, adID = j\<rparr>
   \<and> Parse (TranscriptURI j) = Inr \<lparr>adForm = FormTranscript, adURI = TranscriptURI j, adID = j\<rparr>"
proof -
  let ?named = "uri = VaultURI \<and> a = \<lparr>adForm = FormVault, adURI = uri, adID = 0\<rparr>
    \<or> uri = GuideURI \<and> a = \<lparr>adForm = FormGuide, adURI = uri, adID = 0\<rparr>
    \<or> (\<exists>t i. ParseID t = Inr i \<and>
        (uri = Scheme @ ''memory/'' @ t \<and> a = \<lparr>adForm = FormMemory, adURI = uri, adID = i\<rparr>
       \<or> uri = Scheme @ ''session/'' @ t \<and> a = \<lparr>adForm = FormSession, adURI = uri, adID = i\<rparr>
       \<or> uri = Scheme @ ''session/'' @ t @ ''/transcript'' \<and> a = \<lparr>adForm = FormTranscript, adURI = uri, adID = i\<rparr>))"
  have "?named" if p: "Parse uri = Inr a"
  proof -
    obtain rest where r: "uri = Scheme @ rest" using p by (auto simp: Parse_def cut_prefix_iff split: option.splits)
    then have q: "cut_prefix Scheme uri = Some rest" by (simp add: cut_prefix_iff)
    show ?thesis
    proof (cases "rest = FormVault \<or> rest = FormGuide")
      case True
      then have "uri = VaultURI \<or> uri = GuideURI" using r by (auto simp: VaultURI_def GuideURI_def FormVault_def FormGuide_def)
      then show ?thesis using p Parse_fixed by auto
    next
      case False
      obtain head tail where c1: "cut_or_whole ''/'' rest = (head, tail, True)"
        using p False by (auto simp: Parse_def q split: prod.splits if_splits)
      obtain t suff more where c2: "cut_or_whole ''/'' tail = (t, suff, more)" by (cases "cut_or_whole ''/'' tail")
      obtain i where i: "ParseID t = Inr i" using p False c1 c2 by (auto simp: Parse_def q split: sum.splits)
      have w: "rest = head @ ''/'' @ tail" "tail = (if more then t @ ''/'' @ suff else t)"
        using cut_or_whole_whole [OF c1] cut_or_whole_whole [OF c2] by auto
      have "head = KindMemory \<and> \<not> more \<and> a = \<lparr>adForm = FormMemory, adURI = uri, adID = i\<rparr>
        \<or> head = KindSession \<and> \<not> more \<and> a = \<lparr>adForm = FormSession, adURI = uri, adID = i\<rparr>
        \<or> head = KindSession \<and> more \<and> suff = FormTranscript \<and> a = \<lparr>adForm = FormTranscript, adURI = uri, adID = i\<rparr>"
        using p False c1 c2 i by (auto simp: Parse_def q split: if_splits)
      then have "uri = Scheme @ ''memory/'' @ t \<and> a = \<lparr>adForm = FormMemory, adURI = uri, adID = i\<rparr>
       \<or> uri = Scheme @ ''session/'' @ t \<and> a = \<lparr>adForm = FormSession, adURI = uri, adID = i\<rparr>
       \<or> uri = Scheme @ ''session/'' @ t @ ''/transcript'' \<and> a = \<lparr>adForm = FormTranscript, adURI = uri, adID = i\<rparr>"
        using r w by (elim disjE) (simp_all add: KindMemory_def KindSession_def FormTranscript_def)
      then show ?thesis by (intro disjI2, intro exI [of _ t] exI [of _ i] conjI i) 
    qed
  qed
  moreover have "Parse uri = Inr a" if "?named"
    using that by (elim disjE exE conjE) (simp_all only: Parse_fixed Parse_memory Parse_session)
  ultimately have "Parse uri = Inr a \<longleftrightarrow> ?named" by (rule iffI)
  then show ?thesis by (rule conjI) (simp only: Parse_URI simp_thms)
qed

section \<open>Cursors\<close>

lemma digits_plain: "list_all is_digit (digits n)"
proof (induction n rule: digits.induct)
  case (1 n)
  have "is_digit (char_of (48 + m))" if "m < 10" for m :: nat using that by (simp add: is_digit_def)
  with 1 show ?case by (subst digits.simps) simp
qed

lemma digits_value_snoc: "digits_value (s @ [c]) = 10 * digits_value s + (of_char c - 48)"
  by (simp add: digits_value_def)

lemma digits_value [simp]: "digits_value (digits n) = n"
proof (induction n rule: digits.induct)
  case (1 n)
  show ?case
  proof (cases "n < 10")
    case True
    then show ?thesis by (subst digits.simps) (simp add: digits_value_def)
  next
    case False
    then show ?thesis using 1 by (subst digits.simps) (simp add: digits_value_snoc)
  qed
qed

lemma digits_not_Nil: "digits n \<noteq> []"
  by (subst digits.simps) simp

lemma not_digit: "\<not> is_digit (CHR ''-'')" "\<not> is_digit (CHR ''+'')" "\<not> is_digit (CHR '':'')"
  by (simp_all add: is_digit_def)

lemma digits_first: "\<not> is_digit c \<Longrightarrow> \<not> starts_with [c] (digits n)" "\<not> is_digit c \<Longrightarrow> c \<notin> set (digits n)"
  using digits_plain [of n] digits_not_Nil [of n] by (auto simp: list_all_iff starts_with_iff)

lemma Atoi_Itoa: "0 \<le> n \<Longrightarrow> n < 2 ^ 63 \<Longrightarrow> Atoi (Itoa n) = Some n"
  using digits_plain [of "nat n"] digits_not_Nil [of "nat n"] digits_first(1) [OF not_digit(1), of "nat n"] digits_first(1) [OF not_digit(2), of "nat n"]
  by (simp add: Atoi_def Itoa_def Let_def)

lemma decode_encode:
  assumes "0 \<le> n" and "n < 2 ^ 63"
  shows "decodeRankCursor sha (encodeRankCursor sha n q) p
      = (if queryStamp sha q \<noteq> queryStamp sha p then fail [] ''that cursor belongs to a different query'' else Inr n)"
proof -
  have "CHR '':'' \<notin> set (Itoa n)" using assms(1) digits_first(2) [OF not_digit(3)] by (simp add: Itoa_def)
  then have c: "cut '':'' (Itoa n @ '':'' @ queryStamp sha q) = Some (Itoa n, queryStamp sha q)"
    using cut_fresh [of "CHR '':''" "Itoa n" "[]"] by simp
  show ?thesis
    using assms c Atoi_Itoa [OF assms] cut_prefix_iff [THEN iffD2, OF refl, of cursorPrefix "Itoa n @ '':'' @ queryStamp sha q"]
    by (simp add: decodeRankCursor_def encodeRankCursor_def cursorPrefix_def)
qed

text \<open>A cursor continues the ranking it came from.  The cursor of a place in the ranking of a query is read back as
  that place; with a query of another stamp it is refused, and whatever text is given as a cursor, what is read from it is
  a place in a ranking of the given query or the beginning.
\<close>

lemma cursor_of_its_query:
  assumes "0 \<le> n" and "n < 2 ^ 63"
  shows "decodeRankCursor sha (encodeRankCursor sha n q) q = Inr n
    \<and> (queryStamp sha q' \<noteq> queryStamp sha q \<longrightarrow> (\<exists>e. decodeRankCursor sha (encodeRankCursor sha n q) q' = Inl e))
    \<and> (\<forall>m. decodeRankCursor sha text' q = Inr m \<longrightarrow> 0 \<le> m \<and> m < 2 ^ 63 \<and>
         (text' = [] \<and> m = 0 \<or> (\<exists>num. text' = cursorPrefix @ num @ '':'' @ queryStamp sha q \<and> Atoi num = Some m)))"
proof (intro conjI impI allI)
  note d = decode_encode [OF assms, of sha q]
  show "decodeRankCursor sha (encodeRankCursor sha n q) q = Inr n" by (simp add: d)
  show "\<exists>e. decodeRankCursor sha (encodeRankCursor sha n q) q' = Inl e" if "queryStamp sha q' \<noteq> queryStamp sha q"
    using that by (auto simp: d)
next
  fix m assume m: "decodeRankCursor sha text' q = Inr m"
  have a: "Atoi num = Some k \<Longrightarrow> k < 2 ^ 63" for num k
    by (auto simp: Atoi_def Let_def split: if_splits)
  have n: "text' = [] \<and> m = 0 \<or> (\<exists>num. text' = cursorPrefix @ num @ '':'' @ queryStamp sha q \<and> Atoi num = Some m \<and> 0 \<le> m)"
  proof (cases "text' = []")
    case True
    then show ?thesis using m by (simp add: decodeRankCursor_def)
  next
    case False
    obtain rest where r: "cut_prefix cursorPrefix text' = Some rest"
      using m False by (cases "cut_prefix cursorPrefix text'") (auto simp: decodeRankCursor_def)
    obtain num mark where c: "cut '':'' rest = Some (num, mark)"
      using m False r by (cases "cut '':'' rest") (auto simp: decodeRankCursor_def)
    obtain k where k: "Atoi num = Some k" using m False r c by (cases "Atoi num") (auto simp: decodeRankCursor_def)
    have "k = m" "0 \<le> k" "mark = queryStamp sha q" using m False r c k by (simp_all add: decodeRankCursor_def split: if_splits)
    moreover have "text' = cursorPrefix @ num @ '':'' @ mark" using r cut_Some [OF c] by (simp add: cut_prefix_iff)
    ultimately show ?thesis using k by auto
  qed
  then show "0 \<le> m" "m < 2 ^ 63" using a by auto
  show "text' = [] \<and> m = 0 \<or> (\<exists>num. text' = cursorPrefix @ num @ '':'' @ queryStamp sha q \<and> Atoi num = Some m)"
    using n by blast
qed

section \<open>Snippets\<close>

lemma step_back_stops:
  "step_back stop s n \<le> n" "step_back stop s n = 0 \<or> stop (s ! step_back stop s n)"
  by (induction n) auto

lemma boundary_starts_rune: "isBoundary c \<Longrightarrow> \<not> continues_rune c"
  by (auto simp: isBoundary_def continues_rune_def)

lemma snippet_cut_bounds:
  "snippet_cut s \<le> SnippetBytes" "snippet_cut s = 0 \<or> \<not> continues_rune (s ! snippet_cut s)"
  using step_back_stops [of isBoundary s SnippetBytes] step_back_stops [of "\<lambda>c. \<not> continues_rune c" s SnippetBytes]
  by (auto simp: snippet_cut_def Let_def boundary_starts_rune)

text \<open>In text no rune of which is longer than four bytes the cut is never far back.\<close>

lemma step_back_reach:
  "m < k \<Longrightarrow> k \<le> n \<Longrightarrow> stop (s ! k) \<Longrightarrow> m < step_back stop s n"
  by (induction n) (auto simp: le_Suc_eq)

text \<open>A snippet is a bounded beginning of the text that ends between two characters.  Text that fits is answered
  whole and not marked; of longer text no more than 320 bytes are kept and three added, cut before a byte that begins a
  rune, and where the text is made of runes of at most four bytes at least half of the room is used.
\<close>

lemma snippet_is_a_beginning:
  "(let s = trim_space s0; n = snippet_cut s in
     (length s \<le> SnippetBytes \<longrightarrow> snippet s0 = (s, False))
   \<and> (SnippetBytes < length s \<longrightarrow> snippet s0 = (trim_space (take n s) @ ellipsis, True)
        \<and> length (fst (snippet s0)) \<le> SnippetBytes + 3 \<and> n \<le> SnippetBytes
        \<and> (n = 0 \<or> \<not> continues_rune (s ! n))
        \<and> ((\<forall>k. k + 4 \<le> length s \<longrightarrow> (\<exists>j<4. \<not> continues_rune (s ! (k + j)))) \<longrightarrow> SnippetBytes div 2 \<le> n)))"
proof -
  let ?s = "trim_space s0" let ?n = "snippet_cut ?s"
  have "length (trim_space (take ?n ?s)) \<le> SnippetBytes"
    using trim_space_length [of "take ?n ?s"] snippet_cut_bounds(1) [of ?s] by simp
  moreover have "SnippetBytes div 2 \<le> ?n"
    if l: "SnippetBytes < length ?s" and r: "\<forall>k. k + 4 \<le> length ?s \<longrightarrow> (\<exists>j<4. \<not> continues_rune (?s ! (k + j)))"
  proof -
    obtain j where j: "j < 4" "\<not> continues_rune (?s ! (317 + j))"
      using r [rule_format, of 317] l by (auto simp: SnippetBytes_def)
    have "316 < step_back (\<lambda>c. \<not> continues_rune c) ?s 320" by (rule step_back_reach [where k = "317 + j"]) (use j in simp_all)
    then show ?thesis by (simp add: snippet_cut_def Let_def SnippetBytes_def)
  qed
  ultimately show ?thesis
    using snippet_cut_bounds [of ?s] by (simp add: Let_def snippet_def ellipsis_def)
qed

lemma step_back_none: "\<forall>k \<le> n. \<not> stop (s ! k) \<Longrightarrow> step_back stop s n = 0"
  by (induction n) auto

end
