(* ===== verification/McpResolve.thy ===== *)
theory McpResolve
  imports VaultHydrate McpAddress
begin

text \<open>
  Package \<open>mcp\<close>, how an address becomes content (\<open>resolve.go\<close>, the state of \<open>server.go\<close>, \<open>renderMemory\<close> of \<open>render.go\<close>):
  one function that the tool \<open>open\<close>, the protocol's reads and the resume prompt all call.

  The JSON encoder, the quoting and the fixed point formats of package \<open>fmt\<close>, the text of the guide (an embedded file) and the
  text engine are parameters of the server.
\<close>

section \<open>The server\<close>

record tag_use =
  tuTag :: string
  tuRecords :: nat
  tuTooCommon :: bool

record vault_detail =
  vdRecords :: nat
  vdMemories :: nat
  vdSessions :: nat
  vdPending :: int
  vdIndexed :: int
  vdModel :: string
  vdUnindexed :: nat
  vdOnline :: bool
  vdIndexer :: string
  vdTags :: "tag_use list"
  vdReady :: string

record memory_detail =
  mdURI :: string
  mdID :: string
  mdType :: string
  mdStatement :: string
  mdContext :: string
  mdTags :: "string list"
  mdCreated :: string
  mdUpdated :: string
  mdImportance :: gofloat
  mdConfidence :: gofloat
  mdValidFrom :: string
  mdValidUntil :: string
  mdSupersedes :: string
  mdSession :: string
  mdSpan :: string
  mdLinks :: "string list"
  mdTier :: string

record subagent_detail =
  sdURI :: string
  sdTitle :: string
  sdKind :: string
  sdMessages :: int

record session_detail =
  snURI :: string
  snID :: string
  snTitle :: string
  snSummary :: string
  snTags :: "string list"
  snKind :: string
  snAgent :: string
  snModels :: "string list"
  snProject :: string
  snCreated :: string
  snUpdated :: string
  snMessages :: int
  snChunks :: nat
  snBytes :: int
  snVersion :: int
  snTranscript :: string
  snHeadMessage :: string
  snMemories :: "string list"
  snSubagents :: "subagent_detail list"
  snArchived :: bool

record transcript_detail =
  trURI :: string
  trSession :: string
  trTitle :: string
  trMessages :: "message list"
  trMore :: bool
  trNextFrom :: string
  trTotal :: int
  trChunksRead :: int

datatype detail = GuideDetail string | VaultDetail vault_detail | MemoryDetail memory_detail
  | SessionDetail session_detail | TranscriptDetail transcript_detail

record link =
  lkURI :: string
  lkName :: string
  lkDescription :: string
  lkMIMEType :: string

record resolution =
  rlAddress :: address
  rlName :: string
  rlTitle :: string
  rlMIMEType :: string
  rlBody :: string
  rlDetail :: detail
  rlLinks :: "link list"

record resolve_options =
  roFrom :: string
  roLimit :: int
  roIncludeSubagents :: bool

text \<open>\<open>svFixed n x\<close> is \<open>x\<close> with \<open>n\<close> decimals, \<open>svQuote\<close> the verb \<open>%q\<close>, \<open>svSHA\<close> SHA-256.\<close>

record 'n server =
  svVault :: "'n venv"
  svOpened :: bool
  svOpenErr :: "goerr option"
  svIndexer :: string
  svGuide :: string
  svFTS :: "(recid \<times> string) list \<Rightarrow> string \<Rightarrow> recid list"
  svJSON :: "detail \<Rightarrow> string res"
  svQuote :: "string \<Rightarrow> string"
  svFixed :: "nat \<Rightarrow> gofloat \<Rightarrow> string"
  svSHA :: "byte list \<Rightarrow> byte list"
  svParseTime :: "string \<Rightarrow> gotime res"

definition Server_ready :: "'n server \<Rightarrow> unit res" where
  "Server_ready sv = (if svOpened sv then Inr ()
     else case svOpenErr sv of Some e \<Rightarrow> Inl e | None \<Rightarrow> fail [ErrNotOnboarded] ''this Mnemosia server has no vault open'')"

definition tx_of :: "'n server \<Rightarrow> gotime \<Rightarrow> string" where
  "tx_of sv = tlTime (vnText (svVault sv))"

definition mustJSON :: "'n server \<Rightarrow> detail \<Rightarrow> string" where
  "mustJSON sv d = (case svJSON sv d of Inr t \<Rightarrow> t
     | Inl e \<Rightarrow> ''{'' @ [CHR 0x22] @ ''error'' @ [CHR 0x22] @ '': '' @ svQuote sv (why e) @ ''}'')"

section \<open>Content that is missing\<close>

text \<open>The three sentinels of an absence become the one the protocol has a code for; the sentinel they were is not kept.\<close>

definition notFound :: "string \<Rightarrow> goerr \<Rightarrow> goerr" where
  "notFound uri e = (if errors_Is e ErrNoSession \<or> errors_Is e ErrLocalNotFound \<or> errors_Is e ErrManifestNotFound
     then GoErr [ErrNoRecord] (''no record at that address: '' @ uri) else e)"

definition or_missing :: "string \<Rightarrow> ('s, 'a) run \<Rightarrow> ('s, 'a) run" where
  "or_missing uri m = (\<lambda>s. case m s of Some (Inl e, t) \<Rightarrow> Some (Inl (notFound uri e), t) | x \<Rightarrow> x)"

section \<open>The vault\<close>

definition VocabularyLimit :: int where "VocabularyLimit = 40"

definition Health_Stale :: "index_health \<Rightarrow> nat" where
  "Health_Stale h = (\<Sum>m \<in> dom (ihForeign h). the (ihForeign h m))"

record record_counts =
  rcTotal :: nat
  rcByKind :: "kind \<rightharpoonup> nat"

definition CountRecords :: "'n vault \<Rightarrow> record_counts" where
  "CountRecords s = \<lparr>rcTotal = CountRecordMeta (vaRanking s), rcByKind = CountRecordsByKind (vaRanking s)\<rparr>"

definition count_of :: "record_counts \<Rightarrow> kind \<Rightarrow> nat" where
  "count_of c k = (case rcByKind c k of None \<Rightarrow> 0 | Some n \<Rightarrow> n)"

definition fillVault :: "'n server \<Rightarrow> 'n vault \<Rightarrow> vault_detail \<Rightarrow> vault_detail" where
  "fillVault sv s d = (let h = vaHealth s; c = CountRecords s in
     d\<lparr>vdIndexed := ihIndexed h, vdModel := ihModel h, vdUnindexed := Health_Stale h, vdPending := Vault_Pending s,
       vdOnline := vnOnline (svVault sv), vdIndexer := (if vnOnline (svVault sv) then svIndexer sv else []),
       vdRecords := rcTotal c, vdMemories := count_of c KindMemory, vdSessions := count_of c KindSession,
       vdTags := map (\<lambda>t. \<lparr>tuTag = tgTag t, tuRecords = tgRecords t, tuTooCommon = tgTooCommon t\<rparr>) (TagVocabulary s VocabularyLimit)\<rparr>)"

definition no_vault_detail :: vault_detail where
  "no_vault_detail = \<lparr>vdRecords = 0, vdMemories = 0, vdSessions = 0, vdPending = 0, vdIndexed = 0, vdModel = [], vdUnindexed = 0,
     vdOnline = False, vdIndexer = [], vdTags = [], vdReady = []\<rparr>"

definition resolveVault :: "'n server \<Rightarrow> address \<Rightarrow> ('n vault, resolution) run" where
  "resolveVault sv a = prun (sget (\<lambda>s.
     let d = VaultDetail (case Server_ready sv of Inl e \<Rightarrow> no_vault_detail\<lparr>vdReady := why e\<rparr> | Inr _ \<Rightarrow> fillVault sv s no_vault_detail) in
     \<lparr>rlAddress = a, rlName = ''vault'', rlTitle = ''This vault'', rlMIMEType = ''application/json'', rlBody = mustJSON sv d,
      rlDetail = d, rlLinks = [\<lparr>lkURI = GuideURI, lkName = ''guide'', lkDescription = ''how to use this vault'', lkMIMEType = []\<rparr>]\<rparr>))"

definition resolveGuide :: "'n server \<Rightarrow> address \<Rightarrow> resolution" where
  "resolveGuide sv a = \<lparr>rlAddress = a, rlName = ''guide'', rlTitle = ''How to use this vault'', rlMIMEType = ''text/markdown'',
     rlBody = svGuide sv, rlDetail = GuideDetail (svGuide sv),
     rlLinks = [\<lparr>lkURI = VaultURI, lkName = ''vault'', lkDescription = ''what this vault holds right now'', lkMIMEType = []\<rparr>]\<rparr>"

section \<open>Memories\<close>

definition newline :: string where "newline = [CHR 0x0A]"
definition middle_dot :: string where "middle_dot = [CHR 0xC2, CHR 0xB7]"

definition memory_detail_of :: "'n server \<Rightarrow> string \<Rightarrow> memory \<Rightarrow> memory_detail" where
  "memory_detail_of sv uri m =
    \<lparr>mdURI = uri, mdID = ID_String (mID m), mdType = mType m, mdStatement = mStatement m, mdContext = mContext m, mdTags = mTags m,
     mdCreated = tx_of sv (mCreatedAt m), mdUpdated = [], mdImportance = mImportance m, mdConfidence = mConfidence m,
     mdValidFrom = [], mdValidUntil = [],
     mdSupersedes = (case mSupersedes m of None \<Rightarrow> [] | Some old \<Rightarrow> URI KindMemory old),
     mdSession = [], mdSpan = [], mdLinks = mLinks m, mdTier = []\<rparr>"

definition source_link :: "memory \<Rightarrow> string \<times> string" where
  "source_link m = (if srcSessionID (mSource m) = [] then ([], [])
     else case ParseID (srcSessionID (mSource m)) of Inl _ \<Rightarrow> ([], []) | Inr i \<Rightarrow> (URI KindSession i, srcSpan (mSource m)))"

definition memoryDetail :: "'n server \<Rightarrow> string \<Rightarrow> memory \<Rightarrow> tier \<Rightarrow> memory_detail" where
  "memoryDetail sv uri m tier = (memory_detail_of sv uri m)
    \<lparr>mdUpdated := (if mUpdatedAt m \<noteq> mCreatedAt m then tx_of sv (mUpdatedAt m) else []),
     mdValidFrom := (case mValidFrom m of None \<Rightarrow> [] | Some t \<Rightarrow> tx_of sv t),
     mdValidUntil := (case mValidUntil m of None \<Rightarrow> [] | Some t \<Rightarrow> tx_of sv t),
     mdSession := fst (source_link m), mdSpan := snd (source_link m), mdTier := tier_name tier\<rparr>"

definition renderMemory :: "'n server \<Rightarrow> memory_detail \<Rightarrow> string" where
  "renderMemory sv d =
    ''# '' @ mdStatement d @ newline @ newline @ mdContext d @ newline @ newline
    @ ''- type: '' @ mdType d @ newline
    @ (if mdTags d \<noteq> [] then ''- tags: '' @ join_with '', '' (mdTags d) @ newline else [])
    @ ''- stored: '' @ mdCreated d @ newline
    @ (if mdValidFrom d \<noteq> [] \<or> mdValidUntil d \<noteq> []
       then ''- true of the world: '' @ orElse (mdValidFrom d) ''unstated'' @ '' to '' @ orElse (mdValidUntil d) ''unstated'' @ newline else [])
    @ (if float_lt (Fin 0) (mdImportance d) \<or> float_lt (Fin 0) (mdConfidence d)
       then ''- importance '' @ svFixed sv 2 (mdImportance d) @ '' '' @ middle_dot @ '' confidence '' @ svFixed sv 2 (mdConfidence d) @ newline else [])
    @ (if mdSupersedes d \<noteq> [] then ''- replaced: '' @ mdSupersedes d @ newline else [])
    @ (if mdSession d \<noteq> [] then ''- from conversation: '' @ mdSession d
         @ (if mdSpan d \<noteq> [] then '' (turns '' @ mdSpan d @ '')'' else []) @ newline else [])
    @ ''- address: '' @ mdURI d @ newline @ ''- read from: '' @ mdTier d @ newline"

definition memory_links :: "memory_detail \<Rightarrow> link list" where
  "memory_links d =
    (if mdSession d \<noteq> [] then [\<lparr>lkURI = mdSession d, lkName = ''source conversation'',
        lkDescription = ''the conversation this was drawn from'', lkMIMEType = []\<rparr>] else [])
    @ (if mdSupersedes d \<noteq> [] then [\<lparr>lkURI = mdSupersedes d, lkName = ''replaced record'',
        lkDescription = ''what this record replaced, kept as history'', lkMIMEType = []\<rparr>] else [])"

definition resolveMemory :: "'n server \<Rightarrow> address \<Rightarrow> ('n vault, resolution) run" where
  "resolveMemory sv a = pbind (or_missing (adURI a) (FetchMemory (svVault sv) (adID a))) (\<lambda>(m, tier).
     let d = memoryDetail sv (adURI a) m tier in
     prun (sret \<lparr>rlAddress = a, rlName = ''memory '' @ shortID (mID m), rlTitle = firstLine (mStatement m),
       rlMIMEType = ''text/markdown'', rlBody = renderMemory sv d, rlDetail = MemoryDetail d, rlLinks = memory_links d\<rparr>))"

section \<open>Conversations\<close>

definition sessionDetail :: "'n server \<Rightarrow> session_head \<Rightarrow> subagent list \<Rightarrow> session_detail" where
  "sessionDetail sv h subagents =
    \<lparr>snURI = URI KindSession (sID h), snID = ID_String (sID h), snTitle = sTitle h, snSummary = sSummary h, snTags = sTags h,
     snKind = sKind h, snAgent = agName (sAgent h), snModels = sModels h, snProject = ProjectKey (sProject h),
     snCreated = tx_of sv (sCreated h), snUpdated = tx_of sv (sUpdated h), snMessages = cnMessages (sCounts h),
     snChunks = length (sChunks h), snBytes = cnBytes (sCounts h), snVersion = sVersion h, snTranscript = TranscriptURI (sID h),
     snHeadMessage = sHeadMessage h, snMemories = map (URI KindMemory) (sMemories h),
     snSubagents = map (\<lambda>a. \<lparr>sdURI = URI KindSession (sbID a), sdTitle = sbTitle a, sdKind = sbKind a, sdMessages = sbMessages a\<rparr>) subagents,
     snArchived = sArchived h\<rparr>"

definition session_links :: "session_detail \<Rightarrow> link list" where
  "session_links d =
    \<lparr>lkURI = snTranscript d, lkName = ''transcript'', lkDescription = ''the '' @ Itoa (snMessages d) @ '' turns of this conversation'', lkMIMEType = []\<rparr>
    # map (\<lambda>u. \<lparr>lkURI = u, lkName = ''memory'', lkDescription = ''drawn from this conversation'', lkMIMEType = []\<rparr>) (snMemories d)
    @ map (\<lambda>a. \<lparr>lkURI = sdURI a, lkName = sdTitle a, lkDescription = ''a run this conversation delegated'', lkMIMEType = []\<rparr>) (snSubagents d)"

definition head_request :: "recid \<Rightarrow> bool \<Rightarrow> load_request" where
  "head_request i subagents = \<lparr>lqID = i, lqTranscript = False, lqFrom = [], lqLimit = 0, lqIncludeSubagents = subagents\<rparr>"

definition resolveSession :: "'n server \<Rightarrow> address \<Rightarrow> resolve_options \<Rightarrow> ('n vault, resolution) run" where
  "resolveSession sv a opts =
    pbind (or_missing (adURI a) (LoadSession (svVault sv) (head_request (adID a) (roIncludeSubagents opts)))) (\<lambda>l.
      let d = sessionDetail sv (ldSession l) (ldSubagents l) in
      prun (sret \<lparr>rlAddress = a, rlName = ''session '' @ shortID (sID (ldSession l)), rlTitle = sTitle (ldSession l),
        rlMIMEType = ''application/json'', rlBody = mustJSON sv (SessionDetail d), rlDetail = SessionDetail d, rlLinks = session_links d\<rparr>))"

definition transcriptDetail :: "string \<Rightarrow> loaded \<Rightarrow> transcript_detail" where
  "transcriptDetail uri l =
    \<lparr>trURI = uri, trSession = URI KindSession (sID (ldSession l)), trTitle = sTitle (ldSession l), trMessages = ldMessages l,
     trMore = ldMore l, trNextFrom = ldNextFrom l, trTotal = cnMessages (sCounts (ldSession l)), trChunksRead = ldChunksRead l\<rparr>"

definition transcript_request :: "recid \<Rightarrow> resolve_options \<Rightarrow> load_request" where
  "transcript_request i opts = \<lparr>lqID = i, lqTranscript = True, lqFrom = roFrom opts, lqLimit = roLimit opts,
     lqIncludeSubagents = roIncludeSubagents opts\<rparr>"

definition resolveTranscript :: "'n server \<Rightarrow> address \<Rightarrow> resolve_options \<Rightarrow> ('n vault, resolution) run" where
  "resolveTranscript sv a opts =
    pbind (or_missing (adURI a) (LoadSession (svVault sv) (transcript_request (adID a) opts))) (\<lambda>l.
      let d = transcriptDetail (adURI a) l in
      prun (sret \<lparr>rlAddress = a, rlName = ''transcript '' @ shortID (sID (ldSession l)), rlTitle = sTitle (ldSession l) @ '', transcript'',
        rlMIMEType = ''application/json'', rlBody = mustJSON sv (TranscriptDetail d), rlDetail = TranscriptDetail d,
        rlLinks = [\<lparr>lkURI = trSession d, lkName = ''conversation'', lkDescription = ''the head this transcript belongs to'', lkMIMEType = []\<rparr>]\<rparr>))"

section \<open>One resolver\<close>

definition resolve :: "'n server \<Rightarrow> address \<Rightarrow> resolve_options \<Rightarrow> ('n vault, resolution) run" where
  "resolve sv a opts =
    (if adForm a = FormGuide then prun (sret (resolveGuide sv a))
     else if adForm a = FormVault then resolveVault sv a
     else pbind (prun (slift (Server_ready sv))) (\<lambda>_.
       if adForm a = FormMemory then resolveMemory sv a
       else if adForm a = FormSession then resolveSession sv a opts
       else if adForm a = FormTranscript then resolveTranscript sv a opts
       else prun (sfail (GoErr [ErrNoRecord] (''no record at that address: '' @ adURI a)))))"

definition Resolve :: "'n server \<Rightarrow> string \<Rightarrow> resolve_options \<Rightarrow> ('n vault, resolution) run" where
  "Resolve sv uri opts = pbind (prun (slift (Parse uri))) (\<lambda>a. resolve sv a opts)"

text \<open>\<open>resources/read\<close>: the bytes the resolver made, without options; a missing record is the protocol's own error.\<close>

definition plain_options :: resolve_options where
  "plain_options = \<lparr>roFrom = [], roLimit = 0, roIncludeSubagents = False\<rparr>"

record resource_contents =
  rsURI :: string
  rsMIMEType :: string
  rsText :: string

definition readResource :: "'n server \<Rightarrow> string \<Rightarrow> ('n vault, resource_contents) run" where
  "readResource sv uri s = (case pbind (Resolve sv uri plain_options) (\<lambda>r.
       prun (sret \<lparr>rsURI = adURI (rlAddress r), rsMIMEType = rlMIMEType r, rsText = rlBody r\<rparr>)) s of
     Some (Inl e, t) \<Rightarrow> Some (Inl (if errors_Is e ErrNoRecord then GoErr [ErrNoRecord] (''Resource not found: '' @ uri) else e), t)
   | x \<Rightarrow> x)"

section \<open>Every answer is of its form and leads on\<close>

text \<open>The form of address a content belongs to, the bytes it is shown as, and the addresses it names.\<close>

fun detail_form :: "detail \<Rightarrow> string" where
  "detail_form (GuideDetail g) = FormGuide"
| "detail_form (VaultDetail d) = FormVault"
| "detail_form (MemoryDetail d) = FormMemory"
| "detail_form (SessionDetail d) = FormSession"
| "detail_form (TranscriptDetail d) = FormTranscript"

fun detail_text :: "'n server \<Rightarrow> detail \<Rightarrow> string" where
  "detail_text sv (GuideDetail g) = g"
| "detail_text sv (MemoryDetail d) = renderMemory sv d"
| "detail_text sv d = mustJSON sv d"

text \<open>The addresses the server writes; a memory's \<open>links\<close> are what its writer gave.\<close>

fun detail_uris :: "detail \<Rightarrow> string list" where
  "detail_uris (MemoryDetail d) = mdURI d # filter (\<lambda>u. u \<noteq> []) [mdSession d, mdSupersedes d]"
| "detail_uris (SessionDetail d) = snURI d # snTranscript d # snMemories d @ map sdURI (snSubagents d)"
| "detail_uris (TranscriptDetail d) = [trURI d, trSession d]"
| "detail_uris d = []"

definition opens :: "string \<Rightarrow> bool" where
  "opens uri \<longleftrightarrow> (case Parse uri of Inl _ \<Rightarrow> False | Inr a \<Rightarrow> adURI a = uri)"

lemma opens_URI [simp]: "opens (URI KindMemory i)" "opens (URI KindSession i)" "opens (TranscriptURI i)" "opens VaultURI" "opens GuideURI"
  by (simp_all add: opens_def Parse_fixed)

lemma Parse_opens: "Parse uri = Inr a \<Longrightarrow> opens uri \<and> adURI a = uri"
proof -
  assume p: "Parse uri = Inr a"
  then have "adURI a = uri" by (auto simp: Parse_def split: option.splits prod.splits sum.splits if_splits)
  with p show ?thesis by (simp add: opens_def)
qed

lemma source_link_opens: "fst (source_link m) \<noteq> [] \<Longrightarrow> opens (fst (source_link m))"
  by (auto simp: source_link_def split: sum.splits if_splits)

lemma or_missing_Inr: "or_missing uri m s = Some (Inr x, t) \<longleftrightarrow> m s = Some (Inr x, t)"
  by (auto simp: or_missing_def split: option.splits sum.splits)

definition well_formed :: "'n server \<Rightarrow> resolution \<Rightarrow> bool" where
  "well_formed sv r \<longleftrightarrow> adForm (rlAddress r) = detail_form (rlDetail r) \<and> rlBody r = detail_text sv (rlDetail r)
     \<and> list_all opens (detail_uris (rlDetail r)) \<and> list_all (opens \<circ> lkURI) (rlLinks r)"

lemma memory_links_open: "list_all opens (detail_uris (MemoryDetail d)) \<Longrightarrow> list_all (opens \<circ> lkURI) (memory_links d)"
  by (auto simp: memory_links_def)

lemma memoryDetail_opens: "opens uri \<Longrightarrow> list_all opens (detail_uris (MemoryDetail (memoryDetail sv uri m tier)))"
  by (auto simp: memoryDetail_def memory_detail_of_def source_link_opens split: option.splits)

lemma session_links_open: "list_all (opens \<circ> lkURI) (session_links (sessionDetail sv h as))"
  by (auto simp: session_links_def sessionDetail_def list_all_iff)

lemma resolve_well_formed:
  assumes "resolve sv a opts s = Some (Inr r, t)" and a: "opens (adURI a)"
  shows "well_formed sv r \<and> rlAddress r = a"
proof -
  consider "adForm a = FormGuide" | "adForm a = FormVault" "adForm a \<noteq> FormGuide"
    | "adForm a = FormMemory" "resolveMemory sv a s = Some (Inr r, t)"
    | "adForm a = FormSession" "resolveSession sv a opts s = Some (Inr r, t)"
    | "adForm a = FormTranscript" "resolveTranscript sv a opts s = Some (Inr r, t)"
    using assms(1) by (auto simp: resolve_def pbind_Inr_iff prun_def slift_def sfail_def split: if_splits sum.splits)
  then show ?thesis
  proof cases
    case 1
    then have "r = resolveGuide sv a" using assms(1) by (simp add: resolve_def prun_def sret_def)
    then show ?thesis using 1 by (simp add: well_formed_def resolveGuide_def)
  next
    case 2
    then show ?thesis using assms(1) by (auto simp: resolve_def resolveVault_def prun_def sget_def well_formed_def Let_def)
  next
    case 3
    then obtain m tier where r: "rlAddress r = a" "rlDetail r = MemoryDetail (memoryDetail sv (adURI a) m tier)"
      "rlBody r = renderMemory sv (memoryDetail sv (adURI a) m tier)" "rlLinks r = memory_links (memoryDetail sv (adURI a) m tier)"
      by (auto simp: resolveMemory_def pbind_Inr_iff prun_def sret_def Let_def)
    note o = memoryDetail_opens [OF a, of sv m tier]
    show ?thesis using 3(1) r o memory_links_open [OF o] by (simp add: well_formed_def del: detail_uris.simps)
  next
    case 4
    then obtain h as where r: "rlAddress r = a" "rlDetail r = SessionDetail (sessionDetail sv h as)"
      "rlBody r = mustJSON sv (SessionDetail (sessionDetail sv h as))" "rlLinks r = session_links (sessionDetail sv h as)"
      by (auto simp: resolveSession_def pbind_Inr_iff prun_def sret_def Let_def)
    moreover have "list_all opens (detail_uris (SessionDetail (sessionDetail sv h as)))" by (auto simp: sessionDetail_def list_all_iff)
    ultimately show ?thesis using 4 session_links_open by (simp add: well_formed_def del: detail_uris.simps)
  next
    case 5
    then show ?thesis using a
      by (auto simp: resolveTranscript_def pbind_Inr_iff prun_def sret_def Let_def well_formed_def transcriptDetail_def)
  qed
qed

text \<open>C35. Whatever an address resolves to is content of that address's form, and the server writes no dead addresses.  The content's type is
  the one its form calls for, the bytes are the rendering of that content and of nothing else, and every address the server itself
  writes there (of the record, of its conversation, of what it replaced, of the memories and runs of a conversation) and every
  link it offers to follow is one it would read.  The \<open>links\<close> of a memory are not among them: they are the writer's own words,
  stored and repeated unread.\<close>

theorem resolution_is_well_formed:
  assumes "Resolve sv uri opts s = Some (Inr r, t)"
  shows "well_formed sv r \<and> Parse uri = Inr (rlAddress r)"
proof -
  obtain a where a: "Parse uri = Inr a" "resolve sv a opts s = Some (Inr r, t)"
    using assms by (auto simp: Resolve_def pbind_Inr_iff prun_def slift_def split: sum.splits)
  have "opens (adURI a)" using Parse_opens [OF a(1)] by simp
  from resolve_well_formed [OF a(2) this] a(1) show ?thesis by simp
qed

lemma Resolve_memory_held:
  assumes "svOpened sv" and "row_of (vaHeads t) i = None" and "GetRecord (vaBodies t) i = Inr (KindMemory, body)"
    and "vnUnmarshal (svVault sv) body = Inr m"
  shows "\<exists>r u. Resolve sv (URI KindMemory i) opts t = Some (Inr r, u) \<and> adURI (rlAddress r) = URI KindMemory i
    \<and> rlDetail r = MemoryDetail (memoryDetail sv (URI KindMemory i) m TierLocal) \<and> reads_only t u"
proof -
  have f: "FetchMemory (svVault sv) i t = Some (Inr (m, TierLocal), countRead (svVault sv) TierLocal t)"
    using assms(2-4)
    by (simp add: FetchMemory_def pbind_def Fetch_def vault_session_def GetSessionHead_def not_held_def fetchBody_def prun_def
        slift_def sret_def)
  have "reads_only t (countRead (svVault sv) TierLocal t)" by (simp add: reads_only_def countRead_def)
  moreover have p: "Parse (URI KindMemory i) = Inr \<lparr>adForm = FormMemory, adURI = URI KindMemory i, adID = i\<rparr>" by simp
  ultimately show ?thesis
    using assms(1) f unfolding Resolve_def pbind_def prun_def slift_def p
    by (simp add: pbind_def prun_def slift_def pbind_def prun_def slift_def resolve_def Server_ready_def form_defs resolveMemory_def
        or_missing_def sret_def Let_def)
qed

definition demo_server :: "'n venv \<Rightarrow> 'n server" where
  "demo_server ve = \<lparr>svVault = ve, svOpened = True, svOpenErr = None, svIndexer = ''indexer'', svGuide = ''guide'', svFTS = (\<lambda>_ _. []),
     svJSON = (\<lambda>_. Inr ''json''), svQuote = (\<lambda>t. t), svFixed = (\<lambda>_ _. ''0''), svSHA = (\<lambda>b. b @ replicate 32 0),
     svParseTime = (\<lambda>_. fail [] ''time'')\<rparr>"

lemma demo_server_sel [simp]: "svVault (demo_server ve) = ve" "svOpened (demo_server ve)"
  by (simp_all add: demo_server_def)

theorem resolution_is_well_formed_witness:
  "\<exists>r t. Resolve (demo_server demo_venv) (URI KindMemory 4) plain_options
       (demo_vault\<lparr>vaBodies := [(4, \<lparr>bKind = KindMemory, bBody = [7], bCreated = 1\<rparr>)]\<rparr>) = Some (Inr r, t)
     \<and> well_formed (demo_server demo_venv) r"
proof -
  let ?s = "demo_vault\<lparr>vaBodies := [(4, \<lparr>bKind = KindMemory, bBody = [7], bCreated = 1\<rparr>)]\<rparr>"
  have "row_of (vaHeads ?s) 4 = None" "GetRecord (vaBodies ?s) 4 = Inr (KindMemory, [7])"
    "vnUnmarshal (svVault (demo_server demo_venv)) [7] = Inr (demo_memory (ID_of_bytes [7]))"
    by (simp_all add: demo_vault_def GetRecord_def row_of_def) (simp add: demo_venv_def)
  from Resolve_memory_held [OF demo_server_sel(2) this, of plain_options]
  obtain r t where "Resolve (demo_server demo_venv) (URI KindMemory 4) plain_options ?s = Some (Inr r, t)" by blast
  with resolution_is_well_formed [OF this] show ?thesis by blast
qed

section \<open>What was saved is what opens\<close>

lemma walk_chunks_whole:
  assumes "held_transcript ve (vaBodies s) rs = Some ms"
  shows "\<exists>t. walk_chunks ve [] 0 rs True out s = Some (Inr (out @ ms, False, []), t) \<and> reads_only s t"
  using assms
proof (induction rs arbitrary: ms out s)
  case Nil
  then show ?case by (simp add: prun_def sret_def)
next
  case (Cons r rs)
  obtain ms1 ms2 where m: "held_chunk ve (vaBodies s) (crID r) = Some ms1" "held_transcript ve (vaBodies s) rs = Some ms2" "ms = ms1 @ ms2"
    using Cons.prems by (auto split: option.splits)
  obtain c s1 where c: "Vault_chunk ve (crID r) s = Some (Inr c, s1)" "chMessages c = ms1" "reads_only s s1"
    using Vault_chunk_held [OF m(1)] by blast
  have b: "held_transcript ve (vaBodies s1) rs = Some ms2" using c(3) m(2) by (simp add: reads_only_def)
  have w: "walk_messages [] 0 ms1 True out = (True, out @ ms1, None)" by (rule walk_messages_all) simp
  from Cons.IH [OF b, of "out @ ms1"] c w m(3) show ?case by (auto simp: pbind_def intro: reads_only_trans)
qed

lemma transcript_opens:
  assumes "svOpened sv" and head: "stored_head (svVault sv) (vaHeads s) i = Some h"
    and held: "held_transcript (svVault sv) (vaBodies s) (sChunks h) = Some ms"
    and children: "children_held (svVault sv) (vaHeads s) (lnChildren (sLineage h))"
  shows "\<exists>r d t. Resolve sv (TranscriptURI i) plain_options s = Some (Inr r, t) \<and> rlDetail r = TranscriptDetail d
     \<and> trMessages d = ms \<and> \<not> trMore d \<and> rlBody r = mustJSON sv (TranscriptDetail d) \<and> reads_only s t"
proof -
  let ?q = "transcript_request i plain_options"
  have q: "lqID ?q = i" "lqTranscript ?q" "\<not> lqIncludeSubagents ?q" "lqFrom ?q = []" "lqLimit ?q = 0"
    by (simp_all add: transcript_request_def plain_options_def)
  have page: "\<exists>t. transcript (svVault sv) h ?q s1 = Some (Inr (ms, False, []), t) \<and> reads_only s1 t" if "reads_only s s1" for s1
    using walk_chunks_whole [of "svVault sv" s1 "sChunks h" ms "[]"] held that
    by (simp add: transcript_def q startChunk_def reads_only_def)
  obtain l t where l: "LoadSession (svVault sv) ?q s = Some (Inr l, t)" "(ldMessages l, ldMore l, ldNextFrom l) = (ms, False, [])"
    "reads_only s t"
    using LoadSession_transcript [OF _ children q(2,3) page] head q(1) by auto
  have "resolve sv \<lparr>adForm = FormTranscript, adURI = TranscriptURI i, adID = i\<rparr> plain_options s
      = resolveTranscript sv \<lparr>adForm = FormTranscript, adURI = TranscriptURI i, adID = i\<rparr> plain_options s"
    using assms(1) by (simp add: resolve_def Server_ready_def pbind_def prun_def slift_def form_defs)
  then show ?thesis
    using l by (simp add: Resolve_def pbind_def prun_def slift_def resolveTranscript_def or_missing_def sret_def transcriptDetail_def Let_def)
qed

lemma saved_transcript_opens:
  assumes "SaveSession (svVault sv) q s = Some (Inr r, t)" and "svOpened sv"
    and "chunk_codec (svVault sv) (sqMessages q)" and "session_codec (svVault sv)" and "fresh_ids (svVault sv) s (vaDrawn t)"
    and "heads_keyed (svVault sv) (vaHeads s)" and "transcript_before (svVault sv) s (sqID q) old"
    and children: "\<And>h. stored_head (svVault sv) (vaHeads t) (svID r) = Some h \<Longrightarrow>
      children_held (svVault sv) (vaHeads t) (lnChildren (sLineage h))"
  shows "\<exists>a d u. Resolve sv (TranscriptURI (svID r)) plain_options t = Some (Inr a, u) \<and> rlDetail a = TranscriptDetail d
     \<and> trMessages d = old @ sqMessages q \<and> \<not> trMore d \<and> rlBody a = mustJSON sv (TranscriptDetail d) \<and> reads_only t u"
proof -
  obtain h where h: "stored_head (svVault sv) (vaHeads t) (svID r) = Some h"
    "held_transcript (svVault sv) (vaBodies t) (sChunks h) = Some (old @ sqMessages q)"
    using conjunct1 [OF SaveSession_Inr [OF assms(1,3-7)]] by blast
  show ?thesis by (rule transcript_opens [OF assms(2) h children [OF h(1)]])
qed

end
