(* ===== verification/McpTools.thy ===== *)
theory McpTools
  imports McpResolve
begin

text \<open>
  Package \<open>mcp\<close>, the six tools (\<open>handlers.go\<close>) and the text their answers carry (\<open>render.go\<close>): what each asks of the vault,
  what it refuses, and what it answers.
\<close>

section \<open>Content\<close>

datatype content = TextContent string
  | ResourceLink (clURI: string) (clName: string) (clDescription: string) (clMIMEType: string)

record hit_out =
  hoURI :: string
  hoKind :: string
  hoType :: string
  hoTitle :: string
  hoSnippet :: string
  hoTruncated :: bool
  hoTags :: "string list"
  hoCreated :: string
  hoScore :: gofloat
  hoSimilarity :: gofloat
  hoBoost :: gofloat
  hoDetail :: "detail option"

definition linkDescription :: "'n server \<Rightarrow> hit_out \<Rightarrow> string" where
  "linkDescription sv h = (if float_eq (hoSimilarity h) (Fin 0) \<and> float_eq (hoScore h) (Fin 0) then hoSnippet h
     else ''similarity '' @ svFixed sv 3 (hoSimilarity h) @ '' '' @ middle_dot @ '' '' @ hoSnippet h)"

definition mimeFor :: "string \<Rightarrow> string" where
  "mimeFor kind = (if kind = ''memory'' then ''text/markdown'' else ''application/json'')"

definition withLinks :: "'n server \<Rightarrow> string \<Rightarrow> hit_out list \<Rightarrow> content list" where
  "withLinks sv t hits = TextContent t
     # map (\<lambda>h. ResourceLink (hoURI h) (hoTitle h) (linkDescription sv h) (mimeFor (hoKind h))) (filter (\<lambda>h. hoURI h \<noteq> []) hits)"

text \<open>The link of a record that is named and not described.\<close>

definition bare_hit :: "string \<Rightarrow> kind \<Rightarrow> string \<Rightarrow> hit_out" where
  "bare_hit uri k title = \<lparr>hoURI = uri, hoKind = k, hoType = [], hoTitle = title, hoSnippet = [], hoTruncated = False, hoTags = [],
     hoCreated = [], hoScore = Fin 0, hoSimilarity = Fin 0, hoBoost = Fin 0, hoDetail = None\<rparr>"

section \<open>Arguments\<close>

fun parse_each :: "(string \<Rightarrow> bool) \<Rightarrow> string \<Rightarrow> string list \<Rightarrow> string list res" where
  "parse_each ok msg [] = Inr []"
| "parse_each ok msg (v # vs) = (if \<not> ok (trim_space v) then fail [] msg
     else rbind (parse_each ok msg vs) (\<lambda>ks. Inr (trim_space v # ks)))"

definition parseScope :: "string list \<Rightarrow> kind list res" where
  "parseScope vs = parse_each (\<lambda>k. k = KindMemory \<or> k = KindSession) ''not a class of record in this vault'' vs"

definition parseTypes :: "string list \<Rightarrow> string list res" where
  "parseTypes vs = parse_each Type_Valid ''not a memory type'' vs"

definition trim_quotes :: "string \<Rightarrow> string" where
  "trim_quotes s = rev (dropWhile (\<lambda>c. c = CHR 0x22) (rev (dropWhile (\<lambda>c. c = CHR 0x22) s)))"

text \<open>A time argument goes through the reader of stored timestamps, for which \<open>null\<close> is the zero time.\<close>

definition optionalTime :: "'n server \<Rightarrow> string \<Rightarrow> string \<Rightarrow> gotime option res" where
  "optionalTime sv v field =
    (if trim_space v = [] then Inr None
     else let s = trim_quotes v in
       if s = [] \<or> s = ''null'' then Inr (Some zero_time)
       else case svParseTime sv s of Inl e \<Rightarrow> Inl (wrap_err (field @ '': '') e) | Inr t \<Rightarrow> Inr (Some (stamp t)))"

section \<open>recall\<close>

record recall_in =
  riQuery :: string
  riTags :: "string list"
  riTypes :: "string list"
  riScope :: "string list"
  riLimit :: int
  riCursor :: string
  riIncludeSuperseded :: bool
  riDetail :: string

record recall_out =
  raResults :: "hit_out list"
  raNextCursor :: string
  raHint :: string
  raSearched :: nat
  raConsidered :: nat
  raLexicalHits :: nat
  raSupersededHidden :: nat
  raScopeExcluded :: nat

definition MaxLimit :: int where "MaxLimit = 50"

definition recall_limit :: "int \<Rightarrow> int" where
  "recall_limit n = (let l = (if n \<le> 0 then DefaultLimit else n) in if MaxLimit < l then MaxLimit else l)"

definition candidatePool :: "int \<Rightarrow> int" where
  "candidatePool want = (if DefaultCandidates < want then want else DefaultCandidates)"

text \<open>Addition of Go's 64 bit \<open>int\<close>: a place read from a cursor may be any number up to \<open>2 ^ 63 - 1\<close>.\<close>

definition int_add :: "int \<Rightarrow> int \<Rightarrow> int" where
  "int_add a b = (a + b + 2 ^ 63) mod 2 ^ 64 - 2 ^ 63"

definition recall_request :: "recall_in \<Rightarrow> kind list \<Rightarrow> string list \<Rightarrow> int \<Rightarrow> request" where
  "recall_request q scope types depth = \<lparr>rqQuery = riQuery q, rqMax = depth, rqScope = scope,
     rqFilter = \<lparr>flTypes = types, flTags = riTags q\<rparr>, rqWeights = \<lparr>wtTag = Fin 0, wtType = Fin 0\<rparr>,
     rqLexicalWeight = Fin 0, rqWithSuperseded = riIncludeSuperseded q, rqCandidates = candidatePool depth\<rparr>"

definition hit_of :: "'n server \<Rightarrow> bool \<Rightarrow> hit \<Rightarrow> hit_out" where
  "hit_of sv full h =
    (let f = htFound h;
         out = (bare_hit (URI (Found_Kind f) (Found_ID f)) (Found_Kind f) [])
           \<lparr>hoScore := htScore h, hoSimilarity := htSimilarity h, hoBoost := htBoost h\<rparr> in
     case f of
       FoundMemory m \<Rightarrow> (case snippet (mStatement m @ '', '' @ mContext m) of (sn, cutoff) \<Rightarrow>
         out\<lparr>hoType := mType m, hoTags := mTags m, hoTitle := firstLine (mStatement m), hoCreated := tx_of sv (mCreatedAt m),
           hoSnippet := sn, hoTruncated := cutoff,
           hoDetail := (if full then Some (MemoryDetail (memory_detail_of sv (URI KindMemory (mID m)) m)) else None)\<rparr>)
     | FoundSession x \<Rightarrow> (case snippet (sSummary x) of (sn, cutoff) \<Rightarrow>
         out\<lparr>hoTags := sTags x, hoTitle := sTitle x, hoCreated := tx_of sv (sCreated x), hoSnippet := sn, hoTruncated := cutoff,
           hoDetail := (if full then Some (SessionDetail (sessionDetail sv x [])) else None)\<rparr>)
     | FoundNothing \<Rightarrow> out)"

definition recallHint :: "recall_in \<Rightarrow> recall_out \<Rightarrow> string" where
  "recallHint q a =
    (if raResults a \<noteq> [] \<and> 0 < raScopeExcluded a
     then ''The scope '' @ join_with '' and '' (riScope q) @ '' removed '' @ Itoa (int (raScopeExcluded a))
       @ '' candidate(s). Scope excludes; drop it to search every class of record.''
     else if raResults a \<noteq> [] then []
     else if 0 < raScopeExcluded a
     then ''Nothing in scope '' @ join_with '' and '' (riScope q) @ '' matched, though '' @ Itoa (int (raScopeExcluded a))
       @ '' candidate(s) outside it did. Scope excludes, drop it and search every class of record.''
     else if raSearched a = 0
     then ''This vault holds nothing searchable yet. Use `remember` to store the first record.''
     else if 0 < raSupersededHidden a
     then ''Nothing current matched, though '' @ Itoa (int (raSupersededHidden a))
       @ '' replaced version(s) did. Set includeSuperseded to see what this used to be.''
     else ''The vault does not hold this. Your tags did not cause it, filters only ever prefer, ''
       @ ''and cannot remove a record. Try broader words, or `browse` to see what is stored. ''
       @ ''Telling the user it is not there is a better answer than the nearest record.'')"

fun render_hits :: "'n server \<Rightarrow> nat \<Rightarrow> hit_out list \<Rightarrow> string" where
  "render_hits sv n [] = []"
| "render_hits sv n (h # hs) =
     Itoa (int n + 1) @ ''. ['' @ hoKind h @ ''] '' @ hoTitle h @ newline
     @ (if hoSnippet h \<noteq> [] \<and> hoSnippet h \<noteq> hoTitle h then ''   '' @ hoSnippet h @ newline else [])
     @ ''   similarity '' @ svFixed sv 3 (hoSimilarity h)
     @ (if float_lt (Fin 0) (hoBoost h) then '' '' @ middle_dot @ '' your filter moved it by '' @ svFixed sv 4 (hoBoost h) else [])
     @ (if hoTags h \<noteq> [] then '' '' @ middle_dot @ '' '' @ join_with '', '' (hoTags h) else [])
     @ newline @ ''   '' @ hoURI h @ newline @ render_hits sv (n + 1) hs"

definition recall_notes :: "recall_out \<Rightarrow> string list" where
  "recall_notes a =
    (if raLexicalHits a = 0 then [''no record shares a word with the query; this ranking is by meaning alone''] else [])
    @ (if 0 < raSupersededHidden a then [Itoa (int (raSupersededHidden a)) @ '' replaced version(s) held back''] else [])
    @ (if 0 < raScopeExcluded a then [Itoa (int (raScopeExcluded a)) @ '' candidate(s) removed by the scope''] else [])
    @ (if raNextCursor a \<noteq> [] then [''more results are available; pass nextCursor back''] else [])"

definition renderRecall :: "'n server \<Rightarrow> recall_in \<Rightarrow> recall_out \<Rightarrow> string" where
  "renderRecall sv q a =
    (if raResults a = [] then ''No records match '' @ svQuote sv (riQuery q) @ ''.'' @ newline @ newline @ raHint a @ newline
     else Itoa (int (length (raResults a))) @ '' record(s) for '' @ svQuote sv (riQuery q) @ '', searched over ''
       @ Itoa (int (raSearched a)) @ '':'' @ newline @ newline @ render_hits sv 0 (raResults a)
       @ (if recall_notes a \<noteq> [] then newline @ ''('' @ join_with ''; '' (recall_notes a) @ '')'' @ newline else [])
       @ (if raHint a \<noteq> [] then newline @ raHint a @ newline else [])
       @ newline @ ''These are snippets. Call `open` on an address for the whole record.'' @ newline)"

definition recall_answer :: "'n server \<Rightarrow> recall_in \<Rightarrow> int \<Rightarrow> recalled \<Rightarrow> recall_out" where
  "recall_answer sv q offset r =
    (let limit = recall_limit (riLimit q); depth = int_add offset limit;
         hits = (if offset < int (length (reHits r)) then drop (nat offset) (reHits r) else []);
         results = map (hit_of sv (riDetail q = ''full'')) hits;
         a = \<lparr>raResults = results,
           raNextCursor = (if int (length results) = limit \<and> int (length (reHits r)) = depth
             then encodeRankCursor (svSHA sv) depth (riQuery q) else []),
           raHint = [], raSearched = reSearched r, raConsidered = reConsidered r, raLexicalHits = reLexicalHits r,
           raSupersededHidden = reSupersededHidden r, raScopeExcluded = reScopeExcluded r\<rparr> in
     a\<lparr>raHint := recallHint q a\<rparr>)"

text \<open>What a call is refused for, before the vault is asked.\<close>

definition recall_arguments :: "'n server \<Rightarrow> recall_in \<Rightarrow> (kind list \<times> string list \<times> int) res" where
  "recall_arguments sv q =
    rbind (Server_ready sv) (\<lambda>_.
    if trim_space (riQuery q) = [] then fail [] ''recall needs a query''
    else rbind (parseScope (riScope q)) (\<lambda>scope.
      rbind (parseTypes (riTypes q)) (\<lambda>types.
      rbind (decodeRankCursor (svSHA sv) (riCursor q) (riQuery q)) (\<lambda>offset. Inr (scope, types, offset)))))"

definition recall_tool :: "'n server \<Rightarrow> recall_in \<Rightarrow> ('n vault, content list \<times> recall_out) run" where
  "recall_tool sv q = pbind (prun (slift (recall_arguments sv q))) (\<lambda>(scope, types, offset).
     pbind (Vault_Recall (svVault sv) (svFTS sv) (recall_request q scope types (int_add offset (recall_limit (riLimit q))))) (\<lambda>r.
       let a = recall_answer sv q offset r in
       prun (sret (withLinks sv (renderRecall sv q a) (raResults a), a))))"

section \<open>remember\<close>

record remember_in =
  miStatement :: string
  miContext :: string
  miType :: string
  miTags :: "string list"
  miSupersedes :: string
  miLinks :: "string list"
  miImportance :: gofloat
  miConfidence :: gofloat
  miValidFrom :: string
  miValidUntil :: string
  miSession :: string
  miSpan :: string
  miKeywords :: "string list"

record neighbour_out =
  noURI :: string
  noStatement :: string
  noType :: string
  noTags :: "string list"
  noSimilarity :: gofloat
  noConflict :: bool

record remember_out =
  moURI :: string
  moID :: string
  moStored :: string
  moOnNetwork :: bool
  moDurability :: string
  moNeighbours :: "neighbour_out list"
  moConflicts :: "neighbour_out list"
  moTags :: "tag_specificity list"
  moAdvice :: string
  moLinkedSession :: string

text \<open>A neighbour is always given the address of a memory.\<close>

definition neighbourOut :: "neighbour \<Rightarrow> neighbour_out" where
  "neighbourOut n = \<lparr>noURI = URI KindMemory (nbID n), noStatement = nbStatement n, noType = nbType n, noTags = nbTags n,
     noSimilarity = nbSimilarity n, noConflict = nbConflict n\<rparr>"

definition written_through :: string where
  "written_through = ''Stored on this device and written to the network.''"

definition durability :: "bool \<Rightarrow> string" where
  "durability onNetwork = (if onNetwork then written_through
     else ''Stored on this device. It reaches the network on the vault's ordinary schedule, within the hour. ''
       @ ''Do not tell the user it is on the network yet.'')"

definition writeAdvice :: "remember_result \<Rightarrow> string" where
  "writeAdvice r = join_with '' ''
    ((if rsConflicts r \<noteq> [] then [Itoa (int (length (rsConflicts r))) @ '' existing record(s) are close enough to be this ''
        @ ''statement again. Read them: leave both if they are genuinely different, or write this ''
        @ ''again with `supersedes` set if it replaces one.''] else [])
     @ (if NeedsNarrowerTags (rsTags r) then [''None of these tags narrows a search of this vault, each sits on ''
        @ ''too much of it. Use more specific ones on the next write; this record cannot be retagged.''] else []))"

definition Server_Name :: string where "Server_Name = ''mnemosia''"

definition no_source :: source where
  "no_source = \<lparr>srcOrigin = [], srcSessionID = [], srcSpan = [], srcClient = []\<rparr>"

definition optional_address :: "string \<Rightarrow> string \<Rightarrow> string \<Rightarrow> recid option res" where
  "optional_address uri want field = (if uri = [] then Inr None
     else case addressOf uri want of Inl e \<Rightarrow> Inl (wrap_err (field @ '': '') e) | Inr i \<Rightarrow> Inr (Some i))"

definition remember_arguments :: "'n server \<Rightarrow> remember_in \<Rightarrow> remember_request res" where
  "remember_arguments sv q =
    rbind (Server_ready sv) (\<lambda>_.
    if \<not> Type_Valid (trim_space (miType q)) then fail [] ''type is not one this vault stores''
    else rbind (optional_address (miSupersedes q) FormMemory ''supersedes'') (\<lambda>old.
      rbind (optional_address (miSession q) FormSession ''session'') (\<lambda>session.
      rbind (optionalTime sv (miValidFrom q) ''validFrom'') (\<lambda>since.
      rbind (optionalTime sv (miValidUntil q) ''validUntil'') (\<lambda>until. Inr
        \<lparr>rbStatement = miStatement q, rbContext = miContext q, rbType = trim_space (miType q), rbTags = miTags q,
         rbSource = (case session of None \<Rightarrow> no_source | Some i \<Rightarrow> no_source
           \<lparr>srcSessionID := ID_String i, srcSpan := miSpan q, srcClient := Server_Name\<rparr>),
         rbSupersedes = old, rbImportance = miImportance q, rbConfidence = miConfidence q, rbLinks = miLinks q,
         rbValidFrom = since, rbValidUntil = until, rbEntities = [], rbKeywords = miKeywords q\<rparr>)))))"

text \<open>The address of a replaced record and of the conversation must be one; \<open>links\<close>, which the tool calls addresses as well, are not looked
  at: any texts are accepted, stored, and handed back.\<close>

lemma links_are_not_read:
  "remember_arguments sv (q\<lparr>miLinks := ls\<rparr>) = map_sum id (\<lambda>r. r\<lparr>rbLinks := ls\<rparr>) (remember_arguments sv q)"
  "mdLinks (memoryDetail sv uri m tier) = mLinks m" "\<not> opens ''the other note''"
proof -
  show "remember_arguments sv (q\<lparr>miLinks := ls\<rparr>) = map_sum id (\<lambda>r. r\<lparr>rbLinks := ls\<rparr>) (remember_arguments sv q)"
    by (simp add: remember_arguments_def rbind_def cong: option.case_cong split: sum.split)
  show "mdLinks (memoryDetail sv uri m tier) = mLinks m" by (simp add: memoryDetail_def memory_detail_of_def)
  show "\<not> opens ''the other note''" by (simp add: opens_def Parse_def cut_prefix_def Scheme_def)
qed

definition render_near :: "'n server \<Rightarrow> neighbour_out \<Rightarrow> string" where
  "render_near sv n = ''  '' @ svFixed sv 3 (noSimilarity n) @ ''  '' @ noStatement n @ newline"

text \<open>\<open>%-24s\<close> pads by the number of runes.\<close>

definition padded :: "'n server \<Rightarrow> string \<Rightarrow> string" where
  "padded sv t = t @ replicate (24 - length (tlDecode (vnText (svVault sv)) t)) (CHR '' '')"

definition render_tag :: "'n server \<Rightarrow> tag_specificity \<Rightarrow> string" where
  "render_tag sv t = ''  '' @ padded sv (tgTag t) @
    (if tgNew t then '' new to this vault''
     else '' '' @ Itoa (int (tgRecords t)) @ '' record(s), '' @ svFixed sv 0 (Fin (round_f64 (100 * tgShare t))) @ ''%''
       @ (if tgTooCommon t then '' of the vault, too common to narrow anything'' else [])) @ newline"

definition warning_sign :: string where "warning_sign = [CHR 0xE2, CHR 0x9A, CHR 0xA0]"

definition renderRemember :: "'n server \<Rightarrow> remember_out \<Rightarrow> string" where
  "renderRemember sv a =
    ''Stored as '' @ moURI a @ newline @ moDurability a @ newline
    @ (if moConflicts a \<noteq> [] then newline @ warning_sign @ '' '' @ Itoa (int (length (moConflicts a)))
         @ '' existing record(s) may be this statement again:'' @ newline
         @ concat (map (\<lambda>n. render_near sv n @ ''        '' @ noURI n @ newline) (moConflicts a))
         @ ''  Decide: leave both if they are genuinely different, or write again with `supersedes` set if this replaces one.'' @ newline
       else if moNeighbours a \<noteq> [] then newline @ ''Nearest existing records:'' @ newline
         @ concat (map (render_near sv) (moNeighbours a)) else [])
    @ (if moTags a \<noteq> [] then newline @ ''Tags in this vault:'' @ newline @ concat (map (render_tag sv) (moTags a)) else [])
    @ (if moAdvice a \<noteq> [] then newline @ moAdvice a @ newline else [])"

definition remember_answer :: "'n server \<Rightarrow> remember_result \<Rightarrow> remember_out" where
  "remember_answer sv r = \<lparr>moURI = URI KindMemory (rsID r), moID = ID_String (rsID r), moStored = tx_of sv (rsStored r),
     moOnNetwork = rsOnNetwork r, moDurability = durability (rsOnNetwork r), moNeighbours = map neighbourOut (rsNeighbours r),
     moConflicts = map neighbourOut (rsConflicts r), moTags = taTags (rsTags r), moAdvice = writeAdvice r,
     moLinkedSession = (case rsLinkedSession r of None \<Rightarrow> [] | Some i \<Rightarrow> URI KindSession i)\<rparr>"

definition remember_tool :: "'n server \<Rightarrow> remember_in \<Rightarrow> ('n vault, content list \<times> remember_out) run" where
  "remember_tool sv q = pbind (prun (slift (remember_arguments sv q))) (\<lambda>req.
     pbind (prun (Remember (svVault sv) req)) (\<lambda>r.
       let a = remember_answer sv r in
       prun (sret (withLinks sv (renderRemember sv a) [bare_hit (moURI a) KindMemory (firstLine (miStatement q))], a))))"

section \<open>browse\<close>

record browse_in =
  biKinds :: "string list"
  biTypes :: "string list"
  biTags :: "string list"
  biIncludeSuperseded :: bool
  biLimit :: int
  biCursor :: string

record row_out =
  roURI :: string
  roKind :: string
  roType :: string
  roLabel :: string
  roTags :: "string list"
  roCreated :: string
  roSuperseded :: bool

record browse_out =
  boRows :: "row_out list"
  boNextCursor :: string
  boHint :: string

definition row_of_browse :: "'n server \<Rightarrow> browse_row \<Rightarrow> row_out" where
  "row_of_browse sv r = \<lparr>roURI = URI (brKind r) (brID r), roKind = brKind r, roType = brType r, roLabel = brLabel r,
     roTags = brTags r, roCreated = tx_of sv (brCreated r), roSuperseded = brSuperseded r\<rparr>"

definition browse_indent :: string where "browse_indent = replicate 26 (CHR '' '')"

definition render_row :: "row_out \<Rightarrow> string" where
  "render_row r = ''  '' @ roCreated r @ ''  ['' @ roKind r @ (if roType r \<noteq> [] then ''/'' @ roType r else []) @ ''] ''
     @ orElse (roLabel r) ''(body not held on this device)'' @ newline
     @ (if roTags r \<noteq> [] then browse_indent @ join_with '', '' (roTags r) @ newline else [])
     @ browse_indent @ roURI r @ newline"

definition renderBrowse :: "browse_out \<Rightarrow> string" where
  "renderBrowse a =
    (if boRows a = [] then ''Nothing matches.'' @ newline @ newline @ boHint a @ newline
     else Itoa (int (length (boRows a))) @ '' record(s), newest first:'' @ newline @ newline @ concat (map render_row (boRows a))
       @ (if boNextCursor a \<noteq> [] then newline @ ''More remain; pass nextCursor back verbatim.'' @ newline else []))"

definition browse_tool :: "'n server \<Rightarrow> browse_in \<Rightarrow> 'n vault \<Rightarrow> (content list \<times> browse_out) res" where
  "browse_tool sv q s =
    rbind (Server_ready sv) (\<lambda>_.
    rbind (parseScope (biKinds q)) (\<lambda>kinds.
    rbind (parseTypes (biTypes q)) (\<lambda>types.
    rbind (Browse (svVault sv) s \<lparr>rqKinds = kinds, rqTypes = types, rqTags = biTags q, rqIncludeSuperseded = biIncludeSuperseded q,
        rqLimit = biLimit q, rqCursor = biCursor q\<rparr>) (\<lambda>(rows, next_page).
      let a = \<lparr>boRows = map (row_of_browse sv) rows, boNextCursor = next_page,
             boHint = (if rows = [] then ''Nothing matches. Every filter here EXCLUDES, so this is not evidence the vault ''
               @ ''holds nothing related, drop a tag, or use `recall` with the same words, where filters ''
               @ ''only prefer and cannot empty a result.'' else [])\<rparr> in
      Inr (withLinks sv (renderBrowse a) (map (\<lambda>r. bare_hit (URI (brKind r) (brID r)) (brKind r) (brLabel r)) rows), a)))))"

section \<open>open\<close>

record open_in =
  oiURI :: string
  oiFrom :: string
  oiLimit :: int
  oiIncludeSubagents :: bool

record open_out =
  ooURI :: string
  ooKind :: string
  ooTitle :: string
  ooMIMEType :: string
  ooContent :: string
  ooDetail :: detail
  ooLinks :: "link list"

definition suffix_err :: "goerr \<Rightarrow> string \<Rightarrow> goerr" where
  "suffix_err e m = GoErr (wraps e) (why e @ m)"

definition open_tool :: "'n server \<Rightarrow> open_in \<Rightarrow> ('n vault, content list \<times> open_out) run" where
  "open_tool sv q s =
    (case Resolve sv (oiURI q) \<lparr>roFrom = oiFrom q, roLimit = oiLimit q, roIncludeSubagents = oiIncludeSubagents q\<rparr> s of
       None \<Rightarrow> None
     | Some (Inl e, t) \<Rightarrow> Some (Inl (if errors_Is e ErrNoRecord then suffix_err e (''. Use `recall` or `browse` to find an address that ''
           @ ''exists; addresses are never assembled by hand'') else e), t)
     | Some (Inr r, t) \<Rightarrow> Some (Inr (TextContent (rlBody r)
           # map (\<lambda>l. ResourceLink (lkURI l) (lkName l) (lkDescription l) (lkMIMEType l)) (rlLinks r),
         \<lparr>ooURI = adURI (rlAddress r), ooKind = adForm (rlAddress r), ooTitle = rlTitle r, ooMIMEType = rlMIMEType r,
          ooContent = rlBody r, ooDetail = rlDetail r, ooLinks = rlLinks r\<rparr>), t))"

section \<open>save\_session\<close>

record session_in =
  siSession :: string
  siTitle :: string
  siSummary :: string
  siTags :: "string list"
  siMessages :: "message list"
  siProject :: project
  siAgent :: agent
  siModels :: "string list"
  siPreservedTail :: "string list"
  siDurable :: bool
  siArchived :: bool

record session_out =
  soURI :: string
  soTranscript :: string
  soVersion :: int
  soMessages :: int
  soBytes :: int
  soChunks :: nat
  soOnNetwork :: bool
  soDurability :: string
  soResume :: string

definition session_arguments :: "'n server \<Rightarrow> session_in \<Rightarrow> save_request res" where
  "session_arguments sv q =
    rbind (Server_ready sv) (\<lambda>_.
    rbind (optional_address (siSession q) FormSession ''session'') (\<lambda>session. Inr
      \<lparr>sqID = (case session of None \<Rightarrow> 0 | Some i \<Rightarrow> i), sqTitle = siTitle q, sqSummary = siSummary q, sqTags = siTags q,
       sqProject = siProject q, sqAgent = siAgent q, sqModels = siModels q, sqKind = [], sqAgentRef = None,
       sqLineage = \<lparr>lnParentSession = None, lnForkedFrom = None, lnResumedFrom = None, lnChildren = []\<rparr>,
       sqMessages = siMessages q, sqPreservedTail = siPreservedTail q, sqTokensIn = 0, sqTokensOut = 0, sqDurationMS = 0,
       sqArchived = siArchived q, sqUnarchive = False, sqDurable = siDurable q\<rparr>))"

definition sessionDurability :: "bool \<Rightarrow> string" where
  "sessionDurability onNetwork = (if onNetwork then written_through
     else ''Stored on this device. It reaches the network on the vault's ordinary schedule, within ''
       @ ''the hour. Until then these turns exist here and nowhere else, say so rather than saying ''
       @ ''the conversation is backed up.'')"

definition session_answer :: "save_result \<Rightarrow> session_out" where
  "session_answer r = \<lparr>soURI = URI KindSession (svID r), soTranscript = TranscriptURI (svID r), soVersion = svVersion r,
     soMessages = svMessages r, soBytes = svBytes r, soChunks = length (svChunks r), soOnNetwork = svOnNetwork r,
     soDurability = sessionDurability (svOnNetwork r),
     soResume = ''The user can bring this conversation back in any agent with the /resume prompt.''\<rparr>"

definition renderSaveSession :: "session_out \<Rightarrow> string" where
  "renderSaveSession a = ''Conversation stored as '' @ soURI a @ '' (version '' @ Itoa (soVersion a) @ '')'' @ newline
     @ Itoa (soMessages a) @ '' turn(s), '' @ Itoa (soBytes a) @ '' byte(s), in '' @ Itoa (int (soChunks a)) @ '' immutable piece(s).'' @ newline
     @ soDurability a @ newline @ ''Transcript: '' @ soTranscript a @ newline @ soResume a @ newline"

definition saveSession_tool :: "'n server \<Rightarrow> session_in \<Rightarrow> ('n vault, content list \<times> session_out) run" where
  "saveSession_tool sv q = pbind (prun (slift (session_arguments sv q))) (\<lambda>req.
     pbind (\<lambda>s. case SaveSession (svVault sv) req s of
         Some (Inl e, t) \<Rightarrow> Some (Inl (if errors_Is e ErrStaleHead then suffix_err e (''. Another client appended to this ''
           @ ''conversation while you were writing. Open it again and re-send only the turns it does not already hold'') else e), t)
       | x \<Rightarrow> x) (\<lambda>r.
       let a = session_answer r in
       prun (sret (withLinks sv (renderSaveSession a) [bare_hit (soURI a) KindSession (siTitle q)], a))))"

section \<open>forget\<close>

record forget_out =
  foURI :: string
  foRemoved :: bool
  foNote :: string

definition memory_gone :: string where
  "memory_gone = ''The memory is gone from this vault. Storage comes back later, when nothing ''
     @ ''written alongside it is still needed, do not report freed space.''"

definition conversation_gone :: string where
  "conversation_gone = ''The conversation and its transcript are gone from this vault. Memories drawn ''
     @ ''from it are untouched and are still stored.''"

definition forget_arguments :: "'n server \<Rightarrow> string \<Rightarrow> bool \<Rightarrow> address res" where
  "forget_arguments sv uri confirm =
    rbind (Server_ready sv) (\<lambda>_. if \<not> confirm then fail [] ''forget needs confirm: true'' else Parse uri)"

definition forget_tool :: "'n server \<Rightarrow> string \<Rightarrow> bool \<Rightarrow> ('n vault, content list \<times> forget_out) step" where
  "forget_tool sv uri confirm =
    sbind (slift (forget_arguments sv uri confirm)) (\<lambda>a.
      let removed = (\<lambda>note. sret ([TextContent note], \<lparr>foURI = adURI a, foRemoved = True, foNote = note\<rparr>)) in
      if adForm a = FormMemory then sbind (Vault_Forget (svVault sv) (adID a)) (\<lambda>_. removed memory_gone)
      else if adForm a = FormSession \<or> adForm a = FormTranscript then (\<lambda>s. case ForgetSession (svVault sv) (adID a) s of
          (Inl e, t) \<Rightarrow> if errors_Is e ErrNoSession
            then (Inr ([], \<lparr>foURI = adURI a, foRemoved = False, foNote = ''There was nothing at that address; nothing was removed.''\<rparr>), t)
            else (Inl e, t)
        | (Inr _, t) \<Rightarrow> removed conversation_gone t)
      else sfail (GoErr [] (adURI a @ '' is part of this server, not a record; there is nothing there to forget'')))"

end
