(* ===== verification/McpAnswers.thy ===== *)
theory McpAnswers
  imports McpTools
begin

text \<open>
  What the answers of the tools promise: that a record read as a tool and as a resource is the same, that the pages of a ranking are
  consecutive pieces of it, that what was written opens as it was written, and that what was forgotten is absent.
\<close>

section \<open>Reading by either surface\<close>

definition open_plainly :: "string \<Rightarrow> open_in" where
  "open_plainly uri = \<lparr>oiURI = uri, oiFrom = [], oiLimit = 0, oiIncludeSubagents = False\<rparr>"

text \<open>One record, two ways to read it.  \<open>resources/read\<close> of an address answers exactly what the tool \<open>open\<close> answers for it without
  further arguments: the same address, type and bytes, the same state left behind, and a failure of one is the failure of the other,
  an absence becoming the protocol's own error.
\<close>

lemma open_is_read:
  "readResource sv uri s = (case open_tool sv (open_plainly uri) s of
       None \<Rightarrow> None
     | Some (Inl e, t) \<Rightarrow> Some (Inl (if errors_Is e ErrNoRecord then GoErr [ErrNoRecord] (''Resource not found: '' @ uri) else e), t)
     | Some (Inr (content, out), t) \<Rightarrow>
         Some (Inr \<lparr>rsURI = ooURI out, rsMIMEType = ooMIMEType out, rsText = ooContent out\<rparr>, t))"
proof -
  have o: "\<lparr>roFrom = oiFrom q, roLimit = oiLimit q, roIncludeSubagents = oiIncludeSubagents q\<rparr> = plain_options"
    "oiURI q = uri" if "q = open_plainly uri" for q
    using that by (simp_all add: open_plainly_def plain_options_def)
  show ?thesis
    unfolding readResource_def open_tool_def o [OF refl]
    by (auto simp: pbind_def prun_def sret_def suffix_err_def errors_Is_def split: option.split prod.split sum.split)
qed

section \<open>Pages of a ranking\<close>

definition ranking_of :: "'n venv \<Rightarrow> ((recid \<times> string) list \<Rightarrow> string \<Rightarrow> recid list) \<Rightarrow> request \<Rightarrow> 'n vault \<Rightarrow> candidate list res" where
  "ranking_of ve fts q s = (let pl = vault_pipeline ve fts s in
     rbind (vnEmbed ve (rqQuery q)) (\<lambda>vector.
     rbind (Index_Search (vaIndex s) vector DefaultCandidates) (\<lambda>matches.
     rbind (searchLexical pl (rqQuery q) DefaultCandidates (lexicalWeight q)) (\<lambda>lexical.
     let fused = fuse matches lexical (lexicalWeight q) in
     rbind (recall_describe pl fused) (\<lambda>known. Inr (ranked_pool (vnText ve) known q fused))))))"

definition ranks_alike :: "'n vault \<Rightarrow> 'n vault \<Rightarrow> bool" where
  "ranks_alike s t \<longleftrightarrow> vaIndex t = vaIndex s \<and> vaRanking t = vaRanking s"

lemma ranks_alike_trans: "ranks_alike s t \<Longrightarrow> ranks_alike t u \<Longrightarrow> ranks_alike s u"
  by (simp add: ranks_alike_def)

lemma ranking_alike: "ranks_alike s t \<Longrightarrow> ranking_of ve fts q t = ranking_of ve fts q s"
  by (simp add: ranks_alike_def ranking_of_def vault_pipeline_def Let_def searchLexical_def recall_describe_def Vault_Describe_def)

lemma fetchBody_ranks:
  assumes "fetchBody ve i s = Some (r, t)"
  shows "ranks_alike s t"
proof -
  have c: "fetchCached ve en ref w = Some (x, w') \<Longrightarrow> ranks_alike w w'" for en ref w x w'
    by (auto simp: fetchCached_def forgetLocation_def ranks_alike_def split: sum.splits option.splits if_splits)
  have f: "fetchRemote ve en ref w = Some (x, w') \<Longrightarrow> ranks_alike w w'" for en ref w x w'
    unfolding fetchRemote_def
    by (auto simp: pbind_def prun_def step_defs LocationFor_def cacheLocation_def countMiss_def ranks_alike_def dest!: on_network_sel
        dest: c [unfolded ranks_alike_def] split: sum.splits option.splits prod.splits)
  show ?thesis
    using assms
    by (auto simp: fetchBody_def pbind_def prun_def step_defs put_body_def countRead_def countMiss_def Let_def ranks_alike_def
        dest: f [unfolded ranks_alike_def] split: sum.splits option.splits prod.splits if_splits)
qed

lemma Fetch_ranks:
  assumes "Fetch ve i s = Some (r, t)"
  shows "ranks_alike s t"
proof -
  obtain h s1 where h: "vault_session ve i s = (h, s1)" by fastforce
  then have a: "ranks_alike s s1" by (auto simp: vault_session_def ranks_alike_def split: sum.splits)
  show ?thesis
    using assms a h
    by (auto simp: Fetch_def pbind_def prun_def step_defs dest!: fetchBody_ranks intro: ranks_alike_trans
        split: sum.splits option.splits prod.splits if_splits)
qed

lemma fetch_hits_ranks:
  "plFetch pl = Fetch ve \<Longrightarrow> fetch_hits pl cs s = Some (r, t) \<Longrightarrow> ranks_alike s t"
proof (induction cs arbitrary: s r)
  case Nil
  then show ?case by (simp add: prun_def sret_def ranks_alike_def)
next
  case (Cons c cs)
  obtain x s1 where x: "Fetch ve (cdID c) s = Some (x, s1)" using Cons.prems by (auto split: option.splits)
  have a: "ranks_alike s s1" by (rule Fetch_ranks [OF x])
  show ?case
  proof (cases x)
    case (Inl e)
    then show ?thesis using Cons.prems x a by simp
  next
    case (Inr f)
    then obtain y where "fetch_hits pl cs s1 = Some (y, t)"
      using Cons.prems x by (cases f) (auto simp: pbind_def prun_def sret_def split: option.splits sum.splits)
    from Cons.IH [OF Cons.prems(1) this] a show ?thesis by (rule ranks_alike_trans [rotated])
  qed
qed

lemma recall_request_sel:
  "rqQuery (recall_request q scope types n) = riQuery q" "rqScope (recall_request q scope types n) = scope"
  "rqWithSuperseded (recall_request q scope types n) = riIncludeSuperseded q" "lexicalWeight (recall_request q scope types n) = DefaultLexicalWeight"
  "0 < n \<Longrightarrow> run_limit (recall_request q scope types n) = n"
  "0 < n \<Longrightarrow> n \<le> DefaultCandidates \<Longrightarrow> run_pool (recall_request q scope types n) = DefaultCandidates"
  by (simp_all add: recall_request_def lexicalWeight_def float_eq_def run_pool_def run_limit_def candidatePool_def DefaultCandidates_def)

lemma vault_pipeline_sel [simp]:
  "plEmbed (vault_pipeline ve fts s) = vnEmbed ve" "plIndex (vault_pipeline ve fts s) = vaIndex s"
  "plFetch (vault_pipeline ve fts s) = Fetch ve"
  by (simp_all add: vault_pipeline_def)

lemma ranked_pool_depth:
  "ranked_pool tx known (recall_request q scope types n) = ranked_pool tx known (recall_request q scope types m)"
proof -
  have "boosted tx known (recall_request q scope types n) = boosted tx known (recall_request q scope types m)"
    by (rule ext) (simp add: boosted_def recall_request_def split: option.split)
  then have "ranked_pool tx known (recall_request q scope types n) fused = ranked_pool tx known (recall_request q scope types m) fused" for fused
    by (simp add: ranked_pool_def current_def in_scope_def recall_request_sel)
  then show ?thesis ..
qed

definition recall_ranking :: "'n server \<Rightarrow> recall_in \<Rightarrow> 'n vault \<Rightarrow> candidate list res" where
  "recall_ranking sv q s = rbind (parseScope (riScope q)) (\<lambda>scope. rbind (parseTypes (riTypes q)) (\<lambda>types.
     ranking_of (svVault sv) (svFTS sv) (recall_request q scope types 1) s))"

lemma recall_ranking_cursor: "recall_ranking sv (q\<lparr>riCursor := c\<rparr>) s = recall_ranking sv q s"
  by (simp add: recall_ranking_def recall_request_def)

lemma recall_limit_pos: "0 < recall_limit n" "recall_limit n \<le> 50"
  by (auto simp: recall_limit_def MaxLimit_def DefaultLimit_def Let_def)

lemma Vault_Recall_page:
  assumes "Vault_Recall ve fts (recall_request q scope types n) s = Some (Inr r, t)" and "0 < n" "n \<le> DefaultCandidates"
  shows "\<exists>ranking. ranking_of ve fts (recall_request q scope types 1) s = Inr ranking \<and> ranks_alike s t
    \<and> list_all2 (\<lambda>c h. fetched (vault_pipeline ve fts s) (cdID c) h \<and> htScore h = cdScore c) (take (nat n) ranking) (reHits r)"
proof -
  let ?q = "recall_request q scope types n" and ?pl = "vault_pipeline ve fts s"
  obtain vector matches lexical known ranked counts where raw: "plEmbed ?pl (rqQuery ?q) = Inr vector"
      "Index_Search (plIndex ?pl) vector (run_pool ?q) = Inr matches"
      "searchLexical ?pl (rqQuery ?q) (run_pool ?q) (lexicalWeight ?q) = Inr lexical"
      "recall_describe ?pl (fuse matches lexical (lexicalWeight ?q)) = Inr known"
      "rank (vnText ve) (fuse matches lexical (lexicalWeight ?q)) known ?q (nat (run_limit ?q)) = (ranked, counts)"
    and hits: "fetch_hits ?pl ranked s = Some (Inr (reHits r), t)"
    by (rule Pipeline_Run_stages [OF assms(1) [unfolded Vault_Recall_def]])
  note st = raw(1-4) [simplified, simplified recall_request_sel assms(2,3)]
  have rk: "rank (vnText ve) (fuse matches lexical DefaultLexicalWeight) known ?q (nat n) = (ranked, counts)"
    using raw(5) by (simp add: recall_request_sel assms(2,3))
  let ?ranking = "ranked_pool (vnText ve) known (recall_request q scope types 1) (fuse matches lexical DefaultLexicalWeight)"
  have "ranked = take (nat n) ?ranking" using rk by (simp add: rank_pool ranked_pool_depth [of _ _ q scope types n 1])
  moreover have "ranking_of ve fts (recall_request q scope types 1) s = Inr ?ranking"
    by (simp add: ranking_of_def Let_def recall_request_sel st)
  moreover have "ranks_alike s t" by (rule fetch_hits_ranks [OF _ hits]) simp
  ultimately show ?thesis using fetch_hits_all [OF hits] by blast
qed

lemma decode_place: "decodeRankCursor sha c q = Inr m \<Longrightarrow> 0 \<le> m"
  by (auto simp: decodeRankCursor_def split: option.splits prod.splits if_splits)

text \<open>C36. The pages of a recall are consecutive pieces of one ranking.  Within the first hundred candidates, the page at a cursor is the
  records of the ranking from its place on, each fetched by its own identity and given its own score; a further cursor is returned
  exactly when the page was full, it leads to the place the page ended, and as the reads change nothing the ranking is made of, it
  continues the very same ranking.
\<close>

theorem recall_pages:
  assumes "recall_tool sv q s = Some (Inr (content, a), t)"
    and "decodeRankCursor (svSHA sv) (riCursor q) (riQuery q) = Inr offset"
    and "offset + recall_limit (riLimit q) \<le> DefaultCandidates"
  shows "\<exists>ranking. recall_ranking sv q s = Inr ranking
    \<and> list_all2 (\<lambda>c out. \<exists>h. fetched (vault_pipeline (svVault sv) (svFTS sv) s) (cdID c) h \<and> htScore h = cdScore c
          \<and> out = hit_of sv (riDetail q = ''full'') h)
        (take (nat (recall_limit (riLimit q))) (drop (nat offset) ranking)) (raResults a)
    \<and> (raNextCursor a \<noteq> [] \<longleftrightarrow> offset + recall_limit (riLimit q) \<le> int (length ranking))
    \<and> (raNextCursor a \<noteq> [] \<longrightarrow> decodeRankCursor (svSHA sv) (raNextCursor a) (riQuery q) = Inr (offset + recall_limit (riLimit q)))
    \<and> (\<forall>c. recall_ranking sv (q\<lparr>riCursor := c\<rparr>) t = Inr ranking)"
proof -
  define l where "l = recall_limit (riLimit q)"
  have l: "0 < l" "l \<le> 50" by (simp_all add: l_def recall_limit_pos)
  have o0: "0 \<le> offset" using decode_place [OF assms(2)] .
  have n: "int_add offset l = offset + l" "0 < offset + l" "offset + l \<le> DefaultCandidates" "offset + l < 2 ^ 63"
    using o0 l assms(3) by (simp_all add: int_add_def l_def [symmetric] DefaultCandidates_def)
  obtain scope types r where sc: "parseScope (riScope q) = Inr scope" "parseTypes (riTypes q) = Inr types"
    and r: "Vault_Recall (svVault sv) (svFTS sv) (recall_request q scope types (offset + l)) s = Some (Inr r, t)"
    and a: "a = recall_answer sv q offset r"
    using assms(1,2) n(1)
    by (auto simp: recall_tool_def recall_arguments_def pbind_Inr_iff prun_def slift_def sret_def rbind_Inr_iff Let_def l_def
        split: if_splits)
  obtain ranking where k: "ranking_of (svVault sv) (svFTS sv) (recall_request q scope types 1) s = Inr ranking" "ranks_alike s t"
    and h: "list_all2 (\<lambda>c h. fetched (vault_pipeline (svVault sv) (svFTS sv) s) (cdID c) h \<and> htScore h = cdScore c)
      (take (nat (offset + l)) ranking) (reHits r)"
    using Vault_Recall_page [OF r n(2,3)] by blast
  have rk: "recall_ranking sv q s = Inr ranking" "recall_ranking sv (q\<lparr>riCursor := c\<rparr>) t = Inr ranking" for c
    using k by (simp_all add: recall_ranking_cursor) (simp_all add: recall_ranking_def sc ranking_alike)
  have len: "length (reHits r) = min (length ranking) (nat (offset + l))" using list_all2_lengthD [OF h] by (simp add: min.commute)
  have res: "raResults a = map (hit_of sv (riDetail q = ''full'')) (drop (nat offset) (reHits r))"
    using o0 by (auto simp: a recall_answer_def Let_def)
  have cursor: "raNextCursor a = (if int (length (raResults a)) = l \<and> int (length (reHits r)) = offset + l
      then encodeRankCursor (svSHA sv) (offset + l) (riQuery q) else [])"
    unfolding res using o0 n(1) by (simp add: a recall_answer_def Let_def l_def)
  have "list_all2 (\<lambda>c h. fetched (vault_pipeline (svVault sv) (svFTS sv) s) (cdID c) h \<and> htScore h = cdScore c)
      (drop (nat offset) (take (nat (offset + l)) ranking)) (drop (nat offset) (reHits r))"
    by (rule list_all2_dropI [OF h])
  moreover have "drop (nat offset) (take (nat (offset + l)) ranking) = take (nat l) (drop (nat offset) ranking)"
    using o0 l by (simp add: drop_take nat_add_distrib)
  ultimately have page: "list_all2 (\<lambda>c out. \<exists>h. fetched (vault_pipeline (svVault sv) (svFTS sv) s) (cdID c) h \<and> htScore h = cdScore c
      \<and> out = hit_of sv (riDetail q = ''full'') h) (take (nat l) (drop (nat offset) ranking)) (raResults a)"
    unfolding res by (auto simp: list_all2_map2 elim!: list_all2_mono)
  have full: "int (length (raResults a)) = l \<and> int (length (reHits r)) = offset + l \<longleftrightarrow> offset + l \<le> int (length ranking)"
    unfolding res using len o0 l by auto
  have nonempty: "encodeRankCursor sha n p \<noteq> []" for sha n p by (simp add: encodeRankCursor_def cursorPrefix_def)
  have dec: "decodeRankCursor (svSHA sv) (encodeRankCursor (svSHA sv) (offset + l) (riQuery q)) (riQuery q) = Inr (offset + l)"
    using n decode_encode [of "offset + l" "svSHA sv" "riQuery q" "riQuery q"] by simp
  show ?thesis
    unfolding l_def [symmetric] using rk page full nonempty dec by (intro exI [of _ ranking]) (simp add: cursor)
qed

definition shelf_index :: index where
  "shelf_index = \<lparr>ixDim = 1, ixModel = ''m'', ixIDs = [3], ixVectors = [0x3F800000], ixAt = [3 \<mapsto> 0]\<rparr>"

lemma shelf_search: "Index_Search shelf_index [0x3F800000] 100 = Inr [\<lparr>mtID = 3, mtScore = Fin 1\<rparr>]"
  by code_simp

definition shelf_vault :: "byte list list vault" where
  "shelf_vault = demo_vault\<lparr>vaBodies := [(3, \<lparr>bKind = KindMemory, bBody = [7], bCreated = 1\<rparr>)], vaIndex := shelf_index\<rparr>"

definition shelf_query :: recall_in where
  "shelf_query = \<lparr>riQuery = ''q'', riTags = [], riTypes = [], riScope = [], riLimit = 1, riCursor = [], riIncludeSuperseded = True, riDetail = []\<rparr>"

lemma shelf_fetch: "\<exists>x t. Fetch demo_venv 3 s = Some (Inr x, t) \<and> vaHeads t = vaHeads s \<and> vaBodies t = vaBodies s"
  if "vaHeads s = []" "vaBodies s = vaBodies shelf_vault"
proof -
  have u: "vnUnmarshal demo_venv b = Inr (demo_memory (ID_of_bytes b))" for b by (simp add: demo_venv_def)
  show ?thesis
    using that
    by (simp add: Fetch_def vault_session_def GetSessionHead_def not_held_def pbind_def fetchBody_def GetRecord_def shelf_vault_def
        row_of_def prun_def slift_def u countRead_def)
qed

lemma shelf_hits:
  assumes "set (map cdID cs) \<subseteq> {3}" "plFetch pl = Fetch demo_venv" and "vaHeads s = []" "vaBodies s = vaBodies shelf_vault"
  shows "\<exists>hits t. fetch_hits pl cs s = Some (Inr hits, t)"
  using assms(1,3,4)
proof (induction cs arbitrary: s)
  case Nil
  then show ?case by (simp add: prun_def sret_def)
next
  case (Cons c cs)
  then obtain x t where x: "Fetch demo_venv 3 s = Some (Inr x, t)" "vaHeads t = []" "vaBodies t = vaBodies shelf_vault"
    using shelf_fetch [of s] by auto
  obtain hits u where "fetch_hits pl cs t = Some (Inr hits, u)" using Cons.IH [OF _ x(2,3)] Cons.prems by auto
  then show ?case using x Cons.prems assms(2) by (cases x) (simp add: pbind_def prun_def sret_def)
qed

theorem recall_pages_witness:
  "\<exists>content a t ranking. recall_tool (demo_server demo_venv) shelf_query shelf_vault = Some (Inr (content, a), t)
     \<and> recall_ranking (demo_server demo_venv) shelf_query shelf_vault = Inr ranking \<and> length ranking = 1
     \<and> length (raResults a) = 1 \<and> raNextCursor a \<noteq> []"
proof -
  let ?sv = "demo_server demo_venv" and ?pl = "vault_pipeline demo_venv (svFTS (demo_server demo_venv)) shelf_vault"
  let ?q = "recall_request shelf_query [] [] 1"
  let ?fused = "fuse [\<lparr>mtID = 3, mtScore = Fin 1\<rparr>] [] DefaultLexicalWeight"
  have tq: "trim_space ''q'' = ''q''" by (rule trim_space_trimmed, simp add: trimmed_def white_space_def upt_rec)
  have args: "recall_arguments ?sv shelf_query = Inr ([], [], 0)"
    by (simp add: recall_arguments_def Server_ready_def shelf_query_def tq parseScope_def parseTypes_def decodeRankCursor_def)
  have lim: "recall_limit (riLimit shelf_query) = 1" by (simp add: shelf_query_def recall_limit_def MaxLimit_def)
  have fused: "map cdID ?fused = [3]"
    using fuse_pool [of "[\<lparr>mtID = 3, mtScore = Fin 1\<rparr>]" "[]" DefaultLexicalWeight] by (simp add: Let_def)
  have env: "vnEmbed demo_venv x = Inr [0x3F800000]" "vaIndex shelf_vault = shelf_index" for x
    by (simp_all add: demo_venv_def shelf_vault_def)
  have lex: "searchLexical ?pl x k w = Inr []" for x k w
    by (simp add: searchLexical_def vault_pipeline_def demo_server_def SearchLexical_def Let_def)
  have "?fused \<noteq> []" using fused by auto
  then obtain known where known: "recall_describe ?pl ?fused = Inr known"
    by (simp add: recall_describe_def vault_pipeline_def)
  let ?ranking = "ranked_pool (vnText demo_venv) known ?q ?fused"
  have all: "current known ?q i" "in_scope known ?q i" for i
    by (simp_all add: current_def in_scope_def recall_request_sel) (simp add: shelf_query_def)
  have one: "length ?ranking = 1" using arg_cong [OF fused, of length] by (simp add: mset_ranked_pool all)
  have "set ?ranking = boosted (vnText demo_venv) known ?q ` set ?fused" by (simp add: mset_ranked_pool all)
  then have three: "set (map cdID ?ranking) \<subseteq> {3}" using arg_cong [OF fused, of set] by (auto simp: image_image)
  obtain counts where rank: "rank (vnText demo_venv) ?fused known ?q (nat 1) = (?ranking, counts)"
    by (simp add: rank_pool one)
  obtain hits t where hits: "fetch_hits ?pl ?ranking shelf_vault = Some (Inr hits, t)"
    using shelf_hits [OF three, of ?pl shelf_vault] by (auto simp: shelf_vault_def demo_vault_def)
  have run: "run_limit ?q = 1" "run_pool ?q = 100" "rqQuery ?q = ''q''" "lexicalWeight ?q = DefaultLexicalWeight"
    by (simp_all add: recall_request_sel DefaultCandidates_def) (simp add: shelf_query_def)
  obtain r where r: "Vault_Recall demo_venv (svFTS ?sv) ?q shelf_vault = Some (Inr r, t)"
    unfolding Vault_Recall_def Pipeline_Run_def Let_def run
    by (simp add: pbind_def prun_def slift_def sret_def env shelf_search lex known rank [simplified] hits)
  then obtain content a where tool: "recall_tool ?sv shelf_query shelf_vault = Some (Inr (content, a), t)"
    by (simp add: recall_tool_def args pbind_def prun_def slift_def sret_def lim int_add_def Let_def)
  have "recall_ranking ?sv shelf_query shelf_vault = Inr ?ranking"
    unfolding recall_ranking_def ranking_of_def Let_def
    by (simp add: shelf_query_def parseScope_def parseTypes_def) (simp add: shelf_query_def [symmetric] run DefaultCandidates_def env shelf_search lex known)
  moreover have "decodeRankCursor (svSHA ?sv) (riCursor shelf_query) (riQuery shelf_query) = Inr 0"
    by (simp add: shelf_query_def decodeRankCursor_def)
  ultimately show ?thesis
    using recall_pages [OF tool, of 0] tool one by (auto simp: lim DefaultCandidates_def dest!: list_all2_lengthD)
qed

section \<open>What was remembered is what opens\<close>

lemma link_source_Inr:
  "link_source ve m s = (Inr linked, t) \<Longrightarrow> (case linked of None \<Rightarrow> [] | Some i \<Rightarrow> URI KindSession i) = fst (source_link m)"
  by (auto simp: link_source_def source_link_def sfail_def sret_def sbind_Inr_iff split: sum.splits if_splits)

lemma Remember_linked:
  assumes "Remember ve q s = (Inr r, t)"
  shows "(case rsLinkedSession r of None \<Rightarrow> [] | Some i \<Rightarrow> URI KindSession i) = fst (source_link (new_memory ve q (rsID r)))"
proof -
  obtain s2 where "link_source ve (new_memory ve q (rsID r)) s2 = (Inr (rsLinkedSession r), t)"
    using assms by (fastforce simp: Remember_def sbind_Inr_iff slift_def sget_def sret_def Let_def)
  then show ?thesis by (rule link_source_Inr)
qed

lemma optional_address_Some:
  "optional_address uri want f = Inr (Some i) \<Longrightarrow> addressOf uri want = Inr i \<and> uri \<noteq> []"
  "optional_address uri want f = Inr None \<Longrightarrow> uri = []"
  by (auto simp: optional_address_def split: if_splits sum.splits)

lemma remember_arguments_Inr:
  assumes "remember_arguments sv q = Inr req"
  shows "svOpened sv" "rbStatement req = miStatement q" "rbContext req = miContext q" "rbTags req = miTags q"
    "rbType req = trim_space (miType q)" "optional_address (miSupersedes q) FormMemory ''supersedes'' = Inr (rbSupersedes req)"
  using assms by (auto simp: remember_arguments_def rbind_Inr_iff Server_ready_def split: if_splits option.splits)

text \<open>C37. What one agent remembers is what another opens.  The address the tool \<open>remember\<close> answers with opens, on this device, as the
  memory that was asked for: its statement, context and type, its tags normalized, the record it replaced and the conversation it was
  linked to under the addresses the answer gave; and the answer says that it was written to the network only when the catalog has it.
  The id drawn names nothing yet.
\<close>

theorem remembered_memory_opens:
  assumes "remember_tool sv q s = Some (Inr (content, out), t)" and "queue_ok (pkQueue (vaPacker s))"
    and new: "\<And>i. drawn_id (svVault sv) (vaDrawn s) = Some i \<Longrightarrow>
      queued (pkQueue (vaPacker s)) i = None \<and> row_of (vaBodies s) i = None \<and> row_of (vaHeads t) i = None"
    and "memory_codec (svVault sv)"
    and seals: "\<And>m body. vnMarshal (svVault sv) m = Inr body \<Longrightarrow> seals_well (svVault sv) body"
  shows "\<exists>links a d u. open_tool sv (open_plainly (moURI out)) t = Some (Inr (links, a), u)
    \<and> ooURI a = moURI out \<and> ooDetail a = MemoryDetail d
    \<and> mdStatement d = miStatement q \<and> mdContext d = miContext q \<and> mdType d = trim_space (miType q)
    \<and> mdTags d = NormalizeTags (vnText (svVault sv)) (miTags q) \<and> mdSession d = moLinkedSession out \<and> mdTier d = ''local''
    \<and> (if miSupersedes q = [] then mdSupersedes d = [] else addressOf (mdSupersedes d) FormMemory = addressOf (miSupersedes q) FormMemory)
    \<and> (moDurability out = written_through \<longrightarrow> (\<exists>i. moURI out = URI KindMemory i \<and> in_catalog (vaManifest t) i))"
proof -
  let ?ve = "svVault sv"
  obtain req r where req: "remember_arguments sv q = Inr req" and run: "Remember ?ve req s = (Inr r, t)"
    and out: "out = remember_answer sv r"
    using assms(1) by (auto simp: remember_tool_def pbind_Inr_iff prun_def slift_def sret_def Let_def)
  note A = remember_arguments_Inr [OF req]
  let ?m = "new_memory ?ve req (rsID r)"
  have drawn: "drawn_id ?ve (vaDrawn s) = Some (rsID r)"
    using run by (auto simp: Remember_def NewID_def draw_def sbind_Inr_iff slift_def sget_def sret_def Let_def drawn_id_def split: sum.splits)
  have new': "queued (pkQueue (vaPacker s)) i = None \<and> row_of (vaBodies s) i = None" if "drawn_id ?ve (vaDrawn s) = Some i" for i
    using new [OF that] by blast
  obtain body where b: "vnMarshal ?ve ?m = Inr body" "GetRecord (vaBodies t) (rsID r) = Inr (KindMemory, body)"
    and net: "rsOnNetwork r \<longrightarrow> in_catalog (vaManifest t) (rsID r)"
    using Remember_held [OF run assms(2) new' seals [of ?m]] by blast
  have "vnUnmarshal ?ve body = Inr ?m" using assms(4) b(1) by (simp add: memory_codec_def)
  moreover have "row_of (vaHeads t) (rsID r) = None" using new [OF drawn] by blast
  ultimately obtain a u where a: "Resolve sv (URI KindMemory (rsID r)) plain_options t = Some (Inr a, u)"
    "adURI (rlAddress a) = URI KindMemory (rsID r)" "rlDetail a = MemoryDetail (memoryDetail sv (URI KindMemory (rsID r)) ?m TierLocal)"
    using Resolve_memory_held [OF A(1) _ b(2)] by blast
  let ?d = "memoryDetail sv (URI KindMemory (rsID r)) ?m TierLocal"
  have sup: "if miSupersedes q = [] then mdSupersedes ?d = []
      else addressOf (mdSupersedes ?d) FormMemory = addressOf (miSupersedes q) FormMemory"
    using A(6) optional_address_Some
    by (cases "rbSupersedes req") (auto simp: memoryDetail_def memory_detail_of_def new_memory_def addressOf_def Parse_fixed)
  have wt: "moDurability out = written_through \<longrightarrow> (\<exists>i. moURI out = URI KindMemory i \<and> in_catalog (vaManifest t) i)"
    using net by (auto simp: out remember_answer_def durability_def written_through_def)
  have "mdStatement ?d = miStatement q" "mdContext ?d = miContext q" "mdType ?d = trim_space (miType q)"
    "mdTags ?d = NormalizeTags (vnText ?ve) (miTags q)" "mdTier ?d = ''local''" 
    using A by (simp_all add: memoryDetail_def memory_detail_of_def new_memory_def tier_name_def)
  moreover have "mdSession ?d = moLinkedSession out"
    using Remember_linked [OF run] by (simp add: out remember_answer_def memoryDetail_def)
  moreover have "moURI out = URI KindMemory (rsID r)" by (simp add: out remember_answer_def)
  ultimately show ?thesis using a sup wt
    by (intro exI [of _ ?d] exI) (auto simp: open_tool_def open_plainly_def plain_options_def)
qed

definition memory_note :: remember_in where
  "memory_note = \<lparr>miStatement = ''s'', miContext = ''c'', miType = ''fact'', miTags = [], miSupersedes = [], miLinks = [],
     miImportance = Fin 0, miConfidence = Fin 1, miValidFrom = [], miValidUntil = [], miSession = [], miSpan = [], miKeywords = []\<rparr>"

lemma memory_note_arguments: "remember_arguments (demo_server hello_venv) memory_note = Inr note_request"
proof -
  have "trim_space ''fact'' = ''fact''" by (rule trim_space_trimmed, simp add: trimmed_def white_space_def upt_rec)
  moreover have "trim_space [] = []" by (rule trim_space_trimmed, simp add: trimmed_def white_space_def upt_rec)
  ultimately show ?thesis
    by (simp add: remember_arguments_def Server_ready_def memory_note_def optional_address_def optionalTime_def note_request_def
        no_source_def Type_Valid_def Types_def)
qed

lemma keeps_heads_device: "keeps on_device m \<Longrightarrow> keeps vaHeads m"
  by (erule keeps_less [where h = "\<lambda>(b, h, d). h"]) (simp add: on_device_def)

lemma keeps_heads_store: "keeps vaHeads (store_memory ve m v)"
proof -
  have "keeps vaHeads (seal_body ve i k b)" for i k b
    by (rule keepsI) (auto simp: seal_body_def draw_def sbind_def slift_def sret_def split: sum.splits prod.splits)
  moreover have "keeps vaHeads (put_body ve i k b)" "keeps vaHeads (put_meta ve x)" for i k b x
    by (rule keepsI, simp add: put_body_def put_meta_def smod_def)+
  moreover have "keeps vaHeads (putVector ve i x)" for i x by (rule keeps_heads_device) simp
  moreover have "keeps vaHeads (queue_blob ve i k c framed)" for i k c framed by (rule keeps_heads_device [OF keeps_on_device]) simp
  ultimately show ?thesis unfolding store_memory_def by (auto intro!: keeps_sbind split: prod.split)
qed

theorem remembered_memory_opens_witness:
  "\<exists>content out t links a d u. remember_tool (demo_server hello_venv) memory_note demo_vault = Some (Inr (content, out), t)
     \<and> open_tool (demo_server hello_venv) (open_plainly (moURI out)) t = Some (Inr (links, a), u)
     \<and> ooDetail a = MemoryDetail d \<and> mdStatement d = ''s''"
proof -
  let ?sv = "demo_server hello_venv"
  obtain r t where r: "Remember hello_venv note_request demo_vault = (Inr r, t)" using first_run by blast
  then obtain content out where tool: "remember_tool ?sv memory_note demo_vault = Some (Inr (content, out), t)"
    by (simp add: remember_tool_def pbind_def prun_def slift_def memory_note_arguments sret_def Let_def)
  obtain s1 vector flushed s2 linked where R: "NewID hello_venv demo_vault = (Inr (rsID r), s1)"
    "store_memory hello_venv (new_memory hello_venv note_request (rsID r)) vector s1 = (Inr (rsCID r, flushed), s2)"
    "link_source hello_venv (new_memory hello_venv note_request (rsID r)) s2 = (Inr linked, t)"
    using r by (rule Remember_Inr)
  have "vaHeads s2 = []" using R(1) keeps_step [OF keeps_heads_store R(2)]
    by (auto simp: NewID_def draw_def sbind_Inr_iff slift_def demo_vault_def)
  then have heads: "vaHeads t = []"
    using R(3) by (simp add: link_source_def new_memory_def note_request_def sret_def)
  have q: "queued (pkQueue (vaPacker demo_vault)) i = None \<and> row_of (vaBodies demo_vault) i = None" 
    if "drawn_id hello_venv (vaDrawn demo_vault) = Some i" for i
    using that demo_id_not_3 [of 0]
    by (auto simp: drawn_id_def hello_sel demo_vault_def demo_packer_def Enqueue_def queued_def row_of_Cons demo_blob_def demo_id_def)
  have w: "seals_well hello_venv body" if "vnMarshal hello_venv m = Inr body" for m body
    using that plain_crypto_ok
    by (auto simp: seals_well_def hello_sel ID_bytes_def plain_crypto_def Overhead_def NonceSize_def TagSize_def dest!: hello_marshal_Inr)
  have k: "queue_ok (pkQueue (vaPacker demo_vault))" using demo_packer_ok by (simp add: demo_vault_def)
  have "\<exists>links a d u. open_tool ?sv (open_plainly (moURI out)) t = Some (Inr (links, a), u)
    \<and> ooURI a = moURI out \<and> ooDetail a = MemoryDetail d
    \<and> mdStatement d = miStatement memory_note \<and> mdContext d = miContext memory_note \<and> mdType d = trim_space (miType memory_note)
    \<and> mdTags d = NormalizeTags (vnText (svVault ?sv)) (miTags memory_note) \<and> mdSession d = moLinkedSession out \<and> mdTier d = ''local''
    \<and> (if miSupersedes memory_note = [] then mdSupersedes d = []
       else addressOf (mdSupersedes d) FormMemory = addressOf (miSupersedes memory_note) FormMemory)
    \<and> (moDurability out = written_through \<longrightarrow> (\<exists>i. moURI out = URI KindMemory i \<and> in_catalog (vaManifest t) i))"
    by (rule remembered_memory_opens [of ?sv, OF tool k]) (use q w hello_memory_codec heads in \<open>simp_all only: demo_server_sel row_of_Nil\<close>)
  then have "\<exists>links a d u. open_tool ?sv (open_plainly (moURI out)) t = Some (Inr (links, a), u)
    \<and> ooDetail a = MemoryDetail d \<and> mdStatement d = ''s''" by (auto simp: memory_note_def)
  with tool show ?thesis by blast
qed

section \<open>What was saved is what opens\<close>

lemma saveSession_tool_Inr:
  assumes "saveSession_tool sv q s = Some (Inr (content, out), t)" and "session_arguments sv q = Inr req"
  shows "\<exists>r. SaveSession (svVault sv) req s = Some (Inr r, t) \<and> out = session_answer r"
proof (cases "SaveSession (svVault sv) req s")
  case None
  then show ?thesis using assms by (simp add: saveSession_tool_def pbind_def prun_def slift_def)
next
  case (Some x)
  obtain r u where x: "x = (r, u)" by (cases x)
  then show ?thesis
    using assms Some by (cases r) (simp_all add: saveSession_tool_def pbind_def prun_def slift_def sret_def Let_def)
qed

text \<open>C38. What one agent saves is what another opens.  After a conversation was saved, or the next part of one, the transcript address
  the tool answered with opens as the whole of it: what it held before followed by the messages of the request, in order, nothing
  left for a further page, and the bytes are the rendering of just that.  The delegated runs the head names must be on the device.
\<close>

theorem saved_conversation_opens:
  assumes "saveSession_tool sv q s = Some (Inr (content, out), t)" and "session_arguments sv q = Inr req"
    and "chunk_codec (svVault sv) (siMessages q)" and "session_codec (svVault sv)" and "fresh_ids (svVault sv) s (vaDrawn t)"
    and "heads_keyed (svVault sv) (vaHeads s)" and "transcript_before (svVault sv) s (sqID req) old"
    and children: "\<And>i h. stored_head (svVault sv) (vaHeads t) i = Some h \<Longrightarrow> TranscriptURI i = soTranscript out \<Longrightarrow>
      children_held (svVault sv) (vaHeads t) (lnChildren (sLineage h))"
  shows "\<exists>links a d u. open_tool sv (open_plainly (soTranscript out)) t = Some (Inr (links, a), u)
     \<and> ooDetail a = TranscriptDetail d \<and> trMessages d = old @ siMessages q \<and> \<not> trMore d
     \<and> ooContent a = mustJSON sv (TranscriptDetail d) \<and> reads_only t u"
proof -
  have req: "sqMessages req = siMessages q" "svOpened sv"
    using assms(2) by (auto simp: session_arguments_def rbind_Inr_iff Server_ready_def split: if_splits option.splits)
  obtain r where r: "SaveSession (svVault sv) req s = Some (Inr r, t)" and out: "out = session_answer r"
    using saveSession_tool_Inr [OF assms(1,2)] by blast
  have o: "soTranscript out = TranscriptURI (svID r)" by (simp add: out session_answer_def)
  have c: "children_held (svVault sv) (vaHeads t) (lnChildren (sLineage h))"
    if "stored_head (svVault sv) (vaHeads t) (svID r) = Some h" for h
    using children [OF that] o by simp
  obtain a d u where "Resolve sv (TranscriptURI (svID r)) plain_options t = Some (Inr a, u)" "rlDetail a = TranscriptDetail d"
    "trMessages d = old @ sqMessages req" "\<not> trMore d" "rlBody a = mustJSON sv (TranscriptDetail d)" "reads_only t u"
    using saved_transcript_opens [OF r req(2) _ assms(4-7) c] assms(3) unfolding req(1) by blast
  then show ?thesis using req(1) by (simp add: o open_tool_def open_plainly_def plain_options_def)
qed

definition session_note :: session_in where
  "session_note = \<lparr>siSession = [], siTitle = ''t'', siSummary = [], siTags = [], siMessages = hellos,
     siProject = \<lparr>prCWD = [], prRepo = [], prBranch = []\<rparr>, siAgent = \<lparr>agName = [], agVersion = []\<rparr>, siModels = [],
     siPreservedTail = [], siDurable = False, siArchived = False\<rparr>"

lemma session_note_arguments: "session_arguments (demo_server hello_venv) session_note = Inr hello_request"
  by (simp add: session_arguments_def Server_ready_def session_note_def optional_address_def hello_request_def)

theorem saved_conversation_opens_witness:
  "\<exists>content out t links a d u. saveSession_tool (demo_server hello_venv) session_note demo_vault = Some (Inr (content, out), t)
     \<and> open_tool (demo_server hello_venv) (open_plainly (soTranscript out)) t = Some (Inr (links, a), u)
     \<and> ooDetail a = TranscriptDetail d \<and> trMessages d = hellos"
proof -
  let ?sv = "demo_server hello_venv"
  obtain r t where t: "SaveSession hello_venv hello_request demo_vault = Some (Inr r, t)" "vaDrawn t = 3"
    using hello_run by blast
  then obtain content out where tool: "saveSession_tool ?sv session_note demo_vault = Some (Inr (content, out), t)"
    by (simp add: saveSession_tool_def pbind_def prun_def slift_def session_note_arguments sret_def Let_def)
  have d: "drawn_id hello_venv n = Some (demo_id n)" for n by (simp add: drawn_id_def hello_sel demo_id_def)
  have f: "fresh_ids hello_venv demo_vault (vaDrawn t)"
    unfolding t(2) fresh_ids_def d by (auto simp: demo_vault_def demo_id_def ID_of_bytes_inject less_Suc_eq numeral_3_eq_3)
  have k: "heads_keyed hello_venv (vaHeads demo_vault)" "transcript_before hello_venv demo_vault (sqID hello_request) []"
    by (simp_all add: heads_keyed_def stored_head_def demo_vault_def GetSessionHead_def transcript_before_def hello_request_def ID_IsZero_def)
  have "lnChildren (sLineage h) = []" if "stored_head hello_venv hs i = Some h" for hs i h
    using that hello_saved_sel(5)
    by (auto simp: stored_head_def hello_venv_def hello_request_def split: sum.splits)
  then have c: "children_held hello_venv hs (lnChildren (sLineage h))" if "stored_head hello_venv hs i = Some h" for hs i h
    using that by (simp add: children_held_def)
  have "\<exists>links a d u. open_tool ?sv (open_plainly (soTranscript out)) t = Some (Inr (links, a), u)
     \<and> ooDetail a = TranscriptDetail d \<and> trMessages d = [] @ siMessages session_note \<and> \<not> trMore d
     \<and> ooContent a = mustJSON ?sv (TranscriptDetail d) \<and> reads_only t u"
    by (rule saved_conversation_opens [of ?sv, OF tool session_note_arguments])
      (use hello_codec f k c in \<open>simp_all only: demo_server_sel\<close>)
  with tool show ?thesis by (auto simp: session_note_def)
qed

section \<open>What was forgotten is absent\<close>

lemma Manifest_Remove_gone:
  assumes "Manifest_Remove env io now i m = (Inr x, m')" and "catalog_wf m"
  shows "\<exists>e. Manifest_Lookup m' i = Inl e \<and> errors_Is e ErrManifestNotFound"
proof -
  obtain en where en: "Manifest_Lookup m i = Inr en"
    and ap: "Manifest_Append env io (en\<lparr>enDeleted := True, enWrittenAt := now\<rparr>) m = (Inr x, m')"
    using assms(1) by (auto simp: Manifest_Remove_def split: sum.splits)
  then have k: "mfEntries m i = Some en" by (auto simp: Manifest_Lookup_def split: option.splits if_splits)
  then have i: "enID en = i" using assms(2) by (simp add: catalog_wf_def view_wf_def)
  have "mfEntries m' i = Some (en\<lparr>enDeleted := True, enWrittenAt := now\<rparr>)"
    using ap i by (auto simp: Manifest_Append_def Manifest_append_def Manifest_Compact_def split: prod.splits sum.splits if_splits)
  then show ?thesis by (simp add: Manifest_Lookup_def)
qed

lemma on_vectors_sel: "on_vectors ve m s = (r, t) \<Longrightarrow> vaManifest t = vaManifest s \<and> vaBodies t = vaBodies s"
  by (auto simp: on_vectors_def split: prod.splits)

lemma Vault_Forget_gone:
  assumes "Vault_Forget ve i s = (Inr x, t)" and "catalog_wf (vaManifest s)"
  shows "\<exists>e. Manifest_Lookup (vaManifest t) i = Inl e \<and> errors_Is e ErrManifestNotFound" and "row_of (vaBodies t) i = None"
proof -
  obtain u s1 where u: "on_catalog ve (\<lambda>io. Manifest_Remove (vnCatalog ve) io (vnNow ve) i) s = (Inr u, s1)"
    and t: "vaManifest t = vaManifest s1" "vaBodies t = ForgetBody i (vaBodies s1)"
    using assms(1)
    by (auto simp: Vault_Forget_def sbind_Inr_iff smod_def ForgetLocally_def forget_ranking_def dest!: on_vectors_sel)
  show "\<exists>e. Manifest_Lookup (vaManifest t) i = Inl e \<and> errors_Is e ErrManifestNotFound"
    using u Manifest_Remove_gone [OF _ assms(2)] unfolding t(1) by (auto simp: on_catalog_def split: prod.splits)
  show "row_of (vaBodies t) i = None" by (simp add: t(2) ForgetBody_def)
qed

lemma ForgetSession_gone: "ForgetSession ve i s = (Inr x, t) \<Longrightarrow> row_of (vaHeads t) i = None"
  by (auto simp: ForgetSession_def sbind_Inr_iff smod_def Vault_ForgetSessionHead_def ForgetSessionHead_def)

lemma absent_conversation:
  assumes "row_of (vaHeads s) i = None" and "lqID q = i"
  shows "\<exists>t. or_missing uri (LoadSession ve q) s = Some (Inl (GoErr [ErrNoRecord] (''no record at that address: '' @ uri)), t)"
  using assms
  by (simp add: or_missing_def LoadSession_def pbind_def prun_def Vault_Session_def vault_session_def GetSessionHead_def not_held_def
      errors_Is_def notFound_def)

lemma absent_memory:
  assumes "row_of (vaHeads s) i = None" "row_of (vaBodies s) i = None"
    and "Manifest_Lookup (vaManifest s) i = Inl e" "errors_Is e ErrManifestNotFound"
  shows "\<exists>t. or_missing uri (FetchMemory ve i) s = Some (Inl (GoErr [ErrNoRecord] (''no record at that address: '' @ uri)), t)"
  using assms
  by (simp add: or_missing_def FetchMemory_def Fetch_def pbind_def prun_def vault_session_def GetSessionHead_def GetRecord_def not_held_def
      fetchBody_def notFound_def errors_Is_def)

definition absent :: "'n server \<Rightarrow> string \<Rightarrow> 'n vault \<Rightarrow> bool" where
  "absent sv uri s \<longleftrightarrow> (\<exists>e t. open_tool sv (open_plainly uri) s = Some (Inl e, t) \<and> errors_Is e ErrNoRecord)"

lemma absent_resolve:
  assumes "Parse uri = Inr a" and "svOpened sv" and "adURI a = uri"
    and "(adForm a = FormMemory \<and> (\<exists>t. or_missing uri (FetchMemory (svVault sv) (adID a)) s = Some (Inl (GoErr [ErrNoRecord] w), t)))
      \<or> (adForm a = FormSession \<or> adForm a = FormTranscript) \<and> row_of (vaHeads s) (adID a) = None"
  shows "absent sv uri s"
proof -
  have f: "FormMemory \<noteq> FormSession" "FormMemory \<noteq> FormTranscript" "FormSession \<noteq> FormTranscript"
    "FormMemory \<noteq> FormVault" "FormMemory \<noteq> FormGuide" "FormSession \<noteq> FormVault" "FormSession \<noteq> FormGuide"
    "FormTranscript \<noteq> FormVault" "FormTranscript \<noteq> FormGuide" by (simp_all add: form_defs)
  have "\<exists>t w. Resolve sv uri plain_options s = Some (Inl (GoErr [ErrNoRecord] w), t)"
  proof (cases "adForm a = FormMemory")
    case True
    then obtain t where "or_missing uri (FetchMemory (svVault sv) (adID a)) s = Some (Inl (GoErr [ErrNoRecord] w), t)"
      using assms(4) f by auto
    then show ?thesis
      using True f assms(1-3) by (simp add: Resolve_def pbind_def prun_def slift_def resolve_def Server_ready_def resolveMemory_def)
  next
    case False
    then have r: "row_of (vaHeads s) (adID a) = None" and g: "adForm a = FormSession \<or> adForm a = FormTranscript" using assms(4) by auto
    have h: "\<exists>t. or_missing uri (LoadSession (svVault sv) q) s = Some (Inl (GoErr [ErrNoRecord] (''no record at that address: '' @ uri)), t)"
      if "lqID q = adID a" for q by (rule absent_conversation [OF r that])
    show ?thesis
      using g f assms(1-3) h [of "head_request (adID a) False"] h [of "transcript_request (adID a) plain_options"]
      by (auto simp: Resolve_def pbind_def prun_def slift_def resolve_def Server_ready_def resolveSession_def resolveTranscript_def
          head_request_def transcript_request_def plain_options_def)
  qed
  then show ?thesis
    by (auto simp: absent_def open_tool_def open_plainly_def plain_options_def suffix_err_def errors_Is_def)
qed

text \<open>C40. What was forgotten is absent.  An answer that a record was removed is given only to a call that confirmed it, and from then on
  the address, of a memory, a conversation or its transcript, opens as an absent record.
\<close>

theorem forgotten_is_absent:
  assumes "forget_tool sv uri confirm s = (Inr (content, out), t)" and "foRemoved out" and "Parse uri = Inr a"
    and "catalog_wf (vaManifest s)" and "adForm a = FormMemory \<Longrightarrow> row_of (vaHeads t) (adID a) = None"
  shows "confirm \<and> absent sv uri t"
proof -
  have uri: "adURI a = uri" using Parse_opens [OF assms(3)] by simp
  have g: "svOpened sv" "confirm" "forget_arguments sv uri confirm = Inr a"
    using assms(1,3) by (auto simp: forget_tool_def sbind_Inr_iff slift_def forget_arguments_def rbind_Inr_iff Server_ready_def
        split: if_splits option.splits)
  consider x where "adForm a = FormMemory" "Vault_Forget (svVault sv) (adID a) s = (Inr x, t)"
    | x where "adForm a = FormSession \<or> adForm a = FormTranscript" "ForgetSession (svVault sv) (adID a) s = (Inr x, t)"
    using assms(1,2) g(3)
    by (auto simp: forget_tool_def sbind_Inr_iff slift_def sret_def sfail_def Let_def split: if_splits sum.splits prod.splits)
  then show ?thesis
  proof cases
    case 1
    obtain e where e: "Manifest_Lookup (vaManifest t) (adID a) = Inl e" "errors_Is e ErrManifestNotFound"
      using Vault_Forget_gone(1) [OF 1(2) assms(4)] by blast
    from absent_memory [OF assms(5) [OF 1(1)] Vault_Forget_gone(2) [OF 1(2) assms(4)] e, of uri "svVault sv"]
    have "absent sv uri t" using 1(1) by (intro absent_resolve [OF assms(3) g(1) uri]) blast
    then show ?thesis using g(2) by simp
  next
    case 2
    then have "absent sv uri t" using ForgetSession_gone by (intro absent_resolve [OF assms(3) g(1) uri]) blast
    then show ?thesis using g(2) by simp
  qed
qed

definition forgetting_venv :: "byte list list venv" where
  "forgetting_venv = demo_venv\<lparr>vnCatalog := line_env\<rparr>"

definition kept_vault :: "byte list list vault" where
  "kept_vault = cataloguing_vault\<lparr>vaManifest := (catalogued 4 empty_manifest)\<lparr>mfOrder := [4]\<rparr>\<rparr>"

lemma forget_run: "\<exists>t. Vault_Forget forgetting_venv 4 kept_vault = (Inr (), t) \<and> vaHeads t = []"
proof -
  have e: "vnCatalog forgetting_venv = line_env" "vnIO forgetting_venv n = io_ok" "vnVectorIO forgetting_venv n = io_ok"
    "vnVectorSealer forgetting_venv = demo_vsealer" for n by (simp_all add: forgetting_venv_def demo_venv_def)
  let ?s = "kept_vault"
  have l: "Manifest_Lookup (vaManifest ?s) 4 = Inr ((demo_entry 4)\<lparr>enObjectRef := Ref_String 9\<rparr>)"
    by (simp add: kept_vault_def Manifest_Lookup_def catalogued_def demo_entry_def)
  have "\<exists>m. Manifest_Append line_env io_ok x (vaManifest ?s) = (Inr (), m)" for x
    by (simp add: Manifest_Append_def Manifest_append_def Log_Append_def Let_def encodeEntry_def line_env_def demo_env_def Seal_def
      plain_crypto_def io_ok_def kept_vault_def cataloguing_vault_def catalogued_def empty_manifest_def empty_log_def dueForCompaction_def MinCompactBytes_def)
  then obtain m where m: "Manifest_Remove line_env io_ok (vnNow forgetting_venv) 4 (vaManifest ?s) = (Inr (), m)"
    by (auto simp: Manifest_Remove_def l)
  obtain st where v: "Store_Remove demo_vsealer io_ok [4] empty_store = (Inr (), st)"
    by (simp add: Store_Remove_def Store_Append_def vec_encodeEntry_def vec_body_def demo_vsealer_def io_ok_def Let_def Removal_def)
  have s: "vaVectors ?s = empty_store" "vaHeads ?s = []" by (simp_all add: kept_vault_def cataloguing_vault_def demo_vault_def)
  show ?thesis
    by (simp add: Vault_Forget_def sbind_def on_catalog_def on_vectors_def e m v s smod_def ForgetLocally_def forget_ranking_def)
qed

theorem forgotten_is_absent_witness:
  "\<exists>content out t. forget_tool (demo_server forgetting_venv) (URI KindMemory 4) True kept_vault = (Inr (content, out), t)
     \<and> foRemoved out \<and> absent (demo_server forgetting_venv) (URI KindMemory 4) t"
proof -
  let ?sv = "demo_server forgetting_venv"
  obtain t where t: "Vault_Forget forgetting_venv 4 kept_vault = (Inr (), t)" "vaHeads t = []" using forget_run by blast
  then obtain content out where f: "forget_tool ?sv (URI KindMemory 4) True kept_vault = (Inr (content, out), t)" "foRemoved out"
    by (simp add: forget_tool_def sbind_def slift_def forget_arguments_def Server_ready_def Let_def sret_def)
  have "catalog_wf (vaManifest kept_vault)"
    by (simp add: catalog_wf_def view_wf_def kept_vault_def cataloguing_vault_def catalogued_def empty_manifest_def demo_entry_def)
  from forgotten_is_absent [OF f Parse_URI(1) this] t(2) f show ?thesis by auto
qed

section \<open>Answers that mislead\<close>

text \<open>The address a neighbour that is a conversation is given does not open, and not as an absent record.\<close>

lemma session_neighbour_misaddressed:
  assumes "svOpened sv" and "stored_head (svVault sv) (vaHeads s) (nbID n) = Some h"
  shows "\<exists>e t. Resolve sv (noURI (neighbourOut n)) opts s = Some (Inl e, t) \<and> \<not> errors_Is e ErrNoRecord"
proof -
  let ?e = "GoErr [] ''not a memory''"
  have nf: "notFound uri ?e = ?e" for uri by (simp add: notFound_def errors_Is_def)
  have p: "Parse (noURI (neighbourOut n)) = Inr \<lparr>adForm = FormMemory, adURI = URI KindMemory (nbID n), adID = nbID n\<rparr>"
    by (simp add: neighbourOut_def Parse_URI)
  obtain w where "FetchMemory (svVault sv) (nbID n) s = Some (Inl ?e, w)"
    using assms(2) by (auto simp: FetchMemory_def Fetch_def pbind_def prun_def sfail_def stored_head_def vault_session_def split: sum.splits)
  then have "or_missing uri (FetchMemory (svVault sv) (nbID n)) s = Some (Inl ?e, w)" for uri
    by (simp add: or_missing_def nf)
  then show ?thesis
    using assms(1) unfolding Resolve_def p
    by (simp add: pbind_def prun_def slift_def p resolve_def Server_ready_def form_defs resolveMemory_def errors_Is_def)
qed

text \<open>Forgetting a memory a second time fails.\<close>

lemma forget_again_fails:
  assumes "svOpened sv" and "\<not> in_catalog (vaManifest s) i"
  shows "\<exists>e t. forget_tool sv (URI KindMemory i) True s = (Inl e, t) \<and> errors_Is e ErrManifestNotFound"
proof -
  have "Manifest_Lookup (vaManifest s) i = fail [ErrManifestNotFound] ''no manifest entry''"
    using assms(2) by (auto simp: Manifest_Lookup_def in_catalog_def split: option.splits)
  then show ?thesis
    using assms(1)
    by (simp add: forget_tool_def sbind_def slift_def forget_arguments_def Server_ready_def Parse_URI Let_def Vault_Forget_def on_catalog_def
        Manifest_Remove_def errors_Is_def)
qed

text \<open>One part of a transcript that is nowhere makes the whole conversation read as absent, though its head is here.\<close>

lemma missing_chunk_reads_as_absent:
  assumes "svOpened sv" and "stored_head (svVault sv) (vaHeads s) i = Some h" and "sChunks h = r # rs"
    and "row_of (vaBodies s) (crID r) = None" and "\<not> in_catalog (vaManifest s) (crID r)"
  shows "\<exists>e t. Resolve sv (TranscriptURI i) plain_options s = Some (Inl e, t) \<and> errors_Is e ErrNoRecord"
proof -
  let ?m = "GoErr [ErrManifestNotFound] ''no manifest entry''"
  obtain w where w: "Vault_Session (svVault sv) i s = (Inr h, w)" "vaBodies w = vaBodies s" "vaManifest w = vaManifest s"
    using assms(2) by (auto simp: Vault_Session_def vault_session_def stored_head_def split: sum.splits)
  have "Manifest_Lookup (vaManifest s) (crID r) = fail [ErrManifestNotFound] ''no manifest entry''"
    using assms(5) by (auto simp: Manifest_Lookup_def in_catalog_def split: option.splits)
  then obtain u where "Vault_chunk (svVault sv) (crID r) w = Some (Inl ?m, u)"
    using assms(4) w(2,3) by (simp add: Vault_chunk_def pbind_def fetchBody_def GetRecord_def not_held_def errors_Is_def)
  then have "LoadSession (svVault sv) (transcript_request i plain_options) s = Some (Inl (wrap_err ''session chunk: '' ?m), u)"
    using w(1) assms(3)
    by (simp add: LoadSession_def pbind_def prun_def sget_def transcript_request_def plain_options_def transcript_def startChunk_def)
  then have "or_missing (TranscriptURI i) (LoadSession (svVault sv) (transcript_request i plain_options)) s
      = Some (Inl (GoErr [ErrNoRecord] (''no record at that address: '' @ TranscriptURI i)), u)"
    by (simp add: or_missing_def notFound_def errors_Is_def wrap_err_def)
  then show ?thesis
    using assms(1) unfolding Resolve_def Parse_URI
    by (simp add: pbind_def prun_def slift_def Parse_URI resolve_def Server_ready_def form_defs resolveTranscript_def errors_Is_def)
qed

end
