(* ===== verification/McpPrompt.thy ===== *)
theory McpPrompt
  imports McpAnswers
begin

text \<open>
  Package \<open>mcp\<close>, the prompt \<open>resume\<close> (\<open>prompt.go\<close>): which conversation is brought back, and what a host is handed of it.
\<close>

section \<open>Which conversation\<close>

definition PartReasoning :: string where "PartReasoning = ''reasoning''"
definition PartFile :: string where "PartFile = ''file''"
definition PartResourceLink :: string where "PartResourceLink = ''resourceLink''"

definition ResumeTurns :: int where "ResumeTurns = 30"

text \<open>The arguments of the call; one that is not given is empty.\<close>

record resume_args =
  rgSession :: string
  rgTopic :: string
  rgTurns :: string

definition topic_request :: "string \<Rightarrow> request" where
  "topic_request topic = \<lparr>rqQuery = topic, rqMax = 1, rqScope = [KindSession], rqFilter = \<lparr>flTypes = [], flTags = []\<rparr>,
     rqWeights = \<lparr>wtTag = Fin 0, wtType = Fin 0\<rparr>, rqLexicalWeight = Fin 0, rqWithSuperseded = False, rqCandidates = 0\<rparr>"

definition findSession :: "'n server \<Rightarrow> string \<Rightarrow> string \<Rightarrow> ('n vault, recid \<times> string) run" where
  "findSession sv uri topic =
    (if uri \<noteq> [] then prun (slift (rbind (addressOf uri FormSession) (\<lambda>i. Inr (i, ''by address''))))
     else if topic \<noteq> [] then
       pbind (Vault_Recall (svVault sv) (svFTS sv) (topic_request topic)) (\<lambda>r. prun (slift
         (case reHits r of
            [] \<Rightarrow> fail [] (''this vault holds no conversation to resume. ''
              @ ''Conversations are stored with `save_session`; `browse` lists what is there'')
          | h # _ \<Rightarrow> Inr (Found_ID (htFound h),
              ''the closest match for '' @ svQuote sv topic @ '', at similarity '' @ svFixed sv 3 (htSimilarity h)))))
     else pbind (prun (sget (\<lambda>s. ListSessions (vnText (svVault sv)) (vaRanking s) (vaHeads s) latest_query))) (\<lambda>recent. prun (slift
         (case recent of
            [] \<Rightarrow> fail [] (''this vault holds no conversations yet. '' @ ''They are stored with `save_session`'')
          | r # _ \<Rightarrow> Inr (srID r, ''the most recent conversation'')))))"

section \<open>Turns as text\<close>

definition right_arrow :: string where "right_arrow = [CHR 0xE2, CHR 0x86, CHR 0x92]"
definition left_arrow :: string where "left_arrow = [CHR 0xE2, CHR 0x86, CHR 0x90]"

function renderPart :: "part \<Rightarrow> string" and renderParts :: "part list \<Rightarrow> string" where
  "renderPart p =
    (if pType p = PartText then pText p @ newline
     else if pType p = PartReasoning then (if pText p \<noteq> [] then ''(thinking) '' @ pText p @ newline else [])
     else if pType p = PartToolCall then right_arrow @ '' called '' @ pName p @ ''('' @ pInput p @ '')'' @ newline
     else if pType p = PartToolResult then
       left_arrow @ '' returned '' @ (if pIsError p then ''an error: '' else []) @ renderParts (pContent p) @ newline
     else if pType p = PartFile then ''['' @ pMediaType p @ '' attachment '' @ pFilename p @ '']'' @ newline
     else if pType p = PartResourceLink then ''[see '' @ pURI p @ '']'' @ newline
     else ''[a '' @ pType p @ '' part this build does not render]'' @ newline)"
| "renderParts [] = []"
| "renderParts (p # ps) = renderPart p @ renderParts ps"
  by pat_completeness auto
termination
  by (relation "measure (case_sum size (size_list size))") (auto simp: size_pContent)

declare renderPart.simps [simp del]

definition renderTurn :: "message \<Rightarrow> string" where
  "renderTurn m = ''### '' @ msgRole m @ newline @ renderParts (msgParts m) @ newline"

definition renderTranscript :: "message list \<Rightarrow> string" where
  "renderTranscript ms = ''## The conversation so far'' @ newline @ newline @ concat (map renderTurn ms)"

text \<open>What was left out is said first, and where it is.\<close>

definition framing_extent :: "recid \<Rightarrow> nat \<Rightarrow> nat \<Rightarrow> string" where
  "framing_extent i shown skipped =
    (if 0 < skipped then warning_sign @ '' You are being given the LAST '' @ Itoa (int shown) @ '' turn(s). The ''
       @ Itoa (int skipped) @ '' before them are stored '' @ ''and are NOT below. The summary above covers the whole conversation; the turns do not. ''
       @ ''If the answer to something might be in the earlier part, read it with `open` on '' @ TranscriptURI i
       @ '' rather than assuming what you have is everything.'' @ newline @ newline
     else ''All '' @ Itoa (int shown) @ '' turn(s) are below. The full record is at '' @ TranscriptURI i @ ''.'' @ newline @ newline)"

definition framing_run :: "subagent \<Rightarrow> string" where
  "framing_run a = ''  - '' @ sbTitle a @ '' ('' @ Itoa (sbMessages a) @ '' turn(s)): '' @ URI KindSession (sbID a) @ newline"

definition resumeFraming :: "'n server \<Rightarrow> loaded \<Rightarrow> message list \<Rightarrow> nat \<Rightarrow> string \<Rightarrow> string" where
  "resumeFraming sv l replayed skipped how = (let h = ldSession l in
     ''Resume this conversation from the user's own Mnemosia vault.'' @ newline
     @ ''It was chosen as '' @ how @ ''.'' @ newline @ newline
     @ ''# '' @ sTitle h @ newline @ newline
     @ (if sSummary h \<noteq> [] then sSummary h @ newline @ newline else [])
     @ ''It ran from '' @ tx_of sv (sCreated h) @ '' to '' @ tx_of sv (sUpdated h) @ '' across '' @ Itoa (cnMessages (sCounts h)) @ '' turn(s)''
     @ (if agName (sAgent h) \<noteq> [] then '' in '' @ agName (sAgent h) else [])
     @ (if sModels h \<noteq> [] then '', with '' @ join_with '' and '' (sModels h) else [])
     @ ''.'' @ newline @ newline
     @ framing_extent (sID h) (length replayed) skipped
     @ (if sMemories h \<noteq> [] then Itoa (int (length (sMemories h))) @ '' memory record(s) drawn from this conversation follow the summary. ''
          @ ''They are what the assistant knew, as distinct from what it said.'' @ newline @ newline else [])
     @ (if ldSubagents l \<noteq> [] then ''Work this conversation delegated, stored separately:'' @ newline
          @ concat (map framing_run (ldSubagents l)) @ newline else [])
     @ ''Continue from where it left off. Append new turns with `save_session` and '' @ ''the address '' @ URI KindSession (sID h)
     @ '', sending only the new ones.'' @ newline)"

section \<open>The prompt\<close>

text \<open>Every message of the answer is the user's.\<close>

datatype prompt_content = PromptText string | PromptResource resource_contents

record prompt_result =
  pmDescription :: string
  pmMessages :: "prompt_content list"

definition embedded :: "resolution \<Rightarrow> prompt_content" where
  "embedded r = PromptResource \<lparr>rsURI = adURI (rlAddress r), rsMIMEType = rlMIMEType r, rsText = rlBody r\<rparr>"

text \<open>A memory that does not resolve is left out.\<close>

fun embed_memories :: "'n server \<Rightarrow> recid list \<Rightarrow> ('n vault, prompt_content list) run" where
  "embed_memories sv [] = prun (sret [])"
| "embed_memories sv (i # is) = (\<lambda>s. case Resolve sv (URI KindMemory i) plain_options s of
     None \<Rightarrow> None
   | Some (Inl e, t) \<Rightarrow> embed_memories sv is t
   | Some (Inr r, t) \<Rightarrow> pbind (embed_memories sv is) (\<lambda>ps. prun (sret (embedded r # ps))) t)"

definition resume_turns :: "'n server \<Rightarrow> string \<Rightarrow> int res" where
  "resume_turns sv raw = (let refused = fail [] (''turns must be a positive whole number, not '' @ svQuote sv raw) in
     if raw = [] then Inr ResumeTurns
     else case Atoi raw of None \<Rightarrow> refused | Some n \<Rightarrow> if n \<le> 0 then refused else Inr n)"

definition resume_description :: "'n server \<Rightarrow> loaded \<Rightarrow> message list \<Rightarrow> string \<Rightarrow> string" where
  "resume_description sv l replayed how = ''Resuming '' @ svQuote sv (sTitle (ldSession l)) @ '', '' @ Itoa (int (length replayed))
     @ '' of '' @ Itoa (cnMessages (sCounts (ldSession l))) @ '' turn(s), '' @ how"

definition resume :: "'n server \<Rightarrow> resume_args \<Rightarrow> ('n vault, prompt_result) run" where
  "resume sv args =
    pbind (prun (slift (rbind (Server_ready sv) (\<lambda>_. resume_turns sv (rgTurns args))))) (\<lambda>turns.
    pbind (findSession sv (rgSession args) (rgTopic args)) (\<lambda>(i, how).
    pbind (or_missing (URI KindSession i) (LoadSession (svVault sv) (whole_transcript i))) (\<lambda>l.
    let skipped = length (ldMessages l) - nat turns;
        replayed = drop skipped (ldMessages l) in
    pbind (Resolve sv (URI KindSession i) plain_options) (\<lambda>head.
    pbind (embed_memories sv (sMemories (ldSession l))) (\<lambda>memories.
      prun (sret \<lparr>pmDescription = resume_description sv l replayed how,
        pmMessages = PromptText (resumeFraming sv l replayed skipped how) # embedded head # memories
          @ [PromptText (renderTranscript replayed)]\<rparr>))))))"

section \<open>What was saved is what is resumed\<close>

lemma LoadSession_is_of:
  assumes "LoadSession ve q s = Some (Inr l, t)" and "stored_head ve (vaHeads s) (lqID q) = Some h"
  shows "ldSession l = h"
proof -
  obtain s1 where "Vault_Session ve (lqID q) s = (Inr h, s1)" using Vault_Session_stored [OF assms(2)] by blast
  then show ?thesis using assms(1) by (auto simp: LoadSession_def pbind_Inr_iff prun_def sret_def sget_def)
qed

lemma LoadSession_whole:
  assumes head: "stored_head ve (vaHeads s) i = Some h"
    and held: "held_transcript ve (vaBodies s) (sChunks h) = Some ms"
    and children: "children_held ve (vaHeads s) (lnChildren (sLineage h))"
  shows "\<exists>l t. LoadSession ve (whole_transcript i) s = Some (Inr l, t) \<and> ldSession l = h \<and> ldMessages l = ms \<and> reads_only s t"
proof -
  let ?q = "whole_transcript i"
  have q: "lqID ?q = i" "lqTranscript ?q" "\<not> lqIncludeSubagents ?q" "lqFrom ?q = []" "lqLimit ?q = 0"
    by (simp_all add: whole_transcript_def)
  have "\<exists>t. transcript ve h ?q s1 = Some (Inr (ms, False, []), t) \<and> reads_only s1 t" if "reads_only s s1" for s1
    using walk_chunks_whole [of ve s1 "sChunks h" ms "[]"] held that by (simp add: transcript_def q startChunk_def reads_only_def)
  note page = this
  have head': "stored_head ve (vaHeads s) (lqID ?q) = Some h" by (simp add: q(1) head)
  obtain l t where "LoadSession ve ?q s = Some (Inr l, t)" "ldMessages l = ms" "reads_only s t"
    using LoadSession_transcript [OF head' children q(2,3) page] by auto
  then show ?thesis using LoadSession_is_of [OF _ head'] by blast
qed

lemma head_opens:
  assumes "svOpened sv" and head: "stored_head (svVault sv) (vaHeads s) i = Some h"
    and children: "children_held (svVault sv) (vaHeads s) (lnChildren (sLineage h))"
  shows "\<exists>r t. Resolve sv (URI KindSession i) plain_options s = Some (Inr r, t) \<and> reads_only s t"
proof -
  let ?q = "head_request i False" and ?ve = "svVault sv"
  obtain s1 where s1: "Vault_Session ?ve i s = (Inr h, s1)" "reads_only s s1" using Vault_Session_stored [OF head] by blast
  have "children_held ?ve (vaHeads s1) (lnChildren (sLineage h))" using children s1(2) by (simp add: reads_only_def)
  then obtain xs t where x: "load_subagents ?ve ?q (lnChildren (sLineage h)) s1 = Some (Inr xs, t)" "reads_only s1 t"
    using load_subagents_named [of ?ve s1 "lnChildren (sLineage h)" ?q] by (auto simp: head_request_def)
  have "\<exists>l. LoadSession ?ve ?q s = Some (Inr l, t)"
    using s1 x by (simp add: LoadSession_def pbind_def prun_def sret_def sget_def head_request_def)
  then obtain l where "or_missing uri (LoadSession ?ve ?q) s = Some (Inr l, t)" for uri by (auto simp: or_missing_def)
  moreover have "reads_only s t" using s1(2) x(2) reads_only_trans by blast
  moreover have p: "Parse (URI KindSession i) = Inr \<lparr>adForm = FormSession, adURI = URI KindSession i, adID = i\<rparr>" by simp
  ultimately show ?thesis
    using assms(1) unfolding Resolve_def p
    by (simp add: pbind_def prun_def slift_def resolve_def Server_ready_def form_defs resolveSession_def plain_options_def sret_def Let_def)
qed

text \<open>A memory this device holds.\<close>

definition memory_held :: "'n venv \<Rightarrow> 'n vault \<Rightarrow> recid \<Rightarrow> bool" where
  "memory_held ve s i \<longleftrightarrow> row_of (vaHeads s) i = None
     \<and> (\<exists>body m. GetRecord (vaBodies s) i = Inr (KindMemory, body) \<and> vnUnmarshal ve body = Inr m)"

definition embeds :: "string \<Rightarrow> prompt_content \<Rightarrow> bool" where
  "embeds uri p \<longleftrightarrow> (\<exists>c. p = PromptResource c \<and> rsURI c = uri)"

lemma embed_memories_held:
  assumes "svOpened sv" and "\<forall>i \<in> set is. memory_held (svVault sv) s i"
  shows "\<exists>ps t. embed_memories sv is s = Some (Inr ps, t) \<and> list_all2 (\<lambda>i. embeds (URI KindMemory i)) is ps"
  using assms(2)
proof (induction "is" arbitrary: s)
  case Nil
  then show ?case by (simp add: prun_def sret_def)
next
  case (Cons i "is")
  obtain body m where m: "row_of (vaHeads s) i = None" "GetRecord (vaBodies s) i = Inr (KindMemory, body)"
    "vnUnmarshal (svVault sv) body = Inr m" using Cons.prems by (auto simp: memory_held_def)
  obtain r t where r: "Resolve sv (URI KindMemory i) plain_options s = Some (Inr r, t)" "adURI (rlAddress r) = URI KindMemory i"
    "reads_only s t" using Resolve_memory_held [OF assms(1) m] by blast
  have "\<forall>j \<in> set is. memory_held (svVault sv) t j" using Cons.prems r(3) by (simp add: memory_held_def reads_only_def)
  from Cons.IH [OF this] r(1,2) show ?case by (auto simp: pbind_def prun_def sret_def embedded_def embeds_def)
qed

section \<open>What the texts say\<close>

text \<open>The framing names the conversation, how many turns are shown and how many are not, where all of them are, how many memories
  follow, and every run the conversation delegated.\<close>

definition framing_tells :: "loaded \<Rightarrow> nat \<Rightarrow> nat \<Rightarrow> string \<Rightarrow> bool" where
  "framing_tells l shown skipped t \<longleftrightarrow> (let h = ldSession l in
     sublist (''# '' @ sTitle h @ newline) t \<and> sublist (sSummary h) t \<and> sublist (URI KindSession (sID h)) t \<and> sublist (TranscriptURI (sID h)) t
     \<and> sublist (if 0 < skipped then '' You are being given the LAST '' @ Itoa (int shown) @ '' turn(s). The '' @ Itoa (int skipped)
             @ '' before them are stored and are NOT below.''
           else ''All '' @ Itoa (int shown) @ '' turn(s) are below.'') t
     \<and> (sMemories h \<noteq> [] \<longrightarrow> sublist (Itoa (int (length (sMemories h))) @ '' memory record(s) drawn from this conversation follow'') t)
     \<and> (\<forall>a \<in> set (ldSubagents l). sublist (sbTitle a @ '' ('' @ Itoa (sbMessages a) @ '' turn(s)): '' @ URI KindSession (sbID a)) t))"

text \<open>A transcript reads as its messages: one turn each, in order, under its role, each part in its place and a text as it is.\<close>

definition turn_reads :: "message \<Rightarrow> string \<Rightarrow> bool" where
  "turn_reads m t \<longleftrightarrow> (\<exists>parts. t = ''### '' @ msgRole m @ newline @ concat parts @ newline
     \<and> list_all2 (\<lambda>p x. pType p = PartText \<longrightarrow> x = pText p @ newline) (msgParts m) parts)"

definition transcript_reads :: "message list \<Rightarrow> string \<Rightarrow> bool" where
  "transcript_reads ms t \<longleftrightarrow> (\<exists>turns. t = ''## The conversation so far'' @ newline @ newline @ concat turns \<and> list_all2 turn_reads ms turns)"

lemma renderTranscript_reads: "transcript_reads ms (renderTranscript ms)"
proof -
  have parts: "renderParts ps = concat (map renderPart ps)" for ps by (induction ps) simp_all
  have "list_all2 (\<lambda>p x. pType p = PartText \<longrightarrow> x = pText p @ newline) ps (map renderPart ps)" for ps
    by (simp add: list_all2_conv_all_nth renderPart.simps)
  then have "turn_reads m (renderTurn m)" for m
    unfolding turn_reads_def renderTurn_def parts by blast
  then have "list_all2 turn_reads ms (map renderTurn ms)" by (simp add: list_all2_conv_all_nth)
  then show ?thesis unfolding transcript_reads_def renderTranscript_def by blast
qed

lemma inside_here: "sublist x (x @ t)" "sublist x x"
  by (auto simp: sublist_def)

lemma inside_after: "sublist x t \<Longrightarrow> sublist x (s @ t)"
  unfolding sublist_def by (metis append_assoc)

lemma inside_before: "sublist x s \<Longrightarrow> sublist x (s @ t)"
  unfolding sublist_def by (metis append_assoc)

lemma inside_concat: "y \<in> set ys \<Longrightarrow> sublist x y \<Longrightarrow> sublist x (concat ys)"
  by (induction ys) (auto intro: inside_after inside_before)

lemma inside_start: "prefix x t \<Longrightarrow> sublist x t"
  by (auto simp: prefix_def sublist_def intro: exI [of _ "[]"])

lemma resumeFraming_tells: "framing_tells l (length replayed) skipped (resumeFraming sv l replayed skipped how)"
proof -
  define h where "h = ldSession l"
  define first_line where "first_line = ''Resume this conversation from the user's own Mnemosia vault.'' @ newline @ ''It was chosen as '' @ how @ ''.'' @ newline @ newline"
  define title where "title = ''# '' @ sTitle h @ newline @ newline"
  define summary where "summary = (if sSummary h \<noteq> [] then sSummary h @ newline @ newline else [])"
  define ran where "ran = ''It ran from '' @ tx_of sv (sCreated h) @ '' to '' @ tx_of sv (sUpdated h) @ '' across '' @ Itoa (cnMessages (sCounts h)) @ '' turn(s)''
     @ (if agName (sAgent h) \<noteq> [] then '' in '' @ agName (sAgent h) else [])
     @ (if sModels h \<noteq> [] then '', with '' @ join_with '' and '' (sModels h) else []) @ ''.'' @ newline @ newline"
  define extent where "extent = framing_extent (sID h) (length replayed) skipped"
  define memories where "memories = (if sMemories h \<noteq> [] then Itoa (int (length (sMemories h))) @ '' memory record(s) drawn from this conversation follow the summary. ''
          @ ''They are what the assistant knew, as distinct from what it said.'' @ newline @ newline else [])"
  define runs where "runs = (if ldSubagents l \<noteq> [] then ''Work this conversation delegated, stored separately:'' @ newline
          @ concat (map framing_run (ldSubagents l)) @ newline else [])"
  define last_line where "last_line = ''Continue from where it left off. Append new turns with `save_session` and '' @ ''the address '' @ URI KindSession (sID h)
     @ '', sending only the new ones.'' @ newline"
  have t: "resumeFraming sv l replayed skipped how = concat [first_line, title, summary, ran, extent, memories, runs, last_line]"
    unfolding resumeFraming_def Let_def first_line_def title_def summary_def ran_def extent_def memories_def runs_def last_line_def h_def
    by (simp only: concat.simps append_assoc append_Nil2)
  note piece = inside_concat [of _ "[first_line, title, summary, ran, extent, memories, runs, last_line]"]
  have 1: "sublist (''# '' @ sTitle h @ newline) title"
    unfolding title_def by (rule inside_start) (simp add: prefix_def)
  have 2: "sublist (sSummary h) summary" by (simp add: summary_def inside_here)
  have 3: "sublist (URI KindSession (sID h)) last_line"
    unfolding last_line_def by (rule inside_after, rule inside_after, rule inside_here)
  have 4: "sublist (TranscriptURI (sID h)) extent"
  proof (cases "0 < skipped")
    case True
    show ?thesis unfolding extent_def framing_extent_def if_P [OF True]
      by (rule inside_after, rule inside_after, rule inside_after, rule inside_after, rule inside_after, rule inside_after, rule inside_after,
        rule inside_after, rule inside_here)
  next
    case False
    show ?thesis unfolding extent_def framing_extent_def if_not_P [OF False]
      by (rule inside_after, rule inside_after, rule inside_after, rule inside_here)
  qed
  have 5: "sublist (if 0 < skipped then '' You are being given the LAST '' @ Itoa (int (length replayed)) @ '' turn(s). The '' @ Itoa (int skipped)
             @ '' before them are stored and are NOT below.''
           else ''All '' @ Itoa (int (length replayed)) @ '' turn(s) are below.'') extent"
  proof (cases "0 < skipped")
    case True
    show ?thesis unfolding extent_def framing_extent_def if_P [OF True]
      by (rule inside_after, rule inside_start) (simp add: prefix_def)
  next
    case False
    show ?thesis unfolding extent_def framing_extent_def if_not_P [OF False]
      by (rule inside_start) (simp add: prefix_def)
  qed
  have 6: "sublist (Itoa (int (length (sMemories h))) @ '' memory record(s) drawn from this conversation follow'') memories" if "sMemories h \<noteq> []"
    unfolding memories_def using that by (simp add: inside_start prefix_def)
  have 7: "sublist (sbTitle a @ '' ('' @ Itoa (sbMessages a) @ '' turn(s)): '' @ URI KindSession (sbID a)) runs" if a: "a \<in> set (ldSubagents l)" for a
  proof -
    have "sublist (sbTitle a @ '' ('' @ Itoa (sbMessages a) @ '' turn(s)): '' @ URI KindSession (sbID a)) (framing_run a)"
      unfolding framing_run_def by (rule inside_after, rule inside_start) (simp add: prefix_def)
    then have "sublist (sbTitle a @ '' ('' @ Itoa (sbMessages a) @ '' turn(s)): '' @ URI KindSession (sbID a)) (concat (map framing_run (ldSubagents l)))"
      by (rule inside_concat [rotated]) (use a in simp)
    moreover have "ldSubagents l \<noteq> []" using a by auto
    ultimately show ?thesis unfolding runs_def if_P [OF \<open>ldSubagents l \<noteq> []\<close>]
      by (intro inside_after [of _ _ "''Work this conversation delegated, stored separately:''"] inside_after [of _ _ newline] inside_before)
  qed
  show ?thesis
    unfolding framing_tells_def Let_def t h_def [symmetric]
    by (intro conjI ballI impI; rule piece; (rule 1 2 3 4 5 6 7)?; simp)
qed

text \<open>C39. What one agent saves another brings back.  After a conversation was saved, or the next part of one, \<open>/resume\<close> with the
  address the tool answered with hands over the last turns of the whole transcript, as many as were asked for: a text that reads as
  exactly these messages, one turn each, in order, under its role, with every text part as it was written.  The framing before it names
  the conversation, says how many turns are shown and how many before them are not, where the whole is, and how many memories follow;
  the head is embedded as \<open>resources/read\<close> answers it, and every memory linked to the conversation under its own address.  The
  memories and delegated runs the head names must be on the device.\<close>

theorem saved_conversation_resumes:
  assumes "saveSession_tool sv q s = Some (Inr (content, out), t)" and "session_arguments sv q = Inr req"
    and "chunk_codec (svVault sv) (siMessages q)" and "session_codec (svVault sv)" and "fresh_ids (svVault sv) s (vaDrawn t)"
    and "heads_keyed (svVault sv) (vaHeads s)" and "transcript_before (svVault sv) s (sqID req) old"
    and held: "\<And>i h. stored_head (svVault sv) (vaHeads t) i = Some h \<Longrightarrow> TranscriptURI i = soTranscript out \<Longrightarrow>
      children_held (svVault sv) (vaHeads t) (lnChildren (sLineage h)) \<and> (\<forall>j \<in> set (sMemories h). memory_held (svVault sv) t j)"
    and "resume_turns sv turns = Inr n" and "ms = old @ siMessages q" and "skipped = length ms - nat n"
  shows "\<exists>l framing head memories rendering d u. resume sv \<lparr>rgSession = soURI out, rgTopic = topic, rgTurns = turns\<rparr> t = Some (Inr
       \<lparr>pmDescription = d, pmMessages = PromptText framing # PromptResource head # memories @ [PromptText rendering]\<rparr>, u)
     \<and> framing_tells l (length ms - skipped) skipped framing \<and> transcript_reads (drop skipped ms) rendering
     \<and> (\<exists>i. soURI out = URI KindSession i \<and> stored_head (svVault sv) (vaHeads t) i = Some (ldSession l)) \<and> ldMessages l = ms
     \<and> (\<exists>t1 t2. reads_only t t1 \<and> readResource sv (soURI out) t1 = Some (Inr head, t2))
     \<and> list_all2 (\<lambda>i. embeds (URI KindMemory i)) (sMemories (ldSession l)) memories"
proof -
  let ?ve = "svVault sv"
  have req: "sqMessages req = siMessages q" "svOpened sv"
    using assms(2) by (auto simp: session_arguments_def rbind_Inr_iff Server_ready_def split: if_splits option.splits)
  obtain r where r: "SaveSession ?ve req s = Some (Inr r, t)" and out: "out = session_answer r"
    using saveSession_tool_Inr [OF assms(1,2)] by blast
  have o: "soTranscript out = TranscriptURI (svID r)" "soURI out = URI KindSession (svID r)" by (simp_all add: out session_answer_def)
  obtain h where h: "stored_head ?ve (vaHeads t) (svID r) = Some h" "held_transcript ?ve (vaBodies t) (sChunks h) = Some ms"
    using conjunct1 [OF SaveSession_Inr [OF r _ assms(4-7)]] assms(3) unfolding req(1) assms(10) by blast
  note H = held [OF h(1) o(1) [symmetric]]
  obtain l t1 where l: "LoadSession ?ve (whole_transcript (svID r)) t = Some (Inr l, t1)" "ldSession l = h" "ldMessages l = ms" "reads_only t t1"
    using LoadSession_whole [OF h conjunct1 [OF H]] by blast
  have h1: "stored_head ?ve (vaHeads t1) (svID r) = Some h" "children_held ?ve (vaHeads t1) (lnChildren (sLineage h))"
    using h(1) H l(4) by (simp_all add: reads_only_def)
  obtain a t2 where a: "Resolve sv (URI KindSession (svID r)) plain_options t1 = Some (Inr a, t2)" "reads_only t1 t2"
    using head_opens [OF req(2) h1] by blast
  have "\<forall>j \<in> set (sMemories h). memory_held ?ve t2 j" using H l(4) a(2) by (simp add: memory_held_def reads_only_def)
  from embed_memories_held [OF req(2) this]
  obtain ps u where ps: "embed_memories sv (sMemories h) t2 = Some (Inr ps, u)" "list_all2 (\<lambda>i. embeds (URI KindMemory i)) (sMemories h) ps"
    by blast
  let ?head = "\<lparr>rsURI = adURI (rlAddress a), rsMIMEType = rlMIMEType a, rsText = rlBody a\<rparr>"
  have rd: "readResource sv (soURI out) t1 = Some (Inr ?head, t2)"
    using a(1) by (simp add: readResource_def o(2) pbind_def prun_def sret_def)
  have ne: "soURI out \<noteq> []" by (simp add: o(2) URI_def Scheme_def)
  have "addressOf (URI KindSession (svID r)) FormSession = Inr (svID r)" by (simp add: addressOf_def)
  then have f: "findSession sv (soURI out) topic w = Some (Inr (svID r, ''by address''), w)" for w
    using ne by (simp add: findSession_def o(2) prun_def slift_def)
  have m: "or_missing uri (LoadSession ?ve (whole_transcript (svID r))) t = Some (Inr l, t1)" for uri
    using l(1) by (simp add: or_missing_def)
  have "\<exists>d. resume sv \<lparr>rgSession = soURI out, rgTopic = topic, rgTurns = turns\<rparr> t = Some (Inr
       \<lparr>pmDescription = d, pmMessages = PromptText (resumeFraming sv l (drop skipped ms) skipped ''by address'')
          # PromptResource ?head # ps @ [PromptText (renderTranscript (drop skipped ms))]\<rparr>, u)"
    by (simp add: resume_def pbind_def prun_def slift_def sret_def Server_ready_def req(2) assms(9) f m a(1) ps(1) l(2,3) Let_def
        embedded_def assms(11))
  moreover have "framing_tells l (length ms - skipped) skipped (resumeFraming sv l (drop skipped ms) skipped ''by address'')"
    using resumeFraming_tells [of l "drop skipped ms"] by simp
  moreover have "transcript_reads (drop skipped ms) (renderTranscript (drop skipped ms))" by (rule renderTranscript_reads)
  ultimately show ?thesis using rd h(1) o(2) ps(2) unfolding l(2) [symmetric] using l(3,4) by blast
qed

text \<open>A conversation of two turns, of which one is asked for.\<close>

theorem saved_conversation_resumes_witness:
  "\<exists>content out t l framing head rendering d u. saveSession_tool (demo_server hello_venv) session_note demo_vault = Some (Inr (content, out), t)
     \<and> resume (demo_server hello_venv) \<lparr>rgSession = soURI out, rgTopic = [], rgTurns = ''1''\<rparr> t = Some (Inr \<lparr>pmDescription = d,
         pmMessages = [PromptText framing, PromptResource head, PromptText rendering]\<rparr>, u)
     \<and> framing_tells l 1 1 framing \<and> transcript_reads [hello_again] rendering"
proof -
  let ?sv = "demo_server hello_venv"
  obtain r t where t: "SaveSession hello_venv hello_request demo_vault = Some (Inr r, t)" "vaDrawn t = 3"
    using hello_run by blast
  then obtain content out where tool: "saveSession_tool ?sv session_note demo_vault = Some (Inr (content, out), t)"
    by (simp add: saveSession_tool_def pbind_def prun_def slift_def session_note_arguments sret_def Let_def)
  have d: "drawn_id hello_venv n = Some (demo_id n)" for n by (simp add: drawn_id_def hello_sel demo_id_def)
  have f: "fresh_ids hello_venv demo_vault (vaDrawn t)"
    unfolding t(2) fresh_ids_def d by (auto simp: demo_vault_def demo_id_def ID_of_bytes_inject less_Suc_eq numeral_3_eq_3)
  have k: "heads_keyed hello_venv (vaHeads demo_vault)" "transcript_before hello_venv demo_vault (sqID hello_request) []"
    by (simp_all add: heads_keyed_def stored_head_def demo_vault_def GetSessionHead_def transcript_before_def hello_request_def ID_IsZero_def)
  have m: "sMemories hello_saved = []"
    by (simp add: hello_saved_def applyHeadUpdates_def hello_request_def add_chunk_def hello_head_def new_session_def)
  have e: "lnChildren (sLineage h) = [] \<and> sMemories h = []" if "stored_head hello_venv hs i = Some h" for hs i h
    using that m hello_saved_sel(5) by (auto simp: stored_head_def hello_venv_def hello_request_def split: sum.splits)
  then have c: "children_held hello_venv hs (lnChildren (sLineage h)) \<and> (\<forall>j \<in> set (sMemories h). memory_held hello_venv s j)"
    if "stored_head hello_venv hs i = Some h" for hs i h s using that by (simp add: children_held_def)
  have "Atoi ''1'' = Some 1" by code_simp
  then have n: "resume_turns ?sv ''1'' = Inr 1" by (simp add: resume_turns_def Let_def)
  have w: "hellos = [] @ siMessages session_note" "1 = length hellos - nat 1" by (simp_all add: session_note_def)
  have "\<exists>l framing head memories rendering d u. resume ?sv \<lparr>rgSession = soURI out, rgTopic = [], rgTurns = ''1''\<rparr> t = Some (Inr
       \<lparr>pmDescription = d, pmMessages = PromptText framing # PromptResource head # memories @ [PromptText rendering]\<rparr>, u)
     \<and> framing_tells l (length hellos - 1) 1 framing \<and> transcript_reads (drop 1 hellos) rendering
     \<and> (\<exists>i. soURI out = URI KindSession i \<and> stored_head (svVault ?sv) (vaHeads t) i = Some (ldSession l)) \<and> ldMessages l = hellos
     \<and> (\<exists>t1 t2. reads_only t t1 \<and> readResource ?sv (soURI out) t1 = Some (Inr head, t2))
     \<and> list_all2 (\<lambda>i. embeds (URI KindMemory i)) (sMemories (ldSession l)) memories"
    by (rule saved_conversation_resumes [of ?sv, OF tool session_note_arguments _ _ _ _ _ _ n w])
      (unfold demo_server_sel, (use hello_codec f k c in blast)+)
  then obtain l framing head memories rendering d u i where r: "stored_head hello_venv (vaHeads t) i = Some (ldSession l)"
    "list_all2 (\<lambda>i. embeds (URI KindMemory i)) (sMemories (ldSession l)) memories"
    "resume ?sv \<lparr>rgSession = soURI out, rgTopic = [], rgTurns = ''1''\<rparr> t = Some (Inr
       \<lparr>pmDescription = d, pmMessages = PromptText framing # PromptResource head # memories @ [PromptText rendering]\<rparr>, u)"
    and tells: "framing_tells l (length hellos - 1) 1 framing" "transcript_reads (drop 1 hellos) rendering"
    by (auto simp only: demo_server_sel)
  have "memories = []" using r(2) e [OF r(1)] by simp
  moreover have "framing_tells l 1 1 framing" "transcript_reads [hello_again] rendering" using tells by simp_all
  ultimately show ?thesis using r(3) tool by auto
qed

end
