(* ===== verification/Keys.thy ===== *)
theory Keys
  imports LocalStore
begin

text \<open>
  Package \<open>keys\<close>: the recovery phrase and where it is read from (\<open>seed.go\<close>, \<open>phrase_source.go\<close>), the keys derived from it
  (\<open>derive.go\<close>), and the app key (\<open>appkey.go\<close>).

  HKDF and BIP-39 are cryptography of other modules: \<open>klHKDF seed label n\<close> and \<open>klBIP39 phrase\<close>.  \<open>klEnv\<close> is the environment of the
  process.  A seed that is wiped is one no later step is given.
\<close>

record key_lib =
  klEnv :: "string \<Rightarrow> string"
  klHKDF :: "byte list \<Rightarrow> string \<Rightarrow> nat \<Rightarrow> byte list res"
  klBIP39 :: "string \<Rightarrow> byte list res"

section \<open>The app key\<close>

definition AppKeyEnv :: string where "AppKeyEnv = ''MNEMOSIA_APP_KEY''"
definition PrivateKeySize :: nat where "PrivateKeySize = 64"

type_synonym appkey = "byte list"

definition AppKey_Check :: "appkey \<Rightarrow> unit res" where
  "AppKey_Check k =
    (if k = [] then fail [ErrNoAppKey] (AppKeyEnv @ '' is not set'')
     else if length k \<noteq> PrivateKeySize then
       fail [ErrAppKeyLength] (''app key is the wrong length: got '' @ Itoa (int (length k)) @ '', expected '' @ Itoa (int PrivateKeySize) @ '' bytes'')
     else Inr ())"

definition AppKeyFromEnv :: "key_lib \<Rightarrow> appkey res" where
  "AppKeyFromEnv kl = (let raw = trim_space (klEnv kl AppKeyEnv) in
     if raw = [] then fail [ErrNoAppKey] (AppKeyEnv @ '' is not set'')
     else case hex_decode raw of
       None \<Rightarrow> fail [] (''decode '' @ AppKeyEnv)
     | Some k \<Rightarrow> rbind (AppKey_Check k) (\<lambda>_. Inr k))"

definition Fingerprint :: "appkey \<Rightarrow> string" where
  "Fingerprint k = (if length k < 4 then ''invalid'' else hex_encode (take 4 k))"

definition MissingAppKey :: "goerr \<Rightarrow> bool" where "MissingAppKey e = errors_Is e ErrNoAppKey"
definition WrongAppKeyLength :: "goerr \<Rightarrow> bool" where "WrongAppKeyLength e = errors_Is e ErrAppKeyLength"

section \<open>The recovery phrase\<close>

definition SeedSize :: nat where "SeedSize = 32"

definition SeedFromPhrase :: "key_lib \<Rightarrow> string \<Rightarrow> byte list res" where
  "SeedFromPhrase kl phrase = (let p = join_with '' '' (string_fields phrase) in
     if p = [] then fail [ErrPhrase] ''recovery phrase: empty''
     else case klBIP39 kl p of
       Inl e \<Rightarrow> Inl (GoErr (ErrPhrase # wraps e) (''recovery phrase: '' @ why e))
     | Inr seed \<Rightarrow> Inr seed)"

definition PhraseEnv :: string where "PhraseEnv = ''MNEMOSIA_PHRASE''"

text \<open>
  Standard input: whether it is a terminal, what can be read from it, and the error that ends it in place of the end of the file.
\<close>

record stdin =
  inTerminal :: bool
  inData :: string
  inFails :: "goerr option"

text \<open>
  The first \<open>Scan\<close> of a \<open>bufio.Scanner\<close>, whose buffer holds 64 KiB: a line, the end, or an error.  What was read before an error is
  still a line.
\<close>

definition scan_first :: "stdin \<Rightarrow> string option res" where
  "scan_first i = (let line = takeWhile (\<lambda>c. c \<noteq> CHR 0x0A) (inData i) in
     if 65536 \<le> length line then fail [] ''bufio.Scanner: token too long''
     else if inData i \<noteq> [] then Inr (Some (if line \<noteq> [] \<and> last line = CHR 0x0D then butlast line else line))
     else case inFails i of Some e \<Rightarrow> Inl e | None \<Rightarrow> Inr None)"

definition no_phrase :: "'a res" where
  "no_phrase = fail [ErrNoPhrase] (''no recovery phrase: set '' @ PhraseEnv @ '' or pipe it on stdin'')"

definition ReadPhrase :: "key_lib \<Rightarrow> stdin option \<Rightarrow> string res" where
  "ReadPhrase kl input = (let phrase = trim_space (klEnv kl PhraseEnv) in
     if phrase \<noteq> [] then Inr phrase
     else case input of None \<Rightarrow> no_phrase
     | Some i \<Rightarrow> if inTerminal i then no_phrase
         else case scan_first i of
           Inl e \<Rightarrow> Inl (wrap_err ''read recovery phrase: '' e)
         | Inr None \<Rightarrow> no_phrase
         | Inr (Some line) \<Rightarrow> if trim_space line = [] then no_phrase else Inr (trim_space line))"

section \<open>The key hierarchy\<close>

definition KeySize :: nat where "KeySize = 32"
definition labelRecord :: string where "labelRecord = ''mnemosia/v1/record-aead''"
definition labelContent :: string where "labelContent = ''mnemosia/v1/content-address''"
definition labelManifest :: string where "labelManifest = ''mnemosia/v1/manifest-aead''"
definition labelCheck :: string where "labelCheck = ''mnemosia/v1/phrase-check''"

record hierarchy =
  hiRecord :: "byte list"
  hiContent :: "byte list"
  hiManifest :: "byte list"
  hiCheck :: "byte list"

text \<open>A derived key is copied into an array of fixed size.\<close>

definition derive_key :: "key_lib \<Rightarrow> byte list \<Rightarrow> string \<Rightarrow> byte list res" where
  "derive_key kl seed label = (case klHKDF kl seed label KeySize of
     Inl e \<Rightarrow> Inl (wrap_err (''derive '' @ label @ '': '') e)
   | Inr b \<Rightarrow> Inr (take KeySize (b @ replicate KeySize 0)))"

definition Derive :: "key_lib \<Rightarrow> byte list \<Rightarrow> hierarchy res" where
  "Derive kl seed =
    rbind (derive_key kl seed labelRecord) (\<lambda>r.
    rbind (derive_key kl seed labelContent) (\<lambda>c.
    rbind (derive_key kl seed labelManifest) (\<lambda>m.
    rbind (derive_key kl seed labelCheck) (\<lambda>k.
      Inr \<lparr>hiRecord = r, hiContent = c, hiManifest = m, hiCheck = k\<rparr>))))"

text \<open>What a vault is opened with.\<close>

definition phrase_keys :: "key_lib \<Rightarrow> string \<Rightarrow> hierarchy res" where
  "phrase_keys kl phrase = rbind (SeedFromPhrase kl phrase) (Derive kl)"

section \<open>What is accepted\<close>

lemma AppKey_Check_iff: "AppKey_Check k = Inr () \<longleftrightarrow> length k = 64"
  by (auto simp: AppKey_Check_def PrivateKeySize_def)

lemma AppKeyFromEnv_Inr:
  "AppKeyFromEnv kl = Inr k \<longleftrightarrow> hex_decode (trim_space (klEnv kl AppKeyEnv)) = Some k \<and> length k = 64"
  by (auto simp: AppKeyFromEnv_def Let_def rbind_Inr_iff AppKey_Check_iff split: option.splits)

text \<open>An absent key is never taken for a damaged one, and a text that is not hexadecimal for neither.\<close>

lemma AppKeyFromEnv_refused:
  assumes "AppKeyFromEnv kl = Inl e"
  shows "MissingAppKey e \<longleftrightarrow> trim_space (klEnv kl AppKeyEnv) = []"
    and "WrongAppKeyLength e \<longleftrightarrow> (\<exists>k. hex_decode (trim_space (klEnv kl AppKeyEnv)) = Some k \<and> k \<noteq> [] \<and> length k \<noteq> 64)"
proof -
  have d: "hex_decode t = Some [] \<Longrightarrow> t = []" for t by (cases t rule: hex_decode.cases) (auto split: option.splits)
  show "MissingAppKey e \<longleftrightarrow> trim_space (klEnv kl AppKeyEnv) = []"
    and "WrongAppKeyLength e \<longleftrightarrow> (\<exists>k. hex_decode (trim_space (klEnv kl AppKeyEnv)) = Some k \<and> k \<noteq> [] \<and> length k \<noteq> 64)"
    using assms d
    by (auto simp: AppKeyFromEnv_def Let_def AppKey_Check_def PrivateKeySize_def MissingAppKey_def WrongAppKeyLength_def
        split: if_splits option.splits)
qed

lemma ReadPhrase_refused:
  "ReadPhrase kl input = Inl e \<Longrightarrow> errors_Is e ErrNoPhrase \<or> (\<exists>i e'. input = Some i \<and> scan_first i = Inl e' \<and> e = wrap_err ''read recovery phrase: '' e')"
  by (auto simp: ReadPhrase_def no_phrase_def Let_def split: if_splits option.splits sum.splits)

lemma ReadPhrase_terminal: "inTerminal i \<Longrightarrow> trim_space (klEnv kl PhraseEnv) = [] \<Longrightarrow> ReadPhrase kl (Some i) = no_phrase"
  by (simp add: ReadPhrase_def)

lemma phrase_keys_refused: "phrase_keys kl p = Inl e \<Longrightarrow> errors_Is e ErrPhrase \<or> (\<exists>seed. SeedFromPhrase kl p = Inr seed \<and> Derive kl seed = Inl e)"
  by (auto simp: phrase_keys_def rbind_Inl_iff SeedFromPhrase_def Let_def errors_Is_def split: if_splits sum.splits)

lemma length_Derive:
  "Derive kl seed = Inr h \<Longrightarrow> length (hiRecord h) = 32 \<and> length (hiContent h) = 32 \<and> length (hiManifest h) = 32 \<and> length (hiCheck h) = 32"
  by (auto simp: Derive_def rbind_Inr_iff derive_key_def KeySize_def split: sum.splits)

text \<open>Only the words of a phrase count, not what is between them.\<close>

lemma phrase_keys_cong: "string_fields p = string_fields q \<Longrightarrow> phrase_keys kl p = phrase_keys kl q"
  by (simp add: phrase_keys_def SeedFromPhrase_def)

end
