(* ===== verification/SiaErrors.thy ===== *)
theory SiaErrors
  imports SiaClient
begin

text \<open>
  Package \<open>sia\<close>, the errors a person reads (\<open>errors.go\<close>).

  An error of the library is the chain of errors it wraps and, of it, what the code asks with \<open>errors.Is\<close> and \<open>errors.As\<close>: whether the
  caller gave up, whether the transport failed, whether the indexer refused the key.  \<open>parse\<close> is \<open>url.Parse\<close> followed by the
  printing of the URL without query and fragment.
\<close>

record sdk_err =
  seCanceled :: bool
  seNetwork :: bool
  seUnauthorized :: bool
  seError :: goerr

record indexer_error =
  ieOp :: string
  ieIndexer :: string
  ieStatus :: int
  ieAdvice :: string
  ieErr :: goerr

definition statusMeaning :: "int \<Rightarrow> string" where
  "statusMeaning st =
    (if st = 401 \<or> st = 403 then ''(not authorized)''
     else if st = 404 then ''(no such endpoint)''
     else if st = 429 then ''(rate limited)''
     else if st = 502 \<or> st = 503 \<or> st = 504 then ''(gateway error)''
     else if 500 \<le> st then ''(server error)''
     else [])"

definition adviceFor :: "int \<Rightarrow> string \<Rightarrow> string" where
  "adviceFor st indexer =
    (if st = 0 then ''Check that '' @ indexer @ '' is the right address and that this machine has a network. ''
       @ ''Nothing was lost: records stay on this device until a run that reaches the indexer''
     else if st = 401 \<or> st = 403 then ''This installation is not authorized. Run `mnemosia connect -out <file>` to approve it ''
       @ ''and set MNEMOSIA_APP_KEY to the key it writes''
     else if st = 404 then ''That address answered but is not an indexer. Check '' @ indexer @ '', or leave it unset '' @ ''to use the default''
     else if st = 429 then ''The indexer is rate limiting this account. Wait and retry; nothing was lost''
     else if 500 \<le> st then ''The indexer or the CDN in front of it is having trouble. This is transient and ''
       @ ''retryable; nothing was lost, because a failed write leaves the records queued on this device''
     else [])"

definition IndexerError_Error :: "indexer_error \<Rightarrow> string" where
  "IndexerError_Error e = ieOp e @ (if ieIndexer e \<noteq> [] then '' ('' @ ieIndexer e @ '')'' else []) @ '': ''
     @ (if ieStatus e = 0 then ''the indexer did not answer''
        else ''the indexer answered '' @ Itoa (ieStatus e) @ '' '' @ statusMeaning (ieStatus e))
     @ (if ieAdvice e \<noteq> [] then ''. '' @ ieAdvice e else [])"

definition Retryable :: "indexer_error \<Rightarrow> bool" where
  "Retryable e \<longleftrightarrow> ieStatus e = 0 \<or> ieStatus e = 429 \<or> 500 \<le> ieStatus e"

definition redactURL :: "(string \<Rightarrow> string option) \<Rightarrow> string \<Rightarrow> string" where
  "redactURL parse raw = (if raw = [] then [] else case parse raw of None \<Rightarrow> raw | Some t \<Rightarrow> t)"

text \<open>The first match of the pattern \<open>status code (\d{3})\<close>.\<close>

fun statusURL :: "string \<Rightarrow> string option" where
  "statusURL [] = None"
| "statusURL (c # cs) =
    (let m = take 3 (drop 12 (c # cs)) in
     if starts_with ''status code '' (c # cs) \<and> length m = 3 \<and> list_all is_digit m then Some m else statusURL cs)"

definition status_of :: "string \<Rightarrow> int" where
  "status_of msg = (case statusURL msg of None \<Rightarrow> 0 | Some d \<Rightarrow> int (digits_value d))"

datatype shaped = AsIs goerr | Shaped indexer_error

definition asIndexerError :: "(string \<Rightarrow> string option) \<Rightarrow> string \<Rightarrow> string \<Rightarrow> sdk_err \<Rightarrow> shaped" where
  "asIndexerError parse op indexer e =
    (if seCanceled e then AsIs (seError e)
     else let st = status_of (why (seError e)) in
       if st = 0 \<and> \<not> seNetwork e then AsIs (seError e)
       else Shaped \<lparr>ieOp = op, ieIndexer = redactURL parse indexer, ieStatus = st, ieAdvice = adviceFor st indexer,
         ieErr = (if st = 0 then GoErr (ErrIndexerUnreachable # wraps (seError e)) (''the indexer could not be reached: '' @ why (seError e))
                  else seError e)\<rparr>)"

text \<open>The error a caller sees: it wraps what the shaped one wraps.\<close>

definition shaped_err :: "shaped \<Rightarrow> goerr" where
  "shaped_err x = (case x of AsIs e \<Rightarrow> e | Shaped ie \<Rightarrow> GoErr (wraps (ieErr ie)) (IndexerError_Error ie))"

section \<open>What a shaped error says\<close>

text \<open>
  Its text is made of the operation, the service and the status only, so that no request URL and no response body is in it.
\<close>

definition shaped_text :: "(string \<Rightarrow> string option) \<Rightarrow> string \<Rightarrow> string \<Rightarrow> int \<Rightarrow> string" where
  "shaped_text parse op indexer st = IndexerError_Error \<lparr>ieOp = op, ieIndexer = redactURL parse indexer, ieStatus = st,
     ieAdvice = adviceFor st indexer, ieErr = GoErr [] []\<rparr>"

lemma shaped_error_discloses_nothing:
  assumes "asIndexerError parse op indexer e = Shaped ie"
  shows "why (shaped_err (Shaped ie)) = shaped_text parse op indexer (ieStatus ie)" and "ieStatus ie = status_of (why (seError e))"
  using assms by (auto simp: asIndexerError_def shaped_err_def shaped_text_def IndexerError_Error_def Let_def split: if_splits)

lemma shaped_unreachable:
  assumes "\<not> errors_Is (seError e) ErrIndexerUnreachable"
  shows "errors_Is (shaped_err (asIndexerError parse op indexer e)) ErrIndexerUnreachable
    \<longleftrightarrow> \<not> seCanceled e \<and> seNetwork e \<and> status_of (why (seError e)) = 0"
  using assms by (auto simp: asIndexerError_def shaped_err_def Let_def errors_Is_def)

lemma shaped_keeps_class:
  "errors_Is (seError e) s \<Longrightarrow> errors_Is (shaped_err (asIndexerError parse op indexer e)) s"
  by (auto simp: asIndexerError_def shaped_err_def Let_def errors_Is_def)

text \<open>The advice names the service as it was configured, with the query the error leaves out elsewhere.\<close>

lemma advice_keeps_query:
  assumes "ieStatus ie = 0 \<or> ieStatus ie = 404" and "asIndexerError parse op indexer e = Shaped ie"
  shows "\<exists>p q. IndexerError_Error ie = p @ indexer @ q"
proof -
  have "ieAdvice ie = adviceFor (ieStatus ie) indexer" using assms(2) by (auto simp: asIndexerError_def Let_def split: if_splits)
  moreover obtain p q where a: "adviceFor (ieStatus ie) indexer = p @ indexer @ q" "p \<noteq> []"
    using assms(1) unfolding adviceFor_def by (auto simp del: append_Cons append.simps)
  ultimately have "\<exists>p'. IndexerError_Error ie = p' @ p @ indexer @ q" unfolding IndexerError_Error_def by simp
  then show ?thesis by (metis append_assoc)
qed

end
