(* ===== verification/VaultOpen.thy ===== *)
theory VaultOpen
  imports Keys SiaErrors VaultHydrate
begin

text \<open>
  Package \<open>vault\<close>, opening and closing (\<open>options.go\<close>, \<open>vault.go\<close>), with the connection it makes (\<open>Connect\<close> of \<open>sia/client.go\<close>) and the
  way a command reaches it (\<open>cmd/mnemosia/open.go\<close>).

  A device is what the files of a vault hold; opening one gives the state of an open vault and the environment its operations run
  in.  What opens files, loads a model or speaks to the indexer is the record \<open>open_lib\<close>: each of these can fail, the files with an
  error that wraps none of the program's own.
\<close>

section \<open>The device and what opens it\<close>

record 'n device =
  dvBodies :: bodies
  dvSettings :: settings
  dvHeads :: heads
  dvRanking :: ranking_db
  dvTiers :: tiers
  dvObjects :: object_cache
  dvSlabs :: slab_cache
  dvLedger :: ledger
  dvQueue :: queue
  dvLog :: log
  dvVectors :: vstore
  dvNet :: 'n

datatype open_op = OpHome | OpEncoder | OpDatabase | OpReadSetting | OpWriteSetting | OpCatalog | OpIndexFiles

record emodel =
  emName :: string
  emRepo :: string
  emOnnxFile :: string
  emDim :: nat

record embedder =
  ebModel :: emodel
  ebEmbed :: "string \<Rightarrow> f32 list res"

text \<open>
  \<open>olConnect indexer key\<close> is the library's constructor, \<open>olOptimal\<close> how many bytes an opened upload takes, \<open>olEnvironment\<close> the codecs,
  clocks and schedules an open vault runs with, \<open>olVectorSealer\<close> the sealing of the index files under a sealer.
\<close>

record 'n open_lib =
  olKeys :: key_lib
  olHomeDir :: "string option"
  olJoin :: "string \<Rightarrow> string \<Rightarrow> string"
  olFails :: "open_op \<Rightarrow> string option"
  olIO :: io
  olFetch :: "emodel \<Rightarrow> string \<Rightarrow> string res"
  olLoad :: "emodel \<Rightarrow> string \<Rightarrow> (string \<Rightarrow> f32 list res) res"
  olParseURL :: "string \<Rightarrow> string option"
  olConnect :: "string \<Rightarrow> appkey \<Rightarrow> 'n \<Rightarrow> (sdk_err + 'n sdk) \<times> 'n"
  olOptimal :: "'n \<Rightarrow> int"
  olOwner :: "byte list res"
  olVectorSealer :: "sealer \<Rightarrow> vsealer"
  olEnvironment :: "'n venv"

definition try_open :: "'n open_lib \<Rightarrow> open_op \<Rightarrow> unit res" where
  "try_open lib op = (case olFails lib op of None \<Rightarrow> Inr () | Some msg \<Rightarrow> fail [] msg)"

section \<open>Options\<close>

definition HomeEnv :: string where "HomeEnv = ''MNEMOSIA_HOME''"
definition IndexerEnv :: string where "IndexerEnv = ''MNEMOSIA_INDEXER''"
definition ModelDirEnv :: string where "ModelDirEnv = ''MNEMOSIA_MODEL_DIR''"
definition DefaultSlabMetaTTL :: int where "DefaultSlabMetaTTL = 60 * Minute"
definition DefaultIndexerURL :: string where "DefaultIndexerURL = ''https://sia.storage''"

definition BGESmallEN :: emodel where
  "BGESmallEN = \<lparr>emName = ''bge-small-en-v1.5-fp32'', emRepo = ''Xenova/bge-small-en-v1.5'', emOnnxFile = ''onnx/model.onnx'', emDim = 384\<rparr>"

record options =
  opHome :: string
  opPhrase :: string
  opAppKey :: appkey
  opIndexer :: string
  opModel :: emodel
  opModelDir :: string
  opEmbedder :: "embedder option"
  opFlush :: policy
  opSlabMetaTTL :: int
  opOffline :: bool

definition DefaultHome :: "'n open_lib \<Rightarrow> string" where
  "DefaultHome lib = (let home = klEnv (olKeys lib) HomeEnv in
     if home \<noteq> [] then home
     else case olHomeDir lib of Some dir \<Rightarrow> olJoin lib dir ''.mnemosia'' | None \<Rightarrow> ''.mnemosia'')"

definition DefaultIndexer :: "'n open_lib \<Rightarrow> string" where
  "DefaultIndexer lib = (let indexer = klEnv (olKeys lib) IndexerEnv in if indexer \<noteq> [] then indexer else DefaultIndexerURL)"

definition DefaultModelDir :: "'n open_lib \<Rightarrow> string \<Rightarrow> string" where
  "DefaultModelDir lib home = (let dir = klEnv (olKeys lib) ModelDirEnv in if dir \<noteq> [] then dir else olJoin lib home ''models'')"

definition applyDefaults :: "'n open_lib \<Rightarrow> options \<Rightarrow> options" where
  "applyDefaults lib o0 =
    (let o1 = (if opHome o0 = [] then o0\<lparr>opHome := DefaultHome lib\<rparr> else o0);
         o2 = (if opIndexer o1 = [] then o1\<lparr>opIndexer := DefaultIndexer lib\<rparr> else o1);
         o3 = (if emName (opModel o2) = [] then o2\<lparr>opModel := BGESmallEN\<rparr> else o2);
         o4 = (if opModelDir o3 = [] then o3\<lparr>opModelDir := DefaultModelDir lib (opHome o3)\<rparr> else o3) in
     if opSlabMetaTTL o4 = 0 then o4\<lparr>opSlabMetaTTL := DefaultSlabMetaTTL\<rparr> else o4)"

section \<open>The files of the device\<close>

definition phraseCheck :: string where "phraseCheck = ''phraseCheck''"

definition checkPhrase :: "'n open_lib \<Rightarrow> hierarchy \<Rightarrow> ('n device, unit) step" where
  "checkPhrase lib h d = (let want = hex_encode (hiCheck h) in
     case rbind (try_open lib OpReadSetting) (\<lambda>_. GetMeta (dvSettings d) phraseCheck) of
       Inl e \<Rightarrow> if errors_Is e ErrLocalNotFound
           then case try_open lib OpWriteSetting of Inl e \<Rightarrow> (Inl e, d) | Inr _ \<Rightarrow> (Inr (), d\<lparr>dvSettings := PutMeta phraseCheck want (dvSettings d)\<rparr>)
           else (Inl e, d)
     | Inr got \<Rightarrow> if got \<noteq> want then (fail [ErrWrongPhrase] ''recovery phrase does not match this vault'', d) else (Inr (), d))"

definition seal_New :: "'n open_lib \<Rightarrow> byte list \<Rightarrow> byte list \<Rightarrow> sealer res" where
  "seal_New lib record content = rbind (try_open lib OpEncoder) (\<lambda>_. Inr \<lparr>slRecord = record, slContent = content\<rparr>)"

text \<open>The sizes the compaction ratio is measured on are those of the files.\<close>

definition OpenLog :: "log \<Rightarrow> log" where
  "OpenLog lg = lg\<lparr>lgLogBytes := int (length (lgFile lg)),
     lgSnapshotBytes := (case lgSnap lg of None \<Rightarrow> 0 | Some t \<Rightarrow> int (length t)), lgWritten := 0, lgCompactions := 0\<rparr>"

definition OpenStore :: "vstore \<Rightarrow> vstore" where
  "OpenStore st = st\<lparr>vtBaseBytes := (case vtBase st of None \<Rightarrow> 0 | Some b \<Rightarrow> int (length b)), vtDeltaBytes := int (length (vtDelta st)),
     vtWritten := 0, vtCompactions := 0\<rparr>"

definition catalog_env :: "'n open_lib \<Rightarrow> sealer \<Rightarrow> menv" where
  "catalog_env lib sl = (vnCatalog (olEnvironment lib))\<lparr>meSealer := sl\<rparr>"

definition openLocal :: "'n open_lib \<Rightarrow> hierarchy \<Rightarrow> ('n device, sealer \<times> menv \<times> manifest) step" where
  "openLocal lib h =
    sbind (slift (seal_New lib (hiRecord h) (hiContent h))) (\<lambda>sl.
    sbind (slift (try_open lib OpDatabase)) (\<lambda>_.
    sbind (checkPhrase lib h) (\<lambda>_.
    sbind (slift (seal_New lib (hiManifest h) (hiContent h))) (\<lambda>ms.
    sbind (slift (try_open lib OpCatalog)) (\<lambda>_.
    sbind (sget dvLog) (\<lambda>lg.
    sbind (slift (Load (catalog_env lib ms) (olIO lib) (OpenLog lg))) (\<lambda>mf.
      sret (sl, catalog_env lib ms, mf))))))))"

section \<open>The model and the index\<close>

text \<open>A supplied embedder wins, and its identity replaces the one that was configured.\<close>

definition openEmbedder :: "'n open_lib \<Rightarrow> options \<Rightarrow> embedder res" where
  "openEmbedder lib o0 = (case opEmbedder o0 of
     Some e \<Rightarrow> Inr e
   | None \<Rightarrow> rbind (olFetch lib (opModel o0) (opModelDir o0)) (\<lambda>dir. rbind (olLoad lib (opModel o0) dir) (\<lambda>f.
       Inr \<lparr>ebModel = opModel o0, ebEmbed = f\<rparr>)))"

definition opened_env :: "'n open_lib \<Rightarrow> options \<Rightarrow> sealer \<Rightarrow> menv \<Rightarrow> embedder \<Rightarrow> 'n venv" where
  "opened_env lib o0 sl ce e = (olEnvironment lib)\<lparr>vnTTL := opSlabMetaTTL o0, vnOnline := False, vnModel := emName (ebModel e),
     vnDim := emDim (ebModel e), vnEmbed := ebEmbed e, vnSealer := sl, vnCatalog := ce, vnVectorSealer := olVectorSealer lib sl\<rparr>"

text \<open>The state before the index and the queue were opened.\<close>

definition opened_vault :: "'n venv \<Rightarrow> 'n device \<Rightarrow> manifest \<Rightarrow> 'n vault" where
  "opened_vault ve d mf = \<lparr>vaBodies = dvBodies d, vaSettings = dvSettings d, vaHeads = dvHeads d, vaRanking = dvRanking d,
     vaTiers = dvTiers d, vaObjects = dvObjects d, vaSlabs = dvSlabs d, vaLedger = dvLedger d, vaManifest = mf,
     vaIndex = Index_New (vnModel ve) (vnDim ve), vaVectors = OpenStore (dvVectors d),
     vaHealth = \<lparr>ihModel = [], ihDim = 0, ihIndexed = 0, ihForeign = Map.empty\<rparr>,
     vaPacker = \<lparr>pkQueue = dvQueue d, pkState = QueueState (dvQueue d), pkPolicy = DefaultPolicy 0, pkOwner = [], pkOnline = False,
       pkRunning = False\<rparr>, vaNet = dvNet d, vaStats = \<lparr>ssHeadReads = 0, ssChunkReads = 0, ssChunkBytes = 0\<rparr>, vaReady = False,
     vaDrawn = 0, vaFileOps = 0\<rparr>"

section \<open>The connection\<close>

definition Client_Connect :: "'n open_lib \<Rightarrow> string \<Rightarrow> appkey \<Rightarrow> ('n vault, 'n sdk) step" where
  "Client_Connect lib given k s = (let indexer = (if given = [] then DefaultIndexerURL else given) in
     case AppKey_Check k of Inl e \<Rightarrow> (Inl e, s)
     | Inr _ \<Rightarrow> (case olConnect lib indexer k (vaNet s) of
         (Inr sdk, n) \<Rightarrow> (Inr sdk, s\<lparr>vaNet := n\<rparr>)
       | (Inl e, n) \<Rightarrow> (if seUnauthorized e then fail [ErrUnauthorized] (''app key is not authorized by the indexer: '' @ indexer)
             else Inl (shaped_err (asIndexerError (olParseURL lib) ''connect to the indexer'' indexer e)), s\<lparr>vaNet := n\<rparr>)))"

text \<open>An indexer that cannot be reached leaves the vault offline and says why; any other failure is one.\<close>

definition connect_or_degrade :: "'n open_lib \<Rightarrow> options \<Rightarrow> ('n vault, 'n sdk option \<times> goerr option) step" where
  "connect_or_degrade lib o0 s =
    (if opOffline o0 then (Inr (None, None), s)
     else case Client_Connect lib (opIndexer o0) (opAppKey o0) s of
       (Inr sdk, t) \<Rightarrow> (Inr (Some sdk, None), t)
     | (Inl e, t) \<Rightarrow> if \<not> errors_Is e ErrIndexerUnreachable then (Inl e, t) else (Inr (None, Some e), t))"

definition DefaultSlabPayloadSize :: int where "DefaultSlabPayloadSize = 10 * 4 * 2 ^ 20"

definition SlabPayloadSize :: "'n open_lib \<Rightarrow> 'n sdk \<Rightarrow> ('n vault, int) step" where
  "SlabPayloadSize lib k s = (case sdkOpen k (vaNet s) of
     (Inl e, n) \<Rightarrow> (Inl (wrap_err ''open packed upload: '' e), s\<lparr>vaNet := n\<rparr>)
   | (Inr _, n) \<Rightarrow> (Inr (olOptimal lib n), s\<lparr>vaNet := n\<rparr>))"

definition no_policy :: policy where
  "no_policy = \<lparr>poIdleAfter = 0, poMaxAge = 0, poMaxBytes = 0, poMaxRecords = 0, poClaimTimeout = 0\<rparr>"

definition newOwner :: "'n open_lib \<Rightarrow> string res" where
  "newOwner lib = (case olOwner lib of Inl e \<Rightarrow> Inl (wrap_err ''packer identity: '' e) | Inr b \<Rightarrow> Inr (hex_encode b))"

definition flush_policy :: "'n open_lib \<Rightarrow> options \<Rightarrow> 'n sdk option \<Rightarrow> ('n vault, policy) step" where
  "flush_policy lib o0 sdk =
    (if opFlush o0 \<noteq> no_policy then sret (opFlush o0)
     else case sdk of None \<Rightarrow> sret (DefaultPolicy DefaultSlabPayloadSize)
     | Some k \<Rightarrow> sbind (SlabPayloadSize lib k) (\<lambda>n. sret (DefaultPolicy n)))"

definition openPacker :: "'n open_lib \<Rightarrow> 'n venv \<Rightarrow> options \<Rightarrow> 'n sdk option \<Rightarrow> ('n vault, unit) step" where
  "openPacker lib ve o0 sdk =
    sbind (flush_policy lib o0 sdk) (\<lambda>pol.
    sbind (sget (\<lambda>s. pkQueue (vaPacker s))) (\<lambda>q.
    sbind (slift (Packer_New (vault_flusher ve) (sdk \<noteq> None) (Some q) pol (newOwner lib))) (\<lambda>p.
      smod (\<lambda>s. s\<lparr>vaPacker := p\<rparr>))))"

section \<open>Opening and closing\<close>

record 'n opened =
  odEnv :: "'n venv"
  odVault :: "'n vault"
  odOfflineBecause :: "goerr option"

definition connected_env :: "'n venv \<Rightarrow> 'n sdk option \<Rightarrow> 'n venv" where
  "connected_env ve sdk = (case sdk of None \<Rightarrow> ve
     | Some k \<Rightarrow> ve\<lparr>vnOnline := True, vnReclaimer := (vnReclaimer ve)\<lparr>rcSdk := k\<rparr>\<rparr>)"

text \<open>From the state before: the index, the connection, the queue.\<close>

definition open_state :: "'n open_lib \<Rightarrow> 'n venv \<Rightarrow> options \<Rightarrow> ('n vault, 'n venv \<times> goerr option) step" where
  "open_state lib ve o0 =
    sbind (openIndex ve) (\<lambda>_.
    sbind (connect_or_degrade lib o0) (\<lambda>(sdk, because).
    sbind (openPacker lib (connected_env ve sdk) o0 sdk) (\<lambda>_.
      sret (connected_env ve sdk, because))))"

text \<open>A vault that closed leaves its files; opening again finds them.\<close>

definition Vault_Close :: "'n vault \<Rightarrow> 'n device" where
  "Vault_Close s = \<lparr>dvBodies = vaBodies s, dvSettings = vaSettings s, dvHeads = vaHeads s, dvRanking = vaRanking s, dvTiers = vaTiers s,
     dvObjects = vaObjects s, dvSlabs = vaSlabs s, dvLedger = vaLedger s, dvQueue = pkQueue (vaPacker s),
     dvLog = mfLog (vaManifest s), dvVectors = vaVectors s, dvNet = vaNet s\<rparr>"

definition Vault_Open :: "'n open_lib \<Rightarrow> options \<Rightarrow> ('n device, 'n opened) step" where
  "Vault_Open lib given =
    (let o0 = applyDefaults lib given in
    sbind (slift (try_open lib OpHome)) (\<lambda>_.
    sbind (slift (phrase_keys (olKeys lib) (opPhrase o0))) (\<lambda>h.
    sbind (openLocal lib h) (\<lambda>(sl, ce, mf).
    sbind (slift (openEmbedder lib o0)) (\<lambda>e.
    sbind (slift (try_open lib OpIndexFiles)) (\<lambda>_ d.
      let ve = opened_env lib o0 sl ce e in
      case open_state lib ve o0 (opened_vault ve d mf) of
        (Inl err, s) \<Rightarrow> (Inl err, d\<lparr>dvNet := vaNet s\<rparr>)
      | (Inr (ve', because), s) \<Rightarrow>
          (Inr \<lparr>odEnv = ve', odVault = s, odOfflineBecause = because\<rparr>, d\<lparr>dvNet := vaNet s\<rparr>)))))))"

definition Online :: "'n opened \<Rightarrow> bool" where "Online v = vnOnline (odEnv v)"

text \<open>How a command opens it: neither secret is an argument.\<close>

definition open_command :: "'n open_lib \<Rightarrow> stdin option \<Rightarrow> string \<Rightarrow> string \<Rightarrow> bool \<Rightarrow> ('n device, 'n opened) step" where
  "open_command lib input home indexer offline =
    sbind (slift (ReadPhrase (olKeys lib) input)) (\<lambda>phrase.
    sbind (slift (if offline then Inr [] else AppKeyFromEnv (olKeys lib))) (\<lambda>k.
      Vault_Open lib \<lparr>opHome = home, opPhrase = phrase, opAppKey = k, opIndexer = indexer, opModel = \<lparr>emName = [], emRepo = [], emOnnxFile = [], emDim = 0\<rparr>,
        opModelDir = [], opEmbedder = None, opFlush = no_policy, opSlabMetaTTL = 0, opOffline = offline\<rparr>))"

section \<open>Whose device it is\<close>

definition claimed :: "'n device \<Rightarrow> string option" where
  "claimed d = row_of (dvSettings d) phraseCheck"

definition phrase_mark :: "'n open_lib \<Rightarrow> string \<Rightarrow> string option" where
  "phrase_mark lib phrase = (case phrase_keys (olKeys lib) phrase of Inl _ \<Rightarrow> None | Inr h \<Rightarrow> Some (hex_encode (hiCheck h)))"

lemma opPhrase_applyDefaults [simp]: "opPhrase (applyDefaults lib o0) = opPhrase o0" "opOffline (applyDefaults lib o0) = opOffline o0"
  "opAppKey (applyDefaults lib o0) = opAppKey o0" "opFlush (applyDefaults lib o0) = opFlush o0" "opEmbedder (applyDefaults lib o0) = opEmbedder o0"
  by (simp_all add: applyDefaults_def Let_def)

text \<open>What the check does, whatever fails.\<close>

lemma checkPhrase_cases:
  assumes "checkPhrase lib h d = (r, d')"
  shows "r = Inr () \<and> claimed d = Some (hex_encode (hiCheck h)) \<and> d' = d
    \<or> r = Inr () \<and> claimed d = None \<and> d' = d\<lparr>dvSettings := PutMeta phraseCheck (hex_encode (hiCheck h)) (dvSettings d)\<rparr>
    \<or> (\<exists>e. r = Inl e \<and> d' = d)"
  using assms
  by (auto simp: checkPhrase_def Let_def try_open_def GetMeta_def lookup_row_def not_held_def claimed_def split: option.splits if_splits sum.splits)

lemma checkPhrase_wrong:
  assumes "claimed d = Some c" and "c \<noteq> hex_encode (hiCheck h)" and "olFails lib OpReadSetting = None"
  shows "\<exists>e. checkPhrase lib h d = (Inl e, d) \<and> errors_Is e ErrWrongPhrase"
  using assms by (simp add: checkPhrase_def Let_def try_open_def GetMeta_def lookup_row_def not_held_def claimed_def)

lemma claimed_PutMeta [simp]:
  "claimed d = None \<Longrightarrow> claimed (d\<lparr>dvSettings := PutMeta phraseCheck c (dvSettings d)\<rparr>) = Some c"
  by (simp add: claimed_def PutMeta_def)

text \<open>The state after \<open>openLocal\<close>: as before, or claimed for this phrase.\<close>

definition claims :: "hierarchy \<Rightarrow> 'n device \<Rightarrow> 'n device \<Rightarrow> bool" where
  "claims h d d' \<longleftrightarrow> claimed d = Some (hex_encode (hiCheck h)) \<and> d' = d
     \<or> claimed d = None \<and> d' = d\<lparr>dvSettings := PutMeta phraseCheck (hex_encode (hiCheck h)) (dvSettings d)\<rparr>"

lemma claims_claimed: "claims h d d' \<Longrightarrow> claimed d' = Some (hex_encode (hiCheck h))"
  by (auto simp: claims_def)

lemma openLocal_Inr:
  assumes "openLocal lib h d = (Inr x, d')"
  shows "claims h d d' \<and> (\<exists>mf. x = (\<lparr>slRecord = hiRecord h, slContent = hiContent h\<rparr>,
      catalog_env lib \<lparr>slRecord = hiManifest h, slContent = hiContent h\<rparr>, mf)
    \<and> Load (catalog_env lib \<lparr>slRecord = hiManifest h, slContent = hiContent h\<rparr>) (olIO lib) (OpenLog (dvLog d)) = Inr mf)"
proof -
  obtain d1 where d1: "checkPhrase lib h d = (Inr (), d1)" "d' = d1" and x: "\<exists>mf. x = (\<lparr>slRecord = hiRecord h, slContent = hiContent h\<rparr>,
      catalog_env lib \<lparr>slRecord = hiManifest h, slContent = hiContent h\<rparr>, mf)
    \<and> Load (catalog_env lib \<lparr>slRecord = hiManifest h, slContent = hiContent h\<rparr>) (olIO lib) (OpenLog (dvLog d1)) = Inr mf"
    using assms by (auto simp: openLocal_def sbind_Inr_iff slift_def sget_def sret_def seal_New_def rbind_Inr_iff)
  have "claims h d d1" using checkPhrase_cases [OF d1(1)] by (auto simp: claims_def)
  moreover from this have "dvLog d1 = dvLog d" by (auto simp: claims_def)
  ultimately show ?thesis using d1(2) x by simp
qed

lemma sbind_Inl_cases:
  assumes "sbind m f s = (Inl e, t)"
  obtains "m s = (Inl e, t)" | x u where "m s = (Inr x, u)" "f x u = (Inl e, t)"
  using assms by (auto simp: sbind_def split: prod.splits sum.splits)

lemma openLocal_Inl:
  assumes "openLocal lib h d = (Inl e, d')"
  shows "d' = d \<or> claims h d d'"
  using assms unfolding openLocal_def
proof (elim sbind_Inl_cases)
  fix x u y w z v
  assume "slift (seal_New lib (hiRecord h) (hiContent h)) d = (Inr x, u)" "slift (try_open lib OpDatabase) u = (Inr y, w)"
    "checkPhrase lib h w = (Inl e, d')"
  then show ?thesis using checkPhrase_cases [of lib h w "Inl e" d'] by (auto simp: slift_def)
qed (auto simp: slift_def sget_def sret_def claims_def dest!: checkPhrase_cases)

lemma openLocal_wrong:
  assumes "claimed d = Some c" "c \<noteq> hex_encode (hiCheck h)"
    and "olFails lib OpEncoder = None" "olFails lib OpDatabase = None" "olFails lib OpReadSetting = None"
  shows "\<exists>e. openLocal lib h d = (Inl e, d) \<and> errors_Is e ErrWrongPhrase"
  using checkPhrase_wrong [OF assms(1,2,5)] assms(3,4)
  by (auto simp: openLocal_def sbind_def slift_def seal_New_def try_open_def)

lemma Vault_Open_cases:
  assumes "Vault_Open lib g d = (r, d')"
  obtains (early) e where "r = Inl e" "d' = d"
  | (refused) h e where "phrase_keys (olKeys lib) (opPhrase g) = Inr h" "openLocal lib h d = (Inl e, d')" "r = Inl e"
  | (failed) h x d1 e n where "phrase_keys (olKeys lib) (opPhrase g) = Inr h" "openLocal lib h d = (Inr x, d1)" "r = Inl e"
      "d' = d1\<lparr>dvNet := n\<rparr>"
  | (opened) h sl ce mf d1 e ve because s where "phrase_keys (olKeys lib) (opPhrase g) = Inr h"
      "openLocal lib h d = (Inr (sl, ce, mf), d1)" "openEmbedder lib (applyDefaults lib g) = Inr e"
      "open_state lib (opened_env lib (applyDefaults lib g) sl ce e) (applyDefaults lib g)
         (opened_vault (opened_env lib (applyDefaults lib g) sl ce e) d1 mf) = (Inr (ve, because), s)"
      "r = Inr \<lparr>odEnv = ve, odVault = s, odOfflineBecause = because\<rparr>" "d' = d1\<lparr>dvNet := vaNet s\<rparr>"
proof -
  have keep: "d1 = d1\<lparr>dvNet := dvNet d1\<rparr>" for d1 :: "'a device" by simp
  show thesis
  proof (cases "try_open lib OpHome")
    case Inl
    then show thesis using assms early by (auto simp: Vault_Open_def sbind_def slift_def Let_def)
  next
    case home: (Inr u)
    show thesis
    proof (cases "phrase_keys (olKeys lib) (opPhrase g)")
      case Inl
      then show thesis using assms early home by (auto simp: Vault_Open_def sbind_def slift_def Let_def)
    next
      case h: (Inr h)
      obtain q d1 where q: "openLocal lib h d = (q, d1)" by (cases "openLocal lib h d")
      show thesis
      proof (cases q)
        case (Inl e)
        then show thesis using assms refused home h q by (auto simp: Vault_Open_def sbind_def slift_def Let_def)
      next
        case (Inr x)
        obtain sl ce mf where x: "x = (sl, ce, mf)" by (cases x)
        let ?o = "applyDefaults lib g"
        have run: "Vault_Open lib g d = (case rbind (openEmbedder lib ?o) (\<lambda>e. rbind (try_open lib OpIndexFiles) (\<lambda>_. Inr e)) of
            Inl e \<Rightarrow> (Inl e, d1)
          | Inr e \<Rightarrow> (case open_state lib (opened_env lib ?o sl ce e) ?o (opened_vault (opened_env lib ?o sl ce e) d1 mf) of
              (Inl err, s) \<Rightarrow> (Inl err, d1\<lparr>dvNet := vaNet s\<rparr>)
            | (Inr (ve', because), s) \<Rightarrow> (Inr \<lparr>odEnv = ve', odVault = s, odOfflineBecause = because\<rparr>, d1\<lparr>dvNet := vaNet s\<rparr>)))"
          using home h q Inr x by (simp add: Vault_Open_def sbind_def slift_def Let_def rbind_def split: sum.split)
        have ol: "openLocal lib h d = (Inr (sl, ce, mf), d1)" using q Inr x by simp
        show thesis
        proof (cases "rbind (openEmbedder lib ?o) (\<lambda>e. rbind (try_open lib OpIndexFiles) (\<lambda>_. Inr e))")
          case (Inl e)
          then show thesis using failed [OF h ol, of e "dvNet d1"] assms run by simp
        next
          case emb: (Inr e)
          then have e: "openEmbedder lib ?o = Inr e" by (auto simp: rbind_Inr_iff)
          obtain w t where w: "open_state lib (opened_env lib ?o sl ce e) ?o (opened_vault (opened_env lib ?o sl ce e) d1 mf) = (w, t)"
            by fastforce
          show thesis
          proof (cases w)
            case (Inl err)
            then show thesis using failed [OF h ol, of err "vaNet t"] assms run emb w by simp
          next
            case (Inr y)
            obtain ve' because where "y = (ve', because)" by (cases y)
            then show thesis using opened [OF h ol e, of ve' because t] assms run emb w Inr by simp
          qed
        qed
      qed
    qed
  qed
qed

text \<open>What the last steps keep.\<close>

lemma openIndex_keeps: "openIndex ve s = (r, t) \<Longrightarrow> Vault_Close t = Vault_Close s \<and> vaPacker t = vaPacker s \<and> vaNet t = vaNet s"
  by (auto simp: openIndex_def on_vectors_def Vault_Close_def split: prod.splits sum.splits)

lemma connect_or_degrade_cases:
  assumes "connect_or_degrade lib o0 s = (Inr (sdk, because), t)"
  shows "Vault_Close t = (Vault_Close s)\<lparr>dvNet := vaNet t\<rparr> \<and> vaPacker t = vaPacker s
    \<and> (sdk \<noteq> None \<longleftrightarrow> \<not> opOffline o0 \<and> because = None) \<and> (\<forall>e. because = Some e \<longrightarrow> \<not> opOffline o0 \<and> errors_Is e ErrIndexerUnreachable)"
  using assms
  by (auto simp: connect_or_degrade_def Client_Connect_def Let_def Vault_Close_def split: if_splits prod.splits sum.splits)

lemma flush_policy_keeps:
  "flush_policy lib o0 sdk s = (r, t) \<Longrightarrow> Vault_Close t = (Vault_Close s)\<lparr>dvNet := vaNet t\<rparr> \<and> vaPacker t = vaPacker s"
  by (auto simp: flush_policy_def sret_def sbind_def SlabPayloadSize_def Vault_Close_def split: if_splits option.splits prod.splits sum.splits)

lemma openPacker_keeps:
  assumes "openPacker lib ve o0 sdk s = (Inr u, t)"
  shows "Vault_Close t = (Vault_Close s)\<lparr>dvNet := vaNet t\<rparr>"
proof -
  obtain pol t1 p where f: "flush_policy lib o0 sdk s = (Inr pol, t1)" and t: "t = t1\<lparr>vaPacker := p\<rparr>"
    and p: "Packer_New (vault_flusher ve) (sdk \<noteq> None) (Some (pkQueue (vaPacker t1))) pol (newOwner lib) = Inr p"
    using assms by (auto simp: openPacker_def sbind_Inr_iff slift_def sget_def smod_def)
  have "pkQueue p = pkQueue (vaPacker t1)" using p by (auto simp: Packer_New_def rbind_Inr_iff split: option.splits)
  then show ?thesis using flush_policy_keeps [OF f] by (simp add: t Vault_Close_def)
qed

lemma vnOnline_connected: "vnOnline (connected_env ve sdk) \<longleftrightarrow> sdk \<noteq> None \<or> vnOnline ve"
  by (simp add: connected_env_def split: option.splits)

lemma open_state_keeps:
  assumes "open_state lib ve o0 s = (Inr (ve', because), t)" and "\<not> vnOnline ve"
  shows "Vault_Close t = (Vault_Close s)\<lparr>dvNet := vaNet t\<rparr> \<and> (vnOnline ve' \<longleftrightarrow> \<not> opOffline o0 \<and> because = None)
    \<and> (\<forall>e. because = Some e \<longrightarrow> \<not> opOffline o0 \<and> errors_Is e ErrIndexerUnreachable)"
proof -
  obtain u1 s1 sdk s2 u3 where i: "openIndex ve s = (Inr u1, s1)" and c: "connect_or_degrade lib o0 s1 = (Inr (sdk, because), s2)"
    and k: "openPacker lib (connected_env ve sdk) o0 sdk s2 = (Inr u3, t)" and ve': "ve' = connected_env ve sdk"
    using assms(1) by (auto simp: open_state_def sbind_Inr_iff sret_def split: prod.splits)
  show ?thesis
    using openIndex_keeps [OF i] connect_or_degrade_cases [OF c] openPacker_keeps [OF k] assms(2) by (simp add: ve' vnOnline_connected)
qed

lemma Load_log: "Load env io lg = Inr mf \<Longrightarrow> mfLog mf = lg"
  by (auto simp: Load_def rbind_Inr_iff)

lemma opened_vault_closes: "mfLog mf = OpenLog (dvLog d) \<Longrightarrow>
  Vault_Close (opened_vault ve d mf) = d\<lparr>dvLog := OpenLog (dvLog d), dvVectors := OpenStore (dvVectors d)\<rparr>"
  by (simp add: opened_vault_def Vault_Close_def)

text \<open>
  A device belongs to the phrase it was first opened with: another one is refused and changes nothing.
\<close>

lemma Vault_Open_wrong_phrase:
  assumes "Vault_Open lib g d = (r, d')" and "claimed d = Some c" and "phrase_mark lib (opPhrase g) \<noteq> Some c"
  shows "(\<exists>e. r = Inl e) \<and> d' = d"
  using assms(1)
proof (cases rule: Vault_Open_cases)
  case early
  then show ?thesis by simp
next
  case (refused h e)
  then show ?thesis using openLocal_Inl [OF refused(2)] assms(2,3) by (auto simp: claims_def phrase_mark_def)
next
  case (failed h x d1 e n)
  then show ?thesis using openLocal_Inr [OF failed(2)] assms(2,3) by (auto simp: claims_def phrase_mark_def)
next
  case (opened h sl ce mf d1 e ve because s)
  then show ?thesis using openLocal_Inr [OF opened(2)] assms(2,3) by (auto simp: claims_def phrase_mark_def)
qed

lemma Vault_Open_keeps_claim:
  assumes "Vault_Open lib g d = (r, d')" and "claimed d = Some c"
  shows "claimed d' = Some c"
  using assms(1)
proof (cases rule: Vault_Open_cases)
  case early
  then show ?thesis using assms(2) by simp
next
  case (refused h e)
  then show ?thesis using openLocal_Inl [OF refused(2)] assms(2) by (auto simp: claims_def)
next
  case (failed h x d1 e n)
  then show ?thesis using openLocal_Inr [OF failed(2)] assms(2) by (auto simp: claims_def claimed_def)
next
  case (opened h sl ce mf d1 e ve because s)
  then show ?thesis using openLocal_Inr [OF opened(2)] assms(2) by (auto simp: claims_def claimed_def)
qed

lemma Vault_Open_says_wrong_phrase:
  assumes "claimed d = Some c" and "phrase_keys (olKeys lib) (opPhrase g) = Inr h" and "c \<noteq> hex_encode (hiCheck h)"
    and "\<And>op. olFails lib op = None"
  shows "\<exists>e. Vault_Open lib g d = (Inl e, d) \<and> errors_Is e ErrWrongPhrase"
  using openLocal_wrong [OF assms(1,3), of lib] assms(2,4) by (auto simp: Vault_Open_def sbind_def slift_def try_open_def Let_def)

lemma claims_only_settings: "claims h d d' \<Longrightarrow> d' = d\<lparr>dvSettings := dvSettings d'\<rparr>"
  by (auto simp: claims_def)

lemma Vault_Open_touches:
  assumes "Vault_Open lib g d = (r, d')"
  shows "d' = d\<lparr>dvSettings := dvSettings d', dvNet := dvNet d'\<rparr>"
  using assms
proof (cases rule: Vault_Open_cases)
  case early
  then show ?thesis by simp
next
  case (refused h e)
  then show ?thesis using openLocal_Inl [OF refused(2)] by (auto simp: claims_def)
next
  case (failed h x d1 e n)
  then show ?thesis using openLocal_Inr [OF failed(2)] by (auto simp: claims_def)
next
  case (opened h sl ce mf d1 e ve because s)
  then show ?thesis using openLocal_Inr [OF opened(2)] by (auto simp: claims_def)
qed

lemma Vault_Open_Inr:
  assumes "Vault_Open lib g d = (Inr v, d')"
  shows "claimed d' = phrase_mark lib (opPhrase g) \<and> claimed d' \<noteq> None
    \<and> Vault_Close (odVault v) = d'\<lparr>dvLog := OpenLog (dvLog d'), dvVectors := OpenStore (dvVectors d')\<rparr>
    \<and> (Online v \<longleftrightarrow> \<not> opOffline g \<and> odOfflineBecause v = None)
    \<and> (\<forall>e. odOfflineBecause v = Some e \<longrightarrow> \<not> opOffline g \<and> errors_Is e ErrIndexerUnreachable)"
  using assms
proof (cases rule: Vault_Open_cases)
  case (opened h sl ce mf d1 e ve because s)
  note L = openLocal_Inr [OF opened(2)]
  have m: "mfLog mf = OpenLog (dvLog d1)" using L Load_log by (auto simp: claims_def)
  have off: "\<not> vnOnline (opened_env lib (applyDefaults lib g) sl ce e)" by (simp add: opened_env_def)
  have "claimed d' = Some (hex_encode (hiCheck h))" using L claims_claimed opened(6) by (auto simp: claimed_def)
  then show ?thesis
    using open_state_keeps [OF opened(4) off] opened(1,5,6) opened_vault_closes [OF m] by (simp add: phrase_mark_def Online_def)
qed simp_all

text \<open>A vault opens for one phrase only.  What opens is the device, every table and file of it, claimed for the phrase it was opened
  with; it is offline exactly when the caller asked for that or the indexer could not be reached, and then it says so.  A device that
  is claimed is opened by no phrase with another mark, and the attempt changes nothing; where nothing else fails it is answered as a
  wrong phrase.  No attempt changes more than the mark and the state of the network.
\<close>

lemma one_phrase_opens_a_device:
  assumes "Vault_Open lib g d = (r, d')"
  shows "(\<forall>v. r = Inr v \<longrightarrow> claimed d' = phrase_mark lib (opPhrase g) \<and> claimed d' \<noteq> None
       \<and> Vault_Close (odVault v) = d'\<lparr>dvLog := OpenLog (dvLog d'), dvVectors := OpenStore (dvVectors d')\<rparr>
       \<and> (Online v \<longleftrightarrow> \<not> opOffline g \<and> odOfflineBecause v = None)
       \<and> (\<forall>e. odOfflineBecause v = Some e \<longrightarrow> \<not> opOffline g \<and> errors_Is e ErrIndexerUnreachable))
     \<and> (\<forall>c. claimed d = Some c \<longrightarrow> claimed d' = Some c
       \<and> (phrase_mark lib (opPhrase g) \<noteq> Some c \<longrightarrow> d' = d \<and> (\<exists>e. r = Inl e
           \<and> (phrase_mark lib (opPhrase g) \<noteq> None \<and> (\<forall>op. olFails lib op = None) \<longrightarrow> errors_Is e ErrWrongPhrase))))
     \<and> d' = d\<lparr>dvSettings := dvSettings d', dvNet := dvNet d'\<rparr>"
proof -
  have "d' = d \<and> (\<exists>e. r = Inl e \<and> (phrase_mark lib (opPhrase g) \<noteq> None \<and> (\<forall>op. olFails lib op = None) \<longrightarrow> errors_Is e ErrWrongPhrase))"
    if c: "claimed d = Some c" and w: "phrase_mark lib (opPhrase g) \<noteq> Some c" for c
  proof -
    obtain e where e: "r = Inl e" "d' = d" using Vault_Open_wrong_phrase [OF assms c w] by blast
    have "errors_Is e ErrWrongPhrase" if "phrase_keys (olKeys lib) (opPhrase g) = Inr h" "\<forall>op. olFails lib op = None" for h
      using Vault_Open_says_wrong_phrase [OF c that(1)] w that assms e(1) by (force simp: phrase_mark_def)
    then show ?thesis using e by (auto simp: phrase_mark_def split: sum.splits)
  qed
  then show ?thesis
    using Vault_Open_keeps_claim [OF assms] Vault_Open_touches [OF assms] Vault_Open_Inr [of lib g d _ d'] assms by blast
qed

definition demo_key_lib :: key_lib where
  "demo_key_lib = \<lparr>klEnv = (\<lambda>_. []), klHKDF = (\<lambda>seed label n. Inr (replicate n (hd seed))), klBIP39 = (\<lambda>p. Inr (bytes_of p))\<rparr>"

definition demo_embedder :: embedder where
  "demo_embedder = \<lparr>ebModel = \<lparr>emName = ''m'', emRepo = [], emOnnxFile = [], emDim = 1\<rparr>, ebEmbed = (\<lambda>_. Inr [0x3F800000])\<rparr>"

definition demo_open_lib :: "byte list list open_lib" where
  "demo_open_lib = \<lparr>olKeys = demo_key_lib, olHomeDir = None, olJoin = (@), olFails = (\<lambda>_. None), olIO = io_ok,
     olFetch = (\<lambda>_ dir. Inr dir), olLoad = (\<lambda>_ _. Inr (\<lambda>_. Inr [])), olParseURL = Some, olConnect = (\<lambda>_ _ n. (Inr demo_sdk, n)),
     olOptimal = (\<lambda>_. 1), olOwner = Inr [1], olVectorSealer = (\<lambda>_. demo_vsealer), olEnvironment = demo_venv\<rparr>"

definition demo_options :: "string \<Rightarrow> options" where
  "demo_options phrase = \<lparr>opHome = ''h'', opPhrase = phrase, opAppKey = [], opIndexer = [], opModel = BGESmallEN, opModelDir = [],
     opEmbedder = Some demo_embedder, opFlush = no_policy, opSlabMetaTTL = 0, opOffline = True\<rparr>"

lemma demo_phrases:
  "phrase_keys demo_key_lib ''a'' = Inr \<lparr>hiRecord = replicate 32 0x61, hiContent = replicate 32 0x61, hiManifest = replicate 32 0x61, hiCheck = replicate 32 0x61\<rparr>"
  "phrase_keys demo_key_lib ''b'' = Inr \<lparr>hiRecord = replicate 32 0x62, hiContent = replicate 32 0x62, hiManifest = replicate 32 0x62, hiCheck = replicate 32 0x62\<rparr>"
  by code_simp+

text \<open>A first open that fails after the mark was written leaves the device to the phrase it was tried with.\<close>

lemma failed_open_claims_device:
  assumes "\<And>op. olFails lib op = None" and "claimed d = None" and "phrase_keys (olKeys lib) (opPhrase g) = Inr h"
    and "Load (catalog_env lib \<lparr>slRecord = hiManifest h, slContent = hiContent h\<rparr>) (olIO lib) (OpenLog (dvLog d)) = Inl e"
    and "phrase_keys (olKeys lib) (opPhrase g') = Inr h'" and "hiCheck h' \<noteq> hiCheck h"
  shows "\<exists>d' e'. Vault_Open lib g d = (Inl e, d') \<and> Vault_Open lib g' d' = (Inl e', d') \<and> errors_Is e' ErrWrongPhrase"
proof -
  let ?d = "d\<lparr>dvSettings := PutMeta phraseCheck (hex_encode (hiCheck h)) (dvSettings d)\<rparr>"
  have "checkPhrase lib h d = (Inr (), ?d)"
    using assms(1,2) by (simp add: checkPhrase_def try_open_def GetMeta_def lookup_row_def not_held_def claimed_def Let_def)
  then have "Vault_Open lib g d = (Inl e, ?d)"
    using assms(1,3,4) by (simp add: Vault_Open_def openLocal_def sbind_def slift_def sget_def try_open_def seal_New_def Let_def)
  moreover have "hex_encode (hiCheck h) \<noteq> hex_encode (hiCheck h')" using assms(6) by (metis hex_decode_encode option.inject)
  ultimately show ?thesis
    using Vault_Open_says_wrong_phrase [OF claimed_PutMeta [OF assms(2)] assms(5) _ assms(1)] by blast
qed

section \<open>Closed and opened again\<close>

lemma vec_decode_length: "vec_decodeEntry b = Inr e \<Longrightarrow> length (veVector e) = veDim e"
proof -
  have "length (le_words n w) = n" for n w by (induction n w rule: le_words.induct) simp_all
  then show "vec_decodeEntry b = Inr e \<Longrightarrow> length (veVector e) = veDim e" by (auto simp: vec_decodeEntry_def Let_def split: if_splits)
qed

lemma vec_read_length: "e \<in> set (vec_read sl raw) \<Longrightarrow> length (veVector e) = veDim e"
proof (induction sl raw rule: vec_read.induct)
  case (1 sl raw)
  note m = 1(2) [unfolded vec_read.simps [of sl raw]]
  then have n: "\<not> length raw < 4" by auto
  let ?size = "le_val (take 4 raw)" and ?rest = "drop 4 raw"
  from m n have z: "\<not> (?size = 0 \<or> length ?rest < ?size)" by (intro notI) (simp add: Let_def)
  with m n obtain body where o: "vsOpen sl (take ?size ?rest) = Inr body"
    by (cases "vsOpen sl (take ?size ?rest)") (auto simp: Let_def)
  with m n z obtain x where x: "vec_decodeEntry body = Inr x" by (cases "vec_decodeEntry body") (auto simp: Let_def o)
  with m n z o have "e = x \<or> e \<in> set (vec_read sl (drop ?size ?rest))" by (simp add: Let_def)
  then show ?case using vec_decode_length [OF x] 1(1) [OF n refl refl z o x] by blast
qed

lemma set_hydrated: "set (snd (foldl (\<lambda>v e. hydrate_put e v) v es)) \<subseteq> set (snd v) \<union> set es"
proof (induction es arbitrary: v)
  case Nil
  then show ?case by simp
next
  case (Cons e es)
  have "set (snd (hydrate_put e v)) \<subseteq> insert e (set (snd v))"
    using set_update_subset_insert by (fastforce simp: hydrate_put_def split: prod.splits option.splits)
  then show ?case using Cons [of "hydrate_put e v"] by auto
qed

lemma hydrated_length: "e \<in> set (Store_Hydrate sl st) \<Longrightarrow> length (veVector e) = veDim e"
  using set_hydrated [of "foldl (\<lambda>v e. hydrate_put e v) (Map.empty, []) (case vtBase st of None \<Rightarrow> [] | Some raw \<Rightarrow> vec_read sl raw)" "vec_read sl (vtDelta st)"]
    set_hydrated [of "(Map.empty, [])" "case vtBase st of None \<Rightarrow> [] | Some raw \<Rightarrow> vec_read sl raw"] vec_read_length
  by (fastforce simp: Store_Hydrate_def Let_def split: option.splits)

lemma add_vectors_ok:
  assumes "\<forall>e \<in> set es. veModel e = ixModel ix \<and> length (veVector e) = ixDim ix"
  shows "\<exists>ix'. add_vectors es ix = (Inr (), ix') \<and> (\<forall>i. Index_Has ix' i \<longleftrightarrow> Index_Has ix i \<or> i \<in> veID ` set es)"
  using assms
proof (induction es arbitrary: ix)
  case Nil
  then show ?case by (simp add: sret_def)
next
  case (Cons e es)
  obtain ix1 where a: "Index_Add (veID e) (veModel e) (veVector e) ix = (Inr (), ix1)" "ixModel ix1 = ixModel ix" "ixDim ix1 = ixDim ix"
    "\<And>i. Index_Has ix1 i \<longleftrightarrow> Index_Has ix i \<or> i = veID e"
  proof -
    have "\<exists>ix1. Index_Add (veID e) (veModel e) (veVector e) ix = (Inr (), ix1) \<and> ixModel ix1 = ixModel ix \<and> ixDim ix1 = ixDim ix
        \<and> (\<forall>i. Index_Has ix1 i \<longleftrightarrow> Index_Has ix i \<or> i = veID e)"
      using Cons.prems by (cases "ixAt ix (veID e)") (auto simp: Index_Add_def Index_Has_def)
    then show thesis using that by blast
  qed
  from Cons.IH [of ix1] Cons.prems a show ?case by (auto simp: sbind_def)
qed

definition searchable :: "'n venv \<Rightarrow> vstore \<Rightarrow> recid \<Rightarrow> bool" where
  "searchable ve st i \<longleftrightarrow> (\<exists>e \<in> set (Store_Hydrate (vnVectorSealer ve) st). veID e = i \<and> veModel e = vnModel ve \<and> veDim e = vnDim ve)"

lemma openIndex_ok:
  assumes io: "\<And>n. vnVectorIO ve n = io_ok"
  shows "\<exists>t. openIndex ve s = (Inr (), t) \<and> (\<forall>i. Index_Has (vaIndex t) i \<longleftrightarrow> searchable ve (vaVectors s) i)"
proof -
  let ?es = "filter (\<lambda>e. \<not> (veModel e \<noteq> vnModel ve \<or> veDim e \<noteq> vnDim ve)) (Store_Hydrate (vnVectorSealer ve) (vaVectors s))"
  have "\<forall>e \<in> set ?es. veModel e = ixModel (Index_New (vnModel ve) (vnDim ve)) \<and> length (veVector e) = ixDim (Index_New (vnModel ve) (vnDim ve))"
    using hydrated_length by (fastforce simp: Index_New_def)
  from add_vectors_ok [OF this]
  obtain ix where ix: "add_vectors ?es (Index_New (vnModel ve) (vnDim ve)) = (Inr (), ix)" "\<forall>i. Index_Has ix i \<longleftrightarrow> i \<in> veID ` set ?es"
    by (auto simp: Index_New_def Index_Has_def)
  have "i \<in> veID ` set ?es \<longleftrightarrow> searchable ve (vaVectors s) i" for i by (auto simp: searchable_def)
  with ix show ?thesis by (simp add: openIndex_def on_vectors_def Store_Read_def io io_ok_def classifyVectors_def Let_def)
qed

lemma Store_Hydrate_OpenStore [simp]: "Store_Hydrate sl (OpenStore st) = Store_Hydrate sl st"
  by (simp add: Store_Hydrate_def OpenStore_def)

lemma in_step_reload: "in_step env m \<Longrightarrow> Load env io_ok (OpenLog (mfLog m)) = Inr (m\<lparr>mfLog := OpenLog (mfLog m)\<rparr>)"
proof -
  assume "in_step env m"
  then have "Load env io_ok (mfLog m) = Inr m" by (rule in_step_Load)
  moreover have "Log_Replay env io_ok (OpenLog (mfLog m)) = Log_Replay env io_ok (mfLog m)"
  proof -
    have "lgFile (OpenLog l) = lgFile l" "lgSnap (OpenLog l) = lgSnap l" for l by (simp_all add: OpenLog_def)
    then show ?thesis unfolding Log_Replay_def by (simp only:)
  qed
  ultimately show ?thesis by (cases m) (auto simp: Load_def rbind_Inr_iff split: prod.splits)
qed

text \<open>The indexer takes the key, or there is no reaching it, or nobody asked.\<close>

definition indexer_answers :: "'n open_lib \<Rightarrow> options \<Rightarrow> 'n \<Rightarrow> bool" where
  "indexer_answers lib o0 n \<longleftrightarrow> opOffline o0 \<or> length (opAppKey o0) = 64
     \<and> (case olConnect lib (if opIndexer o0 = [] then DefaultIndexerURL else opIndexer o0) (opAppKey o0) n of
          (Inr k, n') \<Rightarrow> opFlush o0 \<noteq> no_policy \<or> (\<exists>n2. sdkOpen k n' = (Inr (), n2))
        | (Inl e, _) \<Rightarrow> \<not> seUnauthorized e \<and> \<not> seCanceled e \<and> seNetwork e \<and> status_of (why (seError e)) = 0)"

lemma connect_ok:
  assumes "indexer_answers lib o0 (vaNet s)"
  shows "\<exists>sdk because t. connect_or_degrade lib o0 s = (Inr (sdk, because), t) \<and> vaPacker t = vaPacker s \<and> vaManifest t = vaManifest s
    \<and> vaIndex t = vaIndex s
    \<and> (\<forall>k. sdk = Some k \<longrightarrow> opFlush o0 \<noteq> no_policy \<or> (\<exists>n2. sdkOpen k (vaNet t) = (Inr (), n2)))"
proof (cases "opOffline o0")
  case True
  then show ?thesis by (simp add: connect_or_degrade_def)
next
  case False
  let ?url = "if opIndexer o0 = [] then DefaultIndexerURL else opIndexer o0"
  have k: "AppKey_Check (opAppKey o0) = Inr ()" using assms False AppKey_Check_iff by (simp add: indexer_answers_def)
  obtain x n where c: "olConnect lib ?url (opAppKey o0) (vaNet s) = (x, n)" by (cases "olConnect lib ?url (opAppKey o0) (vaNet s)")
  show ?thesis
  proof (cases x)
    case (Inr sdk)
    then have "connect_or_degrade lib o0 s = (Inr (Some sdk, None), s\<lparr>vaNet := n\<rparr>)"
      using False k c by (simp add: connect_or_degrade_def Client_Connect_def Let_def)
    moreover have "opFlush o0 \<noteq> no_policy \<or> (\<exists>n2. sdkOpen sdk n = (Inr (), n2))"
      using assms False c Inr by (simp add: indexer_answers_def)
    ultimately show ?thesis by simp
  next
    case (Inl e)
    let ?err = "shaped_err (asIndexerError (olParseURL lib) ''connect to the indexer'' ?url e)"
    have e: "\<not> seUnauthorized e" "\<not> seCanceled e" "seNetwork e" "status_of (why (seError e)) = 0"
      using assms False c Inl by (simp_all add: indexer_answers_def)
    have "errors_Is ?err ErrIndexerUnreachable" using e by (auto simp: shaped_err_def asIndexerError_def errors_Is_def Let_def split: if_splits)
    then have "connect_or_degrade lib o0 s = (Inr (None, Some ?err), s\<lparr>vaNet := n\<rparr>)"
      using False k c Inl e(1) by (simp add: connect_or_degrade_def Client_Connect_def Let_def)
    then show ?thesis by simp
  qed
qed

lemma openPacker_ok:
  assumes "olOwner lib = Inr b" and "vnQueueFails ve DbState = None"
    and "\<forall>k. sdk = Some k \<longrightarrow> opFlush o0 \<noteq> no_policy \<or> (\<exists>n2. sdkOpen k (vaNet s) = (Inr (), n2))"
  shows "\<exists>t. openPacker lib ve o0 sdk s = (Inr (), t) \<and> pkState (vaPacker t) = QueueState (pkQueue (vaPacker s))
    \<and> vaManifest t = vaManifest s \<and> vaIndex t = vaIndex s"
  using assms
  by (cases sdk; cases "opFlush o0 = no_policy")
    (auto simp: openPacker_def flush_policy_def SlabPayloadSize_def Packer_New_def newOwner_def vault_flusher_def step_defs)

text \<open>A vault closed in any state in which its catalog agrees with its files comes back as it was.  Opening it again with its phrase
  succeeds, on line or off; every table and file is the one that was closed, the catalog the same map in the same order, the records
  that still wait to be written are in the queue and counted, and recall finds exactly the vectors the index files hold for the model.
\<close>

lemma vault_survives_restart:
  assumes "phrase_keys (olKeys lib) (opPhrase g) = Inr h" and "row_of (vaSettings s) phraseCheck = Some (hex_encode (hiCheck h))"
    and "in_step (catalog_env lib \<lparr>slRecord = hiManifest h, slContent = hiContent h\<rparr>) (vaManifest s)"
    and "\<And>op. olFails lib op = None" and "olIO lib = io_ok" and "openEmbedder lib (applyDefaults lib g) = Inr e"
    and "olOwner lib = Inr b" and "vnQueueFails (olEnvironment lib) DbState = None" and "\<And>n. vnVectorIO (olEnvironment lib) n = io_ok"
    and "indexer_answers lib (applyDefaults lib g) (vaNet s)"
  shows "\<exists>v d'. Vault_Open lib g (Vault_Close s) = (Inr v, d')
     \<and> Vault_Close (odVault v) = (Vault_Close s)\<lparr>dvLog := OpenLog (mfLog (vaManifest s)), dvVectors := OpenStore (vaVectors s), dvNet := vaNet (odVault v)\<rparr>
     \<and> mfEntries (vaManifest (odVault v)) = mfEntries (vaManifest s) \<and> mfOrder (vaManifest (odVault v)) = mfOrder (vaManifest s)
     \<and> Vault_Pending (odVault v) = int (length (pkQueue (vaPacker s)))
     \<and> (\<forall>i. Index_Has (vaIndex (odVault v)) i \<longleftrightarrow> searchable (odEnv v) (vaVectors s) i)"
proof -
  let ?o = "applyDefaults lib g" and ?d = "Vault_Close s"
  let ?sl = "\<lparr>slRecord = hiRecord h, slContent = hiContent h\<rparr>"
  let ?ce = "catalog_env lib \<lparr>slRecord = hiManifest h, slContent = hiContent h\<rparr>"
  let ?mf = "(vaManifest s)\<lparr>mfLog := OpenLog (mfLog (vaManifest s))\<rparr>"
  let ?ve = "opened_env lib ?o ?sl ?ce e"
  let ?s0 = "opened_vault ?ve ?d ?mf"
  have dv: "dvLog ?d = mfLog (vaManifest s)" "dvVectors ?d = vaVectors s" "dvSettings ?d = vaSettings s" "dvQueue ?d = pkQueue (vaPacker s)"
    "dvNet ?d = vaNet s" by (simp_all add: Vault_Close_def)
  have loc: "openLocal lib h ?d = (Inr (?sl, ?ce, ?mf), ?d)"
    using assms(2,4,5) in_step_reload [OF assms(3)]
    by (simp add: openLocal_def checkPhrase_def step_defs seal_New_def try_open_def GetMeta_def lookup_row_def Let_def dv)
  obtain s1 where i: "openIndex ?ve ?s0 = (Inr (), s1)" "\<forall>i. Index_Has (vaIndex s1) i \<longleftrightarrow> searchable ?ve (vaVectors ?s0) i"
    using openIndex_ok [of ?ve ?s0] assms(9) by (auto simp: opened_env_def)
  note K = openIndex_keeps [OF i(1)]
  have n: "vaNet s1 = vaNet s" using K by (simp add: opened_vault_def dv)
  have m1: "vaManifest s1 = ?mf" using i(1) by (auto simp: openIndex_def on_vectors_def opened_vault_def split: prod.splits sum.splits)
  obtain sdk because s2 where c: "connect_or_degrade lib ?o s1 = (Inr (sdk, because), s2)" "vaPacker s2 = vaPacker s1"
      "vaManifest s2 = vaManifest s1" "vaIndex s2 = vaIndex s1"
      "\<forall>k. sdk = Some k \<longrightarrow> opFlush ?o \<noteq> no_policy \<or> (\<exists>n2. sdkOpen k (vaNet s2) = (Inr (), n2))"
    using connect_ok [of lib ?o s1] assms(10) unfolding n by blast
  let ?ve' = "connected_env ?ve sdk"
  have "vnQueueFails ?ve' DbState = None" using assms(8) by (simp add: connected_env_def opened_env_def split: option.splits)
  from openPacker_ok [OF assms(7) this c(5)]
  obtain s3 where k: "openPacker lib ?ve' ?o sdk s2 = (Inr (), s3)" "pkState (vaPacker s3) = QueueState (pkQueue (vaPacker s2))"
      "vaManifest s3 = vaManifest s2" "vaIndex s3 = vaIndex s2" by blast
  have st: "open_state lib ?ve ?o ?s0 = (Inr (?ve', because), s3)" using i(1) c(1) k(1) by (simp add: open_state_def step_defs)
  let ?v = "\<lparr>odEnv = ?ve', odVault = s3, odOfflineBecause = because\<rparr>"
  have op: "Vault_Open lib g ?d = (Inr ?v, ?d\<lparr>dvNet := vaNet s3\<rparr>)"
    using assms(1,4,6) loc st by (simp add: Vault_Open_def step_defs try_open_def Let_def)
  have "Vault_Close s3 = ?d\<lparr>dvLog := OpenLog (mfLog (vaManifest s)), dvVectors := OpenStore (vaVectors s), dvNet := vaNet s3\<rparr>"
    using conjunct1 [OF conjunct2 [OF conjunct2 [OF Vault_Open_Inr [OF op]]]] by (simp add: dv)
  moreover have "Vault_Pending s3 = int (length (pkQueue (vaPacker s)))"
    using K by (simp add: Vault_Pending_def Packer_Pending_def k(2) c(2) QueueState_def opened_vault_def dv)
  moreover have "searchable ?ve (vaVectors ?s0) j = searchable ?ve' (vaVectors s) j" for j
    by (simp add: searchable_def opened_vault_def dv connected_env_def split: option.splits)
  ultimately show ?thesis using op i(2) by (simp add: k(3,4) c(3,4) m1)
qed

end
